(* ===== verification/Prelude.thy ===== *)
theory Prelude
  imports "HOL-Library.Word" "HOL-Library.Finite_Map" "HOL-Library.Product_Lexorder"
begin

unbundle bit_operations_syntax

text \<open>
  Shared vocabulary of the development: bytes and fixed-length byte arrays, the error values of
  the Go packages, the result type of fallible functions, big- and little-endian integers, byte
  order comparison, and facts on lists and finite maps that several components use.

  A Go array \<open>[n]byte\<close> is a word of \<open>8 * n\<close> bits; \<open>word_bytes\<close> reads it as the byte
  slice \<open>a[:]\<close> and \<open>bytes_word\<close> copies a slice into it. A Go slice \<open>[]byte\<close> is a list of
  bytes. A Go map is a finite map (\<open>fmap\<close>), and iterating over its sorted keys is iterating
  over \<open>sorted_list_of_fset\<close> of its domain.
\<close>

section \<open>Hint collections\<close>

named_theorems eval_simps \<open>unfoldings that evaluate closed byte-level terms\<close>
named_theorems len_simps \<open>lengths of encodings\<close>
named_theorems codec_simps \<open>a decoder undoes its encoder\<close>

section \<open>Results of fallible functions\<close>

text \<open>
  The sentinel errors of the Go packages. The message texts are dropped; \<open>ErrOther\<close> is an
  \<open>errors.New\<close> or \<open>fmt.Errorf\<close> that wraps no sentinel, tagged with where it arises.
  \<open>GoPanic\<close> is a run-time panic (index out of range, nil dereference).
\<close>

datatype err =
    ErrOversized | ErrRLP | ErrCodec
  | ErrEmptyKey | ErrClosed | ErrBatchClosed
  | ErrAccountNotFound | ErrSessionCommitted
  | ErrNotFound | ErrNoGenesis | ErrAlreadyInit | ErrBadParent | ErrBadHeight
  | ErrBadChainID | ErrGenesisMismatch | ErrSchemaMismatch
  | ErrDuplicate | ErrPoolFull | ErrAccountQueueFull | ErrNonceTooLow | ErrReplaceTooCheap
  | ErrFeeTooLow | ErrGasLimitTooHigh
  | ErrNotProposer | ErrInvalidMessage | ErrOldHeight | ErrUnknownValidator | ErrBadSignature
  | ErrOther string
  | GoPanic

type_synonym 'a res = "err + 'a"

text \<open>Go's \<open>if err != nil { return err }\<close> between two steps.\<close>

definition and_then :: "'e + 'a \<Rightarrow> ('a \<Rightarrow> 'e + 'b) \<Rightarrow> 'e + 'b" where
  "and_then m f = (case m of Inl e \<Rightarrow> Inl e | Inr x \<Rightarrow> f x)"

lemma and_then_simps [simp]:
  "and_then (Inl e) f = Inl e"
  "and_then (Inr x) f = f x"
  by (simp_all add: and_then_def)

lemma and_then_Inr_iff: "and_then m f = Inr y \<longleftrightarrow> (\<exists>x. m = Inr x \<and> f x = Inr y)"
  by (cases m) auto

lemma and_then_Inl_iff:
  "and_then m f = Inl e \<longleftrightarrow> m = Inl e \<or> (\<exists>x. m = Inr x \<and> f x = Inl e)"
  by (cases m) auto

lemma and_then_cong [fundef_cong]:
  "m = m' \<Longrightarrow> (\<And>x. m' = Inr x \<Longrightarrow> f x = g x) \<Longrightarrow> and_then m f = and_then m' g"
  by (cases m') auto

text \<open>The same result seen through a function.\<close>

definition res_map :: "('a \<Rightarrow> 'b) \<Rightarrow> 'e + 'a \<Rightarrow> 'e + 'b" where
  "res_map f r = (case r of Inl e \<Rightarrow> Inl e | Inr x \<Rightarrow> Inr (f x))"

lemma res_map_simps [simp]: "res_map f (Inl e) = Inl e" "res_map f (Inr x) = Inr (f x)"
  by (simp_all add: res_map_def)

text \<open>An early return guarded by a condition.\<close>

definition guard :: "bool \<Rightarrow> 'e \<Rightarrow> 'e + unit" where
  "guard b e = (if b then Inr () else Inl e)"

lemma guard_simps [simp]:
  "guard True e = Inr ()"
  "guard False e = Inl e"
  "guard b e = Inr u \<longleftrightarrow> b"
  "guard b e = Inl e' \<longleftrightarrow> \<not> b \<and> e' = e"
  by (auto simp: guard_def)

text \<open>A loop over a list that threads a state and stops at the first error.\<close>

fun each :: "('a \<Rightarrow> 's \<Rightarrow> 'e + 's) \<Rightarrow> 'a list \<Rightarrow> 's \<Rightarrow> 'e + 's" where
  "each f [] s = Inr s"
| "each f (x # xs) s = and_then (f x s) (each f xs)"

lemma res_map_Inr_iff: "res_map f r = Inr y \<longleftrightarrow> (\<exists>x. r = Inr x \<and> y = f x)"
  by (cases r) auto

lemma each_append: "each f (xs @ ys) s = and_then (each f xs s) (each f ys)"
proof (induction xs arbitrary: s)
  case (Cons x xs)
  then show ?case by (cases "f x s") simp_all
qed simp

lemma each_invariant:
  assumes "\<And>x s s'. x \<in> set xs \<Longrightarrow> I s \<Longrightarrow> f x s = Inr s' \<Longrightarrow> I s'"
  shows "I s \<Longrightarrow> each f xs s = Inr s' \<Longrightarrow> I s'"
  using assms
proof (induction xs arbitrary: s)
  case (Cons x xs)
  then obtain t where t: "f x s = Inr t" "each f xs t = Inr s'" by (auto simp: and_then_Inr_iff)
  have "I t" using Cons.prems(3) [of x s t] Cons.prems(1) t(1) by simp
  then show ?case by (rule Cons.IH [OF _ t(2)]) (rule Cons.prems(3), simp_all)
qed simp

definition is_ok :: "'e + 'a \<Rightarrow> bool" where
  "is_ok r = (case r of Inl _ \<Rightarrow> False | Inr _ \<Rightarrow> True)"

lemma is_ok_simps [simp]: "is_ok (Inr x)" "\<not> is_ok (Inl e)"
  by (simp_all add: is_ok_def)

lemma is_ok_iff: "is_ok r \<longleftrightarrow> (\<exists>x. r = Inr x)"
  by (cases r) auto

section \<open>Bytes and integers\<close>

type_synonym byte = "8 word"
type_synonym bytes = "byte list"
type_synonym uint64 = "64 word"
type_synonym uint32 = "32 word"

text \<open>Big-endian bytes of a number, \<open>n\<close> of them, and back.\<close>

fun be_bytes :: "nat \<Rightarrow> nat \<Rightarrow> bytes" where
  "be_bytes 0 v = []"
| "be_bytes (Suc n) v = be_bytes n (v div 256) @ [word_of_nat v]"

definition be_val :: "bytes \<Rightarrow> nat" where
  "be_val bs = foldl (\<lambda>a b. a * 256 + unat b) 0 bs"

lemma length_be_bytes [simp, len_simps]: "length (be_bytes n v) = n"
  by (induction n arbitrary: v) auto

lemma be_val_Nil [simp]: "be_val [] = 0"
  by (simp add: be_val_def)

lemma be_val_snoc [simp]: "be_val (xs @ [b]) = be_val xs * 256 + unat b"
  by (simp add: be_val_def)

lemma unat_less_pow: "unat (w :: 'a::len word) < 2 ^ LENGTH('a)"
  by (rule unsigned_less)

lemma uint_less_pow: "uint (w :: 'a::len word) < 2 ^ LENGTH('a)"
  by (rule unsigned_less)

lemma unat_eqI: "unat v = unat w \<Longrightarrow> v = (w :: 'a::len word)"
  by (rule unsigned_word_eqI)

lemma unat_byte_less [simp]: "unat (b :: byte) < 256"
  using unat_less_pow [of b] by simp

lemma be_val_append: "be_val (xs @ ys) = be_val xs * 256 ^ length ys + be_val ys"
proof (induction ys rule: rev_induct)
  case (snoc y ys)
  have "be_val (xs @ ys @ [y]) = be_val ((xs @ ys) @ [y])" by simp
  also have "\<dots> = be_val xs * 256 ^ length (ys @ [y]) + be_val (ys @ [y])"
    unfolding be_val_snoc snoc.IH by (simp add: algebra_simps)
  finally show ?case by simp
qed simp

lemma be_val_Cons: "be_val (b # bs) = unat b * 256 ^ length bs + be_val bs"
  using be_val_append [of "[b]" bs] by (simp add: be_val_def)

lemma be_val_less: "be_val bs < 256 ^ length bs"
proof (induction bs rule: rev_induct)
  case (snoc b bs)
  have "be_val bs * 256 + unat b < be_val bs * 256 + 256" by simp
  also have "\<dots> \<le> 256 ^ length bs * 256" using snoc.IH by (simp flip: mult_Suc)
  finally show ?case by simp
qed simp

lemma be_val_be_bytes: "be_val (be_bytes n v) = v mod 256 ^ n"
proof (induction n arbitrary: v)
  case (Suc n)
  have u: "unat (word_of_nat v :: byte) = v mod 256" by (simp add: unat_of_nat)
  have "v mod (256 * 256 ^ n) = 256 * (v div 256 mod 256 ^ n) + v mod 256"
    by (rule mod_mult2_eq)
  with Suc.IH [of "v div 256"] u show ?case by (simp add: algebra_simps)
qed simp

lemma be_bytes_be_val: "length bs = n \<Longrightarrow> be_bytes n (be_val bs) = bs"
proof (induction n arbitrary: bs)
  case (Suc n)
  then obtain xs b where bs: "bs = xs @ [b]" and xs: "length xs = n"
    by (cases bs rule: rev_cases) auto
  have "(be_val xs * 256 + unat b) div 256 = be_val xs"
    using unat_byte_less [of b] by (simp del: unat_byte_less)
  moreover have "(word_of_nat (be_val xs * 256 + unat b) :: byte) = b"
  proof -
    have "unat (word_of_nat (be_val xs * 256 + unat b) :: byte) = unat b"
      by (simp add: unat_of_nat del: of_nat_add of_nat_mult)
    then show ?thesis by (rule unsigned_word_eqI)
  qed
  ultimately show ?case by (simp add: bs Suc.IH xs)
qed simp

lemma be_bytes_inj:
  assumes "be_bytes n a = be_bytes n b" "a < 256 ^ n" "b < 256 ^ n"
  shows "a = b"
  by (metis assms be_val_be_bytes mod_less)

text \<open>A fixed-length byte array as a word.\<close>

definition word_bytes :: "'a::len word \<Rightarrow> bytes" where
  "word_bytes w = be_bytes (LENGTH('a) div 8) (unat w)"

definition bytes_word :: "bytes \<Rightarrow> 'a::len word" where
  "bytes_word bs = word_of_nat (be_val bs)"

lemma length_word_bytes [simp, len_simps]:
  "length (word_bytes (w :: 'a::len word)) = LENGTH('a) div 8"
  by (simp add: word_bytes_def)

lemma pow256: "(256::nat) ^ n = 2 ^ (8 * n)"
  by (simp add: power_mult)

lemma bytes_word_word_bytes [simp]:
  assumes "8 dvd LENGTH('a::len)"
  shows "bytes_word (word_bytes (w :: 'a word)) = w"
proof -
  have "8 * (LENGTH('a) div 8) = LENGTH('a)" using assms by simp
  then have "unat w < 256 ^ (LENGTH('a) div 8)" using unat_less_pow [of w] by (simp add: pow256)
  then show ?thesis by (simp add: bytes_word_def word_bytes_def be_val_be_bytes)
qed

lemma unat_bytes_word: "be_val bs < 2 ^ LENGTH('a) \<Longrightarrow> unat (bytes_word bs :: 'a::len word) = be_val bs"
  by (simp add: bytes_word_def unat_of_nat)

lemma word_bytes_bytes_word:
  assumes "8 dvd LENGTH('a::len)" "length bs = LENGTH('a) div 8"
  shows "word_bytes (bytes_word bs :: 'a word) = bs"
proof -
  have "8 * (LENGTH('a) div 8) = LENGTH('a)" using assms by simp
  then have "be_val bs < 2 ^ LENGTH('a)" using be_val_less [of bs] assms by (simp add: pow256)
  then have "unat (bytes_word bs :: 'a word) = be_val bs"
    by (simp add: bytes_word_def unat_of_nat)
  then show ?thesis by (simp add: word_bytes_def be_bytes_be_val assms)
qed

lemma word_bytes_eq_iff [simp]:
  assumes "8 dvd LENGTH('a::len)"
  shows "word_bytes (v :: 'a word) = word_bytes w \<longleftrightarrow> v = w"
  using assms bytes_word_word_bytes by metis


lemma word_bytes_zero: "word_bytes (0 :: 'a::len word) = replicate (LENGTH('a) div 8) 0"
proof -
  have "be_bytes n 0 = replicate n 0" for n
    by (induction n) (simp_all add: replicate_append_same)
  then show ?thesis by (simp add: word_bytes_def)
qed

lemma bytes_word_zeros [simp]: "bytes_word (replicate n 0) = 0"
proof -
  have "be_val (replicate n 0) = 0"
    by (induction n) (simp_all add: be_val_Cons)
  then show ?thesis by (simp add: bytes_word_def)
qed

text \<open>Little-endian 32-bit integers, the length prefixes of blocks and receipts.\<close>

definition le_bytes :: "nat \<Rightarrow> nat \<Rightarrow> bytes" where
  "le_bytes n v = rev (be_bytes n v)"

definition le_val :: "bytes \<Rightarrow> nat" where
  "le_val bs = be_val (rev bs)"

lemma length_le_bytes [simp, len_simps]: "length (le_bytes n v) = n"
  by (simp add: le_bytes_def)

lemma le_val_le_bytes: "le_val (le_bytes n v) = v mod 256 ^ n"
  by (simp add: le_val_def le_bytes_def be_val_be_bytes)

lemma le_val_less: "le_val bs < 256 ^ length bs"
  using be_val_less [of "rev bs"] by (simp add: le_val_def)

section \<open>Byte order\<close>

text \<open>The byte-by-byte comparison loop of \<open>Address.Compare\<close> and \<open>compareHash\<close>.\<close>

fun cmp_bytes :: "bytes \<Rightarrow> bytes \<Rightarrow> int" where
  "cmp_bytes (a # as) (b # bs) = (if a < b then -1 else if b < a then 1 else cmp_bytes as bs)"
| "cmp_bytes _ _ = 0"

lemma cmp_bytes_be_val:
  "length xs = length ys \<Longrightarrow>
   cmp_bytes xs ys = (if be_val xs < be_val ys then -1 else if be_val ys < be_val xs then 1 else 0)"
proof (induction xs ys rule: cmp_bytes.induct)
  case (1 a as b bs)
  have len: "length as = length bs" using "1.prems" by simp
  have bound: "unat x * 256 ^ length bs + be_val xs < unat y * 256 ^ length bs + be_val ys"
    if "x < y" "length xs = length bs" for x y :: byte and xs ys
  proof -
    have "be_val xs < 256 ^ length bs" using be_val_less [of xs] that by simp
    then have "unat x * 256 ^ length bs + be_val xs < Suc (unat x) * 256 ^ length bs" by simp
    also have "\<dots> \<le> unat y * 256 ^ length bs"
      using that by (intro mult_le_mono1) (simp add: word_less_nat_alt)
    finally show ?thesis by simp
  qed
  consider "a < b" | "b < a" | "a = b" by (rule linorder_cases)
  then show ?case
  proof cases
    case 1
    then show ?thesis using bound [OF 1 len] by (simp add: be_val_Cons len)
  next
    case 2
    then show ?thesis using bound [OF 2 refl] by (simp add: be_val_Cons len not_less_iff_gr_or_eq)
  next
    case 3
    then show ?thesis using "1.IH" len by (simp add: be_val_Cons)
  qed
qed auto

lemma be_val_word_bytes [simp]:
  "8 dvd LENGTH('a::len) \<Longrightarrow> be_val (word_bytes (w :: 'a word)) = unat w"
  using unat_less_pow [of w] by (simp add: word_bytes_def be_val_be_bytes pow256)

lemma cmp_bytes_word:
  "8 dvd LENGTH('a::len) \<Longrightarrow>
   cmp_bytes (word_bytes (v :: 'a word)) (word_bytes w) = (if v < w then -1 else if w < v then 1 else 0)"
  by (simp add: cmp_bytes_be_val word_less_nat_alt)

section \<open>Finite maps in key order\<close>

text \<open>\<open>slices.Sorted(maps.Keys(m))\<close>, the only way the core packages walk a map.\<close>

definition sorted_keys :: "('k::linorder, 'v) fmap \<Rightarrow> 'k list" where
  "sorted_keys m = sorted_list_of_fset (fmdom m)"

lemma set_sorted_keys [simp]: "set (sorted_keys m) = fmdom' m"
  by (simp add: sorted_keys_def fmdom'_alt_def)

lemma sorted_sorted_keys [simp]: "sorted (sorted_keys m)" "distinct (sorted_keys m)"
  by (simp_all add: sorted_keys_def sorted_list_of_fset.rep_eq)

lemma sorted_keys_fmempty [simp]: "sorted_keys fmempty = []"
  by (simp add: sorted_keys_def sorted_list_of_fset.rep_eq)

lemma sorted_keys_fmupd [eval_simps]:
  "sorted_keys (fmupd k v m) = insort k (List.remove1 k (sorted_keys m))"
  by (simp add: sorted_keys_def sorted_list_of_fset.rep_eq sorted_list_of_set_insert_remove
      sorted_list_of_set_remove)

lemma sorted_keys_eqI: "fmdom m = fmdom n \<Longrightarrow> sorted_keys m = sorted_keys n"
  by (simp add: sorted_keys_def)

lemma fmap_eq_sorted_keys:
  assumes "sorted_keys m = sorted_keys n"
    "\<And>k. k \<in> set (sorted_keys m) \<Longrightarrow> the (fmlookup m k) = the (fmlookup n k)"
  shows "m = n"
proof (rule fmap_ext)
  fix k
  have dom: "k \<in> fmdom' m \<longleftrightarrow> k \<in> fmdom' n"
    using arg_cong [OF assms(1), of set] by simp
  show "fmlookup m k = fmlookup n k"
  proof (cases "k \<in> fmdom' m")
    case True
    then obtain x y where "fmlookup m k = Some x" "fmlookup n k = Some y"
      using dom by (auto simp: fmlookup_dom'_iff)
    then show ?thesis using assms(2) [of k] True by simp
  qed (use dom in \<open>simp add: fmdom'_notD\<close>)
qed

definition fm_size :: "('k, 'v) fmap \<Rightarrow> nat" where
  "fm_size m = fcard (fmdom m)"

lemma fm_size_empty [simp]: "fm_size fmempty = 0"
  by (simp add: fm_size_def)

lemma fm_size_upd:
  "fm_size (fmupd k v m) = (if fmlookup m k = None then Suc (fm_size m) else fm_size m)"
  by (auto simp: fm_size_def fcard_finsert_if fmlookup_dom_iff fmdom_notI)

lemma fm_size_drop:
  "fm_size (fmdrop k m) = (if fmlookup m k = None then fm_size m else fm_size m - 1)"
  by (auto simp: fm_size_def fmdom_notI fmlookup_dom_iff fcard.rep_eq card_Diff_singleton_if)

section \<open>Reading from the front of a slice\<close>

text \<open>
  The closures \<open>read8\<close>, \<open>read32\<close> and \<open>take\<close> of the decoders: split off the first \<open>n\<close>
  bytes, or fail when there are fewer.
\<close>

definition split_at :: "nat \<Rightarrow> bytes \<Rightarrow> 'e \<Rightarrow> 'e + (bytes \<times> bytes)" where
  "split_at n bs e = (if length bs < n then Inl e else Inr (take n bs, drop n bs))"

lemma split_at_append [simp]: "length xs = n \<Longrightarrow> split_at n (xs @ ys) e = Inr (xs, ys)"
  by (simp add: split_at_def)

lemma split_at_Inr_iff:
  "split_at n bs e = Inr (xs, ys) \<longleftrightarrow> length xs = n \<and> bs = xs @ ys"
  by (auto simp: split_at_def)

lemma split_at_Inl_iff: "split_at n bs e = Inl e' \<longleftrightarrow> length bs < n \<and> e' = e"
  by (auto simp: split_at_def)

lemma split_at_cases:
  obtains "length bs < n" "split_at n bs e = Inl e"
  | xs ys where "bs = xs @ ys" "length xs = n" "split_at n bs e = Inr (xs, ys)"
proof (cases "length bs < n")
  case True
  then show ?thesis using that(1) by (simp add: split_at_def)
next
  case False
  then show ?thesis using that(2) [of "take n bs" "drop n bs"] by (simp add: split_at_def)
qed


text \<open>The slice expression \<open>xs[lo:hi]\<close> and the index expression \<open>xs[i]\<close>, which panic out of
  range.\<close>

definition slice :: "nat \<Rightarrow> nat \<Rightarrow> 'a list \<Rightarrow> 'a list res" where
  "slice lo hi xs = (if lo \<le> hi \<and> hi \<le> length xs then Inr (take (hi - lo) (drop lo xs)) else Inl GoPanic)"

definition index :: "'a list \<Rightarrow> nat \<Rightarrow> 'a res" where
  "index xs i = (if i < length xs then Inr (xs ! i) else Inl GoPanic)"

lemma slice_ok [simp]: "lo \<le> hi \<Longrightarrow> hi \<le> length xs \<Longrightarrow> slice lo hi xs = Inr (take (hi - lo) (drop lo xs))"
  by (simp add: slice_def)

lemma index_ok [simp]: "i < length xs \<Longrightarrow> index xs i = Inr (xs ! i)"
  by (simp add: index_def)

lemma slice_Inr_length:
  "slice lo hi xs = Inr ys \<Longrightarrow> lo \<le> hi \<and> hi \<le> length xs \<and> length ys = hi - lo \<and> ys = take (hi - lo) (drop lo xs)"
  by (auto simp: slice_def split: if_splits)


section \<open>Big-endian bytes from the front, and without leading zeros\<close>

lemma be_bytes_Suc_Cons: "be_bytes (Suc n) v = word_of_nat (v div 256 ^ n) # be_bytes n v"
proof (induction n arbitrary: v)
  case (Suc n)
  have "be_bytes (Suc (Suc n)) v = be_bytes (Suc n) (v div 256) @ [word_of_nat v]"
    by (rule be_bytes.simps(2))
  also have "be_bytes (Suc n) (v div 256) = word_of_nat (v div 256 div 256 ^ n) # be_bytes n (v div 256)"
    by (rule Suc.IH)
  also have "v div 256 div 256 ^ n = v div 256 ^ Suc n" by (simp add: div_mult2_eq)
  finally show ?case by simp
qed simp

lemma be_bytes_append_zeros: "length bs \<le> n \<Longrightarrow> be_bytes n (be_val bs) = replicate (n - length bs) 0 @ bs"
proof (induction n)
  case (Suc n)
  show ?case
  proof (cases "length bs = Suc n")
    case True
    then show ?thesis using be_bytes_be_val [of bs "Suc n"] by simp
  next
    case False
    with Suc.prems have le: "length bs \<le> n" by simp
    have "be_val bs < 256 ^ length bs" by (rule be_val_less)
    also have "\<dots> \<le> 256 ^ n" using le by (simp add: power_increasing)
    finally have "be_val bs div 256 ^ n = 0" by simp
    then show ?thesis using Suc.IH [OF le] le by (simp add: be_bytes_Suc_Cons Suc_diff_le del: be_bytes.simps)
  qed
qed simp

definition strip_zeros :: "bytes \<Rightarrow> bytes" where
  "strip_zeros bs = dropWhile (\<lambda>b. b = 0) bs"

lemma be_val_strip_zeros [simp]: "be_val (strip_zeros bs) = be_val bs"
  by (induction bs) (simp_all add: strip_zeros_def be_val_Cons)

lemma strip_zeros_hd: "strip_zeros bs \<noteq> [] \<Longrightarrow> strip_zeros bs ! 0 \<noteq> 0"
  using hd_dropWhile [of "\<lambda>b. b = 0" bs] by (auto simp: strip_zeros_def hd_conv_nth)

lemma length_strip_zeros: "length (strip_zeros bs) \<le> length bs"
  by (simp add: strip_zeros_def length_dropWhile_le)

lemma strip_zeros_canonical:
  assumes "length bs \<le> n" "bs \<noteq> [] \<Longrightarrow> bs ! 0 \<noteq> 0"
  shows "strip_zeros (be_bytes n (be_val bs)) = bs"
proof -
  have "strip_zeros bs = bs" using assms(2) by (cases bs) (auto simp: strip_zeros_def)
  moreover have "strip_zeros (replicate m 0 @ bs) = strip_zeros bs" for m
    by (induction m) (simp_all add: strip_zeros_def)
  ultimately show ?thesis by (simp add: be_bytes_append_zeros assms(1))
qed

lemma be_val_eq_0_iff: "be_val bs = 0 \<longleftrightarrow> strip_zeros bs = []"
  by (induction bs) (auto simp: strip_zeros_def be_val_Cons unat_eq_0)

text \<open>Shifting in one byte, as the integer parsers do.\<close>

lemma shift_in_byte: "push_bit 8 (v :: 'a::len word) OR ucast (b :: byte) = v * 256 + ucast b"
proof -
  have "push_bit 8 v AND ucast b = 0"
    by (rule bit_word_eqI) (auto simp: bit_simps dest: bit_imp_le_length)
  then have "push_bit 8 v OR ucast b = push_bit 8 v + ucast b" by (rule disjunctive_add_eq_or [symmetric])
  then show ?thesis by (simp add: push_bit_eq_mult)
qed

lemma unat_shift_in_byte:
  assumes "unat (v :: uint64) < 2 ^ 56"
  shows "unat (push_bit 8 v OR ucast (b :: byte)) = unat v * 256 + unat b"
proof -
  have "unat b < 2 ^ 64" by (rule order_less_trans [OF unat_byte_less]) simp
  then have b: "unat (ucast b :: uint64) = unat b"
    by (simp add: unsigned_ucast_eq take_bit_eq_mod)
  have "unat b < 256" by simp
  moreover have "unat v < 72057594037927936" using assms by simp
  ultimately have "unat v * 256 + unat b < 18446744073709551616" by linarith
  then show ?thesis unfolding shift_in_byte by (simp add: unat_word_ariths b)
qed

text \<open>\<open>big.Int.Bytes\<close>: the shortest big-endian bytes of a number.\<close>

fun nat_bytes :: "nat \<Rightarrow> bytes" where
  "nat_bytes v = (if v = 0 then [] else nat_bytes (v div 256) @ [word_of_nat v])"

declare nat_bytes.simps [simp del]

lemma nat_bytes_0 [simp]: "nat_bytes 0 = []"
  by (simp add: nat_bytes.simps)

lemma be_val_nat_bytes [simp]: "be_val (nat_bytes v) = v"
proof (induction v rule: nat_bytes.induct)
  case (1 v)
  then show ?case by (cases "v = 0") (simp_all add: nat_bytes.simps [of v] unat_of_nat)
qed

lemma nat_bytes_hd: "0 < v \<Longrightarrow> nat_bytes v \<noteq> [] \<and> nat_bytes v ! 0 \<noteq> 0"
proof (induction v rule: nat_bytes.induct)
  case (1 v)
  show ?case
  proof (cases "v div 256 = 0")
    case True
    then have "v mod 256 = v" by simp
    then have "unat (word_of_nat v :: byte) \<noteq> 0" using "1.prems" by (simp add: unat_of_nat)
    then show ?thesis using True "1.prems" by (simp add: nat_bytes.simps [of v] unat_eq_0)
  next
    case False
    then show ?thesis using "1.IH" "1.prems" by (simp add: nat_bytes.simps [of v] nth_append)
  qed
qed

lemma nat_bytes_unique:
  assumes "bs \<noteq> [] \<Longrightarrow> bs ! 0 \<noteq> 0"
  shows "nat_bytes (be_val bs) = bs"
  using assms
proof (induction bs rule: rev_induct)
  case (snoc b bs)
  have hd: "bs \<noteq> [] \<Longrightarrow> bs ! 0 \<noteq> 0" using snoc.prems by (cases bs) auto
  have "be_val (bs @ [b]) \<noteq> 0"
  proof (cases "bs = []")
    case True
    then show ?thesis using snoc.prems be_val_snoc [of "[]" b] by (simp add: unat_eq_0)
  next
    case False
    then have "be_val bs \<noteq> 0" using hd snoc.IH nat_bytes_0 by metis
    then show ?thesis by simp
  qed
  moreover have "(be_val bs * 256 + unat b) div 256 = be_val bs"
    using unat_byte_less [of b] by (simp del: unat_byte_less)
  moreover have "(word_of_nat (be_val bs * 256 + unat b) :: byte) = b"
    by (rule unat_eqI) (simp add: unat_of_nat del: of_nat_add of_nat_mult)
  ultimately show ?case using snoc.IH hd by (simp add: nat_bytes.simps [of "be_val bs * 256 + unat b"])
qed simp

end
