(* ===== verification/Types.thy ===== *)
theory Types
  imports Prelude
begin

text \<open>
  The domain types of \<open>types/types.go\<close>: hashes, addresses, signatures and bloom filters as
  words of their byte width, the checked 256-bit arithmetic of \<open>Uint256\<close>, the byte-order
  comparison of addresses, and the hexadecimal text form. The named hash types of the source
  (\<open>BlockHash\<close>, \<open>TxHash\<close>, \<dots>) share the representation of \<open>Hash\<close>.
\<close>

section \<open>Fixed-length arrays and scalars\<close>

type_synonym hash = "256 word"
type_synonym address = "160 word"
type_synonym signature = "520 word"
type_synonym bloom = "2048 word"
type_synonym uint256 = "256 word"
type_synonym height = uint64
type_synonym nonce = uint64
type_synonym gas = uint64
type_synonym round = uint32

definition AddressLen :: nat where "AddressLen = 20"
definition HashLen :: nat where "HashLen = 32"
definition BloomLen :: nat where "BloomLen = 256"
definition SignatureLen :: nat where "SignatureLen = 65"
definition MaxTxSize :: nat where "MaxTxSize = 128 * 1024"
definition MaxBlockSize :: nat where "MaxBlockSize = 2 * 1024 * 1024"
definition MaxExtraData :: nat where "MaxExtraData = 32"
definition NoPOLRound :: round where "NoPOLRound = 0xFFFFFFFF"

lemmas size_consts = AddressLen_def HashLen_def BloomLen_def SignatureLen_def MaxTxSize_def
  MaxBlockSize_def MaxExtraData_def

section \<open>Uint256\<close>

definition zero_uint256 :: uint256 where
  "zero_uint256 = 0"

text \<open>Bytes 24 to 31 of the array are the eight bytes of the argument.\<close>

definition uint256_from_uint64 :: "uint64 \<Rightarrow> uint256" where
  "uint256_from_uint64 v = bytes_word (replicate 24 0 @ word_bytes v)"

text \<open>\<open>None\<close> is the nil pointer; \<open>BitLen() > 256\<close> is being at least \<open>2 ^ 256\<close>.\<close>

definition uint256_from_big :: "int option \<Rightarrow> uint256 res" where
  "uint256_from_big b = (case b of
      None \<Rightarrow> Inl (ErrOther ''nil big.Int'')
    | Some v \<Rightarrow>
        if v < 0 then Inl (ErrOther ''negative'')
        else if 2 ^ 256 \<le> v then Inl (ErrOther ''over 256 bits'')
        else Inr (word_of_int v))"

definition to_big :: "uint256 \<Rightarrow> int" where
  "to_big u = int (be_val (word_bytes u))"

definition uint256_is_zero :: "uint256 \<Rightarrow> bool" where
  "uint256_is_zero u = list_all (\<lambda>b. b = 0) (word_bytes u)"

definition uint256_set_bytes :: "bytes \<Rightarrow> uint256 res" where
  "uint256_set_bytes b =
     (if 32 < length b then Inl (ErrOther ''byte length'')
      else Inr (bytes_word (replicate (32 - length b) 0 @ b)))"

definition big_cmp :: "int \<Rightarrow> int \<Rightarrow> int" where
  "big_cmp a b = (if a < b then -1 else if b < a then 1 else 0)"

definition uint256_add :: "uint256 \<Rightarrow> uint256 \<Rightarrow> uint256 res" where
  "uint256_add u v = uint256_from_big (Some (to_big u + to_big v))"

definition uint256_sub :: "uint256 \<Rightarrow> uint256 \<Rightarrow> uint256 res" where
  "uint256_sub u v =
     (if big_cmp (to_big u) (to_big v) < 0 then Inl (ErrOther ''underflow'')
      else uint256_from_big (Some (to_big u - to_big v)))"

definition uint256_mul :: "uint256 \<Rightarrow> uint256 \<Rightarrow> uint256 res" where
  "uint256_mul u v = uint256_from_big (Some (to_big u * to_big v))"

definition uint256_cmp :: "uint256 \<Rightarrow> uint256 \<Rightarrow> int" where
  "uint256_cmp u v = big_cmp (to_big u) (to_big v)"

section \<open>Setting hashes and addresses from slices, comparing, printing\<close>

definition hash_set_bytes :: "bytes \<Rightarrow> hash res" where
  "hash_set_bytes b =
     (if length b \<noteq> HashLen then Inl (ErrOther ''hash length'') else Inr (bytes_word b))"

definition address_set_bytes :: "bytes \<Rightarrow> address res" where
  "address_set_bytes b =
     (if length b \<noteq> AddressLen then Inl (ErrOther ''address length'') else Inr (bytes_word b))"

definition hash_is_zero :: "hash \<Rightarrow> bool" where
  "hash_is_zero h \<longleftrightarrow> h = 0"

definition address_is_zero :: "address \<Rightarrow> bool" where
  "address_is_zero a \<longleftrightarrow> a = 0"

definition address_compare :: "address \<Rightarrow> address \<Rightarrow> int" where
  "address_compare a b = cmp_bytes (word_bytes a) (word_bytes b)"

text \<open>\<open>hex.EncodeToString\<close> and \<open>hex.DecodeString\<close> of the standard library.\<close>

definition hex_digit :: "nat \<Rightarrow> char" where
  "hex_digit n = (if n < 10 then char_of (48 + n) else char_of (87 + n))"

definition hex_encode :: "bytes \<Rightarrow> string" where
  "hex_encode bs = concat (map (\<lambda>b. [hex_digit (unat b div 16), hex_digit (unat b mod 16)]) bs)"

definition hex_val :: "char \<Rightarrow> nat option" where
  "hex_val c = (let n = of_char c :: nat in
     if 48 \<le> n \<and> n \<le> 57 then Some (n - 48)
     else if 97 \<le> n \<and> n \<le> 102 then Some (n - 87)
     else if 65 \<le> n \<and> n \<le> 70 then Some (n - 55)
     else None)"

fun hex_decode :: "string \<Rightarrow> bytes res" where
  "hex_decode [] = Inr []"
| "hex_decode [c] = Inl (ErrOther ''odd length hex'')"
| "hex_decode (c # d # s) =
     (case (hex_val c, hex_val d) of
        (Some x, Some y) \<Rightarrow> and_then (hex_decode s) (\<lambda>bs. Inr (word_of_nat (16 * x + y) # bs))
      | _ \<Rightarrow> Inl (ErrOther ''invalid hex''))"

definition hash_string :: "hash \<Rightarrow> string" where
  "hash_string h = ''0x'' @ hex_encode (word_bytes h)"

definition address_string :: "address \<Rightarrow> string" where
  "address_string a = ''0x'' @ hex_encode (word_bytes a)"

section \<open>Facts\<close>

lemma to_big_uint: "to_big u = uint u"
  by (simp add: to_big_def)

lemma to_big_nonneg [simp]: "0 \<le> to_big u"
  by (simp add: to_big_uint)

lemma to_big_less: "to_big u < 2 ^ 256"
  using uint_less_pow [of u] by (simp only: to_big_uint) simp

lemmas to_big_less_num [simp] = to_big_less [simplified]

lemma uint256_from_big_Inr_iff: "uint256_from_big (Some v) = Inr w \<longleftrightarrow> to_big w = v"
proof
  assume "uint256_from_big (Some v) = Inr w"
  then have v: "\<not> v < 0" "\<not> 2 ^ 256 \<le> v" and w: "w = word_of_int v"
    unfolding uint256_from_big_def by (simp_all split: if_splits)
  have "v mod 2 ^ 256 = v" using v by (intro mod_pos_pos_trivial) linarith+
  then show "to_big w = v" unfolding to_big_uint w by (simp add: uint_word_of_int)
next
  assume w: "to_big w = v"
  have v: "\<not> v < 0" "\<not> 2 ^ 256 \<le> v"
    using to_big_nonneg [of w] to_big_less [of w] unfolding w by linarith+
  have "word_of_int v = w" using w by (simp add: to_big_uint flip: w)
  then show "uint256_from_big (Some v) = Inr w" unfolding uint256_from_big_def using v by simp
qed

lemma uint256_from_big_to_big [simp]: "uint256_from_big (Some (to_big u)) = Inr u"
  by (simp add: uint256_from_big_Inr_iff)

text \<open>No operation wraps: a result, where there is one, is the mathematical one, and there is
  one whenever it fits.\<close>

lemma uint256_add_Inr_iff: "uint256_add u v = Inr w \<longleftrightarrow> to_big w = to_big u + to_big v"
  by (simp add: uint256_add_def uint256_from_big_Inr_iff)

lemma uint256_mul_Inr_iff: "uint256_mul u v = Inr w \<longleftrightarrow> to_big w = to_big u * to_big v"
  by (simp add: uint256_mul_def uint256_from_big_Inr_iff)

lemma uint256_sub_Inr_iff: "uint256_sub u v = Inr w \<longleftrightarrow> to_big w = to_big u - to_big v"
  using to_big_nonneg [of w]
  by (auto simp: uint256_sub_def big_cmp_def uint256_from_big_Inr_iff simp del: to_big_nonneg)

lemma to_big_inject [simp]: "to_big u = to_big v \<longleftrightarrow> u = v"
  by (auto simp: to_big_uint intro: unsigned_word_eqI)

lemma uint256_cmp_word: "uint256_cmp u v = (if u < v then -1 else if v < u then 1 else 0)"
  by (simp add: uint256_cmp_def big_cmp_def to_big_uint word_less_def)

lemma address_compare_word:
  "address_compare a b = (if a < b then -1 else if b < a then 1 else 0)"
  by (simp add: address_compare_def cmp_bytes_word)

lemma uint256_is_zero_iff [simp]: "uint256_is_zero u \<longleftrightarrow> u = 0"
proof
  assume "uint256_is_zero u"
  then have "word_bytes u = replicate 32 0"
    using replicate_length_same [of "word_bytes u" 0]
    by (simp add: uint256_is_zero_def list_all_iff)
  then have "word_bytes u = word_bytes (0 :: uint256)" by (simp add: word_bytes_zero)
  then show "u = 0" by (subst (asm) word_bytes_eq_iff) simp_all
qed (simp add: uint256_is_zero_def list_all_iff word_bytes_zero)

lemma to_big_uint256_from_uint64 [simp]: "to_big (uint256_from_uint64 v) = uint v"
proof -
  have val: "be_val (replicate n 0 @ bs) = be_val bs" for n bs
    by (induction n) (simp_all add: be_val_Cons)
  have "unat v < 2 ^ 256" using unat_less_pow [of v] by simp
  then have "unat (uint256_from_uint64 v) = unat v"
    unfolding uint256_from_uint64_def by (subst unat_bytes_word) (simp_all add: val)
  then show ?thesis by (simp add: to_big_uint) (metis uint_nat)
qed

lemma uint256_set_bytes_word_bytes [simp]: "uint256_set_bytes (word_bytes u) = Inr u"
  by (simp add: uint256_set_bytes_def)

lemma hex_val_digit [simp]: "n < 16 \<Longrightarrow> hex_val (hex_digit n) = Some n"
proof -
  assume "n < 16"
  then have "of_char (char_of (48 + n) :: char) = (48 + n)" "of_char (char_of (87 + n) :: char) = 87 + n"
    by (simp_all add: of_char_of)
  then show ?thesis using \<open>n < 16\<close> by (auto simp: hex_val_def hex_digit_def)
qed

lemma hex_decode_encode [simp]: "hex_decode (hex_encode bs) = Inr bs"
proof (induction bs)
  case (Cons b bs)
  have "16 * (unat b div 16) + unat b mod 16 = unat b" by simp
  moreover have "unat b div 16 < 16" using unat_byte_less [of b] by linarith
  ultimately show ?case using Cons.IH by (simp add: hex_encode_def)
qed (simp add: hex_encode_def)

lemma length_hex_encode [simp]: "length (hex_encode bs) = 2 * length bs"
  by (induction bs) (simp_all add: hex_encode_def)

lemma uint256_sub_ok: "v \<le> u \<Longrightarrow> uint256_sub u v = Inr (u - v)"
  by (simp add: uint256_sub_Inr_iff to_big_uint uint_minus_simple_alt word_le_def)

text \<open>What fits has a result.\<close>

lemma to_big_word_of_int: "0 \<le> x \<Longrightarrow> x < 2 ^ 256 \<Longrightarrow> to_big (word_of_int x) = x"
  unfolding to_big_uint uint_word_of_int by (simp add: mod_pos_pos_trivial)

lemma uint256_mul_fits:
  "to_big u * to_big v < 2 ^ 256 \<Longrightarrow> \<exists>w. uint256_mul u v = Inr w \<and> to_big w = to_big u * to_big v"
  using to_big_word_of_int [of "to_big u * to_big v"]
  by (intro exI [of _ "word_of_int (to_big u * to_big v)"]) (simp add: uint256_mul_Inr_iff del: of_int_mult)

lemma uint256_add_fits:
  "to_big u + to_big v < 2 ^ 256 \<Longrightarrow> \<exists>w. uint256_add u v = Inr w \<and> to_big w = to_big u + to_big v"
  using to_big_word_of_int [of "to_big u + to_big v"]
  by (intro exI [of _ "word_of_int (to_big u + to_big v)"]) (simp add: uint256_add_Inr_iff del: of_int_add)

section \<open>Properties\<close>

text \<open>
  256-bit arithmetic never wraps. \<open>Add\<close>, \<open>Sub\<close> and \<open>Mul\<close> return \<open>w\<close> exactly when \<open>w\<close> is the
  sum, difference or product over the integers, so they fail exactly when that does not fit.
\<close>

theorem uint256_exact:
  "(uint256_add u v = Inr w \<longleftrightarrow> to_big w = to_big u + to_big v)
   \<and> (uint256_sub u v = Inr w \<longleftrightarrow> to_big w = to_big u - to_big v)
   \<and> (uint256_mul u v = Inr w \<longleftrightarrow> to_big w = to_big u * to_big v)"
  by (simp add: uint256_add_Inr_iff uint256_sub_Inr_iff uint256_mul_Inr_iff)

end
