(* ===== verification/Rlp.thy ===== *)
theory Rlp
  imports Types
begin

text \<open>
  The RLP codec of \<open>crypto/rlp.go\<close>. The encoders build canonical encodings; the decoder checks
  that its input is one. The recursion of \<open>Decode\<close> through \<open>decodeListPayload\<close> is kept as
  two mutually recursive functions, whose termination rests on \<open>Decode\<close> consuming at least one
  byte. \<open>rlp\<close> is the abstract item a decoded \<open>RLPItem\<close> stands for.
\<close>

section \<open>Encoding\<close>

text \<open>The loop of \<open>leadingZeroCount8\<close>, from byte \<open>i - 1\<close> of the value down to byte 0.\<close>

fun leading_zero_loop :: "nat \<Rightarrow> uint64 \<Rightarrow> nat" where
  "leading_zero_loop 0 v = 0"
| "leading_zero_loop (Suc i) v =
     (if drop_bit (i * 8) v AND 0xff \<noteq> 0 then 0 else Suc (leading_zero_loop i v))"

definition leadingZeroCount8 :: "uint64 \<Rightarrow> nat" where
  "leadingZeroCount8 v = leading_zero_loop 8 v"

definition uintToMinimalBytes :: "uint64 \<Rightarrow> bytes" where
  "uintToMinimalBytes v = (if v = 0 then [] else drop (leadingZeroCount8 v) (word_bytes v))"

definition encodeLength :: "nat \<Rightarrow> byte \<Rightarrow> bytes" where
  "encodeLength len offset =
     (if len < 56 then [offset + word_of_nat len]
      else let lenBytes = uintToMinimalBytes (word_of_nat len)
           in (offset + 55 + word_of_nat (length lenBytes)) # lenBytes)"

definition EncodeBytes :: "bytes \<Rightarrow> bytes" where
  "EncodeBytes b =
     (if length b = 1 \<and> b ! 0 < 0x80 then [b ! 0] else encodeLength (length b) 0x80 @ b)"

definition EncodeUint64 :: "uint64 \<Rightarrow> bytes" where
  "EncodeUint64 v =
     (if v = 0 then [0x80] else EncodeBytes (drop (leadingZeroCount8 v) (word_bytes v)))"

definition EncodeBigInt :: "int option \<Rightarrow> bytes" where
  "EncodeBigInt v =
     (case v of None \<Rightarrow> [0x80]
      | Some n \<Rightarrow> if n = 0 then [0x80] else EncodeBytes (nat_bytes (nat \<bar>n\<bar>)))"

definition EncodeList :: "bytes list \<Rightarrow> bytes" where
  "EncodeList items = (let payload = concat items in encodeLength (length payload) 0xc0 @ payload)"

definition EncodeUint256Bytes :: "bytes \<Rightarrow> bytes" where
  "EncodeUint256Bytes b = EncodeBytes (dropWhile (\<lambda>x. x = 0) b)"

section \<open>Decoding\<close>

datatype rlp_item =
  RLPItem (IsList: bool) (itemBytes: bytes) (itemList: "rlp_item list") (itemRaw: bytes)

text \<open>The accumulation loop of \<open>decodeLength\<close>.\<close>

fun decode_length_loop :: "bytes \<Rightarrow> uint64 \<Rightarrow> uint64 res" where
  "decode_length_loop [] len = Inr len"
| "decode_length_loop (x # xs) len =
     (if len > 2 ^ 40 then Inl ErrRLP
      else decode_length_loop xs (push_bit 8 len OR ucast x))"

definition decodeLength :: "bytes \<Rightarrow> nat res" where
  "decodeLength b =
     (if 0 < length b \<and> b ! 0 = 0 then Inl ErrRLP
      else and_then (decode_length_loop b 0) (\<lambda>len.
        if len \<le> 55 then Inl ErrRLP
        else if len > 2 ^ 31 then Inl ErrRLP
        else Inr (unat len)))"

function Decode :: "bytes \<Rightarrow> (rlp_item \<times> nat) res"
  and decodeListPayload :: "bytes \<Rightarrow> rlp_item list \<Rightarrow> rlp_item res" where
  "Decode data =
     (if length data = 0 then Inl ErrRLP
      else let prefix = data ! 0 in
        if prefix < 0x80 then
          and_then (slice 0 1 data) (\<lambda>raw. Inr (RLPItem False [prefix] [] raw, 1))
        else if prefix < 0xb8 then
          let len = unat (prefix - 0x80) in
          if len = 1 \<and> length data > 1 \<and> data ! 1 < 0x80 then Inl ErrRLP
          else if length data < 1 + len then Inl ErrRLP
          else and_then (slice 1 (1 + len) data) (\<lambda>bs.
               and_then (slice 0 (1 + len) data) (\<lambda>raw.
               Inr (RLPItem False bs [] raw, 1 + len)))
        else if prefix < 0xc0 then
          let lenOfLen = unat (prefix - 0xb7) in
          if length data < 1 + lenOfLen then Inl ErrRLP
          else and_then (slice 1 (1 + lenOfLen) data) (\<lambda>lb.
               and_then (decodeLength lb) (\<lambda>len.
               let total = 1 + lenOfLen + len in
               if length data < total then Inl ErrRLP
               else and_then (slice (1 + lenOfLen) total data) (\<lambda>bs.
                    and_then (slice 0 total data) (\<lambda>raw.
                    Inr (RLPItem False bs [] raw, total)))))
        else if prefix < 0xf8 then
          let len = unat (prefix - 0xc0) in
          if length data < 1 + len then Inl ErrRLP
          else and_then (slice 1 (1 + len) data) (\<lambda>payload.
               and_then (decodeListPayload payload []) (\<lambda>item.
               and_then (slice 0 (1 + len) data) (\<lambda>raw.
               Inr (RLPItem True [] (itemList item) raw, 1 + len))))
        else
          let lenOfLen = unat (prefix - 0xf7) in
          if length data < 1 + lenOfLen then Inl ErrRLP
          else and_then (slice 1 (1 + lenOfLen) data) (\<lambda>lb.
               and_then (decodeLength lb) (\<lambda>len.
               let total = 1 + lenOfLen + len in
               if length data < total then Inl ErrRLP
               else and_then (slice (1 + lenOfLen) total data) (\<lambda>payload.
                    and_then (decodeListPayload payload []) (\<lambda>item.
                    and_then (slice 0 total data) (\<lambda>raw.
                    Inr (RLPItem True [] (itemList item) raw, total)))))))"
| "decodeListPayload rest acc =
     (if length rest = 0 then Inr (RLPItem True [] acc [])
      else and_then (Decode rest) (\<lambda>(child, n). decodeListPayload (drop n rest) (acc @ [child])))"
  by pat_completeness auto


text \<open>Where \<open>Decode\<close> returns, it has consumed at least the prefix byte.\<close>

lemma Decode_dom_pos:
  "Decode_decodeListPayload_dom (Inl data) \<Longrightarrow> Decode data = Inr (it, n) \<Longrightarrow> 0 < n"
  by (auto simp: Decode.psimps Let_def and_then_Inr_iff split: if_splits)

termination Decode
proof (relation "measure (\<lambda>x. case x of Inl d \<Rightarrow> 2 * length d | Inr (r, _) \<Rightarrow> 2 * length r + 1)", goal_cases)
  case (5 rest acc x child n)
  then have "0 < n" by (auto dest: Decode_dom_pos)
  with 5(1) show ?case by auto
qed (auto dest!: slice_Inr_length)


lemmas [simp del] = Decode.simps decodeListPayload.simps

text \<open>Decoding that must consume the whole input, and reading integers out of items.\<close>

definition DecodeStrict :: "bytes \<Rightarrow> rlp_item res" where
  "DecodeStrict data =
     and_then (Decode data) (\<lambda>(item, n). if n \<noteq> length data then Inl ErrRLP else Inr item)"

definition item_Uint64 :: "rlp_item \<Rightarrow> uint64 res" where
  "item_Uint64 r =
     (if IsList r then Inl ErrRLP
      else if length (itemBytes r) = 0 then Inr 0
      else if length (itemBytes r) > 8 then Inl ErrRLP
      else if itemBytes r ! 0 = 0 then Inl ErrRLP
      else Inr (foldl (\<lambda>v b. push_bit 8 v OR ucast b) 0 (itemBytes r)))"

definition item_BigInt :: "rlp_item \<Rightarrow> int res" where
  "item_BigInt r =
     (if IsList r then Inl ErrRLP
      else if length (itemBytes r) = 0 then Inr 0
      else if itemBytes r ! 0 = 0 then Inl ErrRLP
      else Inr (int (be_val (itemBytes r))))"

section \<open>Minimal big-endian bytes\<close>

lemma leading_zero_loop_drop:
  "drop (leading_zero_loop i v) (be_bytes i (unat v)) = strip_zeros (be_bytes i (unat v))"
proof (induction i)
  case (Suc i)
  have "(drop_bit (i * 8) v AND 0xff \<noteq> 0) \<longleftrightarrow> (word_of_nat (unat v div 256 ^ i) :: byte) \<noteq> 0"
  proof -
    have "unat (drop_bit (i * 8) v AND 0xff) = unat v div 256 ^ i mod 256"
    proof -
      have "unat (drop_bit (i * 8) v AND mask 8) = take_bit 8 (unat (drop_bit (i * 8) v))"
        by (simp add: unsigned_take_bit_eq flip: take_bit_eq_mask)
      then show ?thesis
        by (simp add: mask_eq_exp_minus_1 unat_drop_bit_eq drop_bit_eq_div [where 'a=nat]
            take_bit_eq_mod [where 'a=nat] pow256 mult.commute)
    qed
    moreover have "unat (word_of_nat (unat v div 256 ^ i) :: byte) = unat v div 256 ^ i mod 256"
      by (simp add: unat_of_nat)
    ultimately show ?thesis by (metis unat_eq_0)
  qed
  then show ?case
    using Suc.IH by (simp add: be_bytes_Suc_Cons strip_zeros_def del: be_bytes.simps)
qed (simp add: strip_zeros_def)

lemma uintToMinimalBytes_strip: "uintToMinimalBytes v = strip_zeros (word_bytes v)"
  using leading_zero_loop_drop [of 8 v]
    be_val_eq_0_iff [of "be_bytes 8 0"]
  by (auto simp: uintToMinimalBytes_def leadingZeroCount8_def word_bytes_def be_val_be_bytes)


lemma uintToMinimalBytes_canonical:
  assumes "length bs \<le> 8" "bs \<noteq> [] \<Longrightarrow> bs ! 0 \<noteq> 0" "unat v = be_val bs"
  shows "uintToMinimalBytes v = bs"
  using strip_zeros_canonical [OF assms(1,2)] assms(3)
  by (simp add: uintToMinimalBytes_strip word_bytes_def)

lemma be_val_uintToMinimalBytes [simp]: "be_val (uintToMinimalBytes v) = unat v"
  by (simp add: uintToMinimalBytes_strip)

lemma length_uintToMinimalBytes: "length (uintToMinimalBytes v) \<le> 8"
  using length_strip_zeros [of "word_bytes v"] by (simp add: uintToMinimalBytes_strip)

lemma uintToMinimalBytes_hd: "uintToMinimalBytes v \<noteq> [] \<Longrightarrow> uintToMinimalBytes v ! 0 \<noteq> 0"
  unfolding uintToMinimalBytes_strip by (rule strip_zeros_hd)

section \<open>Length fields\<close>

lemma decode_length_loop_val:
  "decode_length_loop xs v = Inr r \<Longrightarrow> unat r = unat v * 256 ^ length xs + be_val xs"
proof (induction xs v rule: decode_length_loop.induct)
  case (2 x xs v)
  then have nv: "\<not> 2 ^ 40 < v" and rest: "decode_length_loop xs (push_bit 8 v OR ucast x) = Inr r"
    by (simp_all split: if_splits)
  have "unat v \<le> 2 ^ 40" using nv by (simp add: word_le_nat_alt not_less)
  then have "unat (push_bit 8 v OR ucast x) = unat v * 256 + unat x"
    by (intro unat_shift_in_byte) simp
  with "2.IH" [OF nv rest] show ?case by (simp add: be_val_Cons algebra_simps)
qed auto

lemma decode_length_loop_ok:
  "unat v * 256 ^ length xs + be_val xs \<le> 2 ^ 40 \<Longrightarrow> is_ok (decode_length_loop xs v)"
proof (induction xs v rule: decode_length_loop.induct)
  case (2 x xs v)
  have "unat v * 1 \<le> unat v * 256 ^ length (x # xs)" by (intro mult_le_mono) simp_all
  then have v: "unat v \<le> 2 ^ 40" using "2.prems" by linarith
  have "unat (push_bit 8 v OR ucast x) = unat v * 256 + unat x"
    using v by (intro unat_shift_in_byte) simp
  then have "unat (push_bit 8 v OR ucast x) * 256 ^ length xs + be_val xs \<le> 2 ^ 40"
    using "2.prems" by (simp add: be_val_Cons algebra_simps)
  then show ?case using "2.IH" v by (simp add: word_le_nat_alt not_less)
qed auto

lemma decodeLength_Inr:
  assumes "decodeLength lb = Inr len" "length lb \<le> 8"
  shows "55 < len" "len \<le> 2 ^ 31" "uintToMinimalBytes (word_of_nat len) = lb"
proof -
  obtain r where hd: "lb \<noteq> [] \<Longrightarrow> lb ! 0 \<noteq> 0" and r: "decode_length_loop lb 0 = Inr r"
    and bounds: "\<not> r \<le> 55" "\<not> r > 2 ^ 31" and len: "len = unat r"
    using assms(1) by (auto simp: decodeLength_def and_then_Inr_iff split: if_splits)
  have val: "unat r = be_val lb" using decode_length_loop_val [OF r] by simp
  show "55 < len" "len \<le> 2 ^ 31" using bounds by (simp_all add: len word_le_nat_alt word_less_nat_alt)
  show "uintToMinimalBytes (word_of_nat len) = lb"
  proof (rule uintToMinimalBytes_canonical)
    have "word_of_nat len = r" by (simp add: len)
    then show "unat (word_of_nat len :: uint64) = be_val lb" using val by simp
  qed (use assms(2) hd in auto)
qed

lemma decodeLength_uintToMinimalBytes:
  assumes "55 < len" "len \<le> 2 ^ 31"
  shows "decodeLength (uintToMinimalBytes (word_of_nat len)) = Inr len"
proof -
  let ?lb = "uintToMinimalBytes (word_of_nat len)"
  have u: "unat (word_of_nat len :: uint64) = len" using assms by (simp add: unat_of_nat)
  then have "is_ok (decode_length_loop ?lb 0)"
    using assms by (intro decode_length_loop_ok) simp
  then obtain r where r: "decode_length_loop ?lb 0 = Inr r" by (auto simp: is_ok_iff)
  have val: "unat r = len" using decode_length_loop_val [OF r] u by simp
  have "\<not> (0 < length ?lb \<and> ?lb ! 0 = 0)" using uintToMinimalBytes_hd by auto
  moreover have "\<not> r \<le> 55" "\<not> r > 2 ^ 31"
    using assms val by (simp_all add: word_le_nat_alt word_less_nat_alt)
  ultimately show ?thesis using r val by (simp add: decodeLength_def)
qed

lemma length_encodeLength: "0 < length (encodeLength len off)"
  by (simp add: encodeLength_def Let_def)

section \<open>The abstract item and its encoding\<close>

datatype rlp = Str bytes | Lst "rlp list"

fun rlp_strip :: "rlp_item \<Rightarrow> rlp" where
  "rlp_strip (RLPItem l bs its raw) = (if l then Lst (map rlp_strip its) else Str bs)"

fun rlp_enc :: "rlp \<Rightarrow> bytes" where
  "rlp_enc (Str b) = EncodeBytes b"
| "rlp_enc (Lst ts) = EncodeList (map rlp_enc ts)"

lemma enc_nonempty [simp]: "rlp_enc t \<noteq> []"
  using length_encodeLength by (cases t) (auto simp: EncodeBytes_def EncodeList_def Let_def)

text \<open>The prefix byte determines the length it announces, and back.\<close>

lemma byte_sub_bound:
  "off \<le> p \<Longrightarrow> p < hi \<Longrightarrow> unat (p - off :: byte) < unat hi - unat off"
  by (simp add: unat_sub word_le_nat_alt word_less_nat_alt)

lemma encodeLength_short_prefix:
  "off \<le> p \<Longrightarrow> p < off + 56 \<Longrightarrow> unat off < 200 \<Longrightarrow> encodeLength (unat (p - off)) off = [p]"
proof -
  assume a: "off \<le> p" "p < off + 56" "unat off < 200"
  have "unat (off + 56) = unat off + 56" using a(3) by (simp add: unat_word_ariths)
  then have "unat (p - off) < 56" using byte_sub_bound [OF a(1,2)] by simp
  then show ?thesis by (simp add: encodeLength_def)
qed

lemma encodeLength_long_prefix:
  assumes "decodeLength lb = Inr len" "length lb = unat (p - (off + 55))" "length lb \<le> 8"
  shows "encodeLength len off = p # lb"
proof -
  note d = decodeLength_Inr [OF assms(1,3)]
  have "off + 55 + word_of_nat (length lb) = p" by (simp add: assms(2))
  then show ?thesis using d by (simp add: encodeLength_def Let_def)
qed


section \<open>Accepted input is canonical\<close>

text \<open>
  What \<open>Decode\<close> accepts is the encoding of what it returns: the bytes consumed are \<open>rlp_enc\<close> of the
  item, so no two different inputs decode to the same item.
\<close>

lemma take_one_more: "data \<noteq> [] \<Longrightarrow> data ! 0 # take n (drop 1 data) = take (Suc n) data"
  by (cases data) auto

lemma EncodeBytes_short_prefix:
  assumes "0x80 \<le> p" "p < (0xb8 :: byte)" "length bs = unat (p - 0x80)"
    "\<not> (length bs = 1 \<and> bs ! 0 < 0x80)"
  shows "EncodeBytes bs = p # bs"
  using encodeLength_short_prefix [OF assms(1)] assms by (auto simp: EncodeBytes_def)

lemma EncodeBytes_long_prefix:
  assumes "decodeLength lb = Inr (length bs)" "length lb = unat (p - 0xb7)" "length lb \<le> 8"
  shows "EncodeBytes bs = p # lb @ bs"
  using encodeLength_long_prefix [OF assms(1), where p = p and off = "0x80"] decodeLength_Inr(1) [OF assms(1,3)] assms
  by (simp add: EncodeBytes_def)

lemma EncodeList_short_prefix:
  assumes "0xc0 \<le> p" "p < (0xf8 :: byte)" "length (concat items) = unat (p - 0xc0)"
  shows "EncodeList items = p # concat items"
  using encodeLength_short_prefix [OF assms(1)] assms by (auto simp: EncodeList_def)

lemma EncodeList_long_prefix:
  assumes "decodeLength lb = Inr (length (concat items))" "length lb = unat (p - 0xf7)" "length lb \<le> 8"
  shows "EncodeList items = p # lb @ concat items"
  using encodeLength_long_prefix [OF assms(1), where p = p and off = "0xc0"] assms by (simp add: EncodeList_def)


definition canonical_at :: "bytes \<Rightarrow> rlp_item \<Rightarrow> nat \<Rightarrow> bool" where
  "canonical_at data it n \<longleftrightarrow>
     0 < n \<and> n \<le> length data \<and> rlp_enc (rlp_strip it) = take n data \<and> itemRaw it = take n data"

lemma decodeListPayload_canonical:
  assumes dec: "\<And>d it n. length d \<le> k \<Longrightarrow> Decode d = Inr (it, n) \<Longrightarrow> canonical_at d it n"
  shows "length rest \<le> k \<Longrightarrow> decodeListPayload rest acc = Inr item \<Longrightarrow>
    \<exists>ts. item = RLPItem True [] (acc @ ts) [] \<and> concat (map (\<lambda>t. rlp_enc (rlp_strip t)) ts) = rest"
proof (induction rest arbitrary: acc rule: length_induct)
  case (1 rest)
  show ?case
  proof (cases "rest = []")
    case True
    then show ?thesis using "1.prems" by (simp add: decodeListPayload.simps)
  next
    case False
    then obtain child n where c: "Decode rest = Inr (child, n)"
      and d: "decodeListPayload (drop n rest) (acc @ [child]) = Inr item"
      using "1.prems" by (auto simp: decodeListPayload.simps [of rest] and_then_Inr_iff)
    have can: "canonical_at rest child n" using dec c "1.prems" by blast
    then have "length (drop n rest) < length rest" by (auto simp: canonical_at_def)
    with d obtain ts where "item = RLPItem True [] (acc @ child # ts) []"
      and "concat (map (\<lambda>t. rlp_enc (rlp_strip t)) ts) = drop n rest"
      using "1.IH" "1.prems" by fastforce
    with can show ?thesis by (intro exI [of _ "child # ts"]) (simp add: canonical_at_def)
  qed
qed

lemma canonical_string:
  assumes "data \<noteq> []" "rlp_enc (Str bs) = take n data" "0 < n" "n \<le> length data"
  shows "canonical_at data (RLPItem False bs [] (take n data)) n"
  using assms by (simp add: canonical_at_def)


lemma take_prefix_field:
  assumes "data \<noteq> []"
  shows "data ! 0 # take k (drop 1 data) @ take m (drop (1 + k) data) = take (1 + k + m) data"
proof -
  have "take (1 + k + m) data = take (1 + k) data @ take m (drop (1 + k) data)"
    by (rule take_add)
  then show ?thesis using take_one_more [OF assms, of k] by simp
qed

lemmas Decode_unfold = Decode.simps [unfolded Let_def]

lemma Decode_nonempty: "Decode data = Inr r \<Longrightarrow> data \<noteq> []"
  by (auto simp: Decode_unfold [of data])

lemma Decode_canonical_short:
  assumes dec: "Decode data = Inr (it, n)" and p: "0x80 \<le> data ! 0" "data ! 0 < 0xb8"
  shows "canonical_at data it n"
proof -
  have ne: "data \<noteq> []" using dec by (rule Decode_nonempty)
  define len where "len = unat (data ! 0 - 0x80)"
  define bs where "bs = take len (drop 1 data)"
  have it: "it = RLPItem False bs [] (take (1 + len) data)" "n = 1 + len" "1 + len \<le> length data"
    and nc: "\<not> (len = 1 \<and> length data > 1 \<and> data ! 1 < 0x80)"
    using dec p ne by (auto simp: Decode_unfold [of data] len_def bs_def not_le not_less split: if_splits)
  have lb: "length bs = len" using it(3) by (simp add: bs_def)
  have "\<not> (length bs = 1 \<and> bs ! 0 < 0x80)" using nc it(3) lb by (auto simp: bs_def)
  then have "EncodeBytes bs = data ! 0 # bs"
    by (intro EncodeBytes_short_prefix) (use p lb len_def in auto)
  also have "\<dots> = take (1 + len) data" using take_one_more [OF ne, of len] by (simp add: bs_def)
  finally show ?thesis using it ne by (simp add: canonical_at_def)
qed

lemma Decode_canonical_long:
  assumes dec: "Decode data = Inr (it, n)" and p: "0xb8 \<le> data ! 0" "data ! 0 < 0xc0"
  shows "canonical_at data it n"
proof -
  have ne: "data \<noteq> []" using dec by (rule Decode_nonempty)
  define k where "k = unat (data ! 0 - 0xb7)"
  define lb where "lb = take k (drop 1 data)"
  have p': "\<not> data ! 0 < 0x80" "\<not> data ! 0 < 0xb8" "data ! 0 < 0xc0" "0xb7 \<le> data ! 0"
    using p by (auto simp: word_less_nat_alt word_le_nat_alt)
  then obtain len where lk: "length lb = k" and dl: "decodeLength lb = Inr len"
    and it: "it = RLPItem False (take len (drop (1 + k) data)) [] (take (1 + k + len) data)"
      "n = 1 + k + len" "1 + k + len \<le> length data"
    using dec ne
    by (auto simp: Decode_unfold [of data] k_def lb_def not_less and_then_Inr_iff split: if_splits)
  have "k < 9" using byte_sub_bound [OF p'(4,3)] by (simp add: k_def)
  then have "EncodeBytes (take len (drop (1 + k) data)) = data ! 0 # lb @ take len (drop (1 + k) data)"
    using dl lk it(3) by (intro EncodeBytes_long_prefix) (simp_all add: k_def)
  also have "\<dots> = take n data" using take_prefix_field [OF ne] by (simp add: lb_def it(2))
  finally show ?thesis using it ne by (simp add: canonical_at_def)
qed

text \<open>For a list, given that its payload decodes canonically.\<close>

lemma Decode_canonical_slist:
  assumes dec: "Decode data = Inr (it, n)" and p: "0xc0 \<le> data ! 0" "data ! 0 < 0xf8"
    and list: "\<And>rest item. length rest < length data \<Longrightarrow> decodeListPayload rest [] = Inr item \<Longrightarrow>
      \<exists>ts. item = RLPItem True [] ts [] \<and> concat (map (\<lambda>t. rlp_enc (rlp_strip t)) ts) = rest"
  shows "canonical_at data it n"
proof -
  have ne: "data \<noteq> []" using dec by (rule Decode_nonempty)
  define len where "len = unat (data ! 0 - 0xc0)"
  have p': "\<not> data ! 0 < 0x80" "\<not> data ! 0 < 0xb8" "\<not> data ! 0 < 0xc0"
    using p by (auto simp: word_less_nat_alt word_le_nat_alt)
  then obtain item where item: "decodeListPayload (take len (drop 1 data)) [] = Inr item"
    and it: "it = RLPItem True [] (itemList item) (take (1 + len) data)" "n = 1 + len"
      "1 + len \<le> length data"
    using dec p ne
    by (auto simp: Decode_unfold [of data] len_def not_less and_then_Inr_iff split: if_splits)
  obtain ts where ts: "item = RLPItem True [] ts []"
    "concat (map (\<lambda>t. rlp_enc (rlp_strip t)) ts) = take len (drop 1 data)"
    using list [OF _ item] ne it(3) by auto
  have "EncodeList (map (\<lambda>t. rlp_enc (rlp_strip t)) ts) = data ! 0 # take len (drop 1 data)"
    using EncodeList_short_prefix [OF p, of "map (\<lambda>t. rlp_enc (rlp_strip t)) ts"] ts(2) it(3)
    by (simp add: len_def)
  also have "\<dots> = take n data" using take_one_more [OF ne, of len] by (simp add: it(2))
  finally show ?thesis using it ts by (simp add: canonical_at_def o_def)
qed

lemma Decode_canonical_llist:
  assumes dec: "Decode data = Inr (it, n)" and p: "0xf8 \<le> data ! 0"
    and list: "\<And>rest item. length rest < length data \<Longrightarrow> decodeListPayload rest [] = Inr item \<Longrightarrow>
      \<exists>ts. item = RLPItem True [] ts [] \<and> concat (map (\<lambda>t. rlp_enc (rlp_strip t)) ts) = rest"
  shows "canonical_at data it n"
proof -
  have ne: "data \<noteq> []" using dec by (rule Decode_nonempty)
  define k where "k = unat (data ! 0 - 0xf7)"
  define lb where "lb = take k (drop 1 data)"
  have p': "\<not> data ! 0 < 0x80" "\<not> data ! 0 < 0xb8" "\<not> data ! 0 < 0xc0" "\<not> data ! 0 < 0xf8"
    "0xf7 \<le> data ! 0"
    using p by (auto simp: word_less_nat_alt word_le_nat_alt)
  then obtain len item where lk: "length lb = k" and dl: "decodeLength lb = Inr len"
    and item: "decodeListPayload (take len (drop (1 + k) data)) [] = Inr item"
    and it: "it = RLPItem True [] (itemList item) (take (1 + k + len) data)" "n = 1 + k + len"
      "1 + k + len \<le> length data"
    using dec ne
    by (auto simp: Decode_unfold [of data] k_def lb_def not_less and_then_Inr_iff split: if_splits)
  obtain ts where ts: "item = RLPItem True [] ts []"
    "concat (map (\<lambda>t. rlp_enc (rlp_strip t)) ts) = take len (drop (1 + k) data)"
    using list [OF _ item] ne it(3) by auto
  have "k < 9" using unat_byte_less [of "data ! 0"] p'(5)
    unfolding k_def by (simp add: unat_sub word_le_nat_alt del: unat_byte_less)
  then have "EncodeList (map (\<lambda>t. rlp_enc (rlp_strip t)) ts) = data ! 0 # lb @ take len (drop (1 + k) data)"
    using EncodeList_long_prefix [of lb "map (\<lambda>t. rlp_enc (rlp_strip t)) ts" "data ! 0"] ts(2) dl lk it(3)
    by (simp add: k_def)
  also have "\<dots> = take n data" using take_prefix_field [OF ne] by (simp add: lb_def it(2))
  finally show ?thesis using it ts by (simp add: canonical_at_def o_def)
qed

lemma Decode_canonical: "Decode data = Inr (it, n) \<Longrightarrow> canonical_at data it n"
proof (induction data arbitrary: it n rule: length_induct)
  case (1 data)
  note dec = "1.prems"
  have list: "\<exists>ts. item = RLPItem True [] ts [] \<and> concat (map (\<lambda>t. rlp_enc (rlp_strip t)) ts) = rest"
    if "length rest < length data" "decodeListPayload rest [] = Inr item" for rest item
    using decodeListPayload_canonical [of "length rest" rest "[]" item] that "1.IH" by fastforce
  consider "data ! 0 < 0x80" | (short) "0x80 \<le> data ! 0" "data ! 0 < 0xb8"
    | (long) "0xb8 \<le> data ! 0" "data ! 0 < 0xc0" | (slist) "0xc0 \<le> data ! 0" "data ! 0 < 0xf8"
    | (llist) "0xf8 \<le> data ! 0"
    by (meson not_le)
  then show ?case
  proof cases
    case 1
    then show ?thesis using dec Decode_nonempty [OF dec]
      by (cases data) (auto simp: Decode_unfold canonical_at_def EncodeBytes_def)
  next
    case short
    then show ?thesis by (rule Decode_canonical_short [OF dec])
  next
    case long
    then show ?thesis by (rule Decode_canonical_long [OF dec])
  next
    case slist
    then show ?thesis by (rule Decode_canonical_slist [OF dec]) (rule list)
  next
    case llist
    then show ?thesis by (rule Decode_canonical_llist [OF dec]) (rule list)
  qed
qed

section \<open>Every encoding is accepted\<close>

lemma unat_prefix: "unat off + n < 256 \<Longrightarrow> unat (off + word_of_nat n :: byte) = unat off + n"
  by (simp add: unat_word_ariths unat_of_nat)

lemma Decode_short_string:
  assumes "length bs < 56" "\<not> (length bs = 1 \<and> bs ! 0 < 0x80)"
  shows "Decode ((0x80 + word_of_nat (length bs)) # bs @ rest) =
    Inr (RLPItem False bs [] ((0x80 + word_of_nat (length bs)) # bs), 1 + length bs)"
proof -
  have u: "unat (0x80 + word_of_nat (length bs) :: byte) = 128 + length bs"
    using unat_prefix [of "0x80" "length bs"] assms(1) by simp
  then have "\<not> (0x80 + word_of_nat (length bs) :: byte) < 0x80" "(0x80 + word_of_nat (length bs) :: byte) < 0xb8"
    using assms(1) by (simp_all add: word_less_nat_alt)
  moreover have "unat ((0x80 + word_of_nat (length bs) :: byte) - 0x80) = length bs"
    using assms(1) by (simp add: unat_of_nat)
  ultimately show ?thesis
    using assms(2) by (simp add: Decode_unfold nth_append)
qed

lemma Decode_short_list:
  assumes "length payload < 56" "decodeListPayload payload [] = Inr item"
  shows "Decode ((0xc0 + word_of_nat (length payload)) # payload @ rest) =
    Inr (RLPItem True [] (itemList item) ((0xc0 + word_of_nat (length payload)) # payload), 1 + length payload)"
proof -
  have u: "unat (0xc0 + word_of_nat (length payload) :: byte) = 192 + length payload"
    using unat_prefix [of "0xc0" "length payload"] assms(1) by simp
  then have "\<not> (0xc0 + word_of_nat (length payload) :: byte) < 0x80"
    "\<not> (0xc0 + word_of_nat (length payload) :: byte) < 0xb8"
    "\<not> (0xc0 + word_of_nat (length payload) :: byte) < 0xc0"
    "(0xc0 + word_of_nat (length payload) :: byte) < 0xf8"
    using assms(1) by (simp_all add: word_less_nat_alt)
  moreover have "unat ((0xc0 + word_of_nat (length payload) :: byte) - 0xc0) = length payload"
    using assms(1) by (simp add: unat_of_nat)
  ultimately show ?thesis
    using assms(2) by (simp add: Decode_unfold)
qed

lemma lenBytes_bounds:
  assumes "56 \<le> len" "len \<le> 2 ^ 31"
  shows "0 < length (uintToMinimalBytes (word_of_nat len))" "length (uintToMinimalBytes (word_of_nat len)) \<le> 8"
proof -
  have "unat (word_of_nat len :: uint64) = len" using assms by (simp add: unat_of_nat)
  then have "be_val (uintToMinimalBytes (word_of_nat len)) = len" by simp
  then show "0 < length (uintToMinimalBytes (word_of_nat len))" using assms(1) by (cases "uintToMinimalBytes (word_of_nat len)") auto
qed (rule length_uintToMinimalBytes)

lemma Decode_long_string:
  assumes len: "56 \<le> length bs" "length bs \<le> 2 ^ 31"
    and lb: "lb = uintToMinimalBytes (word_of_nat (length bs))"
  shows "Decode ((0xb7 + word_of_nat (length lb)) # lb @ bs @ rest) =
    Inr (RLPItem False bs [] ((0xb7 + word_of_nat (length lb)) # lb @ bs), 1 + length lb + length bs)"
proof -
  note lbb = lenBytes_bounds [OF len, folded lb]
  have u: "unat (0xb7 + word_of_nat (length lb) :: byte) = 183 + length lb"
    using unat_prefix [of "0xb7" "length lb"] lbb by simp
  then have p: "\<not> (0xb7 + word_of_nat (length lb) :: byte) < 0x80"
    "\<not> (0xb7 + word_of_nat (length lb) :: byte) < 0xb8"
    "(0xb7 + word_of_nat (length lb) :: byte) < 0xc0"
    using lbb by (simp_all add: word_less_nat_alt)
  have d: "unat ((0xb7 + word_of_nat (length lb) :: byte) - 0xb7) = length lb"
    using lbb by (simp add: unat_of_nat)
  have dl: "decodeLength lb = Inr (length bs)" using decodeLength_uintToMinimalBytes [of "length bs"] len lb by simp
  show ?thesis using p d dl by (simp add: Decode_unfold)
qed

lemma Decode_long_list:
  assumes len: "56 \<le> length payload" "length payload \<le> 2 ^ 31"
    and item: "decodeListPayload payload [] = Inr item"
    and lb: "lb = uintToMinimalBytes (word_of_nat (length payload))"
  shows "Decode ((0xf7 + word_of_nat (length lb)) # lb @ payload @ rest) =
    Inr (RLPItem True [] (itemList item) ((0xf7 + word_of_nat (length lb)) # lb @ payload),
      1 + length lb + length payload)"
proof -
  note lbb = lenBytes_bounds [OF len, folded lb]
  have u: "unat (0xf7 + word_of_nat (length lb) :: byte) = 247 + length lb"
    using unat_prefix [of "0xf7" "length lb"] lbb by simp
  then have p: "\<not> (0xf7 + word_of_nat (length lb) :: byte) < 0x80"
    "\<not> (0xf7 + word_of_nat (length lb) :: byte) < 0xb8"
    "\<not> (0xf7 + word_of_nat (length lb) :: byte) < 0xc0"
    "\<not> (0xf7 + word_of_nat (length lb) :: byte) < 0xf8"
    using lbb by (simp_all add: word_less_nat_alt)
  have d: "unat ((0xf7 + word_of_nat (length lb) :: byte) - 0xf7) = length lb"
    using lbb by (simp add: unat_of_nat)
  have dl: "decodeLength lb = Inr (length payload)" using decodeLength_uintToMinimalBytes [of "length payload"] len lb by simp
  show ?thesis using p d dl item by (simp add: Decode_unfold)
qed

lemma Decode_EncodeBytes:
  assumes "length bs \<le> 2 ^ 31"
  shows "Decode (EncodeBytes bs @ rest) = Inr (RLPItem False bs [] (EncodeBytes bs), length (EncodeBytes bs))"
proof -
  consider (one) "length bs = 1 \<and> bs ! 0 < 0x80" | (short) "\<not> (length bs = 1 \<and> bs ! 0 < 0x80)" "length bs < 56"
    | (long) "56 \<le> length bs" by linarith
  then show ?thesis
  proof cases
    case one
    then show ?thesis by (cases bs) (auto simp: EncodeBytes_def Decode_unfold)
  next
    case short
    then have "EncodeBytes bs = (0x80 + word_of_nat (length bs)) # bs"
      by (auto simp: EncodeBytes_def encodeLength_def)
    then show ?thesis using Decode_short_string [OF short(2,1), of rest] by simp
  next
    case long
    define lb where "lb = uintToMinimalBytes (word_of_nat (length bs))"
    have "EncodeBytes bs = (0xb7 + word_of_nat (length lb)) # lb @ bs"
      using long by (simp add: EncodeBytes_def encodeLength_def Let_def lb_def)
    then show ?thesis using Decode_long_string [OF long assms lb_def, of rest] by simp
  qed
qed

lemma Decode_EncodeList:
  assumes "length (concat items) \<le> 2 ^ 31" "decodeListPayload (concat items) [] = Inr item"
  shows "Decode (EncodeList items @ rest) =
    Inr (RLPItem True [] (itemList item) (EncodeList items), length (EncodeList items))"
proof (cases "length (concat items) < 56")
  case True
  then have "EncodeList items = (0xc0 + word_of_nat (length (concat items))) # concat items"
    by (simp add: EncodeList_def encodeLength_def Let_def)
  then show ?thesis using Decode_short_list [OF True assms(2), of rest] by simp
next
  case False
  define lb where "lb = uintToMinimalBytes (word_of_nat (length (concat items)))"
  have "EncodeList items = (0xf7 + word_of_nat (length lb)) # lb @ concat items"
    using False by (simp add: EncodeList_def encodeLength_def Let_def lb_def)
  then show ?thesis using Decode_long_list [OF _ assms lb_def, of rest] False by simp
qed

text \<open>The item an encoding decodes to: every level carries its own encoding as \<open>raw\<close>.\<close>

fun item_of :: "rlp \<Rightarrow> rlp_item" where
  "item_of (Str b) = RLPItem False b [] (rlp_enc (Str b))"
| "item_of (Lst ts) = RLPItem True [] (map item_of ts) (rlp_enc (Lst ts))"

lemma strip_item_of [simp]: "rlp_strip (item_of t) = t"
  by (induction t) (simp_all add: map_idI)

lemma length_EncodeList_ge: "length (concat items) < length (EncodeList items)"
  using length_encodeLength [of "length (concat items)" "0xc0"] by (simp add: EncodeList_def Let_def)

lemma length_EncodeBytes_ge: "length b \<le> length (EncodeBytes b)"
  by (simp add: EncodeBytes_def)

lemma length_concat_member: "x \<in> set xs \<Longrightarrow> length x \<le> length (concat xs)"
  by (induction xs) auto

lemma decodeListPayload_items:
  assumes "\<And>t rest. t \<in> set ts \<Longrightarrow> Decode (rlp_enc t @ rest) = Inr (item_of t, length (rlp_enc t))"
  shows "decodeListPayload (concat (map rlp_enc ts)) acc = Inr (RLPItem True [] (acc @ map item_of ts) [])"
  using assms
proof (induction ts arbitrary: acc)
  case Nil
  show ?case by (simp add: decodeListPayload.simps)
next
  case (Cons t ts)
  have "Decode (rlp_enc t @ concat (map rlp_enc ts)) = Inr (item_of t, length (rlp_enc t))" using Cons.prems by simp
  then show ?case using Cons by (simp add: decodeListPayload.simps [of "rlp_enc t @ _"])
qed

lemma Decode_enc:
  "length (rlp_enc t) \<le> 2 ^ 31 \<Longrightarrow> Decode (rlp_enc t @ rest) = Inr (item_of t, length (rlp_enc t))"
proof (induction t arbitrary: rest)
  case (Str b)
  then show ?case using Decode_EncodeBytes [of b rest] length_EncodeBytes_ge [of b] by simp
next
  case (Lst ts)
  have len: "length (concat (map rlp_enc ts)) \<le> 2 ^ 31"
    using length_EncodeList_ge [of "map rlp_enc ts"] Lst.prems by simp
  have "Decode (rlp_enc t @ rest) = Inr (item_of t, length (rlp_enc t))" if "t \<in> set ts" for t rest
    using Lst.IH [OF that, of rest] length_concat_member [of "rlp_enc t" "map rlp_enc ts"] len that by simp
  then show ?case using Decode_EncodeList [OF len decodeListPayload_items] by simp
qed

section \<open>The decoder fails with one error only\<close>

lemma decode_length_loop_err: "e \<noteq> ErrRLP \<Longrightarrow> decode_length_loop xs v \<noteq> Inl e"
  by (induction xs v rule: decode_length_loop.induct) auto

lemma decodeLength_err: "e \<noteq> ErrRLP \<Longrightarrow> decodeLength lb \<noteq> Inl e"
  using decode_length_loop_err by (auto simp: decodeLength_def and_then_Inl_iff)

lemma decodeListPayload_err:
  assumes "e \<noteq> ErrRLP" and "\<And>d. length d \<le> k \<Longrightarrow> Decode d \<noteq> Inl e"
  shows "length rest \<le> k \<Longrightarrow> decodeListPayload rest acc \<noteq> Inl e"
proof (induction rest arbitrary: acc rule: length_induct)
  case (1 rest)
  show ?case
  proof (cases "Decode rest")
    case (Inr r)
    obtain child n where r: "r = (child, n)" by (cases r)
    then have "canonical_at rest child n" using Inr Decode_canonical by blast
    then have "length (drop n rest) < length rest" by (auto simp: canonical_at_def)
    then show ?thesis using "1.IH" "1.prems" Inr r by (simp add: decodeListPayload.simps [of rest])
  qed (use assms "1.prems" in \<open>auto simp: decodeListPayload.simps [of rest]\<close>)
qed

lemma Decode_err:
  assumes e: "e \<noteq> ErrRLP"
  shows "Decode data \<noteq> Inl e"
proof (induction data rule: length_induct)
  case (1 data)
  have list: "decodeListPayload p acc \<noteq> Inl e" if "length p < length data" for p acc
    using decodeListPayload_err [OF e, of "length p" p acc] that "1.IH" by fastforce
  then have "decodeListPayload (take k (drop (Suc m) data)) acc \<noteq> Inl e"
    if "data \<noteq> []" for k m acc using that by (intro list) (cases data, auto)
  then show ?case
    by (cases "data = []", use e in \<open>simp add: Decode_unfold\<close>)
      (use e in \<open>auto simp: Decode_unfold [of data] and_then_Inl_iff decodeLength_err not_less Suc_le_eq\<close>)
qed

section \<open>Integers\<close>

lemma foldl_shift_val:
  "unat v * 256 ^ length bs + be_val bs < 2 ^ 64 \<Longrightarrow>
   unat (foldl (\<lambda>v b. push_bit 8 v OR ucast b) (v :: uint64) (bs :: bytes)) = unat v * 256 ^ length bs + be_val bs"
proof (induction bs arbitrary: v)
  case (Cons b bs)
  have le: "unat v * 256 \<le> unat v * 256 ^ length (b # bs)" by (intro mult_le_mono) simp_all
  then have "unat v * 256 < 2 ^ 64" using Cons.prems by linarith
  then have "unat v < 2 ^ 56" by simp
  then have "unat (push_bit 8 v OR ucast b) = unat v * 256 + unat b" by (rule unat_shift_in_byte)
  then show ?case using Cons.IH [of "push_bit 8 v OR ucast b"] Cons.prems
    by (simp add: be_val_Cons algebra_simps)
qed simp

lemma item_Uint64_bytes:
  assumes "length bs \<le> 8" "bs \<noteq> [] \<Longrightarrow> bs ! 0 \<noteq> 0"
  shows "item_Uint64 (RLPItem False bs its raw) = Inr (word_of_nat (be_val bs))"
proof -
  have "be_val bs < 256 ^ length bs" by (rule be_val_less)
  also have "(256::nat) ^ length bs \<le> 256 ^ 8" using assms(1) by (intro power_increasing) simp_all
  finally have lt: "be_val bs < 2 ^ 64" by simp
  then have "unat (foldl (\<lambda>v b. push_bit 8 v OR ucast b) (0 :: uint64) bs) = be_val bs"
    using foldl_shift_val [of 0 bs] by simp
  then have "foldl (\<lambda>v b. push_bit 8 v OR ucast b) (0 :: uint64) bs = word_of_nat (be_val bs)"
    using lt by (intro unat_eqI) (simp add: unat_of_nat)
  then show ?thesis using assms by (auto simp: item_Uint64_def)
qed

lemma item_Uint64_Inr:
  assumes "item_Uint64 it = Inr v"
  shows "\<not> IsList it" "itemBytes it = uintToMinimalBytes v"
proof -
  show "\<not> IsList it" using assms by (auto simp: item_Uint64_def)
  obtain bs its raw where it: "it = RLPItem False bs its raw"
    using \<open>\<not> IsList it\<close> by (cases it) auto
  have bs: "length bs \<le> 8" "bs \<noteq> [] \<Longrightarrow> bs ! 0 \<noteq> 0"
    using assms by (auto simp: item_Uint64_def it split: if_splits)
  then have v: "v = word_of_nat (be_val bs)" using item_Uint64_bytes [OF bs] assms it by simp
  have "be_val bs < 256 ^ length bs" by (rule be_val_less)
  also have "(256::nat) ^ length bs \<le> 256 ^ 8" using bs(1) by (intro power_increasing) simp_all
  finally have "unat v = be_val bs" by (simp add: v unat_of_nat)
  then show "itemBytes it = uintToMinimalBytes v" using uintToMinimalBytes_canonical [OF bs] it by simp
qed

lemma EncodeUint64_min: "EncodeUint64 v = EncodeBytes (uintToMinimalBytes v)"
  unfolding EncodeUint64_def uintToMinimalBytes_def
  by (cases "v = 0") (simp_all add: EncodeBytes_def encodeLength_def)

lemma DecodeStrict_enc: "length (rlp_enc t) \<le> 2 ^ 31 \<Longrightarrow> DecodeStrict (rlp_enc t) = Inr (item_of t)"
  using Decode_enc [of t "[]"] by (simp add: DecodeStrict_def)

lemma DecodeStrict_Inr: "DecodeStrict data = Inr it \<Longrightarrow> rlp_enc (rlp_strip it) = data \<and> itemRaw it = data"
  using Decode_canonical [of data it "length data"]
  by (auto simp: DecodeStrict_def and_then_Inr_iff canonical_at_def split: if_splits)

lemma enc_Str_bound: "length bs \<le> 8 \<Longrightarrow> length (rlp_enc (Str bs)) \<le> 2 ^ 31"
  by (simp add: EncodeBytes_def encodeLength_def)

lemma item_BigInt_nat_bytes: "item_BigInt (RLPItem False (nat_bytes v) its raw) = Inr (int v)"
  using nat_bytes_hd [of v] by (cases "v = 0") (auto simp: item_BigInt_def)

lemma item_BigInt_Inr: "item_BigInt it = Inr n \<Longrightarrow> rlp_strip it = Str (nat_bytes (nat n))"
  by (cases it) (auto simp: item_BigInt_def nat_bytes_unique split: if_splits)

lemma length_nat_bytes: "v < 256 ^ k \<Longrightarrow> length (nat_bytes v) \<le> k"
proof (induction k arbitrary: v)
  case (Suc k)
  then have "v div 256 < 256 ^ k" by (simp add: less_mult_imp_div_less mult.commute)
  then show ?case using Suc.IH [of "v div 256"] by (simp add: nat_bytes.simps [of v])
qed simp

lemma length_EncodeBytes_le: "length b < 56 \<Longrightarrow> length (EncodeBytes b) \<le> 1 + length b"
  by (simp add: EncodeBytes_def encodeLength_def)

section \<open>Properties\<close>

text \<open>
  C10: the strict decoder accepts exactly the canonical encodings. A byte string of at most
  2 GiB decodes to an item iff it is the encoding \<open>rlp_enc t\<close> of an abstract item \<open>t\<close>, and the item
  is then \<open>item_of t\<close>, whose every level carries its own encoding. Non-minimal lengths, non-minimal
  single bytes and trailing bytes are all rejected.
\<close>

theorem DecodeStrict_iff:
  assumes "length data \<le> 2 ^ 31"
  shows "DecodeStrict data = Inr it \<longleftrightarrow> (\<exists>t. data = rlp_enc t \<and> it = item_of t)"
proof
  assume ok: "DecodeStrict data = Inr it"
  then have "data = rlp_enc (rlp_strip it)" using DecodeStrict_Inr by simp
  then show "\<exists>t. data = rlp_enc t \<and> it = item_of t" using DecodeStrict_enc [of "rlp_strip it"] assms ok by auto
qed (use assms DecodeStrict_enc in auto)

theorem DecodeStrict_iff_witness:
  "DecodeStrict [0xc2, 0x80, 0x05] = Inr (item_of (Lst [Str [], Str [5]]))"
proof -
  have e: "[0xc2, 0x80, 0x05] = rlp_enc (Lst [Str [], Str [5]])"
    by (simp add: EncodeList_def EncodeBytes_def encodeLength_def)
  show ?thesis
    by (rule iffD2 [OF DecodeStrict_iff]) (simp, use e in blast)
qed

text \<open>
  C40: \<open>Decode\<close> is total on every byte string. It either fails with \<open>ErrRLP\<close>, never with an index
  panic, or consumes at least one byte and no more than it was given.
\<close>

theorem Decode_total:
  "case Decode data of Inl e \<Rightarrow> e = ErrRLP | Inr (it, n) \<Rightarrow> 0 < n \<and> n \<le> length data"
  using Decode_err [of _ data] Decode_canonical [of data]
  by (fastforce simp: canonical_at_def split: sum.splits)

text \<open>
  unsigned integers have exactly one accepted encoding. Strictly decoding a byte string as a
  64-bit integer gives \<open>v\<close> iff the byte string is \<open>EncodeUint64 v\<close>.
\<close>

theorem Uint64_encoding_unique:
  "and_then (DecodeStrict data) item_Uint64 = Inr v \<longleftrightarrow> data = EncodeUint64 v"
proof
  assume "and_then (DecodeStrict data) item_Uint64 = Inr v"
  then obtain it where it: "DecodeStrict data = Inr it" "item_Uint64 it = Inr v"
    by (auto simp: and_then_Inr_iff)
  then have "rlp_strip it = Str (uintToMinimalBytes v)" using item_Uint64_Inr [OF it(2)] by (cases it) auto
  then show "data = EncodeUint64 v" using DecodeStrict_Inr [OF it(1)] by (simp add: EncodeUint64_min)
next
  assume "data = EncodeUint64 v"
  then have "DecodeStrict data = Inr (item_of (Str (uintToMinimalBytes v)))"
    using DecodeStrict_enc [of "Str (uintToMinimalBytes v)"] enc_Str_bound [OF length_uintToMinimalBytes]
    by (simp add: EncodeUint64_min)
  moreover have "item_Uint64 (item_of (Str (uintToMinimalBytes v))) = Inr v"
    using item_Uint64_bytes [OF length_uintToMinimalBytes uintToMinimalBytes_hd] by simp
  ultimately show "and_then (DecodeStrict data) item_Uint64 = Inr v" by simp
qed

text \<open>
  non-negative big integers below \<open>2 ^ 256\<close> have exactly one accepted encoding,
  \<open>EncodeBigInt\<close> of the value.
\<close>

theorem BigInt_encoding_unique:
  assumes "0 \<le> n" "n < 2 ^ 256"
  shows "and_then (DecodeStrict data) item_BigInt = Inr n \<longleftrightarrow> data = EncodeBigInt (Some n)"
proof
  have e: "EncodeBigInt (Some n) = rlp_enc (Str (nat_bytes (nat n)))"
    using assms by (simp add: EncodeBigInt_def EncodeBytes_def encodeLength_def)
  {
    assume "and_then (DecodeStrict data) item_BigInt = Inr n"
    then obtain it where it: "DecodeStrict data = Inr it" "item_BigInt it = Inr n"
      by (auto simp: and_then_Inr_iff)
    then have "rlp_strip it = Str (nat_bytes (nat n))" using item_BigInt_Inr by simp
    then show "data = EncodeBigInt (Some n)" using DecodeStrict_Inr [OF it(1)] e by simp
  next
    assume d: "data = EncodeBigInt (Some n)"
    have len: "length (nat_bytes (nat n)) \<le> 32"
      using length_nat_bytes [of "nat n" 32] assms by simp
    then have "DecodeStrict data = Inr (item_of (Str (nat_bytes (nat n))))"
      using DecodeStrict_enc [of "Str (nat_bytes (nat n))"] d e length_EncodeBytes_le [of "nat_bytes (nat n)"]
      by simp
    then show "and_then (DecodeStrict data) item_BigInt = Inr n"
      using item_BigInt_nat_bytes [of "nat n"] assms(1) by simp
  }
qed

theorem BigInt_encoding_unique_witness:
  "and_then (DecodeStrict [0x82, 0x01, 0x00]) item_BigInt = Inr 256"
proof -
  have "EncodeBigInt (Some 256) = [0x82, 0x01, 0x00]"
    by (simp add: EncodeBigInt_def EncodeBytes_def encodeLength_def nat_bytes.simps)
  then show ?thesis using BigInt_encoding_unique [of 256 "[0x82, 0x01, 0x00]"] by simp
qed

end
