(* ===== verification/Crypto.thy ===== *)
theory Crypto
  imports Rlp
begin

text \<open>
  The hashing, Merkle, bloom and signature helpers of \<open>crypto/crypto.go\<close> and
  \<open>crypto/signature.go\<close>. Keccak-256 (\<open>golang.org/x/crypto/sha3\<close>) is the parameter \<open>kec\<close> of every
  definition that hashes; the curve operations \<open>SignCompact\<close> and \<open>RecoverCompact\<close> of
  \<open>dcrd/secp256k1\<close> are parameters of the signature functions.
\<close>

section \<open>Hashing and address derivation\<close>

type_synonym keccak = "bytes \<Rightarrow> hash"

definition Keccak256 :: "keccak \<Rightarrow> bytes list \<Rightarrow> hash" where
  "Keccak256 kec data = kec (concat data)"

definition PubKeyToAddress :: "keccak \<Rightarrow> bytes \<Rightarrow> address res" where
  "PubKeyToAddress kec pubkey =
     and_then
       (if length pubkey = 65 then
          (if pubkey ! 0 \<noteq> 0x04 then Inl (ErrOther ''pubkey prefix'') else Inr (drop 1 pubkey))
        else if length pubkey = 64 then Inr pubkey
        else Inl (ErrOther ''pubkey length''))
       (\<lambda>pk. Inr (bytes_word (drop 12 (word_bytes (Keccak256 kec [pk])))))"

definition Uint16BE :: "16 word \<Rightarrow> bytes" where
  "Uint16BE v = word_bytes v"

definition Uint32BE :: "uint32 \<Rightarrow> bytes" where
  "Uint32BE v = word_bytes v"

definition Uint64BE :: "uint64 \<Rightarrow> bytes" where
  "Uint64BE v = word_bytes v"

definition Uint64FromBE :: "bytes \<Rightarrow> uint64 res" where
  "Uint64FromBE b = (if length b \<noteq> 8 then Inl (ErrOther ''uint64 length'') else Inr (bytes_word b))"

definition Uint32FromBE :: "bytes \<Rightarrow> uint32 res" where
  "Uint32FromBE b = (if length b \<noteq> 4 then Inl (ErrOther ''uint32 length'') else Inr (bytes_word b))"

definition DeriveRandomness :: "keccak \<Rightarrow> hash \<Rightarrow> height \<Rightarrow> hash" where
  "DeriveRandomness kec prevHash h = Keccak256 kec [word_bytes prevHash, Uint64BE h]"

definition EmptyCodeHash :: hash where
  "EmptyCodeHash = 0xc5d2460186f7233c927e7db2dcc703c0e500b653ca82273b7bfad8045d85a470"

definition EmptyStorageRoot :: hash where
  "EmptyStorageRoot = 0x56e81f171bcc55a6ff8345e692c0f86e5b48e01b996cadc001622fb5e363b421"

lemma length_UintBE [simp, len_simps]:
  "length (Uint16BE a) = 2" "length (Uint32BE b) = 4" "length (Uint64BE c) = 8"
  by (simp_all add: Uint16BE_def Uint32BE_def Uint64BE_def)

lemma UintBE_inj [simp]:
  "Uint16BE a = Uint16BE a' \<longleftrightarrow> a = a'"
  "Uint32BE b = Uint32BE b' \<longleftrightarrow> b = b'"
  "Uint64BE c = Uint64BE c' \<longleftrightarrow> c = c'"
  by (simp_all add: Uint16BE_def Uint32BE_def Uint64BE_def)

lemma Uint64FromBE_Uint64BE [codec_simps, simp]: "Uint64FromBE (Uint64BE v) = Inr v"
  by (simp add: Uint64FromBE_def Uint64BE_def)

lemma Uint32FromBE_Uint32BE [codec_simps, simp]: "Uint32FromBE (Uint32BE v) = Inr v"
  by (simp add: Uint32FromBE_def Uint32BE_def)

section \<open>Merkle root\<close>

text \<open>One level: pair neighbours, the last of an odd level with itself.\<close>

fun merkle_level :: "keccak \<Rightarrow> hash list \<Rightarrow> hash list" where
  "merkle_level kec [] = []"
| "merkle_level kec [x] = [Keccak256 kec [word_bytes x, word_bytes x]]"
| "merkle_level kec (x # y # xs) = Keccak256 kec [word_bytes x, word_bytes y] # merkle_level kec xs"

lemma length_merkle_level [simp]: "length (merkle_level kec xs) = (length xs + 1) div 2"
  by (induction kec xs rule: merkle_level.induct) simp_all

function merkle_loop :: "keccak \<Rightarrow> hash list \<Rightarrow> hash list" where
  "merkle_loop kec level = (if length level > 1 then merkle_loop kec (merkle_level kec level) else level)"
  by pat_completeness auto
termination by (relation "measure (\<lambda>(kec, level). length level)") auto

declare merkle_loop.simps [simp del]

definition MerkleRoot :: "keccak \<Rightarrow> hash list \<Rightarrow> hash" where
  "MerkleRoot kec leaves = (if length leaves = 0 then 0 else merkle_loop kec leaves ! 0)"

text \<open>The byte strings hashed while computing a root.\<close>

fun level_inputs :: "hash list \<Rightarrow> bytes list" where
  "level_inputs [] = []"
| "level_inputs [x] = [word_bytes x @ word_bytes x]"
| "level_inputs (x # y # xs) = (word_bytes x @ word_bytes y) # level_inputs xs"

function merkle_inputs :: "keccak \<Rightarrow> hash list \<Rightarrow> bytes list" where
  "merkle_inputs kec level =
     (if length level > 1 then level_inputs level @ merkle_inputs kec (merkle_level kec level) else [])"
  by pat_completeness auto
termination by (relation "measure (\<lambda>(kec, level). length level)") auto

declare merkle_inputs.simps [simp del]

lemma merkle_level_inj:
  "inj_on kec (set (level_inputs xs) \<union> set (level_inputs ys)) \<Longrightarrow> length xs = length ys \<Longrightarrow>
   merkle_level kec xs = merkle_level kec ys \<Longrightarrow> xs = ys"
proof (induction xs arbitrary: ys rule: induct_list012)
  case (2 x)
  then obtain y where "ys = [y]" by (cases ys) auto
  then show ?case using 2 by (auto simp: Keccak256_def dest!: inj_onD)
next
  case (3 x x' xs)
  then obtain y y' ys' where ys: "ys = y # y' # ys'" by (cases ys; cases "tl ys") auto
  have "word_bytes x @ word_bytes x' = word_bytes y @ word_bytes y'"
    by (rule inj_onD [OF 3(3)]) (use 3(5) in \<open>simp_all add: ys Keccak256_def\<close>)
  moreover have "xs = ys'"
    by (rule "3.IH"(1), rule inj_on_subset [OF 3(3)]) (use 3(4,5) in \<open>auto simp: ys\<close>)
  ultimately show ?case by (simp add: ys)
qed auto

lemma merkle_loop_unfold:
  "1 < length xs \<Longrightarrow> merkle_loop kec xs = merkle_loop kec (merkle_level kec xs)"
  "\<not> 1 < length xs \<Longrightarrow> merkle_loop kec xs = xs"
  by (subst merkle_loop.simps, simp)+

lemma merkle_inputs_unfold:
  "1 < length xs \<Longrightarrow> merkle_inputs kec xs = level_inputs xs @ merkle_inputs kec (merkle_level kec xs)"
  by (subst merkle_inputs.simps) simp

lemma merkle_loop_inj:
  "length xs = length ys \<Longrightarrow> inj_on kec (set (merkle_inputs kec xs) \<union> set (merkle_inputs kec ys)) \<Longrightarrow>
   merkle_loop kec xs = merkle_loop kec ys \<Longrightarrow> xs = ys"
proof (induction kec xs arbitrary: ys rule: merkle_loop.induct)
  case (1 kec xs)
  show ?case
  proof (cases "length xs > 1")
    case True
    then have ys: "1 < length ys" using "1.prems"(1) by simp
    note inputs = merkle_inputs_unfold [OF True] merkle_inputs_unfold [OF ys]
    note loops = merkle_loop_unfold(1) [OF True] merkle_loop_unfold(1) [OF ys]
    have "merkle_level kec xs = merkle_level kec ys"
      using "1.prems"(1,3) unfolding loops
      by (intro "1.IH" [OF True _ inj_on_subset [OF "1.prems"(2)]]) (auto simp: inputs)
    moreover have "inj_on kec (set (level_inputs xs) \<union> set (level_inputs ys))"
      by (rule inj_on_subset [OF "1.prems"(2)]) (auto simp: inputs)
    ultimately show ?thesis using "1.prems"(1) merkle_level_inj by blast
  next
    case False
    then have "\<not> 1 < length ys" using "1.prems"(1) by simp
    from merkle_loop_unfold(2) [OF this] merkle_loop_unfold(2) [OF False] show ?thesis
      using "1.prems"(3) by simp
  qed
qed

lemma length_merkle_loop: "xs \<noteq> [] \<Longrightarrow> length (merkle_loop kec xs) = 1"
proof (induction kec xs rule: merkle_loop.induct)
  case (1 kec xs)
  show ?case
  proof (cases "1 < length xs")
    case True
    then have "length (merkle_level kec xs) \<noteq> 0" by simp
    then show ?thesis using "1.IH" [OF True] by (metis merkle_loop_unfold(1) [OF True] list.size(3))
  next
    case False
    then show ?thesis using "1.prems" unfolding merkle_loop_unfold(2) [OF False] by (cases xs) simp_all
  qed
qed

lemma merkle_level_odd:
  "odd (length xs) \<Longrightarrow> merkle_level kec (xs @ [last xs]) = merkle_level kec xs"
  by (induction kec xs rule: merkle_level.induct) auto

section \<open>Bloom filter\<close>

definition bloom_bitpos :: "hash \<Rightarrow> nat \<Rightarrow> 16 word" where
  "bloom_bitpos h i =
     push_bit 8 (ucast (word_bytes h ! (2 * i) AND 0x07)) OR ucast (word_bytes h ! (2 * i + 1))"

definition bloom_byteIndex :: "16 word \<Rightarrow> nat" where
  "bloom_byteIndex bitpos = unat (255 - bitpos div 8)"

definition bloom_mask :: "16 word \<Rightarrow> byte" where
  "bloom_mask bitpos = push_bit (unat (bitpos mod 8)) 1"

definition BloomAdd :: "bloom \<Rightarrow> hash \<Rightarrow> bloom" where
  "BloomAdd bloom h =
     bytes_word (foldl (\<lambda>bs i. let j = bloom_byteIndex (bloom_bitpos h i)
                          in bs[j := bs ! j OR bloom_mask (bloom_bitpos h i)])
                  (word_bytes bloom) [0..<3])"

definition BloomFromLogs :: "keccak \<Rightarrow> address \<Rightarrow> hash list \<Rightarrow> bloom" where
  "BloomFromLogs kec addr topics =
     foldl (\<lambda>bloom t. BloomAdd bloom (Keccak256 kec [word_bytes t]))
       (BloomAdd 0 (Keccak256 kec [word_bytes addr])) topics"

definition BloomContains :: "bloom \<Rightarrow> hash \<Rightarrow> bool" where
  "BloomContains bloom h =
     list_all (\<lambda>i. word_bytes bloom ! bloom_byteIndex (bloom_bitpos h i)
                AND bloom_mask (bloom_bitpos h i) \<noteq> 0) [0..<3]"

text \<open>The abstract filter: the set of bit positions, of which a hash selects three.\<close>

definition bloom_test :: "bytes \<Rightarrow> 16 word \<Rightarrow> bool" where
  "bloom_test bs p \<longleftrightarrow> bs ! bloom_byteIndex p AND bloom_mask p \<noteq> 0"

definition bloom_set :: "bloom \<Rightarrow> 16 word set" where
  "bloom_set b = {p. p < 2048 \<and> bloom_test (word_bytes b) p}"

definition bloom_positions :: "hash \<Rightarrow> 16 word set" where
  "bloom_positions h = {bloom_bitpos h 0, bloom_bitpos h 1, bloom_bitpos h 2}"

lemma bloom_bitpos_less: "bloom_bitpos h i < 2048"
proof -
  define a where "a = word_bytes h ! (2 * i)"
  define b where "b = word_bytes h ! (2 * i + 1)"
  have "bloom_bitpos h i = ucast (a AND 7) * 256 + ucast b"
    by (simp add: bloom_bitpos_def shift_in_byte a_def b_def)
  moreover have a: "unat (a AND 7) < 8"
    using take_bit_nat_less_exp [of 3 "unat a"]
    by (simp add: take_bit_eq_mask mask_eq_exp_minus_1 unsigned_and_eq)
  moreover have "unat b < 256" by (rule unat_byte_less)
  ultimately show ?thesis 
    by (simp add: word_less_nat_alt unat_word_ariths unsigned_ucast_eq take_bit_eq_mod
        del: unat_byte_less)
qed

lemma bloom_byteIndex: "p < 2048 \<Longrightarrow> bloom_byteIndex p = 255 - unat p div 8"
proof -
  assume p: "p < 2048"
  then have "unat p < 2048" by (simp add: word_less_nat_alt)
  then have "unat p div 8 \<le> 255" by linarith
  moreover have "unat (p div 8) = unat p div 8" by (simp add: unat_div)
  ultimately show ?thesis by (simp add: bloom_byteIndex_def unat_sub word_le_nat_alt)
qed

lemma bloom_byteIndex_less: "p < 2048 \<Longrightarrow> bloom_byteIndex p < 256"
  by (simp add: bloom_byteIndex)

lemma bloom_mask_and:
  "bloom_mask p AND bloom_mask q = (if unat p mod 8 = unat q mod 8 then bloom_mask p else 0)"
proof -
  have u: "unat (p mod 8) = unat p mod 8" "unat (q mod 8) = unat q mod 8"
    by (simp_all add: unat_mod)
  show ?thesis
    by (rule bit_word_eqI) (auto simp: bloom_mask_def u bit_simps)
qed

lemma bloom_mask_nz: "bloom_mask p \<noteq> 0"
proof -
  have "bit (bloom_mask p) (unat p mod 8)" by (simp add: bloom_mask_def unat_mod bit_simps)
  then show ?thesis by auto
qed

text \<open>Or-ing one bit into a byte array adds one position to the set.\<close>

lemma bloom_test_update:
  assumes "p < 2048" "q < 2048" "length bs = 256"
  shows "bloom_test (bs[bloom_byteIndex p := bs ! bloom_byteIndex p OR bloom_mask p]) q
    \<longleftrightarrow> q = p \<or> bloom_test bs q"
proof (cases "bloom_byteIndex q = bloom_byteIndex p")
  case True
  have "unat p < 2048" "unat q < 2048" using assms by (simp_all add: word_less_nat_alt)
  then have "unat p div 8 = unat q div 8" using True assms by (simp add: bloom_byteIndex)
  then have "unat p mod 8 = unat q mod 8 \<longleftrightarrow> p = q"
    by (metis div_mult_mod_eq unat_eqI)
  then have "bloom_mask p AND bloom_mask q = (if p = q then bloom_mask p else 0)"
    using bloom_mask_and [of p q] by simp
  then have "(bs ! bloom_byteIndex p OR bloom_mask p) AND bloom_mask q =
      (bs ! bloom_byteIndex p AND bloom_mask q) OR (if p = q then bloom_mask p else 0)"
    by (simp add: bit.conj_disj_distrib2)
  moreover have "bs[bloom_byteIndex p := bs ! bloom_byteIndex p OR bloom_mask p] ! bloom_byteIndex q =
      bs ! bloom_byteIndex p OR bloom_mask p"
    using True assms bloom_byteIndex_less [of p] by simp
  ultimately show ?thesis unfolding bloom_test_def True
    by (cases "p = q") (simp_all add: or_eq_0_iff bloom_mask_nz)
next
  case False
  then show ?thesis using bloom_byteIndex_less [of p] assms by (auto simp: bloom_test_def)
qed

lemma bloom_set_zero [simp]: "bloom_set 0 = {}"
  using bloom_byteIndex_less by (auto simp: bloom_set_def bloom_test_def word_bytes_zero)

lemma upt_3: "[0..<3] = [0, 1, 2::nat]"
  by (simp add: upt_rec)

lemma bloom_set_BloomAdd: "bloom_set (BloomAdd b h) = bloom_set b \<union> bloom_positions h"
proof -
  define upd where "upd bs i = (let j = bloom_byteIndex (bloom_bitpos h i)
    in bs[j := bs ! j OR bloom_mask (bloom_bitpos h i)])" for bs i
  have len: "length (upd bs i) = length bs" for bs i by (simp add: upd_def Let_def)
  have test: "bloom_test (upd bs i) q \<longleftrightarrow> q = bloom_bitpos h i \<or> bloom_test bs q"
    if "q < 2048" "length bs = 256" for bs i q
    using bloom_test_update [OF bloom_bitpos_less that] by (simp add: upd_def Let_def)
  have "word_bytes (BloomAdd b h) = upd (upd (upd (word_bytes b) 0) 1) 2"
    by (simp add: BloomAdd_def word_bytes_bytes_word upt_3 len upd_def [symmetric])
  then show ?thesis using bloom_bitpos_less by (auto simp: bloom_set_def bloom_positions_def test len)
qed

lemma BloomContains_set: "BloomContains b h \<longleftrightarrow> bloom_positions h \<subseteq> bloom_set b"
  using bloom_bitpos_less
  by (simp add: BloomContains_def bloom_set_def bloom_positions_def bloom_test_def upt_3)

lemma bloom_set_foldl:
  "bloom_set (foldl (\<lambda>bloom t. BloomAdd bloom (f t)) b ts) = bloom_set b \<union> (\<Union>t\<in>set ts. bloom_positions (f t))"
  by (induction ts arbitrary: b) (auto simp: bloom_set_BloomAdd)

section \<open>Signatures\<close>

text \<open>
  A signature is 65 bytes, r then s then v. \<open>SignCompact\<close> returns the header byte
  \<open>27 + recovery id\<close> followed by r and s, and \<open>RecoverCompact\<close> the uncompressed public key.
\<close>

definition secp256k1N :: nat where
  "secp256k1N = 0xfffffffffffffffffffffffffffffffebaaedce6af48a03bbfd25e8cd0364141"

definition secp256k1HalfN :: nat where
  "secp256k1HalfN = secp256k1N div 2"

definition Sign :: "(hash \<Rightarrow> 'k \<Rightarrow> bytes) \<Rightarrow> hash \<Rightarrow> 'k \<Rightarrow> signature res" where
  "Sign SignCompact digest privKey =
     (let compact = SignCompact digest privKey in
      if length compact \<noteq> 65 then Inl (ErrOther ''SignCompact length'')
      else let rs = take 32 (drop 1 compact) @ take 32 (drop 33 compact);
               recID = (if compact ! 0 \<ge> 27 then compact ! 0 - 27 else compact ! 0)
           in if recID \<ge> 4 then Inl (ErrOther ''recovery id'')
              else if be_val (drop 32 rs) > secp256k1HalfN then Inl (ErrOther ''high s'')
              else Inr (bytes_word (rs @ [recID])))"

definition RecoverPubKey :: "(bytes \<Rightarrow> hash \<Rightarrow> bytes option) \<Rightarrow> hash \<Rightarrow> signature \<Rightarrow> bytes res" where
  "RecoverPubKey RecoverCompact digest sig =
     (let sb = word_bytes sig; v = sb ! 64 in
      if v > 1 then Inl (ErrOther ''v'')
      else case RecoverCompact ((v + 27) # take 32 sb @ take 32 (drop 32 sb)) digest of
             None \<Rightarrow> Inl (ErrOther ''recover'')
           | Some pub \<Rightarrow> Inr pub)"

definition RecoverAddress ::
  "keccak \<Rightarrow> (bytes \<Rightarrow> hash \<Rightarrow> bytes option) \<Rightarrow> hash \<Rightarrow> signature \<Rightarrow> address res" where
  "RecoverAddress kec RecoverCompact digest sig =
     and_then (RecoverPubKey RecoverCompact digest sig) (PubKeyToAddress kec)"

definition Verify ::
  "keccak \<Rightarrow> (bytes \<Rightarrow> hash \<Rightarrow> bytes option) \<Rightarrow> hash \<Rightarrow> signature \<Rightarrow> address \<Rightarrow> bool" where
  "Verify kec RecoverCompact digest sig expected =
     (case RecoverAddress kec RecoverCompact digest sig of Inl _ \<Rightarrow> False | Inr got \<Rightarrow> got = expected)"

definition IsLowS :: "signature \<Rightarrow> bool" where
  "IsLowS sig \<longleftrightarrow> be_val (take 32 (drop 32 (word_bytes sig))) \<le> secp256k1HalfN"

definition ZeroSignature :: signature where
  "ZeroSignature = 0"

definition SignatureFromBytes :: "bytes \<Rightarrow> signature res" where
  "SignatureFromBytes b =
     (if length b \<noteq> SignatureLen then Inl (ErrOther ''signature length'') else Inr (bytes_word b))"

lemma Sign_Inr:
  assumes "Sign SignCompact digest k = Inr sig"
  obtains hd rs where "SignCompact digest k = hd # rs" "length rs = 64"
    "word_bytes sig = rs @ [if hd \<ge> 27 then hd - 27 else hd]" "be_val (drop 32 rs) \<le> secp256k1HalfN"
proof -
  define c where "c = SignCompact digest k"
  have len: "length c = 65" using assms by (auto simp: Sign_def c_def Let_def split: if_splits)
  then obtain h rs where c: "c = h # rs" and rs: "length rs = 64" by (cases c) auto
  then have split: "take 32 rs @ take 32 (drop 32 rs) = rs"
    by (metis append_take_drop_id length_drop take_all le_refl diff_add_inverse numeral_Bit0)
  have "sig = bytes_word (rs @ [if h \<ge> 27 then h - 27 else h])" "be_val (drop 32 rs) \<le> secp256k1HalfN"
    using assms len c rs split by (auto simp: Sign_def c_def [symmetric] Let_def not_less split: if_splits)
  then show ?thesis using that [of h rs] c rs by (simp add: c_def word_bytes_bytes_word)
qed

section \<open>Properties\<close>

text \<open>
  the Merkle root binds its leaves. When Keccak has no collision among the strings hashed for
  the two trees, two leaf lists of the same length with the same root are equal.
\<close>

theorem MerkleRoot_binding:
  assumes "inj_on kec (set (merkle_inputs kec xs) \<union> set (merkle_inputs kec ys))"
    "length xs = length ys" "MerkleRoot kec xs = MerkleRoot kec ys"
  shows "xs = ys"
proof (cases "xs = []")
  case False
  then have ne: "xs \<noteq> []" "ys \<noteq> []" using assms(2) by auto
  have "merkle_loop kec xs ! 0 = merkle_loop kec ys ! 0"
    using assms(3) ne by (simp add: MerkleRoot_def)
  then have "merkle_loop kec xs = merkle_loop kec ys"
    using length_merkle_loop [OF ne(1)] length_merkle_loop [OF ne(2)] by (intro nth_equalityI) auto
  then show ?thesis using merkle_loop_inj assms by blast
qed (use assms(2) in simp)

theorem MerkleRoot_binding_witness:
  "MerkleRoot (\<lambda>b. if b = word_bytes (1 :: hash) @ word_bytes (2 :: hash) then 7 else 8) [1, 2]
   \<noteq> MerkleRoot (\<lambda>b. if b = word_bytes (1 :: hash) @ word_bytes (2 :: hash) then 7 else 8) [1, 3]"
proof -
  let ?k = "\<lambda>b. if b = word_bytes (1 :: hash) @ word_bytes (2 :: hash) then 7 else (8 :: hash)"
  have "merkle_inputs ?k [a, b] = [word_bytes a @ word_bytes b]" for a b
    by (simp add: merkle_inputs.simps)
  then have "inj_on ?k (set (merkle_inputs ?k [1, 2]) \<union> set (merkle_inputs ?k [1, 3]))"
    by (simp add: inj_on_def)
  then show ?thesis using MerkleRoot_binding [of ?k "[1, 2]" "[1, 3]"] by auto
qed

text \<open>
  without the length the root does not bind the leaves. Repeating the last leaf of an odd list of
  three or more leaves changes the list and not its root, whatever the hash.
\<close>

theorem MerkleRoot_duplicate_last:
  assumes "odd (length leaves)" "1 < length leaves"
  shows "MerkleRoot kec (leaves @ [last leaves]) = MerkleRoot kec leaves"
proof -
  have "merkle_loop kec (leaves @ [last leaves]) = merkle_loop kec leaves"
    using merkle_loop_unfold(1) [of "leaves @ [last leaves]" kec] merkle_loop_unfold(1) [of leaves kec]
      assms by (cases "leaves = []") (simp_all add: merkle_level_odd)
  then show ?thesis using assms by (auto simp: MerkleRoot_def)
qed

theorem MerkleRoot_duplicate_last_witness:
  "MerkleRoot bytes_word [1, 2, 3, 3] = MerkleRoot bytes_word [1, 2, 3]"
  using MerkleRoot_duplicate_last [of "[1, 2, 3]" bytes_word] by simp

text \<open>
  a bloom filter built from a log contains a hash exactly when the three bit positions of the
  hash are among those of the log's address and topics. So it never misses the address or a topic.
\<close>

theorem BloomFromLogs_contains:
  "BloomContains (BloomFromLogs kec addr topics) h \<longleftrightarrow>
     bloom_positions h \<subseteq>
       (\<Union>w\<in>insert (word_bytes addr) (word_bytes ` set topics). bloom_positions (Keccak256 kec [w]))"
  by (simp add: BloomContains_set BloomFromLogs_def bloom_set_foldl bloom_set_BloomAdd)

text \<open>
  a signature made by \<open>Sign\<close> has a low s and recovers to the signer. Where the recovery of the
  compact signature gives the public key \<open>pub\<close>, recovering from the reordered signature gives the
  address of \<open>pub\<close> for recovery ids 0 and 1, and is refused for recovery ids 2 and 3, which \<open>Sign\<close>
  lets through.
\<close>

theorem Sign_RecoverAddress:
  assumes "Sign SignCompact digest k = Inr sig"
    "RecoverCompact (SignCompact digest k) digest = Some pub"
    "27 \<le> SignCompact digest k ! 0"
  shows "IsLowS sig \<and> RecoverAddress kec RecoverCompact digest sig =
    (if SignCompact digest k ! 0 \<le> 28 then PubKeyToAddress kec pub else Inl (ErrOther ''v''))"
proof -
  obtain h rs where c: "SignCompact digest k = h # rs" "length rs = 64"
    and sig: "word_bytes sig = rs @ [if h \<ge> 27 then h - 27 else h]"
      "be_val (drop 32 rs) \<le> secp256k1HalfN"
    by (rule Sign_Inr [OF assms(1)])
  have h: "27 \<le> h" using assms(3) c by simp
  then have u: "unat (h - 27) = unat h - 27" "27 \<le> unat h" by (simp_all add: unat_sub word_le_nat_alt)
  have low: "IsLowS sig" using sig c(2) by (simp add: IsLowS_def)
  have v: "word_bytes sig ! 64 = h - 27" using sig(1) c(2) h by (simp add: nth_append)
  have "take 32 rs @ take 32 (drop 32 rs) = rs"
    by (metis append_take_drop_id c(2) length_drop take_all le_refl diff_add_inverse numeral_Bit0)
  then have "(h - 27 + 27) # take 32 (word_bytes sig) @ take 32 (drop 32 (word_bytes sig)) = h # rs"
    using sig(1) c(2) by simp
  moreover have "h \<le> 28 \<longleftrightarrow> \<not> h - 27 > 1"
    using u by (auto simp: word_less_nat_alt word_le_nat_alt)
  ultimately show ?thesis using low assms(2)
    by (simp add: RecoverAddress_def RecoverPubKey_def Let_def v c(1))
qed

theorem Sign_RecoverAddress_witness:
  "RecoverAddress (\<lambda>b. 0) (\<lambda>c d. Some (4 # replicate 64 0)) 9
     (bytes_word (replicate 65 0)) = Inr 0"
proof -
  let ?S = "\<lambda>(d :: hash) (k :: nat). (27 :: byte) # replicate 64 0"
  have "take 32 (replicate 64 (0 :: byte)) @ take 32 (drop 32 (replicate 64 0)) @ [0] = replicate 65 0"
    by (simp add: replicate_append_same flip: replicate_add replicate_Suc)
  moreover have "be_val (replicate n 0) = 0" for n by (induction n) (simp_all add: be_val_Cons)
  ultimately have "Sign ?S 9 0 = Inr (bytes_word (replicate 65 0))" by (simp add: Sign_def)
  then show ?thesis
    using Sign_RecoverAddress [of ?S 9 0 "bytes_word (replicate 65 0)" "\<lambda>c d. Some (4 # replicate 64 0)"
        "4 # replicate 64 0" "\<lambda>b. 0"]
    by (simp add: PubKeyToAddress_def Keccak256_def word_bytes_zero)
qed

end
