(* ===== verification/Validators.thy ===== *)
theory Validators
  imports Crypto "HOL-Library.Multiset"
begin

text \<open>
  Consensus messages, the validator set and the vote sets: \<open>consensus/message.go\<close> and the first
  part of \<open>consensus/state.go\<close>. Keccak is the parameter \<open>kec\<close>; the signer and the BLS signer
  are interfaces of the package that other code implements, so they are parameters as well.
\<close>

section \<open>Messages\<close>

definition Prevote :: byte where "Prevote = 0"
definition Precommit :: byte where "Precommit = 1"

lemma vote_types [simp]: "Prevote \<noteq> Precommit" "Precommit \<noteq> Prevote"
  by (simp_all add: Prevote_def Precommit_def)

datatype step = StepNewHeight | StepPropose | StepPrevote | StepPrecommit | StepCommit

record proposal =
  pr_POLRound :: round
  pr_Block :: bytes
  pr_BlockHash :: hash
  pr_Signature :: signature

record vote =
  vt_Type :: byte
  vt_BlockHash :: hash
  vt_Signature :: signature

record qc_signature =
  qs_Validator :: address
  qs_Sig :: signature

record qc =
  qc_Type :: byte
  qc_Height :: height
  qc_Round :: round
  qc_BlockHash :: hash
  qc_Signatures :: "qc_signature list"
  qc_AggSig :: bytes
  qc_AggBitmap :: bytes

text \<open>The sealed interface \<open>isMessage\<close>; an interface value may also be nil.\<close>

datatype body = BProposal proposal | BVote vote | BQC qc | BNil

record message =
  m_Height :: height
  m_Round :: round
  m_From :: address
  m_Body :: body

definition message_Hash :: "keccak \<Rightarrow> message \<Rightarrow> hash" where
  "message_Hash kec m =
     (let buf = Uint64BE (m_Height m) @ Uint32BE (m_Round m) @ word_bytes (m_From m);
          rest = (case m_Body m of
              BProposal b \<Rightarrow> [0x01] @ Uint32BE (pr_POLRound b) @ word_bytes (pr_BlockHash b)
            | BVote b \<Rightarrow> [0x02, vt_Type b] @ word_bytes (vt_BlockHash b)
            | BQC b \<Rightarrow> [0x03, qc_Type b] @ Uint64BE (qc_Height b) @ Uint32BE (qc_Round b) @
                word_bytes (qc_BlockHash b)
            | BNil \<Rightarrow> [0xff])
      in Keccak256 kec [buf @ rest])"

section \<open>The validator set\<close>

record validator =
  v_Address :: address
  v_Power :: uint64

record validator_set =
  vals_list :: "validator list"
  vals_byAddr :: "(address, nat) fmap"
  vals_totalPower :: uint64

text \<open>The insertion sort: an element moves left past larger ones. The sorted prefix is kept
  reversed, so that its last element comes first.\<close>

fun move_left :: "validator \<Rightarrow> validator list \<Rightarrow> validator list" where
  "move_left x [] = [x]"
| "move_left x (y # ys) =
     (if address_compare (v_Address x) (v_Address y) < 0 then y # move_left x ys else x # y # ys)"

definition NewValidatorSet :: "validator list \<Rightarrow> validator_set" where
  "NewValidatorSet vals =
     (let sorted = rev (foldl (\<lambda>acc x. move_left x acc) [] vals) in
      \<lparr>vals_list = sorted,
       vals_byAddr = foldl (\<lambda>m (i, v). fmupd (v_Address v) i m) fmempty (enumerate 0 sorted),
       vals_totalPower = foldl (\<lambda>t v. t + v_Power v) 0 sorted\<rparr>)"

definition Size :: "validator_set \<Rightarrow> nat" where
  "Size vs = length (vals_list vs)"

definition TotalPower :: "validator_set \<Rightarrow> uint64" where
  "TotalPower vs = vals_totalPower vs"

text \<open>\<open>None\<close> is the index -1.\<close>

definition vals_Get :: "validator_set \<Rightarrow> address \<Rightarrow> nat option" where
  "vals_Get vs addr = fmlookup (vals_byAddr vs) addr"

definition vals_At :: "validator_set \<Rightarrow> nat \<Rightarrow> validator option" where
  "vals_At vs i = (if i < length (vals_list vs) then Some (vals_list vs ! i) else None)"

definition ProposerOf :: "validator_set \<Rightarrow> height \<Rightarrow> round \<Rightarrow> address" where
  "ProposerOf vs h r =
     (if length (vals_list vs) = 0 then 0
      else let idx = (h + ucast r) mod word_of_nat (length (vals_list vs))
           in v_Address (vals_list vs ! unat idx))"

definition Quorum :: "validator_set \<Rightarrow> uint64" where
  "Quorum vs = vals_totalPower vs div 3 * 2 + 1"

definition HasQuorum :: "validator_set \<Rightarrow> uint64 \<Rightarrow> bool" where
  "HasQuorum vs pw \<longleftrightarrow> pw \<ge> Quorum vs"

section \<open>Vote sets\<close>

record vote_set =
  vs_typ :: byte
  vs_round :: round
  vs_votes :: "(address, vote) fmap"
  vs_power :: uint64
  vs_byBlock :: "(hash, uint64) fmap"
  vs_maxBlock :: hash
  vs_maxPower :: uint64
  vs_nilPower :: uint64

definition newVoteSet :: "byte \<Rightarrow> round \<Rightarrow> vote_set" where
  "newVoteSet typ r = \<lparr>vs_typ = typ, vs_round = r, vs_votes = fmempty, vs_power = 0,
     vs_byBlock = fmempty, vs_maxBlock = 0, vs_maxPower = 0, vs_nilPower = 0\<rparr>"

definition block_power :: "vote_set \<Rightarrow> hash \<Rightarrow> uint64" where
  "block_power vs h = (case fmlookup (vs_byBlock vs) h of None \<Rightarrow> 0 | Some p \<Rightarrow> p)"

text \<open>The updated set and whether the vote's block (or nil) has the quorum now.\<close>

definition vs_add :: "vote_set \<Rightarrow> vote \<Rightarrow> address \<Rightarrow> uint64 \<Rightarrow> uint64 \<Rightarrow> (vote_set \<times> bool) res" where
  "vs_add vs v addr pw quorum =
     (if fmlookup (vs_votes vs) addr \<noteq> None then Inl ErrInvalidMessage
      else
        let vs = vs\<lparr>vs_votes := fmupd addr v (vs_votes vs), vs_power := vs_power vs + pw\<rparr>;
            h = vt_BlockHash v
        in if h = 0 then
             let vs = vs\<lparr>vs_nilPower := vs_nilPower vs + pw\<rparr> in Inr (vs, vs_nilPower vs \<ge> quorum)
           else
             let vs = vs\<lparr>vs_byBlock := fmupd h (block_power vs h + pw) (vs_byBlock vs)\<rparr>;
                 vs = (if block_power vs h > vs_maxPower vs
                       then vs\<lparr>vs_maxPower := block_power vs h, vs_maxBlock := h\<rparr> else vs)
             in Inr (vs, block_power vs h \<ge> quorum))"

definition QCOf :: "vote_set \<Rightarrow> height \<Rightarrow> qc option" where
  "QCOf vs h =
     (if vs_maxPower vs = 0 then None
      else
        let addrs = sorted_keys (vs_votes vs);
            voting = filter (\<lambda>a. vt_BlockHash (the (fmlookup (vs_votes vs) a)) = vs_maxBlock vs) addrs;
            sigs = map (\<lambda>a. \<lparr>qs_Validator = a, qs_Sig = vt_Signature (the (fmlookup (vs_votes vs) a))\<rparr>) voting
        in Some \<lparr>qc_Type = vs_typ vs, qc_Height = h, qc_Round = vs_round vs,
             qc_BlockHash = vs_maxBlock vs, qc_Signatures = sigs, qc_AggSig = [], qc_AggBitmap = []\<rparr>)"

section \<open>Digests\<close>

definition str :: "string \<Rightarrow> bytes" where
  "str s = map (\<lambda>c. word_of_nat (of_char c)) s"

definition proposalDigest :: "keccak \<Rightarrow> height \<Rightarrow> round \<Rightarrow> proposal \<Rightarrow> hash" where
  "proposalDigest kec h r p =
     Keccak256 kec [str ''chfault-proposal'' @ Uint64BE h @ Uint32BE r @
       Uint32BE (pr_POLRound p) @ word_bytes (pr_BlockHash p)]"

definition VoteDigest :: "keccak \<Rightarrow> height \<Rightarrow> round \<Rightarrow> vote \<Rightarrow> hash" where
  "VoteDigest kec h r v =
     Keccak256 kec [str ''chfault-vote'' @ [vt_Type v] @ Uint64BE h @ Uint32BE r @
       word_bytes (vt_BlockHash v)]"

section \<open>Configuration\<close>

record bls_signer =
  bls_PubKeysByAddrs :: "address list \<Rightarrow> bytes list option"
  bls_FastVerify :: "bytes list \<Rightarrow> bytes \<Rightarrow> bytes \<Rightarrow> bool"

record consensus_config =
  cfg_Self :: address
  cfg_Validators :: validator_set
  cfg_Sign :: "hash \<Rightarrow> signature option"
  cfg_Verify :: "hash \<Rightarrow> signature \<Rightarrow> address \<Rightarrow> bool"
  cfg_ValidateBlock :: "(bytes \<Rightarrow> height \<Rightarrow> hash \<Rightarrow> bool) option"
  cfg_BLSSigner :: "bls_signer option"
  cfg_hasSink :: bool
  cfg_keccak :: keccak

section \<open>Verifying a quorum certificate\<close>

fun sorted_signers :: "qc_signature list \<Rightarrow> bool" where
  "sorted_signers (a # b # rest) =
     (if address_compare (qs_Validator b) (qs_Validator a) < 0 then False else sorted_signers (b # rest))"
| "sorted_signers _ = True"

definition bitmap_bit :: "bytes \<Rightarrow> nat \<Rightarrow> bool" where
  "bitmap_bit bm i \<longleftrightarrow> bm ! (i div 8) AND push_bit (i mod 8) 1 \<noteq> 0"

definition verifyQCBLS :: "consensus_config \<Rightarrow> bls_signer \<Rightarrow> qc \<Rightarrow> bool" where
  "verifyQCBLS cfg bls qc =
     (let size = Size (cfg_Validators cfg) in
      if length (qc_AggBitmap qc) \<noteq> (size + 7) div 8 then False
      else if \<exists>i\<in>set [size..<length (qc_AggBitmap qc) * 8]. bitmap_bit (qc_AggBitmap qc) i then False
      else
        let addrs = map (\<lambda>i. v_Address (vals_list (cfg_Validators cfg) ! i))
                      (filter (bitmap_bit (qc_AggBitmap qc)) [0..<size])
        in if length addrs \<noteq> length (qc_Signatures qc) then False
           else if \<exists>a\<in>set addrs. a \<notin> qs_Validator ` set (qc_Signatures qc) then False
           else case bls_PubKeysByAddrs bls addrs of
               None \<Rightarrow> False
             | Some pks \<Rightarrow>
                 let v = \<lparr>vt_Type = qc_Type qc, vt_BlockHash = qc_BlockHash qc, vt_Signature = 0\<rparr>;
                     digest = VoteDigest (cfg_keccak cfg) (qc_Height qc) (qc_Round qc) v
                 in bls_FastVerify bls pks (word_bytes digest) (qc_AggSig qc))"

definition VerifyQC :: "consensus_config \<Rightarrow> qc \<Rightarrow> bool" where
  "VerifyQC cfg qc =
     (if word_of_nat (length (qc_Signatures qc)) < Quorum (cfg_Validators cfg) then False
      else if qc_AggSig qc \<noteq> [] \<and> qc_AggBitmap qc \<noteq> [] \<and> cfg_BLSSigner cfg \<noteq> None
      then verifyQCBLS cfg (the (cfg_BLSSigner cfg)) qc
      else if \<not> sorted_signers (qc_Signatures qc) then False
      else
        let v = \<lparr>vt_Type = qc_Type qc, vt_BlockHash = qc_BlockHash qc, vt_Signature = 0\<rparr>;
            digest = VoteDigest (cfg_keccak cfg) (qc_Height qc) (qc_Round qc) v
        in list_all (\<lambda>s. vals_Get (cfg_Validators cfg) (qs_Validator s) \<noteq> None \<and>
             cfg_Verify cfg digest (qs_Sig s) (qs_Validator s)) (qc_Signatures qc))"

text \<open>\<open>BuildAggSig\<close> always fails; the error depends on what is missing.\<close>

definition BuildAggSig :: "consensus_config \<Rightarrow> qc \<Rightarrow> err" where
  "BuildAggSig cfg qc =
     (if cfg_BLSSigner cfg = None then ErrOther ''no BLS signer''
      else if \<exists>s\<in>set (qc_Signatures qc). vals_Get (cfg_Validators cfg) (qs_Validator s) = None
      then ErrInvalidMessage
      else ErrOther ''BLS vote signatures missing'')"

section \<open>The sorted validator set\<close>

lemma mset_move_left [simp]: "mset (move_left x ys) = add_mset x (mset ys)"
  by (induction ys) auto

lemma set_move_left [simp]: "set (move_left x ys) = insert x (set ys)"
  by (induction ys) auto

lemma move_left_sorted:
  "sorted_wrt (\<lambda>a b. v_Address b \<le> v_Address a) ys \<Longrightarrow>
   sorted_wrt (\<lambda>a b. v_Address b \<le> v_Address a) (move_left x ys)"
  by (induction ys) (auto simp: address_compare_word split: if_splits)

lemma sort_loop:
  "sorted_wrt (\<lambda>a b. v_Address b \<le> v_Address a) acc \<Longrightarrow>
   sorted_wrt (\<lambda>a b. v_Address b \<le> v_Address a) (foldl (\<lambda>acc x. move_left x acc) acc vals) \<and>
   mset (foldl (\<lambda>acc x. move_left x acc) acc vals) = mset acc + mset vals"
  by (induction vals arbitrary: acc) (auto simp: move_left_sorted)

lemma vals_list_sorted:
  "mset (vals_list (NewValidatorSet vals)) = mset vals"
  "sorted (map v_Address (vals_list (NewValidatorSet vals)))"
  using sort_loop [of "[]" vals]
  by (simp_all add: NewValidatorSet_def Let_def sorted_map sorted_wrt_rev)

lemma enumerate_index:
  "distinct (map v_Address vs) \<Longrightarrow>
   fmlookup (foldl (\<lambda>m (i, v). fmupd (v_Address v) i m) m (enumerate k vs)) a = Some j \<longleftrightarrow>
     (\<exists>i<length vs. v_Address (vs ! i) = a \<and> j = k + i) \<or>
     (a \<notin> v_Address ` set vs \<and> fmlookup m a = Some j)"
proof (induction vs arbitrary: m k)
  case (Cons v vs)
  have "fmlookup (foldl (\<lambda>m (i, v). fmupd (v_Address v) i m) m (enumerate k (v # vs))) a = Some j \<longleftrightarrow>
      (\<exists>i<length vs. v_Address (vs ! i) = a \<and> j = Suc k + i) \<or>
      (a \<notin> v_Address ` set vs \<and> fmlookup (fmupd (v_Address v) k m) a = Some j)"
    using Cons.IH [of "fmupd (v_Address v) k m" "Suc k"] Cons.prems by simp
  moreover have "v_Address v \<notin> v_Address ` set vs" using Cons.prems by simp
  ultimately show ?case
    unfolding length_Cons Ex_less_Suc2 by (auto split: if_splits)
qed simp

text \<open>A set built from validators with distinct addresses, whose total power fits in 64 bits.\<close>

definition valset_ok :: "validator_set \<Rightarrow> bool" where
  "valset_ok V \<longleftrightarrow> distinct (map v_Address (vals_list V)) \<and> vals_list V \<noteq> [] \<and>
     (\<forall>a i. vals_Get V a = Some i \<longleftrightarrow> i < length (vals_list V) \<and> v_Address (vals_list V ! i) = a) \<and>
     (\<Sum>v\<leftarrow>vals_list V. unat (v_Power v)) < 2 ^ 64 \<and>
     unat (vals_totalPower V) = (\<Sum>v\<leftarrow>vals_list V. unat (v_Power v))"

lemma valset_Get:
  "valset_ok V \<Longrightarrow> vals_Get V a = Some i \<longleftrightarrow> i < length (vals_list V) \<and> v_Address (vals_list V ! i) = a"
  by (simp add: valset_ok_def)

lemma valset_Get_None: "valset_ok V \<Longrightarrow> vals_Get V a = None \<longleftrightarrow> a \<notin> v_Address ` set (vals_list V)"
proof -
  assume ok: "valset_ok V"
  have "vals_Get V a \<noteq> None \<longleftrightarrow> (\<exists>i. vals_Get V a = Some i)" by auto
  also have "\<dots> \<longleftrightarrow> a \<in> v_Address ` set (vals_list V)"
    unfolding valset_Get [OF ok] by (auto simp: in_set_conv_nth image_iff) (metis nth_mem)
  finally show ?thesis by blast
qed

lemma foldl_power:
  "unat t + (\<Sum>v\<leftarrow>vs. unat (v_Power v)) < 2 ^ 64 \<Longrightarrow>
   unat (foldl (\<lambda>t v. t + v_Power v) t vs) = unat t + (\<Sum>v\<leftarrow>vs. unat (v_Power v))"
proof (induction vs arbitrary: t)
  case (Cons v vs)
  then have "unat (t + v_Power v) = unat t + unat (v_Power v)"
    by (intro unat_add_lem [THEN iffD1]) simp
  then show ?case using Cons.IH [of "t + v_Power v"] Cons.prems by simp
qed simp

lemma NewValidatorSet_ok:
  assumes "distinct (map v_Address vals)" "vals \<noteq> []" "(\<Sum>v\<leftarrow>vals. unat (v_Power v)) < 2 ^ 64"
  shows "valset_ok (NewValidatorSet vals)"
proof -
  let ?V = "NewValidatorSet vals" and ?l = "vals_list (NewValidatorSet vals)"
  have m: "mset ?l = mset vals" by (rule vals_list_sorted)
  have "mset (map v_Address ?l) = mset (map v_Address vals)" by (simp only: m mset_map)
  from mset_eq_imp_distinct_iff [OF this] have d: "distinct (map v_Address ?l)" using assms(1) by blast
  have sum: "(\<Sum>v\<leftarrow>?l. unat (v_Power v)) = (\<Sum>v\<leftarrow>vals. unat (v_Power v))"
    by (simp only: m mset_map flip: sum_mset_sum_list)
  have "?l \<noteq> []" using m assms(2) by auto
  moreover have "vals_Get ?V a = Some i \<longleftrightarrow> i < length ?l \<and> v_Address (?l ! i) = a" for a i
  proof -
    have "vals_Get ?V a = Some i \<longleftrightarrow>
        fmlookup (foldl (\<lambda>m (i, v). fmupd (v_Address v) i m) fmempty (enumerate 0 ?l)) a = Some i"
      by (simp add: vals_Get_def NewValidatorSet_def Let_def)
    then show ?thesis using enumerate_index [OF d, of fmempty 0 a i] by auto
  qed
  moreover have "vals_totalPower ?V = foldl (\<lambda>t v. t + v_Power v) 0 ?l"
    by (simp add: NewValidatorSet_def Let_def)
  ultimately show ?thesis using d sum assms(3) foldl_power [of 0 ?l] by (simp add: valset_ok_def)
qed

section \<open>Power of a group of validators\<close>

definition power_of :: "validator_set \<Rightarrow> address set \<Rightarrow> nat" where
  "power_of V A = (\<Sum>v\<leftarrow>vals_list V. if v_Address v \<in> A then unat (v_Power v) else 0)"

lemma power_of_simps [simp]: "power_of V {} = 0"
  by (simp add: power_of_def)

lemma power_of_Un_Int: "power_of V A + power_of V B = power_of V (A \<union> B) + power_of V (A \<inter> B)"
proof -
  have "(\<Sum>v\<leftarrow>vs. if v_Address v \<in> A then unat (v_Power v) else 0) +
      (\<Sum>v\<leftarrow>vs. if v_Address v \<in> B then unat (v_Power v) else 0) =
      (\<Sum>v\<leftarrow>vs. if v_Address v \<in> A \<union> B then unat (v_Power v) else 0) +
      (\<Sum>v\<leftarrow>vs. if v_Address v \<in> A \<inter> B then unat (v_Power v) else 0)" for vs
    by (induction vs) auto
  then show ?thesis unfolding power_of_def .
qed

lemma power_of_mono: "A \<subseteq> B \<Longrightarrow> power_of V A \<le> power_of V B"
  unfolding power_of_def by (intro sum_list_mono) auto

lemma power_of_total: "valset_ok V \<Longrightarrow> power_of V A \<le> unat (vals_totalPower V)"
  unfolding power_of_def valset_ok_def by (elim conjE) (simp add: sum_list_mono)

lemma power_of_insert:
  assumes "valset_ok V" "vals_Get V a = Some i" "a \<notin> A"
  shows "power_of V (insert a A) = unat (v_Power (vals_list V ! i)) + power_of V A"
proof -
  have i: "i < length (vals_list V)" "v_Address (vals_list V ! i) = a"
    using assms valset_Get by blast+
  have single: "distinct (map v_Address vs) \<Longrightarrow> i < length vs \<Longrightarrow>
      (\<Sum>v\<leftarrow>vs. if v_Address v \<in> {v_Address (vs ! i)} then unat (v_Power v) else 0) = unat (v_Power (vs ! i))" for vs i
  proof (induction vs arbitrary: i)
    case (Cons v vs)
    show ?case
    proof (cases i)
      case 0
      have "v_Address w \<noteq> v_Address v" if "w \<in> set vs" for w
        using Cons.prems(1) that by (metis distinct.simps(2) imageI list.simps(9) set_map)
      then have "map (\<lambda>w. if v_Address w = v_Address v then unat (v_Power w) else 0) vs = map (\<lambda>w. 0) vs"
        by simp
      then have "(\<Sum>w\<leftarrow>vs. if v_Address w = v_Address v then unat (v_Power w) else 0) = (\<Sum>w\<leftarrow>vs. 0)"
        by (simp only:)
      then show ?thesis using 0 by simp
    next
      case (Suc j)
      then have "v_Address v \<noteq> v_Address (vs ! j)" using Cons.prems by auto
      then show ?thesis using Cons Suc by simp
    qed
  qed simp
  have "power_of V {a} = unat (v_Power (vals_list V ! i))"
    using single [of "vals_list V" i] assms(1) i by (simp add: power_of_def valset_ok_def)
  then show ?thesis using power_of_Un_Int [of V "{a}" A] assms(3) by simp
qed

section \<open>A vote set counts every validator once\<close>

definition voters :: "vote_set \<Rightarrow> hash \<Rightarrow> address set" where
  "voters vs h = {a. \<exists>v. fmlookup (vs_votes vs) a = Some v \<and> vt_BlockHash v = h}"

definition vote_set_ok :: "validator_set \<Rightarrow> vote_set \<Rightarrow> bool" where
  "vote_set_ok V vs \<longleftrightarrow>
     (\<forall>a\<in>fmdom' (vs_votes vs). vals_Get V a \<noteq> None) \<and>
     (\<forall>h. h \<noteq> 0 \<longrightarrow> unat (block_power vs h) = power_of V (voters vs h)) \<and>
     unat (vs_nilPower vs) = power_of V (voters vs 0) \<and>
     unat (vs_power vs) = power_of V (fmdom' (vs_votes vs)) \<and>
     (\<forall>h. h \<noteq> 0 \<longrightarrow> block_power vs h \<le> vs_maxPower vs) \<and>
     (vs_maxPower vs \<noteq> 0 \<longrightarrow> vs_maxBlock vs \<noteq> 0 \<and> block_power vs (vs_maxBlock vs) = vs_maxPower vs)"

lemma newVoteSet_ok: "vote_set_ok V (newVoteSet typ r)"
  by (simp add: vote_set_ok_def newVoteSet_def block_power_def voters_def)

lemma power_add:
  assumes "valset_ok V" "vals_Get V a = Some i" "a \<notin> A" "unat p = power_of V A"
  shows "unat (p + v_Power (vals_list V ! i)) = power_of V (insert a A)"
proof -
  have "power_of V (insert a A) < 2 ^ 64"
    using power_of_total [OF assms(1), of "insert a A"] unat_less_pow [of "vals_totalPower V"] by simp
  then have "unat p + unat (v_Power (vals_list V ! i)) < 2 ^ 64"
    using power_of_insert [OF assms(1-3)] assms(4) by simp
  then have "unat (p + v_Power (vals_list V ! i)) = unat p + unat (v_Power (vals_list V ! i))"
    by (intro unat_add_lem [THEN iffD1]) simp
  then show ?thesis using power_of_insert [OF assms(1-3)] assms(4) by simp
qed

text \<open>The effect of \<open>add\<close> on the recorded votes and on the tallies.\<close>

lemma vs_add_Inr:
  assumes "vs_add vs v a pw q = Inr (vs', b)"
  shows "fmlookup (vs_votes vs) a = None" "vs_votes vs' = fmupd a v (vs_votes vs)"
    "vs_typ vs' = vs_typ vs" "vs_round vs' = vs_round vs" "vs_power vs' = vs_power vs + pw"
    "vs_nilPower vs' = (if vt_BlockHash v = 0 then vs_nilPower vs + pw else vs_nilPower vs)"
    "block_power vs' h = (if h = vt_BlockHash v \<and> h \<noteq> 0 then block_power vs h + pw else block_power vs h)"
    "vs_maxPower vs' = (if vt_BlockHash v \<noteq> 0 \<and> vs_maxPower vs < block_power vs (vt_BlockHash v) + pw
       then block_power vs (vt_BlockHash v) + pw else vs_maxPower vs)"
    "vs_maxBlock vs' = (if vt_BlockHash v \<noteq> 0 \<and> vs_maxPower vs < block_power vs (vt_BlockHash v) + pw
       then vt_BlockHash v else vs_maxBlock vs)"
    "b \<longleftrightarrow> q \<le> (if vt_BlockHash v = 0 then vs_nilPower vs' else block_power vs' (vt_BlockHash v))"
  using assms unfolding vs_add_def Let_def block_power_def by (auto split: if_splits)

lemma voters_add:
  assumes "fmlookup (vs_votes vs) a = None" "vs_votes vs' = fmupd a v (vs_votes vs)"
  shows "voters vs' h = (if h = vt_BlockHash v then insert a (voters vs h) else voters vs h)"
    and "a \<notin> voters vs h"
  using assms by (auto simp: voters_def)

lemma vs_add_ok:
  assumes V: "valset_ok V" and vs: "vote_set_ok V vs" and i: "vals_Get V a = Some i"
    and add: "vs_add vs v a (v_Power (vals_list V ! i)) q = Inr (vs', b)"
  shows "vote_set_ok V vs'"
proof -
  note e = vs_add_Inr [OF add]
  note vo = voters_add [OF e(1,2)]
  let ?h = "vt_BlockHash v" and ?p = "v_Power (vals_list V ! i)"
  have block: "unat (block_power vs' h) = power_of V (voters vs' h)" if "h \<noteq> 0" for h
  proof (cases "h = ?h")
    case True
    then have "unat (block_power vs h + ?p) = power_of V (insert a (voters vs h))"
      using vs that by (intro power_add [OF V i vo(2)]) (simp add: vote_set_ok_def)
    then show ?thesis using True that by (simp add: e(7) vo(1))
  qed (use vs that in \<open>simp add: e(7) vo(1) vote_set_ok_def\<close>)
  have nil: "unat (vs_nilPower vs') = power_of V (voters vs' 0)"
  proof (cases "?h = 0")
    case True
    have "unat (vs_nilPower vs + ?p) = power_of V (insert a (voters vs 0))"
      using vs by (intro power_add [OF V i vo(2)]) (simp add: vote_set_ok_def)
    then show ?thesis using True by (simp add: e(6) vo(1))
  qed (use vs in \<open>simp add: e(6) vo(1) vote_set_ok_def\<close>)
  have total: "unat (vs_power vs') = power_of V (fmdom' (vs_votes vs'))"
  proof -
    have "a \<notin> fmdom' (vs_votes vs)" using e(1) by (simp add: fmdom'_notI)
    then have "unat (vs_power vs + ?p) = power_of V (insert a (fmdom' (vs_votes vs)))"
      using vs by (intro power_add [OF V i]) (simp_all add: vote_set_ok_def)
    then show ?thesis by (simp add: e(2,5))
  qed
  have max: "block_power vs' h \<le> vs_maxPower vs'" if "h \<noteq> 0" for h
  proof -
    have "block_power vs h \<le> vs_maxPower vs" using vs that by (simp add: vote_set_ok_def)
    then show ?thesis by (auto simp: e(7,8) not_less intro: order.trans)
  qed
  have "vs_maxPower vs' \<noteq> 0 \<longrightarrow> vs_maxBlock vs' \<noteq> 0 \<and> block_power vs' (vs_maxBlock vs') = vs_maxPower vs'"
  proof (cases "?h \<noteq> 0 \<and> vs_maxPower vs < block_power vs ?h + ?p")
    case True
    then show ?thesis by (simp add: e(7-9))
  next
    case False
    show ?thesis
    proof
      assume "vs_maxPower vs' \<noteq> 0"
      then have old: "vs_maxBlock vs \<noteq> 0" "block_power vs (vs_maxBlock vs) = vs_maxPower vs"
        using vs False by (simp_all add: e(8) vote_set_ok_def)
      have same: "block_power vs ?h + ?p = vs_maxPower vs" if h: "vs_maxBlock vs = ?h"
      proof -
        have nz: "?h \<noteq> 0" using old(1) h by simp
        have "unat (block_power vs ?h) \<le> unat (block_power vs' ?h)"
          using vs block [OF nz] nz power_of_mono [of "voters vs ?h" "voters vs' ?h" V] vo(1) [of ?h]
          by (auto simp: vote_set_ok_def)
        then have "block_power vs ?h \<le> block_power vs ?h + ?p"
          using nz by (simp add: e(7) word_le_nat_alt)
        then show ?thesis using False old(2) nz h by simp
      qed
      then show "vs_maxBlock vs' \<noteq> 0 \<and> block_power vs' (vs_maxBlock vs') = vs_maxPower vs'"
      proof (cases "vs_maxBlock vs = ?h")
        case True
        then have "block_power vs' (vs_maxBlock vs) = vs_maxPower vs"
          using same old(1) e(7) [of "vs_maxBlock vs"] by presburger
        then show ?thesis using False old(1) e(8,9) by presburger
      next
        case False2: False
        then have "block_power vs' (vs_maxBlock vs) = vs_maxPower vs"
          using old(2) e(7) [of "vs_maxBlock vs"] by presburger
        then show ?thesis using False old(1) e(8,9) by presburger
      qed
    qed
  qed
  then show ?thesis using vs i block nil total max by (auto simp: vote_set_ok_def e(2))
qed

text \<open>The certificate of a vote set lists the voters of its block.\<close>

lemma sorted_signers_iff: "sorted_signers ss \<longleftrightarrow> sorted (map qs_Validator ss)"
  by (induction ss rule: sorted_signers.induct) (auto simp: address_compare_word)

lemma QCOf_signers:
  assumes "QCOf vs h = Some c"
  shows "qc_Type c = vs_typ vs" "qc_Height c = h" "qc_Round c = vs_round vs" "qc_BlockHash c = vs_maxBlock vs"
    "qc_AggSig c = []" "vs_maxPower vs \<noteq> 0"
    "qs_Validator ` set (qc_Signatures c) = voters vs (vs_maxBlock vs)"
    "distinct (map qs_Validator (qc_Signatures c))" "sorted (map qs_Validator (qc_Signatures c))"
    "\<And>s. s \<in> set (qc_Signatures c) \<Longrightarrow> \<exists>v. fmlookup (vs_votes vs) (qs_Validator s) = Some v \<and>
       vt_BlockHash v = vs_maxBlock vs \<and> qs_Sig s = vt_Signature v"
proof -
  let ?voting = "filter (\<lambda>a. vt_BlockHash (the (fmlookup (vs_votes vs) a)) = vs_maxBlock vs) (sorted_keys (vs_votes vs))"
  have c: "vs_maxPower vs \<noteq> 0" "c = \<lparr>qc_Type = vs_typ vs, qc_Height = h, qc_Round = vs_round vs,
      qc_BlockHash = vs_maxBlock vs,
      qc_Signatures = map (\<lambda>a. \<lparr>qs_Validator = a, qs_Sig = vt_Signature (the (fmlookup (vs_votes vs) a))\<rparr>) ?voting,
      qc_AggSig = [], qc_AggBitmap = []\<rparr>"
    using assms by (simp_all add: QCOf_def Let_def split: if_splits)
  then show "qc_Type c = vs_typ vs" "qc_Height c = h" "qc_Round c = vs_round vs" "qc_BlockHash c = vs_maxBlock vs"
    "qc_AggSig c = []" "vs_maxPower vs \<noteq> 0" by simp_all
  have m: "map qs_Validator (qc_Signatures c) = ?voting" using c(2) by (simp add: o_def)
  then show "distinct (map qs_Validator (qc_Signatures c))" "sorted (map qs_Validator (qc_Signatures c))"
    by (simp_all add: sorted_wrt_filter)
  show "qs_Validator ` set (qc_Signatures c) = voters vs (vs_maxBlock vs)"
    using arg_cong [OF m, of set] by (auto simp: voters_def fmlookup_dom'_iff)
  show "\<exists>v. fmlookup (vs_votes vs) (qs_Validator s) = Some v \<and> vt_BlockHash v = vs_maxBlock vs \<and>
      qs_Sig s = vt_Signature v" if "s \<in> set (qc_Signatures c)" for s
    using that c(2) by (auto simp: fmlookup_dom'_iff)
qed

lemma Quorum_value: "unat (Quorum V) = 2 * (unat (TotalPower V) div 3) + 1"
proof -
  have "unat (vals_totalPower V) div 3 * 2 + 1 < 2 ^ 64"
    using unat_less_pow [of "vals_totalPower V"] by simp
  then show ?thesis
    unfolding Quorum_def TotalPower_def by (simp add: unat_word_ariths unat_div)
qed

lemma quorum_arith:
  "2 * T < 3 * (2 * (T div 3) + 1) \<longleftrightarrow> T mod 3 \<noteq> (2 :: nat)"
  "2 * (2 * (T div 3) + 1) \<le> T + p \<Longrightarrow> T mod 3 \<noteq> 2 \<Longrightarrow> T < 3 * (p :: nat)"
  by presburger+

section \<open>Properties\<close>

text \<open>
  the quorum is more than two thirds of the power, except when the total leaves remainder 2
  modulo 3. Then it is below two thirds, one vote of two for instance, so two disjoint quorums can
  exist although the comment promises at least two thirds.
\<close>

theorem Quorum_two_thirds:
  "unat (Quorum V) = 2 * (unat (TotalPower V) div 3) + 1
   \<and> (2 * unat (TotalPower V) < 3 * unat (Quorum V) \<longleftrightarrow> unat (TotalPower V) mod 3 \<noteq> 2)"
  by (simp only: Quorum_value quorum_arith simp_thms)

text \<open>
  two certificates for different blocks convict somebody. When two vote sets over the same
  validators, for instance those of two nodes, hold quorums for different blocks, the validators
  counted in both have at least the power by which two quorums exceed the total; unless the total
  leaves remainder 2 modulo 3, that is more than a third of the total.
\<close>

theorem quorums_intersect:
  assumes V: "valset_ok V" and vs: "vote_set_ok V vs" "vote_set_ok V vs'"
    and h: "h \<noteq> 0" "h' \<noteq> 0" "HasQuorum V (block_power vs h)" "HasQuorum V (block_power vs' h')"
  shows "2 * unat (Quorum V) \<le> unat (TotalPower V) + power_of V (voters vs h \<inter> voters vs' h')
    \<and> (unat (TotalPower V) mod 3 \<noteq> 2 \<longrightarrow> unat (TotalPower V) < 3 * power_of V (voters vs h \<inter> voters vs' h'))"
proof -
  have "unat (Quorum V) \<le> power_of V (voters vs h)" "unat (Quorum V) \<le> power_of V (voters vs' h')"
    using vs h by (simp_all add: vote_set_ok_def HasQuorum_def word_le_nat_alt)
  moreover have "power_of V (voters vs h \<union> voters vs' h') \<le> unat (TotalPower V)"
    using power_of_total [OF V] by (simp add: TotalPower_def)
  ultimately have le: "2 * unat (Quorum V) \<le> unat (TotalPower V) + power_of V (voters vs h \<inter> voters vs' h')"
    using power_of_Un_Int [of V "voters vs h" "voters vs' h'"] by linarith
  then show ?thesis using quorum_arith(2) unfolding Quorum_value by blast
qed

definition record_one :: "validator_set \<Rightarrow> address \<times> vote \<Rightarrow> vote_set \<Rightarrow> vote_set" where
  "record_one V av vs =
     (case vals_Get V (fst av) of
        None \<Rightarrow> vs
      | Some i \<Rightarrow> (case vs_add vs (snd av) (fst av) (v_Power (vals_list V ! i)) (Quorum V) of
            Inl _ \<Rightarrow> vs | Inr (vs', _) \<Rightarrow> vs'))"

lemma record_one_ok:
  assumes "valset_ok V" "vote_set_ok V vs"
  shows "vote_set_ok V (record_one V av vs)"
  using assms vs_add_ok by (auto simp: record_one_def split: option.splits sum.splits prod.splits)

lemma record_one_votes:
  assumes "vals_Get V (fst av) \<noteq> None"
  shows "fmlookup (vs_votes (record_one V av vs)) a =
    (case fmlookup (vs_votes vs) a of Some v \<Rightarrow> Some v | None \<Rightarrow> if a = fst av then Some (snd av) else None)"
proof -
  obtain i where i: "vals_Get V (fst av) = Some i" using assms by auto
  show ?thesis
  proof (cases "fmlookup (vs_votes vs) (fst av)")
    case None
    then obtain vs' b where add: "vs_add vs (snd av) (fst av) (v_Power (vals_list V ! i)) (Quorum V) = Inr (vs', b)"
      by (cases "vs_add vs (snd av) (fst av) (v_Power (vals_list V ! i)) (Quorum V)")
        (auto simp: vs_add_def Let_def split: if_splits)
    then show ?thesis using i None vs_add_Inr(2) [OF add] by (auto simp: record_one_def split: option.splits)
  next
    case (Some v)
    then have "record_one V av vs = vs" using i by (simp add: record_one_def vs_add_def)
    then show ?thesis using Some by (auto split: option.splits)
  qed
qed

lemma record_all:
  assumes "valset_ok V"
  shows "vote_set_ok V vs \<Longrightarrow> \<forall>av\<in>set xs. vals_Get V (fst av) \<noteq> None \<Longrightarrow>
    vote_set_ok V (fold (record_one V) xs vs) \<and>
    (\<forall>a. fmlookup (vs_votes (fold (record_one V) xs vs)) a =
      (case fmlookup (vs_votes vs) a of Some v \<Rightarrow> Some v | None \<Rightarrow> map_of xs a))"
proof (induction xs arbitrary: vs)
  case Nil
  then show ?case by (auto split: option.splits)
next
  case (Cons av xs)
  note votes = record_one_votes [of V av vs]
  have "vals_Get V (fst av) \<noteq> None" using Cons.prems(2) by simp
  then have "(case fmlookup (vs_votes (record_one V av vs)) a of Some v \<Rightarrow> Some v | None \<Rightarrow> map_of xs a) =
      (case fmlookup (vs_votes vs) a of Some v \<Rightarrow> Some v | None \<Rightarrow> map_of (av # xs) a)" for a
    using votes by (cases av) (auto split: option.splits)
  then show ?case
    using Cons.IH [OF record_one_ok [OF assms Cons.prems(1)], of av] Cons.prems(2) by simp
qed

text \<open>
  a vote set counts the first vote of every validator, once. After any sequence of votes by
  validators, the power recorded for a block is the summed power of those whose first vote
  names it, the nil power that of those whose first vote is nil; repeated votes change nothing.
\<close>

theorem vote_tally:
  assumes "valset_ok V" "\<forall>av\<in>set xs. vals_Get V (fst av) \<noteq> None" "h \<noteq> 0"
  shows "let vs = fold (record_one V) xs (newVoteSet typ r) in
      unat (block_power vs h) = power_of V {a. map_option vt_BlockHash (map_of xs a) = Some h} \<and>
      unat (vs_nilPower vs) = power_of V {a. map_option vt_BlockHash (map_of xs a) = Some 0}"
proof -
  let ?vs = "fold (record_one V) xs (newVoteSet typ r)"
  have r: "vote_set_ok V ?vs" "\<And>a. fmlookup (vs_votes ?vs) a = map_of xs a"
    using record_all [OF assms(1) newVoteSet_ok assms(2)] by (simp_all add: newVoteSet_def)
  have "voters ?vs k = {a. map_option vt_BlockHash (map_of xs a) = Some k}" for k
    by (auto simp: voters_def r(2))
  then show ?thesis using r(1) assms(3) by (simp add: vote_set_ok_def Let_def)
qed

text \<open>
  one signature makes a certificate. In the compatible mode \<open>VerifyQC\<close> accepts the same valid
  signature of one validator repeated as often as the quorum asks: it requires the signers in
  ascending order, but not different.
\<close>

theorem VerifyQC_duplicates:
  assumes "vals_Get (cfg_Validators cfg) a \<noteq> None"
    "cfg_Verify cfg (VoteDigest (cfg_keccak cfg) h r \<lparr>vt_Type = t, vt_BlockHash = b, vt_Signature = 0\<rparr>) sig a"
  shows "VerifyQC cfg \<lparr>qc_Type = t, qc_Height = h, qc_Round = r, qc_BlockHash = b,
    qc_Signatures = replicate (unat (Quorum (cfg_Validators cfg))) \<lparr>qs_Validator = a, qs_Sig = sig\<rparr>,
    qc_AggSig = [], qc_AggBitmap = []\<rparr>"
proof -
  have "sorted_signers (replicate n \<lparr>qs_Validator = a, qs_Sig = sig\<rparr>)" for n
    by (simp add: sorted_signers_iff)
  then show ?thesis using assms by (simp add: VerifyQC_def Let_def list_all_iff)
qed

text \<open>
  the aggregate mode counts signers properly. When the BLS check accepts a certificate, its
  signers are distinct validators, and they are exactly those whose bit is set in the bitmap.
\<close>

theorem verifyQCBLS_signers:
  assumes V: "valset_ok (cfg_Validators cfg)" and ok: "verifyQCBLS cfg bls c"
  shows "distinct (map qs_Validator (qc_Signatures c))
    \<and> qs_Validator ` set (qc_Signatures c) =
        {v_Address (vals_list (cfg_Validators cfg) ! i) |i. i < Size (cfg_Validators cfg) \<and> bitmap_bit (qc_AggBitmap c) i}"
proof -
  let ?V = "cfg_Validators cfg"
  define addrs where "addrs = map (\<lambda>i. v_Address (vals_list ?V ! i)) (filter (bitmap_bit (qc_AggBitmap c)) [0..<Size ?V])"
  have len: "length addrs = length (qc_Signatures c)"
    and sub: "set addrs \<subseteq> qs_Validator ` set (qc_Signatures c)"
    using ok by (auto simp: verifyQCBLS_def Let_def addrs_def split: if_splits)
  have "inj_on (\<lambda>i. v_Address (vals_list ?V ! i)) {0..<Size ?V}"
    using V nth_eq_iff_index_eq [of "map v_Address (vals_list ?V)"]
    by (auto simp: inj_on_def valset_ok_def Size_def)
  then have d: "distinct addrs"
    unfolding addrs_def distinct_map by (auto elim!: inj_on_subset)
  have "card (qs_Validator ` set (qc_Signatures c)) \<le> length (qc_Signatures c)"
    using card_length [of "map qs_Validator (qc_Signatures c)"] by simp
  also have "\<dots> = card (set addrs)" using len distinct_card [OF d] by simp
  finally have le: "card (qs_Validator ` set (qc_Signatures c)) \<le> card (set addrs)" .
  then have eq: "set addrs = qs_Validator ` set (qc_Signatures c)"
    by (intro card_seteq sub) simp_all
  then have "card (set (map qs_Validator (qc_Signatures c))) = length (map qs_Validator (qc_Signatures c))"
    using len distinct_card [OF d] by simp
  then have "distinct (map qs_Validator (qc_Signatures c))" by (rule card_distinct)
  moreover have "set addrs = {v_Address (vals_list ?V ! i) |i. i < Size ?V \<and> bitmap_bit (qc_AggBitmap c) i}"
    by (auto simp: addrs_def)
  ultimately show ?thesis using eq by simp
qed

lemma power_of_unit:
  assumes "valset_ok V" "\<forall>v\<in>set (vals_list V). v_Power v = 1" "A \<subseteq> v_Address ` set (vals_list V)"
  shows "power_of V A = card A"
proof -
  have "(\<Sum>v\<leftarrow>vs. if v_Address v \<in> A then unat (v_Power v) else 0) = length (filter (\<lambda>a. a \<in> A) (map v_Address vs))"
    if "\<forall>v\<in>set vs. v_Power v = 1" for vs
    using that by (induction vs) auto
  then have "power_of V A = length (filter (\<lambda>a. a \<in> A) (map v_Address (vals_list V)))"
    using assms(2) by (simp add: power_of_def)
  also have "\<dots> = card (set (filter (\<lambda>a. a \<in> A) (map v_Address (vals_list V))))"
    using assms(1) by (intro distinct_card [symmetric]) (simp add: valset_ok_def)
  also have "set (filter (\<lambda>a. a \<in> A) (map v_Address (vals_list V))) = A" using assms(3) by auto
  finally show ?thesis .
qed

text \<open>
  what a node builds others accept. When all powers are 1, the certificate \<open>QCOf\<close> makes of a
  vote set of verified votes whose leading block has the quorum passes \<open>VerifyQC\<close>. (The latter
  counts signatures, not power, so this needs the powers to be 1.)
\<close>

theorem QCOf_verifies:
  assumes V: "valset_ok (cfg_Validators cfg)" "\<forall>v\<in>set (vals_list (cfg_Validators cfg)). v_Power v = 1"
    and vs: "vote_set_ok (cfg_Validators cfg) vs" "HasQuorum (cfg_Validators cfg) (vs_maxPower vs)"
    and signed: "\<forall>a v. fmlookup (vs_votes vs) a = Some v \<longrightarrow> vt_Type v = vs_typ vs \<and>
      cfg_Verify cfg (VoteDigest (cfg_keccak cfg) h (vs_round vs) v) (vt_Signature v) a"
    and c: "QCOf vs h = Some c"
  shows "VerifyQC cfg c"
proof -
  let ?V = "cfg_Validators cfg" and ?b = "vs_maxBlock vs"
  note s = QCOf_signers [OF c]
  have b: "?b \<noteq> 0" "block_power vs ?b = vs_maxPower vs" using vs(1) s(6) by (simp_all add: vote_set_ok_def)
  have sub: "voters vs ?b \<subseteq> v_Address ` set (vals_list ?V)"
    using vs(1) valset_Get_None [OF V(1)] by (auto simp: voters_def vote_set_ok_def fmlookup_dom'_iff)
  have "length (qc_Signatures c) = card (voters vs ?b)"
    using distinct_card [OF s(8)] s(7) by simp
  also have "\<dots> = unat (vs_maxPower vs)"
  proof -
    have "unat (block_power vs ?b) = power_of ?V (voters vs ?b)"
      using vs(1) b(1) by (simp only: vote_set_ok_def simp_thms)
    then show ?thesis using power_of_unit [OF V sub] b(2) by simp
  qed
  finally have len: "length (qc_Signatures c) = unat (vs_maxPower vs)" .
  have "vals_Get ?V (qs_Validator q) \<noteq> None \<and> cfg_Verify cfg
      (VoteDigest (cfg_keccak cfg) (qc_Height c) (qc_Round c)
        \<lparr>vt_Type = qc_Type c, vt_BlockHash = qc_BlockHash c, vt_Signature = 0\<rparr>) (qs_Sig q) (qs_Validator q)"
    if q: "q \<in> set (qc_Signatures c)" for q
  proof -
    obtain v where v: "fmlookup (vs_votes vs) (qs_Validator q) = Some v" "vt_BlockHash v = ?b" "qs_Sig q = vt_Signature v"
      using s(10) [OF q] by blast
    then have "vals_Get ?V (qs_Validator q) \<noteq> None"
      using vs(1) by (auto simp: vote_set_ok_def fmlookup_dom'_iff)
    moreover have "VoteDigest (cfg_keccak cfg) (qc_Height c) (qc_Round c)
        \<lparr>vt_Type = qc_Type c, vt_BlockHash = qc_BlockHash c, vt_Signature = 0\<rparr> =
        VoteDigest (cfg_keccak cfg) h (vs_round vs) v"
      using signed v s by (simp add: VoteDigest_def)
    ultimately show ?thesis using signed v by simp
  qed
  then show ?thesis using vs(2) len s(5,9)
    by (simp add: VerifyQC_def HasQuorum_def sorted_signers_iff Let_def list_all_iff)
qed

section \<open>Witnesses\<close>

text \<open>Four validators with power 1; a signature of \<open>a\<close> is valid when it carries the number of \<open>a\<close>.\<close>

definition sample_set :: validator_set where
  "sample_set = NewValidatorSet (map (\<lambda>a. \<lparr>v_Address = a, v_Power = 1\<rparr>) [3, 1, 2, 4])"

definition sample_config :: consensus_config where
  "sample_config = \<lparr>cfg_Self = 1, cfg_Validators = sample_set, cfg_Sign = (\<lambda>_. Some 1),
     cfg_Verify = (\<lambda>_ sig a. unat sig = unat a), cfg_ValidateBlock = None,
     cfg_BLSSigner = Some \<lparr>bls_PubKeysByAddrs = (\<lambda>as. Some (map word_bytes as)), bls_FastVerify = (\<lambda>_ _ _. True)\<rparr>,
     cfg_hasSink = True, cfg_keccak = (\<lambda>_. 0)\<rparr>"

definition sample_votes :: "(address \<times> vote) list" where
  "sample_votes = map (\<lambda>a. (a, \<lparr>vt_Type = Prevote, vt_BlockHash = 7, vt_Signature = ucast a\<rparr>)) [1, 2, 3]"

lemma sample_set_ok: "valset_ok sample_set"
  unfolding sample_set_def by (rule NewValidatorSet_ok) simp_all

lemma sample_list: "vals_list sample_set = map (\<lambda>a. \<lparr>v_Address = a, v_Power = 1\<rparr>) [1, 2, 3, 4]"
  by (simp add: sample_set_def NewValidatorSet_def Let_def address_compare_word)

lemma sample_total: "vals_totalPower sample_set = 4"
  by (simp add: sample_set_def NewValidatorSet_def Let_def address_compare_word)

lemma sample_Get: "vals_Get sample_set a \<noteq> None \<longleftrightarrow> a \<in> {1, 2, 3, 4}"
  unfolding valset_Get_None [OF sample_set_ok] sample_list by simp

lemma sample_Quorum: "Quorum sample_set = 3"
  by (simp add: Quorum_def sample_total)

definition sample_vote_set :: vote_set where
  "sample_vote_set = fold (record_one sample_set) sample_votes (newVoteSet Prevote 0)"

lemma sample_vote_set: "vote_set_ok sample_set sample_vote_set"
  "fmlookup (vs_votes sample_vote_set) a = map_of sample_votes a"
proof -
  have "\<forall>av\<in>set sample_votes. vals_Get sample_set (fst av) \<noteq> None"
    unfolding sample_Get by (simp add: sample_votes_def)
  from record_all [OF sample_set_ok newVoteSet_ok this, of Prevote 0]
  show "vote_set_ok sample_set sample_vote_set" "fmlookup (vs_votes sample_vote_set) a = map_of sample_votes a"
    by (simp_all add: sample_vote_set_def newVoteSet_def)
qed

lemma sample_voters: "voters sample_vote_set 7 = {1, 2, 3}"
  by (auto simp: voters_def sample_vote_set(2) sample_votes_def split: if_splits)

lemma sample_block_power: "block_power sample_vote_set 7 = 3"
proof -
  have "unat (block_power sample_vote_set 7) = power_of sample_set {1, 2, 3}"
    using sample_vote_set(1) sample_voters unfolding vote_set_ok_def by simp
  also have "\<dots> = unat (3 :: uint64)" by (simp add: power_of_def sample_list)
  finally show ?thesis by (simp only: word_unat_eq_iff)
qed

theorem quorums_intersect_witness:
  "4 < 3 * power_of sample_set (voters sample_vote_set 7 \<inter> voters sample_vote_set 7)"
  using quorums_intersect [OF sample_set_ok sample_vote_set(1) sample_vote_set(1), of 7 7]
  by (simp add: HasQuorum_def sample_Quorum sample_block_power TotalPower_def sample_total)

theorem vote_tally_witness:
  "unat (block_power sample_vote_set 7) = power_of sample_set {1, 2, 3}"
proof -
  have "\<forall>av\<in>set sample_votes. vals_Get sample_set (fst av) \<noteq> None"
    unfolding sample_Get by (simp add: sample_votes_def)
  then have "unat (block_power sample_vote_set 7) =
      power_of sample_set {a. map_option vt_BlockHash (map_of sample_votes a) = Some 7}"
    using vote_tally [OF sample_set_ok, of sample_votes 7 Prevote 0] by (simp add: sample_vote_set_def Let_def)
  moreover have "{a. map_option vt_BlockHash (map_of sample_votes a) = Some 7} = {1, 2, 3}"
    by (auto simp: sample_votes_def split: if_splits)
  ultimately show ?thesis by simp
qed

theorem VerifyQC_duplicates_witness:
  "VerifyQC sample_config \<lparr>qc_Type = Precommit, qc_Height = 5, qc_Round = 0, qc_BlockHash = 7,
    qc_Signatures = replicate 3 \<lparr>qs_Validator = 2, qs_Sig = 2\<rparr>, qc_AggSig = [], qc_AggBitmap = []\<rparr>"
  using VerifyQC_duplicates [of sample_config 2 5 0 Precommit 7 2] sample_Get [of 2]
  by (simp add: sample_config_def sample_Quorum)

theorem verifyQCBLS_signers_witness:
  "distinct [2, 4 :: address] \<and> {2, 4} = {v_Address (vals_list sample_set ! i) |i. i < 4 \<and> bitmap_bit [0x0a] i}"
proof -
  let ?c = "\<lparr>qc_Type = Precommit, qc_Height = 5, qc_Round = 0, qc_BlockHash = 7,
    qc_Signatures = [\<lparr>qs_Validator = 2, qs_Sig = 0\<rparr>, \<lparr>qs_Validator = 4, qs_Sig = 0\<rparr>],
    qc_AggSig = [1], qc_AggBitmap = [0x0a]\<rparr>"
  have "verifyQCBLS sample_config (the (cfg_BLSSigner sample_config)) ?c"
    by (simp add: verifyQCBLS_def sample_config_def Size_def sample_list bitmap_bit_def upt_rec Let_def)
  from verifyQCBLS_signers [OF _ this] sample_set_ok
  show ?thesis by (simp add: sample_config_def sample_set_ok Size_def sample_list numeral_eq_Suc)
qed

lemma sample_Get_at: "vals_Get sample_set 1 = Some 0" "vals_Get sample_set 2 = Some 1" "vals_Get sample_set 3 = Some 2"
  by (simp_all add: valset_Get [OF sample_set_ok] sample_list)

lemma sample_maxPower: "vs_maxPower sample_vote_set = 3" "vs_maxBlock sample_vote_set = 7"
  "vs_typ sample_vote_set = Prevote" "vs_round sample_vote_set = 0"
  by (simp_all add: sample_vote_set_def sample_votes_def record_one_def sample_Get_at sample_list sample_Quorum
    vs_add_def newVoteSet_def block_power_def Let_def)

theorem QCOf_verifies_witness:
  "VerifyQC sample_config (the (QCOf sample_vote_set 5))"
proof -
  have c: "QCOf sample_vote_set 5 = Some (the (QCOf sample_vote_set 5))"
    by (simp add: QCOf_def sample_maxPower)
  show ?thesis
  proof (rule QCOf_verifies [OF _ _ _ _ _ c])
    show "valset_ok (cfg_Validators sample_config)" "vote_set_ok (cfg_Validators sample_config) sample_vote_set"
      by (simp_all add: sample_config_def sample_set_ok sample_vote_set)
    show "\<forall>v\<in>set (vals_list (cfg_Validators sample_config)). v_Power v = 1"
      by (simp add: sample_config_def sample_list)
    show "HasQuorum (cfg_Validators sample_config) (vs_maxPower sample_vote_set)"
      by (simp add: sample_config_def HasQuorum_def sample_Quorum sample_maxPower)
    show "\<forall>a v. fmlookup (vs_votes sample_vote_set) a = Some v \<longrightarrow> vt_Type v = vs_typ sample_vote_set \<and>
      cfg_Verify sample_config (VoteDigest (cfg_keccak sample_config) 5 (vs_round sample_vote_set) v) (vt_Signature v) a"
      unfolding sample_vote_set(2) by (auto simp: sample_votes_def sample_config_def sample_maxPower split: if_splits)
  qed
qed

end
