(* ===== verification/Machine.thy ===== *)
theory Machine
  imports Prelude
begin

text \<open>
  Sequences of public operations. A component guarded by one mutex is a machine whose step is a
  whole operation, run one after the other; the locale gives the invariant of every state such a
  sequence reaches, and of every state in between.
\<close>

locale machine =
  fixes step :: "'op \<Rightarrow> 's \<Rightarrow> 's"
    and init :: "'s \<Rightarrow> bool"
    and inv :: "'s \<Rightarrow> bool"
  assumes init_inv: "init s \<Longrightarrow> inv s"
    and step_inv: "inv s \<Longrightarrow> inv (step op s)"
begin

lemma run_inv: "inv s \<Longrightarrow> inv (fold step ops s)"
  by (induction ops arbitrary: s) (simp_all add: step_inv)

lemma reach_inv: "init s \<Longrightarrow> inv (fold step ops s)"
  by (rule run_inv [OF init_inv])

lemma prefix_inv: "init s \<Longrightarrow> inv (fold step (take n ops) s)"
  by (rule reach_inv)

end

end
