(* ===== verification/Consensus.thy ===== *)
theory Consensus
  imports Validators Machine
begin

text \<open>
  The consensus state machine: type \<open>State\<close> of \<open>consensus/state.go\<close>. One record holds its fields;
  two further fields log the calls of its outlets, \<open>cs_sent\<close> the broadcast messages and
  \<open>cs_committed\<close> the blocks given to the commit sink. Every public method holds the mutex for its
  whole length, so it is one step. A method gives the new state and its error; the only \<open>Inl\<close> is
  \<open>GoPanic\<close>, the dereference of a vote set that is still nil.
\<close>

section \<open>State\<close>

type_synonym proposal_maker = "height \<Rightarrow> uint64 \<Rightarrow> (bytes \<times> hash) option"

record cons_state =
  cs_height :: height
  cs_round :: round
  cs_step :: step
  cs_proposal :: "message option"
  cs_lockedHash :: hash
  cs_lockedRound :: round
  cs_prevotes :: "vote_set option"
  cs_precommits :: "vote_set option"
  cs_anyPrevoteQC :: "qc option"
  cs_anyPrecommitQC :: "qc option"
  cs_lastCommitted :: height
  cs_makeProposal :: "proposal_maker option"
  cs_pendingSelf :: "message option"
  cs_futureHeightProps :: "(height, message) fmap"
  cs_futureProps :: "(round, message) fmap"
  cs_sent :: "message list"
  cs_committed :: "(bytes \<times> height) list"

definition initial_state :: cons_state where
  "initial_state = \<lparr>cs_height = 0, cs_round = 0, cs_step = StepNewHeight, cs_proposal = None,
     cs_lockedHash = 0, cs_lockedRound = 0, cs_prevotes = None, cs_precommits = None,
     cs_anyPrevoteQC = None, cs_anyPrecommitQC = None, cs_lastCommitted = 0, cs_makeProposal = None,
     cs_pendingSelf = None, cs_futureHeightProps = fmempty, cs_futureProps = fmempty,
     cs_sent = [], cs_committed = []\<rparr>"

text \<open>The configuration of the model always has a validator set and a signer.\<close>

definition NewState :: "consensus_config \<Rightarrow> cons_state res" where
  "NewState cfg =
     (if vals_Get (cfg_Validators cfg) (cfg_Self cfg) = None then Inl ErrUnknownValidator
      else Inr initial_state)"

definition Broadcast :: "message \<Rightarrow> cons_state \<Rightarrow> cons_state" where
  "Broadcast m s = s\<lparr>cs_sent := cs_sent s @ [m]\<rparr>"

definition CommitBlock :: "consensus_config \<Rightarrow> bytes \<Rightarrow> cons_state \<Rightarrow> cons_state" where
  "CommitBlock cfg data s =
     (if cfg_hasSink cfg then s\<lparr>cs_committed := cs_committed s @ [(data, cs_height s)]\<rparr> else s)"

definition proposal_body :: "message option \<Rightarrow> proposal option" where
  "proposal_body m = (case m of Some m \<Rightarrow> (case m_Body m of BProposal p \<Rightarrow> Some p | _ \<Rightarrow> None) | None \<Rightarrow> None)"

section \<open>Committing\<close>

definition commitByHash :: "consensus_config \<Rightarrow> hash \<Rightarrow> cons_state \<Rightarrow> cons_state" where
  "commitByHash cfg h s =
     (case proposal_body (cs_proposal s) of
        Some p \<Rightarrow> (if pr_BlockHash p = h
          then (CommitBlock cfg (pr_Block p) s)\<lparr>cs_lastCommitted := cs_height s, cs_step := StepCommit\<rparr>
          else s)
      | None \<Rightarrow> s)"

definition commitCurrent :: "consensus_config \<Rightarrow> qc \<Rightarrow> cons_state \<Rightarrow> cons_state" where
  "commitCurrent cfg qc s =
     (let s = s\<lparr>cs_step := StepCommit\<rparr> in
      case proposal_body (cs_proposal s) of
        Some p \<Rightarrow> (if pr_BlockHash p = qc_BlockHash qc
          then (CommitBlock cfg (pr_Block p) s)\<lparr>cs_lastCommitted := cs_height s\<rparr> else s)
      | None \<Rightarrow> s)"

section \<open>Votes, quorums and rounds\<close>

text \<open>\<open>At(-1)\<close> gives the zero validator, whose power is 0.\<close>

definition val_power :: "consensus_config \<Rightarrow> address \<Rightarrow> uint64" where
  "val_power cfg a =
     (case vals_Get (cfg_Validators cfg) a of
        None \<Rightarrow> 0
      | Some i \<Rightarrow> (case vals_At (cfg_Validators cfg) i of None \<Rightarrow> 0 | Some v \<Rightarrow> v_Power v))"

definition recordVoteTo ::
    "consensus_config \<Rightarrow> vote_set \<Rightarrow> message \<Rightarrow> vote \<Rightarrow> uint64 \<Rightarrow> (vote_set \<times> bool) res" where
  "recordVoteTo cfg vs msg v pw = vs_add vs v (m_From msg) pw (Quorum (cfg_Validators cfg))"

definition votes_of :: "byte \<Rightarrow> cons_state \<Rightarrow> vote_set option" where
  "votes_of typ s = (if typ = Prevote then cs_prevotes s else cs_precommits s)"

definition set_votes :: "byte \<Rightarrow> vote_set \<Rightarrow> cons_state \<Rightarrow> cons_state" where
  "set_votes typ vs s =
     (if typ = Prevote then s\<lparr>cs_prevotes := Some vs\<rparr> else s\<lparr>cs_precommits := Some vs\<rparr>)"

definition sign_vote :: "consensus_config \<Rightarrow> cons_state \<Rightarrow> byte \<Rightarrow> hash \<Rightarrow> vote" where
  "sign_vote cfg s typ h =
     (let v = \<lparr>vt_Type = typ, vt_BlockHash = h, vt_Signature = 0\<rparr> in
      case cfg_Sign cfg (VoteDigest (cfg_keccak cfg) (cs_height s) (cs_round s) v) of
        None \<Rightarrow> v | Some sig \<Rightarrow> v\<lparr>vt_Signature := sig\<rparr>)"

definition sign_proposal :: "consensus_config \<Rightarrow> cons_state \<Rightarrow> bytes \<Rightarrow> hash \<Rightarrow> proposal" where
  "sign_proposal cfg s data h =
     (let p = \<lparr>pr_POLRound = NoPOLRound, pr_Block = data, pr_BlockHash = h, pr_Signature = 0\<rparr> in
      case cfg_Sign cfg (proposalDigest (cfg_keccak cfg) (cs_height s) (cs_round s) p) of
        None \<Rightarrow> p | Some sig \<Rightarrow> p\<lparr>pr_Signature := sig\<rparr>)"

definition own_message :: "consensus_config \<Rightarrow> cons_state \<Rightarrow> body \<Rightarrow> message" where
  "own_message cfg s b = \<lparr>m_Height = cs_height s, m_Round = cs_round s, m_From = cfg_Self cfg, m_Body = b\<rparr>"

definition new_round :: "round \<Rightarrow> cons_state \<Rightarrow> cons_state" where
  "new_round r s = s\<lparr>cs_round := r, cs_step := StepPropose, cs_proposal := None,
     cs_prevotes := Some (newVoteSet Prevote r), cs_precommits := Some (newVoteSet Precommit r),
     cs_anyPrevoteQC := None, cs_anyPrecommitQC := None\<rparr>"

definition lock :: "consensus_config \<Rightarrow> qc \<Rightarrow> cons_state \<Rightarrow> cons_state" where
  "lock cfg qc s = s\<lparr>cs_anyPrevoteQC := Some qc, cs_lockedHash := qc_BlockHash qc, cs_lockedRound := qc_Round qc\<rparr>"

text \<open>Nil has the quorum and no block has it.\<close>

definition nil_quorum :: "consensus_config \<Rightarrow> vote_set \<Rightarrow> bool" where
  "nil_quorum cfg vs \<longleftrightarrow> vs_nilPower vs \<ge> Quorum (cfg_Validators cfg) \<and> vs_maxPower vs < Quorum (cfg_Validators cfg)"

text \<open>
  Casting a vote records it, which can make a quorum, which casts the next vote or enters the next
  round, in which this node may propose and vote at once. The rounds bound the recursion.
\<close>

function castVote :: "consensus_config \<Rightarrow> byte \<Rightarrow> hash \<Rightarrow> cons_state \<Rightarrow> cons_state res"
  and recordVote :: "consensus_config \<Rightarrow> message \<Rightarrow> vote \<Rightarrow> cons_state \<Rightarrow> (cons_state \<times> err option) res"
  and onQuorum :: "consensus_config \<Rightarrow> byte \<Rightarrow> cons_state \<Rightarrow> cons_state res"
  and enterNewRound :: "consensus_config \<Rightarrow> round \<Rightarrow> cons_state \<Rightarrow> cons_state res"
  and proposeCurrentRound :: "consensus_config \<Rightarrow> uint64 \<Rightarrow> cons_state \<Rightarrow> cons_state res"
  and enterPrevote :: "consensus_config \<Rightarrow> cons_state \<Rightarrow> cons_state res"
where
  "castVote cfg typ h s =
     (let v = sign_vote cfg s typ h;
          msg = own_message cfg s (BVote v)
      in res_map fst (recordVote cfg msg v (Broadcast msg s)))"
| "recordVote cfg msg v s =
     (case votes_of (vt_Type v) s of
        None \<Rightarrow> Inl GoPanic
      | Some vs \<Rightarrow>
          (case recordVoteTo cfg vs msg v (val_power cfg (m_From msg)) of
             Inl e \<Rightarrow> Inr (s, Some e)
           | Inr (vs, newQC) \<Rightarrow>
               let s = set_votes (vt_Type v) vs s
               in if newQC then res_map (\<lambda>s. (s, None)) (onQuorum cfg (vt_Type v) s) else Inr (s, None)))"
| "onQuorum cfg typ s =
     (if typ = Prevote then
        if cs_step s \<noteq> StepPrevote then Inr s
        else (case cs_prevotes s of
            None \<Rightarrow> Inl GoPanic
          | Some vs \<Rightarrow>
              if nil_quorum cfg vs then enterNewRound cfg (cs_round s + 1) (s\<lparr>cs_step := StepPrecommit\<rparr>)
              else (case QCOf vs (cs_height s) of
                  None \<Rightarrow> Inr s
                | Some qc \<Rightarrow>
                    let s = lock cfg qc s;
                        s = Broadcast (own_message cfg s (BQC qc)) s
                    in castVote cfg Precommit (qc_BlockHash qc) (s\<lparr>cs_step := StepPrecommit\<rparr>)))
      else if typ = Precommit then
        (case cs_precommits s of
            None \<Rightarrow> Inl GoPanic
          | Some vs \<Rightarrow>
              if nil_quorum cfg vs then enterNewRound cfg (cs_round s + 1) s
              else if cs_step s \<noteq> StepPrecommit then Inr s
              else (case QCOf vs (cs_height s) of
                  None \<Rightarrow> Inr s
                | Some qc \<Rightarrow> Inr (commitCurrent cfg qc (s\<lparr>cs_anyPrecommitQC := Some qc\<rparr>))))
      else Inr s)"
| "enterNewRound cfg r s =
     (if r \<le> cs_round s then Inr s
      else
        let s = new_round r s in
        if ProposerOf (cfg_Validators cfg) (cs_height s) (cs_round s) = cfg_Self cfg \<and> cs_makeProposal s \<noteq> None
        then proposeCurrentRound cfg (1700000000 + cs_height s * 1000 + ucast (cs_round s)) s
        else (case fmlookup (cs_futureProps s) (cs_round s) of
            None \<Rightarrow> Inr s
          | Some m \<Rightarrow> Inr (s\<lparr>cs_futureProps := fmdrop (cs_round s) (cs_futureProps s), cs_pendingSelf := Some m\<rparr>)))"
| "proposeCurrentRound cfg ts s =
     (case cs_makeProposal s of
        None \<Rightarrow> Inr s
      | Some mk \<Rightarrow>
          (case mk (cs_height s) ts of
             None \<Rightarrow> Inr s
           | Some (data, h) \<Rightarrow>
               let msg = own_message cfg s (BProposal (sign_proposal cfg s data h))
               in enterPrevote cfg ((Broadcast msg s)\<lparr>cs_proposal := Some msg\<rparr>)))"
| "enterPrevote cfg s =
     (if cs_step s \<noteq> StepPropose then Inr s
      else castVote cfg Prevote (case proposal_body (cs_proposal s) of Some p \<Rightarrow> pr_BlockHash p | None \<Rightarrow> 0)
             (s\<lparr>cs_step := StepPrevote\<rparr>))"
  by pat_completeness auto

text \<open>How far a call is from the end: rounds left, then the place in the round.\<close>

definition vote_stage :: "byte \<Rightarrow> nat" where
  "vote_stage typ = (if typ = Prevote then 6 else 3)"

lemma round_field [simp]:
  "cs_round (Broadcast m s) = cs_round s" "cs_round (set_votes typ vs s) = cs_round s"
  "cs_round (lock cfg qc s) = cs_round s" "cs_round (new_round r s) = r"
  "vt_Type (sign_vote cfg s typ h) = typ"
  by (simp_all add: Broadcast_def set_votes_def lock_def new_round_def sign_vote_def Let_def split: option.split)

definition rounds_left :: "cons_state \<Rightarrow> nat" where
  "rounds_left s = 2 ^ 32 - unat (cs_round s)"

lemma rounds_left_less: "\<not> r \<le> cs_round s \<Longrightarrow> rounds_left (new_round r s) < rounds_left s"
  using unat_less_pow [of r] by (simp add: rounds_left_def word_le_nat_alt)

lemma rounds_left_cong [simp]:
  "rounds_left (Broadcast m s) = rounds_left s" "rounds_left (set_votes typ vs s) = rounds_left s"
  "rounds_left (lock cfg qc s) = rounds_left s" "rounds_left (s\<lparr>cs_step := st\<rparr>) = rounds_left s"
  "rounds_left (s\<lparr>cs_proposal := p\<rparr>) = rounds_left s"
  by (simp_all add: rounds_left_def)

termination castVote
proof (relation "measures
    [case_sum (case_sum (\<lambda>(cfg, typ, h, s). rounds_left s)
                (case_sum (\<lambda>(cfg, msg, v, s). rounds_left s) (\<lambda>(cfg, typ, s). rounds_left s)))
       (case_sum (\<lambda>(cfg, r, s). rounds_left s)
          (case_sum (\<lambda>(cfg, ts, s). rounds_left s) (\<lambda>(cfg, s). rounds_left s))),
     case_sum (case_sum (\<lambda>(cfg, typ, h, s). vote_stage typ + 2)
                (case_sum (\<lambda>(cfg, msg, v, s). vote_stage (vt_Type v) + 1) (\<lambda>(cfg, typ, s). vote_stage typ)))
       (case_sum (\<lambda>(cfg, r, s). 0) (case_sum (\<lambda>(cfg, ts, s). 10) (\<lambda>(cfg, s). 9)))]", goal_cases)
  case 1
  show ?case by simp
qed (auto simp: vote_stage_def rounds_left_less)

text \<open>The equations unfold without end in the simplifier; they are used one at a time.\<close>

declare castVote.simps [simp del] recordVote.simps [simp del] onQuorum.simps [simp del]
  enterNewRound.simps [simp del] proposeCurrentRound.simps [simp del] enterPrevote.simps [simp del]

section \<open>Messages\<close>

type_synonym outcome = "(cons_state \<times> err option) res"

definition ok :: "cons_state res \<Rightarrow> outcome" where
  "ok r = res_map (\<lambda>s. (s, None)) r"

definition handleProposal :: "consensus_config \<Rightarrow> message \<Rightarrow> proposal \<Rightarrow> cons_state \<Rightarrow> outcome" where
  "handleProposal cfg msg prop s =
     (if m_From msg \<noteq> ProposerOf (cfg_Validators cfg) (m_Height msg) (m_Round msg) then Inr (s, Some ErrNotProposer)
      else if m_Round msg > cs_round s then
        (if fmlookup (cs_futureProps s) (m_Round msg) = None
         then Inr (s\<lparr>cs_futureProps := fmupd (m_Round msg) msg (cs_futureProps s)\<rparr>, None)
         else Inr (s, None))
      else if m_Round msg < cs_round s then Inr (s, None)
      else if cs_step s \<noteq> StepPropose then Inr (s, None)
      else if cs_proposal s \<noteq> None then Inr (s, None)
      else if \<not> cfg_Verify cfg (proposalDigest (cfg_keccak cfg) (m_Height msg) (m_Round msg) prop)
          (pr_Signature prop) (m_From msg) then Inr (s, Some ErrBadSignature)
      else if (case cfg_ValidateBlock cfg of None \<Rightarrow> False | Some f \<Rightarrow> \<not> f (pr_Block prop) (m_Height msg) 0)
        then Inr (s, Some ErrInvalidMessage)
      else ok (enterPrevote cfg (s\<lparr>cs_proposal := Some msg\<rparr>)))"

definition handleVote :: "consensus_config \<Rightarrow> message \<Rightarrow> vote \<Rightarrow> validator \<Rightarrow> cons_state \<Rightarrow> outcome" where
  "handleVote cfg msg v val s =
     (if m_Round msg \<noteq> cs_round s then Inr (s, None)
      else if vt_Type v \<noteq> Prevote \<and> vt_Type v \<noteq> Precommit then Inr (s, Some ErrInvalidMessage)
      else if \<not> cfg_Verify cfg (VoteDigest (cfg_keccak cfg) (m_Height msg) (m_Round msg) v)
          (vt_Signature v) (m_From msg) then Inr (s, Some ErrBadSignature)
      else case votes_of (vt_Type v) s of
          None \<Rightarrow> Inl GoPanic
        | Some vs \<Rightarrow>
            (case recordVoteTo cfg vs msg v (v_Power val) of
               Inl e \<Rightarrow> Inr (s, Some e)
             | Inr (vs, newQC) \<Rightarrow>
                 let s = set_votes (vt_Type v) vs s
                 in if newQC then ok (onQuorum cfg (vt_Type v) s) else Inr (s, None)))"

definition handleQC :: "consensus_config \<Rightarrow> message \<Rightarrow> qc \<Rightarrow> cons_state \<Rightarrow> outcome" where
  "handleQC cfg msg qc s =
     (if qc_Height qc \<noteq> cs_height s \<or> qc_Round qc \<noteq> cs_round s then Inr (s, None)
      else if \<not> VerifyQC cfg qc then Inr (s, Some ErrBadSignature)
      else if qc_Type qc = Prevote then
        if cs_step s = StepPropose \<or> cs_step s = StepPrevote
        then ok (castVote cfg Precommit (qc_BlockHash qc) ((lock cfg qc s)\<lparr>cs_step := StepPrecommit\<rparr>))
        else Inr (s, None)
      else if qc_Type qc = Precommit then
        if cs_step s = StepPrecommit \<or> cs_step s = StepPrevote
        then Inr (commitByHash cfg (qc_BlockHash qc) (s\<lparr>cs_anyPrecommitQC := Some qc\<rparr>), None)
        else Inr (s, None)
      else Inr (s, None))"

definition HandleMessage :: "consensus_config \<Rightarrow> message \<Rightarrow> cons_state \<Rightarrow> outcome" where
  "HandleMessage cfg msg s =
     (if m_Height msg < cs_height s then Inr (s, Some ErrOldHeight)
      else if m_Height msg > cs_height s then
        (case m_Body msg of
           BProposal _ \<Rightarrow>
             (if fmlookup (cs_futureHeightProps s) (m_Height msg) = None
              then Inr (s\<lparr>cs_futureHeightProps := fmupd (m_Height msg) msg (cs_futureHeightProps s)\<rparr>, None)
              else Inr (s, None))
         | _ \<Rightarrow> Inr (s, None))
      else (case vals_Get (cfg_Validators cfg) (m_From msg) of
          None \<Rightarrow> Inr (s, Some ErrUnknownValidator)
        | Some i \<Rightarrow>
            let val = (case vals_At (cfg_Validators cfg) i of
                None \<Rightarrow> \<lparr>v_Address = 0, v_Power = 0\<rparr> | Some v \<Rightarrow> v)
            in (case m_Body msg of
                BProposal p \<Rightarrow> handleProposal cfg msg p s
              | BVote v \<Rightarrow> handleVote cfg msg v val s
              | BQC qc \<Rightarrow> handleQC cfg msg qc s
              | BNil \<Rightarrow> Inr (s, Some ErrInvalidMessage))))"

section \<open>New heights and timeouts\<close>

definition StartNewHeight :: "consensus_config \<Rightarrow> height \<Rightarrow> uint64 \<Rightarrow> cons_state \<Rightarrow> outcome" where
  "StartNewHeight cfg h ts s =
     (if h \<le> cs_lastCommitted s \<and> cs_lastCommitted s > 0 then Inr (s, Some ErrOldHeight)
      else
        let s = (new_round 0 s)\<lparr>cs_height := h, cs_lockedHash := 0, cs_lockedRound := 0\<rparr> in
        if ProposerOf (cfg_Validators cfg) h 0 = cfg_Self cfg then ok (proposeCurrentRound cfg ts s)
        else (case fmlookup (cs_futureHeightProps s) h of
            None \<Rightarrow> Inr (s, None)
          | Some m \<Rightarrow> Inr (s\<lparr>cs_futureHeightProps := fmdrop h (cs_futureHeightProps s), cs_pendingSelf := Some m\<rparr>, None)))"

definition OnTimeoutPropose :: "consensus_config \<Rightarrow> round \<Rightarrow> cons_state \<Rightarrow> outcome" where
  "OnTimeoutPropose cfg r s =
     (if cs_step s \<noteq> StepPropose \<or> cs_round s \<noteq> r then Inr (s, None)
      else ok (castVote cfg Prevote 0 (s\<lparr>cs_step := StepPrevote\<rparr>)))"

definition OnTimeoutPrevote :: "consensus_config \<Rightarrow> round \<Rightarrow> cons_state \<Rightarrow> outcome" where
  "OnTimeoutPrevote cfg r s =
     (if cs_step s \<noteq> StepPrevote \<or> cs_round s \<noteq> r then Inr (s, None)
      else res_map (\<lambda>s. (s\<lparr>cs_step := StepPrecommit\<rparr>, None)) (castVote cfg Prevote 0 s))"

definition OnTimeoutPrecommit :: "consensus_config \<Rightarrow> round \<Rightarrow> cons_state \<Rightarrow> outcome" where
  "OnTimeoutPrecommit cfg r s =
     (if cs_step s \<noteq> StepPrecommit \<or> cs_round s \<noteq> r then Inr (s, None)
      else ok (and_then (castVote cfg Precommit 0 s) (enterNewRound cfg (r + 1))))"

definition SetProposalMaker :: "proposal_maker option \<Rightarrow> cons_state \<Rightarrow> cons_state" where
  "SetProposalMaker fn s = s\<lparr>cs_makeProposal := fn\<rparr>"

definition TakePendingSelf :: "cons_state \<Rightarrow> cons_state \<times> message option" where
  "TakePendingSelf s = (s\<lparr>cs_pendingSelf := None\<rparr>, cs_pendingSelf s)"

definition IsCommitted :: "height \<Rightarrow> cons_state \<Rightarrow> bool" where
  "IsCommitted h s \<longleftrightarrow> cs_lastCommitted s \<ge> h"

section \<open>The public operations\<close>

datatype cons_op =
    OpStart height uint64
  | OpMessage message
  | OpTimeoutPropose round
  | OpTimeoutPrevote round
  | OpTimeoutPrecommit round
  | OpSetMaker "proposal_maker option"
  | OpTakePending

fun cons_exec :: "consensus_config \<Rightarrow> cons_op \<Rightarrow> cons_state \<Rightarrow> outcome" where
  "cons_exec cfg (OpStart h ts) s = StartNewHeight cfg h ts s"
| "cons_exec cfg (OpMessage m) s = HandleMessage cfg m s"
| "cons_exec cfg (OpTimeoutPropose r) s = OnTimeoutPropose cfg r s"
| "cons_exec cfg (OpTimeoutPrevote r) s = OnTimeoutPrevote cfg r s"
| "cons_exec cfg (OpTimeoutPrecommit r) s = OnTimeoutPrecommit cfg r s"
| "cons_exec cfg (OpSetMaker fn) s = Inr (SetProposalMaker fn s, None)"
| "cons_exec cfg OpTakePending s = Inr (fst (TakePendingSelf s), None)"

text \<open>A sequence of operations stops at a panic.\<close>

fun cons_run :: "consensus_config \<Rightarrow> cons_op list \<Rightarrow> cons_state \<Rightarrow> cons_state res" where
  "cons_run cfg [] s = Inr s"
| "cons_run cfg (op # ops) s = and_then (cons_exec cfg op s) (\<lambda>(s, _). cons_run cfg ops s)"

section \<open>What every operation keeps\<close>

text \<open>What each update leaves alone.\<close>

lemma Broadcast_frame [simp]:
  "cs_height (Broadcast m s) = cs_height s" "cs_step (Broadcast m s) = cs_step s"
  "cs_proposal (Broadcast m s) = cs_proposal s" "cs_lockedHash (Broadcast m s) = cs_lockedHash s"
  "cs_lockedRound (Broadcast m s) = cs_lockedRound s" "cs_prevotes (Broadcast m s) = cs_prevotes s"
  "cs_precommits (Broadcast m s) = cs_precommits s" "cs_anyPrevoteQC (Broadcast m s) = cs_anyPrevoteQC s"
  "cs_anyPrecommitQC (Broadcast m s) = cs_anyPrecommitQC s"
  "cs_lastCommitted (Broadcast m s) = cs_lastCommitted s"
  "cs_makeProposal (Broadcast m s) = cs_makeProposal s" "cs_pendingSelf (Broadcast m s) = cs_pendingSelf s"
  "cs_futureHeightProps (Broadcast m s) = cs_futureHeightProps s"
  "cs_futureProps (Broadcast m s) = cs_futureProps s" "cs_committed (Broadcast m s) = cs_committed s"
  by (simp_all add: Broadcast_def)

lemma set_votes_frame [simp]:
  "cs_height (set_votes ty vs s) = cs_height s" "cs_step (set_votes ty vs s) = cs_step s"
  "cs_proposal (set_votes ty vs s) = cs_proposal s" "cs_lockedHash (set_votes ty vs s) = cs_lockedHash s"
  "cs_lockedRound (set_votes ty vs s) = cs_lockedRound s"
  "cs_anyPrevoteQC (set_votes ty vs s) = cs_anyPrevoteQC s"
  "cs_anyPrecommitQC (set_votes ty vs s) = cs_anyPrecommitQC s"
  "cs_lastCommitted (set_votes ty vs s) = cs_lastCommitted s"
  "cs_makeProposal (set_votes ty vs s) = cs_makeProposal s"
  "cs_pendingSelf (set_votes ty vs s) = cs_pendingSelf s"
  "cs_futureHeightProps (set_votes ty vs s) = cs_futureHeightProps s"
  "cs_futureProps (set_votes ty vs s) = cs_futureProps s" "cs_sent (set_votes ty vs s) = cs_sent s"
  "cs_committed (set_votes ty vs s) = cs_committed s"
  by (simp_all add: set_votes_def)

lemma lock_frame [simp]:
  "cs_height (lock cfg qc s) = cs_height s" "cs_step (lock cfg qc s) = cs_step s"
  "cs_proposal (lock cfg qc s) = cs_proposal s" "cs_prevotes (lock cfg qc s) = cs_prevotes s"
  "cs_precommits (lock cfg qc s) = cs_precommits s" "cs_anyPrecommitQC (lock cfg qc s) = cs_anyPrecommitQC s"
  "cs_lastCommitted (lock cfg qc s) = cs_lastCommitted s"
  "cs_makeProposal (lock cfg qc s) = cs_makeProposal s" "cs_pendingSelf (lock cfg qc s) = cs_pendingSelf s"
  "cs_futureHeightProps (lock cfg qc s) = cs_futureHeightProps s"
  "cs_futureProps (lock cfg qc s) = cs_futureProps s" "cs_sent (lock cfg qc s) = cs_sent s"
  "cs_committed (lock cfg qc s) = cs_committed s"
  by (simp_all add: lock_def)

lemma new_round_frame [simp]:
  "cs_height (new_round r s) = cs_height s" "cs_lockedHash (new_round r s) = cs_lockedHash s"
  "cs_lockedRound (new_round r s) = cs_lockedRound s" "cs_lastCommitted (new_round r s) = cs_lastCommitted s"
  "cs_makeProposal (new_round r s) = cs_makeProposal s" "cs_pendingSelf (new_round r s) = cs_pendingSelf s"
  "cs_futureHeightProps (new_round r s) = cs_futureHeightProps s"
  "cs_futureProps (new_round r s) = cs_futureProps s" "cs_sent (new_round r s) = cs_sent s"
  "cs_committed (new_round r s) = cs_committed s"
  by (simp_all add: new_round_def)

lemma update_effect [simp]:
  "cs_sent (Broadcast m s) = cs_sent s @ [m]" "cs_step (new_round r s) = StepPropose"
  "cs_proposal (new_round r s) = None" "cs_prevotes (new_round r s) = Some (newVoteSet Prevote r)"
  "cs_precommits (new_round r s) = Some (newVoteSet Precommit r)"
  "votes_of ty (set_votes ty' vs s) = (if (ty = Prevote) = (ty' = Prevote) then Some vs else votes_of ty s)"
  by (simp_all add: Broadcast_def new_round_def votes_of_def set_votes_def)

definition started :: "cons_state \<Rightarrow> bool" where
  "started s \<longleftrightarrow> cs_prevotes s \<noteq> None \<and> cs_precommits s \<noteq> None"

definition is_vote_type :: "byte \<Rightarrow> bool" where
  "is_vote_type typ \<longleftrightarrow> typ = Prevote \<or> typ = Precommit"

lemma is_vote_type_simps [simp]: "is_vote_type Prevote" "is_vote_type Precommit"
  by (simp_all add: is_vote_type_def)

lemma started_votes: "started s \<Longrightarrow> \<exists>vs. votes_of typ s = Some vs"
  by (auto simp: started_def votes_of_def)

lemma own_message_frame [simp]:
  "own_message cfg (s\<lparr>cs_step := st\<rparr>) b = own_message cfg s b"
  "own_message cfg (lock cfg' qc s) b = own_message cfg s b"
  "own_message cfg (Broadcast m s) b = own_message cfg s b"
  by (simp_all add: own_message_def lock_def Broadcast_def)

lemma sign_vote_frame [simp]:
  "sign_vote cfg (s\<lparr>cs_step := st\<rparr>) typ h = sign_vote cfg s typ h"
  "sign_vote cfg (lock cfg' qc s) typ h = sign_vote cfg s typ h"
  "sign_vote cfg (Broadcast m s) typ h = sign_vote cfg s typ h"
  by (simp_all add: sign_vote_def lock_def Broadcast_def)

text \<open>The messages a node knows of: those it was given, \<open>M\<close>, and those it sent.\<close>

definition known :: "message set \<Rightarrow> cons_state \<Rightarrow> message set" where
  "known M s = M \<union> set (cs_sent s)"

definition vote_seen :: "consensus_config \<Rightarrow> message set \<Rightarrow> height \<Rightarrow> round \<Rightarrow> address \<Rightarrow> vote \<Rightarrow> bool" where
  "vote_seen cfg K h r a v \<longleftrightarrow>
     \<lparr>m_Height = h, m_Round = r, m_From = a, m_Body = BVote v\<rparr> \<in> K \<and>
     (a = cfg_Self cfg \<or> cfg_Verify cfg (VoteDigest (cfg_keccak cfg) h r v) (vt_Signature v) a)"

definition has_quorum :: "consensus_config \<Rightarrow> vote_set \<Rightarrow> bool" where
  "has_quorum cfg vs \<longleftrightarrow>
     Quorum (cfg_Validators cfg) \<le> vs_nilPower vs \<or> Quorum (cfg_Validators cfg) \<le> vs_maxPower vs"

lemma vs_add_quorum:
  "vs_add vs v a pw q = Inr (vs', True) \<Longrightarrow> q \<le> vs_nilPower vs' \<or> q \<le> vs_maxPower vs'"
  using vs_add_Inr(7) [of vs v a pw q vs' True "vt_BlockHash v"] vs_add_Inr(8,10) [of vs v a pw q vs' True]
  by (fastforce split: if_splits)

text \<open>The validator set is sound and this node is in it.\<close>

definition cfg_valid :: "consensus_config \<Rightarrow> bool" where
  "cfg_valid cfg \<longleftrightarrow> valset_ok (cfg_Validators cfg) \<and> vals_Get (cfg_Validators cfg) (cfg_Self cfg) \<noteq> None"

definition good :: "(cons_state \<Rightarrow> bool) \<Rightarrow> cons_state res \<Rightarrow> bool" where
  "good P r \<longleftrightarrow> (\<exists>s. r = Inr s \<and> P s)"

lemma good_simps [simp]: "good P (Inr s) \<longleftrightarrow> P s" "\<not> good P (Inl e)"
  by (simp_all add: good_def)

lemma good_fst: "good P (res_map fst r) \<longleftrightarrow> (\<exists>s e. r = Inr (s, e) \<and> P s)"
  by (cases r) (auto simp: good_def)

lemma val_power_at:
  "valset_ok (cfg_Validators cfg) \<Longrightarrow> vals_Get (cfg_Validators cfg) a = Some i \<Longrightarrow>
   val_power cfg a = v_Power (vals_list (cfg_Validators cfg) ! i)"
  using valset_Get [of "cfg_Validators cfg" a i] by (simp add: val_power_def vals_At_def)

text \<open>
  The interface between the machine and its invariants. A property of started states that is kept
  by each of these updates, at the point where the code makes it, is kept by every operation
  except the start of a height; and no operation panics on such a state.
\<close>

locale cons_invariant =
  fixes cfg :: consensus_config and M :: "message set" and P :: "cons_state \<Rightarrow> bool"
  assumes P_started: "P s \<Longrightarrow> cfg_valid cfg \<and> started s"
    and P_tally: "P s \<Longrightarrow> is_vote_type typ \<Longrightarrow> votes_of typ s = Some vs \<Longrightarrow> vt_Type v = typ \<Longrightarrow>
      vote_seen cfg (known M s) (cs_height s) (cs_round s) a v \<Longrightarrow> vals_Get (cfg_Validators cfg) a = Some i \<Longrightarrow>
      vs_add vs v a (v_Power (vals_list (cfg_Validators cfg) ! i)) (Quorum (cfg_Validators cfg)) = Inr (vs', q) \<Longrightarrow>
      P (set_votes typ vs' s)"
    and P_prevote: "P s \<Longrightarrow> cs_step s = StepPropose \<Longrightarrow>
      P (Broadcast (own_message cfg s (BVote (sign_vote cfg s Prevote h))) (s\<lparr>cs_step := StepPrevote\<rparr>))"
    and P_precommit: "P s \<Longrightarrow> cs_step s = StepPropose \<or> cs_step s = StepPrevote \<Longrightarrow>
      P (Broadcast (own_message cfg s (BVote (sign_vote cfg s Precommit h))) ((lock cfg qc s)\<lparr>cs_step := StepPrecommit\<rparr>))"
    and P_nil: "P s \<Longrightarrow> is_vote_type typ \<Longrightarrow> P (Broadcast (own_message cfg s (BVote (sign_vote cfg s typ 0))) s)"
    and P_leave: "P s \<Longrightarrow> P (s\<lparr>cs_step := StepPrecommit\<rparr>)"
    and P_send_qc: "P s \<Longrightarrow> P (Broadcast (own_message cfg s (BQC qc)) s)"
    and P_round: "P s \<Longrightarrow> cs_round s < r \<Longrightarrow> P (new_round r s)"
    and P_cached: "P s \<Longrightarrow> fmlookup (cs_futureProps s) r = Some m \<Longrightarrow>
      P (s\<lparr>cs_futureProps := fmdrop r (cs_futureProps s), cs_pendingSelf := Some m\<rparr>)"
    and P_propose: "P s \<Longrightarrow> ProposerOf (cfg_Validators cfg) (cs_height s) (cs_round s) = cfg_Self cfg \<Longrightarrow>
      msg = own_message cfg s (BProposal p) \<Longrightarrow> P ((Broadcast msg s)\<lparr>cs_proposal := Some msg\<rparr>)"
    and P_commit: "P s \<Longrightarrow> cs_step s = StepPrecommit \<Longrightarrow> cs_precommits s = Some vs \<Longrightarrow>
      Quorum (cfg_Validators cfg) \<le> vs_maxPower vs \<Longrightarrow> QCOf vs (cs_height s) = Some qc \<Longrightarrow>
      P (commitCurrent cfg qc (s\<lparr>cs_anyPrecommitQC := Some qc\<rparr>))"
    and P_commit_qc: "P s \<Longrightarrow> m \<in> M \<Longrightarrow> m_Body m = BQC qc \<Longrightarrow> VerifyQC cfg qc \<Longrightarrow> qc_Type qc = Precommit \<Longrightarrow>
      qc_Height qc = cs_height s \<Longrightarrow> qc_Round qc = cs_round s \<Longrightarrow>
      cs_step s = StepPrecommit \<or> cs_step s = StepPrevote \<Longrightarrow>
      P (commitByHash cfg (qc_BlockHash qc) (s\<lparr>cs_anyPrecommitQC := Some qc\<rparr>))"
    and P_accept: "P s \<Longrightarrow> m \<in> M \<Longrightarrow> m_Body m = BProposal p \<Longrightarrow> m_Height m = cs_height s \<Longrightarrow>
      m_Round m = cs_round s \<Longrightarrow> m_From m = ProposerOf (cfg_Validators cfg) (m_Height m) (m_Round m) \<Longrightarrow>
      cfg_Verify cfg (proposalDigest (cfg_keccak cfg) (m_Height m) (m_Round m) p) (pr_Signature p) (m_From m) \<Longrightarrow>
      P (s\<lparr>cs_proposal := Some m\<rparr>)"
    and P_cache: "P s \<Longrightarrow> m \<in> M \<Longrightarrow> m_Body m = BProposal p \<Longrightarrow>
      m_From m = ProposerOf (cfg_Validators cfg) (m_Height m) (m_Round m) \<Longrightarrow>
      P (s\<lparr>cs_futureProps := fmupd (m_Round m) m (cs_futureProps s)\<rparr>)"
    and P_cache_height: "P s \<Longrightarrow> m \<in> M \<Longrightarrow> m_Body m = BProposal p \<Longrightarrow>
      P (s\<lparr>cs_futureHeightProps := fmupd (m_Height m) m (cs_futureHeightProps s)\<rparr>)"
    and P_maker: "P s \<Longrightarrow> P (s\<lparr>cs_makeProposal := fn\<rparr>)"
    and P_pending: "P s \<Longrightarrow> P (s\<lparr>cs_pendingSelf := None\<rparr>)"
begin

lemma chain:
  "c = cfg \<Longrightarrow> is_vote_type ty \<Longrightarrow> P (Broadcast (own_message cfg s (BVote (sign_vote cfg s ty h))) s) \<Longrightarrow>
    good P (castVote c ty h s)"
  "c = cfg \<Longrightarrow> is_vote_type (vt_Type v) \<Longrightarrow> P s \<Longrightarrow> msg = own_message cfg s (BVote v) \<Longrightarrow> msg \<in> set (cs_sent s) \<Longrightarrow>
    good P (res_map fst (recordVote c msg v s))"
  "c = cfg \<Longrightarrow> P s \<Longrightarrow> \<exists>vs. votes_of ty s = Some vs \<and> has_quorum cfg vs \<Longrightarrow> good P (onQuorum c ty s)"
  "c = cfg \<Longrightarrow> P s \<Longrightarrow> good P (enterNewRound c r s)"
  "c = cfg \<Longrightarrow> P s \<Longrightarrow> ProposerOf (cfg_Validators cfg) (cs_height s) (cs_round s) = cfg_Self cfg \<Longrightarrow>
    good P (proposeCurrentRound c ts s)"
  "c = cfg \<Longrightarrow> P s \<Longrightarrow> good P (enterPrevote c s)"
proof (induction c ty h s and c msg v s and c ty s and c r s and c ts s and c s
    rule: castVote_recordVote_onQuorum_enterNewRound_proposeCurrentRound_enterPrevote.induct)
  case (1 c ty h s)
  have "own_message cfg s (BVote (sign_vote cfg s ty h)) \<in> set (cs_sent (Broadcast (own_message cfg s (BVote (sign_vote cfg s ty h))) s))"
    by (simp add: Broadcast_def)
  with 1 show ?case unfolding castVote.simps [of c] Let_def by simp
next
  case (2 c msg v s)
  obtain vs where vs: "votes_of (vt_Type v) s = Some vs" using P_started [OF 2(4)] started_votes by blast
  have V: "valset_ok (cfg_Validators cfg)" using P_started [OF 2(4)] by (simp add: cfg_valid_def)
  obtain i where i: "vals_Get (cfg_Validators cfg) (cfg_Self cfg) = Some i"
    using P_started [OF 2(4)] by (auto simp: cfg_valid_def)
  have seen: "vote_seen cfg (known M s) (cs_height s) (cs_round s) (cfg_Self cfg) v"
    using 2(5,6) by (simp add: vote_seen_def known_def own_message_def)
  have from_self: "m_From msg = cfg_Self cfg" using 2(5) by (simp add: own_message_def)
  show ?case
  proof (cases "recordVoteTo cfg vs msg v (val_power cfg (m_From msg))")
    case (Inl e)
    then show ?thesis using 2(2,4) vs unfolding recordVote.simps [of c] by simp
  next
    case (Inr r)
    obtain vs' q where r: "r = (vs', q)" by (cases r)
    have add: "vs_add vs v (cfg_Self cfg) (v_Power (vals_list (cfg_Validators cfg) ! i)) (Quorum (cfg_Validators cfg)) = Inr (vs', q)"
      using Inr r from_self val_power_at [OF V i] by (simp add: recordVoteTo_def)
    have P: "P (set_votes (vt_Type v) vs' s)" by (rule P_tally [OF 2(4,3) vs refl seen i add])
    have "good P (onQuorum c (vt_Type v) (set_votes (vt_Type v) vs' s))" if q: q
    proof -
      have "has_quorum cfg vs'" using vs_add_quorum add q by (auto simp: has_quorum_def)
      then have "\<exists>vs. votes_of (vt_Type v) (set_votes (vt_Type v) vs' s) = Some vs \<and> has_quorum cfg vs"
        by (simp add: votes_of_def set_votes_def)
      then show ?thesis using 2(1) [OF vs _ refl refl q 2(2) P] Inr r 2(2) by simp
    qed
    then show ?thesis using 2(2) vs Inr r P unfolding recordVote.simps [of c] by (auto simp: good_def Let_def)
  qed
next
  case (3 c ty s)
  obtain vs where vs: "votes_of ty s = Some vs" "has_quorum cfg vs" using 3(6) by blast
  show ?case
  proof (cases "nil_quorum cfg vs")
    case nq: True
    show ?thesis
    proof (cases "ty = Prevote")
      case True
      then show ?thesis using 3(1) [OF True _ _ _ 3(4) P_leave [OF 3(5)]] vs nq 3(4,5)
        unfolding onQuorum.simps [of c] by (simp add: votes_of_def)
    next
      case False
      then show ?thesis using 3(3) [OF False _ _ _ 3(4,5)] vs nq 3(4,5)
        unfolding onQuorum.simps [of c] by (simp add: votes_of_def)
    qed
  next
    case nq: False
    then have max: "Quorum (cfg_Validators cfg) \<le> vs_maxPower vs"
      using vs(2) by (auto simp: has_quorum_def nil_quorum_def)
    show ?thesis
    proof (cases "QCOf vs (cs_height s)")
      case None
      then show ?thesis using vs(1) nq 3(4,5) unfolding onQuorum.simps [of c]
        by (cases "ty = Prevote") (simp_all add: votes_of_def)
    next
      case (Some qc)
      show ?thesis
      proof (cases "ty = Prevote")
        case ty: True
        show ?thesis
        proof (cases "cs_step s = StepPrevote")
          case True
          have "P (Broadcast (own_message cfg s (BVote (sign_vote cfg s Precommit (qc_BlockHash qc))))
              ((lock cfg qc (Broadcast (own_message cfg s (BQC qc)) s))\<lparr>cs_step := StepPrecommit\<rparr>))"
            using P_precommit [OF P_send_qc [OF 3(5)], of qc "qc_BlockHash qc" qc] True by simp
          moreover have "Broadcast m (lock cfg qc s) = lock cfg qc (Broadcast m s)" for m
            by (simp add: Broadcast_def lock_def)
          ultimately show ?thesis
            using 3(2) [OF ty _ _ _ Some refl refl 3(4)] vs(1) nq ty True 3(4) Some
            unfolding onQuorum.simps [of c] by (simp add: votes_of_def Let_def)
        next
          case False
          then show ?thesis using ty 3(4,5) unfolding onQuorum.simps [of c] by simp
        qed
      next
        case False
        then show ?thesis using vs(1) nq 3(4,5) Some P_commit [OF 3(5) _ _ max Some]
          unfolding onQuorum.simps [of c] by (simp add: votes_of_def)
      qed
    qed
  qed
next
  case (4 c r s)
  show ?case
  proof (cases "r \<le> cs_round s")
    case True
    then show ?thesis using 4 unfolding enterNewRound.simps [of c] by simp
  next
    case r: False
    then have P: "P (new_round r s)" using P_round 4(3) by simp
    show ?thesis using r P 4(1) [OF r refl _ 4(2) P] 4(2) P_cached [OF P]
      unfolding enterNewRound.simps [of c] by (auto simp: Let_def split: option.splits)
  qed
next
  case (5 c ts s)
  show ?case
  proof (cases "cs_makeProposal s")
    case None
    then show ?thesis using 5 unfolding proposeCurrentRound.simps [of c] by simp
  next
    case mk: (Some mk)
    show ?thesis
    proof (cases "mk (cs_height s) ts")
      case None
      then show ?thesis using 5 mk unfolding proposeCurrentRound.simps [of c] by simp
    next
      case (Some x)
      obtain data h where x: "x = (data, h)" by (cases x)
      show ?thesis
        using 5(1) [OF mk Some x [symmetric] refl 5(2)] P_propose [OF 5(3,4)] 5(2) mk Some x
        unfolding proposeCurrentRound.simps [of c] by (simp add: Let_def)
    qed
  qed
next
  case (6 c s)
  show ?case using 6 P_prevote [OF 6(3)] unfolding enterPrevote.simps [of c] by simp
qed

text \<open>The operations.\<close>

lemma ok_good: "good P r \<Longrightarrow> \<exists>s e. ok r = Inr (s, e) \<and> P s"
  by (auto simp: good_def ok_def)

lemma handleProposal_keeps:
  assumes "P s" "m \<in> M" "m_Body m = BProposal p" "m_Height m = cs_height s"
  shows "\<exists>s' e. handleProposal cfg m p s = Inr (s', e) \<and> P s'"
proof -
  have "\<exists>s' e. ok (enterPrevote cfg (s\<lparr>cs_proposal := Some m\<rparr>)) = Inr (s', e) \<and> P s'"
    if "m_Round m = cs_round s" "m_From m = ProposerOf (cfg_Validators cfg) (m_Height m) (m_Round m)"
      "cfg_Verify cfg (proposalDigest (cfg_keccak cfg) (m_Height m) (m_Round m) p) (pr_Signature p) (m_From m)"
    by (intro ok_good chain(6) refl P_accept [OF assms that])
  then show ?thesis using assms(1) P_cache [OF assms(1-3)] by (auto simp: handleProposal_def)
qed

lemma handleVote_keeps:
  assumes P: "P s" and m: "m \<in> M" "m_Body m = BVote v" "m_Height m = cs_height s"
    and i: "vals_Get (cfg_Validators cfg) (m_From m) = Some i"
    and val: "val = vals_list (cfg_Validators cfg) ! i"
  shows "\<exists>s' e. handleVote cfg m v val s = Inr (s', e) \<and> P s'"
proof (cases "m_Round m = cs_round s \<and> is_vote_type (vt_Type v) \<and>
    cfg_Verify cfg (VoteDigest (cfg_keccak cfg) (m_Height m) (m_Round m) v) (vt_Signature v) (m_From m)")
  case False
  then show ?thesis using P by (auto simp: handleVote_def is_vote_type_def)
next
  case True
  have seen: "vote_seen cfg (known M s) (cs_height s) (cs_round s) (m_From m) v"
    using m True by (cases m) (simp add: vote_seen_def known_def)
  obtain vs where vs: "votes_of (vt_Type v) s = Some vs" using P_started [OF P] started_votes by blast
  show ?thesis
  proof (cases "recordVoteTo cfg vs m v (v_Power val)")
    case (Inl e)
    then show ?thesis using P vs True by (auto simp: handleVote_def is_vote_type_def)
  next
    case (Inr r)
    obtain vs' q where r: "r = (vs', q)" by (cases r)
    have add: "vs_add vs v (m_From m) (v_Power (vals_list (cfg_Validators cfg) ! i)) (Quorum (cfg_Validators cfg)) = Inr (vs', q)"
      using Inr r val by (simp add: recordVoteTo_def)
    have P': "P (set_votes (vt_Type v) vs' s)"
      using True by (intro P_tally [OF P _ vs refl seen i add]) simp
    have "\<exists>s' e. ok (onQuorum cfg (vt_Type v) (set_votes (vt_Type v) vs' s)) = Inr (s', e) \<and> P s'" if q
      using vs_add_quorum add that by (intro ok_good chain(3) [OF refl P']) (auto simp: has_quorum_def)
    then show ?thesis using True vs Inr r P' by (auto simp: handleVote_def is_vote_type_def Let_def)
  qed
qed

lemma handleQC_keeps:
  assumes P: "P s" and m: "m \<in> M" "m_Body m = BQC qc"
  shows "\<exists>s' e. handleQC cfg m qc s = Inr (s', e) \<and> P s'"
proof (cases "qc_Height qc = cs_height s \<and> qc_Round qc = cs_round s \<and> VerifyQC cfg qc")
  case False
  then show ?thesis using P by (auto simp: handleQC_def)
next
  case True
  have "\<exists>s' e. ok (castVote cfg Precommit (qc_BlockHash qc) (lock cfg qc s\<lparr>cs_step := StepPrecommit\<rparr>)) = Inr (s', e) \<and> P s'"
    if "cs_step s = StepPropose \<or> cs_step s = StepPrevote"
    using P_precommit [OF P that, of "qc_BlockHash qc" qc] by (intro ok_good chain(1)) simp_all
  moreover have "P (commitByHash cfg (qc_BlockHash qc) (s\<lparr>cs_anyPrecommitQC := Some qc\<rparr>))"
    if "qc_Type qc = Precommit" "cs_step s = StepPrecommit \<or> cs_step s = StepPrevote"
    using True that by (intro P_commit_qc [OF P m]) simp_all
  ultimately show ?thesis using True P by (auto simp: handleQC_def)
qed

lemma HandleMessage_keeps:
  assumes "P s" "m \<in> M"
  shows "\<exists>s' e. HandleMessage cfg m s = Inr (s', e) \<and> P s'"
proof (cases "m_Height m = cs_height s")
  case False
  then show ?thesis using assms P_cache_height
    by (auto simp: HandleMessage_def split: body.split)
next
  case h: True
  show ?thesis
  proof (cases "vals_Get (cfg_Validators cfg) (m_From m)")
    case None
    then show ?thesis using h assms by (simp add: HandleMessage_def)
  next
    case i: (Some i)
    then have "vals_At (cfg_Validators cfg) i = Some (vals_list (cfg_Validators cfg) ! i)"
      using valset_Get [of "cfg_Validators cfg"] P_started [OF assms(1)] by (simp add: vals_At_def cfg_valid_def)
    then show ?thesis
      using h i assms handleProposal_keeps [OF assms _ h] handleVote_keeps [OF assms _ h i refl] handleQC_keeps [OF assms]
      by (cases "m_Body m") (simp_all add: HandleMessage_def)
  qed
qed

lemma timeout_nil: "P s \<Longrightarrow> is_vote_type ty \<Longrightarrow> good P (castVote cfg ty 0 s)"
  by (intro chain(1)) (simp_all add: P_nil)

lemma OnTimeoutPropose_keeps: "P s \<Longrightarrow> \<exists>s' e. OnTimeoutPropose cfg r s = Inr (s', e) \<and> P s'"
  using ok_good [OF chain(1) [OF refl, of Prevote "s\<lparr>cs_step := StepPrevote\<rparr>" 0]] P_prevote [of s 0]
  by (auto simp: OnTimeoutPropose_def)

lemma OnTimeoutPrecommit_keeps: "P s \<Longrightarrow> \<exists>s' e. OnTimeoutPrecommit cfg r s = Inr (s', e) \<and> P s'"
proof -
  assume P: "P s"
  obtain s1 where s1: "castVote cfg Precommit 0 s = Inr s1" "P s1"
    using timeout_nil [OF P, of Precommit] by (auto simp: good_def)
  then show ?thesis using ok_good [OF chain(4) [OF refl s1(2)], of "r + 1"] P
    by (auto simp: OnTimeoutPrecommit_def)
qed

lemma OnTimeoutPrevote_keeps: "P s \<Longrightarrow> \<exists>s' e. OnTimeoutPrevote cfg r s = Inr (s', e) \<and> P s'"
proof -
  assume P: "P s"
  obtain s1 where "castVote cfg Prevote 0 s = Inr s1" "P s1"
    using timeout_nil [OF P, of Prevote] by (auto simp: good_def)
  then show ?thesis using P P_leave by (auto simp: OnTimeoutPrevote_def)
qed

text \<open>All operations but the start of a height.\<close>

lemma exec_keeps:
  assumes "P s" "\<forall>h ts. op \<noteq> OpStart h ts" "\<forall>m. op = OpMessage m \<longrightarrow> m \<in> M"
  shows "\<exists>s' e. cons_exec cfg op s = Inr (s', e) \<and> P s'"
  using assms HandleMessage_keeps OnTimeoutPropose_keeps OnTimeoutPrevote_keeps OnTimeoutPrecommit_keeps
    P_maker P_pending
  by (cases op) (simp_all add: SetProposalMaker_def TakePendingSelf_def)

lemma run_keeps:
  "P s \<Longrightarrow> \<forall>op\<in>set ops. (\<forall>h ts. op \<noteq> OpStart h ts) \<and> (\<forall>m. op = OpMessage m \<longrightarrow> m \<in> M) \<Longrightarrow>
   \<exists>s'. cons_run cfg ops s = Inr s' \<and> P s'"
proof (induction ops arbitrary: s)
  case (Cons op ops)
  then obtain s1 e where "cons_exec cfg op s = Inr (s1, e)" "P s1" using exec_keeps [of s op] by auto
  then show ?case using Cons.IH [of s1] Cons.prems(2) by simp
qed simp

text \<open>A height starts well when the state that \<open>StartNewHeight\<close> prepares has the property.\<close>

lemma StartNewHeight_keeps:
  assumes t: "t = (new_round 0 s)\<lparr>cs_height := h, cs_lockedHash := 0, cs_lockedRound := 0\<rparr>" and P: "P t"
    and pend: "\<And>m. fmlookup (cs_futureHeightProps s) h = Some m \<Longrightarrow>
      P (t\<lparr>cs_futureHeightProps := fmdrop h (cs_futureHeightProps s), cs_pendingSelf := Some m\<rparr>)"
    and h: "\<not> (h \<le> cs_lastCommitted s \<and> cs_lastCommitted s > 0)"
  shows "\<exists>s' e. StartNewHeight cfg h ts s = Inr (s', e) \<and> P s'"
proof -
  have "\<exists>s' e. ok (proposeCurrentRound cfg ts t) = Inr (s', e) \<and> P s'"
    if "ProposerOf (cfg_Validators cfg) h 0 = cfg_Self cfg"
    using that t by (intro ok_good chain(5) [OF refl P]) simp
  moreover have "StartNewHeight cfg h ts s =
      (if ProposerOf (cfg_Validators cfg) h 0 = cfg_Self cfg then ok (proposeCurrentRound cfg ts t)
       else (case fmlookup (cs_futureHeightProps s) h of
            None \<Rightarrow> Inr (t, None)
          | Some m \<Rightarrow> Inr (t\<lparr>cs_futureHeightProps := fmdrop h (cs_futureHeightProps s), cs_pendingSelf := Some m\<rparr>, None)))"
    using h unfolding t by (auto simp: StartNewHeight_def Let_def split: option.split)
  ultimately show ?thesis using P pend by (simp split: option.split)
qed

end

end
