(* ===== verification/ConsensusEval.thy ===== *)
theory ConsensusEval
  imports Consensus
begin

text \<open>
  Evaluating the consensus state machine by rewriting: four validators of equal power, and the
  equations that run operations of their nodes on concrete states. The runs that show hypotheses
  can hold, and the runs that show what can go wrong, are evaluated with these.
\<close>

section \<open>Four validators of equal power\<close>

text \<open>Any hash function, and any signature scheme \<open>signs\<close> in which only the right signature verifies.\<close>

definition node_cfg :: "keccak \<Rightarrow> (address \<Rightarrow> hash \<Rightarrow> signature) \<Rightarrow> address \<Rightarrow> consensus_config" where
  "node_cfg kec signs a = \<lparr>cfg_Self = a, cfg_Validators = sample_set, cfg_Sign = (\<lambda>d. Some (signs a d)),
     cfg_Verify = (\<lambda>d sig b. sig = signs b d), cfg_ValidateBlock = None, cfg_BLSSigner = None,
     cfg_hasSink = True, cfg_keccak = kec\<rparr>"

lemma node_cfg_fields:
  "cfg_Self (node_cfg kec signs a) = a" "cfg_Validators (node_cfg kec signs a) = sample_set"
  "cfg_Sign (node_cfg kec signs a) d = Some (signs a d)" "cfg_Verify (node_cfg kec signs a) d sig b \<longleftrightarrow> sig = signs b d"
  "cfg_ValidateBlock (node_cfg kec signs a) = None" "cfg_BLSSigner (node_cfg kec signs a) = None"
  "cfg_hasSink (node_cfg kec signs a)" "cfg_keccak (node_cfg kec signs a) = kec"
  by (simp_all add: node_cfg_def)

text \<open>Validator \<open>a\<close> makes the block of the one byte \<open>a\<close>, with hash \<open>a\<close>.\<close>

definition node_maker :: "address \<Rightarrow> proposal_maker" where
  "node_maker a h ts = Some ([ucast a], ucast a)"

lemma sample_Get_values:
  "vals_Get sample_set 1 = Some 0" "vals_Get sample_set 2 = Some 1" "vals_Get sample_set 3 = Some 2"
  "vals_Get sample_set 4 = Some 3"
  by (simp_all add: valset_Get [OF sample_set_ok] sample_list)

lemma sample_At: "i < 4 \<Longrightarrow> vals_At sample_set i = Some \<lparr>v_Address = word_of_nat (i + 1), v_Power = 1\<rparr>"
  by (auto simp: vals_At_def sample_list less_Suc_eq numeral_eq_Suc)

lemma sample_proposers:
  "ProposerOf sample_set 4 0 = 1" "ProposerOf sample_set 4 1 = 2"
  by (simp_all add: ProposerOf_def sample_list Let_def)

text \<open>The digests do not read the signature.\<close>

definition vote_digest :: "keccak \<Rightarrow> height \<Rightarrow> round \<Rightarrow> byte \<Rightarrow> hash \<Rightarrow> hash" where
  "vote_digest kec h r t b = VoteDigest kec h r \<lparr>vt_Type = t, vt_BlockHash = b, vt_Signature = 0\<rparr>"

definition proposal_digest :: "keccak \<Rightarrow> height \<Rightarrow> round \<Rightarrow> round \<Rightarrow> hash \<Rightarrow> hash" where
  "proposal_digest kec h r pol b =
     proposalDigest kec h r \<lparr>pr_POLRound = pol, pr_Block = [], pr_BlockHash = b, pr_Signature = 0\<rparr>"

lemma digests:
  "VoteDigest kec h r \<lparr>vt_Type = t, vt_BlockHash = b, vt_Signature = s\<rparr> = vote_digest kec h r t b"
  "proposalDigest kec h r \<lparr>pr_POLRound = pol, pr_Block = d, pr_BlockHash = b, pr_Signature = s\<rparr> =
     proposal_digest kec h r pol b"
  by (simp_all add: VoteDigest_def proposalDigest_def vote_digest_def proposal_digest_def)

text \<open>The certificate of a vote set, when there is one.\<close>

definition cert :: "vote_set \<Rightarrow> height \<Rightarrow> qc" where
  "cert vs h = the (QCOf vs h)"

lemma QCOf_cert: "vs_maxPower vs \<noteq> 0 \<Longrightarrow> QCOf vs h = Some (cert vs h)"
  and cert_hash: "vs_maxPower vs \<noteq> 0 \<Longrightarrow> qc_BlockHash (cert vs h) = vs_maxBlock vs"
  and cert_round: "vs_maxPower vs \<noteq> 0 \<Longrightarrow> qc_Round (cert vs h) = vs_round vs"
  by (simp_all add: cert_def QCOf_def Let_def)

lemmas consensus_eval = node_cfg_fields digests QCOf_cert cert_hash cert_round sample_Get_values sample_At
  sample_proposers sample_Quorum sample_list
  cons_exec.simps castVote.simps recordVote.simps onQuorum.simps enterNewRound.simps proposeCurrentRound.simps
  enterPrevote.simps StartNewHeight_def HandleMessage_def handleProposal_def handleVote_def
  OnTimeoutPropose_def OnTimeoutPrevote_def OnTimeoutPrecommit_def SetProposalMaker_def
  sign_vote_def sign_proposal_def own_message_def Broadcast_def lock_def new_round_def set_votes_def
  votes_of_def recordVoteTo_def val_power_def vs_add_def newVoteSet_def block_power_def nil_quorum_def
  commitCurrent_def CommitBlock_def proposal_body_def ok_def initial_state_def word_le_nat_alt word_less_nat_alt node_maker_def Let_def

lemma cons_run_step:
  "cons_exec cfg op s = Inr (s1, e) \<Longrightarrow> cons_run cfg ops s1 = r \<Longrightarrow> cons_run cfg (op # ops) s = r"
  by simp

text \<open>Validator 1 proposes its block, and votes of 2 and 3 let it commit it.\<close>

definition vote_message :: "(address \<Rightarrow> hash \<Rightarrow> signature) \<Rightarrow> keccak \<Rightarrow> address \<Rightarrow> round \<Rightarrow> byte \<Rightarrow> hash \<Rightarrow> message" where
  "vote_message signs kec a r ty h = \<lparr>m_Height = 4, m_Round = r, m_From = a,
     m_Body = BVote \<lparr>vt_Type = ty, vt_BlockHash = h, vt_Signature = signs a (vote_digest kec 4 r ty h)\<rparr>\<rparr>"

definition commit_ops :: "(address \<Rightarrow> hash \<Rightarrow> signature) \<Rightarrow> keccak \<Rightarrow> cons_op list" where
  "commit_ops signs kec =
     [OpMessage (vote_message signs kec 2 0 Prevote 1), OpMessage (vote_message signs kec 3 0 Prevote 1),
      OpMessage (vote_message signs kec 2 0 Precommit 1), OpMessage (vote_message signs kec 3 0 Precommit 1)]"

lemma commit_run:
  "\<exists>s. cons_run (node_cfg kec signs 1) (OpSetMaker (Some (node_maker 1)) # OpStart 4 0 # commit_ops signs kec) initial_state = Inr s
    \<and> cs_committed s = [([1], 4)] \<and> cs_step s = StepCommit"
  unfolding commit_ops_def vote_message_def
  apply (rule exI, rule conjI)
   apply (rule cons_run_step, (simp add: consensus_eval cong: let_weak_cong prod.case_cong_weak; fail))+
   apply (rule cons_run.simps(1))
  apply simp
  done

lemma node_cfg_valid: "a \<in> {1, 2, 3, 4} \<Longrightarrow> cfg_valid (node_cfg kec signs a)"
  using sample_Get [of a] by (simp add: cfg_valid_def node_cfg_fields sample_set_ok)

end
