(* ===== verification/ConsensusSafety.thy ===== *)
theory ConsensusSafety
  imports Consensus ConsensusEval "HOL-Library.Sublist"
begin

text \<open>Safety of the consensus state machine.\<close>

section \<open>The safety invariant\<close>

text \<open>Every recorded vote is of the right type and was seen; the tallies match the votes.\<close>

definition votes_ok :: "consensus_config \<Rightarrow> message set \<Rightarrow> height \<Rightarrow> round \<Rightarrow> byte \<Rightarrow> vote_set \<Rightarrow> bool" where
  "votes_ok cfg K h r ty vs \<longleftrightarrow> vote_set_ok (cfg_Validators cfg) vs \<and>
     (\<forall>a v. fmlookup (vs_votes vs) a = Some v \<longrightarrow> vt_Type v = ty \<and> vote_seen cfg K h r a v)"

definition sets_ok :: "consensus_config \<Rightarrow> message set \<Rightarrow> cons_state \<Rightarrow> bool" where
  "sets_ok cfg K s \<longleftrightarrow>
     (\<forall>ty vs. is_vote_type ty \<longrightarrow> votes_of ty s = Some vs \<longrightarrow> votes_ok cfg K (cs_height s) (cs_round s) ty vs)"

definition proposal_valid :: "consensus_config \<Rightarrow> message \<Rightarrow> proposal \<Rightarrow> bool" where
  "proposal_valid cfg m p \<longleftrightarrow> m_Body m = BProposal p \<and>
     m_From m = ProposerOf (cfg_Validators cfg) (m_Height m) (m_Round m) \<and>
     (m_From m = cfg_Self cfg \<or>
      cfg_Verify cfg (proposalDigest (cfg_keccak cfg) (m_Height m) (m_Round m) p) (pr_Signature p) (m_From m))"

definition proposal_ok :: "consensus_config \<Rightarrow> message set \<Rightarrow> cons_state \<Rightarrow> bool" where
  "proposal_ok cfg K s \<longleftrightarrow>
     (\<forall>m. cs_proposal s = Some m \<longrightarrow> m \<in> K \<and> m_Height m = cs_height s \<and> m_Round m = cs_round s \<and>
        (\<exists>p. proposal_valid cfg m p))"

definition caches_ok :: "message set \<Rightarrow> cons_state \<Rightarrow> bool" where
  "caches_ok M s \<longleftrightarrow>
     (\<forall>h m. fmlookup (cs_futureHeightProps s) h = Some m \<longrightarrow> m \<in> M \<and> m_Height m = h) \<and>
     (\<forall>r m. fmlookup (cs_futureProps s) r = Some m \<longrightarrow> m \<in> M \<and> m_Round m = r) \<and>
     (\<forall>m. cs_pendingSelf s = Some m \<longrightarrow> m \<in> M)"

text \<open>
  What stands behind a committed block: precommits of validators with the power of a quorum, or a
  certificate received from another node that passes \<open>VerifyQC\<close>.
\<close>

definition vote_backed :: "consensus_config \<Rightarrow> message set \<Rightarrow> height \<Rightarrow> round \<Rightarrow> hash \<Rightarrow> bool" where
  "vote_backed cfg K h r b \<longleftrightarrow>
     (\<exists>A. unat (Quorum (cfg_Validators cfg)) \<le> power_of (cfg_Validators cfg) A \<and>
        (\<forall>a\<in>A. \<exists>v. vt_Type v = Precommit \<and> vt_BlockHash v = b \<and> vote_seen cfg K h r a v))"

definition backed :: "consensus_config \<Rightarrow> message set \<Rightarrow> message set \<Rightarrow> height \<Rightarrow> round \<Rightarrow> hash \<Rightarrow> bool" where
  "backed cfg M K h r b \<longleftrightarrow> vote_backed cfg K h r b \<or>
     (\<exists>m qc. m \<in> M \<and> m_Body m = BQC qc \<and> VerifyQC cfg qc \<and> qc_Type qc = Precommit \<and>
        qc_Height qc = h \<and> qc_Round qc = r \<and> qc_BlockHash qc = b)"

definition justified :: "consensus_config \<Rightarrow> message set \<Rightarrow> message set \<Rightarrow> bytes \<times> height \<Rightarrow> bool" where
  "justified cfg M K c \<longleftrightarrow>
     (\<exists>m p. m \<in> K \<and> m_Height m = snd c \<and> proposal_valid cfg m p \<and> pr_Block p = fst c \<and>
        backed cfg M K (snd c) (m_Round m) (pr_BlockHash p))"

definition safe :: "consensus_config \<Rightarrow> message set \<Rightarrow> cons_state \<Rightarrow> bool" where
  "safe cfg M s \<longleftrightarrow> cfg_valid cfg \<and> sets_ok cfg (known M s) s \<and> proposal_ok cfg (known M s) s \<and>
     caches_ok M s \<and> (\<forall>c\<in>set (cs_committed s). justified cfg M (known M s) c)"

text \<open>Everything known stays known.\<close>

lemma vote_seen_mono: "vote_seen cfg K h r a v \<Longrightarrow> K \<subseteq> K' \<Longrightarrow> vote_seen cfg K' h r a v"
  by (auto simp: vote_seen_def)

lemma backed_mono: "backed cfg M K h r b \<Longrightarrow> K \<subseteq> K' \<Longrightarrow> backed cfg M K' h r b"
  using vote_seen_mono unfolding backed_def vote_backed_def by meson

lemma justified_mono: "justified cfg M K c \<Longrightarrow> K \<subseteq> K' \<Longrightarrow> justified cfg M K' c"
  using backed_mono unfolding justified_def by blast

lemma sets_ok_mono: "sets_ok cfg K s \<Longrightarrow> K \<subseteq> K' \<Longrightarrow> sets_ok cfg K' s"
  using vote_seen_mono unfolding sets_ok_def votes_ok_def by blast

lemma proposal_ok_mono: "proposal_ok cfg K s \<Longrightarrow> K \<subseteq> K' \<Longrightarrow> proposal_ok cfg K' s"
  unfolding proposal_ok_def by blast

text \<open>An update is safe when the fields the invariant reads are the same.\<close>

lemma safe_cong:
  assumes "safe cfg M s" "set (cs_sent s) \<subseteq> set (cs_sent s')" "cs_height s' = cs_height s"
    "cs_round s' = cs_round s" "cs_prevotes s' = cs_prevotes s" "cs_precommits s' = cs_precommits s"
    "cs_proposal s' = cs_proposal s" "caches_ok M s \<Longrightarrow> caches_ok M s'" "cs_committed s' = cs_committed s"
  shows "safe cfg M s'"
proof -
  have K: "known M s \<subseteq> known M s'" using assms(2) by (auto simp: known_def)
  have "sets_ok cfg K s' = sets_ok cfg K s" "proposal_ok cfg K s' = proposal_ok cfg K s" for K
    using assms(3-7) by (simp_all add: sets_ok_def proposal_ok_def votes_of_def)
  then show ?thesis
    using assms(1,8,9) sets_ok_mono [OF _ K] proposal_ok_mono [OF _ K] justified_mono [OF _ K]
    by (simp add: safe_def)
qed

lemma safe_tally:
  assumes s: "safe cfg M s" and ty: "is_vote_type ty" and vs: "votes_of ty s = Some vs" and v: "vt_Type v = ty"
    and seen: "vote_seen cfg (known M s) (cs_height s) (cs_round s) a v"
    and i: "vals_Get (cfg_Validators cfg) a = Some i"
    and add: "vs_add vs v a (v_Power (vals_list (cfg_Validators cfg) ! i)) (Quorum (cfg_Validators cfg)) = Inr (vs', q)"
  shows "safe cfg M (set_votes ty vs' s)"
proof -
  have old: "votes_ok cfg (known M s) (cs_height s) (cs_round s) ty vs"
    using s ty vs by (simp add: safe_def sets_ok_def)
  have V: "valset_ok (cfg_Validators cfg)" using s by (simp add: safe_def cfg_valid_def)
  have "votes_ok cfg (known M s) (cs_height s) (cs_round s) ty vs'"
    using old vs_add_ok [OF V _ i add] seen v by (simp add: votes_ok_def vs_add_Inr(2) [OF add])
  then have "sets_ok cfg (known M s) (set_votes ty vs' s)"
    using s ty by (auto simp: safe_def sets_ok_def is_vote_type_def)
  moreover have "proposal_ok cfg K (set_votes ty vs' s) = proposal_ok cfg K s" for K
    by (simp add: proposal_ok_def)
  ultimately show ?thesis using s by (simp add: safe_def caches_ok_def known_def)
qed

lemma safe_round:
  "safe cfg M s \<Longrightarrow> cs_height s' = h \<Longrightarrow> cs_round s' = r \<Longrightarrow> cs_prevotes s' = Some (newVoteSet Prevote r) \<Longrightarrow>
   cs_precommits s' = Some (newVoteSet Precommit r) \<Longrightarrow> cs_proposal s' = None \<Longrightarrow> cs_sent s' = cs_sent s \<Longrightarrow>
   cs_committed s' = cs_committed s \<Longrightarrow> (caches_ok M s \<Longrightarrow> caches_ok M s') \<Longrightarrow> safe cfg M s'"
  by (auto simp: safe_def sets_ok_def votes_ok_def votes_of_def proposal_ok_def known_def newVoteSet_ok)
    (auto simp: newVoteSet_def)

lemma proposal_body_Some: "proposal_body m = Some p \<longleftrightarrow> (\<exists>m'. m = Some m' \<and> m_Body m' = BProposal p)"
  by (auto simp: proposal_body_def split: option.splits body.splits)

text \<open>Committing the block of the proposal, when it is backed.\<close>

lemma safe_commit:
  assumes s: "safe cfg M s" and m: "cs_proposal s = Some m" "m_Body m = BProposal p"
    and b: "backed cfg M (known M s) (cs_height s) (cs_round s) (pr_BlockHash p)"
  shows "safe cfg M (CommitBlock cfg (pr_Block p) s)"
proof -
  have "justified cfg M (known M s) (pr_Block p, cs_height s)"
    using s m b by (auto simp: safe_def proposal_ok_def justified_def proposal_valid_def)
  then show ?thesis using s
    by (auto simp: CommitBlock_def safe_def sets_ok_def proposal_ok_def caches_ok_def known_def votes_of_def)
qed

lemma safe_commitByHash:
  assumes "safe cfg M s" "backed cfg M (known M s) (cs_height s) (cs_round s) h"
  shows "safe cfg M (commitByHash cfg h s)"
proof (cases "proposal_body (cs_proposal s)")
  case (Some p)
  then obtain m where m: "cs_proposal s = Some m" "m_Body m = BProposal p" by (auto simp: proposal_body_Some)
  show ?thesis
  proof (cases "pr_BlockHash p = h")
    case True
    then have "safe cfg M (CommitBlock cfg (pr_Block p) s)" using safe_commit [OF assms(1) m] assms(2) by simp
    then show ?thesis using Some True
      by (auto simp: commitByHash_def caches_ok_def elim: safe_cong)
  qed (use assms(1) Some in \<open>simp add: commitByHash_def\<close>)
qed (use assms(1) in \<open>simp add: commitByHash_def\<close>)

lemma safe_commitCurrent:
  assumes "safe cfg M s" "backed cfg M (known M s) (cs_height s) (cs_round s) (qc_BlockHash qc)"
  shows "safe cfg M (commitCurrent cfg qc s)"
proof -
  let ?s = "s\<lparr>cs_step := StepCommit\<rparr>"
  have s: "safe cfg M ?s" by (rule safe_cong [OF assms(1)]) (simp_all add: caches_ok_def)
  show ?thesis
  proof (cases "proposal_body (cs_proposal s)")
    case (Some p)
    then obtain m where m: "cs_proposal ?s = Some m" "m_Body m = BProposal p" by (auto simp: proposal_body_Some)
    show ?thesis
    proof (cases "pr_BlockHash p = qc_BlockHash qc")
      case True
      then have "safe cfg M (CommitBlock cfg (pr_Block p) ?s)"
        using safe_commit [OF s m] assms(2) by (simp add: known_def)
      then show ?thesis using Some True
        by (auto simp: commitCurrent_def Let_def caches_ok_def elim: safe_cong)
    qed (use s Some in \<open>simp add: commitCurrent_def Let_def\<close>)
  qed (use s in \<open>simp add: commitCurrent_def Let_def\<close>)
qed

section \<open>The machine keeps it\<close>

lemma backed_quorum:
  assumes s: "safe cfg M s" and vs: "cs_precommits s = Some vs" "Quorum (cfg_Validators cfg) \<le> vs_maxPower vs"
    and qc: "QCOf vs (cs_height s) = Some qc"
  shows "backed cfg M (known M s) (cs_height s) (cs_round s) (qc_BlockHash qc)"
proof -
  let ?V = "cfg_Validators cfg" and ?b = "vs_maxBlock vs"
  have "votes_of Precommit s = Some vs" using vs(1) by (simp add: votes_of_def)
  then have ok: "votes_ok cfg (known M s) (cs_height s) (cs_round s) Precommit vs"
    using s by (simp add: safe_def sets_ok_def)
  note q = QCOf_signers [OF qc]
  have "?b \<noteq> 0 \<and> block_power vs ?b = vs_maxPower vs"
    using ok q(6) by (simp add: votes_ok_def vote_set_ok_def)
  then have "unat (vs_maxPower vs) = power_of ?V (voters vs ?b)"
    using ok unfolding votes_ok_def vote_set_ok_def by metis
  then have "unat (Quorum ?V) \<le> power_of ?V (voters vs ?b)" using vs(2) by (simp add: word_le_nat_alt)
  moreover have "\<exists>v. vt_Type v = Precommit \<and> vt_BlockHash v = ?b \<and>
      vote_seen cfg (known M s) (cs_height s) (cs_round s) a v" if "a \<in> voters vs ?b" for a
    using that ok by (auto simp: voters_def votes_ok_def)
  ultimately show ?thesis unfolding backed_def vote_backed_def q(4) by blast
qed

lemma safe_sent: "safe cfg M s \<Longrightarrow> safe cfg M (Broadcast m s)"
  by (rule safe_cong) (auto simp: caches_ok_def)

lemma safe_step: "safe cfg M s \<Longrightarrow> safe cfg M (s\<lparr>cs_step := st\<rparr>)"
  by (rule safe_cong) (auto simp: caches_ok_def)

lemma safe_lock: "safe cfg M s \<Longrightarrow> safe cfg M (lock cfg qc s)"
  by (rule safe_cong) (auto simp: caches_ok_def)

lemma safe_precommitQC: "safe cfg M s \<Longrightarrow> safe cfg M (s\<lparr>cs_anyPrecommitQC := q\<rparr>)"
  by (rule safe_cong) (auto simp: caches_ok_def)

lemma safe_new_proposal:
  assumes "safe cfg M s" "m \<in> M \<union> set l" "m_Height m = cs_height s" "m_Round m = cs_round s" "proposal_valid cfg m p"
  shows "safe cfg M (s\<lparr>cs_sent := cs_sent s @ l, cs_proposal := Some m\<rparr>)"
proof -
  have "safe cfg M (s\<lparr>cs_sent := cs_sent s @ l\<rparr>)"
    by (rule safe_cong [OF assms(1)]) (auto simp: caches_ok_def)
  then show ?thesis
    using assms(2-5) by (auto simp: safe_def sets_ok_def proposal_ok_def votes_of_def caches_ok_def known_def)
qed

lemma started_frame [simp]:
  "started (Broadcast m s) = started s" "started (lock cfg qc s) = started s" "started (new_round r s)"
  "started (s\<lparr>cs_step := st\<rparr>) = started s" "started (s\<lparr>cs_anyPrecommitQC := q\<rparr>) = started s"
  "started (s\<lparr>cs_proposal := pm\<rparr>) = started s" "started (s\<lparr>cs_lastCommitted := h\<rparr>) = started s"
  "started s \<Longrightarrow> started (set_votes ty vs s)"
  by (auto simp: started_def set_votes_def)

lemma commit_frame [simp]:
  "cs_height (CommitBlock cfg d s) = cs_height s" "cs_round (CommitBlock cfg d s) = cs_round s"
  "cs_prevotes (CommitBlock cfg d s) = cs_prevotes s" "cs_precommits (CommitBlock cfg d s) = cs_precommits s"
  "cs_height (commitByHash cfg h s) = cs_height s" "cs_round (commitByHash cfg h s) = cs_round s"
  "cs_prevotes (commitByHash cfg h s) = cs_prevotes s" "cs_precommits (commitByHash cfg h s) = cs_precommits s"
  "cs_height (commitCurrent cfg qc s) = cs_height s" "cs_round (commitCurrent cfg qc s) = cs_round s"
  "cs_prevotes (commitCurrent cfg qc s) = cs_prevotes s" "cs_precommits (commitCurrent cfg qc s) = cs_precommits s"
  "cs_sent (CommitBlock cfg d s) = cs_sent s" "cs_sent (commitByHash cfg h s) = cs_sent s"
  "cs_sent (commitCurrent cfg qc s) = cs_sent s"
  by (simp_all add: CommitBlock_def commitByHash_def commitCurrent_def Let_def split: option.split)

lemma started_commit [simp]:
  "started (commitByHash cfg h s) = started s" "started (commitCurrent cfg qc s) = started s"
  by (simp_all add: started_def)

interpretation safety: cons_invariant cfg M "\<lambda>s. safe cfg M s \<and> started s" for cfg M
proof (unfold_locales, goal_cases)
  case (1 s)
  then show ?case by (simp add: safe_def)
next
  case (2 s ty vs v a i vs' q)
  then show ?case using safe_tally by auto
next
  case (3 s h)
  then show ?case by (auto intro!: safe_sent safe_step)
next
  case (4 s h qc)
  then show ?case by (auto intro!: safe_sent safe_step safe_lock)
next
  case (5 s ty)
  then show ?case by (auto intro!: safe_sent)
next
  case (6 s)
  then show ?case by (auto intro!: safe_step)
next
  case (7 s qc)
  then show ?case by (auto intro!: safe_sent)
next
  case (8 s r)
  then have s: "safe cfg M s" by simp
  have "safe cfg M (new_round r s)" by (rule safe_round [OF s]) (auto simp: caches_ok_def)
  then show ?case by simp
next
  case (9 s r m)
  then have s: "safe cfg M s" by simp
  have "safe cfg M (s\<lparr>cs_futureProps := fmdrop r (cs_futureProps s), cs_pendingSelf := Some m\<rparr>)"
    by (rule safe_cong [OF s]) (use 9 in \<open>auto simp: caches_ok_def split: if_splits\<close>)
  then show ?case using 9 by (simp add: started_def)
next
  case (10 s msg p)
  then have "safe cfg M ((Broadcast msg s)\<lparr>cs_proposal := Some msg\<rparr>)"
    using safe_new_proposal [of cfg M s msg "[msg]" p]
    by (simp add: Broadcast_def own_message_def proposal_valid_def)
  then show ?case using 10 by simp
next
  case (11 s vs qc)
  then have "backed cfg M (known M s) (cs_height s) (cs_round s) (qc_BlockHash qc)" using backed_quorum by blast
  then show ?case using 11 safe_commitCurrent [OF safe_precommitQC, of cfg M s "Some qc" qc] by (simp add: known_def)
next
  case (12 s m qc)
  then have "backed cfg M (known M s) (cs_height s) (cs_round s) (qc_BlockHash qc)"
    unfolding backed_def by blast
  then show ?case using 12 safe_commitByHash [OF safe_precommitQC, of cfg M s "Some qc" "qc_BlockHash qc"]
    by (simp add: known_def)
next
  case (13 s m p)
  then have "safe cfg M (s\<lparr>cs_proposal := Some m\<rparr>)"
    using safe_new_proposal [of cfg M s m "[]" p] by (simp add: proposal_valid_def)
  then show ?case using 13 by simp
next
  case (14 s m p)
  then have s: "safe cfg M s" by simp
  have "safe cfg M (s\<lparr>cs_futureProps := fmupd (m_Round m) m (cs_futureProps s)\<rparr>)"
    by (rule safe_cong [OF s]) (use 14 in \<open>auto simp: caches_ok_def split: if_splits\<close>)
  then show ?case using 14 by (simp add: started_def)
next
  case (15 s m p)
  then have s: "safe cfg M s" by simp
  have "safe cfg M (s\<lparr>cs_futureHeightProps := fmupd (m_Height m) m (cs_futureHeightProps s)\<rparr>)"
    by (rule safe_cong [OF s]) (use 15 in \<open>auto simp: caches_ok_def split: if_splits\<close>)
  then show ?case using 15 by (simp add: started_def)
next
  case (16 s fn)
  then have s: "safe cfg M s" by simp
  have "safe cfg M (s\<lparr>cs_makeProposal := fn\<rparr>)"
    by (rule safe_cong [OF s]) (use 16 in \<open>auto simp: caches_ok_def split: if_splits\<close>)
  then show ?case using 16 by (simp add: started_def)
next
  case (17 s)
  then have s: "safe cfg M s" by simp
  have "safe cfg M (s\<lparr>cs_pendingSelf := None\<rparr>)"
    by (rule safe_cong [OF s]) (use 17 in \<open>auto simp: caches_ok_def split: if_splits\<close>)
  then show ?case using 17 by (simp add: started_def)
qed

section \<open>Properties of runs\<close>

text \<open>
  What is sent, committed and done within a height. A property that only depends on the two logs, the
  height, the round and the step need not follow the operations through the vote sets, the caches and the
  locks: these few laws, beside the safety invariant, are enough for every operation to keep it.
\<close>

lemma commit_effect:
  "prefix (cs_committed s) (cs_committed (commitCurrent cfg qc s))"
  "prefix (cs_committed s) (cs_committed (commitByHash cfg h s))"
  "cs_step (commitCurrent cfg qc s) = StepCommit"
  "cs_step (commitByHash cfg h s) = StepCommit \<or> cs_step (commitByHash cfg h s) = cs_step s"
  by (simp_all add: commitCurrent_def commitByHash_def CommitBlock_def Let_def split: option.split)

locale run_property =
  fixes cfg :: consensus_config and M :: "message set" and Q :: "cons_state \<Rightarrow> bool"
  assumes Q_logs: "Q s \<Longrightarrow> cs_sent s' = cs_sent s \<Longrightarrow> prefix (cs_committed s) (cs_committed s') \<Longrightarrow>
      cs_height s' = cs_height s \<Longrightarrow> cs_round s' = cs_round s \<Longrightarrow>
      cs_step s' = cs_step s \<or> cs_step s' \<in> {StepPrecommit, StepCommit} \<Longrightarrow> Q s'"
    and Q_vote: "Q s \<Longrightarrow> typ = Prevote \<and> cs_step s = StepPropose \<and> st = StepPrevote \<or>
      typ = Precommit \<and> (cs_step s = StepPropose \<or> cs_step s = StepPrevote) \<and> st = StepPrecommit \<Longrightarrow>
      Q (Broadcast (own_message cfg s (BVote (sign_vote cfg s typ h))) (s\<lparr>cs_step := st\<rparr>))"
    and Q_send: "Q s \<Longrightarrow> case b of BVote v \<Rightarrow> \<exists>typ. is_vote_type typ \<and> v = sign_vote cfg s typ 0 | _ \<Rightarrow> True \<Longrightarrow>
      Q (Broadcast (own_message cfg s b) s)"
    and Q_round: "Q s \<Longrightarrow> cs_round s < r \<Longrightarrow> Q (new_round r s)"
begin

lemma Q_same:
  "Q s \<Longrightarrow> cs_sent s' = cs_sent s \<Longrightarrow> cs_committed s' = cs_committed s \<Longrightarrow> cs_height s' = cs_height s \<Longrightarrow>
   cs_round s' = cs_round s \<Longrightarrow> cs_step s' = cs_step s \<Longrightarrow> Q s'"
  by (rule Q_logs [of s s']) simp_all

lemma Q_precommit:
  assumes "Q s" "cs_step s = StepPropose \<or> cs_step s = StepPrevote"
  shows "Q (Broadcast (own_message cfg s (BVote (sign_vote cfg s Precommit h))) ((lock cfg qc s)\<lparr>cs_step := StepPrecommit\<rparr>))"
  by (rule Q_same [OF Q_vote [OF assms(1), of Precommit StepPrecommit h]]) (use assms(2) in \<open>simp_all add: Broadcast_def lock_def\<close>)

lemma Q_commit:
  assumes "Q s"
  shows "Q (commitCurrent cfg qc (s\<lparr>cs_anyPrecommitQC := qcs\<rparr>))" "Q (commitByHash cfg h (s\<lparr>cs_anyPrecommitQC := qcs\<rparr>))"
  using commit_effect [where cfg = cfg and s = "s\<lparr>cs_anyPrecommitQC := qcs\<rparr>"] by (auto intro!: Q_logs [OF assms])

lemma Q_propose:
  assumes "Q s"
  shows "Q ((Broadcast (own_message cfg s (BProposal p)) s)\<lparr>cs_proposal := Some m\<rparr>)"
  by (rule Q_same [OF Q_send [OF assms, of "BProposal p"]]) simp_all

end

sublocale run_property \<subseteq> cons_invariant cfg M "\<lambda>s. (safe cfg M s \<and> started s) \<and> Q s"
proof (unfold_locales, goal_cases)
  case (1 s)
  then show ?case using safety.P_started by blast
next
  case (2 s ty vs v a i vs' q)
  then show ?case using safety.P_tally [of cfg M s ty vs v a i vs' q] by (auto elim: Q_same simp: set_votes_def)
next
  case (3 s h)
  then show ?case using safety.P_prevote [of cfg M s h] Q_vote [of s Prevote StepPrevote h] by blast
next
  case (4 s h qc)
  then show ?case using safety.P_precommit [of cfg M s h qc] Q_precommit by blast
next
  case (5 s ty)
  then show ?case using safety.P_nil [of cfg M s ty] Q_send [of s "BVote (sign_vote cfg s ty 0)"] by auto
next
  case (6 s)
  then show ?case using safety.P_leave [of cfg M s] by (auto elim: Q_logs)
next
  case (7 s qc)
  then show ?case using safety.P_send_qc [of cfg M s qc] Q_send [of s "BQC qc"] by auto
next
  case (8 s r)
  then show ?case using safety.P_round [of cfg M s r] Q_round by blast
next
  case (9 s r m)
  then show ?case using safety.P_cached [of cfg M s r m] by (auto elim: Q_same)
next
  case (10 s msg p)
  then show ?case using safety.P_propose [of cfg M s msg p] Q_propose by blast
next
  case (11 s vs qc)
  then show ?case using safety.P_commit [of cfg M s vs qc] Q_commit by blast
next
  case (12 s m qc)
  then show ?case using safety.P_commit_qc [of cfg M s m qc] Q_commit by blast
next
  case (13 s m p)
  then show ?case using safety.P_accept [of cfg M s m p] by (auto elim: Q_same)
next
  case (14 s m p)
  then show ?case using safety.P_cache [of cfg M s m p] by (auto elim: Q_same)
next
  case (15 s m p)
  then show ?case using safety.P_cache_height [of cfg M s m p] by (auto elim: Q_same)
next
  case (16 s fn)
  then show ?case using safety.P_maker [of cfg M s fn] by (auto elim: Q_same)
next
  case (17 s)
  then show ?case using safety.P_pending [of cfg M s] by (auto elim: Q_same)
qed

section \<open>Runs\<close>

definition idle :: "cons_state \<Rightarrow> bool" where
  "idle s \<longleftrightarrow> cs_step s = StepNewHeight \<and> cs_prevotes s = None \<and> cs_precommits s = None"

lemma start_safe:
  assumes s: "safe cfg M s"
  shows "\<exists>s' e. StartNewHeight cfg h ts s = Inr (s', e) \<and> safe cfg M s' \<and>
    (started s' \<or> s' = s \<and> e = Some ErrOldHeight)"
proof (cases "h \<le> cs_lastCommitted s \<and> cs_lastCommitted s > 0")
  case True
  then show ?thesis using s by (simp add: StartNewHeight_def)
next
  case h: False
  let ?t = "(new_round 0 s)\<lparr>cs_height := h, cs_lockedHash := 0, cs_lockedRound := 0\<rparr>"
  have t: "safe cfg M ?t" "started ?t"
    by (rule safe_round [OF s], auto simp: caches_ok_def started_def)
  have "\<exists>s' e. StartNewHeight cfg h ts s = Inr (s', e) \<and> safe cfg M s' \<and> started s'"
  proof (rule safety.StartNewHeight_keeps [OF refl _ _ h])
    show "safe cfg M ?t \<and> started ?t" using t by simp
    show "safe cfg M (?t\<lparr>cs_futureHeightProps := fmdrop h (cs_futureHeightProps s), cs_pendingSelf := Some m\<rparr>) \<and>
        started (?t\<lparr>cs_futureHeightProps := fmdrop h (cs_futureHeightProps s), cs_pendingSelf := Some m\<rparr>)"
      if "fmlookup (cs_futureHeightProps s) h = Some m" for m
    proof
      show "safe cfg M (?t\<lparr>cs_futureHeightProps := fmdrop h (cs_futureHeightProps s), cs_pendingSelf := Some m\<rparr>)"
        by (rule safe_cong [OF t(1)]) (use that s in \<open>auto simp: caches_ok_def safe_def split: if_splits\<close>)
    qed (simp add: started_def)
  qed
  then show ?thesis by blast
qed

lemma exec_safe_idle:
  assumes s: "safe cfg M s" "idle s" and op: "\<forall>h ts. op \<noteq> OpStart h ts" "\<forall>m. op = OpMessage m \<longrightarrow> m \<in> M"
    and e: "cons_exec cfg op s = Inr (s', e)"
  shows "safe cfg M s' \<and> idle s'"
proof -
  have cached: "safe cfg M (s\<lparr>cs_futureProps := fmupd (m_Round m) m (cs_futureProps s)\<rparr>)"
    "safe cfg M (s\<lparr>cs_futureHeightProps := fmupd (m_Height m) m (cs_futureHeightProps s)\<rparr>)" if "m \<in> M" for m
    by (rule safe_cong [OF s(1)], use that in \<open>auto simp: caches_ok_def\<close>)+
  have other: "safe cfg M (s\<lparr>cs_makeProposal := fn\<rparr>)" "safe cfg M (s\<lparr>cs_pendingSelf := None\<rparr>)" for fn
    by (rule safe_cong [OF s(1)], auto simp: caches_ok_def)+
  show ?thesis
  proof (cases op)
    case (OpMessage m)
    have votes: "votes_of ty s = None" for ty using s(2) by (simp add: idle_def votes_of_def)
    show ?thesis using e op(2) s cached [of m] unfolding OpMessage
      by (auto simp: HandleMessage_def handleProposal_def handleVote_def handleQC_def idle_def votes
          split: if_splits option.splits body.splits)
  qed (use op(1) e s other in \<open>auto simp: idle_def OnTimeoutPropose_def OnTimeoutPrevote_def
      OnTimeoutPrecommit_def SetProposalMaker_def TakePendingSelf_def\<close>)
qed

lemma exec_safe:
  assumes "safe cfg M s" "started s \<or> idle s" "\<forall>m. op = OpMessage m \<longrightarrow> m \<in> M" "cons_exec cfg op s = Inr (s', e)"
  shows "safe cfg M s' \<and> (started s' \<or> idle s')"
proof (cases "\<exists>h ts. op = OpStart h ts")
  case True
  then obtain h ts where "op = OpStart h ts" by blast
  then show ?thesis using start_safe [OF assms(1), of h ts] assms(2,4) by auto
next
  case False
  show ?thesis
  proof (cases "started s")
    case True
    then show ?thesis using safety.exec_keeps [of cfg M s op] assms False by auto
  next
    case False2: False
    then show ?thesis using exec_safe_idle [OF assms(1) _ _ assms(3,4)] assms(2) False by blast
  qed
qed

lemma run_safe:
  "safe cfg M s \<Longrightarrow> started s \<or> idle s \<Longrightarrow> \<forall>m. OpMessage m \<in> set ops \<longrightarrow> m \<in> M \<Longrightarrow> cons_run cfg ops s = Inr s' \<Longrightarrow>
   safe cfg M s' \<and> (started s' \<or> idle s')"
proof (induction ops arbitrary: s)
  case (Cons op ops)
  then obtain s1 e where s1: "cons_exec cfg op s = Inr (s1, e)" "cons_run cfg ops s1 = Inr s'"
    by (auto simp: and_then_Inr_iff)
  then have "safe cfg M s1 \<and> (started s1 \<or> idle s1)"
    using exec_safe [OF Cons.prems(1,2) _ s1(1)] Cons.prems(3) by simp
  then show ?case using Cons.IH [of s1] Cons.prems(3) s1(2) by simp
qed simp

lemma initial_safe: "cfg_valid cfg \<Longrightarrow> safe cfg M initial_state \<and> idle initial_state"
  by (simp add: safe_def sets_ok_def proposal_ok_def caches_ok_def idle_def initial_state_def votes_of_def)



text \<open>
  Two quorums for different blocks share validators, by the arithmetic of \<open>Quorum\<close>: more than a third of the
  power, or at least the third rounded down when the power leaves remainder 2.
\<close>

definition both_signed :: "consensus_config \<Rightarrow> message set \<Rightarrow> consensus_config \<Rightarrow> message set \<Rightarrow> height \<Rightarrow> round \<Rightarrow>
    hash \<Rightarrow> hash \<Rightarrow> address set" where
  "both_signed cfg K cfg' K' h r b b' =
     {a. (\<exists>v. vt_Type v = Precommit \<and> vt_BlockHash v = b \<and> vote_seen cfg K h r a v) \<and>
         (\<exists>v. vt_Type v = Precommit \<and> vt_BlockHash v = b' \<and> vote_seen cfg' K' h r a v)}"

definition third_of :: "validator_set \<Rightarrow> address set \<Rightarrow> bool" where
  "third_of V A \<longleftrightarrow> (let T = unat (TotalPower V) in
     if T mod 3 = 2 then T div 3 \<le> power_of V A else T < 3 * power_of V A)"

lemma third_arith:
  fixes t p :: nat
  assumes "2 * (2 * (t div 3) + 1) \<le> t + p"
  shows "if t mod 3 = 2 then t div 3 \<le> p else t < 3 * p"
proof -
  define q r where "q = t div 3" and "r = t mod 3"
  have "t = 3 * q + r" "r < 3" by (simp_all add: q_def r_def)
  then show ?thesis using assms unfolding q_def [symmetric] r_def [symmetric] by (cases "r = 2") auto
qed

lemma quorums_overlap:
  assumes V: "valset_ok (cfg_Validators cfg)" "cfg_Validators cfg' = cfg_Validators cfg"
    and b: "vote_backed cfg K h r b" "vote_backed cfg' K' h r b'"
  shows "third_of (cfg_Validators cfg) (both_signed cfg K cfg' K' h r b b')"
proof -
  let ?V = "cfg_Validators cfg" and ?S = "both_signed cfg K cfg' K' h r b b'"
  obtain A where A: "unat (Quorum ?V) \<le> power_of ?V A"
    "\<forall>a\<in>A. \<exists>v. vt_Type v = Precommit \<and> vt_BlockHash v = b \<and> vote_seen cfg K h r a v"
    using b(1) unfolding vote_backed_def by blast
  obtain B where B: "unat (Quorum ?V) \<le> power_of ?V B"
    "\<forall>a\<in>B. \<exists>v. vt_Type v = Precommit \<and> vt_BlockHash v = b' \<and> vote_seen cfg' K' h r a v"
    using b(2) unfolding vote_backed_def V(2) by blast
  have "A \<inter> B \<subseteq> ?S" using A(2) B(2) unfolding both_signed_def by blast
  then have "2 * unat (Quorum ?V) \<le> unat (TotalPower ?V) + power_of ?V ?S"
    using A(1) B(1) power_of_Un_Int [of ?V A B] power_of_total [OF V(1), of "A \<union> B"] power_of_mono [of "A \<inter> B" ?S ?V]
    by (simp add: TotalPower_def)
  then show ?thesis unfolding third_of_def Quorum_value Let_def by (rule third_arith)
qed

lemma justified_votes:
  assumes "justified cfg M K (b, h)" "\<forall>m\<in>M. \<forall>qc. m_Body m \<noteq> BQC qc"
  obtains m p where "m \<in> K" "m_Height m = h" "proposal_valid cfg m p" "pr_Block p = b"
    "vote_backed cfg K h (m_Round m) (pr_BlockHash p)"
  using assms unfolding justified_def backed_def by force

definition no_certificate :: "cons_op list \<Rightarrow> bool" where
  "no_certificate ops \<longleftrightarrow> list_all (\<lambda>op. case op of OpMessage m \<Rightarrow> (case m_Body m of BQC _ \<Rightarrow> False | _ \<Rightarrow> True) | _ \<Rightarrow> True) ops"

lemma run_justified:
  assumes "cfg_valid cfg" "cons_run cfg ops initial_state = Inr s" "no_certificate ops" "(b, h) \<in> set (cs_committed s)"
  obtains m p where "m \<in> known {m. OpMessage m \<in> set ops} s" "m_Height m = h" "proposal_valid cfg m p" "pr_Block p = b"
    "vote_backed cfg (known {m. OpMessage m \<in> set ops} s) h (m_Round m) (pr_BlockHash p)"
proof -
  let ?M = "{m. OpMessage m \<in> set ops}"
  have "safe cfg ?M s" using run_safe [OF _ _ _ assms(2), of ?M] initial_safe [OF assms(1)] by blast
  then have "justified cfg ?M (known ?M s) (b, h)" using assms(4) by (auto simp: safe_def)
  moreover have "\<forall>m\<in>?M. \<forall>qc. m_Body m \<noteq> BQC qc"
    using assms(3) by (fastforce simp: no_certificate_def list_all_iff)
  ultimately show thesis using that by (rule justified_votes)
qed


section \<open>Witnesses\<close>



text \<open>
  Validator 1 proposes its block to itself and another one to validator 4, and 2 and 3 vote for both.
\<close>

definition other_ops :: "(address \<Rightarrow> hash \<Rightarrow> signature) \<Rightarrow> keccak \<Rightarrow> cons_op list" where
  "other_ops signs kec =
     [OpMessage \<lparr>m_Height = 4, m_Round = 0, m_From = 1, m_Body = BProposal \<lparr>pr_POLRound = NoPOLRound, pr_Block = [2],
        pr_BlockHash = 2, pr_Signature = signs 1 (proposal_digest kec 4 0 NoPOLRound 2)\<rparr>\<rparr>,
      OpMessage (vote_message signs kec 2 0 Prevote 2), OpMessage (vote_message signs kec 3 0 Prevote 2),
      OpMessage (vote_message signs kec 2 0 Precommit 2), OpMessage (vote_message signs kec 3 0 Precommit 2)]"

text \<open>The proposals a node knows after a run are those it received and those it sent.\<close>

definition knows_only :: "message set \<Rightarrow> round \<Rightarrow> hash \<Rightarrow> bool" where
  "knows_only K r b \<longleftrightarrow> (\<forall>m\<in>K. \<forall>p. m_Body m = BProposal p \<longrightarrow> m_Round m = r \<and> pr_BlockHash p = b)"

lemma first_run:
  "\<exists>s. cons_run (node_cfg kec signs 1) (OpSetMaker (Some (node_maker 1)) # OpStart 4 0 # commit_ops signs kec) initial_state = Inr s
    \<and> cs_committed s = [([1], 4)] \<and> knows_only (set (cs_sent s)) 0 1"
  unfolding commit_ops_def vote_message_def
  apply (rule exI, rule conjI)
   apply (rule cons_run_step, (simp add: consensus_eval cong: let_weak_cong prod.case_cong_weak; fail))+
   apply (rule cons_run.simps(1))
  apply (simp add: knows_only_def)
  done

lemma other_run:
  "\<exists>s. cons_run (node_cfg kec signs 4) (OpStart 4 0 # other_ops signs kec) initial_state = Inr s
    \<and> cs_committed s = [([2], 4)] \<and> knows_only (set (cs_sent s)) 0 2"
  unfolding other_ops_def vote_message_def
  apply (rule exI, rule conjI)
   apply (rule cons_run_step, (simp add: consensus_eval cong: let_weak_cong prod.case_cong_weak; fail))+
   apply (rule cons_run.simps(1))
  apply (simp add: knows_only_def)
  done


end
