(* ===== verification/ConsensusRounds.thy ===== *)
theory ConsensusRounds
  imports ConsensusSafety ConsensusEval
begin

text \<open>
  What a node does within one height: its rounds only grow, timeouts alone lead to the next round,
  and it broadcasts at most one vote of each type for a block in a round.
\<close>

section \<open>Rounds grow\<close>

definition later :: "cons_state \<Rightarrow> cons_state \<Rightarrow> bool" where
  "later s0 s \<longleftrightarrow> cs_height s = cs_height s0 \<and> cs_step s \<noteq> StepNewHeight \<and> cs_round s0 \<le> cs_round s \<and>
     (cs_round s = cs_round s0 \<longrightarrow> cs_step s0 \<noteq> StepPropose \<longrightarrow> cs_step s \<noteq> StepPropose)"

lemma later_refl: "cs_step s \<noteq> StepNewHeight \<Longrightarrow> later s s"
  by (simp add: later_def)

lemma later_same:
  "later s0 s \<Longrightarrow> cs_height s' = cs_height s \<Longrightarrow> cs_round s' = cs_round s \<Longrightarrow>
   cs_step s' = cs_step s \<or> cs_step s' \<notin> {StepNewHeight, StepPropose} \<Longrightarrow> later s0 s'"
  unfolding later_def by auto

lemma later_round: "later s0 s \<Longrightarrow> cs_round s < r \<Longrightarrow> later s0 (new_round r s)"
  unfolding later_def by (auto dest: order.strict_trans1)

interpretation progress: run_property cfg M "later s0" for cfg M s0
  by unfold_locales (auto elim: later_same later_round)

section \<open>Timeouts\<close>

definition running :: "consensus_config \<Rightarrow> message set \<Rightarrow> cons_state \<Rightarrow> bool" where
  "running cfg M s \<longleftrightarrow> safe cfg M s \<and> started s \<and> cs_step s \<noteq> StepNewHeight"

lemma running_later: "running cfg M s \<Longrightarrow> (safe cfg M s \<and> started s) \<and> later s s"
  by (simp add: running_def later_refl)

lemma later_running: "safe cfg M s \<and> started s \<Longrightarrow> later s0 s \<Longrightarrow> running cfg M s"
  by (simp add: running_def later_def)

lemma later_cases:
  "later s0 s \<Longrightarrow> cs_step s0 \<noteq> StepPropose \<Longrightarrow>
   cs_round s0 < cs_round s \<or> cs_round s = cs_round s0 \<and> cs_step s \<notin> {StepPropose, StepNewHeight}"
  unfolding later_def by auto

lemma timeout_elsewhere:
  "cs_round s \<noteq> r \<Longrightarrow> OnTimeoutPropose cfg r s = Inr (s, None)"
  "cs_round s \<noteq> r \<Longrightarrow> OnTimeoutPrevote cfg r s = Inr (s, None)"
  "cs_round s \<noteq> r \<Longrightarrow> OnTimeoutPrecommit cfg r s = Inr (s, None)"
  by (simp_all add: OnTimeoutPropose_def OnTimeoutPrevote_def OnTimeoutPrecommit_def)

lemma timeout_propose:
  assumes s: "running cfg M s"
  shows "\<exists>s1 e. OnTimeoutPropose cfg (cs_round s) s = Inr (s1, e) \<and> running cfg M s1 \<and>
    (cs_round s < cs_round s1 \<or> cs_round s1 = cs_round s \<and> cs_step s1 \<noteq> StepPropose)"
proof (cases "cs_step s = StepPropose")
  case False
  then show ?thesis using s by (simp add: OnTimeoutPropose_def)
next
  case True
  let ?t = "s\<lparr>cs_step := StepPrevote\<rparr>"
  have "safe cfg M (Broadcast (own_message cfg s (BVote (sign_vote cfg s Prevote 0))) ?t) \<and>
      started (Broadcast (own_message cfg s (BVote (sign_vote cfg s Prevote 0))) ?t)"
    using safety.P_prevote [of cfg M s 0] s True by (simp add: running_def)
  then have "good (\<lambda>s. (safe cfg M s \<and> started s) \<and> later ?t s) (castVote cfg Prevote 0 ?t)"
    by (intro progress.chain(1)) (simp_all add: later_def)
  then obtain s1 where s1: "castVote cfg Prevote 0 ?t = Inr s1" "safe cfg M s1 \<and> started s1" "later ?t s1"
    by (auto simp: good_def)
  then show ?thesis using later_cases [OF s1(3)] later_running [OF s1(2,3)] True
    by (auto simp: OnTimeoutPropose_def ok_def)
qed

lemma timeout_prevote:
  assumes s: "running cfg M s" "cs_step s \<noteq> StepPropose"
  shows "\<exists>s1 e. OnTimeoutPrevote cfg (cs_round s) s = Inr (s1, e) \<and> running cfg M s1 \<and>
    (cs_round s < cs_round s1 \<or> cs_round s1 = cs_round s \<and> (cs_step s1 = StepPrecommit \<or> cs_step s1 = StepCommit))"
proof (cases "cs_step s = StepPrevote")
  case False
  then show ?thesis using s by (cases "cs_step s") (simp_all add: OnTimeoutPrevote_def running_def)
next
  case True
  obtain s1 where s1: "castVote cfg Prevote 0 s = Inr s1" "safe cfg M s1 \<and> started s1" "later s s1"
    using progress.timeout_nil [OF running_later [OF s(1)], of Prevote] by (auto simp: good_def)
  then have "cs_round s \<le> cs_round s1" by (simp add: later_def)
  then show ?thesis using s1 True safety.P_leave [OF s1(2)]
    by (auto simp: OnTimeoutPrevote_def running_def)
qed

lemma enterNewRound_advances:
  assumes s: "running cfg M s" and r: "cs_round s < r"
  shows "\<exists>s1. enterNewRound cfg r s = Inr s1 \<and> running cfg M s1 \<and> r \<le> cs_round s1"
proof -
  let ?t = "new_round r s"
  have t: "(safe cfg M ?t \<and> started ?t) \<and> later ?t ?t"
    using safety.P_round [of cfg M s r] s r by (simp add: running_def later_refl)
  have "good (\<lambda>s. (safe cfg M s \<and> started s) \<and> later ?t s) (enterNewRound cfg r s)"
    using t progress.chain(5) [OF refl t, of "1700000000 + cs_height s * 1000 + ucast r"] progress.P_cached [OF t] r
    unfolding enterNewRound.simps [of cfg r s] by (auto simp: Let_def split: option.split)
  then obtain s1 where "enterNewRound cfg r s = Inr s1" "safe cfg M s1 \<and> started s1" "later ?t s1"
    by (auto simp: good_def)
  then show ?thesis using later_running [of cfg M s1 ?t] by (auto simp: later_def)
qed

lemma timeout_precommit:
  assumes s: "running cfg M s" "cs_step s = StepPrecommit \<or> cs_step s = StepCommit" and r: "cs_round s < cs_round s + 1"
  shows "\<exists>s1 e. OnTimeoutPrecommit cfg (cs_round s) s = Inr (s1, e) \<and> running cfg M s1 \<and>
    (cs_round s < cs_round s1 \<or> cs_step s1 = StepCommit)"
proof (cases "cs_step s = StepPrecommit")
  case False
  then show ?thesis using s by (auto simp: OnTimeoutPrecommit_def)
next
  case True
  obtain s1 where s1: "castVote cfg Precommit 0 s = Inr s1" "safe cfg M s1 \<and> started s1" "later s s1"
    using progress.timeout_nil [OF running_later [OF s(1)], of Precommit] by (auto simp: good_def)
  have "\<exists>s2. enterNewRound cfg (cs_round s + 1) s1 = Inr s2 \<and> running cfg M s2 \<and> cs_round s < cs_round s2"
  proof (cases "cs_round s1 = cs_round s")
    case True
    then show ?thesis using enterNewRound_advances [OF later_running [OF s1(2,3)], of "cs_round s + 1"] r
      by (auto dest: order.strict_trans2)
  next
    case False
    then have "cs_round s < cs_round s1" using s1(3) by (auto simp: later_def)
    moreover from this have "cs_round s + 1 \<le> cs_round s1" by (rule inc_le)
    ultimately show ?thesis using later_running [OF s1(2,3)] unfolding enterNewRound.simps [of cfg _ s1] by simp
  qed
  then show ?thesis using s1 True by (auto simp: OnTimeoutPrecommit_def ok_def)
qed

text \<open>
  C27: timeouts alone lead out of a round. From every state a run reaches after a height was started,
  the three timeouts of the current round take the node to a later round, or it is in the commit step.
  No vote of anybody else is needed; only the last round, 2^32 - 1, has no successor. The commit step is not the
  commit: \<open>commitCurrent\<close> enters it on a quorum of precommits also when the node does not have the proposal of
  that block, and then gives nothing to the sink. From there no timeout, of any round, does anything.
\<close>

theorem timeouts_advance:
  assumes "cfg_valid cfg" "cons_run cfg ops initial_state = Inr s" "cs_step s \<noteq> StepNewHeight"
    and r: "unat (cs_round s) + 1 < 2 ^ 32"
  shows "\<exists>s'. cons_run cfg [OpTimeoutPropose (cs_round s), OpTimeoutPrevote (cs_round s), OpTimeoutPrecommit (cs_round s)] s = Inr s'
    \<and> (cs_round s < cs_round s' \<or>
      cs_step s' = StepCommit \<and> (\<forall>r. cons_run cfg [OpTimeoutPropose r, OpTimeoutPrevote r, OpTimeoutPrecommit r] s' = Inr s'))"
proof -
  let ?M = "{m. OpMessage m \<in> set ops}" and ?r = "cs_round s"
  have "safe cfg ?M s \<and> (started s \<or> idle s)"
    by (rule run_safe [OF _ _ _ assms(2)]) (use initial_safe [OF assms(1)] in auto)
  then have s: "running cfg ?M s" using assms(3) by (auto simp: running_def idle_def)
  have lt: "?r < ?r + 1" using r by (simp add: word_less_nat_alt unat_word_ariths)
  obtain s1 e1 where s1: "OnTimeoutPropose cfg ?r s = Inr (s1, e1)" "running cfg ?M s1"
    "?r < cs_round s1 \<or> cs_round s1 = ?r \<and> cs_step s1 \<noteq> StepPropose"
    using timeout_propose [OF s] by blast
  obtain s2 e2 where s2: "OnTimeoutPrevote cfg ?r s1 = Inr (s2, e2)" "running cfg ?M s2"
    "?r < cs_round s2 \<or> cs_round s2 = ?r \<and> (cs_step s2 = StepPrecommit \<or> cs_step s2 = StepCommit)"
    using timeout_prevote [OF s1(2)] s1 timeout_elsewhere(2) [of s1 ?r cfg] by (metis order.irrefl)
  obtain s3 e3 where s3: "OnTimeoutPrecommit cfg ?r s2 = Inr (s3, e3)" "?r < cs_round s3 \<or> cs_step s3 = StepCommit"
    using timeout_precommit [OF s2(2)] s2 lt timeout_elsewhere(3) [of s2 ?r cfg] by (metis order.irrefl)
  have "cons_run cfg [OpTimeoutPropose k, OpTimeoutPrevote k, OpTimeoutPrecommit k] s3 = Inr s3" if "cs_step s3 = StepCommit" for k
    using that by (simp add: OnTimeoutPropose_def OnTimeoutPrevote_def OnTimeoutPrecommit_def)
  then show ?thesis using s1 s2 s3 by auto
qed

section \<open>One vote for a block in each round\<close>

text \<open>Votes of type \<open>ty\<close> for some block, not nil, in round \<open>r\<close>.\<close>

definition block_vote :: "byte \<Rightarrow> round \<Rightarrow> message \<Rightarrow> bool" where
  "block_vote ty r m \<longleftrightarrow> m_Round m = r \<and>
     (case m_Body m of BVote v \<Rightarrow> vt_Type v = ty \<and> vt_BlockHash v \<noteq> 0 | _ \<Rightarrow> False)"

definition block_votes :: "byte \<Rightarrow> round \<Rightarrow> message list \<Rightarrow> nat" where
  "block_votes ty r ms = length (filter (block_vote ty r) ms)"

lemma block_votes_append [simp]: "block_votes ty r (xs @ ys) = block_votes ty r xs + block_votes ty r ys"
  by (simp add: block_votes_def)

lemma block_votes_other [simp]:
  "block_votes ty r [own_message cfg s (BQC qc)] = 0" "block_votes ty r [own_message cfg s (BProposal p)] = 0"
  "block_votes ty r [own_message cfg s BNil] = 0"
  "block_votes ty r [own_message cfg s (BVote (sign_vote cfg s ty' 0))] = 0"
  by (simp_all add: block_votes_def block_vote_def own_message_def sign_vote_def Let_def split: option.split)

lemma block_votes_own:
  "block_votes ty r [own_message cfg s (BVote (sign_vote cfg s ty' h))] \<le> 1"
  "r \<noteq> cs_round s \<or> ty \<noteq> ty' \<Longrightarrow> block_votes ty r [own_message cfg s (BVote (sign_vote cfg s ty' h))] = 0"
  by (auto simp: block_votes_def block_vote_def own_message_def)

text \<open>
  Since the \<open>n\<close>-th message: no round has two such votes, later rounds have none, and the current
  one has none that its step leaves for later.
\<close>

definition once :: "nat \<Rightarrow> cons_state \<Rightarrow> bool" where
  "once n s \<longleftrightarrow> n \<le> length (cs_sent s) \<and>
     (\<forall>ty r. block_votes ty r (drop n (cs_sent s)) \<le> 1) \<and>
     (\<forall>ty r. cs_round s < r \<longrightarrow> block_votes ty r (drop n (cs_sent s)) = 0) \<and>
     (cs_step s = StepPropose \<longrightarrow> block_votes Prevote (cs_round s) (drop n (cs_sent s)) = 0) \<and>
     (cs_step s = StepPropose \<or> cs_step s = StepPrevote \<longrightarrow>
        block_votes Precommit (cs_round s) (drop n (cs_sent s)) = 0)"

lemma once_same:
  "once n s \<Longrightarrow> cs_sent s' = cs_sent s \<Longrightarrow> cs_round s' = cs_round s \<Longrightarrow>
   cs_step s' = cs_step s \<or> cs_step s' \<notin> {StepPropose, StepPrevote} \<Longrightarrow> once n s'"
  by (auto simp: once_def)

lemma once_send:
  "once n s \<Longrightarrow> \<forall>ty r. block_votes ty r [m] = 0 \<Longrightarrow> once n (Broadcast m s)"
  by (simp add: once_def)

lemma once_vote:
  assumes s: "once n s" and step: "ty = Prevote \<and> cs_step s = StepPropose \<and> st = StepPrevote \<or>
      ty = Precommit \<and> (cs_step s = StepPropose \<or> cs_step s = StepPrevote) \<and> st = StepPrecommit"
    and s': "cs_sent s' = cs_sent s @ [own_message cfg s (BVote (sign_vote cfg s ty h))]" "cs_round s' = cs_round s"
      "cs_step s' = st"
  shows "once n s'"
proof -
  let ?m = "[own_message cfg s (BVote (sign_vote cfg s ty h))]" and ?l = "drop n (cs_sent s)"
  have l: "drop n (cs_sent s') = ?l @ ?m" "n \<le> length (cs_sent s')" using s s'(1) by (simp_all add: once_def)
  have none: "block_votes ty (cs_round s) ?l = 0" using s step by (auto simp: once_def)
  have "block_votes ty' r (?l @ ?m) \<le> 1" for ty' r
  proof (cases "r = cs_round s \<and> ty' = ty")
    case True
    then show ?thesis using none block_votes_own(1) by simp
  next
    case False
    then show ?thesis using s block_votes_own(2) [of r s ty' ty] by (auto simp: once_def)
  qed
  moreover have "block_votes ty' r (?l @ ?m) = 0" if "cs_round s < r" for ty' r
    using s that block_votes_own(2) [of r s ty' ty] by (auto simp: once_def)
  moreover have "block_votes Precommit (cs_round s) (?l @ ?m) = 0" if "st = StepPrevote"
    using s that step block_votes_own(2) [of "cs_round s" s Precommit Prevote] by (auto simp: once_def)
  ultimately show ?thesis using l step unfolding once_def s'(2,3) by auto
qed

lemma once_round: "once n s \<Longrightarrow> cs_round s < r \<Longrightarrow> once n (new_round r s)"
  unfolding once_def by (auto dest: order.strict_trans)

interpretation voting: run_property cfg M "once n" for cfg M n
proof (unfold_locales, goal_cases)
  case (1 s s')
  then show ?case by (auto elim: once_same)
next
  case (2 s ty st h)
  show ?case by (rule once_vote [OF 2]) simp_all
next
  case (3 s b)
  then show ?case by (cases b) (auto intro!: once_send)
next
  case (4 s r)
  then show ?case by (rule once_round)
qed

text \<open>
  C26: within a height a node votes for one block. After a height was started, and whatever messages
  and timeouts follow, a node broadcasts at most one prevote and at most one precommit for a block
  in each round; every further vote of the round is nil. (Starting the same height again forgets
  this, and the nil votes of the timeouts come on top.)
\<close>

theorem votes_once:
  assumes "cfg_valid cfg" "cons_run cfg pre initial_state = Inr s0" "StartNewHeight cfg h ts s0 = Inr (s1, None)"
    and "\<forall>h ts. OpStart h ts \<notin> set ops" "cons_run cfg ops s1 = Inr s"
  shows "block_votes ty r (drop (length (cs_sent s0)) (cs_sent s)) \<le> 1"
proof -
  let ?M = "{m. OpMessage m \<in> set (pre @ ops)}" and ?n = "length (cs_sent s0)"
  let ?t = "(new_round 0 s0)\<lparr>cs_height := h, cs_lockedHash := 0, cs_lockedRound := 0\<rparr>"
  have safe: "safe cfg ?M s0" using run_safe [OF _ _ _ assms(2), of ?M] initial_safe [OF assms(1)] by auto
  have old: "\<not> (h \<le> cs_lastCommitted s0 \<and> cs_lastCommitted s0 > 0)"
    using assms(3) by (auto simp: StartNewHeight_def)
  have t: "safe cfg ?M ?t" "started ?t" by (rule safe_round [OF safe], auto simp: caches_ok_def started_def)
  have once: "once ?n ?t" by (simp add: once_def block_votes_def)
  have "\<exists>s' e. StartNewHeight cfg h ts s0 = Inr (s', e) \<and> (safe cfg ?M s' \<and> started s') \<and> once ?n s'"
  proof (rule voting.StartNewHeight_keeps [OF refl _ _ old])
    show "(safe cfg ?M ?t \<and> started ?t) \<and> once ?n ?t" using t once by simp
    fix m assume m: "fmlookup (cs_futureHeightProps s0) h = Some m"
    let ?u = "?t\<lparr>cs_futureHeightProps := fmdrop h (cs_futureHeightProps s0), cs_pendingSelf := Some m\<rparr>"
    have "safe cfg ?M ?u"
      by (rule safe_cong [OF t(1)]) (use m safe in \<open>auto simp: caches_ok_def safe_def split: if_splits\<close>)
    moreover have "once ?n ?u" using once by (auto elim: once_same)
    ultimately show "(safe cfg ?M ?u \<and> started ?u) \<and> once ?n ?u" by (simp add: started_def)
  qed
  then have "(safe cfg ?M s1 \<and> started s1) \<and> once ?n s1" using assms(3) by auto
  then have "\<exists>s'. cons_run cfg ops s1 = Inr s' \<and> (safe cfg ?M s' \<and> started s') \<and> once ?n s'"
    by (rule voting.run_keeps) (use assms(4) in auto)
  then show ?thesis using assms(5) by (auto simp: once_def)
qed

section \<open>Proposers and rejected messages\<close>

lemma rotation_index: "j < n \<Longrightarrow> \<exists>i<n. (c + i) mod n = (j :: nat)"
proof -
  assume j: "j < n"
  have le: "c mod n \<le> j + n" using mod_less_divisor [of n c] j by linarith
  have "(c + (j + n - c mod n) mod n) mod n = (c mod n + (j + n - c mod n)) mod n"
    by (simp only: mod_add_left_eq mod_add_right_eq)
  also have "c mod n + (j + n - c mod n) = j + n" using le by (rule le_add_diff_inverse)
  finally have "(c + (j + n - c mod n) mod n) mod n = j" using j by simp
  then show ?thesis using j by (intro exI [of _ "(j + n - c mod n) mod n"]) simp
qed

lemma ProposerOf_index:
  assumes "vals_list V \<noteq> []" "length (vals_list V) < 2 ^ 64" "unat h + unat r < 2 ^ 64"
  shows "ProposerOf V h r = v_Address (vals_list V ! ((unat h + unat r) mod length (vals_list V)))"
proof -
  have r: "unat (ucast r :: uint64) = unat r"
    using unat_less_pow [of r] by (simp add: unsigned_ucast_eq take_bit_nat_eq_self)
  then have "unat (h + ucast r) = unat h + unat r"
    using assms(3) by (subst unat_word_ariths) simp
  then show ?thesis using assms by (simp add: ProposerOf_def Let_def unat_mod unat_of_nat)
qed

text \<open>
  the proposer rotates. In as many consecutive rounds of a height as there are validators,
  each validator is the proposer (as long as height plus round does not wrap).
\<close>

theorem ProposerOf_rotates:
  assumes "valset_ok V" "unat h + k + Size V < 2 ^ 64" "k + Size V \<le> 2 ^ 32"
  shows "(\<lambda>i. ProposerOf V h (word_of_nat (k + i))) ` {0..<Size V} = v_Address ` set (vals_list V)"
proof -
  let ?l = "vals_list V"
  have l: "?l \<noteq> []" using assms(1) by (simp add: valset_ok_def)
  have at: "ProposerOf V h (word_of_nat (k + i)) = v_Address (?l ! ((unat h + k + i) mod length ?l))" if "i < length ?l" for i
  proof -
    have "unat (word_of_nat (k + i) :: round) = k + i"
      using assms(3) that unfolding unat_of_nat by (simp add: Size_def)
    then show ?thesis
      using ProposerOf_index [of V h "word_of_nat (k + i)"] l assms(2) that by (simp add: Size_def add.assoc)
  qed
  have "v_Address v \<in> (\<lambda>i. ProposerOf V h (word_of_nat (k + i))) ` {0..<Size V}" if "v \<in> set ?l" for v
  proof -
    from that obtain j where j: "j < length ?l" "v = ?l ! j" by (auto simp: in_set_conv_nth)
    obtain i where "i < length ?l" "(unat h + k + i) mod length ?l = j" using rotation_index [OF j(1)] by blast
    then show ?thesis using at j(2) by (intro image_eqI [of _ _ i]) (simp_all add: Size_def)
  qed
  then show ?thesis using at l by (auto simp: Size_def)
qed

text \<open>
  a rejected message changes nothing. When \<open>HandleMessage\<close> gives an error, the state is as
  before, and the error tells the cause: an old height, an unknown sender, a proposal by somebody
  else than the proposer.
\<close>

theorem HandleMessage_rejects:
  assumes "HandleMessage cfg m s = Inr (s', Some e)"
  shows "s' = s \<and> (e = ErrOldHeight \<longleftrightarrow> m_Height m < cs_height s)
    \<and> (e = ErrUnknownValidator \<longleftrightarrow> m_Height m = cs_height s \<and> vals_Get (cfg_Validators cfg) (m_From m) = None)
    \<and> (e = ErrNotProposer \<longleftrightarrow> m_Height m = cs_height s \<and> vals_Get (cfg_Validators cfg) (m_From m) \<noteq> None \<and>
         (\<exists>p. m_Body m = BProposal p) \<and> m_From m \<noteq> ProposerOf (cfg_Validators cfg) (m_Height m) (m_Round m))"
proof -
  have ok: "ok r \<noteq> Inr (t, Some x)" for r t x by (cases r) (simp_all add: ok_def)
  have add: "vs_add vs v a pw q = Inl x \<Longrightarrow> x = ErrInvalidMessage" for vs v a pw q x
    by (auto simp: vs_add_def Let_def split: if_splits)
  show ?thesis
    using assms unfolding HandleMessage_def handleProposal_def handleVote_def handleQC_def recordVoteTo_def
    by (auto simp: ok Let_def split: if_splits option.splits body.splits sum.splits dest: add)
qed

text \<open>
  a vote can crash a node that has not started. Before the first \<open>StartNewHeight\<close> the vote sets
  are nil, and a valid vote of any validator for height 0 and round 0 dereferences one; nothing
  else panics.
\<close>

theorem vote_before_start:
  "HandleMessage cfg m initial_state = Inl e \<longleftrightarrow>
    e = GoPanic \<and> m_Height m = 0 \<and> m_Round m = 0 \<and> vals_Get (cfg_Validators cfg) (m_From m) \<noteq> None \<and>
    (\<exists>v. m_Body m = BVote v \<and> is_vote_type (vt_Type v) \<and>
       cfg_Verify cfg (VoteDigest (cfg_keccak cfg) 0 0 v) (vt_Signature v) (m_From m))"
proof -
  have votes: "votes_of ty initial_state = None" for ty by (simp add: votes_of_def initial_state_def)
  have fields: "cs_height initial_state = 0" "cs_round initial_state = 0" "cs_step initial_state = StepNewHeight"
    by (simp_all add: initial_state_def)
  show ?thesis
    unfolding HandleMessage_def handleProposal_def handleVote_def handleQC_def
    by (cases "m_Height m = 0"; cases "m_Round m = 0")
      (auto simp: votes fields is_vote_type_def word_gt_0 split: option.split body.split)
qed

section \<open>Witnesses\<close>

definition sample_signs :: "address \<Rightarrow> hash \<Rightarrow> signature" where
  "sample_signs a d = ucast a"

definition sample_keccak :: keccak where
  "sample_keccak b = 0"

definition sample_node :: consensus_config where
  "sample_node = node_cfg sample_keccak sample_signs 1"

lemma sample_node_valid: "cfg_valid sample_node"
  using node_cfg_valid by (simp add: sample_node_def)

text \<open>Validator 1 after it started height 4: proposed, prevoted, waiting for prevotes.\<close>

lemma start_run:
  "\<exists>s. cons_run sample_node [OpSetMaker (Some (node_maker 1)), OpStart 4 0] initial_state = Inr s
    \<and> cs_step s = StepPrevote \<and> cs_round s = 0"
  unfolding sample_node_def
  apply (rule exI, rule conjI)
   apply (rule cons_run_step, (simp add: consensus_eval cong: let_weak_cong prod.case_cong_weak; fail))+
   apply (rule cons_run.simps(1))
  apply simp
  done

theorem timeouts_advance_witness:
  "\<exists>s s'. cons_run sample_node [OpSetMaker (Some (node_maker 1)), OpStart 4 0] initial_state = Inr s
    \<and> cons_run sample_node [OpTimeoutPropose 0, OpTimeoutPrevote 0, OpTimeoutPrecommit 0] s = Inr s'
    \<and> (0 < cs_round s' \<or> cs_step s' = StepCommit)"
proof -
  obtain s where s: "cons_run sample_node [OpSetMaker (Some (node_maker 1)), OpStart 4 0] initial_state = Inr s"
    "cs_step s = StepPrevote" "cs_round s = 0" using start_run by blast
  then show ?thesis using timeouts_advance [OF sample_node_valid s(1)] by auto
qed

theorem votes_once_witness:
  "\<exists>s1 s. StartNewHeight sample_node 4 0 (SetProposalMaker (Some (node_maker 1)) initial_state) = Inr (s1, None)
    \<and> cons_run sample_node (commit_ops sample_signs sample_keccak) s1 = Inr s
    \<and> block_votes Precommit 0 (drop 0 (cs_sent s)) \<le> 1"
proof -
  obtain s where run: "cons_run sample_node (OpSetMaker (Some (node_maker 1)) # OpStart 4 0 #
      commit_ops sample_signs sample_keccak) initial_state = Inr s"
    using commit_run [of sample_keccak sample_signs] unfolding sample_node_def by blast
  let ?s0 = "SetProposalMaker (Some (node_maker 1)) initial_state"
  obtain s1 e where s1: "StartNewHeight sample_node 4 0 ?s0 = Inr (s1, e)"
    "cons_run sample_node (commit_ops sample_signs sample_keccak) s1 = Inr s"
    using run by (auto simp: and_then_Inr_iff)
  have "e = None"
    using s1(1) by (auto simp: StartNewHeight_def SetProposalMaker_def initial_state_def ok_def res_map_def Let_def
        split: if_splits option.splits sum.splits)
  moreover have "\<forall>h ts. OpStart h ts \<notin> set (commit_ops sample_signs sample_keccak)" by (simp add: commit_ops_def)
  moreover have "cons_run sample_node [OpSetMaker (Some (node_maker 1))] initial_state = Inr ?s0" by simp
  ultimately have "block_votes Precommit 0 (drop (length (cs_sent ?s0)) (cs_sent s)) \<le> 1"
    using votes_once [OF sample_node_valid, of "[OpSetMaker (Some (node_maker 1))]" ?s0 4 0 s1] s1 by blast
  moreover have "length (cs_sent ?s0) = 0" by (simp add: SetProposalMaker_def initial_state_def)
  ultimately show ?thesis using s1 \<open>e = None\<close> by metis
qed

theorem ProposerOf_rotates_witness:
  "(\<lambda>i. ProposerOf sample_set 7 (word_of_nat (5 + i))) ` {0..<4} = {1, 2, 3, 4}"
proof -
  have "Size sample_set = 4" "v_Address ` set (vals_list sample_set) = {1, 2, 3, 4}"
    by (simp_all add: Size_def sample_list)
  then show ?thesis using ProposerOf_rotates [OF sample_set_ok, of 7 5] by simp
qed

theorem HandleMessage_rejects_witness:
  "HandleMessage sample_node \<lparr>m_Height = 0, m_Round = 0, m_From = 9, m_Body = BNil\<rparr> initial_state =
      Inr (initial_state, Some ErrUnknownValidator)
   \<and> vals_Get sample_set 9 = None"
proof -
  have get: "vals_Get sample_set 9 = None" using sample_Get [of 9] by simp
  then have run: "HandleMessage sample_node \<lparr>m_Height = 0, m_Round = 0, m_From = 9, m_Body = BNil\<rparr> initial_state =
      Inr (initial_state, Some ErrUnknownValidator)"
    by (simp add: HandleMessage_def initial_state_def sample_node_def node_cfg_fields)
  then show ?thesis using HandleMessage_rejects [OF run] by (simp add: sample_node_def node_cfg_fields)
qed

end
