(* ===== verification/ConsensusFork.thy ===== *)
theory ConsensusFork
  imports ConsensusEval
begin

text \<open>
  A network of honest nodes, and a fork in it. Messages are delivered late but never forged, lost
  messages are never sent again, and timeouts happen when they like, as the code allows. No node starts a height twice.
\<close>

section \<open>Honest nodes\<close>

text \<open>
  Every node runs the state machine under its own configuration. A step of the network is a step
  of one node: the start of a height above its present one, a timeout, the installation of the block maker, or the
  delivery of a message that some node has sent.
\<close>

definition fresh_start :: "cons_op \<Rightarrow> cons_state \<Rightarrow> bool" where
  "fresh_start op s \<longleftrightarrow> (case op of OpStart h _ \<Rightarrow> cs_height s < h | OpMessage _ \<Rightarrow> False | _ \<Rightarrow> True)"

inductive honest_net :: "(address \<Rightarrow> consensus_config) \<Rightarrow> (address \<Rightarrow> cons_state) \<Rightarrow> bool" for cfgs where
  initially: "honest_net cfgs (\<lambda>_. initial_state)"
| deliver: "honest_net cfgs net \<Longrightarrow> m \<in> set (cs_sent (net a)) \<Longrightarrow>
    cons_exec (cfgs b) (OpMessage m) (net b) = Inr (s, e) \<Longrightarrow> honest_net cfgs (net(b := s))"
| local_step: "honest_net cfgs net \<Longrightarrow> fresh_start op (net b) \<Longrightarrow>
    cons_exec (cfgs b) op (net b) = Inr (s, e) \<Longrightarrow> honest_net cfgs (net(b := s))"

text \<open>Executing a schedule: the \<open>i\<close>-th message of \<open>a\<close> goes to \<open>b\<close>, or \<open>b\<close> does something itself.\<close>

datatype schedule = Deliver address nat address | Local address cons_op

fun net_exec :: "(address \<Rightarrow> consensus_config) \<Rightarrow> schedule \<Rightarrow> (address \<Rightarrow> cons_state) \<Rightarrow> (address \<Rightarrow> cons_state) option" where
  "net_exec cfgs (Deliver a i b) net =
     (if i < length (cs_sent (net a)) then
        (case HandleMessage (cfgs b) (cs_sent (net a) ! i) (net b) of Inl _ \<Rightarrow> None | Inr (s, _) \<Rightarrow> Some (net(b := s)))
      else None)"
| "net_exec cfgs (Local b op) net =
     (if fresh_start op (net b)
      then (case cons_exec (cfgs b) op (net b) of Inl _ \<Rightarrow> None | Inr (s, _) \<Rightarrow> Some (net(b := s))) else None)"

fun net_run :: "(address \<Rightarrow> consensus_config) \<Rightarrow> schedule list \<Rightarrow> (address \<Rightarrow> cons_state) \<Rightarrow> (address \<Rightarrow> cons_state) option" where
  "net_run cfgs [] net = Some net"
| "net_run cfgs (x # xs) net = (case net_exec cfgs x net of None \<Rightarrow> None | Some net \<Rightarrow> net_run cfgs xs net)"

lemma net_exec_honest:
  "honest_net cfgs net \<Longrightarrow> net_exec cfgs x net = Some net' \<Longrightarrow> honest_net cfgs net'"
proof (cases x)
  case (Deliver a i b)
  assume "honest_net cfgs net" "net_exec cfgs x net = Some net'"
  then show ?thesis using honest_net.deliver [of cfgs net "cs_sent (net a) ! i" a b] unfolding Deliver
    by (auto split: if_splits sum.splits)
next
  case (Local b op)
  assume "honest_net cfgs net" "net_exec cfgs x net = Some net'"
  then show ?thesis using honest_net.local_step [of cfgs net op b] unfolding Local
    by (auto split: if_splits sum.splits)
qed

lemma net_run_honest: "honest_net cfgs net \<Longrightarrow> net_run cfgs xs net = Some net' \<Longrightarrow> honest_net cfgs net'"
  by (induction xs arbitrary: net) (auto split: option.splits dest: net_exec_honest)

lemma net_run_step: "net_exec cfgs x net = Some net1 \<Longrightarrow> net_run cfgs xs net1 = r \<Longrightarrow> net_run cfgs (x # xs) net = r"
  by simp

text \<open>
  In round 0 validator 1 proposes, everybody prevotes its block, 1, 2 and 3 see three prevotes, lock the block and
  precommit it, and 1 sees three precommits and commits. The others do not get the precommits in
  time: their timers run out, they go to round 1, where validator 2 proposes its own block, which
  2, 3 and 4 prevote and precommit although 2 and 3 are locked on the first one.
\<close>

definition lock_schedule :: "schedule list" where
  "lock_schedule =
     [Local 1 (OpSetMaker (Some (node_maker 1))), Local 2 (OpSetMaker (Some (node_maker 2))),
      Local 1 (OpStart 4 0), Local 2 (OpStart 4 0), Local 3 (OpStart 4 0), Local 4 (OpStart 4 0),
      Deliver 1 0 2, Deliver 1 0 3, Deliver 1 0 4,
      Deliver 2 0 1, Deliver 3 0 1, Deliver 1 1 2, Deliver 3 0 2, Deliver 1 1 3, Deliver 2 0 3,
      Deliver 2 2 1, Deliver 3 2 1]"

definition switch_schedule :: "schedule list" where
  "switch_schedule =
     [Local 2 (OpTimeoutPrecommit 0), Local 3 (OpTimeoutPrecommit 0),
      Local 4 (OpTimeoutPrevote 0), Local 4 (OpTimeoutPrecommit 0),
      Deliver 2 4 3, Deliver 2 4 4,
      Deliver 3 4 2, Deliver 4 3 2, Deliver 2 5 3, Deliver 4 3 3, Deliver 2 5 4, Deliver 3 4 4,
      Deliver 3 6 2, Deliver 4 5 2]"

text \<open>Validator \<open>a\<close> has precommitted block 1 in round 0 and is locked on it; afterwards it votes for block 2 in round 1.\<close>

definition locked_on_1 :: "(address \<Rightarrow> hash \<Rightarrow> signature) \<Rightarrow> keccak \<Rightarrow> address \<Rightarrow> cons_state \<Rightarrow> bool" where
  "locked_on_1 signs kec a s \<longleftrightarrow> cs_height s = 4 \<and> cs_round s = 0 \<and> cs_lockedHash s = 1 \<and> cs_lockedRound s = 0 \<and>
     vote_message signs kec a 0 Precommit 1 \<in> set (cs_sent s)"

definition switches_to_2 :: "(address \<Rightarrow> hash \<Rightarrow> signature) \<Rightarrow> keccak \<Rightarrow> address \<Rightarrow> cons_state \<Rightarrow> cons_state \<Rightarrow> bool" where
  "switches_to_2 signs kec a s s' \<longleftrightarrow> cs_height s' = 4 \<and>
     vote_message signs kec a 1 Prevote 2 \<in> set (drop (length (cs_sent s)) (cs_sent s')) \<and>
     vote_message signs kec a 1 Precommit 2 \<in> set (drop (length (cs_sent s)) (cs_sent s'))"

lemma fork_run:
  "\<exists>net1 net. net_run (node_cfg kec signs) lock_schedule (\<lambda>_. initial_state) = Some net1 \<and>
    net_run (node_cfg kec signs) switch_schedule net1 = Some net \<and>
    locked_on_1 signs kec 2 (net1 2) \<and> locked_on_1 signs kec 3 (net1 3) \<and>
    switches_to_2 signs kec 2 (net1 2) (net 2) \<and> switches_to_2 signs kec 3 (net1 3) (net 3) \<and>
    cs_committed (net 1) = [([1], 4)] \<and> cs_committed (net 2) = [([2], 4)]"
  unfolding lock_schedule_def switch_schedule_def
  apply (rule exI, rule exI, rule conjI)
   apply (rule net_run_step, (simp add: fresh_start_def consensus_eval cong: let_weak_cong prod.case_cong_weak; fail))+
   apply (rule net_run.simps(1))
  apply (rule conjI)
   apply (rule net_run_step, (simp add: fresh_start_def consensus_eval cong: let_weak_cong prod.case_cong_weak; fail))+
   apply (rule net_run.simps(1))
  apply (simp add: locked_on_1_def switches_to_2_def vote_message_def)
  done

text \<open>
  C19: honest nodes can fork, because locks are not kept. Four validators of equal power follow the code, no signature is
  forged, messages are only delayed, and no node starts a height twice; still validator 1 commits its block
  and validator 2 another one at the same height. On the way validators 2 and 3 have precommitted the first
  block in round 0 and are locked on it, and then both prevote and precommit the second block in round 1:
  the lock is recorded but nothing reads it. This is so for every hash function and every signature scheme.
\<close>

theorem honest_fork:
  "\<exists>net1 net. honest_net (node_cfg kec signs) net1 \<and> net_run (node_cfg kec signs) switch_schedule net1 = Some net \<and>
    honest_net (node_cfg kec signs) net \<and>
    locked_on_1 signs kec 2 (net1 2) \<and> switches_to_2 signs kec 2 (net1 2) (net 2) \<and>
    locked_on_1 signs kec 3 (net1 3) \<and> switches_to_2 signs kec 3 (net1 3) (net 3) \<and>
    cs_committed (net 1) = [([1], 4)] \<and> cs_committed (net 2) = [([2], 4)]"
proof -
  obtain net1 net where r: "net_run (node_cfg kec signs) lock_schedule (\<lambda>_. initial_state) = Some net1"
    "net_run (node_cfg kec signs) switch_schedule net1 = Some net"
    and o: "locked_on_1 signs kec 2 (net1 2)" "locked_on_1 signs kec 3 (net1 3)"
      "switches_to_2 signs kec 2 (net1 2) (net 2)" "switches_to_2 signs kec 3 (net1 3) (net 3)"
      "cs_committed (net 1) = [([1], 4)]" "cs_committed (net 2) = [([2], 4)]"
    using fork_run [of kec signs] by blast
  have "honest_net (node_cfg kec signs) net1" by (rule net_run_honest [OF honest_net.initially r(1)])
  moreover from this have "honest_net (node_cfg kec signs) net" by (rule net_run_honest [OF _ r(2)])
  ultimately show ?thesis using r(2) o by (intro exI [of _ net1] exI [of _ net]) simp
qed

text \<open>
  an honest node contradicts itself. After its precommit for a block, the timeout of the same
  round broadcasts a precommit for nil as well; and when the height is started again, as the
  production loop does after five seconds, the node prevotes a second block in the same round.
\<close>

theorem honest_equivocation:
  "(\<exists>s. cons_run (node_cfg kec signs 1) (OpSetMaker (Some (node_maker 1)) # OpStart 4 0 #
        take 2 (commit_ops signs kec) @ [OpTimeoutPrecommit 0]) initial_state = Inr s \<and>
      {vote_message signs kec 1 0 Precommit 1, vote_message signs kec 1 0 Precommit 0} \<subseteq> set (cs_sent s)) \<and>
   (\<exists>s. cons_run (node_cfg kec signs 1) [OpSetMaker (Some (node_maker 1)), OpStart 4 0,
        OpSetMaker (Some (node_maker 2)), OpStart 4 5000] initial_state = Inr s \<and>
      {vote_message signs kec 1 0 Prevote 1, vote_message signs kec 1 0 Prevote 2} \<subseteq> set (cs_sent s))"
  unfolding commit_ops_def vote_message_def
  apply (rule conjI)
   apply (rule exI, rule conjI)
    apply (simp only: take_Suc_Cons numeral_2_eq_2 take_0 append_Cons append_Nil)
    apply (rule cons_run_step, (simp add: consensus_eval cong: let_weak_cong prod.case_cong_weak; fail))+
    apply (rule cons_run.simps(1))
   apply simp
  apply (rule exI, rule conjI)
   apply (rule cons_run_step, (simp add: consensus_eval cong: let_weak_cong prod.case_cong_weak; fail))+
   apply (rule cons_run.simps(1))
  apply simp
  done

text \<open>
  a stale proposal blocks a fresh one. The proposals cached for future rounds survive the
  change of height. While the cache holds a proposal of a lower height for a round, the proper
  proposal of that round is dropped without an error; when the node gets to the round, it delivers
  the stale proposal to itself, which is rejected as too old.
\<close>

theorem stale_proposal_blocks:
  assumes "fmlookup (cs_futureProps s) r = Some old" "m_Height old < cs_height s" "cs_round s < r"
    and "m_Height m = cs_height s" "m_Round m = r" "m_Body m = BProposal p"
    and "m_From m = ProposerOf (cfg_Validators cfg) (cs_height s) r" "vals_Get (cfg_Validators cfg) (m_From m) \<noteq> None"
    and "m_From m \<noteq> cfg_Self cfg"
  shows "HandleMessage cfg m s = Inr (s, None) \<and>
    (\<exists>s'. enterNewRound cfg r s = Inr s' \<and> cs_round s' = r \<and> cs_step s' = StepPropose \<and>
      snd (TakePendingSelf s') = Some old \<and> HandleMessage cfg old s' = Inr (s', Some ErrOldHeight))"
proof
  show "HandleMessage cfg m s = Inr (s, None)"
    using assms by (auto simp: HandleMessage_def handleProposal_def)
  have "enterNewRound cfg r s = Inr ((new_round r s)\<lparr>cs_futureProps := fmdrop r (cs_futureProps s), cs_pendingSelf := Some old\<rparr>)"
    using assms unfolding enterNewRound.simps [of cfg r s] by (simp add: Let_def)
  then show "\<exists>s'. enterNewRound cfg r s = Inr s' \<and> cs_round s' = r \<and> cs_step s' = StepPropose \<and>
      snd (TakePendingSelf s') = Some old \<and> HandleMessage cfg old s' = Inr (s', Some ErrOldHeight)"
    using assms(2) by (simp add: TakePendingSelf_def HandleMessage_def)
qed

text \<open>Validator 4 gets a proposal for round 1 of height 4, and height 5 starts.\<close>

definition stale_message :: message where
  "stale_message = \<lparr>m_Height = 4, m_Round = 1, m_From = 2,
     m_Body = BProposal \<lparr>pr_POLRound = NoPOLRound, pr_Block = [], pr_BlockHash = 2, pr_Signature = 0\<rparr>\<rparr>"

lemma stale_proposers: "ProposerOf sample_set 5 0 = 2" "ProposerOf sample_set 5 1 = 3"
  by (simp_all add: ProposerOf_def sample_list Let_def)

lemma stale_run:
  "\<exists>s. cons_run (node_cfg kec signs 4) [OpStart 4 0, OpMessage stale_message, OpStart 5 0] initial_state = Inr s \<and>
    fmlookup (cs_futureProps s) 1 = Some stale_message \<and> cs_height s = 5 \<and> cs_round s = 0"
  unfolding stale_message_def
  apply (rule exI, rule conjI)
   apply (rule cons_run_step, (simp add: consensus_eval stale_proposers cong: let_weak_cong prod.case_cong_weak; fail))+
   apply (rule cons_run.simps(1))
  apply simp
  done

theorem stale_proposal_blocks_witness:
  "\<exists>s. cons_run (node_cfg (\<lambda>_. 0) (\<lambda>_ _. 0) 4) [OpStart 4 0, OpMessage stale_message, OpStart 5 0] initial_state = Inr s
    \<and> HandleMessage (node_cfg (\<lambda>_. 0) (\<lambda>_ _. 0) 4) (stale_message\<lparr>m_Height := 5, m_From := 3\<rparr>) s = Inr (s, None)"
proof -
  obtain s where s: "cons_run (node_cfg (\<lambda>_. 0) (\<lambda>_ _. 0) 4) [OpStart 4 0, OpMessage stale_message, OpStart 5 0] initial_state = Inr s"
    "fmlookup (cs_futureProps s) 1 = Some stale_message" "cs_height s = 5" "cs_round s = 0"
    using stale_run [of "\<lambda>_. 0" "\<lambda>_ _. 0"] by blast
  have "vals_Get sample_set 3 \<noteq> None" unfolding sample_Get by simp
  then show ?thesis
    using s stale_proposal_blocks [of s 1 stale_message "stale_message\<lparr>m_Height := 5, m_From := 3\<rparr>"
        "\<lparr>pr_POLRound = NoPOLRound, pr_Block = [], pr_BlockHash = 2, pr_Signature = 0\<rparr>" "node_cfg (\<lambda>_. 0) (\<lambda>_ _. 0) 4"]
    by (auto simp: stale_message_def stale_proposers node_cfg_fields)
qed

text \<open>
  committing without the block. A node whose proposal timer ran out, which then sees the prevotes and precommits of the others for
  a block it has no proposal of, enters the commit step and gives nothing to the sink. The proposal, when it comes,
  does not change that, nor do the timeouts.
\<close>

definition late_proposal :: "(address \<Rightarrow> hash \<Rightarrow> signature) \<Rightarrow> keccak \<Rightarrow> message" where
  "late_proposal signs kec = \<lparr>m_Height = 4, m_Round = 0, m_From = 1,
     m_Body = BProposal \<lparr>pr_POLRound = NoPOLRound, pr_Block = [1], pr_BlockHash = 1,
       pr_Signature = signs 1 (proposal_digest kec 4 0 NoPOLRound 1)\<rparr>\<rparr>"

definition late_ops :: "(address \<Rightarrow> hash \<Rightarrow> signature) \<Rightarrow> keccak \<Rightarrow> cons_op list" where
  "late_ops signs kec =
     [OpStart 4 0, OpTimeoutPropose 0, OpMessage (vote_message signs kec 1 0 Prevote 1), OpMessage (vote_message signs kec 2 0 Prevote 1),
      OpMessage (vote_message signs kec 3 0 Prevote 1), OpMessage (vote_message signs kec 1 0 Precommit 1),
      OpMessage (vote_message signs kec 2 0 Precommit 1), OpMessage (vote_message signs kec 3 0 Precommit 1),
      OpMessage (late_proposal signs kec), OpTimeoutPrecommit 0]"

theorem commit_without_block:
  "\<exists>s. cons_run (node_cfg kec signs 4) (late_ops signs kec) initial_state = Inr s \<and> cs_step s = StepCommit \<and> cs_committed s = []"
  unfolding late_ops_def vote_message_def late_proposal_def
  apply (rule exI, rule conjI)
   apply (rule cons_run_step, (simp add: consensus_eval cong: let_weak_cong prod.case_cong_weak; fail))+
   apply (rule cons_run.simps(1))
  apply simp
  done

end
