(* ===== verification/Storage.thy ===== *)
theory Storage
  imports Crypto "HOL-Library.List_Lexorder" "HOL-Library.Sublist"
begin

text \<open>
  The key-value store of \<open>storage/storage.go\<close>, its in-memory implementation
  (\<open>storage/memory.go\<close>) and the key handling of the Pebble implementation
  (\<open>storage/pebble.go\<close>). A key is \<open>namespace || key\<close>; Go compares keys as strings, byte by byte,
  which is the lexicographic order on lists of bytes. A nil slice returned by \<open>Get\<close> is \<open>None\<close>.
  The locale \<open>kvstore\<close> is the contract of the interface \<open>KVStore\<close> that the chain relies on.
\<close>

section \<open>Keys\<close>

type_synonym namespace = byte

definition NSBlocks :: namespace where "NSBlocks = 0x01"
definition NSTxIndex :: namespace where "NSTxIndex = 0x02"
definition NSReceipts :: namespace where "NSReceipts = 0x03"
definition NSConsensus :: namespace where "NSConsensus = 0x04"
definition NSMeta :: namespace where "NSMeta = 0x05"
definition NSState :: namespace where "NSState = 0x06"
definition NSCode :: namespace where "NSCode = 0x07"

definition SubBlockByHeight :: byte where "SubBlockByHeight = 0x01"
definition SubBlockByHash :: byte where "SubBlockByHash = 0x02"

lemmas ns_defs = NSBlocks_def NSTxIndex_def NSReceipts_def NSConsensus_def NSMeta_def NSState_def
  NSCode_def SubBlockByHeight_def SubBlockByHash_def

text \<open>A string literal of the source as its bytes.\<close>

definition str_bytes :: "string \<Rightarrow> bytes" where
  "str_bytes s = map (\<lambda>c. word_of_nat (of_char c)) s"

definition KeyChainTip :: bytes where "KeyChainTip = str_bytes ''chainTip''"
definition KeyGenesisHash :: bytes where "KeyGenesisHash = str_bytes ''genesisHash''"
definition KeySchemaVersion :: bytes where "KeySchemaVersion = str_bytes ''schemaVersion''"

definition MakeKey :: "namespace \<Rightarrow> bytes \<Rightarrow> bytes" where
  "MakeKey ns key = [ns] @ key"

definition SplitKey :: "bytes \<Rightarrow> (namespace \<times> bytes) res" where
  "SplitKey internal =
     (if length internal < 1 then Inl (ErrOther ''internal key'') else Inr (internal ! 0, drop 1 internal))"

definition Prefix :: "namespace \<Rightarrow> bytes" where
  "Prefix ns = [ns]"

lemma MakeKey_inj [simp]: "MakeKey ns k = MakeKey ns' k' \<longleftrightarrow> ns = ns' \<and> k = k'"
  by (simp add: MakeKey_def)

lemma SplitKey_MakeKey [codec_simps]: "SplitKey (MakeKey ns k) = Inr (ns, k)"
  by (simp add: SplitKey_def MakeKey_def)

section \<open>The memory store\<close>

record mem_op =
  op_ns :: namespace
  op_key :: bytes
  op_value :: bytes
  op_delete :: bool

type_synonym batch = "mem_op list"

record memory_store =
  ms_data :: "(bytes, bytes) fmap"
  ms_closed :: bool

definition NewMemory :: memory_store where
  "NewMemory = \<lparr>ms_data = fmempty, ms_closed = False\<rparr>"

definition NewBatch :: batch where
  "NewBatch = []"

definition batch_Put :: "batch \<Rightarrow> namespace \<Rightarrow> bytes \<Rightarrow> bytes \<Rightarrow> batch res" where
  "batch_Put b ns key v =
     (if length key = 0 then Inl ErrEmptyKey
      else Inr (b @ [\<lparr>op_ns = ns, op_key = key, op_value = v, op_delete = False\<rparr>]))"

definition batch_Delete :: "batch \<Rightarrow> namespace \<Rightarrow> bytes \<Rightarrow> batch res" where
  "batch_Delete b ns key = Inr (b @ [\<lparr>op_ns = ns, op_key = key, op_value = [], op_delete = True\<rparr>])"

definition batch_Count :: "batch \<Rightarrow> nat" where
  "batch_Count b = length b"

definition batch_Reset :: "batch \<Rightarrow> batch" where
  "batch_Reset b = []"

definition mem_Get :: "memory_store \<Rightarrow> namespace \<Rightarrow> bytes \<Rightarrow> bytes option res" where
  "mem_Get s ns key =
     (if length key = 0 then Inl ErrEmptyKey
      else if ms_closed s then Inl ErrClosed
      else Inr (fmlookup (ms_data s) (MakeKey ns key)))"

definition mem_Has :: "memory_store \<Rightarrow> namespace \<Rightarrow> bytes \<Rightarrow> bool res" where
  "mem_Has s ns key = and_then (mem_Get s ns key) (\<lambda>v. Inr (v \<noteq> None))"

definition apply_op :: "(bytes, bytes) fmap \<Rightarrow> mem_op \<Rightarrow> (bytes, bytes) fmap" where
  "apply_op m op =
     (let k = MakeKey (op_ns op) (op_key op) in
      if op_delete op then fmdrop k m else fmupd k (op_value op) m)"

definition mem_Apply :: "memory_store \<Rightarrow> batch \<Rightarrow> memory_store res" where
  "mem_Apply s b =
     (if ms_closed s then Inl ErrClosed
      else Inr (s\<lparr>ms_data := foldl apply_op (ms_data s) b\<rparr>))"

record kv_iter =
  it_entries :: "(bytes \<times> bytes) list"
  it_idx :: nat

definition mem_Iterate :: "memory_store \<Rightarrow> namespace \<Rightarrow> bytes \<Rightarrow> kv_iter res" where
  "mem_Iterate s ns pre =
     (let fullPrefix = MakeKey ns pre in
      Inr \<lparr>it_entries =
             map (\<lambda>k. (drop (length fullPrefix - length pre) k, the (fmlookup (ms_data s) k)))
               (filter (\<lambda>k. prefix fullPrefix k) (sorted_keys (ms_data s))),
           it_idx = 0\<rparr>)"

definition mem_Stats_SizeBytes :: "memory_store \<Rightarrow> nat" where
  "mem_Stats_SizeBytes s =
     foldl (\<lambda>total k. total + length (the (fmlookup (ms_data s) k))) 0 (sorted_keys (ms_data s))"

definition mem_Close :: "memory_store \<Rightarrow> memory_store" where
  "mem_Close s = s\<lparr>ms_closed := True\<rparr>"

definition it_Next :: "kv_iter \<Rightarrow> bool \<times> kv_iter" where
  "it_Next it = (let it' = it\<lparr>it_idx := it_idx it + 1\<rparr> in (it_idx it' \<le> length (it_entries it'), it'))"

definition it_Key :: "kv_iter \<Rightarrow> bytes option" where
  "it_Key it =
     (if it_idx it = 0 \<or> it_idx it > length (it_entries it) then None
      else Some (fst (it_entries it ! (it_idx it - 1))))"

definition it_Value :: "kv_iter \<Rightarrow> bytes option" where
  "it_Value it =
     (if it_idx it = 0 \<or> it_idx it > length (it_entries it) then None
      else Some (snd (it_entries it ! (it_idx it - 1))))"

text \<open>The loop \<open>for it.Next() { ... it.Key() ... it.Value() ... }\<close> of a client.\<close>

function it_drain :: "kv_iter \<Rightarrow> (bytes option \<times> bytes option) list" where
  "it_drain it =
     (let (ok, it') = it_Next it in if ok then (it_Key it', it_Value it') # it_drain it' else [])"
  by pat_completeness auto
termination
  by (relation "measure (\<lambda>it. length (it_entries it) - it_idx it)") (auto simp: it_Next_def Let_def)

declare it_drain.simps [simp del]

section \<open>The contract of a key-value store\<close>

text \<open>What a batch does to one key: the last operation on it decides.\<close>

definition batch_effect :: "batch \<Rightarrow> namespace \<Rightarrow> bytes \<Rightarrow> bytes option option" where
  "batch_effect b ns k =
     foldl (\<lambda>r op. if op_ns op = ns \<and> op_key op = k
                   then Some (if op_delete op then None else Some (op_value op)) else r) None b"

lemma batch_effect_simps [simp]:
  "batch_effect [] ns k = None"
  "batch_effect (b @ [op]) ns k =
     (if op_ns op = ns \<and> op_key op = k
      then Some (if op_delete op then None else Some (op_value op)) else batch_effect b ns k)"
  by (simp_all add: batch_effect_def)

locale kvstore =
  fixes get :: "'s \<Rightarrow> namespace \<Rightarrow> bytes \<Rightarrow> bytes option res"
    and apply_batch :: "'s \<Rightarrow> batch \<Rightarrow> 's res"
    and is_open :: "'s \<Rightarrow> bool"
  assumes get_empty_key: "get s ns [] = Inl ErrEmptyKey"
    and get_open: "is_open s \<Longrightarrow> k \<noteq> [] \<Longrightarrow> is_ok (get s ns k)"
    and apply_open: "is_open s \<Longrightarrow> is_ok (apply_batch s b)"
    and apply_keeps_open: "apply_batch s b = Inr s' \<Longrightarrow> is_open s'"
    and get_apply: "apply_batch s b = Inr s' \<Longrightarrow> k \<noteq> [] \<Longrightarrow>
      get s' ns k = (case batch_effect b ns k of None \<Rightarrow> get s ns k | Some v \<Rightarrow> Inr v)"
begin

lemma get_untouched:
  "apply_batch s b = Inr s' \<Longrightarrow> batch_effect b ns k = None \<Longrightarrow> get s' ns k = get s ns k"
  by (cases "k = []") (simp_all add: get_empty_key get_apply)

lemma get_written:
  "apply_batch s b = Inr s' \<Longrightarrow> k \<noteq> [] \<Longrightarrow> batch_effect b ns k = Some v \<Longrightarrow> get s' ns k = Inr v"
  by (simp add: get_apply)

lemma apply_twice:
  assumes "apply_batch s b = Inr s1" "apply_batch s1 c = Inr s2" "k \<noteq> []"
  shows "get s2 ns k = (case batch_effect c ns k of
    Some v \<Rightarrow> Inr v | None \<Rightarrow> (case batch_effect b ns k of Some v \<Rightarrow> Inr v | None \<Rightarrow> get s ns k))"
  using assms by (simp add: get_apply split: option.splits)

end

lemma fmlookup_apply_ops:
  "fmlookup (foldl apply_op m b) (MakeKey ns k) =
     (case batch_effect b ns k of None \<Rightarrow> fmlookup m (MakeKey ns k) | Some v \<Rightarrow> v)"
  by (induction b rule: rev_induct) (auto simp: apply_op_def Let_def)

definition mem_open :: "memory_store \<Rightarrow> bool" where
  "mem_open s \<longleftrightarrow> \<not> ms_closed s"

interpretation mem: kvstore mem_Get mem_Apply mem_open
proof (unfold_locales, goal_cases)
  case (5 s b s' k ns)
  then show ?case
    by (auto simp: mem_Get_def mem_Apply_def fmlookup_apply_ops split: if_splits option.splits)
qed (auto simp: mem_Get_def mem_Apply_def mem_open_def split: if_splits)

lemma mem_Apply_Inr: "mem_Apply s b = Inr s' \<longleftrightarrow>
    \<not> ms_closed s \<and> s' = s\<lparr>ms_data := foldl apply_op (ms_data s) b\<rparr>"
  by (auto simp: mem_Apply_def)

section \<open>Iteration\<close>

lemma it_drain_from:
  "it_idx it \<le> length (it_entries it) \<Longrightarrow>
   it_drain it = map (\<lambda>(k, v). (Some k, Some v)) (drop (it_idx it) (it_entries it))"
proof (induction it rule: it_drain.induct)
  case (1 it)
  show ?case
  proof (cases "it_idx it < length (it_entries it)")
    case True
    then have "drop (it_idx it) (it_entries it) =
        it_entries it ! it_idx it # drop (Suc (it_idx it)) (it_entries it)"
      by (rule Cons_nth_drop_Suc [symmetric])
    then show ?thesis using "1.IH" True
      by (subst it_drain.simps) (simp add: it_Next_def it_Key_def it_Value_def case_prod_unfold)
  next
    case False
    then show ?thesis by (subst it_drain.simps) (simp add: it_Next_def)
  qed
qed

text \<open>The entries of a prefix, in key order.\<close>

definition prefix_entries :: "(bytes, bytes) fmap \<Rightarrow> namespace \<Rightarrow> bytes \<Rightarrow> (bytes \<times> bytes) list" where
  "prefix_entries m ns pre =
     map (\<lambda>k. (drop 1 k, the (fmlookup m k))) (filter (prefix (MakeKey ns pre)) (sorted_keys m))"

lemma mem_Iterate_entries:
  "mem_Iterate s ns pre = Inr \<lparr>it_entries = prefix_entries (ms_data s) ns pre, it_idx = 0\<rparr>"
  by (simp add: mem_Iterate_def prefix_entries_def MakeKey_def)

lemma prefix_entries_iff:
  "(k, v) \<in> set (prefix_entries m ns pre) \<longleftrightarrow> prefix pre k \<and> fmlookup m (MakeKey ns k) = Some v"
proof
  assume "(k, v) \<in> set (prefix_entries m ns pre)"
  then obtain x where "x \<in> fmdom' m" "prefix (ns # pre) x" "k = drop 1 x" "v = the (fmlookup m x)"
    by (auto simp: prefix_entries_def MakeKey_def)
  then show "prefix pre k \<and> fmlookup m (MakeKey ns k) = Some v"
    by (cases x) (auto simp: MakeKey_def fmlookup_dom'_iff)
next
  assume "prefix pre k \<and> fmlookup m (MakeKey ns k) = Some v"
  then show "(k, v) \<in> set (prefix_entries m ns pre)"
    by (auto simp: prefix_entries_def MakeKey_def fmlookup_dom'_iff intro!: image_eqI [of _ _ "ns # k"])
qed

lemma sorted_map_drop1:
  assumes "sorted ks" "\<And>k. k \<in> set ks \<Longrightarrow> \<exists>r. k = n # r"
  shows "sorted (map (drop 1) ks)"
  unfolding sorted_map
proof (rule sorted_wrt_mono_rel [OF _ assms(1)])
  fix x y assume "x \<in> set ks" "y \<in> set ks" "x \<le> y"
  with assms(2) [of x] assms(2) [of y] show "drop 1 x \<le> drop 1 y" by auto
qed

section \<open>The Pebble store\<close>

text \<open>
  Pebble itself is a parameter: \<open>db_get\<close> (\<open>None\<close> for \<open>pebble.ErrNotFound\<close>), \<open>db_apply\<close> on the
  calls made on a \<open>pebble.Batch\<close>, and \<open>db_iter lo hi\<close>, the pairs \<open>NewIter\<close> yields for the bounds
  \<open>lo\<close> (inclusive) and \<open>hi\<close> (exclusive, \<open>None\<close> for nil, no bound).
\<close>

fun key_upper_loop :: "nat \<Rightarrow> bytes \<Rightarrow> bytes option" where
  "key_upper_loop 0 e = None"
| "key_upper_loop (Suc i) e =
     (if e ! i < 0xff then Some (take (i + 1) (e[i := e ! i + 1])) else key_upper_loop i e)"

definition keyUpperBound :: "bytes \<Rightarrow> bytes option" where
  "keyUpperBound pre = key_upper_loop (length pre) pre"

definition pebble_Get :: "(bytes \<Rightarrow> bytes option res) \<Rightarrow> namespace \<Rightarrow> bytes \<Rightarrow> bytes option res" where
  "pebble_Get db_get ns key = (if length key = 0 then Inl ErrEmptyKey else db_get (MakeKey ns key))"

definition pebble_Has :: "(bytes \<Rightarrow> bytes option res) \<Rightarrow> namespace \<Rightarrow> bytes \<Rightarrow> bool res" where
  "pebble_Has db_get ns key = and_then (pebble_Get db_get ns key) (\<lambda>v. Inr (v \<noteq> None))"

record pebble_batch =
  pb_calls :: "(bytes \<times> bytes option) list"
  pb_count :: nat
  pb_closed :: bool

definition pebble_Put :: "pebble_batch \<Rightarrow> namespace \<Rightarrow> bytes \<Rightarrow> bytes \<Rightarrow> pebble_batch res" where
  "pebble_Put b ns key v =
     (if pb_closed b then Inl ErrBatchClosed
      else if length key = 0 then Inl ErrEmptyKey
      else Inr (b\<lparr>pb_count := pb_count b + 1, pb_calls := pb_calls b @ [(MakeKey ns key, Some v)]\<rparr>))"

definition pebble_Delete :: "pebble_batch \<Rightarrow> namespace \<Rightarrow> bytes \<Rightarrow> pebble_batch res" where
  "pebble_Delete b ns key =
     (if pb_closed b then Inl ErrBatchClosed
      else Inr (b\<lparr>pb_count := pb_count b + 1, pb_calls := pb_calls b @ [(MakeKey ns key, None)]\<rparr>))"

definition pebble_Reset :: "pebble_batch \<Rightarrow> pebble_batch" where
  "pebble_Reset b = b\<lparr>pb_calls := [], pb_count := 0\<rparr>"

definition pebble_BatchClose :: "pebble_batch \<Rightarrow> pebble_batch" where
  "pebble_BatchClose b = (if \<not> pb_closed b then b\<lparr>pb_closed := True\<rparr> else b)"

definition pebble_Apply ::
  "((bytes \<times> bytes option) list \<Rightarrow> 'db res) \<Rightarrow> pebble_batch \<Rightarrow> 'db res" where
  "pebble_Apply db_apply b = (if pb_closed b then Inl ErrBatchClosed else db_apply (pb_calls b))"

text \<open>\<open>Iterate\<close>, with the key each \<open>Next\<close> exposes.\<close>

definition pebble_Iterate ::
  "(bytes \<Rightarrow> bytes option \<Rightarrow> (bytes \<times> bytes) list) \<Rightarrow> namespace \<Rightarrow> bytes \<Rightarrow> (bytes option \<times> bytes) list" where
  "pebble_Iterate db_iter ns pre =
     (let fullPrefix = MakeKey ns pre in
      map (\<lambda>(full, v). (if length full > 1 then Some (drop 1 full) else None, v))
        (db_iter fullPrefix (keyUpperBound fullPrefix)))"

lemma key_upper_loop_Cons:
  "i \<le> length e \<Longrightarrow> key_upper_loop (Suc i) (x # e) =
     (case key_upper_loop i e of Some u \<Rightarrow> Some (x # u)
      | None \<Rightarrow> if x < 0xff then Some [x + 1] else None)"
  by (induction i) auto

lemma keyUpperBound_simps [simp]:
  "keyUpperBound [] = None"
  "keyUpperBound (x # e) = (case keyUpperBound e of Some u \<Rightarrow> Some (x # u)
      | None \<Rightarrow> if x < 0xff then Some [x + 1] else None)"
  by (simp_all add: keyUpperBound_def key_upper_loop_Cons del: key_upper_loop.simps(2))

lemma byte_less_Suc: "x < 0xff \<Longrightarrow> y < x + 1 \<longleftrightarrow> y \<le> (x :: byte)"
proof -
  assume "x < 0xff"
  then have "unat (x + 1) = unat x + 1" by (simp add: unat_word_ariths word_less_nat_alt)
  then show ?thesis by (simp add: word_less_nat_alt word_le_nat_alt less_Suc_eq_le)
qed

lemma byte_top: "\<not> x < 0xff \<Longrightarrow> y \<le> (x :: byte)"
  using unat_byte_less [of y] by (simp add: word_less_nat_alt word_le_nat_alt del: unat_byte_less)

section \<open>Properties\<close>

text \<open>
  the bounds Pebble iterates between are exact. A key has a prefix iff it is at least the prefix
  and below \<open>keyUpperBound\<close> of it, where there is one.
\<close>

theorem keyUpperBound_exact:
  "prefix p k \<longleftrightarrow> p \<le> k \<and> (case keyUpperBound p of None \<Rightarrow> True | Some u \<Rightarrow> k < u)"
proof (induction p arbitrary: k)
  case (Cons x p)
  show ?case
  proof (cases k)
    case k: (Cons y r)
    then show ?thesis using Cons.IH [of r] byte_less_Suc [of x y] byte_top [of x y]
      by (auto split: option.splits)
  qed simp
qed simp

text \<open>
  iterating the memory store yields every pair of the namespace and prefix, once, in
  increasing key order, with the namespace byte removed.
\<close>

theorem mem_Iterate_complete:
  "res_map it_drain (mem_Iterate s ns pre) =
     Inr (map (\<lambda>(k, v). (Some k, Some v)) (prefix_entries (ms_data s) ns pre))
   \<and> sorted (map fst (prefix_entries (ms_data s) ns pre))
   \<and> distinct (map fst (prefix_entries (ms_data s) ns pre))
   \<and> set (prefix_entries (ms_data s) ns pre) =
      {(k, v). prefix pre k \<and> fmlookup (ms_data s) (MakeKey ns k) = Some v}"
proof (intro conjI)
  let ?ks = "filter (prefix (MakeKey ns pre)) (sorted_keys (ms_data s))"
  have ks: "\<exists>r. k = ns # r" if "k \<in> set ?ks" for k
    using that by (auto simp: MakeKey_def prefix_def)
  have fst: "map fst (prefix_entries (ms_data s) ns pre) = map (drop 1) ?ks"
    by (simp add: prefix_entries_def o_def)
  show "res_map it_drain (mem_Iterate s ns pre) =
     Inr (map (\<lambda>(k, v). (Some k, Some v)) (prefix_entries (ms_data s) ns pre))"
    by (simp add: mem_Iterate_entries it_drain_from)
  show "sorted (map fst (prefix_entries (ms_data s) ns pre))"
    unfolding fst by (rule sorted_map_drop1 [OF _ ks]) (simp_all add: sorted_wrt_filter)
  show "distinct (map fst (prefix_entries (ms_data s) ns pre))"
    unfolding fst distinct_map
  proof (intro conjI inj_onI)
    fix x y assume "x \<in> set ?ks" "y \<in> set ?ks" "drop 1 x = drop 1 y"
    with ks [of x] ks [of y] show "x = y" by auto
  qed simp
  show "set (prefix_entries (ms_data s) ns pre) =
      {(k, v). prefix pre k \<and> fmlookup (ms_data s) (MakeKey ns k) = Some v}"
    using prefix_entries_iff by fastforce
qed

text \<open>
  the two implementations iterate alike. Where Pebble holds the pairs of the memory store and
  \<open>NewIter\<close> yields those within its bounds in key order, and no stored key is empty, both yield the
  same keys and values.
\<close>

theorem pebble_Iterate_agrees:
  assumes iter: "db_iter = (\<lambda>lo hi. map (\<lambda>k. (k, the (fmlookup (ms_data s) k)))
      (filter (\<lambda>k. lo \<le> k \<and> (case hi of None \<Rightarrow> True | Some u \<Rightarrow> k < u)) (sorted_keys (ms_data s))))"
    and keys: "[ns] \<notin> fmdom' (ms_data s)"
  shows "mem_Iterate s ns pre = Inr it \<Longrightarrow>
    pebble_Iterate db_iter ns pre = map (\<lambda>(k, v). (k, the v)) (it_drain it)"
proof -
  let ?p = "MakeKey ns pre"
  assume it: "mem_Iterate s ns pre = Inr it"
  have "pebble_Iterate db_iter ns pre =
      map (\<lambda>k. (if length k > 1 then Some (drop 1 k) else None, the (fmlookup (ms_data s) k)))
        (filter (prefix ?p) (sorted_keys (ms_data s)))"
    by (simp add: pebble_Iterate_def iter o_def flip: keyUpperBound_exact)
  also have "\<dots> = map (\<lambda>k. (Some (drop 1 k), the (fmlookup (ms_data s) k)))
        (filter (prefix ?p) (sorted_keys (ms_data s)))"
    using keys by (intro map_cong) (auto simp: MakeKey_def prefix_def)
  also have "\<dots> = map (\<lambda>(k, v). (k, the v)) (it_drain it)"
    using it by (auto simp: mem_Iterate_entries it_drain_from prefix_entries_def o_def)
  finally show ?thesis .
qed

theorem pebble_Iterate_agrees_witness:
  "pebble_Iterate
     (\<lambda>lo hi. map (\<lambda>k. (k, the (fmlookup (fmupd [1, 2] [9] fmempty) k)))
        (filter (\<lambda>k. lo \<le> k \<and> (case hi of None \<Rightarrow> True | Some u \<Rightarrow> k < u))
           (sorted_keys (fmupd [1, 2] [9 :: byte] (fmempty :: (bytes, bytes) fmap))))) 1 [2]
   = [(Some [2], [9])]"
proof -
  let ?s = "\<lparr>ms_data = fmupd [1, 2] [9 :: byte] fmempty, ms_closed = False\<rparr>"
  have "prefix_entries (ms_data ?s) 1 [2] = [([2], [9])]"
    by (simp add: prefix_entries_def MakeKey_def sorted_keys_fmupd)
  then have "mem_Iterate ?s 1 [2] = Inr \<lparr>it_entries = [([2], [9])], it_idx = 0\<rparr>"
    by (simp add: mem_Iterate_entries)
  moreover have "it_drain \<lparr>it_entries = [([2], [9])], it_idx = 0\<rparr> = [(Some [2], Some [9])]"
    by (subst it_drain_from) simp_all
  ultimately show ?thesis
    by (subst pebble_Iterate_agrees [where s = ?s and it = "\<lparr>it_entries = [([2], [9])], it_idx = 0\<rparr>"]) simp_all
qed

text \<open>
  a committed batch is atomic and its last write wins. On an open store \<open>Apply\<close> succeeds, and
  \<open>Get\<close> of any key then returns what the last operation of the batch on it left, or what it
  returned before when the batch does not touch it; keys of different namespaces never meet.
\<close>

theorem mem_Apply_Get:
  assumes "\<not> ms_closed s" "k \<noteq> []"
  shows "and_then (mem_Apply s b) (\<lambda>s'. mem_Get s' ns k) =
    (case batch_effect b ns k of None \<Rightarrow> mem_Get s ns k | Some v \<Rightarrow> Inr v)"
proof -
  obtain s' where s': "mem_Apply s b = Inr s'"
    using mem.apply_open [of s b] assms(1) by (auto simp: mem_open_def is_ok_iff)
  with mem.get_apply [OF s' assms(2)] show ?thesis by simp
qed

theorem mem_Apply_Get_witness:
  "and_then (mem_Apply NewMemory [\<lparr>op_ns = 1, op_key = [7], op_value = [8], op_delete = False\<rparr>])
     (\<lambda>s'. mem_Get s' 1 [7]) = Inr (Some [8])"
  using mem_Apply_Get [of NewMemory "[7]" "[\<lparr>op_ns = 1, op_key = [7], op_value = [8], op_delete = False\<rparr>]" 1]
  by (simp add: NewMemory_def batch_effect_def)

end
