(* ===== verification/State.thy ===== *)
theory State
  imports Storage
begin

text \<open>
  Accounts, sessions and the journal: \<open>state/state.go\<close> and \<open>state/memory.go\<close>. A session holds
  copies of the accounts and slots of its parent root; the setters log what they overwrite in a
  journal, \<open>RollbackTo\<close> replays it backwards, and \<open>Commit\<close> hashes the sorted contents into a
  root and keeps a snapshot under it. The manager's code table is shared by all sessions, so the
  operations that touch it take and return the manager.
\<close>

section \<open>Data\<close>

record account =
  acc_Nonce :: nonce
  acc_Balance :: uint256
  acc_CodeHash :: hash
  acc_StorageRoot :: hash

definition state_EmptyCodeHash :: hash where
  "state_EmptyCodeHash = 0xc5d2460186f7233c927e7db2dcc703c0e500b653ca82273b7bfad8045d85a470"

definition state_EmptyStorageRoot :: hash where
  "state_EmptyStorageRoot = 0x56e81f171bcc55a6ff8345e692c0f86e5b48e01b996cadc001622fb5e363b421"

definition account_IsEmpty :: "account \<Rightarrow> bool" where
  "account_IsEmpty a \<longleftrightarrow>
     acc_Nonce a = 0 \<and> uint256_is_zero (acc_Balance a) \<and> acc_CodeHash a = state_EmptyCodeHash"

text \<open>
  A journal entry of kind account or storage. The pair of \<open>existed\<close> and the old value is an option.
\<close>

datatype journal_entry =
    JAccount address "account option"
  | JStorage address hash "hash option"

record session =
  se_parent :: hash
  se_accounts :: "(address, account) fmap"
  se_storage :: "(address \<times> hash, hash) fmap"
  se_journal :: "journal_entry list"
  se_done :: bool

record manager =
  mg_states :: "(hash, (address, account) fmap) fmap"
  mg_storageStates :: "(hash, (address \<times> hash, hash) fmap) fmap"
  mg_codes :: "(hash, bytes) fmap"

definition NewMemoryManager :: manager where
  "NewMemoryManager = \<lparr>mg_states = fmempty, mg_storageStates = fmempty, mg_codes = fmempty\<rparr>"

section \<open>Opening a session\<close>

text \<open>Copying a map over its sorted keys.\<close>

definition copy_sorted :: "('k::linorder, 'v) fmap \<Rightarrow> ('k, 'v) fmap" where
  "copy_sorted m = foldl (\<lambda>c k. fmupd k (the (fmlookup m k)) c) fmempty (sorted_keys m)"

definition Begin :: "manager \<Rightarrow> hash \<Rightarrow> session res" where
  "Begin m parent =
     and_then
       (case fmlookup (mg_states m) parent of
          Some parentAcc \<Rightarrow> Inr (copy_sorted parentAcc)
        | None \<Rightarrow> if \<not> hash_is_zero parent then Inl ErrAccountNotFound else Inr fmempty)
       (\<lambda>accounts. Inr
          \<lparr>se_parent = parent,
           se_accounts = accounts,
           se_storage =
             (case fmlookup (mg_storageStates m) parent of
                Some parentStorage \<Rightarrow> copy_sorted parentStorage | None \<Rightarrow> fmempty),
           se_journal = [],
           se_done = False\<rparr>)"

definition View :: "manager \<Rightarrow> hash \<Rightarrow> session res" where
  "View m root = Begin m root"

section \<open>Reads\<close>

definition GetAccount :: "session \<Rightarrow> address \<Rightarrow> account res" where
  "GetAccount s addr =
     (case fmlookup (se_accounts s) addr of None \<Rightarrow> Inl ErrAccountNotFound | Some acc \<Rightarrow> Inr acc)"

definition GetStorage :: "session \<Rightarrow> address \<Rightarrow> hash \<Rightarrow> hash" where
  "GetStorage s addr slot =
     (case fmlookup (se_storage s) (addr, slot) of None \<Rightarrow> 0 | Some v \<Rightarrow> v)"

definition GetCode :: "manager \<Rightarrow> session \<Rightarrow> address \<Rightarrow> bytes res" where
  "GetCode m s addr =
     (case fmlookup (se_accounts s) addr of
        None \<Rightarrow> Inl ErrAccountNotFound
      | Some acc \<Rightarrow> Inr (case fmlookup (mg_codes m) (acc_CodeHash acc) of None \<Rightarrow> [] | Some c \<Rightarrow> c))"

section \<open>Writes and the journal\<close>

definition empty_account :: account where
  "empty_account = \<lparr>acc_Nonce = 0, acc_Balance = 0,
     acc_CodeHash = state_EmptyCodeHash, acc_StorageRoot = state_EmptyStorageRoot\<rparr>"

definition ensureAccount :: "address \<Rightarrow> session \<Rightarrow> session" where
  "ensureAccount addr s =
     (case fmlookup (se_accounts s) addr of
        Some _ \<Rightarrow> s
      | None \<Rightarrow> s\<lparr>se_accounts := fmupd addr empty_account (se_accounts s)\<rparr>)"

definition recordAccount :: "address \<Rightarrow> session \<Rightarrow> session" where
  "recordAccount addr s =
     s\<lparr>se_journal := se_journal s @ [JAccount addr (fmlookup (se_accounts s) addr)]\<rparr>"

text \<open>\<open>s.accounts[addr].f = v\<close>, a nil dereference when the account is missing.\<close>

definition update_account :: "address \<Rightarrow> (account \<Rightarrow> account) \<Rightarrow> session \<Rightarrow> session res" where
  "update_account addr f s =
     (case fmlookup (se_accounts s) addr of
        None \<Rightarrow> Inl GoPanic
      | Some acc \<Rightarrow> Inr (s\<lparr>se_accounts := fmupd addr (f acc) (se_accounts s)\<rparr>))"

definition SetNonce :: "address \<Rightarrow> nonce \<Rightarrow> session \<Rightarrow> session res" where
  "SetNonce addr n s =
     update_account addr (\<lambda>acc. acc\<lparr>acc_Nonce := n\<rparr>) (recordAccount addr (ensureAccount addr s))"

definition SetBalance :: "address \<Rightarrow> uint256 \<Rightarrow> session \<Rightarrow> session res" where
  "SetBalance addr v s =
     update_account addr (\<lambda>acc. acc\<lparr>acc_Balance := v\<rparr>) (recordAccount addr (ensureAccount addr s))"

definition SetCode :: "keccak \<Rightarrow> address \<Rightarrow> bytes \<Rightarrow> manager \<times> session \<Rightarrow> (manager \<times> session) res" where
  "SetCode kec addr code ms =
     (let (m, s) = ms; s1 = recordAccount addr (ensureAccount addr s); h = Keccak256 kec [code];
          m1 = m\<lparr>mg_codes := fmupd h code (mg_codes m)\<rparr>
      in and_then (update_account addr (\<lambda>acc. acc\<lparr>acc_CodeHash := h\<rparr>) s1) (\<lambda>s2. Inr (m1, s2)))"

definition SetStorage :: "address \<Rightarrow> hash \<Rightarrow> hash \<Rightarrow> session \<Rightarrow> session" where
  "SetStorage addr slot v s =
     (let s1 = ensureAccount addr s;
          s2 = s1\<lparr>se_journal :=
                    se_journal s1 @ [JStorage addr slot (fmlookup (se_storage s1) (addr, slot))]\<rparr>
      in s2\<lparr>se_storage := fmupd (addr, slot) v (se_storage s2)\<rparr>)"

definition Savepoint :: "session \<Rightarrow> nat" where
  "Savepoint s = length (se_journal s)"

fun undo_entry :: "journal_entry \<Rightarrow> session \<Rightarrow> session res" where
  "undo_entry (JAccount addr (Some old)) s = update_account addr (\<lambda>_. old) s"
| "undo_entry (JAccount addr None) s = Inr (s\<lparr>se_accounts := fmdrop addr (se_accounts s)\<rparr>)"
| "undo_entry (JStorage addr slot (Some old)) s =
     Inr (s\<lparr>se_storage := fmupd (addr, slot) old (se_storage s)\<rparr>)"
| "undo_entry (JStorage addr slot None) s =
     Inr (s\<lparr>se_storage := fmdrop (addr, slot) (se_storage s)\<rparr>)"

fun undo_all :: "journal_entry list \<Rightarrow> session \<Rightarrow> session res" where
  "undo_all [] s = Inr s"
| "undo_all (e # es) s = and_then (undo_entry e s) (undo_all es)"

definition RollbackTo :: "nat \<Rightarrow> session \<Rightarrow> session res" where
  "RollbackTo target s =
     (if target > length (se_journal s) then Inr s
      else and_then (undo_all (rev (drop target (se_journal s))) s)
             (\<lambda>s'. Inr (s'\<lparr>se_journal := take target (se_journal s)\<rparr>)))"

definition Release :: "nat \<Rightarrow> session \<Rightarrow> session" where
  "Release sp s = s"

section \<open>Commit\<close>

text \<open>The comparator of the slot sort.\<close>

fun slot_less_loop :: "bytes \<Rightarrow> bytes \<Rightarrow> bool" where
  "slot_less_loop (a # as) (b # bs) = (if a \<noteq> b then a < b else slot_less_loop as bs)"
| "slot_less_loop _ _ = False"

definition slot_less :: "address \<times> hash \<Rightarrow> address \<times> hash \<Rightarrow> bool" where
  "slot_less x y =
     (let c = address_compare (fst x) (fst y) in
      if c \<noteq> 0 then c < 0 else slot_less_loop (word_bytes (snd x)) (word_bytes (snd y)))"

definition ser_account :: "address \<Rightarrow> account \<Rightarrow> bytes" where
  "ser_account addr acc =
     word_bytes addr @ Uint64BE (acc_Nonce acc) @ word_bytes (acc_Balance acc) @
     word_bytes (acc_CodeHash acc) @ word_bytes (acc_StorageRoot acc)"

definition ser_accounts :: "(address, account) fmap \<Rightarrow> bytes" where
  "ser_accounts accs =
     foldl (\<lambda>buf addr. let acc = the (fmlookup accs addr) in
              if account_IsEmpty acc then buf else buf @ ser_account addr acc)
       [] (sorted_keys accs)"

definition ser_storage :: "(address \<times> hash, hash) fmap \<Rightarrow> bytes" where
  "ser_storage st =
     concat (map (\<lambda>k. word_bytes (fst k) @ word_bytes (snd k) @ word_bytes (the (fmlookup st k)))
       (sorted_keys st))"

definition state_root :: "keccak \<Rightarrow> (address, account) fmap \<Rightarrow> (address \<times> hash, hash) fmap \<Rightarrow> hash" where
  "state_root kec accs st = Keccak256 kec [ser_accounts accs @ ser_storage st]"

definition Commit :: "keccak \<Rightarrow> manager \<times> session \<Rightarrow> (hash \<times> manager \<times> session) res" where
  "Commit kec ms =
     (let (m, s) = ms in
      if se_done s then Inl ErrSessionCommitted
      else let root = state_root kec (se_accounts s) (se_storage s) in
        Inr (root,
             m\<lparr>mg_states := fmupd root (copy_sorted (se_accounts s)) (mg_states m),
               mg_storageStates := fmupd root (se_storage s) (mg_storageStates m)\<rparr>,
             s\<lparr>se_done := True\<rparr>))"

section \<open>Copies and key order\<close>

lemma fmlookup_copy: "fmlookup (foldl (\<lambda>c k. fmupd k (the (fmlookup m k)) c) c ks) x =
    (if x \<in> set ks then Some (the (fmlookup m x)) else fmlookup c x)"
  by (induction ks arbitrary: c) auto

lemma copy_sorted_eq [simp]: "copy_sorted m = m"
proof (rule fmap_ext)
  fix x
  show "fmlookup (copy_sorted m) x = fmlookup m x"
    by (cases "fmlookup m x") (simp_all add: copy_sorted_def fmlookup_copy fmlookup_dom'_iff)
qed

lemma slot_less_loop_cmp: "length xs = length ys \<Longrightarrow> slot_less_loop xs ys \<longleftrightarrow> cmp_bytes xs ys = -1"
  by (induction xs ys rule: slot_less_loop.induct) auto

text \<open>The slot comparator is the lexicographic order on (address, slot) that \<open>sorted_keys\<close> uses.\<close>

lemma slot_less_iff: "slot_less x y \<longleftrightarrow> x < y"
proof -
  have "slot_less_loop (word_bytes (snd x)) (word_bytes (snd y)) \<longleftrightarrow> snd x < snd y"
    by (simp add: slot_less_loop_cmp cmp_bytes_word)
  then show ?thesis
    by (cases x; cases y) (auto simp: slot_less_def address_compare_word)
qed

section \<open>Journaled stores\<close>

text \<open>
  The contract of a journal: steps only append to it, undoing back over a step is undoing from
  before it, and undoing twice is undoing once. \<open>obs\<close> is what a client can tell apart.
\<close>

datatype 'op action = Do 'op | Back nat

fun run :: "('op \<Rightarrow> 's \<Rightarrow> 's res) \<Rightarrow> (nat \<Rightarrow> 's \<Rightarrow> 's res) \<Rightarrow> 'op action list \<Rightarrow> 's \<Rightarrow> 's res" where
  "run step rollback [] s = Inr s"
| "run step rollback (Do op # as) s = and_then (step op s) (run step rollback as)"
| "run step rollback (Back n # as) s = and_then (rollback n s) (run step rollback as)"

text \<open>The run never goes back before a mark.\<close>

definition stays_above :: "nat \<Rightarrow> 'op action list \<Rightarrow> bool" where
  "stays_above n as \<longleftrightarrow> list_all (\<lambda>a. case a of Do _ \<Rightarrow> True | Back k \<Rightarrow> n \<le> k) as"

locale journaled =
  fixes inv :: "'s \<Rightarrow> bool"
    and jlen :: "'s \<Rightarrow> nat"
    and rollback :: "nat \<Rightarrow> 's \<Rightarrow> 's res"
    and step :: "'op \<Rightarrow> 's \<Rightarrow> 's res"
    and obs :: "'s \<Rightarrow> 'o"
  assumes step_ok: "inv s \<Longrightarrow> \<exists>s'. step op s = Inr s' \<and> inv s' \<and> jlen s \<le> jlen s'"
    and step_undo: "inv s \<Longrightarrow> step op s = Inr s' \<Longrightarrow> n \<le> jlen s \<Longrightarrow>
      res_map obs (rollback n s') = res_map obs (rollback n s)"
    and rollback_ok: "inv s \<Longrightarrow> \<exists>s'. rollback n s = Inr s' \<and> inv s' \<and> jlen s' = min n (jlen s)"
    and rollback_here: "inv s \<Longrightarrow> jlen s \<le> n \<Longrightarrow> rollback n s = Inr s"
    and rollback_rollback: "inv s \<Longrightarrow> k \<le> n \<Longrightarrow> rollback n s = Inr s' \<Longrightarrow> rollback k s' = rollback k s"
begin

lemma run_total: "inv s \<Longrightarrow> \<exists>s'. run step rollback as s = Inr s' \<and> inv s'"
proof (induction as arbitrary: s)
  case (Cons a as)
  show ?case
  proof (cases a)
    case (Do op)
    obtain t where "step op s = Inr t" "inv t" using step_ok [OF Cons.prems] by blast
    then show ?thesis using Cons.IH Do by simp
  next
    case (Back n)
    obtain t where "rollback n s = Inr t" "inv t" using rollback_ok [OF Cons.prems] by blast
    then show ?thesis using Cons.IH Back by simp
  qed
qed simp

lemma run_undo:
  "inv s \<Longrightarrow> n \<le> jlen s \<Longrightarrow> stays_above n as \<Longrightarrow> run step rollback as s = Inr s' \<Longrightarrow>
   n \<le> jlen s' \<and> res_map obs (rollback n s') = res_map obs (rollback n s)"
proof (induction as arbitrary: s)
  case (Cons a as)
  show ?case
  proof (cases a)
    case (Do op)
    obtain t where t: "step op s = Inr t" "inv t" "jlen s \<le> jlen t" using step_ok Cons.prems by blast
    then show ?thesis using Cons Do step_undo [of s op t n] by (simp add: stays_above_def)
  next
    case (Back k)
    then have k: "n \<le> k" using Cons.prems by (simp add: stays_above_def)
    obtain t where t: "rollback k s = Inr t" "inv t" "jlen t = min k (jlen s)"
      using rollback_ok Cons.prems by blast
    then show ?thesis using Cons Back k rollback_rollback [of s n k t] by (simp add: stays_above_def)
  qed
qed simp

lemma run_back_here:
  assumes "inv s" "stays_above (jlen s) as" "run step rollback as s = Inr s'"
  shows "\<exists>s''. rollback (jlen s) s' = Inr s'' \<and> obs s'' = obs s"
proof -
  have "res_map obs (rollback (jlen s) s') = Inr (obs s)"
    using run_undo [OF assms(1) _ assms(2,3)] rollback_here [OF assms(1)] by simp
  then show ?thesis by (cases "rollback (jlen s) s'") auto
qed

end

section \<open>The memory session keeps the contract\<close>

text \<open>An absent account reads as the empty account.\<close>

definition account_at :: "(address, account) fmap \<Rightarrow> address \<Rightarrow> account" where
  "account_at accs a = (case fmlookup accs a of None \<Rightarrow> empty_account | Some acc \<Rightarrow> acc)"

definition core_view :: "session \<Rightarrow> (address \<Rightarrow> account) \<times> (address \<times> hash, hash) fmap \<times> hash \<times> bool" where
  "core_view s = (account_at (se_accounts s), se_storage s, se_parent s, se_done s)"

lemma account_at_fmupd [simp]: "account_at (fmupd a x accs) = (account_at accs)(a := x)"
  by (auto simp: account_at_def)

lemma account_at_None: "fmlookup accs a = None \<Longrightarrow> account_at accs a = empty_account"
  by (simp add: account_at_def)

lemma account_at_Some: "fmlookup accs a = Some x \<Longrightarrow> account_at accs a = x"
  by (simp add: account_at_def)

lemmas account_at_simps = account_at_None account_at_Some

fun entry_ok :: "session \<Rightarrow> journal_entry \<Rightarrow> bool" where
  "entry_ok s (JAccount a old) \<longleftrightarrow> old \<noteq> None \<and> fmlookup (se_accounts s) a \<noteq> None"
| "entry_ok s (JStorage a k old) \<longleftrightarrow> True"

definition session_inv :: "session \<Rightarrow> bool" where
  "session_inv s \<longleftrightarrow> list_all (entry_ok s) (se_journal s)"

lemma entry_ok_cong:
  "fmdom (se_accounts s) = fmdom (se_accounts t) \<Longrightarrow> entry_ok s e = entry_ok t e"
  by (cases e) (simp_all flip: fmdom_notD fmdom_notI add: fmlookup_dom_iff fset_eq_iff)

lemma undo_entry_ok:
  "entry_ok s e \<Longrightarrow> \<exists>t. undo_entry e s = Inr t \<and> fmdom (se_accounts t) = fmdom (se_accounts s) \<and>
    se_journal t = se_journal s"
  by (cases e; cases "(e, s)" rule: undo_entry.cases)
    (auto simp: update_account_def fmlookup_dom_iff split: option.splits)

lemma undo_entry_view:
  assumes "entry_ok s e" "entry_ok t e" "core_view s = core_view t"
  shows "res_map core_view (undo_entry e s) = res_map core_view (undo_entry e t)"
proof (cases e)
  case (JAccount a old)
  then obtain x where x: "old = Some x" using assms by auto
  obtain y z where "fmlookup (se_accounts s) a = Some y" "fmlookup (se_accounts t) a = Some z"
    using assms(1,2) JAccount by auto
  then show ?thesis using assms(3) by (simp add: JAccount x update_account_def core_view_def)
next
  case (JStorage a k old)
  then show ?thesis using assms(3) by (cases old) (auto simp: core_view_def)
qed

lemma undo_all_ok:
  "list_all (entry_ok s) es \<Longrightarrow> \<exists>t. undo_all es s = Inr t \<and> fmdom (se_accounts t) = fmdom (se_accounts s) \<and>
    se_journal t = se_journal s"
proof (induction es arbitrary: s)
  case (Cons e es)
  then obtain t where t: "undo_entry e s = Inr t" "fmdom (se_accounts t) = fmdom (se_accounts s)"
    "se_journal t = se_journal s"
    using undo_entry_ok [of s e] by auto
  then have "list_all (entry_ok t) es" using Cons.prems entry_ok_cong [OF t(2)] by (simp add: list_all_iff)
  then show ?case using Cons.IH [of t] t by auto
qed simp

lemma undo_all_view:
  "list_all (entry_ok s) es \<Longrightarrow> list_all (entry_ok t) es \<Longrightarrow> core_view s = core_view t \<Longrightarrow>
   res_map core_view (undo_all es s) = res_map core_view (undo_all es t)"
proof (induction es arbitrary: s t)
  case (Cons e es)
  obtain s' where s': "undo_entry e s = Inr s'" "fmdom (se_accounts s') = fmdom (se_accounts s)"
    using undo_entry_ok [of s e] Cons.prems by auto
  obtain t' where t': "undo_entry e t = Inr t'" "fmdom (se_accounts t') = fmdom (se_accounts t)"
    using undo_entry_ok [of t e] Cons.prems by auto
  have "core_view s' = core_view t'" using undo_entry_view [of s e t] Cons.prems s'(1) t'(1) by simp
  moreover have "list_all (entry_ok s') es" "list_all (entry_ok t') es"
    using Cons.prems entry_ok_cong [OF s'(2)] entry_ok_cong [OF t'(2)] by (simp_all add: list_all_iff)
  ultimately show ?case using Cons.IH [of s' t'] s'(1) t'(1) by simp
qed simp

lemma undo_all_append: "undo_all (es @ fs) s = and_then (undo_all es s) (undo_all fs)"
proof (induction es arbitrary: s)
  case (Cons e es)
  then show ?case by (cases "undo_entry e s") simp_all
qed simp

text \<open>The setters, as operations on the manager and a session.\<close>

datatype state_write =
  WNonce address nonce | WBalance address uint256 | WCode address bytes | WStorage address hash hash

fun write_step :: "keccak \<Rightarrow> state_write \<Rightarrow> manager \<times> session \<Rightarrow> (manager \<times> session) res" where
  "write_step kec (WNonce a n) (m, s) = res_map (Pair m) (SetNonce a n s)"
| "write_step kec (WBalance a v) (m, s) = res_map (Pair m) (SetBalance a v s)"
| "write_step kec (WCode a c) (m, s) = SetCode kec a c (m, s)"
| "write_step kec (WStorage a k v) (m, s) = Inr (m, SetStorage a k v s)"

text \<open>One setter appends one entry, which undoes it.\<close>

definition undoable :: "session \<Rightarrow> session \<Rightarrow> bool" where
  "undoable s s' \<longleftrightarrow> (\<exists>e. se_journal s' = se_journal s @ [e] \<and> entry_ok s' e \<and>
     fmdom (se_accounts s) |\<subseteq>| fmdom (se_accounts s') \<and>
     res_map core_view (undo_entry e s') = Inr (core_view s))"

lemma update_undoable:
  "\<exists>s'. update_account a f (recordAccount a (ensureAccount a s)) = Inr s' \<and> undoable s s'"
  by (cases "fmlookup (se_accounts s) a")
    (auto simp: update_account_def recordAccount_def ensureAccount_def undoable_def core_view_def
      account_at_simps fun_upd_idem)

lemma fmupd_back: "fmlookup m x = Some w \<Longrightarrow> fmupd x w (fmupd x v m) = m"
  by (intro fmap_ext) auto

lemma fmupd_idem: "fmlookup m x = Some w \<Longrightarrow> fmupd x w m = m"
  by (intro fmap_ext) auto

lemma fmdrop_back: "fmlookup m x = None \<Longrightarrow> fmdrop x (fmupd x v m) = m"
  by (intro fmap_ext) auto

lemma SetStorage_undoable: "undoable s (SetStorage a k v s)"
  by (cases "fmlookup (se_accounts s) a"; cases "fmlookup (se_storage s) (a, k)")
    (auto simp: SetStorage_def Let_def ensureAccount_def undoable_def core_view_def
      account_at_simps fun_upd_idem fmupd_back fmupd_idem fmdrop_back)

lemma write_undoable: "\<exists>m' s'. write_step kec op (m, s) = Inr (m', s') \<and> undoable s s'"
proof (cases op)
  case (WNonce a n)
  then show ?thesis using update_undoable [of a "\<lambda>acc. acc\<lparr>acc_Nonce := n\<rparr>" s] by (auto simp: SetNonce_def)
next
  case (WBalance a v)
  then show ?thesis using update_undoable [of a "\<lambda>acc. acc\<lparr>acc_Balance := v\<rparr>" s] by (auto simp: SetBalance_def)
next
  case (WCode a c)
  then show ?thesis using update_undoable [of a "\<lambda>acc. acc\<lparr>acc_CodeHash := Keccak256 kec [c]\<rparr>" s]
    by (auto simp: SetCode_def Let_def)
next
  case (WStorage a k v)
  then show ?thesis using SetStorage_undoable by auto
qed

lemma session_inv_undoable:
  assumes "session_inv s" "undoable s s'"
  shows "session_inv s'"
proof -
  obtain e where e: "se_journal s' = se_journal s @ [e]" "entry_ok s' e"
    "fmdom (se_accounts s) |\<subseteq>| fmdom (se_accounts s')"
    using assms(2) by (auto simp: undoable_def)
  have "entry_ok s' x" if "entry_ok s x" for x
    using that e(3) by (cases x) (auto simp: fmlookup_dom_iff less_eq_fset.rep_eq subset_iff)
  then show ?thesis using assms(1) e by (auto simp: session_inv_def list_all_iff)
qed

text \<open>What a client sees of a session and its journal.\<close>

definition session_obs :: "session \<Rightarrow>
    ((address \<Rightarrow> account) \<times> (address \<times> hash, hash) fmap \<times> hash \<times> bool) \<times> journal_entry list" where
  "session_obs s = (core_view s, se_journal s)"

lemma list_all_rev_drop: "list_all P xs \<Longrightarrow> list_all P (rev (drop n xs))"
  using in_set_dropD by (fastforce simp: list_all_iff)

lemma RollbackTo_ok:
  assumes "session_inv s"
  shows "\<exists>s'. RollbackTo n s = Inr s' \<and> session_inv s' \<and> se_journal s' = take n (se_journal s)"
proof (cases "n > length (se_journal s)")
  case False
  obtain t where t: "undo_all (rev (drop n (se_journal s))) s = Inr t"
    "fmdom (se_accounts t) = fmdom (se_accounts s)"
    using undo_all_ok [OF list_all_rev_drop, of s "se_journal s" n] assms by (auto simp: session_inv_def)
  let ?t = "t\<lparr>se_journal := take n (se_journal s)\<rparr>"
  have "entry_ok ?t e = entry_ok s e" for e using t(2) by (intro entry_ok_cong) simp
  then have "session_inv ?t" using assms in_set_takeD by (fastforce simp: session_inv_def list_all_iff)
  then show ?thesis using t False by (auto simp: RollbackTo_def)
qed (use assms in \<open>simp add: RollbackTo_def\<close>)

lemma session_obs_undo:
  "res_map session_obs (and_then r (\<lambda>s. Inr (s\<lparr>se_journal := j\<rparr>))) = res_map (\<lambda>v. (v, j)) (res_map core_view r)"
  by (cases r) (simp_all add: session_obs_def core_view_def)

lemma RollbackTo_undoable:
  assumes "session_inv s" "undoable s s'" "n \<le> length (se_journal s)"
  shows "res_map session_obs (RollbackTo n s') = res_map session_obs (RollbackTo n s)"
proof -
  obtain e where e: "se_journal s' = se_journal s @ [e]" "entry_ok s' e"
    "res_map core_view (undo_entry e s') = Inr (core_view s)"
    using assms(2) by (auto simp: undoable_def)
  obtain t where t: "undo_entry e s' = Inr t" "fmdom (se_accounts t) = fmdom (se_accounts s')"
    using undo_entry_ok [OF e(2)] by auto
  let ?es = "rev (drop n (se_journal s))"
  have "session_inv s'" using session_inv_undoable assms by blast
  then have "list_all (entry_ok s') (se_journal s)" using e(1) by (simp add: session_inv_def)
  then have "list_all (entry_ok t) (se_journal s)" using entry_ok_cong [OF t(2)] by (simp add: list_all_iff)
  then have "res_map core_view (undo_all ?es t) = res_map core_view (undo_all ?es s)"
    using assms(1) e(3) t(1) by (intro undo_all_view list_all_rev_drop) (simp_all add: session_inv_def)
  moreover have "undo_all (rev (drop n (se_journal s'))) s' = undo_all ?es t"
    using assms(3) e(1) t(1) by simp
  ultimately show ?thesis using assms(3) e(1) by (simp add: RollbackTo_def session_obs_undo)
qed

lemma undo_all_journal_cong:
  "undo_all es (s\<lparr>se_journal := j\<rparr>) = res_map (\<lambda>t. t\<lparr>se_journal := j\<rparr>) (undo_all es s)"
proof (induction es arbitrary: s)
  case (Cons e es)
  have "undo_entry e (s\<lparr>se_journal := j\<rparr>) = res_map (\<lambda>t. t\<lparr>se_journal := j\<rparr>) (undo_entry e s)"
    by (cases "(e, s)" rule: undo_entry.cases) (auto simp: update_account_def split: option.splits)
  then show ?case using Cons.IH by (cases "undo_entry e s") simp_all
qed simp

lemma RollbackTo_twice:
  assumes "k \<le> n" "RollbackTo n s = Inr s'"
  shows "RollbackTo k s' = RollbackTo k s"
proof (cases "n > length (se_journal s)")
  case False
  then obtain t where t: "undo_all (rev (drop n (se_journal s))) s = Inr t"
    "s' = t\<lparr>se_journal := take n (se_journal s)\<rparr>"
    using assms(2) by (auto simp: RollbackTo_def and_then_Inr_iff)
  let ?j = "se_journal s"
  have "drop k ?j = drop k (take n ?j) @ drop n ?j"
    using False assms(1) drop_append [of k "take n ?j" "drop n ?j"] by simp
  then have "undo_all (rev (drop k ?j)) s = undo_all (rev (drop k (take n ?j))) t"
    using t(1) by (simp add: undo_all_append)
  then show ?thesis using False assms(1) t(2)
    by (auto simp: RollbackTo_def undo_all_journal_cong and_then_def res_map_def min_def split: sum.splits)
qed (use assms in \<open>simp add: RollbackTo_def\<close>)

definition ms_inv :: "manager \<times> session \<Rightarrow> bool" where "ms_inv ms = session_inv (snd ms)"

definition ms_jlen :: "manager \<times> session \<Rightarrow> nat" where "ms_jlen ms = Savepoint (snd ms)"

definition ms_rollback :: "nat \<Rightarrow> manager \<times> session \<Rightarrow> (manager \<times> session) res" where
  "ms_rollback n ms = res_map (Pair (fst ms)) (RollbackTo n (snd ms))"

definition ms_obs where "ms_obs ms = session_obs (snd ms)"

lemma res_map_ms_obs: "res_map ms_obs (ms_rollback n ms) = res_map session_obs (RollbackTo n (snd ms))"
  by (cases "RollbackTo n (snd ms)") (simp_all add: ms_rollback_def ms_obs_def)

interpretation js: journaled ms_inv ms_jlen ms_rollback "write_step kec" ms_obs for kec
proof (unfold_locales, goal_cases)
  case (1 s op)
  then show ?case using write_undoable [of kec op "fst s" "snd s"] session_inv_undoable
    by (fastforce simp: ms_inv_def ms_jlen_def Savepoint_def undoable_def)
next
  case (2 s op s' n)
  have "undoable (snd s) (snd s')" using write_undoable [of kec op "fst s" "snd s"] 2(2) by auto
  then show ?case using RollbackTo_undoable 2 by (simp add: res_map_ms_obs ms_inv_def ms_jlen_def Savepoint_def)
next
  case (3 s n)
  then show ?case using RollbackTo_ok [of "snd s" n]
    by (auto simp: ms_rollback_def ms_inv_def ms_jlen_def Savepoint_def min.commute)
next
  case (4 s n)
  then show ?case by (cases "n = ms_jlen s") (auto simp: ms_rollback_def RollbackTo_def ms_jlen_def Savepoint_def)
next
  case (5 s k n s')
  then show ?case using RollbackTo_twice [of k n "snd s"]
    by (cases "RollbackTo n (snd s)") (auto simp: ms_rollback_def)
qed

section \<open>What the root depends on\<close>

text \<open>The accounts the root covers: those that are not empty.\<close>

definition live :: "(address, account) fmap \<Rightarrow> address \<Rightarrow> account option" where
  "live accs a = (if account_IsEmpty (account_at accs a) then None else Some (account_at accs a))"

lemma empty_account_IsEmpty [simp]: "account_IsEmpty empty_account"
  by (simp add: account_IsEmpty_def empty_account_def uint256_is_zero_iff)

lemma dom_live: "dom (live accs) = {a \<in> fmdom' accs. \<not> account_IsEmpty (the (fmlookup accs a))}"
  by (auto simp: live_def account_at_def dom_def fmlookup_dom'_iff split: option.splits if_splits)

lemma finite_dom_live: "finite (dom (live accs))"
  by (simp add: dom_live)

lemma ser_accounts_filter:
  "ser_accounts accs = concat (map (\<lambda>a. ser_account a (the (fmlookup accs a)))
     (filter (\<lambda>a. \<not> account_IsEmpty (the (fmlookup accs a))) (sorted_keys accs)))"
proof -
  have "foldl (\<lambda>buf addr. let acc = the (fmlookup accs addr) in
      if account_IsEmpty acc then buf else buf @ ser_account addr acc) b ks =
    b @ concat (map (\<lambda>a. ser_account a (the (fmlookup accs a)))
      (filter (\<lambda>a. \<not> account_IsEmpty (the (fmlookup accs a))) ks))" for b ks
    by (induction ks arbitrary: b) (simp_all add: Let_def)
  then show ?thesis by (simp add: ser_accounts_def)
qed

lemma ser_accounts_live:
  "ser_accounts accs =
     concat (map (\<lambda>a. ser_account a (the (live accs a))) (sorted_list_of_set (dom (live accs))))"
proof -
  let ?ks = "filter (\<lambda>a. \<not> account_IsEmpty (the (fmlookup accs a))) (sorted_keys accs)"
  have "set ?ks = dom (live accs)" by (auto simp: dom_live)
  moreover have "sorted ?ks" "distinct ?ks" by (simp_all add: sorted_wrt_filter)
  ultimately have "sorted_list_of_set (dom (live accs)) = ?ks"
    by (metis sorted_list_of_set.idem_if_sorted_distinct)
  moreover have vals: "the (live accs a) = the (fmlookup accs a)" if "a \<in> set ?ks" for a
    using that by (auto simp: live_def account_at_def fmlookup_dom'_iff)
  moreover have "map (\<lambda>a. ser_account a (the (live accs a))) ?ks =
      map (\<lambda>a. ser_account a (the (fmlookup accs a))) ?ks"
    by (rule map_cong) (simp_all only: vals)
  ultimately show ?thesis unfolding ser_accounts_filter by metis
qed

lemma state_root_live: "live accs = live accs' \<Longrightarrow> state_root kec accs st = state_root kec accs' st"
  by (simp add: state_root_def ser_accounts_live)

lemma live_cong: "account_at accs = account_at accs' \<Longrightarrow> live accs = live accs'"
  by (simp add: live_def fun_eq_iff)

lemma length_ser_account: "length (ser_account a acc) = 124"
  by (simp add: ser_account_def)

lemma ser_account_inj: "ser_account a acc = ser_account a' acc' \<longleftrightarrow> a = a' \<and> acc = acc'"
  by (cases acc; cases acc') (auto simp: ser_account_def)

definition ser_slot :: "(address \<times> hash, hash) fmap \<Rightarrow> address \<times> hash \<Rightarrow> bytes" where
  "ser_slot st k = word_bytes (fst k) @ word_bytes (snd k) @ word_bytes (the (fmlookup st k))"

lemma ser_storage_slots: "ser_storage st = concat (map (ser_slot st) (sorted_keys st))"
  unfolding ser_storage_def by (intro arg_cong [of _ _ concat] map_cong) (simp_all add: ser_slot_def)

lemma length_concat_const: "(\<And>x. x \<in> set xs \<Longrightarrow> length (f x) = n) \<Longrightarrow> length (concat (map f xs)) = n * length xs"
  by (induction xs) auto

lemma concat_map_inj:
  assumes "concat (map f xs) = concat (map g ys)" "length xs = length ys"
    "\<And>x y. length (f x) = length (g y)"
  shows "map f xs = map g ys"
  using assms(1) by (rule concat_injective) (use assms(2,3) in \<open>auto simp: set_zip\<close>)

lemma length_ser_slot: "length (ser_slot st k) = 84"
  by (simp add: ser_slot_def)

lemma ser_slot_inj: "ser_slot st k = ser_slot st' k' \<longleftrightarrow> k = k' \<and> the (fmlookup st k) = the (fmlookup st' k')"
  by (cases k; cases k') (auto simp: ser_slot_def)

lemma ser_storage_inj:
  assumes "ser_storage st = ser_storage st'"
  shows "st = st'"
proof -
  have "84 * length (sorted_keys st) = 84 * length (sorted_keys st')"
    using arg_cong [OF assms, of length] by (simp add: ser_storage_slots length_concat_const length_ser_slot)
  then have m: "map (ser_slot st) (sorted_keys st) = map (ser_slot st') (sorted_keys st')"
    using assms by (intro concat_map_inj) (simp_all add: ser_storage_slots length_ser_slot)
  then have len: "length (sorted_keys st) = length (sorted_keys st')" by (metis length_map)
  have nth: "sorted_keys st ! i = sorted_keys st' ! i \<and>
      the (fmlookup st (sorted_keys st ! i)) = the (fmlookup st' (sorted_keys st' ! i))"
    if "i < length (sorted_keys st)" for i
    using arg_cong [OF m, of "\<lambda>l. l ! i"] that len unfolding ser_slot_inj [symmetric] by simp
  then have keys: "sorted_keys st = sorted_keys st'" by (intro nth_equalityI [OF len]) blast
  have vals: "the (fmlookup st k) = the (fmlookup st' k)" if "k \<in> fmdom' st" for k
  proof -
    have "k \<in> set (sorted_keys st)" using that by simp
    then obtain i where "i < length (sorted_keys st)" "k = sorted_keys st ! i"
      by (auto simp: in_set_conv_nth simp del: set_sorted_keys)
    then show ?thesis using nth keys by metis
  qed
  show ?thesis by (rule fmap_eq_sorted_keys [OF keys]) (use vals in simp)
qed

lemma ser_accounts_inj:
  assumes "ser_accounts accs = ser_accounts accs'" "card (dom (live accs)) = card (dom (live accs'))"
  shows "live accs = live accs'"
proof -
  let ?xs = "sorted_list_of_set (dom (live accs))" and ?ys = "sorted_list_of_set (dom (live accs'))"
  have len: "length ?xs = length ?ys" using assms(2) finite_dom_live by simp
  have m: "map (\<lambda>a. ser_account a (the (live accs a))) ?xs = map (\<lambda>a. ser_account a (the (live accs' a))) ?ys"
    using assms(1) len by (intro concat_map_inj) (simp_all add: ser_accounts_live length_ser_account)
  have nth: "?xs ! i = ?ys ! i \<and> the (live accs (?xs ! i)) = the (live accs' (?ys ! i))" if "i < length ?xs" for i
    using arg_cong [OF m, of "\<lambda>l. l ! i"] that len unfolding ser_account_inj [symmetric]
    by (simp del: length_sorted_list_of_set)
  then have keys: "?xs = ?ys" by (intro nth_equalityI [OF len]) blast
  then have dom: "dom (live accs) = dom (live accs')"
    using finite_dom_live by (metis sorted_list_of_set.set_sorted_key_list_of_set)
  have "the (live accs a) = the (live accs' a)" if "a \<in> dom (live accs)" for a
  proof -
    have "a \<in> set ?xs" using that finite_dom_live by simp
    then obtain i where "i < length ?xs" "a = ?xs ! i" by (auto simp: in_set_conv_nth simp del: set_sorted_list_of_set)
    then show ?thesis using nth keys by metis
  qed
  then show ?thesis using dom by (metis domD domIff ext option.collapse)
qed

section \<open>Properties\<close>

text \<open>No step removes an account, rolling back included.\<close>

lemma RollbackTo_dom:
  assumes "session_inv s" "RollbackTo n s = Inr s'"
  shows "fmdom (se_accounts s') = fmdom (se_accounts s)"
proof (cases "n > length (se_journal s)")
  case False
  obtain t where t: "undo_all (rev (drop n (se_journal s))) s = Inr t" "fmdom (se_accounts t) = fmdom (se_accounts s)"
    using undo_all_ok [OF list_all_rev_drop [OF assms(1) [unfolded session_inv_def]]] by blast
  have "s' = t\<lparr>se_journal := take n (se_journal s)\<rparr>" using False assms(2) by (simp add: RollbackTo_def t(1))
  then show ?thesis using t(2) by simp
qed (use assms in \<open>simp add: RollbackTo_def\<close>)

lemma run_dom:
  "session_inv s \<Longrightarrow> run (write_step kec) ms_rollback as (m, s) = Inr (m', s') \<Longrightarrow>
   session_inv s' \<and> fmdom (se_accounts s) |\<subseteq>| fmdom (se_accounts s')"
proof (induction as arbitrary: m s)
  case (Cons a as)
  show ?case
  proof (cases a)
    case (Do op)
    obtain m1 s1 where w: "write_step kec op (m, s) = Inr (m1, s1)" "undoable s s1" using write_undoable by blast
    then have "fmdom (se_accounts s) |\<subseteq>| fmdom (se_accounts s1)" by (auto simp: undoable_def)
    then show ?thesis using Cons.IH [OF session_inv_undoable [OF Cons.prems(1) w(2)]] Cons.prems(2) Do w(1) by auto
  next
    case (Back n)
    obtain s1 where r: "RollbackTo n s = Inr s1" "session_inv s1" using RollbackTo_ok [OF Cons.prems(1)] by blast
    then show ?thesis using Cons.IH [OF r(2)] RollbackTo_dom [OF Cons.prems(1) r(1)] Cons.prems(2) Back
      by (simp add: ms_rollback_def)
  qed
qed simp

text \<open>
  C11: rolling back to a savepoint undoes everything done since, except that accounts stay created. From a session
  whose journal is well formed, any sequence of setters and nested rollbacks that stays above the savepoint runs
  without a panic. \<open>RollbackTo\<close> the savepoint then restores all slots and the journal, and every account there was
  reads as it did. An account there was not reads as the empty one if it was created since, where \<open>GetAccount\<close> gave
  \<open>ErrAccountNotFound\<close> before, and is not found otherwise. The state root, which skips empty accounts, is
  as it was.
\<close>

theorem rollback_restores:
  assumes "session_inv s" "stays_above (Savepoint s) as"
  shows "\<exists>m' s' s''. run (write_step kec) ms_rollback as (m, s) = Inr (m', s')
    \<and> RollbackTo (Savepoint s) s' = Inr s''
    \<and> (\<forall>a. GetAccount s'' a = (case GetAccount s a of Inr acc \<Rightarrow> Inr acc
          | Inl e \<Rightarrow> if is_ok (GetAccount s' a) then Inr empty_account else Inl e))
    \<and> se_storage s'' = se_storage s \<and> se_journal s'' = se_journal s
    \<and> state_root kec (se_accounts s'') (se_storage s'') = state_root kec (se_accounts s) (se_storage s)"
proof -
  have inv: "ms_inv (m, s)" using assms(1) by (simp add: ms_inv_def)
  obtain m' s' where run: "run (write_step kec) ms_rollback as (m, s) = Inr (m', s')"
    using js.run_total [OF inv] by (metis prod.exhaust)
  obtain ms'' where "ms_rollback (ms_jlen (m, s)) (m', s') = Inr ms''" "ms_obs ms'' = ms_obs (m, s)"
    using js.run_back_here [OF inv _ run] assms(2) by (auto simp: ms_jlen_def)
  then obtain s'' where s'': "RollbackTo (Savepoint s) s' = Inr s''" "session_obs s'' = session_obs s"
    by (cases "RollbackTo (Savepoint s) s'") (auto simp: ms_rollback_def ms_jlen_def ms_obs_def)
  then have same: "account_at (se_accounts s'') = account_at (se_accounts s)" "se_storage s'' = se_storage s"
    "se_journal s'' = se_journal s"
    by (simp_all add: session_obs_def core_view_def)
  note dom = run_dom [OF assms(1) run]
  have dom'': "fmdom (se_accounts s'') = fmdom (se_accounts s')" using RollbackTo_dom [OF _ s''(1)] dom by simp
  have "GetAccount s'' a = (case GetAccount s a of Inr acc \<Rightarrow> Inr acc
      | Inl e \<Rightarrow> if is_ok (GetAccount s' a) then Inr empty_account else Inl e)" for a
  proof -
    have "account_at (se_accounts s'') a = account_at (se_accounts s) a" using same(1) by simp
    moreover have "fmlookup (se_accounts s'') a = None \<longleftrightarrow> fmlookup (se_accounts s') a = None"
      using dom'' by (metis fmdom_notD fmdom_notI)
    moreover have "fmlookup (se_accounts s) a \<noteq> None \<Longrightarrow> fmlookup (se_accounts s') a \<noteq> None"
      using dom by (metis fmdom_notD fmdom_notI fset_rev_mp)
    ultimately show ?thesis by (auto simp: GetAccount_def account_at_def split: option.splits)
  qed
  moreover have "state_root kec (se_accounts s'') (se_storage s'') = state_root kec (se_accounts s) (se_storage s)"
    using state_root_live [OF live_cong] same(1,2) by metis
  ultimately show ?thesis using run s''(1) same(2,3) by blast
qed

theorem rollback_restores_witness:
  "\<exists>m' s' s''. run (write_step (\<lambda>b. 7)) ms_rollback
      [Do (WBalance 1 10), Do (WStorage 1 2 3), Do (WStorage 1 2 0), Back 2, Do (WCode 9 [1])]
      (NewMemoryManager, \<lparr>se_parent = 0, se_accounts = fmupd 1 empty_account fmempty, se_storage = fmempty,
         se_journal = [JAccount 1 (Some empty_account)], se_done = False\<rparr>) = Inr (m', s')
    \<and> RollbackTo 1 s' = Inr s'' \<and> se_storage s'' = fmempty \<and> GetAccount s'' 1 = Inr empty_account"
  using rollback_restores [of "\<lparr>se_parent = 0, se_accounts = fmupd 1 empty_account fmempty,
        se_storage = fmempty, se_journal = [JAccount 1 (Some empty_account)], se_done = False\<rparr>"
      "[Do (WBalance 1 10), Do (WStorage 1 2 3), Do (WStorage 1 2 0), Back 2, Do (WCode 9 [1])]"
      "\<lambda>b. 7" NewMemoryManager]
  by (auto simp: session_inv_def stays_above_def Savepoint_def GetAccount_def)

text \<open>
  a committed state can be reopened. \<open>Commit\<close> of an open session returns a root under which
  \<open>Begin\<close> gives a fresh session with the same accounts and the same slots, and an empty journal.
\<close>

theorem Commit_Begin:
  assumes "Commit kec (m, s) = Inr (root, m', s')"
  shows "Begin m' root = Inr \<lparr>se_parent = root, se_accounts = se_accounts s, se_storage = se_storage s,
    se_journal = [], se_done = False\<rparr> \<and> Commit kec (m', s') = Inl ErrSessionCommitted"
  using assms by (auto simp: Commit_def Begin_def Let_def split: if_splits)

theorem Commit_Begin_witness:
  "\<exists>m' s'. Commit (\<lambda>b. 5) (NewMemoryManager, SetStorage 1 2 3 \<lparr>se_parent = 0, se_accounts = fmempty,
        se_storage = fmempty, se_journal = [], se_done = False\<rparr>) = Inr (5, m', s')
    \<and> (\<exists>s''. Begin m' 5 = Inr s'' \<and> GetStorage s'' 1 2 = 3)"
proof -
  let ?s = "SetStorage 1 2 3 \<lparr>se_parent = 0, se_accounts = fmempty,
        se_storage = fmempty, se_journal = [], se_done = False\<rparr>"
  have st: "se_storage ?s = fmupd (1, 2) 3 fmempty" "\<not> se_done ?s"
    by (simp_all add: SetStorage_def ensureAccount_def)
  then obtain m' s' where c: "Commit (\<lambda>b. 5) (NewMemoryManager, ?s) = Inr (5, m', s')"
    by (simp add: Commit_def state_root_def Keccak256_def)
  show ?thesis using c conjunct1 [OF Commit_Begin [OF c]] st(1) by (simp add: GetStorage_def)
qed

text \<open>
  C39: the state root binds the state. When Keccak does not collide on the two serialisations, and
  as many non-empty accounts are covered on both sides, equal roots mean the same non-empty accounts
  and the same slots.
\<close>

theorem state_root_binding:
  assumes "inj_on kec {ser_accounts accs @ ser_storage st, ser_accounts accs' @ ser_storage st'}"
    "card (dom (live accs)) = card (dom (live accs'))"
    "state_root kec accs st = state_root kec accs' st'"
  shows "live accs = live accs' \<and> st = st'"
proof -
  have "ser_accounts accs @ ser_storage st = ser_accounts accs' @ ser_storage st'"
    using assms(3) by (intro inj_onD [OF assms(1)]) (simp_all add: state_root_def Keccak256_def)
  moreover have "length (ser_accounts accs) = length (ser_accounts accs')"
    using assms(2) finite_dom_live by (simp add: ser_accounts_live length_concat_const length_ser_account)
  ultimately have "ser_accounts accs = ser_accounts accs'" "ser_storage st = ser_storage st'"
    by simp_all
  then show ?thesis using ser_accounts_inj assms(2) ser_storage_inj by blast
qed

theorem state_root_binding_witness:
  "state_root (\<lambda>b. if b = [] then 1 else 2) fmempty fmempty
   \<noteq> state_root (\<lambda>b. if b = [] then 1 else 2) fmempty (fmupd (1, 2) 3 fmempty)"
proof -
  let ?st = "fmupd (1, 2) (3 :: hash) fmempty" and ?k = "\<lambda>b :: bytes. if b = [] then 1 else (2 :: hash)"
  have e: "ser_accounts fmempty = []" "ser_storage fmempty = []"
    by (simp_all add: ser_accounts_def ser_storage_def)
  have "length (ser_storage ?st) = 84" by (simp add: ser_storage_def sorted_keys_fmupd)
  then have "ser_storage ?st \<noteq> []" by auto
  then have "inj_on ?k {ser_accounts fmempty @ ser_storage fmempty, ser_accounts fmempty @ ser_storage ?st}"
    by (simp add: e)
  moreover have "fmempty \<noteq> ?st" by (metis fmempty_lookup fmupd_lookup option.distinct(1))
  ultimately show ?thesis using state_root_binding [of ?k fmempty fmempty fmempty ?st] by auto
qed

text \<open>
  each setter changes what it names and nothing else. \<open>SetNonce\<close>, \<open>SetBalance\<close> and \<open>SetCode\<close>
  never fail, change one field of one account and no slot; \<open>SetStorage\<close> changes one slot and no
  account; the code \<open>SetCode\<close> stored is what \<open>GetCode\<close> returns.
\<close>

theorem setters_frame:
  "(\<exists>s1. SetNonce a n s = Inr s1
      \<and> account_at (se_accounts s1) = (account_at (se_accounts s))(a := account_at (se_accounts s) a\<lparr>acc_Nonce := n\<rparr>)
      \<and> se_storage s1 = se_storage s)
   \<and> (\<exists>s2. SetBalance a v s = Inr s2
      \<and> account_at (se_accounts s2) = (account_at (se_accounts s))(a := account_at (se_accounts s) a\<lparr>acc_Balance := v\<rparr>)
      \<and> se_storage s2 = se_storage s)
   \<and> (\<exists>m3 s3. SetCode kec a code (m, s) = Inr (m3, s3)
      \<and> account_at (se_accounts s3) = (account_at (se_accounts s))(a := account_at (se_accounts s) a\<lparr>acc_CodeHash := kec code\<rparr>)
      \<and> se_storage s3 = se_storage s \<and> GetCode m3 s3 a = Inr code)
   \<and> account_at (se_accounts (SetStorage a k w s)) = account_at (se_accounts s)
   \<and> GetStorage (SetStorage a k w s) = (GetStorage s)(a := (GetStorage s a)(k := w))"
  by (cases "fmlookup (se_accounts s) a")
    (auto simp: SetNonce_def SetBalance_def SetCode_def SetStorage_def Let_def update_account_def
      recordAccount_def ensureAccount_def account_at_simps GetCode_def GetStorage_def Keccak256_def fun_eq_iff)

end
