(* ===== verification/Tx.thy ===== *)
theory Tx
  imports State
begin

text \<open>
  Transactions: \<open>chain/tx.go\<close> and the transaction half of \<open>chain/codec.go\<close>. \<open>Hash\<close> caches its
  result in the transaction it is called on, so here it returns the updated transaction. The
  closures \<open>read8\<close> and \<open>read32\<close> of the decoder are reads from the front of the remaining bytes.
\<close>

section \<open>Transactions\<close>

definition TxTypeLegacy :: byte where "TxTypeLegacy = 0"
definition TxTypeAccessList :: byte where "TxTypeAccessList = 0x01"
definition TxTypeDynamicFee :: byte where "TxTypeDynamicFee = 0x02"

lemmas tx_types = TxTypeLegacy_def TxTypeAccessList_def TxTypeDynamicFee_def

record transaction =
  tx_Type :: byte
  tx_ChainID :: uint64
  tx_Nonce :: nonce
  tx_MaxPriorityFeePerGas :: uint256
  tx_MaxFeePerGas :: uint256
  tx_GasPrice :: uint256
  tx_GasLimit :: gas
  tx_To :: "address option"
  tx_Value :: uint256
  tx_Data :: bytes
  tx_Signature :: signature
  tx_From :: address
  tx_HashCache :: "hash option"

definition beUint64 :: "uint64 \<Rightarrow> bytes" where
  "beUint64 v = word_bytes v"

definition SigningPayload :: "transaction \<Rightarrow> bytes" where
  "SigningPayload tx =
     beUint64 (tx_ChainID tx) @ beUint64 (tx_Nonce tx) @
     (if tx_Type tx = TxTypeDynamicFee
      then word_bytes (tx_MaxPriorityFeePerGas tx) @ word_bytes (tx_MaxFeePerGas tx)
      else word_bytes (tx_GasPrice tx)) @
     beUint64 (tx_GasLimit tx) @
     (case tx_To tx of Some a \<Rightarrow> word_bytes a | None \<Rightarrow> replicate AddressLen 0) @
     word_bytes (tx_Value tx) @
     beUint64 (word_of_nat (length (tx_Data tx))) @ tx_Data tx"

definition tx_type_prefix :: "transaction \<Rightarrow> bytes" where
  "tx_type_prefix tx = (if tx_Type tx \<noteq> TxTypeLegacy then [tx_Type tx] else [])"

definition tx_Hash :: "keccak \<Rightarrow> transaction \<Rightarrow> hash \<times> transaction" where
  "tx_Hash kec tx =
     (case tx_HashCache tx of
        Some h \<Rightarrow> (h, tx)
      | None \<Rightarrow>
          let h = Keccak256 kec [tx_type_prefix tx @ SigningPayload tx]
          in (h, tx\<lparr>tx_HashCache := Some h\<rparr>))"

definition tx_Encode :: "transaction \<Rightarrow> bytes res" where
  "tx_Encode tx =
     (let out = tx_type_prefix tx @ SigningPayload tx @ word_bytes (tx_Signature tx) @
                (case tx_HashCache tx of Some h \<Rightarrow> [0x01] @ word_bytes h | None \<Rightarrow> [0x00])
      in if length out > MaxTxSize + HashLen + 1 then Inl ErrOversized else Inr out)"

definition EffectivePriorityFee :: "transaction \<Rightarrow> uint256 \<Rightarrow> uint256" where
  "EffectivePriorityFee tx baseFee =
     (if tx_Type tx \<noteq> TxTypeDynamicFee then
        (if uint256_cmp (tx_GasPrice tx) baseFee \<le> 0 then zero_uint256
         else case uint256_sub (tx_GasPrice tx) baseFee of Inl _ \<Rightarrow> zero_uint256 | Inr p \<Rightarrow> p)
      else if uint256_cmp (tx_MaxFeePerGas tx) baseFee \<le> 0 then zero_uint256
      else case uint256_sub (tx_MaxFeePerGas tx) baseFee of
             Inl _ \<Rightarrow> zero_uint256
           | Inr headroom \<Rightarrow>
               if uint256_cmp (tx_MaxPriorityFeePerGas tx) headroom < 0
               then tx_MaxPriorityFeePerGas tx else headroom)"

section \<open>Decoding\<close>

definition read8 :: "bytes \<Rightarrow> (uint64 \<times> bytes) res" where
  "read8 rest = (if length rest < 8 then Inl ErrCodec else Inr (bytes_word (take 8 rest), drop 8 rest))"

definition read32 :: "bytes \<Rightarrow> (bytes \<times> bytes) res" where
  "read32 rest = (if length rest < 32 then Inl ErrCodec else Inr (take 32 rest, drop 32 rest))"

text \<open>\<open>_ = u.SetBytes(b)\<close> on a zero value.\<close>

definition set_u256 :: "bytes \<Rightarrow> uint256" where
  "set_u256 b = (case uint256_set_bytes b of Inl _ \<Rightarrow> zero_uint256 | Inr v \<Rightarrow> v)"

definition read_fees :: "byte \<Rightarrow> bytes \<Rightarrow> ((uint256 \<times> uint256 \<times> uint256) \<times> bytes) res" where
  "read_fees ty rest =
     (if ty = TxTypeDynamicFee then
        and_then (read32 rest) (\<lambda>(p, rest). and_then (read32 rest) (\<lambda>(m, rest).
          Inr ((set_u256 p, set_u256 m, 0), rest)))
      else and_then (read32 rest) (\<lambda>(g, rest). Inr ((0, 0, set_u256 g), rest)))"

definition read_to :: "bytes \<Rightarrow> (address option \<times> bytes) res" where
  "read_to rest =
     (if length rest < AddressLen then Inl ErrCodec
      else let to = bytes_word (take AddressLen rest)
           in Inr (if address_is_zero to then None else Some to, drop AddressLen rest))"

definition read_data :: "bytes \<Rightarrow> (bytes \<times> bytes) res" where
  "read_data rest =
     and_then (read8 rest) (\<lambda>(dataLen, rest).
       if word_of_nat (length rest) < dataLen \<or> dataLen > word_of_nat MaxTxSize then Inl ErrCodec
       else split_at (unat dataLen) rest GoPanic)"

definition read_signature :: "bytes \<Rightarrow> signature \<times> bytes" where
  "read_signature rest =
     (if length rest \<ge> SignatureLen then (bytes_word (take SignatureLen rest), drop SignatureLen rest)
      else (0, rest))"

definition read_hash_segment :: "bytes \<Rightarrow> (hash option \<times> bytes) res" where
  "read_hash_segment rest =
     (if length rest \<ge> 1 then
        let flag = rest ! 0; rest = drop 1 rest in
        if flag = 0x00 then Inr (None, rest)
        else if flag = 0x01 then
          (if length rest < HashLen then Inl ErrCodec
           else Inr (Some (bytes_word (take HashLen rest)), drop HashLen rest))
        else Inl ErrCodec
      else Inr (None, rest))"

definition DecodeTx :: "bytes \<Rightarrow> transaction res" where
  "DecodeTx data =
     (if length data = 0 then Inl ErrCodec
      else if length data > MaxTxSize then Inl ErrOversized
      else
        let (ty, rest) = (if data ! 0 \<le> 0x7f then (data ! 0, drop 1 data) else (TxTypeLegacy, data)) in
        and_then (read8 rest) (\<lambda>(chainID, rest).
        and_then (read8 rest) (\<lambda>(nonce, rest).
        and_then (read_fees ty rest) (\<lambda>((prio, maxFee, gasPrice), rest).
        and_then (read8 rest) (\<lambda>(gasLimit, rest).
        and_then (read_to rest) (\<lambda>(to, rest).
        and_then (read32 rest) (\<lambda>(val, rest).
        and_then (read_data rest) (\<lambda>(dat, rest).
        let (sig, rest) = read_signature rest in
        and_then (read_hash_segment rest) (\<lambda>(h, rest).
          if length rest \<noteq> 0 then Inl ErrCodec
          else Inr \<lparr>tx_Type = ty, tx_ChainID = chainID, tx_Nonce = nonce,
                    tx_MaxPriorityFeePerGas = prio, tx_MaxFeePerGas = maxFee, tx_GasPrice = gasPrice,
                    tx_GasLimit = gasLimit, tx_To = to, tx_Value = set_u256 val, tx_Data = dat,
                    tx_Signature = sig, tx_From = 0, tx_HashCache = h\<rparr>)))))))))"

section \<open>Reading back what was written\<close>

lemma length_beUint64 [simp, len_simps]: "length (beUint64 v) = 8"
  by (simp add: beUint64_def)

lemma read8_beUint64 [codec_simps]: "read8 (beUint64 v @ rest) = Inr (v, rest)"
  by (simp add: read8_def beUint64_def)

lemma read32_word [codec_simps]: "read32 (word_bytes (w :: 256 word) @ rest) = Inr (word_bytes w, rest)"
  by (simp add: read32_def)

lemma set_u256_word [codec_simps]: "set_u256 (word_bytes w) = w"
  by (simp add: set_u256_def uint256_set_bytes_def)

definition to_bytes :: "address option \<Rightarrow> bytes" where
  "to_bytes to = (case to of Some a \<Rightarrow> word_bytes a | None \<Rightarrow> replicate AddressLen 0)"

lemma length_to_bytes [simp, len_simps]: "length (to_bytes to) = 20"
  by (simp add: to_bytes_def size_consts split: option.splits)

lemma read_to_bytes [codec_simps]:
  "to \<noteq> Some 0 \<Longrightarrow> read_to (to_bytes to @ rest) = Inr (to, rest)"
  by (auto simp: read_to_def to_bytes_def size_consts address_is_zero_def split: option.splits)

lemma read_data_bytes [codec_simps]:
  assumes "length d \<le> MaxTxSize" "length (d @ rest) < 2 ^ 64"
  shows "read_data (beUint64 (word_of_nat (length d)) @ d @ rest) = Inr (d, rest)"
proof -
  have u: "unat (word_of_nat (length d) :: uint64) = length d" using assms by (simp add: unat_of_nat)
  have "unat (word_of_nat (length (d @ rest)) :: uint64) = length (d @ rest)"
    using assms(2) unfolding unat_of_nat by simp
  then have "\<not> word_of_nat (length (d @ rest)) < (word_of_nat (length d) :: uint64)"
    using u by (simp add: word_less_nat_alt del: of_nat_add)
  moreover have "\<not> (word_of_nat MaxTxSize :: uint64) < word_of_nat (length d)"
    using u assms(1) by (simp add: word_less_nat_alt unat_of_nat size_consts)
  ultimately show ?thesis using u by (simp add: read_data_def read8_beUint64 del: of_nat_add)
qed

lemma read_signature_bytes [codec_simps]: "read_signature (word_bytes (s :: signature) @ rest) = (s, rest)"
  by (simp add: read_signature_def size_consts)

definition hash_segment :: "hash option \<Rightarrow> bytes" where
  "hash_segment h = (case h of Some h \<Rightarrow> [0x01] @ word_bytes h | None \<Rightarrow> [0x00])"

lemma read_hash_segment_bytes [codec_simps]: "read_hash_segment (hash_segment h) = Inr (h, [])"
  by (simp add: read_hash_segment_def hash_segment_def size_consts split: option.splits)

definition fee_bytes :: "transaction \<Rightarrow> bytes" where
  "fee_bytes tx = (if tx_Type tx = TxTypeDynamicFee
      then word_bytes (tx_MaxPriorityFeePerGas tx) @ word_bytes (tx_MaxFeePerGas tx)
      else word_bytes (tx_GasPrice tx))"

text \<open>The fee fields the type does not use are zero.\<close>

definition fees_ok :: "transaction \<Rightarrow> bool" where
  "fees_ok tx \<longleftrightarrow> (if tx_Type tx = TxTypeDynamicFee then tx_GasPrice tx = 0
     else tx_MaxPriorityFeePerGas tx = 0 \<and> tx_MaxFeePerGas tx = 0)"

lemma read_fees_bytes [codec_simps]:
  "fees_ok tx \<Longrightarrow> read_fees (tx_Type tx) (fee_bytes tx @ rest) =
     Inr ((tx_MaxPriorityFeePerGas tx, tx_MaxFeePerGas tx, tx_GasPrice tx), rest)"
  by (auto simp: read_fees_def fee_bytes_def fees_ok_def codec_simps)

lemma tx_Encode_layout:
  "tx_Encode tx = Inr bs \<Longrightarrow> bs = tx_type_prefix tx @ beUint64 (tx_ChainID tx) @ beUint64 (tx_Nonce tx) @
     fee_bytes tx @ beUint64 (tx_GasLimit tx) @ to_bytes (tx_To tx) @ word_bytes (tx_Value tx) @
     beUint64 (word_of_nat (length (tx_Data tx))) @ tx_Data tx @ word_bytes (tx_Signature tx) @
     hash_segment (tx_HashCache tx)"
  by (auto simp: tx_Encode_def SigningPayload_def Let_def fee_bytes_def to_bytes_def hash_segment_def
      split: if_splits)

section \<open>Codecs and length-prefixed sequences\<close>

definition leUint32 :: "uint32 \<Rightarrow> bytes" where
  "leUint32 v = le_bytes 4 (unat v)"

definition getLeUint32 :: "bytes \<Rightarrow> uint32" where
  "getLeUint32 b = word_of_nat (le_val b)"

lemma length_leUint32 [simp, len_simps]: "length (leUint32 v) = 4"
  by (simp add: leUint32_def)

lemma getLeUint32_leUint32 [simp, codec_simps]: "getLeUint32 (leUint32 v) = v"
proof -
  have "unat v < 256 ^ 4" using unat_less_pow [of v] by simp
  then show ?thesis by (simp add: getLeUint32_def leUint32_def le_val_le_bytes)
qed

text \<open>
  Elements written one after another, each behind its length in four little-endian bytes, and read
  back, as the block body does with transactions. An element's own error becomes \<open>ErrCodec\<close>.
\<close>

fun write_items :: "('a \<Rightarrow> bytes res) \<Rightarrow> 'a list \<Rightarrow> bytes res" where
  "write_items enc [] = Inr []"
| "write_items enc (x # xs) =
     (case enc x of Inl _ \<Rightarrow> Inl ErrCodec
      | Inr b \<Rightarrow> and_then (write_items enc xs) (\<lambda>r. Inr (leUint32 (word_of_nat (length b)) @ b @ r)))"

fun read_items :: "(bytes \<Rightarrow> 'a res) \<Rightarrow> nat \<Rightarrow> bytes \<Rightarrow> ('a list \<times> bytes) res" where
  "read_items dec 0 rest = Inr ([], rest)"
| "read_items dec (Suc n) rest =
     (if length rest < 4 then Inl ErrCodec
      else let len = getLeUint32 (take 4 rest); rest = drop 4 rest in
        if word_of_nat (length rest) < len then Inl ErrCodec
        else and_then (split_at (unat len) rest GoPanic) (\<lambda>(b, rest).
          case dec b of Inl _ \<Rightarrow> Inl ErrCodec
          | Inr x \<Rightarrow> and_then (read_items dec n rest) (\<lambda>(xs, rest). Inr (x # xs, rest))))"

lemma uint32_len: "n < 2 ^ 32 \<Longrightarrow> unat (word_of_nat n :: uint32) = n"
  by (simp add: unat_of_nat)

lemma read_one_item:
  assumes "length (b @ rest) < 2 ^ 32" "dec b = Inr x"
  shows "read_items dec (Suc n) (leUint32 (word_of_nat (length b)) @ b @ rest) =
    and_then (read_items dec n rest) (\<lambda>(xs, rest). Inr (x # xs, rest))"
proof -
  have "unat (word_of_nat (length b) :: uint32) = length b"
    "unat (word_of_nat (length (b @ rest)) :: uint32) = length (b @ rest)"
    using assms(1) by (auto intro!: uint32_len simp del: of_nat_add)
  then have "\<not> word_of_nat (length (b @ rest)) < (word_of_nat (length b) :: uint32)"
    "unat (word_of_nat (length b) :: uint32) = length b"
    by (simp_all add: word_less_nat_alt del: of_nat_add)
  then show ?thesis using assms(2) by (simp add: Let_def del: of_nat_add)
qed

text \<open>The contract of an encoder and its decoder, and what it gives for sequences.\<close>

locale codec =
  fixes enc :: "'a \<Rightarrow> bytes res" and dec :: "bytes \<Rightarrow> 'a res" and ok :: "'a \<Rightarrow> bool"
  assumes dec_enc: "ok x \<Longrightarrow> enc x = Inr bs \<Longrightarrow> dec bs = Inr x"
begin

lemma enc_inj: "ok x \<Longrightarrow> ok y \<Longrightarrow> enc x = Inr bs \<Longrightarrow> enc y = Inr bs \<Longrightarrow> x = y"
  using dec_enc [of x bs] dec_enc [of y bs] by simp

lemma read_write_items:
  "list_all ok xs \<Longrightarrow> write_items enc xs = Inr bs \<Longrightarrow> length (bs @ rest) < 2 ^ 32 \<Longrightarrow>
   read_items dec (length xs) (bs @ rest) = Inr (xs, rest)"
proof (induction xs arbitrary: bs)
  case (Cons x xs)
  then obtain b r where b: "enc x = Inr b" "write_items enc xs = Inr r"
    and bs: "bs = leUint32 (word_of_nat (length b)) @ b @ r"
    by (auto simp: and_then_Inr_iff split: sum.splits)
  have "read_items dec (length xs) (r @ rest) = Inr (xs, rest)" using Cons b bs by simp
  moreover have "dec b = Inr x" using dec_enc b(1) Cons.prems by simp
  ultimately show ?case using read_one_item [of b "r @ rest" dec x "length xs"] Cons.prems(3) bs by simp
qed simp

end

section \<open>The transaction codec\<close>

definition tx_ok :: "transaction \<Rightarrow> bool" where
  "tx_ok tx \<longleftrightarrow> 0 < tx_Type tx \<and> tx_Type tx \<le> 0x7f \<and> fees_ok tx \<and> tx_To tx \<noteq> Some 0 \<and> tx_From tx = 0
     \<and> (case tx_Encode tx of Inl _ \<Rightarrow> True | Inr bs \<Rightarrow> length bs \<le> MaxTxSize)"

lemma DecodeTx_fields:
  assumes "length bs \<le> MaxTxSize" "fees_ok tx" "tx_To tx \<noteq> Some 0" "tx_From tx = 0"
    and bs: "bs = p @ beUint64 (tx_ChainID tx) @ beUint64 (tx_Nonce tx) @
     fee_bytes tx @ beUint64 (tx_GasLimit tx) @ to_bytes (tx_To tx) @ word_bytes (tx_Value tx) @
     beUint64 (word_of_nat (length (tx_Data tx))) @ tx_Data tx @ word_bytes (tx_Signature tx) @
     hash_segment (tx_HashCache tx)"
    and p: "(if bs ! 0 \<le> 0x7f then (bs ! 0, drop 1 bs) else (TxTypeLegacy, bs)) = (tx_Type tx, drop (length p) bs)"
  shows "DecodeTx bs = Inr tx"
proof -
  let ?r = "word_bytes (tx_Signature tx) @ hash_segment (tx_HashCache tx)"
  have d: "length (tx_Data tx) \<le> MaxTxSize" "length (tx_Data tx @ ?r) < 2 ^ 64"
    using assms(1) by (simp_all add: bs size_consts)
  have ne: "length bs \<noteq> 0" by (simp add: bs)
  note reads = read8_beUint64 read32_word set_u256_word read_fees_bytes [OF assms(2)]
    read_to_bytes [OF assms(3)] read_data_bytes [OF d] read_signature_bytes read_hash_segment_bytes
  have "drop (length p) bs = beUint64 (tx_ChainID tx) @ beUint64 (tx_Nonce tx) @
     fee_bytes tx @ beUint64 (tx_GasLimit tx) @ to_bytes (tx_To tx) @ word_bytes (tx_Value tx) @
     beUint64 (word_of_nat (length (tx_Data tx))) @ tx_Data tx @ ?r"
    by (simp add: bs)
  then show ?thesis using ne assms(1,4) unfolding DecodeTx_def p
    by (simp add: reads)
qed

lemma DecodeTx_Encode:
  assumes "tx_ok tx" "tx_Encode tx = Inr bs"
  shows "DecodeTx bs = Inr tx"
proof -
  note layout = tx_Encode_layout [OF assms(2)]
  have p: "tx_type_prefix tx = [tx_Type tx]" "tx_Type tx \<le> 0x7f"
    using assms(1) by (auto simp: tx_type_prefix_def tx_ok_def TxTypeLegacy_def)
  then have "bs ! 0 = tx_Type tx" by (simp add: layout)
  then show ?thesis
    using assms p by (intro DecodeTx_fields [OF _ _ _ _ layout]) (auto simp: tx_ok_def)
qed

interpretation txc: codec tx_Encode DecodeTx tx_ok
  by unfold_locales (rule DecodeTx_Encode)

section \<open>What the hash covers\<close>

lemma SigningPayload_layout:
  "SigningPayload tx = beUint64 (tx_ChainID tx) @ beUint64 (tx_Nonce tx) @ fee_bytes tx @
     beUint64 (tx_GasLimit tx) @ to_bytes (tx_To tx) @ word_bytes (tx_Value tx) @
     beUint64 (word_of_nat (length (tx_Data tx))) @ tx_Data tx"
  by (simp add: SigningPayload_def fee_bytes_def to_bytes_def)

lemma to_bytes_inj: "t \<noteq> Some 0 \<Longrightarrow> u \<noteq> Some 0 \<Longrightarrow> to_bytes t = to_bytes u \<longleftrightarrow> t = u"
proof -
  assume "t \<noteq> Some 0" "u \<noteq> Some 0"
  then have "read_to (to_bytes t @ []) = Inr (t, [])" "read_to (to_bytes u @ []) = Inr (u, [])"
    using read_to_bytes by blast+
  then show ?thesis by (metis Inr_inject fst_conv)
qed

lemma beUint64_inj [simp]: "beUint64 a = beUint64 b \<longleftrightarrow> a = b"
  by (simp add: beUint64_def)

lemma length_fee_bytes: "length (fee_bytes tx) = (if tx_Type tx = TxTypeDynamicFee then 64 else 32)"
  by (simp add: fee_bytes_def)

lemma fee_bytes_inj:
  "fees_ok t \<Longrightarrow> fees_ok u \<Longrightarrow> tx_Type t = tx_Type u \<Longrightarrow> fee_bytes t = fee_bytes u \<Longrightarrow>
   tx_MaxPriorityFeePerGas t = tx_MaxPriorityFeePerGas u \<and> tx_MaxFeePerGas t = tx_MaxFeePerGas u
   \<and> tx_GasPrice t = tx_GasPrice u"
  by (auto simp: fee_bytes_def fees_ok_def split: if_splits)

lemma SigningPayload_inj:
  assumes "SigningPayload t = SigningPayload u" "tx_Type t = tx_Type u" "fees_ok t" "fees_ok u"
    "tx_To t \<noteq> Some 0" "tx_To u \<noteq> Some 0"
  shows "u = t\<lparr>tx_Signature := tx_Signature u, tx_From := tx_From u, tx_HashCache := tx_HashCache u\<rparr>"
proof -
  have len: "length (fee_bytes t) = length (fee_bytes u)" using assms(2) by (simp add: length_fee_bytes)
  have "tx_ChainID t = tx_ChainID u" "tx_Nonce t = tx_Nonce u" "fee_bytes t = fee_bytes u"
    "tx_GasLimit t = tx_GasLimit u" "to_bytes (tx_To t) = to_bytes (tx_To u)"
    "tx_Value t = tx_Value u" "tx_Data t = tx_Data u"
    using assms(1) len by (auto simp: SigningPayload_layout)
  moreover from this have "tx_To t = tx_To u" using to_bytes_inj assms(5,6) by simp
  ultimately show ?thesis using assms(2) fee_bytes_inj [OF assms(3,4,2)]
    by (cases t; cases u) simp
qed

section \<open>Misreading legacy transactions\<close>

lemma read8_long: "8 \<le> length r \<Longrightarrow> read8 r = Inr (bytes_word (take 8 r), drop 8 r)"
  by (simp add: read8_def)

lemma read32_long: "32 \<le> length r \<Longrightarrow> read32 r = Inr (take 32 r, drop 32 r)"
  by (simp add: read32_def)

lemma read_to_long: "20 \<le> length r \<Longrightarrow> \<exists>to. read_to r = Inr (to, drop 20 r)"
  by (simp add: read_to_def size_consts Let_def)

lemma read_fees_legacy_long:
  "32 \<le> length r \<Longrightarrow> read_fees TxTypeLegacy r = Inr ((0, 0, set_u256 (take 32 r)), drop 32 r)"
  by (simp add: read_fees_def tx_types read32_long)

text \<open>Shifted by one byte, the data length is read 256 times too large.\<close>

lemma read_data_shifted:
  assumes "n < 2 ^ 40" "length r \<le> n + 97" "0 < n"
  shows "read_data (drop 1 (beUint64 (word_of_nat n)) @ b # r) = Inl ErrCodec"
proof -
  obtain c cs where c: "beUint64 (word_of_nat n) = c # cs" and cs: "length cs = 7"
    using length_beUint64 [of "word_of_nat n"] by (cases "beUint64 (word_of_nat n)") auto
  define ds where "ds = cs @ [b]"
  have len: "length ds = 8" by (simp add: ds_def cs)
  have "unat (word_of_nat n :: uint64) = n" using assms(1) by (simp add: unat_of_nat)
  then have "be_val (c # cs) = n" by (simp add: beUint64_def flip: c)
  then have val: "n = unat c * 256 ^ 7 + be_val cs" by (simp add: be_val_Cons cs)
  have "unat c = 0"
  proof (rule ccontr)
    assume "unat c \<noteq> 0"
    then have "1 * 256 ^ 7 \<le> unat c * 256 ^ 7" by (intro mult_le_mono1) simp
    moreover have "(2 :: nat) ^ 40 < 256 ^ 7" by simp
    ultimately show False using val assms(1) by linarith
  qed
  then have "be_val ds = n * 256 + unat b" using val by (simp add: ds_def)
  moreover have "n * 256 + unat b < 2 ^ 64" using assms(1) unat_byte_less [of b] by (simp del: unat_byte_less)
  ultimately have dl: "unat (bytes_word ds :: uint64) = n * 256 + unat b"
    by (simp add: unat_bytes_word)
  have "length r < 2 ^ 64" using assms(1,2) by simp
  then have "unat (word_of_nat (length r) :: uint64) = length r" unfolding unat_of_nat by simp
  then have "word_of_nat (length r) < (bytes_word ds :: uint64)"
    using dl assms by (simp add: word_less_nat_alt)
  moreover have "drop 1 (beUint64 (word_of_nat n)) @ b # r = ds @ r" by (simp add: ds_def c)
  ultimately show ?thesis using len by (simp add: read_data_def read8_long)
qed

section \<open>Properties\<close>

text \<open>
  decoding undoes encoding for typed transactions. A transaction of type 1 to 127 whose unused
  fee fields are zero and whose recipient is not the zero address decodes from its encoding to
  itself, signature and cached hash included, provided the encoding is at most \<open>MaxTxSize\<close> bytes.
\<close>

theorem tx_roundtrip:
  assumes "tx_ok tx" "tx_Encode tx = Inr bs"
  shows "DecodeTx bs = Inr tx"
  using assms by (rule txc.dec_enc)

definition tx_sample :: transaction where
  "tx_sample = \<lparr>tx_Type = 2, tx_ChainID = 7, tx_Nonce = 1, tx_MaxPriorityFeePerGas = 3, tx_MaxFeePerGas = 9,
     tx_GasPrice = 0, tx_GasLimit = 21000, tx_To = Some 5, tx_Value = 1000, tx_Data = [1, 2, 3],
     tx_Signature = 11, tx_From = 0, tx_HashCache = None\<rparr>"

lemma tx_sample_ok: "tx_ok tx_sample" "is_ok (tx_Encode tx_sample)"
  by (simp_all add: tx_ok_def tx_sample_def tx_Encode_def fees_ok_def tx_types tx_type_prefix_def
      SigningPayload_def size_consts)

theorem tx_roundtrip_witness: "\<exists>bs. tx_Encode tx_sample = Inr bs \<and> DecodeTx bs = Inr tx_sample"
proof -
  obtain bs where bs: "tx_Encode tx_sample = Inr bs" using tx_sample_ok(2) by (auto simp: is_ok_iff)
  show ?thesis using tx_roundtrip [OF tx_sample_ok(1) bs] bs by simp
qed

text \<open>
  legacy transactions with call data never decode. The encoding of a type-0 transaction has no
  type byte, so for a chain id below \<open>2 ^ 56\<close> the decoder takes the leading zero byte of the chain
  id for the type, reads every field one byte late and rejects the data length. So block bodies
  holding such a transaction cannot be read back.
\<close>

theorem legacy_tx_undecodable:
  assumes "tx_Type tx = 0" "unat (tx_ChainID tx) < 2 ^ 56" "tx_Data tx \<noteq> []" "tx_Encode tx = Inr bs"
  shows "DecodeTx bs = Inl (if length bs > MaxTxSize then ErrOversized else ErrCodec)"
proof (cases "length bs > MaxTxSize")
  case False
  obtain b d where d: "tx_Data tx = b # d" using assms(3) by (cases "tx_Data tx") auto
  let ?r = "d @ word_bytes (tx_Signature tx) @ hash_segment (tx_HashCache tx)"
  let ?n = "length (tx_Data tx)"
  have fee: "fee_bytes tx = word_bytes (tx_GasPrice tx)" using assms(1) by (simp add: fee_bytes_def tx_types)
  have pre: "tx_type_prefix tx = []" using assms(1) by (simp add: tx_type_prefix_def tx_types)
  define h where "h = drop 1 (beUint64 (tx_ChainID tx)) @ beUint64 (tx_Nonce tx) @ fee_bytes tx @
     beUint64 (tx_GasLimit tx) @ to_bytes (tx_To tx) @ word_bytes (tx_Value tx) @
     take 1 (beUint64 (word_of_nat ?n))"
  have len_h: "length h = 108" by (simp add: h_def fee len_simps)
  have rest: "drop 1 bs = h @ drop 1 (beUint64 (word_of_nat ?n)) @ b # ?r"
    using append_take_drop_id [of 1 "beUint64 (word_of_nat ?n)"]
    by (simp add: tx_Encode_layout [OF assms(4)] pre h_def d del: append_take_drop_id)
  have b0: "bs ! 0 = 0"
  proof -
    have "beUint64 (tx_ChainID tx) ! 0 = word_of_nat (unat (tx_ChainID tx) div 256 ^ 7)"
      using be_bytes_Suc_Cons [of 7 "unat (tx_ChainID tx)"] by (simp add: beUint64_def word_bytes_def del: be_bytes.simps)
    then show ?thesis using assms(2)
      by (simp add: tx_Encode_layout [OF assms(4)] pre nth_append del: unat_of_nat)
  qed
  have "?n < 2 ^ 40" using False tx_Encode_layout [OF assms(4)] by (simp add: size_consts)
  moreover have "length ?r \<le> ?n + 97" by (simp add: hash_segment_def d split: option.splits)
  ultimately have bad: "read_data (drop 108 (drop 1 bs)) = Inl ErrCodec"
    unfolding rest using read_data_shifted [of ?n ?r b] d len_h by simp
  have L: "108 \<le> length (drop 1 bs)" unfolding rest by (simp add: len_h)
  have long: "20 \<le> length (drop 56 (drop 1 bs))" using L by simp
  obtain to where to: "read_to (drop 56 (drop 1 bs)) = Inr (to, drop 20 (drop 56 (drop 1 bs)))"
    using read_to_long [OF long] by blast
  have "bs \<noteq> []" "TxTypeLegacy \<le> 0x7f" using L by (auto simp: TxTypeLegacy_def)
  then show ?thesis using False L to bad b0 unfolding DecodeTx_def
    by (simp add: read8_long read32_long read_fees_legacy_long tx_types [symmetric])
qed (use assms(4) in \<open>auto simp: DecodeTx_def size_consts\<close>)

definition legacy_sample :: transaction where
  "legacy_sample = tx_sample\<lparr>tx_Type := 0, tx_GasPrice := 9, tx_MaxPriorityFeePerGas := 0, tx_MaxFeePerGas := 0\<rparr>"

theorem legacy_tx_undecodable_witness:
  "\<exists>bs e. tx_Encode legacy_sample = Inr bs \<and> DecodeTx bs = Inl e"
proof -
  have "is_ok (tx_Encode legacy_sample)"
    by (simp add: legacy_sample_def tx_sample_def tx_Encode_def tx_types tx_type_prefix_def
        SigningPayload_def size_consts)
  then obtain bs where bs: "tx_Encode legacy_sample = Inr bs" by (auto simp: is_ok_iff)
  show ?thesis using legacy_tx_undecodable [OF _ _ _ bs] bs by (simp add: legacy_sample_def tx_sample_def)
qed

text \<open>
  the transaction hash covers every field but the signature. Two transactions of one type without
  a cached hash, with the fee fields their type does not use at zero and a recipient that is not the
  zero address, which hash alike without a Keccak collision, differ at most in signature and sender.
\<close>

theorem tx_hash_binding:
  assumes "tx_HashCache t = None" "tx_HashCache u = None" "tx_Type t = tx_Type u"
    "fees_ok t" "fees_ok u" "tx_To t \<noteq> Some 0" "tx_To u \<noteq> Some 0"
    "inj_on kec {tx_type_prefix t @ SigningPayload t, tx_type_prefix u @ SigningPayload u}"
    "fst (tx_Hash kec t) = fst (tx_Hash kec u)"
  shows "u = t\<lparr>tx_Signature := tx_Signature u, tx_From := tx_From u\<rparr>"
proof -
  have "kec (tx_type_prefix t @ SigningPayload t) = kec (tx_type_prefix u @ SigningPayload u)"
    using assms(1,2,9) by (simp add: tx_Hash_def Let_def Keccak256_def)
  then have "tx_type_prefix t @ SigningPayload t = tx_type_prefix u @ SigningPayload u"
    by (rule inj_onD [OF assms(8)]) simp_all
  then have "SigningPayload t = SigningPayload u" using assms(3) by (simp add: tx_type_prefix_def)
  from SigningPayload_inj [OF this assms(3-7)] show ?thesis using assms(1,2) by (cases t; cases u) simp
qed

theorem tx_hash_binding_witness:
  "fst (tx_Hash (\<lambda>b. if b = [2] @ SigningPayload tx_sample then 1 else 2) tx_sample)
   \<noteq> fst (tx_Hash (\<lambda>b. if b = [2] @ SigningPayload tx_sample then 1 else 2) (tx_sample\<lparr>tx_Nonce := 2\<rparr>))"
proof -
  let ?k = "\<lambda>b. if b = [2] @ SigningPayload tx_sample then 1 else (2 :: hash)" and ?u = "tx_sample\<lparr>tx_Nonce := 2\<rparr>"
  have p: "tx_type_prefix tx_sample = [2]" "tx_type_prefix ?u = [2]"
    by (simp_all add: tx_type_prefix_def tx_sample_def tx_types)
  then have "inj_on ?k {tx_type_prefix tx_sample @ SigningPayload tx_sample, tx_type_prefix ?u @ SigningPayload ?u}"
    by (simp add: inj_on_def)
  then show ?thesis using tx_hash_binding [of tx_sample ?u ?k] by (auto simp: tx_sample_def fees_ok_def tx_types)
qed

text \<open>
  the effective tip is the smaller of the tip cap and what the fee cap leaves above the base
  fee, never below zero; for the other types it is what the gas price leaves above the base fee.
\<close>

theorem EffectivePriorityFee_value:
  "unat (EffectivePriorityFee tx baseFee) =
     (if tx_Type tx = TxTypeDynamicFee
      then min (unat (tx_MaxPriorityFeePerGas tx)) (unat (tx_MaxFeePerGas tx) - unat baseFee)
      else unat (tx_GasPrice tx) - unat baseFee)"
  by (simp add: EffectivePriorityFee_def uint256_cmp_word uint256_sub_ok zero_uint256_def unat_sub
      word_less_nat_alt word_le_nat_alt min_def)

end
