(* ===== verification/Block.thy ===== *)
theory Block
  imports Tx
begin

text \<open>
  Block headers, blocks, receipts and their roots (\<open>chain/block.go\<close>), and the block codec
  (\<open>chain/codec.go\<close>). \<open>ComputeTxRoot\<close> calls \<open>Hash\<close> on every transaction, which fills its
  cache, so it returns the block with the caches filled. The decoder's closure \<open>take\<close> is a read from the
  front of the remaining bytes that panics when there are too few.
\<close>

section \<open>Headers\<close>

record header =
  h_Version :: uint32
  h_ChainID :: uint64
  h_Height :: height
  h_Round :: round
  h_Timestamp :: uint64
  h_PrevHash :: hash
  h_Proposer :: address
  h_TxRoot :: hash
  h_ReceiptRoot :: hash
  h_StateRoot :: hash
  h_LogsBloom :: bloom
  h_GasUsed :: gas
  h_GasLimit :: gas
  h_BaseFeePerGas :: uint256
  h_ValidatorSetHash :: hash
  h_ExtraData :: bytes

definition header_Encode :: "header \<Rightarrow> bytes res" where
  "header_Encode h =
     (if length (h_ExtraData h) > MaxExtraData then Inl ErrOversized
      else Inr (take 2 (Uint64BE (ucast (h_Version h))) @
        Uint64BE (h_ChainID h) @
        Uint64BE (h_Height h) @
        take 4 (Uint64BE (ucast (h_Round h))) @
        Uint64BE (h_Timestamp h) @
        word_bytes (h_PrevHash h) @
        word_bytes (h_Proposer h) @
        word_bytes (h_TxRoot h) @
        word_bytes (h_ReceiptRoot h) @
        word_bytes (h_StateRoot h) @
        word_bytes (h_LogsBloom h) @
        Uint64BE (h_GasUsed h) @
        Uint64BE (h_GasLimit h) @
        word_bytes (h_BaseFeePerGas h) @
        word_bytes (h_ValidatorSetHash h) @
        [word_of_nat (length (h_ExtraData h))] @
        h_ExtraData h))"

definition header_Hash :: "keccak \<Rightarrow> header \<Rightarrow> hash res" where
  "header_Hash kec h = and_then (header_Encode h) (\<lambda>enc. Inr (Keccak256 kec [enc]))"

definition header_fixedSize :: nat where
  "header_fixedSize = 2 + 8 + 8 + 4 + 8 + 32 + 20 + 32 + 32 + 32 + 256 + 8 + 8 + 32 + 32"

text \<open>\<open>binary.BigEndian.UintN(take(n))\<close> and \<open>copy(a[:], take(n))\<close>.\<close>

definition take_word :: "bytes \<Rightarrow> ('a::len word \<times> bytes) res" where
  "take_word rest =
     and_then (split_at (LENGTH('a) div 8) rest GoPanic) (\<lambda>(b, rest). Inr (bytes_word b, rest))"

definition DecodeHeader :: "bytes \<Rightarrow> header res" where
  "DecodeHeader data =
     (if length data < header_fixedSize + 1 then Inl ErrCodec
      else
        and_then (take_word data) (\<lambda>(version :: 16 word, r).
        and_then (take_word r) (\<lambda>(chainID, r).
        and_then (take_word r) (\<lambda>(hgt, r).
        and_then (take_word r) (\<lambda>(rnd, r).
        and_then (take_word r) (\<lambda>(ts, r).
        and_then (take_word r) (\<lambda>(prevHash, r).
        and_then (take_word r) (\<lambda>(proposer, r).
        and_then (take_word r) (\<lambda>(txRoot, r).
        and_then (take_word r) (\<lambda>(receiptRoot, r).
        and_then (take_word r) (\<lambda>(stateRoot, r).
        and_then (take_word r) (\<lambda>(bloom, r).
        and_then (take_word r) (\<lambda>(gasUsed, r).
        and_then (take_word r) (\<lambda>(gasLimit, r).
        and_then (take_word r) (\<lambda>(baseFee, r).
        and_then (take_word r) (\<lambda>(vsHash, r).
        and_then (take_word r) (\<lambda>(el :: byte, r).
        let extraLen = unat el in
        if extraLen > MaxExtraData then Inl ErrCodec
        else if length r < extraLen then Inl ErrCodec
        else and_then (split_at extraLen r GoPanic) (\<lambda>(extra, r).
          if r \<noteq> [] then Inl ErrCodec
          else Inr \<lparr>h_Version = ucast version, h_ChainID = chainID, h_Height = hgt, h_Round = rnd,
            h_Timestamp = ts, h_PrevHash = prevHash, h_Proposer = proposer, h_TxRoot = txRoot,
            h_ReceiptRoot = receiptRoot, h_StateRoot = stateRoot, h_LogsBloom = bloom,
            h_GasUsed = gasUsed, h_GasLimit = gasLimit, h_BaseFeePerGas = baseFee,
            h_ValidatorSetHash = vsHash, h_ExtraData = extra\<rparr>))))))))))))))))))"

section \<open>Blocks\<close>

record block =
  b_Header :: header
  b_Transactions :: "transaction list"

text \<open>The leaves, and the transactions with their hash cached.\<close>

definition tx_leaf :: "keccak \<Rightarrow> transaction \<Rightarrow> hash" where
  "tx_leaf kec tx = Keccak256 kec [word_bytes (fst (tx_Hash kec tx))]"

definition ComputeTxRoot :: "keccak \<Rightarrow> block \<Rightarrow> hash \<times> block" where
  "ComputeTxRoot kec b =
     (MerkleRoot kec (map (tx_leaf kec) (b_Transactions b)),
      b\<lparr>b_Transactions := map (\<lambda>tx. snd (tx_Hash kec tx)) (b_Transactions b)\<rparr>)"

definition encode_body :: "transaction list \<Rightarrow> bytes res" where
  "encode_body txs =
     and_then (write_items tx_Encode txs) (\<lambda>items. Inr (leUint32 (word_of_nat (length txs)) @ items))"

definition block_Encode :: "block \<Rightarrow> bytes res" where
  "block_Encode b =
     and_then (header_Encode (b_Header b)) (\<lambda>headerBytes.
     and_then (encode_body (b_Transactions b)) (\<lambda>body.
     let out = leUint32 (word_of_nat (length headerBytes)) @ headerBytes @
               leUint32 (word_of_nat (length body)) @ body
     in if length out > MaxBlockSize then Inl ErrOversized else Inr out))"

definition decodeBody :: "bytes \<Rightarrow> transaction list res" where
  "decodeBody body =
     (if length body < 4 then Inl ErrCodec
      else let count = getLeUint32 (take 4 body); rest = drop 4 body in
        if count > word_of_nat (MaxBlockSize div 32) + 1 then Inl ErrCodec
        else and_then (read_items DecodeTx (unat count) rest) (\<lambda>(txs, rest).
          if length rest \<noteq> 0 then Inl ErrCodec else Inr txs))"

definition DecodeBlock :: "bytes \<Rightarrow> block res" where
  "DecodeBlock data =
     (if length data < 4 then Inl ErrCodec
      else let headerLen = getLeUint32 (take 4 data); rest = drop 4 data in
        if word_of_nat (length rest) < headerLen then Inl ErrCodec
        else and_then (split_at (unat headerLen) rest GoPanic) (\<lambda>(headerBytes, rest).
          and_then (DecodeHeader headerBytes) (\<lambda>header.
          if length rest < 4 then Inl ErrCodec
          else let bodyLen = getLeUint32 (take 4 rest); rest = drop 4 rest in
            if word_of_nat (length rest) < bodyLen then Inl ErrCodec
            else and_then (split_at (unat bodyLen) rest GoPanic) (\<lambda>(body, rest).
              if length rest \<noteq> 0 then Inl ErrCodec
              else and_then (decodeBody body) (\<lambda>txs.
                Inr \<lparr>b_Header = header, b_Transactions = txs\<rparr>)))))"

section \<open>Headers read back\<close>

lemma take_word_bytes [codec_simps]:
  assumes "8 dvd LENGTH('a::len)" "length b = LENGTH('a) div 8"
  shows "take_word (b @ rest) = Inr (bytes_word b :: 'a word, rest)"
  using assms by (simp add: take_word_def)

lemma take_word_self [codec_simps]:
  "8 dvd LENGTH('a::len) \<Longrightarrow> take_word (word_bytes (w :: 'a word) @ rest) = Inr (w, rest)"
  by (simp add: take_word_bytes)

lemma take_word_Uint64BE [codec_simps]: "take_word (Uint64BE v @ rest) = Inr (v, rest)"
  by (simp add: Uint64BE_def take_word_self)

text \<open>The two high bytes of the version, and the four high bytes of the round, are zero.\<close>

lemma take_high_bytes:
  assumes "unat (v :: uint64) < 256 ^ (8 - n)" "n \<le> 8"
  shows "take n (Uint64BE v) = replicate n 0"
proof -
  have "Uint64BE v = be_bytes 8 (be_val (be_bytes (8 - n) (unat v)))"
    using assms(1) by (simp add: Uint64BE_def word_bytes_def be_val_be_bytes)
  also have "\<dots> = replicate (8 - (8 - n)) 0 @ be_bytes (8 - n) (unat v)"
    using be_bytes_append_zeros [of "be_bytes (8 - n) (unat v)" 8] by simp
  finally show ?thesis using assms(2) by simp
qed

lemma unat_ucast_64: "unat (ucast (v :: uint32) :: uint64) = unat v"
proof -
  have "unat v < 2 ^ 64" using unat_less_pow [of v] by simp
  then show ?thesis by (simp add: unsigned_ucast_eq take_bit_nat_eq_self)
qed

lemma version_bytes: "take 2 (Uint64BE (ucast (v :: uint32))) = replicate 2 0"
proof -
  have "unat (ucast v :: uint64) < 256 ^ (8 - 2)" using unat_less_pow [of v] by (simp add: unat_ucast_64)
  then show ?thesis by (intro take_high_bytes) simp_all
qed

lemma round_bytes: "take 4 (Uint64BE (ucast (v :: uint32))) = replicate 4 0"
proof -
  have "unat (ucast v :: uint64) < 256 ^ (8 - 4)" using unat_less_pow [of v] by (simp add: unat_ucast_64)
  then show ?thesis by (intro take_high_bytes) simp_all
qed

text \<open>The encoding with the two fields that read as zero.\<close>

definition header_body :: "header \<Rightarrow> bytes" where
  "header_body h = Uint64BE (h_Timestamp h) @ word_bytes (h_PrevHash h) @ word_bytes (h_Proposer h) @
     word_bytes (h_TxRoot h) @ word_bytes (h_ReceiptRoot h) @ word_bytes (h_StateRoot h) @
     word_bytes (h_LogsBloom h) @ Uint64BE (h_GasUsed h) @ Uint64BE (h_GasLimit h) @
     word_bytes (h_BaseFeePerGas h) @ word_bytes (h_ValidatorSetHash h) @
     [word_of_nat (length (h_ExtraData h))] @ h_ExtraData h"

lemma header_Encode_Inr: "header_Encode h = Inr bs \<longleftrightarrow> length (h_ExtraData h) \<le> MaxExtraData \<and>
    bs = word_bytes (0 :: 16 word) @ Uint64BE (h_ChainID h) @ Uint64BE (h_Height h) @
      word_bytes (0 :: 32 word) @ header_body h"
  by (auto simp: header_Encode_def header_body_def version_bytes round_bytes word_bytes_zero not_le)

definition header_ok :: "header \<Rightarrow> bool" where
  "header_ok h \<longleftrightarrow> h_Version h = 0 \<and> h_Round h = 0"

lemma DecodeHeader_Encode_zero:
  assumes "header_Encode h = Inr bs"
  shows "DecodeHeader bs = Inr (h\<lparr>h_Version := 0, h_Round := 0\<rparr>)"
proof -
  have len: "length (h_ExtraData h) \<le> 32" using assms by (simp add: header_Encode_Inr size_consts)
  then have u: "unat (word_of_nat (length (h_ExtraData h)) :: byte) = length (h_ExtraData h)"
    by (simp add: unat_of_nat)
  have one: "take_word ([b] @ rest) = Inr (b, rest)" for b :: byte and rest
    using take_word_bytes [where 'a = 8, of "[b]" rest] by (simp add: bytes_word_def be_val_Cons)
  have "bs = word_bytes (0 :: 16 word) @ Uint64BE (h_ChainID h) @ Uint64BE (h_Height h) @
      word_bytes (0 :: 32 word) @ header_body h"
    using assms by (simp add: header_Encode_Inr)
  then show ?thesis unfolding DecodeHeader_def header_body_def
    using len leD [OF len]
    by (simp add: take_word_self take_word_Uint64BE one u size_consts header_fixedSize_def
        split_at_def Let_def del: append_Cons append.simps)
qed

lemma DecodeHeader_Encode: "header_ok h \<Longrightarrow> header_Encode h = Inr bs \<Longrightarrow> DecodeHeader bs = Inr h"
  using DecodeHeader_Encode_zero [of h bs] by (cases h) (simp add: header_ok_def)

interpretation hdr: codec header_Encode DecodeHeader header_ok
  by unfold_locales (rule DecodeHeader_Encode)

lemma header_Encode_eq_iff:
  assumes "header_Encode h = Inr bs" "header_Encode h' = Inr bs'"
  shows "bs = bs' \<longleftrightarrow> h' = h\<lparr>h_Version := h_Version h', h_Round := h_Round h'\<rparr>"
proof
  assume "bs = bs'"
  then have "h\<lparr>h_Version := 0, h_Round := 0\<rparr> = h'\<lparr>h_Version := 0, h_Round := 0\<rparr>"
    using DecodeHeader_Encode_zero [OF assms(1)] DecodeHeader_Encode_zero [OF assms(2)] by simp
  then show "h' = h\<lparr>h_Version := h_Version h', h_Round := h_Round h'\<rparr>" by (cases h; cases h') simp
next
  assume eq: "h' = h\<lparr>h_Version := h_Version h', h_Round := h_Round h'\<rparr>"
  have "header_body h' = header_body h" "h_ChainID h' = h_ChainID h" "h_Height h' = h_Height h"
    by (subst eq, simp add: header_body_def)+
  then show "bs = bs'" using assms by (simp add: header_Encode_Inr)
qed

lemma length_header_bytes: "header_Encode h = Inr bs \<Longrightarrow> length bs \<le> header_fixedSize + 1 + 32"
  by (simp add: header_Encode_Inr header_body_def size_consts header_fixedSize_def)

section \<open>Blocks read back\<close>

lemma getLe_take [simp]: "getLeUint32 (take 4 (leUint32 v @ rest)) = v"
  by simp

lemma no_wrap_less: "length xs < 2 ^ 32 \<Longrightarrow> n \<le> length xs \<Longrightarrow>
    \<not> word_of_nat (length xs) < (word_of_nat n :: uint32)"
  by (simp add: word_less_nat_alt unat_of_nat)

text \<open>Elements written one after another are read back if each is, as what each reads back as.\<close>

lemma read_items_iff:
  "write_items enc xs = Inr bs \<Longrightarrow> length (bs @ rest) < 2 ^ 32 \<Longrightarrow>
   read_items dec (length xs) (bs @ rest) = Inr (ys, r) \<longleftrightarrow>
     r = rest \<and> list_all2 (\<lambda>x y. and_then (enc x) dec = Inr y) xs ys"
proof (induction xs arbitrary: bs ys)
  case Nil
  then show ?case by auto
next
  case (Cons x xs)
  then obtain b rs where b: "enc x = Inr b" "write_items enc xs = Inr rs"
    and bs: "bs = leUint32 (word_of_nat (length b)) @ b @ rs"
    by (auto simp: and_then_Inr_iff split: sum.splits)
  have len: "length (b @ rs @ rest) < 2 ^ 32" using Cons.prems(2) bs by simp
  note IH = Cons.IH [OF b(2)]
  show ?case
  proof (cases "dec b")
    case (Inl e)
    have "unat (word_of_nat (length b) :: uint32) = length b"
      "unat (word_of_nat (length (b @ rs @ rest)) :: uint32) = length (b @ rs @ rest)"
      using len by (auto intro!: uint32_len simp del: of_nat_add)
    then have "\<not> word_of_nat (length (b @ rs @ rest)) < (word_of_nat (length b) :: uint32)"
      "unat (word_of_nat (length b) :: uint32) = length b"
      by (simp_all add: word_less_nat_alt del: of_nat_add)
    then have "read_items dec (length (x # xs)) (bs @ rest) = Inl ErrCodec" using Inl by (simp add: bs Let_def del: of_nat_add)
    then show ?thesis using Inl b(1) by (simp add: list_all2_Cons1)
  next
    case (Inr z)
    then show ?thesis using read_one_item [of b "rs @ rest" dec z "length xs"] len IH b(1)
      by (auto simp: bs and_then_Inr_iff list_all2_Cons1)
  qed
qed

lemma write_items_length:
  assumes "\<And>x b. enc x = Inr b \<Longrightarrow> k \<le> length b"
  shows "write_items enc xs = Inr bs \<Longrightarrow> (k + 4) * length xs \<le> length bs"
proof (induction xs arbitrary: bs)
  case (Cons x xs)
  then obtain b r where "enc x = Inr b" "write_items enc xs = Inr r"
    "bs = leUint32 (word_of_nat (length b)) @ b @ r"
    by (auto simp: and_then_Inr_iff split: sum.splits)
  then show ?case using Cons.IH [of r] assms [of x b] by simp
qed simp

lemma tx_Encode_length: "tx_Encode tx = Inr bs \<Longrightarrow> 182 \<le> length bs"
  by (drule tx_Encode_layout) (simp add: length_fee_bytes hash_segment_def split: option.splits)

lemma block_tx_count:
  assumes "encode_body txs = Inr body" "length body \<le> MaxBlockSize"
  shows "length txs \<le> MaxBlockSize div 32 + 1"
proof -
  obtain items where w: "write_items tx_Encode txs = Inr items"
    and body: "body = leUint32 (word_of_nat (length txs)) @ items"
    using assms(1) by (auto simp: encode_body_def and_then_Inr_iff)
  have "(182 + 4) * length txs \<le> length items"
    by (rule write_items_length [OF _ w]) (rule tx_Encode_length)
  then show ?thesis using assms(2) by (simp add: body size_consts)
qed

definition block_ok :: "block \<Rightarrow> bool" where
  "block_ok b \<longleftrightarrow> header_ok (b_Header b) \<and> list_all tx_ok (b_Transactions b)"

text \<open>The header always reads back; what the body reads back to decides.\<close>

lemma DecodeBlock_body:
  assumes enc: "block_Encode b = Inr bs"
  obtains body where "encode_body (b_Transactions b) = Inr body" "length body \<le> MaxBlockSize"
    "DecodeBlock bs = and_then (decodeBody body) (\<lambda>txs.
       Inr \<lparr>b_Header = (b_Header b)\<lparr>h_Version := 0, h_Round := 0\<rparr>, b_Transactions = txs\<rparr>)"
proof -
  obtain hb body where hb: "header_Encode (b_Header b) = Inr hb"
    and body: "encode_body (b_Transactions b) = Inr body"
    and bs: "bs = leUint32 (word_of_nat (length hb)) @ hb @ leUint32 (word_of_nat (length body)) @ body"
    and size: "length bs \<le> MaxBlockSize"
    using enc by (auto simp: block_Encode_def and_then_Inr_iff Let_def split: if_splits)
  let ?r = "hb @ leUint32 (word_of_nat (length body)) @ body"
  have small: "length ?r < 2 ^ 32" "length body < 2 ^ 32" "length hb < 2 ^ 32"
    using size by (simp_all add: bs size_consts)
  have u: "unat (word_of_nat (length hb) :: uint32) = length hb"
    "unat (word_of_nat (length body) :: uint32) = length body"
    using small by (simp_all add: unat_of_nat)
  have nw: "\<not> word_of_nat (length ?r) < (word_of_nat (length hb) :: uint32)"
    "\<not> word_of_nat (length body) < (word_of_nat (length body) :: uint32)"
    using no_wrap_less [OF small(1), of "length hb"] by simp_all
  have "DecodeHeader hb = Inr ((b_Header b)\<lparr>h_Version := 0, h_Round := 0\<rparr>)"
    using DecodeHeader_Encode_zero [OF hb] .
  then have "DecodeBlock bs = and_then (decodeBody body) (\<lambda>txs.
       Inr \<lparr>b_Header = (b_Header b)\<lparr>h_Version := 0, h_Round := 0\<rparr>, b_Transactions = txs\<rparr>)"
    using u nw by (simp add: DecodeBlock_def bs Let_def split_at_def del: of_nat_add)
  moreover have "length body \<le> MaxBlockSize" using size by (simp add: bs)
  ultimately show thesis using that body by blast
qed

lemma DecodeBlock_iff:
  assumes "block_Encode b = Inr bs"
  shows "DecodeBlock bs = Inr b' \<longleftrightarrow> b_Header b' = (b_Header b)\<lparr>h_Version := 0, h_Round := 0\<rparr> \<and>
    list_all2 (\<lambda>tx tx'. and_then (tx_Encode tx) DecodeTx = Inr tx') (b_Transactions b) (b_Transactions b')"
proof -
  let ?n = "length (b_Transactions b)"
  obtain body where body: "encode_body (b_Transactions b) = Inr body" "length body \<le> MaxBlockSize"
    and dec: "DecodeBlock bs = and_then (decodeBody body) (\<lambda>txs.
       Inr \<lparr>b_Header = (b_Header b)\<lparr>h_Version := 0, h_Round := 0\<rparr>, b_Transactions = txs\<rparr>)"
    by (rule DecodeBlock_body [OF assms])
  obtain items where items: "write_items tx_Encode (b_Transactions b) = Inr items"
    "body = leUint32 (word_of_nat ?n) @ items"
    using body(1) by (auto simp: encode_body_def and_then_Inr_iff)
  have u: "unat (word_of_nat ?n :: uint32) = ?n" using block_tx_count [OF body] by (simp add: unat_of_nat size_consts)
  then have "\<not> word_of_nat ?n > (word_of_nat (MaxBlockSize div 32) + 1 :: uint32)"
    using block_tx_count [OF body] by (simp add: word_less_nat_alt size_consts)
  then have "decodeBody body = Inr txs \<longleftrightarrow> read_items DecodeTx ?n (items @ []) = Inr (txs, [])" for txs
    using u by (auto simp: decodeBody_def Let_def items(2) and_then_Inr_iff)
  moreover have "length (items @ []) < 2 ^ 32" using body(2) items(2) by (simp add: size_consts)
  from read_items_iff [OF items(1) this, of DecodeTx _ "[]"] calculation
  have "decodeBody body = Inr txs \<longleftrightarrow>
      list_all2 (\<lambda>tx tx'. and_then (tx_Encode tx) DecodeTx = Inr tx') (b_Transactions b) txs" for txs
    by (simp only: simp_thms)
  then show ?thesis by (cases b') (auto simp: dec and_then_Inr_iff)
qed

lemma encode_body_each: "encode_body txs = Inr body \<Longrightarrow> tx \<in> set txs \<Longrightarrow> is_ok (tx_Encode tx)"
proof -
  have "write_items enc xs = Inr bs \<Longrightarrow> x \<in> set xs \<Longrightarrow> is_ok (enc x)" for enc and x :: 'x and xs bs
    by (induction xs arbitrary: bs) (auto simp: is_ok_iff and_then_Inr_iff split: sum.splits)
  then show "encode_body txs = Inr body \<Longrightarrow> tx \<in> set txs \<Longrightarrow> is_ok (tx_Encode tx)"
    by (auto simp: encode_body_def and_then_Inr_iff)
qed

definition drop_senders :: "block \<Rightarrow> block" where
  "drop_senders b = b\<lparr>b_Transactions := map (\<lambda>tx. tx\<lparr>tx_From := 0\<rparr>) (b_Transactions b)\<rparr>"

lemma no_sender_Encode [simp]: "tx_Encode (tx\<lparr>tx_From := x\<rparr>) = tx_Encode tx"
  by (simp add: tx_Encode_def SigningPayload_def tx_type_prefix_def Let_def)

lemma drop_senders_header [simp]: "b_Header (drop_senders b) = b_Header b"
  by (simp add: drop_senders_def)

text \<open>
  A block reads back without its senders if its transactions are typed, have no zero recipient and at
  most \<open>MaxTxSize\<close> bytes.
\<close>

definition readable :: "block \<Rightarrow> bool" where
  "readable b \<longleftrightarrow> list_all (\<lambda>tx. tx_ok (tx\<lparr>tx_From := 0\<rparr>)) (b_Transactions b)"

lemma DecodeBlock_readable:
  assumes "readable b" "block_Encode b = Inr bs"
  shows "DecodeBlock bs = Inr ((drop_senders b)\<lparr>b_Header := (b_Header b)\<lparr>h_Version := 0, h_Round := 0\<rparr>\<rparr>)"
proof -
  have "and_then (tx_Encode tx) DecodeTx = Inr (tx\<lparr>tx_From := 0\<rparr>)" if tx: "tx \<in> set (b_Transactions b)" for tx
  proof -
    obtain body where "encode_body (b_Transactions b) = Inr body" by (rule DecodeBlock_body [OF assms(2)])
    then obtain enc where "tx_Encode tx = Inr enc" using encode_body_each [OF _ tx] by (auto simp: is_ok_iff)
    then show ?thesis using DecodeTx_Encode [of "tx\<lparr>tx_From := 0\<rparr>" enc] assms(1) tx
      by (simp add: readable_def list_all_iff)
  qed
  then have "list_all2 (\<lambda>tx tx'. and_then (tx_Encode tx) DecodeTx = Inr tx') (b_Transactions b)
      (map (\<lambda>tx. tx\<lparr>tx_From := 0\<rparr>) (b_Transactions b))"
    by (simp add: list_all2_conv_all_nth)
  then show ?thesis by (simp add: DecodeBlock_iff [OF assms(2)] drop_senders_def)
qed

lemma DecodeBlock_Encode_zero:
  assumes "list_all tx_ok (b_Transactions b)" "block_Encode b = Inr bs"
  shows "DecodeBlock bs = Inr (b\<lparr>b_Header := (b_Header b)\<lparr>h_Version := 0, h_Round := 0\<rparr>\<rparr>)"
proof -
  have same: "tx\<lparr>tx_From := 0\<rparr> = tx" if "tx \<in> set (b_Transactions b)" for tx
  proof -
    have "tx_From tx = 0" using assms(1) that by (auto simp: list_all_iff tx_ok_def)
    then show ?thesis by (cases tx) simp
  qed
  then have "readable b" "drop_senders b = b"
    using assms(1) by (simp_all add: readable_def drop_senders_def list_all_iff map_idI)
  then show ?thesis using DecodeBlock_readable assms(2) by metis
qed

text \<open>A transaction that does not decode spoils the body.\<close>

lemma DecodeBlock_bad:
  assumes "block_Encode b = Inr bs" "tx \<in> set (b_Transactions b)"
    "\<And>enc. tx_Encode tx = Inr enc \<Longrightarrow> \<exists>e. DecodeTx enc = Inl e"
  shows "\<exists>e. DecodeBlock bs = Inl e"
proof (cases "DecodeBlock bs")
  case (Inr b')
  then obtain tx' where "and_then (tx_Encode tx) DecodeTx = Inr tx'"
    using assms(2) by (auto simp: DecodeBlock_iff [OF assms(1)] list_all2_conv_all_nth in_set_conv_nth)
  then show ?thesis using assms(3) by (auto simp: and_then_Inr_iff)
qed simp

lemma DecodeBlock_Encode: "block_ok b \<Longrightarrow> block_Encode b = Inr bs \<Longrightarrow> DecodeBlock bs = Inr b"
  using DecodeBlock_Encode_zero [of b bs] by (cases b; cases "b_Header b") (simp add: block_ok_def header_ok_def)

interpretation blk: codec block_Encode DecodeBlock block_ok
  by unfold_locales (rule DecodeBlock_Encode)

section \<open>Receipts and logs\<close>

record log =
  lg_Address :: address
  lg_Topics :: "hash list"
  lg_Data :: bytes

record receipt =
  r_Status :: byte
  r_TxHash :: hash
  r_GasUsed :: gas
  r_CumulativeGasUsed :: gas
  r_LogsBloom :: bloom
  r_Logs :: "log list"
  r_ContractAddress :: "address option"
  r_EffectiveGasPrice :: uint256

definition mergeBloom :: "bloom \<Rightarrow> bloom \<Rightarrow> bloom" where
  "mergeBloom a b = bytes_word (map2 (\<lambda>x y. x OR y) (word_bytes a) (word_bytes b))"

definition ComputeLogsBloom :: "keccak \<Rightarrow> receipt \<Rightarrow> bloom" where
  "ComputeLogsBloom kec r =
     foldl (\<lambda>bloom lg. mergeBloom bloom (BloomFromLogs kec (lg_Address lg) (lg_Topics lg))) 0 (r_Logs r)"

definition log_bytes :: "log \<Rightarrow> bytes" where
  "log_bytes lg = word_bytes (lg_Address lg) @ [word_of_nat (length (lg_Topics lg))] @
     concat (map word_bytes (lg_Topics lg)) @ Uint64BE (word_of_nat (length (lg_Data lg))) @ lg_Data lg"

definition receiptLeaf :: "keccak \<Rightarrow> receipt \<Rightarrow> hash" where
  "receiptLeaf kec r = Keccak256 kec [
     [r_Status r] @ word_bytes (r_TxHash r) @ Uint64BE (r_GasUsed r) @ Uint64BE (r_CumulativeGasUsed r) @
     word_bytes (r_LogsBloom r) @ word_bytes (r_EffectiveGasPrice r) @
     concat (map log_bytes (r_Logs r))]"

definition ComputeReceiptRoot :: "keccak \<Rightarrow> receipt list \<Rightarrow> hash" where
  "ComputeReceiptRoot kec receipts = MerkleRoot kec (map (receiptLeaf kec) receipts)"

definition ComputeBlockLogsBloom :: "receipt list \<Rightarrow> bloom" where
  "ComputeBlockLogsBloom receipts = foldl (\<lambda>bloom r. mergeBloom bloom (r_LogsBloom r)) 0 receipts"

lemma bloom_set_merge: "bloom_set (mergeBloom a b) = bloom_set a \<union> bloom_set b"
proof -
  have bytes: "word_bytes (mergeBloom a b) = map2 (\<lambda>x y. x OR y) (word_bytes a) (word_bytes b)"
    by (simp add: mergeBloom_def word_bytes_bytes_word)
  have "bloom_test (word_bytes (mergeBloom a b)) p \<longleftrightarrow> bloom_test (word_bytes a) p \<or> bloom_test (word_bytes b) p"
    if "p < 2048" for p
  proof -
    have "bloom_byteIndex p < 256" using that by (rule bloom_byteIndex_less)
    then show ?thesis
      by (simp add: bloom_test_def bytes bit.conj_disj_distrib2 or_eq_0_iff)
  qed
  then show ?thesis by (auto simp: bloom_set_def)
qed

lemma bloom_set_ComputeLogsBloom:
  "bloom_set (ComputeLogsBloom kec r) =
     (\<Union>lg\<in>set (r_Logs r). bloom_set (BloomFromLogs kec (lg_Address lg) (lg_Topics lg)))"
proof -
  have "bloom_set (foldl (\<lambda>bloom lg. mergeBloom bloom (BloomFromLogs kec (lg_Address lg) (lg_Topics lg))) b (ls :: log list)) =
    bloom_set b \<union> (\<Union>lg\<in>set ls. bloom_set (BloomFromLogs kec (lg_Address lg) (lg_Topics lg)))" for b ls
    by (induction ls arbitrary: b) (auto simp: bloom_set_merge)
  then show ?thesis by (simp add: ComputeLogsBloom_def)
qed

lemma bloom_set_block: "bloom_set (ComputeBlockLogsBloom rs) = (\<Union>r\<in>set rs. bloom_set (r_LogsBloom r))"
proof -
  have "bloom_set (foldl (\<lambda>bloom r. mergeBloom bloom (r_LogsBloom r)) b rs) =
    bloom_set b \<union> (\<Union>r\<in>set rs. bloom_set (r_LogsBloom r))" for b
    by (induction rs arbitrary: b) (auto simp: bloom_set_merge)
  then show ?thesis by (simp add: ComputeBlockLogsBloom_def)
qed

lemma bloom_set_BloomFromLogs:
  "bloom_set (BloomFromLogs kec addr topics) =
     bloom_positions (Keccak256 kec [word_bytes addr]) \<union> (\<Union>t\<in>set topics. bloom_positions (Keccak256 kec [word_bytes t]))"
  by (simp add: BloomFromLogs_def bloom_set_foldl bloom_set_BloomAdd)

section \<open>Properties\<close>

text \<open>
  C37: what survives the block codec. The encoding of a block decodes to \<open>b'\<close> exactly if the header of \<open>b'\<close> is that of the
  block with version and round at zero, as the header encoder writes the high bytes of both, which are
  always zero, and each transaction of the block, once encoded, decodes to that of \<open>b'\<close> in its
  place: one transaction that does not decode spoils the block. Transactions of the types 1 to 127 that set only the
  fee fields of their type, do not name the zero address as recipient and have at most \<open>MaxTxSize\<close> bytes come back
  without the recovered sender, and otherwise as they were.
\<close>

theorem block_roundtrip:
  assumes "block_Encode b = Inr bs"
  shows "(DecodeBlock bs = Inr b' \<longleftrightarrow> b_Header b' = (b_Header b)\<lparr>h_Version := 0, h_Round := 0\<rparr> \<and>
      list_all2 (\<lambda>tx tx'. and_then (tx_Encode tx) DecodeTx = Inr tx') (b_Transactions b) (b_Transactions b')) \<and>
    (readable b \<longrightarrow> DecodeBlock bs = Inr ((drop_senders b)\<lparr>b_Header := (b_Header b)\<lparr>h_Version := 0, h_Round := 0\<rparr>\<rparr>))"
  using DecodeBlock_iff [OF assms] DecodeBlock_readable [OF _ assms] by simp

definition header_sample :: header where
  "header_sample = \<lparr>h_Version = 1, h_ChainID = 7, h_Height = 3, h_Round = 2, h_Timestamp = 1000, h_PrevHash = 4,
     h_Proposer = 5, h_TxRoot = 6, h_ReceiptRoot = 7, h_StateRoot = 8, h_LogsBloom = 0, h_GasUsed = 9,
     h_GasLimit = 10, h_BaseFeePerGas = 11, h_ValidatorSetHash = 12, h_ExtraData = []\<rparr>"

lemma one_tx_Encode:
  assumes "h_ExtraData (b_Header b) = []" "b_Transactions b = [tx]" "tx_Encode tx = Inr enc" "length enc \<le> 1000"
  shows "is_ok (block_Encode b)"
proof -
  obtain hb where "header_Encode (b_Header b) = Inr hb" using assms(1) by (simp add: header_Encode_def)
  then show ?thesis using assms length_header_bytes [of "b_Header b" hb]
    by (simp add: block_Encode_def encode_body_def size_consts header_fixedSize_def)
qed

theorem block_roundtrip_witness:
  "\<exists>bs b. block_Encode \<lparr>b_Header = header_sample, b_Transactions = [tx_sample\<lparr>tx_From := 9\<rparr>]\<rparr> = Inr bs
    \<and> DecodeBlock bs = Inr b \<and> h_Version (b_Header b) = 0 \<and> h_Height (b_Header b) = 3 \<and> b_Transactions b = [tx_sample]"
proof -
  let ?b = "\<lparr>b_Header = header_sample, b_Transactions = [tx_sample\<lparr>tx_From := 9\<rparr>]\<rparr>"
  have s: "tx_sample\<lparr>tx_From := 0\<rparr> = tx_sample" by (simp add: tx_sample_def)
  obtain enc where "tx_Encode (tx_sample\<lparr>tx_From := 9\<rparr>) = Inr enc" "length enc \<le> 1000"
    by (simp add: tx_sample_def tx_Encode_def tx_types tx_type_prefix_def SigningPayload_def size_consts)
  from one_tx_Encode [OF _ _ this, of ?b] obtain bs where bs: "block_Encode ?b = Inr bs"
    by (auto simp: header_sample_def is_ok_iff)
  have "readable ?b" using tx_sample_ok(1) by (simp add: readable_def s)
  then show ?thesis using block_roundtrip [OF bs] bs by (simp add: drop_senders_def s) (simp add: header_sample_def)
qed

text \<open>
  the block hash covers every header field but the version and the round. Without a Keccak
  collision, two headers that hash alike agree in all other fields; and headers that differ only
  there always hash alike.
\<close>

theorem header_hash_binding:
  assumes "header_Encode h = Inr bs" "header_Encode h' = Inr bs'" "inj_on kec {bs, bs'}"
  shows "header_Hash kec h = header_Hash kec h' \<longleftrightarrow>
    h' = h\<lparr>h_Version := h_Version h', h_Round := h_Round h'\<rparr>"
proof -
  have "header_Hash kec h = header_Hash kec h' \<longleftrightarrow> kec bs = kec bs'"
    by (simp add: header_Hash_def assms(1,2) Keccak256_def)
  also have "\<dots> \<longleftrightarrow> bs = bs'" using assms(3) by (auto simp: inj_on_def)
  also have "\<dots> \<longleftrightarrow> h' = h\<lparr>h_Version := h_Version h', h_Round := h_Round h'\<rparr>"
    by (rule header_Encode_eq_iff [OF assms(1,2)])
  finally show ?thesis .
qed

theorem header_hash_binding_witness:
  "header_Hash (\<lambda>b. 1) header_sample = header_Hash (\<lambda>b. 1) (header_sample\<lparr>h_Round := 9\<rparr>)"
proof -
  have "is_ok (header_Encode header_sample)" by (simp add: header_Encode_def header_sample_def size_consts)
  then obtain bs where bs: "header_Encode header_sample = Inr bs" by (auto simp: is_ok_iff)
  then have bs': "header_Encode (header_sample\<lparr>h_Round := 9\<rparr>) = Inr bs"
    by (simp add: header_Encode_Inr header_body_def)
  show ?thesis by (rule iffD2 [OF header_hash_binding [OF bs bs']]) simp_all
qed

text \<open>
  the transaction root does not bind the transactions. A transaction with a cached hash, which
  the decoder takes from the wire, enters the root with that hash, so replacing any transaction by
  any other that carries the same cached hash leaves the root unchanged.
\<close>

theorem tx_root_trusts_cache:
  assumes "tx_HashCache t = Some h" "tx_HashCache u = Some h"
  shows "fst (ComputeTxRoot kec \<lparr>b_Header = hd1, b_Transactions = ts @ t # us\<rparr>)
    = fst (ComputeTxRoot kec \<lparr>b_Header = hd2, b_Transactions = ts @ u # us\<rparr>)"
  using assms by (simp add: ComputeTxRoot_def tx_leaf_def tx_Hash_def)

theorem tx_root_trusts_cache_witness:
  "fst (ComputeTxRoot bytes_word \<lparr>b_Header = header_sample, b_Transactions = [tx_sample\<lparr>tx_HashCache := Some 5\<rparr>]\<rparr>)
   = fst (ComputeTxRoot bytes_word \<lparr>b_Header = header_sample,
        b_Transactions = [tx_sample\<lparr>tx_Value := 999999, tx_HashCache := Some 5\<rparr>]\<rparr>)"
  using tx_root_trusts_cache [of "tx_sample\<lparr>tx_HashCache := Some 5\<rparr>" 5
      "tx_sample\<lparr>tx_Value := 999999, tx_HashCache := Some 5\<rparr>" bytes_word header_sample "[]" "[]" header_sample]
  by simp

text \<open>
  a receipt's bloom misses no log, and the block's bloom no receipt. The positions of
  \<open>ComputeLogsBloom\<close> are exactly those of the addresses and topics of its logs, and the positions of
  \<open>ComputeBlockLogsBloom\<close> are the union over its receipts, so the membership test succeeds for each.
\<close>

theorem logs_bloom_complete:
  "bloom_set (ComputeLogsBloom kec r) =
     (\<Union>lg\<in>set (r_Logs r). \<Union>w\<in>insert (word_bytes (lg_Address lg)) (word_bytes ` set (lg_Topics lg)).
        bloom_positions (Keccak256 kec [w]))
   \<and> bloom_set (ComputeBlockLogsBloom rs) = (\<Union>r\<in>set rs. bloom_set (r_LogsBloom r))"
  by (simp add: bloom_set_ComputeLogsBloom bloom_set_BloomFromLogs bloom_set_block)

end
