(* ===== verification/Receipt.thy ===== *)
theory Receipt
  imports Block
begin

text \<open>
  The receipt codec of \<open>chain/receipt_codec.go\<close>. The decoder checks the minimum length once and
  then uses the unchecked closure \<open>take\<close>, a read that panics when too few bytes remain.
\<close>

section \<open>Encoding\<close>

definition receipt_Encode :: "keccak \<Rightarrow> receipt \<Rightarrow> bytes res" where
  "receipt_Encode kec r =
     (if r_Status r > 1 then Inl ErrCodec
      else if r_LogsBloom r \<noteq> 0 \<and> r_LogsBloom r \<noteq> ComputeLogsBloom kec r then Inl ErrCodec
      else if length (r_Logs r) > 0xffffffff then Inl ErrOversized
      else if list_ex (\<lambda>lg. length (lg_Topics lg) > 4) (r_Logs r) then Inl ErrCodec
      else Inr ([r_Status r] @ word_bytes (r_TxHash r) @ beUint64 (r_GasUsed r) @
        beUint64 (r_CumulativeGasUsed r) @ word_bytes (r_LogsBloom r) @
        word_bytes (r_EffectiveGasPrice r) @
        (case r_ContractAddress r of Some a \<Rightarrow> [1] @ word_bytes a | None \<Rightarrow> [0]) @
        leUint32 (word_of_nat (length (r_Logs r))) @
        concat (map log_bytes (r_Logs r))))"

section \<open>Decoding\<close>

fun read_topics :: "nat \<Rightarrow> bytes \<Rightarrow> (hash list \<times> bytes) res" where
  "read_topics 0 rest = Inr ([], rest)"
| "read_topics (Suc n) rest =
     and_then (take_word rest) (\<lambda>(t, rest). and_then (read_topics n rest) (\<lambda>(ts, rest). Inr (t # ts, rest)))"

definition read_log :: "bytes \<Rightarrow> (log \<times> bytes) res" where
  "read_log rest =
     (if length rest < 20 + 1 + 8 then Inl ErrCodec
      else
        and_then (take_word rest) (\<lambda>(addr, rest).
        and_then (take_word rest) (\<lambda>(tc :: byte, rest).
        let topicCount = unat tc in
        if topicCount > 4 then Inl ErrCodec
        else if length rest < topicCount * 32 + 8 then Inl ErrCodec
        else
          and_then (read_topics topicCount rest) (\<lambda>(topics, rest).
          and_then (take_word rest) (\<lambda>(dataLen :: uint64, rest).
          if word_of_nat (length rest) < dataLen then Inl ErrCodec
          else and_then (split_at (unat dataLen) rest GoPanic) (\<lambda>(dat, rest).
            Inr (\<lparr>lg_Address = addr, lg_Topics = topics, lg_Data = dat\<rparr>, rest)))))))"

fun read_logs :: "nat \<Rightarrow> bytes \<Rightarrow> (log list \<times> bytes) res" where
  "read_logs 0 rest = Inr ([], rest)"
| "read_logs (Suc n) rest =
     and_then (read_log rest) (\<lambda>(lg, rest). and_then (read_logs n rest) (\<lambda>(ls, rest). Inr (lg # ls, rest)))"

definition receipt_minSize :: nat where
  "receipt_minSize = 1 + 32 + 8 + 8 + 256 + 32 + 1 + 4"

definition read_contract :: "bytes \<Rightarrow> (address option \<times> bytes) res" where
  "read_contract rest =
     and_then (take_word rest) (\<lambda>(hasContract :: byte, rest).
       if hasContract = 1 then and_then (take_word rest) (\<lambda>(addr, rest). Inr (Some addr, rest))
       else if hasContract \<noteq> 0 then Inl ErrCodec
       else Inr (None, rest))"

definition DecodeReceipt :: "bytes \<Rightarrow> receipt res" where
  "DecodeReceipt data =
     (if length data < receipt_minSize then Inl ErrCodec
      else
        and_then (take_word data) (\<lambda>(status, r).
        if status > 1 then Inl ErrCodec
        else
          and_then (take_word r) (\<lambda>(txHash, r).
          and_then (take_word r) (\<lambda>(gasUsed, r).
          and_then (take_word r) (\<lambda>(cumulative, r).
          and_then (take_word r) (\<lambda>(bloom, r).
          and_then (take_word r) (\<lambda>(price, r).
          and_then (read_contract r) (\<lambda>(contract, r).
          and_then (split_at 4 r GoPanic) (\<lambda>(cb, r).
          let logCount = getLeUint32 cb in
          if logCount > word_of_nat (length data div 29) + 1 then Inl ErrCodec
          else
            and_then (read_logs (unat logCount) r) (\<lambda>(logs, r).
            if r \<noteq> [] then Inl ErrCodec
            else Inr \<lparr>r_Status = status, r_TxHash = txHash, r_GasUsed = gasUsed,
              r_CumulativeGasUsed = cumulative, r_LogsBloom = bloom, r_Logs = logs,
              r_ContractAddress = contract, r_EffectiveGasPrice = price\<rparr>))))))))))"

definition HashTreeRoot :: "keccak \<Rightarrow> receipt \<Rightarrow> hash" where
  "HashTreeRoot kec r = receiptLeaf kec r"

section \<open>Reading back\<close>

lemma take_word_byte [codec_simps]: "take_word (b # rest) = Inr (b :: byte, rest)"
  using take_word_bytes [where 'a = 8, of "[b]" rest] by (simp add: bytes_word_def be_val_Cons)

lemma take_word_be64 [codec_simps]: "take_word (beUint64 v @ rest) = Inr (v, rest)"
  by (simp add: beUint64_def take_word_self)

lemma read_topics_words [codec_simps]:
  "read_topics (length ts) (concat (map word_bytes ts) @ rest) = Inr (ts, rest)"
  by (induction ts) (simp_all add: take_word_self)

lemma length_topics: "length (concat (map word_bytes (ts :: hash list))) = 32 * length ts"
  by (simp add: length_concat_const)

lemma read_log_bytes:
  assumes "length (lg_Topics lg) \<le> 4" "length (lg_Data lg @ rest) < 2 ^ 64"
  shows "read_log (log_bytes lg @ rest) = Inr (lg, rest)"
proof -
  have u: "unat (word_of_nat (length (lg_Topics lg)) :: byte) = length (lg_Topics lg)"
    using assms(1) by (simp add: unat_of_nat)
  have v: "unat (word_of_nat (length (lg_Data lg)) :: uint64) = length (lg_Data lg)"
    using assms(2) by (simp add: unat_of_nat)
  have w: "unat (word_of_nat (length (lg_Data lg @ rest)) :: uint64) = length (lg_Data lg @ rest)"
    using assms(2) unfolding unat_of_nat by simp
  have "\<not> word_of_nat (length (lg_Data lg @ rest)) < (word_of_nat (length (lg_Data lg)) :: uint64)"
    unfolding word_less_nat_alt v w by simp
  then show ?thesis using assms(1) u v
    by (simp add: read_log_def log_bytes_def take_word_self take_word_byte take_word_Uint64BE
        read_topics_words length_topics Let_def del: of_nat_add)
qed

lemma length_log_bytes_data: "length (lg_Data lg) \<le> length (log_bytes lg)"
  by (simp add: log_bytes_def)

lemma read_logs_bytes:
  "list_all (\<lambda>lg. length (lg_Topics lg) \<le> 4) ls \<Longrightarrow> length (concat (map log_bytes ls) @ rest) < 2 ^ 64 \<Longrightarrow>
   read_logs (length ls) (concat (map log_bytes ls) @ rest) = Inr (ls, rest)"
proof (induction ls)
  case (Cons lg ls)
  have "length (lg_Data lg @ concat (map log_bytes ls) @ rest) < 2 ^ 64"
    using Cons.prems(2) length_log_bytes_data [of lg] by simp
  then show ?case using Cons read_log_bytes [of lg "concat (map log_bytes ls) @ rest"] by simp
qed simp

lemma length_log_bytes: "29 \<le> length (log_bytes lg)"
  by (simp add: log_bytes_def)

lemma length_logs: "29 * length ls \<le> length (concat (map log_bytes ls))"
proof (induction ls)
  case (Cons lg ls)
  then show ?case using length_log_bytes [of lg] by simp
qed simp

definition contract_bytes :: "address option \<Rightarrow> bytes" where
  "contract_bytes c = (case c of Some a \<Rightarrow> [1] @ word_bytes a | None \<Rightarrow> [0])"

lemma read_contract_bytes: "read_contract (contract_bytes c @ rest) = Inr (c, rest)"
  by (auto simp: read_contract_def contract_bytes_def take_word_byte take_word_self split: option.splits)

lemma DecodeReceipt_Encode:
  assumes enc: "receipt_Encode kec r = Inr bs" and len: "length bs < 2 ^ 32"
  shows "DecodeReceipt bs = Inr r"
proof -
  let ?logs = "concat (map log_bytes (r_Logs r))"
  have ok: "\<not> r_Status r > 1" "list_all (\<lambda>lg. length (lg_Topics lg) \<le> 4) (r_Logs r)"
    and bs: "bs = [r_Status r] @ word_bytes (r_TxHash r) @ beUint64 (r_GasUsed r) @
        beUint64 (r_CumulativeGasUsed r) @ word_bytes (r_LogsBloom r) @
        word_bytes (r_EffectiveGasPrice r) @ contract_bytes (r_ContractAddress r) @
        leUint32 (word_of_nat (length (r_Logs r))) @ ?logs"
    using enc by (auto simp: receipt_Encode_def contract_bytes_def list_ex_iff list_all_iff not_less split: if_splits)
  have "29 * length (r_Logs r) \<le> length bs" using length_logs [of "r_Logs r"] by (simp add: bs)
  then have cnt: "length (r_Logs r) \<le> length bs div 29" by linarith
  then have u: "unat (word_of_nat (length (r_Logs r)) :: uint32) = length (r_Logs r)"
    using len by (simp add: unat_of_nat)
  have "unat (word_of_nat (length bs div 29) + 1 :: uint32) = length bs div 29 + 1"
    using len by (simp add: unat_word_ariths unat_of_nat)
  then have "\<not> word_of_nat (length (r_Logs r)) > (word_of_nat (length bs div 29) + 1 :: uint32)"
    using cnt by (simp add: word_less_nat_alt u)
  moreover have "read_logs (length (r_Logs r)) (?logs @ []) = Inr (r_Logs r, [])"
    using len by (intro read_logs_bytes ok) (simp add: bs)
  moreover have "\<not> length bs < receipt_minSize"
    by (simp add: bs receipt_minSize_def contract_bytes_def split: option.splits)
  moreover have "take_word bs = Inr (r_Status r, drop 1 bs)" by (simp add: bs take_word_byte)
  ultimately show ?thesis using ok(1) u unfolding DecodeReceipt_def
    by (simp add: take_word_self take_word_be64 read_contract_bytes Let_def)
      (simp add: bs take_word_self take_word_be64 read_contract_bytes Let_def)
qed

definition receipt_ok :: "keccak \<Rightarrow> receipt \<Rightarrow> bool" where
  "receipt_ok kec r \<longleftrightarrow> (case receipt_Encode kec r of Inl _ \<Rightarrow> True | Inr bs \<Rightarrow> length bs < 2 ^ 32)"

interpretation rcpt: codec "receipt_Encode kec" DecodeReceipt "receipt_ok kec" for kec
  by unfold_locales (auto intro: DecodeReceipt_Encode simp: receipt_ok_def)

section \<open>Where the decoder panics\<close>

lemma take_word_long:
  "LENGTH('a::len) div 8 \<le> length r \<Longrightarrow>
   take_word r = Inr (bytes_word (take (LENGTH('a) div 8) r) :: 'a word, drop (LENGTH('a) div 8) r)"
  by (simp add: take_word_def split_at_def)

lemma take_word_short: "length r < LENGTH('a::len) div 8 \<Longrightarrow> (take_word r :: ('a word \<times> bytes) res) = Inl GoPanic"
  by (simp add: take_word_def split_at_def)

lemmas take_words_long =
  take_word_long [where 'a = 160, simplified] take_word_long [where 'a = 256, simplified]
  take_word_long [where 'a = 64, simplified] take_word_long [where 'a = 2048, simplified]

lemma take_byte_long: "r \<noteq> [] \<Longrightarrow> take_word r = Inr (r ! 0 :: byte, drop 1 r)"
  by (cases r) (simp_all add: take_word_byte)

lemma read_topics_long: "32 * n \<le> length r \<Longrightarrow> \<exists>ts. read_topics n r = Inr (ts, drop (32 * n) r)"
proof (induction n arbitrary: r)
  case (Suc n)
  then have "32 * n \<le> length (drop 32 r)" by simp
  from Suc.IH [OF this] obtain ts where "read_topics n (drop 32 r) = Inr (ts, drop (32 * n) (drop 32 r))" ..
  then show ?case using Suc.prems by (simp add: take_words_long add.commute)
qed simp

lemma read_log_no_panic: "read_log r \<noteq> Inl GoPanic"
proof (cases "length r < 29")
  case False
  then have ne: "drop 20 r \<noteq> []" "drop 20 r ! 0 = r ! 20" by simp_all
  define tc where "tc = unat (r ! 20)"
  show ?thesis
  proof (cases "4 < tc \<or> length (drop 21 r) < tc * 32 + 8")
    case True
    then show ?thesis using False ne
      by (auto simp: read_log_def take_words_long take_byte_long tc_def Let_def)
  next
    case tc: False
    then obtain ts where ts: "read_topics tc (drop 21 r) = Inr (ts, drop (32 * tc) (drop 21 r))"
      using read_topics_long [of tc "drop 21 r"] by auto
    define r' where "r' = drop 8 (drop (32 * tc) (drop 21 r))"
    have le: "unat dl \<le> length r'" if "\<not> word_of_nat (length r') < (dl :: uint64)" for dl
    proof -
      have "unat dl \<le> unat (word_of_nat (length r') :: uint64)" using that by (simp add: word_less_nat_alt)
      also have "\<dots> \<le> length r'" by (simp add: unat_of_nat)
      finally show ?thesis .
    qed
    have sp: "word_of_nat (length r') < (dl :: uint64) \<or> is_ok (split_at (unat dl) r' GoPanic)" for dl
      by (cases "word_of_nat (length r') < dl") (use le [of dl] in \<open>simp_all add: split_at_def not_less\<close>)
    have "take_word (drop (32 * tc) (drop 21 r)) =
        Inr (bytes_word (take 8 (drop (32 * tc) (drop 21 r))) :: uint64, r')"
      using tc False unfolding r'_def by (subst take_word_long) auto
    then show ?thesis using False tc ts ne sp [of "bytes_word (take 8 (drop (32 * tc) (drop 21 r)))"]
      by (auto simp: read_log_def take_words_long take_byte_long tc_def [symmetric] Let_def is_ok_iff and_then_Inl_iff)
  qed
qed (simp add: read_log_def)

lemma read_logs_no_panic: "read_logs n r \<noteq> Inl GoPanic"
  by (induction n arbitrary: r) (auto simp: and_then_Inl_iff read_log_no_panic)

section \<open>Properties\<close>

text \<open>
  decoding undoes encoding for receipts. Every receipt the encoder accepts decodes from its
  encoding, when that is below 4 GiB, to itself, with its logs, bloom and contract address.
\<close>

theorem receipt_roundtrip:
  assumes "receipt_Encode kec r = Inr bs" "length bs < 2 ^ 32"
  shows "DecodeReceipt bs = Inr r"
  using assms rcpt.dec_enc [of kec r bs] by (simp add: receipt_ok_def)

definition receipt_sample :: receipt where
  "receipt_sample = \<lparr>r_Status = 1, r_TxHash = 5, r_GasUsed = 21000, r_CumulativeGasUsed = 21000, r_LogsBloom = 0,
     r_Logs = [\<lparr>lg_Address = 3, lg_Topics = [7, 8], lg_Data = [1, 2]\<rparr>], r_ContractAddress = Some 9,
     r_EffectiveGasPrice = 10\<rparr>"

theorem receipt_roundtrip_witness:
  "\<exists>bs. receipt_Encode (\<lambda>b. 0) receipt_sample = Inr bs \<and> DecodeReceipt bs = Inr receipt_sample"
proof -
  have "\<exists>bs. receipt_Encode (\<lambda>b. 0) receipt_sample = Inr bs \<and> length bs < 2 ^ 32"
    by (simp add: receipt_Encode_def receipt_sample_def log_bytes_def)
  then obtain bs where bs: "receipt_Encode (\<lambda>b. 0) receipt_sample = Inr bs" "length bs < 2 ^ 32" by blast
  show ?thesis using receipt_roundtrip [OF bs] bs by simp
qed

text \<open>
  exactly when the receipt decoder panics. It indexes out of range iff the data holds 342 to
  361 bytes, the status is 0 or 1 and the contract flag is 1: the minimum size leaves no room for the
  contract address.
\<close>

theorem DecodeReceipt_panics_iff:
  "DecodeReceipt data = Inl GoPanic \<longleftrightarrow>
     342 \<le> length data \<and> length data < 362 \<and> data ! 0 \<le> 1 \<and> data ! 337 = 1"
proof (cases "length data < 342 \<or> \<not> data ! 0 \<le> 1")
  case True
  then show ?thesis
  proof (cases "length data < 342")
    case False
    then have "data \<noteq> []" "1 < data ! 0" using True by (auto simp: not_le)
    then show ?thesis using False by (simp add: DecodeReceipt_def receipt_minSize_def take_byte_long not_le)
  qed (simp add: DecodeReceipt_def receipt_minSize_def)
next
  case False
  then have len: "342 \<le> length data" and st: "\<not> 1 < data ! 0" by (auto simp: not_less)
  let ?tail = "\<lambda>r. and_then (split_at 4 r GoPanic) (\<lambda>(cb, r).
      if getLeUint32 cb > word_of_nat (length data div 29) + 1 then Inl ErrCodec
      else and_then (read_logs (unat (getLeUint32 cb)) r) (\<lambda>(logs, r). if r \<noteq> [] then Inl ErrCodec else Inr ()))"
  have tail: "(\<exists>x. split_at 4 r GoPanic = Inr x) \<longleftrightarrow> 4 \<le> length r" for r :: bytes
    by (auto simp: split_at_def)
  have "data \<noteq> []" using len by auto
  then have reads: "DecodeReceipt data = Inl GoPanic \<longleftrightarrow>
      read_contract (drop 337 data) = Inl GoPanic \<or>
      (\<exists>c r. read_contract (drop 337 data) = Inr (c, r) \<and> length r < 4)"
    using len st read_logs_no_panic unfolding DecodeReceipt_def receipt_minSize_def
    by (auto simp: take_byte_long take_words_long and_then_Inl_iff Let_def split_at_def split: if_splits)
  have ne: "drop 337 data \<noteq> []" "drop 337 data ! 0 = data ! 337" using len by simp_all
  have "read_contract (drop 337 data) =
      (if data ! 337 = 1 then (if length data < 358 then Inl GoPanic
         else Inr (Some (bytes_word (take 20 (drop 338 data))), drop 358 data))
       else if data ! 337 \<noteq> 0 then Inl ErrCodec else Inr (None, drop 338 data))"
    using take_byte_long [OF ne(1)] ne(2) len
    by (auto simp: read_contract_def take_words_long take_word_short)
  then show ?thesis using reads False by (auto split: if_splits)
qed

end
