(* ===== verification/Genesis.thy ===== *)
theory Genesis
  imports Receipt "HOL-Library.Char_ord" "HOL-Library.Multiset"
begin

text \<open>
  The genesis configuration of \<open>chain/genesis.go\<close>: its validation, the state and block built from
  it, the hash of the validator set, and the number and address parsers. Reading and decoding the JSON
  file (\<open>LoadGenesis\<close>) is not modelled. Strings are lists of bytes, ordered as Go orders them. The
  sort of the validators is \<open>slices.SortFunc\<close>, whose order of equal addresses is unspecified; the
  model keeps their order.
\<close>

section \<open>Parsers\<close>

definition trim_prefix :: "string \<Rightarrow> string \<Rightarrow> string" where
  "trim_prefix p s = (if prefix p s then drop (length p) s else s)"

definition decodeHex :: "string \<Rightarrow> bytes res" where
  "decodeHex s0 =
     (let s = trim_prefix ''0X'' (trim_prefix ''0x'' s0) in
      if s = [] then Inr []
      else if length s mod 2 \<noteq> 0 then Inl (ErrOther ''odd hex length'')
      else hex_decode s)"

definition ParseAddress :: "string \<Rightarrow> address res" where
  "ParseAddress s =
     and_then (decodeHex s) (\<lambda>b.
       if length b \<noteq> AddressLen then Inl (ErrOther ''address length'') else Inr (bytes_word b))"

definition FormatAddress :: "address \<Rightarrow> string" where
  "FormatAddress a = address_string a"

definition is_digit :: "char \<Rightarrow> bool" where
  "is_digit c \<longleftrightarrow> 48 \<le> (of_char c :: nat) \<and> (of_char c :: nat) \<le> 57"

definition digit_val :: "char \<Rightarrow> nat" where
  "digit_val c = of_char c - 48"

definition parse64_step :: "char \<Rightarrow> uint64 \<Rightarrow> uint64 res" where
  "parse64_step c v =
     (if \<not> is_digit c then Inl (ErrOther ''not a digit'')
      else let nv = v * 10 + word_of_nat (digit_val c) in
        if nv < v then Inl (ErrOther ''overflow'') else Inr nv)"

definition parseUint64 :: "string \<Rightarrow> uint64 res" where
  "parseUint64 s = (if s = [] then Inl (ErrOther ''empty'') else each parse64_step s 0)"

definition parse256_step :: "char \<Rightarrow> uint256 \<Rightarrow> uint256 res" where
  "parse256_step c acc =
     (if \<not> is_digit c then Inl (ErrOther ''not a digit'')
      else let acc = (case uint256_mul acc (uint256_from_uint64 10) of Inl _ \<Rightarrow> zero_uint256 | Inr v \<Rightarrow> v)
        in case uint256_add acc (uint256_from_uint64 (word_of_nat (digit_val c))) of
             Inl _ \<Rightarrow> Inl (ErrOther ''overflow'')
           | Inr next \<Rightarrow> Inr next)"

definition parseUint256 :: "string \<Rightarrow> uint256 res" where
  "parseUint256 s =
     (if s = [] then Inl (ErrOther ''empty'')
      else if prefix ''0x'' s \<or> prefix ''0X'' s then and_then (decodeHex s) uint256_set_bytes
      else each parse256_step s zero_uint256)"

section \<open>The configuration\<close>

record alloc_account =
  al_Balance :: string
  al_Nonce :: string
  al_Code :: string

record genesis_validator =
  gv_Address :: string
  gv_PubKey :: string
  gv_Power :: string
  gv_Moniker :: string

record genesis =
  g_ChainID :: string
  g_Timestamp :: string
  g_GasLimit :: string
  g_InitialBaseFee :: string
  g_Alloc :: "(string, alloc_account) fmap"
  g_Validators :: "genesis_validator list"
  g_ExtraData :: string
  g_Version :: string

definition validate_alloc :: "genesis \<Rightarrow> string \<Rightarrow> unit \<Rightarrow> unit res" where
  "validate_alloc g addrStr _ =
     (let acc = the (fmlookup (g_Alloc g) addrStr) in
      and_then (ParseAddress addrStr) (\<lambda>_.
        if al_Balance acc = [] then Inl (ErrOther ''missing balance'')
        else and_then (parseUint256 (al_Balance acc)) (\<lambda>_. Inr ())))"

definition validate_validator :: "genesis_validator \<Rightarrow> unit \<Rightarrow> unit res" where
  "validate_validator v _ =
     and_then (ParseAddress (gv_Address v)) (\<lambda>_.
       if gv_PubKey v = [] then Inl (ErrOther ''missing pubkey'')
       else if gv_Power v = [] then Inl (ErrOther ''missing power'')
       else case parseUint64 (gv_Power v) of
              Inl _ \<Rightarrow> Inl (ErrOther ''power'')
            | Inr p \<Rightarrow> if p = 0 then Inl (ErrOther ''power'') else Inr ())"

text \<open>The configuration with the defaulted base fee.\<close>

definition Validate :: "genesis \<Rightarrow> genesis res" where
  "Validate g =
     (if g_ChainID g = [] then Inl (ErrOther ''missing chain_id'')
      else and_then (parseUint64 (g_ChainID g)) (\<lambda>_.
      if g_Timestamp g = [] then Inl (ErrOther ''missing timestamp'')
      else and_then (parseUint64 (g_Timestamp g)) (\<lambda>_.
      if g_GasLimit g = [] then Inl (ErrOther ''missing gas_limit'')
      else
        let g = (if g_InitialBaseFee g = [] then g\<lparr>g_InitialBaseFee := ''1000000000''\<rparr> else g) in
        and_then (each (validate_alloc g) (sorted_keys (g_Alloc g)) ()) (\<lambda>_.
        and_then (each validate_validator (g_Validators g) ()) (\<lambda>_.
        Inr g)))))"

section \<open>State, validator set and block\<close>

definition apply_alloc ::
  "keccak \<Rightarrow> genesis \<Rightarrow> string \<Rightarrow> manager \<times> session \<Rightarrow> (manager \<times> session) res" where
  "apply_alloc kec g addrStr ms =
     (let acc = the (fmlookup (g_Alloc g) addrStr) in
      and_then (ParseAddress addrStr) (\<lambda>addr.
      and_then
        (if al_Nonce acc \<noteq> [] then
           and_then (parseUint64 (al_Nonce acc)) (\<lambda>n. write_step kec (WNonce addr n) ms)
         else Inr ms) (\<lambda>ms.
      and_then (parseUint256 (al_Balance acc)) (\<lambda>bal.
      and_then (write_step kec (WBalance addr bal) ms) (\<lambda>ms.
        if al_Code acc \<noteq> [] then
          and_then (decodeHex (al_Code acc)) (\<lambda>code. write_step kec (WCode addr code) ms)
        else Inr ms)))))"

definition applyToSession :: "keccak \<Rightarrow> genesis \<Rightarrow> manager \<times> session \<Rightarrow> (manager \<times> session) res" where
  "applyToSession kec g ms = each (apply_alloc kec g) (sorted_keys (g_Alloc g)) ms"

definition BuildState :: "keccak \<Rightarrow> genesis \<Rightarrow> (hash \<times> manager \<times> session) res" where
  "BuildState kec g =
     and_then (Begin NewMemoryManager 0) (\<lambda>sess.
     and_then (applyToSession kec g (NewMemoryManager, sess)) (Commit kec))"

record vs_entry =
  ve_addr :: address
  ve_pubkey :: string
  ve_power :: uint64

definition validator_entry :: "genesis_validator \<Rightarrow> vs_entry res" where
  "validator_entry v =
     and_then (ParseAddress (gv_Address v)) (\<lambda>addr.
     and_then (parseUint64 (gv_Power v)) (\<lambda>power.
     Inr \<lparr>ve_addr = addr, ve_pubkey = gv_PubKey v, ve_power = power\<rparr>))"

definition entry_bytes :: "vs_entry \<Rightarrow> bytes res" where
  "entry_bytes e =
     and_then (decodeHex (ve_pubkey e)) (\<lambda>pk.
     Inr (word_bytes (ve_addr e) @ Uint64BE (word_of_nat (length pk)) @ pk @ Uint64BE (ve_power e)))"

definition ValidatorSetHash :: "keccak \<Rightarrow> genesis \<Rightarrow> hash res" where
  "ValidatorSetHash kec g =
     and_then (each (\<lambda>v es. and_then (validator_entry v) (\<lambda>e. Inr (es @ [e]))) (g_Validators g) []) (\<lambda>entries.
     and_then (each (\<lambda>e buf. and_then (entry_bytes e) (\<lambda>b. Inr (buf @ b))) (sort_key ve_addr entries) [])
       (\<lambda>buf. Inr (Keccak256 kec [buf])))"

definition value_or_zero :: "'a::zero res \<Rightarrow> 'a" where
  "value_or_zero r = (case r of Inl _ \<Rightarrow> 0 | Inr v \<Rightarrow> v)"

definition genesis_extra :: "genesis \<Rightarrow> bytes res" where
  "genesis_extra g =
     (if g_ExtraData g \<noteq> [] then
        and_then (decodeHex (g_ExtraData g)) (\<lambda>x.
          if length x > MaxExtraData then Inl (ErrOther ''extra_data'') else Inr x)
      else Inr [])"

definition BuildBlockWithManager :: "keccak \<Rightarrow> genesis \<Rightarrow> (block \<times> manager) res" where
  "BuildBlockWithManager kec g =
     and_then (BuildState kec g) (\<lambda>(stateRoot, mgr, _).
     and_then (genesis_extra g) (\<lambda>extraData.
     and_then (ValidatorSetHash kec g) (\<lambda>vsHash.
     Inr (\<lparr>b_Header =
        \<lparr>h_Version = ucast (if g_Version g \<noteq> [] then value_or_zero (parseUint64 (g_Version g)) else 1),
         h_ChainID = value_or_zero (parseUint64 (g_ChainID g)),
         h_Height = 0, h_Round = 0,
         h_Timestamp = value_or_zero (parseUint64 (g_Timestamp g)),
         h_PrevHash = 0, h_Proposer = 0,
         h_TxRoot = MerkleRoot kec [], h_ReceiptRoot = MerkleRoot kec [],
         h_StateRoot = stateRoot, h_LogsBloom = 0, h_GasUsed = 0,
         h_GasLimit = value_or_zero (parseUint64 (g_GasLimit g)),
         h_BaseFeePerGas = value_or_zero (parseUint256 (g_InitialBaseFee g)),
         h_ValidatorSetHash = vsHash, h_ExtraData = extraData\<rparr>,
       b_Transactions = []\<rparr>, mgr))))"

definition BuildBlock :: "keccak \<Rightarrow> genesis \<Rightarrow> block res" where
  "BuildBlock kec g = res_map fst (BuildBlockWithManager kec g)"

definition genesis_Hash :: "keccak \<Rightarrow> genesis \<Rightarrow> hash res" where
  "genesis_Hash kec g = and_then (BuildBlock kec g) (\<lambda>b. header_Hash kec (b_Header b))"

section \<open>The number parsers\<close>

definition dec_val :: "string \<Rightarrow> nat" where
  "dec_val s = foldl (\<lambda>a c. a * 10 + digit_val c) 0 s"

lemma dec_val_snoc: "dec_val (s @ [c]) = dec_val s * 10 + digit_val c"
  by (simp add: dec_val_def)

lemma digit_val_le: "is_digit c \<Longrightarrow> digit_val c \<le> 9"
  by (auto simp: is_digit_def digit_val_def)

lemma parse64_step_exact:
  assumes "is_digit c" "unat v * 10 + digit_val c < 2 ^ 64"
  shows "\<exists>w. parse64_step c v = Inr w \<and> unat w = unat v * 10 + digit_val c"
proof -
  have d: "digit_val c \<le> 9" using assms(1) by (rule digit_val_le)
  have "unat (v * 10 + word_of_nat (digit_val c)) = unat v * 10 + digit_val c"
    using assms(2) d by (simp add: unat_word_ariths unat_of_nat)
  then show ?thesis using assms(1) by (simp add: parse64_step_def Let_def word_less_nat_alt)
qed

lemma each_parse64:
  "list_all is_digit s \<Longrightarrow> dec_val s < 2 ^ 64 \<Longrightarrow> each parse64_step s 0 = Inr (word_of_nat (dec_val s))"
proof (induction s rule: rev_induct)
  case (snoc c s)
  have val: "dec_val s * 10 + digit_val c < 2 ^ 64" using snoc.prems(2) by (simp add: dec_val_snoc)
  then have small: "dec_val s < 2 ^ 64" by simp
  then have u: "unat (word_of_nat (dec_val s) :: uint64) = dec_val s" unfolding unat_of_nat by simp
  obtain w where w: "parse64_step c (word_of_nat (dec_val s)) = Inr w" "unat w = dec_val s * 10 + digit_val c"
    using parse64_step_exact [of c "word_of_nat (dec_val s)"] snoc.prems(1) val u by auto
  have "w = word_of_nat (dec_val (s @ [c]))"
    using val by (intro unat_eqI) (simp add: w(2) dec_val_snoc unat_of_nat del: of_nat_add of_nat_mult)
  then show ?case using snoc small w(1) by (simp add: each_append)
qed (simp add: dec_val_def)

lemma to_big_10 [simp]: "to_big (uint256_from_uint64 10) = 10"
  by simp

lemma to_big_digit: "d \<le> 9 \<Longrightarrow> to_big (uint256_from_uint64 (word_of_nat d)) = int d"
  by (simp add: uint_nat unat_of_nat)

lemma parse256_step_exact:
  assumes "is_digit c" "to_big v * 10 + int (digit_val c) < 2 ^ 256"
  shows "\<exists>w. parse256_step c v = Inr w \<and> to_big w = to_big v * 10 + int (digit_val c)"
proof -
  note d = to_big_digit [OF digit_val_le [OF assms(1)]]
  have "to_big v * to_big (uint256_from_uint64 10) < 2 ^ 256" using assms(2) unfolding to_big_10 by linarith
  from uint256_mul_fits [OF this]
  obtain m where m: "uint256_mul v (uint256_from_uint64 10) = Inr m" "to_big m = to_big v * 10"
    unfolding to_big_10 by blast
  have "to_big m + to_big (uint256_from_uint64 (word_of_nat (digit_val c))) < 2 ^ 256"
    using assms(2) unfolding m d .
  from uint256_add_fits [OF this]
  obtain w where w: "uint256_add m (uint256_from_uint64 (word_of_nat (digit_val c))) = Inr w"
      "to_big w = to_big v * 10 + int (digit_val c)"
    unfolding m d by blast
  then show ?thesis using assms(1) m(1) by (simp add: parse256_step_def)
qed

lemma each_parse256:
  "list_all is_digit s \<Longrightarrow> int (dec_val s) < 2 ^ 256 \<Longrightarrow>
   \<exists>w. each parse256_step s zero_uint256 = Inr w \<and> to_big w = int (dec_val s)"
proof (induction s rule: rev_induct)
  case (snoc c s)
  then obtain v where v: "each parse256_step s zero_uint256 = Inr v" "to_big v = int (dec_val s)"
    by (auto simp: dec_val_snoc)
  then show ?case using parse256_step_exact [of c v] snoc.prems by (auto simp: each_append dec_val_snoc)
qed (simp add: dec_val_def zero_uint256_def to_big_uint)

text \<open>Past 256 bits the product is dropped.\<close>

lemma parse256_step_overflow:
  assumes "is_digit c" "2 ^ 256 \<le> to_big v * 10"
  shows "\<exists>w. parse256_step c v = Inr w \<and> to_big w = int (digit_val c)"
proof -
  note d = to_big_digit [OF digit_val_le [OF assms(1)]]
  obtain e where e: "uint256_mul v (uint256_from_uint64 10) = Inl e"
  proof (cases "uint256_mul v (uint256_from_uint64 10)")
    case (Inr w)
    then have "to_big w = to_big v * 10" by (simp only: uint256_mul_Inr_iff to_big_10)
    then show ?thesis using to_big_less [of w] assms(2) by linarith
  qed
  have z: "to_big zero_uint256 = 0" by (simp add: zero_uint256_def to_big_uint)
  have "int (digit_val c) < 2 ^ 256" using digit_val_le [OF assms(1)] by simp
  then have "to_big zero_uint256 + to_big (uint256_from_uint64 (word_of_nat (digit_val c))) < 2 ^ 256"
    unfolding z d by simp
  from uint256_add_fits [OF this]
  obtain w where "uint256_add zero_uint256 (uint256_from_uint64 (word_of_nat (digit_val c))) = Inr w"
      "to_big w = int (digit_val c)"
    unfolding z d by auto
  then show ?thesis using assms(1) e by (simp add: parse256_step_def)
qed

section \<open>What the allocation does to the state\<close>

lemma write_step_account:
  "write_step kec (WNonce a n) (m, s) = Inr (m', s') \<Longrightarrow>
     account_at (se_accounts s') = (account_at (se_accounts s))(a := account_at (se_accounts s) a\<lparr>acc_Nonce := n\<rparr>)
     \<and> se_storage s' = se_storage s"
  "write_step kec (WBalance a v) (m, s) = Inr (m', s') \<Longrightarrow>
     account_at (se_accounts s') = (account_at (se_accounts s))(a := account_at (se_accounts s) a\<lparr>acc_Balance := v\<rparr>)
     \<and> se_storage s' = se_storage s"
  "write_step kec (WCode a c) (m, s) = Inr (m', s') \<Longrightarrow>
     account_at (se_accounts s') = (account_at (se_accounts s))(a := account_at (se_accounts s) a\<lparr>acc_CodeHash := kec c\<rparr>)
     \<and> se_storage s' = se_storage s"
  by (cases "fmlookup (se_accounts s) a";
      auto simp: SetNonce_def SetBalance_def SetCode_def Let_def update_account_def recordAccount_def
        ensureAccount_def account_at_simps Keccak256_def)+

text \<open>An account funded by its allocation entry.\<close>

definition funded :: "keccak \<Rightarrow> alloc_account \<Rightarrow> account \<Rightarrow> account res" where
  "funded kec acc x =
     and_then (if al_Nonce acc \<noteq> [] then res_map (\<lambda>n. x\<lparr>acc_Nonce := n\<rparr>) (parseUint64 (al_Nonce acc)) else Inr x) (\<lambda>x.
     and_then (parseUint256 (al_Balance acc)) (\<lambda>b.
     let x = x\<lparr>acc_Balance := b\<rparr> in
     if al_Code acc \<noteq> [] then res_map (\<lambda>c. x\<lparr>acc_CodeHash := kec c\<rparr>) (decodeHex (al_Code acc)) else Inr x))"

lemma apply_alloc_effect:
  assumes "apply_alloc kec g k (m, s) = Inr (m', s')"
  shows "\<exists>a x. ParseAddress k = Inr a \<and>
    funded kec (the (fmlookup (g_Alloc g) k)) (account_at (se_accounts s) a) = Inr x \<and>
    account_at (se_accounts s') = (account_at (se_accounts s))(a := x) \<and> se_storage s' = se_storage s"
proof -
  let ?acc = "the (fmlookup (g_Alloc g) k)"
  obtain a b m1 s1 m2 s2 where a: "ParseAddress k = Inr a"
    and n: "(if al_Nonce ?acc \<noteq> [] then
           and_then (parseUint64 (al_Nonce ?acc)) (\<lambda>n. write_step kec (WNonce a n) (m, s))
         else Inr (m, s)) = Inr (m1, s1)"
    and b: "parseUint256 (al_Balance ?acc) = Inr b" "write_step kec (WBalance a b) (m1, s1) = Inr (m2, s2)"
    and c: "(if al_Code ?acc \<noteq> [] then
          and_then (decodeHex (al_Code ?acc)) (\<lambda>code. write_step kec (WCode a code) (m2, s2))
        else Inr (m2, s2)) = Inr (m', s')"
    using assms unfolding apply_alloc_def Let_def by (auto simp: and_then_Inr_iff)
  obtain x1 where x1: "(if al_Nonce ?acc \<noteq> [] then
        res_map (\<lambda>n. account_at (se_accounts s) a\<lparr>acc_Nonce := n\<rparr>) (parseUint64 (al_Nonce ?acc))
        else Inr (account_at (se_accounts s) a)) = Inr x1"
      "account_at (se_accounts s1) = (account_at (se_accounts s))(a := x1)" "se_storage s1 = se_storage s"
    using n write_step_account(1) by (fastforce simp: and_then_Inr_iff split: if_splits)
  have x2: "account_at (se_accounts s2) = (account_at (se_accounts s))(a := x1\<lparr>acc_Balance := b\<rparr>)"
      "se_storage s2 = se_storage s"
    using write_step_account(2) [OF b(2)] x1(2,3) by simp_all
  have "\<exists>x. (if al_Code ?acc \<noteq> [] then
        res_map (\<lambda>c. x1\<lparr>acc_Balance := b, acc_CodeHash := kec c\<rparr>) (decodeHex (al_Code ?acc))
        else Inr (x1\<lparr>acc_Balance := b\<rparr>)) = Inr x
      \<and> account_at (se_accounts s') = (account_at (se_accounts s))(a := x) \<and> se_storage s' = se_storage s"
    using c x2 write_step_account(3) by (fastforce simp: and_then_Inr_iff split: if_splits)
  then show ?thesis using a b(1) x1(1) unfolding funded_def by (auto simp: Let_def)
qed

lemma each_apply_alloc:
  "each (apply_alloc kec g) ks (m, s) = Inr (m', s') \<Longrightarrow> distinct ks \<Longrightarrow> inj_on ParseAddress (set ks) \<Longrightarrow>
   (\<forall>k\<in>set ks. \<exists>a x. ParseAddress k = Inr a \<and>
      funded kec (the (fmlookup (g_Alloc g) k)) (account_at (se_accounts s) a) = Inr x \<and>
      account_at (se_accounts s') a = x)
   \<and> (\<forall>a. Inr a \<notin> ParseAddress ` set ks \<longrightarrow> account_at (se_accounts s') a = account_at (se_accounts s) a)
   \<and> se_storage s' = se_storage s"
proof (induction ks arbitrary: m s)
  case (Cons k ks)
  obtain m1 s1 where one: "apply_alloc kec g k (m, s) = Inr (m1, s1)"
    and rest: "each (apply_alloc kec g) ks (m1, s1) = Inr (m', s')"
    using Cons.prems(1) by (auto simp: and_then_Inr_iff)
  obtain a x where a: "ParseAddress k = Inr a"
    "funded kec (the (fmlookup (g_Alloc g) k)) (account_at (se_accounts s) a) = Inr x"
    "account_at (se_accounts s1) = (account_at (se_accounts s))(a := x)" "se_storage s1 = se_storage s"
    using apply_alloc_effect [OF one] by blast
  have fresh: "Inr a \<notin> ParseAddress ` set ks" using Cons.prems(2,3) a(1) by (auto simp: inj_on_def)
  have IH: "(\<forall>k\<in>set ks. \<exists>a x. ParseAddress k = Inr a \<and>
      funded kec (the (fmlookup (g_Alloc g) k)) (account_at (se_accounts s1) a) = Inr x \<and>
      account_at (se_accounts s') a = x)"
    "\<And>b. Inr b \<notin> ParseAddress ` set ks \<Longrightarrow> account_at (se_accounts s') b = account_at (se_accounts s1) b"
    "se_storage s' = se_storage s1"
    using Cons.IH [OF rest] Cons.prems(2,3) by (auto simp: inj_on_def)
  have "account_at (se_accounts s') a = x" using IH(2) [OF fresh] a(3) by simp
  moreover have "\<exists>b y. ParseAddress k' = Inr b \<and>
      funded kec (the (fmlookup (g_Alloc g) k')) (account_at (se_accounts s) b) = Inr y \<and>
      account_at (se_accounts s') b = y" if "k' \<in> set ks" for k'
    using IH(1) that fresh a(3) by (force simp: image_iff)
  ultimately show ?case using IH(2,3) a by auto
qed simp

section \<open>The validator set hash does not depend on the order\<close>

lemma each_collect:
  "list_all (\<lambda>v. is_ok (f v)) vs \<Longrightarrow>
   each (\<lambda>v es. and_then (f v) (\<lambda>e. Inr (es @ [e]))) vs es = Inr (es @ map (\<lambda>v. projr (f v)) vs)"
  by (induction vs arbitrary: es) (auto simp: is_ok_iff)

lemma sort_key_mset:
  assumes "mset xs = mset ys" "inj_on f (set xs)"
  shows "sort_key f xs = sort_key f ys"
  using assms by (intro sort_key_inj_key_eq) simp_all

section \<open>Properties\<close>

text \<open>
  decimal numbers that fit are read exactly. A non-empty string of digits whose value is below
  \<open>2 ^ 64\<close> is parsed to that value by \<open>parseUint64\<close>, and below \<open>2 ^ 256\<close> by \<open>parseUint256\<close>.
\<close>

theorem parse_numbers_exact:
  assumes "list_all is_digit s" "s \<noteq> []" "\<not> prefix ''0x'' s" "\<not> prefix ''0X'' s"
  shows "(dec_val s < 2 ^ 64 \<longrightarrow> parseUint64 s = Inr (word_of_nat (dec_val s)))
    \<and> (int (dec_val s) < 2 ^ 256 \<longrightarrow> (\<exists>w. parseUint256 s = Inr w \<and> to_big w = int (dec_val s)))"
  using each_parse64 [OF assms(1)] each_parse256 [OF assms(1)] assms
  by (simp add: parseUint64_def parseUint256_def)

theorem parse_numbers_exact_witness:
  "parseUint64 ''1000000000'' = Inr 1000000000 \<and> (\<exists>w. parseUint256 ''1000000000'' = Inr w \<and> to_big w = 1000000000)"
  using parse_numbers_exact [of "''1000000000''"] by (simp add: is_digit_def dec_val_def digit_val_def)

text \<open>
  the overflow checks of the parsers miss overflows. \<open>parseUint64\<close> compares with the previous value
  only, and reads \<open>30000000000000000000\<close> as that number minus \<open>2 ^ 64\<close>; \<open>parseUint256\<close> drops the error
  of \<open>Mul\<close>, whose result is then zero, and reads 1 followed by 78 zeros as 0.
\<close>

theorem parse_overflow_accepted:
  "parseUint64 ''30000000000000000000'' = Inr 11553255926290448384
   \<and> parseUint256 (CHR ''1'' # replicate 78 CHR ''0'') = Inr 0"
proof
  show "parseUint64 ''30000000000000000000'' = Inr 11553255926290448384"
    by (simp add: parseUint64_def parse64_step_def is_digit_def digit_val_def word_less_nat_alt)
next
  let ?s = "CHR ''1'' # replicate 77 CHR ''0''"
  have digits: "list_all is_digit ?s" "is_digit CHR ''0''" by (simp_all add: is_digit_def list_all_iff)
  have z: "foldl (\<lambda>a c. a * 10 + digit_val c) a (replicate n CHR ''0'') = a * 10 ^ n" for a n
    by (induction n arbitrary: a) (simp_all add: digit_val_def algebra_simps)
  have val: "dec_val ?s = 10 ^ 77" using z [of 1 77] by (simp add: dec_val_def digit_val_def)
  obtain v where v: "each parse256_step ?s zero_uint256 = Inr v" "to_big v = 10 ^ 77"
    using each_parse256 [OF digits(1)] unfolding val by auto
  obtain w where w: "parse256_step CHR ''0'' v = Inr w" "to_big w = 0"
    using parse256_step_overflow [OF digits(2), of v] v(2) by (auto simp: digit_val_def)
  have "w = 0" using w(2) by (simp add: to_big_uint uint_0_iff)
  moreover have "CHR ''1'' # replicate 78 CHR ''0'' = ?s @ [CHR ''0'']"
    using replicate_append_same [of 77 "CHR ''0''"] by (simp flip: replicate_Suc)
  ultimately have "each parse256_step (CHR ''1'' # replicate 78 CHR ''0'') zero_uint256 = Inr 0"
    using v(1) w(1) by (simp only: each_append) simp
  then show "parseUint256 (CHR ''1'' # replicate 78 CHR ''0'') = Inr 0" by (simp add: parseUint256_def)
qed

text \<open>
  the order of the validators does not matter. Two configurations whose validator lists are
  permutations of each other, with entries that parse and distinct addresses, have the same validator
  set hash.
\<close>

theorem ValidatorSetHash_order:
  assumes "mset (g_Validators g) = mset (g_Validators g')"
    "list_all (\<lambda>v. is_ok (validator_entry v)) (g_Validators g)"
    "inj_on ve_addr ((\<lambda>v. projr (validator_entry v)) ` set (g_Validators g))"
  shows "ValidatorSetHash kec g = ValidatorSetHash kec g'"
proof -
  have set: "set (g_Validators g) = set (g_Validators g')" using assms(1) by (rule mset_eq_setD)
  have ok: "list_all (\<lambda>v. is_ok (validator_entry v)) (g_Validators g')"
    using assms(2) set by (simp add: list_all_iff)
  have "sort_key ve_addr (map (\<lambda>v. projr (validator_entry v)) (g_Validators g)) =
      sort_key ve_addr (map (\<lambda>v. projr (validator_entry v)) (g_Validators g'))"
    using assms(1,3) by (intro sort_key_mset) simp_all
  then show ?thesis unfolding ValidatorSetHash_def each_collect [OF assms(2)] each_collect [OF ok] by simp
qed

definition genesis_sample :: genesis where
  "genesis_sample = \<lparr>g_ChainID = ''7'', g_Timestamp = ''1000'', g_GasLimit = ''30000000'',
     g_InitialBaseFee = ''10'',
     g_Alloc = fmupd ''0x0000000000000000000000000000000000000005''
       \<lparr>al_Balance = ''250'', al_Nonce = ''3'', al_Code = []\<rparr> fmempty,
     g_Validators =
       [\<lparr>gv_Address = ''0x0000000000000000000000000000000000000002'', gv_PubKey = ''0x01'', gv_Power = ''1'', gv_Moniker = []\<rparr>,
        \<lparr>gv_Address = ''0x0000000000000000000000000000000000000001'', gv_PubKey = ''0x02'', gv_Power = ''1'', gv_Moniker = []\<rparr>],
     g_ExtraData = [], g_Version = []\<rparr>"

lemmas genesis_eval = is_digit_def digit_val_def parse64_step_def parseUint64_def ParseAddress_def decodeHex_def
  trim_prefix_def hex_val_def size_consts bytes_word_def be_val_def

theorem ValidatorSetHash_order_witness:
  "ValidatorSetHash bytes_word genesis_sample =
   ValidatorSetHash bytes_word (genesis_sample\<lparr>g_Validators := rev (g_Validators genesis_sample)\<rparr>)"
proof (rule ValidatorSetHash_order)
  show "mset (g_Validators genesis_sample) = mset (g_Validators (genesis_sample\<lparr>g_Validators := rev (g_Validators genesis_sample)\<rparr>))"
    by simp
  show "list_all (\<lambda>v. is_ok (validator_entry v)) (g_Validators genesis_sample)"
    by (simp add: genesis_sample_def validator_entry_def genesis_eval)
  show "inj_on ve_addr ((\<lambda>v. projr (validator_entry v)) ` set (g_Validators genesis_sample))"
    by (simp add: genesis_sample_def validator_entry_def genesis_eval)
qed

text \<open>
  the genesis state is the allocation. When \<open>applyToSession\<close> succeeds on a fresh session and no two
  keys name the same address, every allocated account holds the parsed balance, nonce and code hash of
  its entry, every other account is empty, and no slot is set.
\<close>

theorem genesis_state_is_alloc:
  assumes "Begin NewMemoryManager 0 = Inr s" "applyToSession kec g (NewMemoryManager, s) = Inr (m', s')"
    "inj_on ParseAddress (fmdom' (g_Alloc g))"
  shows "(\<forall>k\<in>fmdom' (g_Alloc g). \<exists>a x. ParseAddress k = Inr a \<and>
      funded kec (the (fmlookup (g_Alloc g) k)) empty_account = Inr x \<and> account_at (se_accounts s') a = x)
    \<and> (\<forall>a. Inr a \<notin> ParseAddress ` fmdom' (g_Alloc g) \<longrightarrow> account_at (se_accounts s') a = empty_account)
    \<and> se_storage s' = fmempty"
proof -
  have s: "se_accounts s = fmempty" "se_storage s = fmempty"
    using assms(1) by (auto simp: Begin_def NewMemoryManager_def hash_is_zero_def)
  have "account_at (se_accounts s) a = empty_account" for a by (simp add: s account_at_def)
  then show ?thesis
    using each_apply_alloc [OF assms(2)[unfolded applyToSession_def]] assms(3) s(2) by simp
qed

theorem genesis_state_is_alloc_witness:
  "\<exists>s m' s'. Begin NewMemoryManager 0 = Inr s \<and> applyToSession (\<lambda>b. 0) genesis_sample (NewMemoryManager, s) = Inr (m', s')
    \<and> acc_Balance (account_at (se_accounts s') 5) = 250 \<and> acc_Nonce (account_at (se_accounts s') 5) = 3"
proof -
  let ?k = "''0x0000000000000000000000000000000000000005''"
  let ?a = "\<lparr>al_Balance = ''250'', al_Nonce = ''3'', al_Code = []\<rparr>"
  obtain s where s: "Begin NewMemoryManager 0 = Inr s" by (simp add: Begin_def NewMemoryManager_def hash_is_zero_def)
  have addr: "ParseAddress ?k = Inr 5" by (simp add: genesis_eval)
  have nonce: "parseUint64 ''3'' = Inr 3" by (simp add: genesis_eval)
  have bal: "parseUint256 ''250'' = Inr 250"
  proof -
    obtain w where w: "each parse256_step ''250'' zero_uint256 = Inr w" "to_big w = 250"
      using each_parse256 [of "''250''"] by (auto simp: is_digit_def dec_val_def digit_val_def)
    have "to_big (250 :: uint256) = 250" by (simp add: to_big_uint)
    then have "w = 250" using w(2) to_big_inject by metis
    then show ?thesis using w(1) by (simp add: parseUint256_def)
  qed
  have alloc: "g_Alloc genesis_sample = fmupd ?k ?a fmempty" by (simp add: genesis_sample_def)
  obtain s1 where s1: "SetNonce 5 3 s = Inr s1" using update_undoable by (fastforce simp: SetNonce_def)
  obtain s2 where s2: "SetBalance 5 250 s1 = Inr s2" using update_undoable by (fastforce simp: SetBalance_def)
  have "is_ok (applyToSession (\<lambda>b. 0) genesis_sample (NewMemoryManager, s))"
    unfolding applyToSession_def alloc
    by (simp add: sorted_keys_fmupd apply_alloc_def alloc addr nonce bal s1 s2)
  then obtain m' s' where r: "applyToSession (\<lambda>b. 0) genesis_sample (NewMemoryManager, s) = Inr (m', s')"
    by (auto simp: is_ok_iff)
  have "inj_on ParseAddress (fmdom' (g_Alloc genesis_sample))" by (simp add: alloc)
  from genesis_state_is_alloc [OF s r this] show ?thesis
    using s r by (simp add: alloc addr nonce bal funded_def)
qed

end
