(* ===== verification/Json.thy ===== *)
theory Json
  imports Genesis
begin

text \<open>
  What the program uses of Go's \<open>encoding/json\<close>, at the level of JSON values: how numbers, strings,
  byte slices (base64), byte arrays (arrays of numbers), slices and structs are written, and how
  they are read back. A number keeps its literal, as \<open>json.RawMessage\<close> and the decoder do. A struct
  is read from an object: names are compared without case, \<open>null\<close> leaves a field as it is, a missing
  field keeps its zero value, and the last of several equal names counts.
\<close>

section \<open>Values\<close>

datatype json =
    JNull
  | JBool bool
  | JNum string
  | JStr string
  | JArr "json list"
  | JObj "(string \<times> json) list"

definition ErrJSON :: err where
  "ErrJSON = ErrOther ''json''"

section \<open>Decimal numbers\<close>

text \<open>\<open>strconv.FormatUint(v, 10)\<close> and \<open>strconv.ParseUint(s, 10, bits)\<close>.\<close>

definition digit_char :: "nat \<Rightarrow> char" where
  "digit_char d = char_of (48 + d)"

fun dec_string :: "nat \<Rightarrow> string" where
  "dec_string n = (if n < 10 then [digit_char n] else dec_string (n div 10) @ [digit_char (n mod 10)])"

declare dec_string.simps [simp del]

definition parse_dec :: "nat \<Rightarrow> string \<Rightarrow> nat res" where
  "parse_dec bits s =
     (if s = [] \<or> \<not> list_all is_digit s then Inl (ErrOther ''syntax'')
      else if dec_val s \<ge> 2 ^ bits then Inl (ErrOther ''range'')
      else Inr (dec_val s))"

lemma digit_char_simps [simp]: "d < 10 \<Longrightarrow> is_digit (digit_char d)" "d < 10 \<Longrightarrow> digit_val (digit_char d) = d"
  by (simp_all add: is_digit_def digit_val_def digit_char_def)

lemma dec_string_digits: "list_all is_digit (dec_string n) \<and> dec_string n \<noteq> [] \<and> dec_val (dec_string n) = n"
proof (induction n rule: dec_string.induct)
  case (1 n)
  then show ?case
    by (cases "n < 10") (simp_all add: dec_string.simps [of n] dec_val_snoc, simp_all add: dec_val_def)
qed

lemma parse_dec_string [codec_simps]: "n < 2 ^ bits \<Longrightarrow> parse_dec bits (dec_string n) = Inr n"
  using dec_string_digits [of n] by (simp add: parse_dec_def)

section \<open>Base64\<close>

text \<open>The standard alphabet, with padding. The decoder skips line breaks.\<close>

definition b64_char :: "nat \<Rightarrow> char" where
  "b64_char i = char_of (if i < 26 then 65 + i else if i < 52 then 71 + i else if i < 62 then i - 4
     else if i = 62 then 43 else 47)"

definition b64_val :: "char \<Rightarrow> nat option" where
  "b64_val c =
     (let x = (of_char c :: nat) in
      if 65 \<le> x \<and> x \<le> 90 then Some (x - 65) else if 97 \<le> x \<and> x \<le> 122 then Some (x - 71)
      else if 48 \<le> x \<and> x \<le> 57 then Some (x + 4) else if x = 43 then Some 62 else if x = 47 then Some 63 else None)"

fun b64_encode :: "bytes \<Rightarrow> string" where
  "b64_encode [] = []"
| "b64_encode [a] = (let n = unat a in [b64_char (n div 4), b64_char (n mod 4 * 16), CHR ''='', CHR ''=''])"
| "b64_encode [a, b] =
     (let n = unat a * 256 + unat b in
      [b64_char (n div 1024), b64_char (n div 16 mod 64), b64_char (n mod 16 * 4), CHR ''=''])"
| "b64_encode (a # b # c # bs) =
     (let n = unat a * 65536 + unat b * 256 + unat c in
      b64_char (n div 262144) # b64_char (n div 4096 mod 64) # b64_char (n div 64 mod 64) # b64_char (n mod 64) #
      b64_encode bs)"

fun b64_groups :: "string \<Rightarrow> bytes option" where
  "b64_groups [] = Some []"
| "b64_groups (c1 # c2 # c3 # c4 # cs) =
     (case (b64_val c1, b64_val c2) of
        (Some s1, Some s2) \<Rightarrow>
          if c3 = CHR ''='' then
            (if c4 = CHR ''='' \<and> cs = [] then Some [word_of_nat (s1 * 4 + s2 div 16)] else None)
          else (case b64_val c3 of
              None \<Rightarrow> None
            | Some s3 \<Rightarrow>
                let n = s1 * 4096 + s2 * 64 + s3 in
                if c4 = CHR ''='' then
                  (if cs = [] then Some [word_of_nat (n div 1024), word_of_nat (n div 4 mod 256)] else None)
                else (case b64_val c4 of
                    None \<Rightarrow> None
                  | Some s4 \<Rightarrow>
                      let n = n * 64 + s4 in
                      map_option (\<lambda>bs. word_of_nat (n div 65536) # word_of_nat (n div 256 mod 256) #
                        word_of_nat (n mod 256) # bs) (b64_groups cs)))
      | _ \<Rightarrow> None)"
| "b64_groups _ = None"

definition b64_decode :: "string \<Rightarrow> bytes option" where
  "b64_decode s = b64_groups (filter (\<lambda>c. c \<noteq> CHR 0x0A \<and> c \<noteq> CHR 0x0D) s)"

lemma of_b64_char: "i < 64 \<Longrightarrow> (of_char (b64_char i) :: nat) =
    (if i < 26 then 65 + i else if i < 52 then 71 + i else if i < 62 then i - 4 else if i = 62 then 43 else 47)"
  by (simp add: b64_char_def)

lemma b64_val_char [simp]: "i < 64 \<Longrightarrow> b64_val (b64_char i) = Some i"
  by (auto simp: b64_val_def of_b64_char Let_def)

lemma b64_char_ne [simp]:
  "i < 64 \<Longrightarrow> b64_char i \<noteq> CHR ''=''" "i < 64 \<Longrightarrow> b64_char i \<noteq> CHR 0x0A" "i < 64 \<Longrightarrow> b64_char i \<noteq> CHR 0x0D"
  by (auto dest: arg_cong [of _ _ "of_char :: char \<Rightarrow> nat"] simp: of_b64_char split: if_splits)

lemma sextets [simp]:
  fixes a b c :: byte
  shows "unat a div 4 < 64" "unat a mod 4 * 16 < 64" "(unat a * 256 + unat b) div 1024 < 64"
    "n mod 16 * 4 < (64 :: nat)" "(unat a * 65536 + unat b * 256 + unat c) div 262144 < 64"
proof -
  have l: "unat a < 256" "unat b < 256" "unat c < 256" by simp_all
  show "unat a div 4 < 64" "(unat a * 256 + unat b) div 1024 < 64"
    "(unat a * 65536 + unat b * 256 + unat c) div 262144 < 64"
    by (rule less_mult_imp_div_less, use l in linarith)+
  have "m mod 4 < 4" "m mod 16 < 16" for m :: nat by simp_all
  from this(1) [of "unat a"] this(2) [of n] show "unat a mod 4 * 16 < 64" "n mod 16 * 4 < 64" by linarith+
qed

lemma b64_no_breaks: "c \<in> set (b64_encode bs) \<Longrightarrow> c \<noteq> CHR 0x0A \<and> c \<noteq> CHR 0x0D"
  by (induction bs rule: b64_encode.induct) (auto simp: Let_def)

lemma b64_groups_encode: "b64_groups (b64_encode bs) = Some bs"
proof (induction bs rule: b64_encode.induct)
  case (2 a)
  have "unat a div 4 * 4 + unat a mod 4 * 16 div 16 = unat a" by simp
  then show ?case using unat_byte_less [of a] by (simp add: Let_def)
next
  case (3 a b)
  define n where "n = unat a * 256 + unat b"
  have n: "n < 65536" "n div 256 = unat a" "n mod 256 = unat b"
    using unat_byte_less [of a] unat_byte_less [of b] by (simp_all add: n_def del: unat_byte_less)
  have "n div 1024 * 4096 + n div 16 mod 64 * 64 + n mod 16 * 4 = n * 4"
    using div_mult_mod_eq [of n 16] div_mult_mod_eq [of "n div 16" 64] div_mult2_eq [of n 16 64]
    unfolding numeral_times_numeral semiring_norm by linarith
  then show ?case using n by (simp add: Let_def flip: n_def)
next
  case (4 a b c bs)
  define n where "n = unat a * 65536 + unat b * 256 + unat c"
  have l: "unat a < 256" "unat b < 256" "unat c < 256" by simp_all
  have eq: "n = (unat a * 256 + unat b) * 256 + unat c" by (simp add: n_def)
  have n: "n mod 256 = unat c" unfolding eq mod_mult_self3 using l by (simp only: mod_less)
  have n256: "n div 256 = unat a * 256 + unat b" and max: "n < 16777216"
    using l unfolding eq by (simp_all del: unat_byte_less)
  have n': "n div 65536 = unat a" "n div 256 mod 256 = unat b"
    using l div_mult2_eq [of n 256 256] by (simp_all add: n256)
  have "(n div 262144 * 4096 + n div 4096 mod 64 * 64 + n div 64 mod 64) * 64 + n mod 64 = n"
  proof -
    have 1: "n div 64 * 64 + n mod 64 = n" by (rule div_mult_mod_eq)
    have 2: "n div 4096 * 64 + n div 64 mod 64 = n div 64"
      using div_mult_mod_eq [of "n div 64" 64] by (simp add: div_mult2_eq [symmetric])
    have 3: "n div 262144 * 64 + n div 4096 mod 64 = n div 4096"
      using div_mult_mod_eq [of "n div 4096" 64] by (simp add: div_mult2_eq [symmetric])
    have "(n div 262144 * 4096 + n div 4096 mod 64 * 64 + n div 64 mod 64) * 64 + n mod 64 =
        ((n div 262144 * 64 + n div 4096 mod 64) * 64 + n div 64 mod 64) * 64 + n mod 64" by simp
    also have "\<dots> = n" unfolding 3 2 1 ..
    finally show ?thesis .
  qed
  then show ?case using n n' max 4 by (simp add: Let_def flip: n_def)
qed simp

lemma b64_decode_encode [codec_simps]: "b64_decode (b64_encode bs) = Some bs"
proof -
  have "filter (\<lambda>c. c \<noteq> CHR 0x0A \<and> c \<noteq> CHR 0x0D) (b64_encode bs) = b64_encode bs"
    by (rule filter_True) (auto dest: b64_no_breaks)
  then show ?thesis by (simp add: b64_decode_def b64_groups_encode)
qed

section \<open>Writing and reading values\<close>

definition j_uint :: "nat \<Rightarrow> json" where
  "j_uint n = JNum (dec_string n)"

definition j_bytes :: "bytes \<Rightarrow> json" where
  "j_bytes bs = JStr (b64_encode bs)"

text \<open>A byte array \<open>[n]byte\<close> has no \<open>MarshalText\<close>; it is written as an array of numbers.\<close>

definition j_array :: "'a::len word \<Rightarrow> json" where
  "j_array w = JArr (map (\<lambda>b. j_uint (unat b)) (word_bytes w))"

definition as_uint :: "nat \<Rightarrow> json \<Rightarrow> nat res" where
  "as_uint bits j = (case j of JNum s \<Rightarrow> parse_dec bits s | _ \<Rightarrow> Inl ErrJSON)"

definition as_word :: "json \<Rightarrow> 'a::len word res" where
  "as_word j = res_map word_of_nat (as_uint LENGTH('a) j)"

definition as_string :: "json \<Rightarrow> string res" where
  "as_string j = (case j of JStr s \<Rightarrow> Inr s | _ \<Rightarrow> Inl ErrJSON)"

definition as_bool :: "json \<Rightarrow> bool res" where
  "as_bool j = (case j of JBool b \<Rightarrow> Inr b | _ \<Rightarrow> Inl ErrJSON)"

definition opt_null :: "(json \<Rightarrow> 'a res) \<Rightarrow> 'a \<Rightarrow> json \<Rightarrow> 'a res" where
  "opt_null dec z j = (if j = JNull then Inr z else dec j)"

definition as_list :: "(json \<Rightarrow> 'a res) \<Rightarrow> 'a \<Rightarrow> json \<Rightarrow> 'a list res" where
  "as_list dec z j =
     (case j of
        JArr js \<Rightarrow> each (\<lambda>j acc. res_map (\<lambda>x. acc @ [x]) (opt_null dec z j)) js []
      | _ \<Rightarrow> Inl ErrJSON)"

definition as_bytes :: "json \<Rightarrow> bytes res" where
  "as_bytes j =
     (case j of
        JStr s \<Rightarrow> (case b64_decode s of None \<Rightarrow> Inl ErrJSON | Some bs \<Rightarrow> Inr bs)
      | _ \<Rightarrow> as_list as_word 0 j)"

text \<open>Too few numbers leave zeros at the end; too many are skipped unread.\<close>

definition as_array :: "json \<Rightarrow> 'a::len word res" where
  "as_array j =
     (let n = LENGTH('a) div 8 in
      case j of
        JArr js \<Rightarrow> res_map (\<lambda>bs. bytes_word (bs @ replicate (n - length bs) 0)) (as_list as_word 0 (JArr (take n js)))
      | _ \<Rightarrow> Inl ErrJSON)"

section \<open>Structs\<close>

definition lower_char :: "char \<Rightarrow> char" where
  "lower_char c =
     (let x = (of_char c :: nat) in if 65 \<le> x \<and> x \<le> 90 then char_of (x + 32) else c)"

definition same_name :: "string \<Rightarrow> string \<Rightarrow> bool" where
  "same_name a b \<longleftrightarrow> map lower_char a = map lower_char b"

definition values_of :: "string \<Rightarrow> (string \<times> json) list \<Rightarrow> json list" where
  "values_of f kvs = map snd (filter (\<lambda>(k, _). same_name k f) kvs)"

definition field :: "string \<Rightarrow> (json \<Rightarrow> 'a res) \<Rightarrow> 'a \<Rightarrow> (string \<times> json) list \<Rightarrow> 'a res" where
  "field f dec z kvs = each (\<lambda>j acc. opt_null dec acc j) (values_of f kvs) z"

text \<open>A \<open>json.RawMessage\<close> takes any value, also \<open>null\<close>; \<open>None\<close> is the nil slice.\<close>

definition raw_field :: "string \<Rightarrow> (string \<times> json) list \<Rightarrow> json option" where
  "raw_field f kvs = (case values_of f kvs of [] \<Rightarrow> None | js \<Rightarrow> Some (last js))"

definition as_object :: "json \<Rightarrow> (string \<times> json) list res" where
  "as_object j = (case j of JObj kvs \<Rightarrow> Inr kvs | JNull \<Rightarrow> Inr [] | _ \<Rightarrow> Inl ErrJSON)"

lemma as_uint_j [simp]: "n < 2 ^ bits \<Longrightarrow> as_uint bits (j_uint n) = Inr n"
  by (simp add: as_uint_def j_uint_def codec_simps)

lemma as_word_j [simp]: "as_word (j_uint (unat w)) = Inr (w :: 'a::len word)"
  by (simp add: as_word_def unat_less_pow)

lemma as_string_j [simp]: "as_string (JStr s) = Inr s"
  by (simp add: as_string_def)

lemma as_bytes_j [simp]: "as_bytes (j_bytes bs) = Inr bs"
  by (simp add: as_bytes_def j_bytes_def codec_simps)

lemma each_collect_list:
  "(\<And>x. x \<in> set xs \<Longrightarrow> dec (enc x) = Inr x \<and> enc x \<noteq> JNull) \<Longrightarrow>
   each (\<lambda>j acc. res_map (\<lambda>x. acc @ [x]) (opt_null dec z j)) (map enc xs) acc = Inr (acc @ xs)"
  by (induction xs arbitrary: acc) (simp_all add: opt_null_def)

lemma as_list_map: "(\<And>x. x \<in> set xs \<Longrightarrow> dec (enc x) = Inr x \<and> enc x \<noteq> JNull) \<Longrightarrow> as_list dec z (JArr (map enc xs)) = Inr xs"
  using each_collect_list [of xs dec enc z "[]"] by (simp add: as_list_def)

lemma j_not_null [simp]: "j_uint n \<noteq> JNull" "j_bytes bs \<noteq> JNull" "j_array w \<noteq> JNull"
  by (simp_all add: j_uint_def j_bytes_def j_array_def)

lemma as_array_j [simp]:
  "8 dvd LENGTH('a) \<Longrightarrow> as_array (j_array w) = Inr (w :: 'a::len word)"
  using as_list_map [of "word_bytes w" as_word "\<lambda>b. j_uint (unat b)" 0]
  by (simp add: as_array_def j_array_def Let_def)

lemma field_simps [simp]:
  "field f dec z [] = Inr z"
  "field f dec z ((k, j) # kvs) = (if same_name k f then and_then (opt_null dec z j) (\<lambda>z. field f dec z kvs) else field f dec z kvs)"
  by (simp_all add: field_def values_of_def)

lemma opt_null_simps [simp]: "opt_null dec z JNull = Inr z" "j \<noteq> JNull \<Longrightarrow> opt_null dec z j = dec j"
  by (simp_all add: opt_null_def)

lemma as_object_JObj [simp]: "as_object (JObj kvs) = Inr kvs" "as_object JNull = Inr []"
  by (simp_all add: as_object_def)

end
