(* ===== verification/RpcCodec.thy ===== *)
theory RpcCodec
  imports Json
begin

text \<open>
  The encodings of \<open>rpc/jsonrpc.go\<close>. Parameters are raw JSON texts, as \<open>json.RawMessage\<close> has them, so
  this theory works on strings, whose characters are bytes. It also holds what the source uses of Go's
  standard library on texts: \<open>strings.TrimSpace\<close>, \<open>strconv.Unquote\<close>, \<open>strconv.ParseUint\<close> and the
  scanner of \<open>encoding/json\<close> that finds the elements of an array and the members of an object. Bytes
  from 0x80 on are kept as they are (the library replaces invalid UTF-8), and the limit of the
  library on the nesting of values is left out.
\<close>

type_synonym raw_message = string

section \<open>Strings\<close>

text \<open>\<open>strings.TrimSpace\<close>: the UTF-8 forms of the white space of Unicode.\<close>

definition byte_string :: "nat list \<Rightarrow> string" where
  "byte_string ns = map char_of ns"

definition unicode_spaces :: "string list" where
  "unicode_spaces = map byte_string ([[9], [10], [11], [12], [13], [32], [0xC2, 0x85], [0xC2, 0xA0], [0xE1, 0x9A, 0x80],
     [0xE2, 0x80, 0xA8], [0xE2, 0x80, 0xA9], [0xE2, 0x80, 0xAF], [0xE2, 0x81, 0x9F], [0xE3, 0x80, 0x80]] @
     map (\<lambda>n. [0xE2, 0x80, n]) [0x80..<0x8B])"

lemma unicode_spaces_code [code]:
  "unicode_spaces = [
     [CHR 0x09], [CHR 0x0A], [CHR 0x0B], [CHR 0x0C], [CHR 0x0D], [CHR 0x20], [CHR 0xC2, CHR 0x85],
     [CHR 0xC2, CHR 0xA0], [CHR 0xE1, CHR 0x9A, CHR 0x80], [CHR 0xE2, CHR 0x80, CHR 0xA8],
     [CHR 0xE2, CHR 0x80, CHR 0xA9], [CHR 0xE2, CHR 0x80, CHR 0xAF], [CHR 0xE2, CHR 0x81, CHR 0x9F],
     [CHR 0xE3, CHR 0x80, CHR 0x80], [CHR 0xE2, CHR 0x80, CHR 0x80], [CHR 0xE2, CHR 0x80, CHR 0x81],
     [CHR 0xE2, CHR 0x80, CHR 0x82], [CHR 0xE2, CHR 0x80, CHR 0x83], [CHR 0xE2, CHR 0x80, CHR 0x84],
     [CHR 0xE2, CHR 0x80, CHR 0x85], [CHR 0xE2, CHR 0x80, CHR 0x86], [CHR 0xE2, CHR 0x80, CHR 0x87],
     [CHR 0xE2, CHR 0x80, CHR 0x88], [CHR 0xE2, CHR 0x80, CHR 0x89], [CHR 0xE2, CHR 0x80, CHR 0x8A]]"
  by code_simp

function strip :: "string list \<Rightarrow> string \<Rightarrow> string" where
  "strip ps s = (case find (\<lambda>p. p \<noteq> [] \<and> take (length p) s = p) ps of None \<Rightarrow> s | Some p \<Rightarrow> strip ps (drop (length p) s))"
  by auto
termination
proof (relation "measure (\<lambda>(ps, s). length s)")
  fix ps s p assume "find (\<lambda>p. p \<noteq> [] \<and> take (length p) s = p) ps = Some p"
  then have "p \<noteq> []" "take (length p) s = p" by (auto simp: find_Some_iff)
  then have "s \<noteq> []" by auto
  then show "((ps, drop (length p) s), (ps, s)) \<in> measure (\<lambda>(ps, s). length s)" using \<open>p \<noteq> []\<close> by simp
qed simp

declare strip.simps [simp del]

definition TrimSpace :: "string \<Rightarrow> string" where
  "TrimSpace s = rev (strip (map rev unicode_spaces) (rev (strip unicode_spaces s)))"

definition is_hex_char :: "char \<Rightarrow> bool" where
  "is_hex_char c \<longleftrightarrow> hex_val c \<noteq> None"

definition hex_nat :: "string \<Rightarrow> nat" where
  "hex_nat s = foldl (\<lambda>n c. n * 16 + (case hex_val c of None \<Rightarrow> 0 | Some d \<Rightarrow> d)) 0 s"

text \<open>\<open>strconv.FormatUint(v, 16)\<close> and \<open>strconv.ParseUint(s, 16, bits)\<close>.\<close>

fun hex_string :: "nat \<Rightarrow> string" where
  "hex_string n = (if n < 16 then [hex_digit n] else hex_string (n div 16) @ [hex_digit (n mod 16)])"

declare hex_string.simps [simp del]

definition parse_hex :: "nat \<Rightarrow> string \<Rightarrow> nat res" where
  "parse_hex bits s =
     (if s = [] \<or> \<not> list_all is_hex_char s then Inl (ErrOther ''syntax'')
      else if hex_nat s \<ge> 2 ^ bits then Inl (ErrOther ''range'')
      else Inr (hex_nat s))"

text \<open>The UTF-8 form of a code point.\<close>

definition utf8 :: "nat \<Rightarrow> string" where
  "utf8 u = byte_string
     (if u < 0x80 then [u]
      else if u < 0x800 then [0xC0 + u div 0x40, 0x80 + u mod 0x40]
      else if u < 0x10000 then [0xE0 + u div 0x1000, 0x80 + u div 0x40 mod 0x40, 0x80 + u mod 0x40]
      else [0xF0 + u div 0x40000, 0x80 + u div 0x1000 mod 0x40, 0x80 + u div 0x40 mod 0x40, 0x80 + u mod 0x40])"

definition surrogate :: "nat \<Rightarrow> bool" where
  "surrogate u \<longleftrightarrow> 0xD800 \<le> u \<and> u < 0xE000"

text \<open>\<open>n\<close> hexadecimal digits at the front of a text.\<close>

definition take_hex :: "nat \<Rightarrow> string \<Rightarrow> (nat \<times> string) option" where
  "take_hex n s =
     (if length s < n \<or> \<not> list_all is_hex_char (take n s) then None else Some (hex_nat (take n s), drop n s))"

definition simple_escape :: "char \<Rightarrow> char option" where
  "simple_escape e = map_of [(CHR ''b'', CHR 0x08), (CHR ''f'', CHR 0x0C), (CHR ''n'', CHR 0x0A), (CHR ''r'', CHR 0x0D),
     (CHR ''t'', CHR 0x09), (CHR 0x5C, CHR 0x5C), (CHR 0x22, CHR 0x22)] e"

section \<open>strconv.Unquote\<close>

text \<open>
  The character after a backslash of a Go string, and what it stands for: besides the simple
  escapes \<open>a\<close>, \<open>v\<close>, \<open>xHH\<close>, three octal digits, \<open>uXXXX\<close> and \<open>UXXXXXXXX\<close>.
\<close>

definition go_escape :: "string \<Rightarrow> (string \<times> string) option" where
  "go_escape s =
     (case s of
        [] \<Rightarrow> None
      | e # r \<Rightarrow>
          if e = CHR ''a'' then Some ([CHR 0x07], r)
          else if e = CHR ''v'' then Some ([CHR 0x0B], r)
          else if e = CHR ''x'' then map_option (\<lambda>(v, r). (byte_string [v], r)) (take_hex 2 r)
          else if e = CHR ''u'' \<or> e = CHR ''U'' then
            (case take_hex (if e = CHR ''u'' then 4 else 8) r of
               None \<Rightarrow> None
             | Some (v, r) \<Rightarrow> if surrogate v \<or> v > 0x10FFFF then None else Some (utf8 v, r))
          else if CHR ''0'' \<le> e \<and> e \<le> CHR ''7'' then
            (if length r < 2 \<or> \<not> list_all (\<lambda>c. CHR ''0'' \<le> c \<and> c \<le> CHR ''7'') (take 2 r) then None
             else let v = foldl (\<lambda>n c. n * 8 + digit_val c) 0 (e # take 2 r)
                  in if v > 255 then None else Some (byte_string [v], drop 2 r))
          else map_option (\<lambda>c. ([c], r)) (simple_escape e))"

lemma take_hex_length: "take_hex n s = Some (v, r) \<Longrightarrow> length r \<le> length s"
  by (auto simp: take_hex_def split: if_splits)

lemma go_escape_length: "go_escape s = Some (x, r) \<Longrightarrow> length r < length s"
  by (auto simp: go_escape_def Let_def dest!: take_hex_length split: list.splits if_splits option.splits prod.splits)

text \<open>From behind the opening quote to the closing one, which must end the text.\<close>

function go_chars :: "string \<Rightarrow> string option" where
  "go_chars s =
     (case s of
        [] \<Rightarrow> None
      | c # r \<Rightarrow>
          if c = CHR 0x22 then (if r = [] then Some [] else None)
          else if c = CHR 0x0A then None
          else if c \<noteq> CHR 0x5C then map_option (Cons c) (go_chars r)
          else (case go_escape r of None \<Rightarrow> None | Some (x, r) \<Rightarrow> map_option (append x) (go_chars r)))"
  by auto
termination
  by (relation "measure length") (auto dest!: go_escape_length)

declare go_chars.simps [simp del]

text \<open>Here only for texts that begin with a double quote.\<close>

definition Unquote :: "string \<Rightarrow> string res" where
  "Unquote s = (case go_chars (tl s) of None \<Rightarrow> Inl (ErrOther ''syntax'') | Some t \<Rightarrow> Inr t)"

section \<open>Scanning JSON\<close>

definition json_space :: "char \<Rightarrow> bool" where
  "json_space c \<longleftrightarrow> c = CHR '' '' \<or> c = CHR 0x09 \<or> c = CHR 0x0A \<or> c = CHR 0x0D"

definition skip_ws :: "string \<Rightarrow> string" where
  "skip_ws s = dropWhile json_space s"

text \<open>
  A character of a JSON string after a backslash. An escaped surrogate stands for a pair when a low
  one follows a high one, and for U+FFFD otherwise.
\<close>

definition json_escape :: "string \<Rightarrow> (string \<times> string) option" where
  "json_escape s =
     (case s of
        [] \<Rightarrow> None
      | e # r \<Rightarrow>
          if e = CHR ''/'' then Some ([e], r)
          else if e \<noteq> CHR ''u'' then map_option (\<lambda>c. ([c], r)) (simple_escape e)
          else (case take_hex 4 r of
              None \<Rightarrow> None
            | Some (u, r) \<Rightarrow>
                if \<not> surrogate u then Some (utf8 u, r)
                else (case (if take 2 r = [CHR 0x5C, CHR ''u''] then take_hex 4 (drop 2 r) else None) of
                    None \<Rightarrow> Some (utf8 0xFFFD, r)
                  | Some (v, r') \<Rightarrow>
                      if u < 0xDC00 \<and> 0xDC00 \<le> v \<and> v < 0xE000
                      then Some (utf8 (0x10000 + (u - 0xD800) * 0x400 + (v - 0xDC00)), r')
                      else Some (utf8 0xFFFD, r))))"

lemma json_escape_length: "json_escape s = Some (x, r) \<Longrightarrow> length r < length s"
  by (auto simp: json_escape_def dest!: take_hex_length split: list.splits if_splits option.splits prod.splits)

text \<open>From behind the opening quote: the contents and what follows the closing quote.\<close>

function json_chars :: "string \<Rightarrow> (string \<times> string) option" where
  "json_chars s =
     (case s of
        [] \<Rightarrow> None
      | c # r \<Rightarrow>
          if c = CHR 0x22 then Some ([], r)
          else if (of_char c :: nat) < 0x20 then None
          else if c \<noteq> CHR 0x5C then map_option (apfst (Cons c)) (json_chars r)
          else (case json_escape r of None \<Rightarrow> None | Some (x, r) \<Rightarrow> map_option (apfst (append x)) (json_chars r)))"
  by auto
termination
  by (relation "measure length") (auto dest!: json_escape_length)

declare json_chars.simps [simp del]

definition skip_digits :: "string \<Rightarrow> string option" where
  "skip_digits s = (if s = [] \<or> \<not> is_digit (hd s) then None else Some (dropWhile is_digit s))"

definition skip_fraction :: "string \<Rightarrow> string option" where
  "skip_fraction s = (case s of c # r \<Rightarrow> if c = CHR ''.'' then skip_digits r else Some s | [] \<Rightarrow> Some s)"

definition skip_exponent :: "string \<Rightarrow> string option" where
  "skip_exponent s =
     (case s of
        c # r \<Rightarrow>
          if c = CHR ''e'' \<or> c = CHR ''E''
          then skip_digits (case r of d # r' \<Rightarrow> if d = CHR ''+'' \<or> d = CHR ''-'' then r' else r | [] \<Rightarrow> r)
          else Some s
      | [] \<Rightarrow> Some s)"

definition skip_number :: "string \<Rightarrow> string option" where
  "skip_number s =
     (let s = (case s of c # r \<Rightarrow> if c = CHR ''-'' then r else s | [] \<Rightarrow> s) in
      case (case s of c # r \<Rightarrow> if c = CHR ''0'' then Some r else skip_digits s | [] \<Rightarrow> None) of
        None \<Rightarrow> None
      | Some s \<Rightarrow> (case skip_fraction s of None \<Rightarrow> None | Some s \<Rightarrow> skip_exponent s))"

definition skip_literal :: "string \<Rightarrow> string option" where
  "skip_literal s =
     (case find (\<lambda>l. take (length l) s = l) [''true'', ''false'', ''null''] of
        None \<Rightarrow> None | Some l \<Rightarrow> Some (drop (length l) s))"

text \<open>
  The rest of a text behind the value at its front. The fuel goes down by one at each call, and of
  two nested calls at least one takes a byte, so twice the length of the text is enough.
\<close>

fun skip_value :: "nat \<Rightarrow> string \<Rightarrow> string option"
  and skip_elements :: "nat \<Rightarrow> string \<Rightarrow> string option"
  and skip_members :: "nat \<Rightarrow> string \<Rightarrow> string option" where
  "skip_value 0 s = None"
| "skip_value (Suc n) s =
     (case s of
        [] \<Rightarrow> None
      | c # r \<Rightarrow>
          if c = CHR 0x22 then map_option snd (json_chars r)
          else if c = CHR ''['' then
            (case skip_ws r of [] \<Rightarrow> None | d # r' \<Rightarrow> if d = CHR '']'' then Some r' else skip_elements n (d # r'))
          else if c = CHR ''{'' then
            (case skip_ws r of [] \<Rightarrow> None | d # r' \<Rightarrow> if d = CHR ''}'' then Some r' else skip_members n (d # r'))
          else if c = CHR ''-'' \<or> is_digit c then skip_number s
          else skip_literal s)"
| "skip_elements 0 s = None"
| "skip_elements (Suc n) s =
     (case skip_value n s of
        None \<Rightarrow> None
      | Some r \<Rightarrow>
          (case skip_ws r of
             [] \<Rightarrow> None
           | d # r \<Rightarrow> if d = CHR '']'' then Some r else if d = CHR '','' then skip_elements n (skip_ws r) else None))"
| "skip_members 0 s = None"
| "skip_members (Suc n) s =
     (case s of
        [] \<Rightarrow> None
      | c # r \<Rightarrow>
          if c \<noteq> CHR 0x22 then None
          else (case json_chars r of
              None \<Rightarrow> None
            | Some (k, r) \<Rightarrow>
                (case skip_ws r of
                   [] \<Rightarrow> None
                 | d # r \<Rightarrow>
                     if d \<noteq> CHR '':'' then None
                     else (case skip_value n (skip_ws r) of
                         None \<Rightarrow> None
                       | Some r \<Rightarrow>
                           (case skip_ws r of
                              [] \<Rightarrow> None
                            | d # r \<Rightarrow> if d = CHR ''}'' then Some r
                                else if d = CHR '','' then skip_members n (skip_ws r) else None)))))"

definition behind_value :: "string \<Rightarrow> string option" where
  "behind_value s = skip_value (2 * length s + 1) s"

definition valid_json :: "string \<Rightarrow> bool" where
  "valid_json s \<longleftrightarrow> (case behind_value (skip_ws s) of None \<Rightarrow> False | Some r \<Rightarrow> skip_ws r = [])"

text \<open>The raw elements of an array, and the members of an object, behind the bracket.\<close>

fun raw_elements :: "nat \<Rightarrow> string \<Rightarrow> raw_message list" where
  "raw_elements 0 s = []"
| "raw_elements (Suc n) s =
     (case behind_value s of
        None \<Rightarrow> []
      | Some r \<Rightarrow> take (length s - length r) s #
          (case skip_ws r of [] \<Rightarrow> [] | d # r \<Rightarrow> if d = CHR '','' then raw_elements n (skip_ws r) else []))"

fun raw_members :: "nat \<Rightarrow> string \<Rightarrow> (string \<times> raw_message) list" where
  "raw_members 0 s = []"
| "raw_members (Suc n) s =
     (case json_chars (tl s) of
        None \<Rightarrow> []
      | Some (k, r) \<Rightarrow>
          let v = skip_ws (tl (skip_ws r)) in
          (case behind_value v of
             None \<Rightarrow> []
           | Some r \<Rightarrow> (k, take (length v - length r) v) #
               (case skip_ws r of [] \<Rightarrow> [] | d # r \<Rightarrow> if d = CHR '','' then raw_members n (skip_ws r) else [])))"

section \<open>Unmarshalling\<close>

text \<open>\<open>json.Unmarshal\<close> into \<open>[]json.RawMessage\<close> and into the members of an object; \<open>null\<close> gives none.\<close>

definition unmarshal_array :: "raw_message \<Rightarrow> raw_message list res" where
  "unmarshal_array raw =
     (let s = skip_ws raw in
      if \<not> valid_json raw then Inl ErrJSON
      else if hd s = CHR ''n'' then Inr []
      else if hd s \<noteq> CHR ''['' then Inl ErrJSON
      else case skip_ws (tl s) of
          [] \<Rightarrow> Inr []
        | d # r \<Rightarrow> Inr (if d = CHR '']'' then [] else raw_elements (length r) (d # r)))"

definition unmarshal_object :: "raw_message \<Rightarrow> (string \<times> raw_message) list res" where
  "unmarshal_object raw =
     (let s = skip_ws raw in
      if \<not> valid_json raw then Inl ErrJSON
      else if hd s = CHR ''n'' then Inr []
      else if hd s \<noteq> CHR ''{'' then Inl ErrJSON
      else case skip_ws (tl s) of
          [] \<Rightarrow> Inr []
        | d # r \<Rightarrow> Inr (if d = CHR ''}'' then [] else raw_members (length r) (d # r)))"

text \<open>Into a string, which \<open>null\<close> leaves as it is, and into a bool whose error is ignored.\<close>

definition unmarshal_string :: "raw_message \<Rightarrow> string \<Rightarrow> string res" where
  "unmarshal_string raw old =
     (let s = skip_ws raw in
      if \<not> valid_json raw then Inl ErrJSON
      else if hd s = CHR ''n'' then Inr old
      else if hd s \<noteq> CHR 0x22 then Inl ErrJSON
      else case json_chars (tl s) of None \<Rightarrow> Inl ErrJSON | Some (t, _) \<Rightarrow> Inr t)"

definition unmarshal_bool :: "raw_message \<Rightarrow> bool \<Rightarrow> bool" where
  "unmarshal_bool raw old =
     (let s = skip_ws raw in
      if \<not> valid_json raw then old
      else if hd s = CHR ''t'' then True else if hd s = CHR ''f'' then False else old)"

text \<open>A field of a struct: the last member of that name counts, without regard to case.\<close>

definition string_field :: "string \<Rightarrow> (string \<times> raw_message) list \<Rightarrow> string res" where
  "string_field f kvs = each (\<lambda>(k, v) old. if same_name k f then unmarshal_string v old else Inr old) kvs []"

definition raw_message_field :: "string \<Rightarrow> (string \<times> raw_message) list \<Rightarrow> raw_message" where
  "raw_message_field f kvs = foldl (\<lambda>old (k, v). if same_name k f then v else old) [] kvs"

section \<open>Requests, responses and errors\<close>

definition CodeParseError :: int where "CodeParseError = -32700"
definition CodeInvalidRequest :: int where "CodeInvalidRequest = -32600"
definition CodeMethodNotFound :: int where "CodeMethodNotFound = -32601"
definition CodeInvalidParams :: int where "CodeInvalidParams = -32602"
definition CodeInternalError :: int where "CodeInternalError = -32603"
definition CodeServerError :: int where "CodeServerError = -32000"
definition CodeTxRejected :: int where "CodeTxRejected = -32001"
definition CodeLimitExceeded :: int where "CodeLimitExceeded = -32003"

text \<open>Error messages are abbreviated; the \<open>Data\<close> of an error is a further text.\<close>

record rpc_error =
  re_Code :: int
  re_Message :: string

definition NewError :: "int \<Rightarrow> string \<Rightarrow> rpc_error" where
  "NewError code msg = \<lparr>re_Code = code, re_Message = msg\<rparr>"

record rpc_request =
  rq_JSONRPC :: string
  rq_Method :: string
  rq_Params :: raw_message
  rq_ID :: raw_message

definition unmarshal_request :: "raw_message \<Rightarrow> rpc_request res" where
  "unmarshal_request raw =
     and_then (unmarshal_object raw) (\<lambda>kvs.
     and_then (string_field ''jsonrpc'' kvs) (\<lambda>ver.
     and_then (string_field ''method'' kvs) (\<lambda>meth.
     Inr \<lparr>rq_JSONRPC = ver, rq_Method = meth, rq_Params = raw_message_field ''params'' kvs,
       rq_ID = raw_message_field ''id'' kvs\<rparr>)))"

definition IsNotification :: "rpc_request \<Rightarrow> bool" where
  "IsNotification r \<longleftrightarrow> rq_ID r = [] \<or> rq_ID r = ''null''"

text \<open>
  A response; \<open>omitempty\<close> leaves a nil result, a nil error and an empty id out. The values of the
  members are JSON values, and the raw text for the id.
\<close>

record rpc_response =
  rs_Result :: "json option"
  rs_Error :: "rpc_error option"
  rs_ID :: raw_message

definition response_members :: "rpc_response \<Rightarrow> (string \<times> (json + raw_message)) list" where
  "response_members r =
     (''jsonrpc'', Inl (JStr ''2.0'')) #
     (case rs_Result r of None \<Rightarrow> [] | Some j \<Rightarrow> [(''result'', Inl j)]) @
     (case rs_Error r of
        None \<Rightarrow> []
      | Some e \<Rightarrow> [(''error'', Inl (JObj [(''code'', JNum (if re_Code e < 0 then ''-'' @ dec_string (nat (- re_Code e))
            else dec_string (nat (re_Code e)))), (''message'', JStr (re_Message e))]))]) @
     (if rs_ID r = [] then [] else [(''id'', Inr (rs_ID r))])"

section \<open>Quantities and data\<close>

definition rpc_EncodeUint64 :: "uint64 \<Rightarrow> string" where
  "rpc_EncodeUint64 v = ''0x'' @ hex_string (unat v)"

definition rpc_EncodeUint256 :: "uint256 \<Rightarrow> string" where
  "rpc_EncodeUint256 v =
     (let b = word_bytes v;
          i = length (takeWhile (\<lambda>x. x = 0) b)
      in if i = length b then ''0x0''
         else let s = dropWhile (\<lambda>c. c = CHR ''0'') (hex_encode (drop i b))
              in if s = [] then ''0x0'' else ''0x'' @ s)"

definition rpc_EncodeBytes :: "bytes \<Rightarrow> string" where
  "rpc_EncodeBytes b = ''0x'' @ hex_encode b"

definition rpc_EncodeHash :: "hash \<Rightarrow> string" where
  "rpc_EncodeHash h = ''0x'' @ hex_encode (word_bytes h)"

definition rpc_EncodeAddress :: "address \<Rightarrow> string" where
  "rpc_EncodeAddress a = ''0x'' @ hex_encode (word_bytes a)"

definition rpc_DecodeUint64 :: "raw_message \<Rightarrow> uint64 res" where
  "rpc_DecodeUint64 raw =
     (let s = TrimSpace raw in
      if s = [] \<or> s = ''null'' then Inl (ErrOther ''missing'')
      else if hd s \<noteq> CHR 0x22 then res_map word_of_nat (parse_dec 64 s)
      else and_then (Unquote s) (\<lambda>t.
        if t = [] then Inl (ErrOther ''empty'')
        else if take 2 t = ''0x'' \<or> take 2 t = ''0X'' then res_map word_of_nat (parse_hex 64 (drop 2 t))
        else res_map word_of_nat (parse_dec 64 t)))"

text \<open>The prefixes \<open>0x\<close> and \<open>0X\<close> are taken off one after the other.\<close>

definition hex_body :: "string \<Rightarrow> bytes res" where
  "hex_body s =
     (let s = trim_prefix ''0X'' (trim_prefix ''0x'' s) in
      if s = [] then Inr []
      else if length s mod 2 \<noteq> 0 then Inl (ErrOther ''odd length'')
      else hex_decode s)"

definition decodeHexString :: "raw_message \<Rightarrow> bytes res" where
  "decodeHexString raw =
     (let s = TrimSpace raw in
      if s = [] \<or> s = ''null'' then Inl (ErrOther ''missing'')
      else and_then (if hd s = CHR 0x22 then Unquote s else Inr s) hex_body)"

definition fixed_bytes :: "raw_message \<Rightarrow> 'a::len word res" where
  "fixed_bytes raw =
     and_then (decodeHexString raw) (\<lambda>s.
       if length s * 8 \<noteq> LENGTH('a) then Inl (ErrOther ''length'') else Inr (bytes_word s))"

definition rpc_DecodeAddress :: "raw_message \<Rightarrow> address res" where
  "rpc_DecodeAddress raw = fixed_bytes raw"

definition rpc_DecodeHash :: "raw_message \<Rightarrow> hash res" where
  "rpc_DecodeHash raw = fixed_bytes raw"

definition rpc_DecodeBytes :: "raw_message \<Rightarrow> bytes res" where
  "rpc_DecodeBytes raw = decodeHexString raw"

definition ParseAddressStr :: "string \<Rightarrow> address res" where
  "ParseAddressStr s = fixed_bytes ([CHR 0x22] @ s @ [CHR 0x22])"

section \<open>Parameters\<close>

text \<open>The insertion sort of \<open>sortStrings\<close>: \<open>s[i]\<close> moves left past the greater ones, held in reverse.\<close>

fun move_before :: "string \<Rightarrow> string list \<Rightarrow> string list" where
  "move_before x [] = [x]"
| "move_before x (y # ys) = (if x < y then y # move_before x ys else x # y # ys)"

definition sortStrings :: "string list \<Rightarrow> string list" where
  "sortStrings s = rev (foldl (\<lambda>acc x. move_before x acc) [] s)"

text \<open>Named parameters become positional in the order of their names; the keys of a map come in any order.\<close>

definition ParseParams :: "raw_message \<Rightarrow> raw_message list res" where
  "ParseParams raw =
     (if raw = [] \<or> raw = ''null'' then Inr []
      else let trimmed = TrimSpace raw in
        if trimmed = [] then Inr []
        else if hd trimmed = CHR ''['' then unmarshal_array raw
        else if hd trimmed = CHR ''{'' then
          res_map (\<lambda>kvs. let m = fold (\<lambda>(k, v). fmupd k v) kvs fmempty
              in map (\<lambda>k. the (fmlookup m k)) (sortStrings (sorted_keys m))) (unmarshal_object raw)
        else Inl (ErrOther ''params''))"

text \<open>A parameter that is missing, or malformed, is an error of the request.\<close>

type_synonym 'a rpc_res = "rpc_error + 'a"

definition Param :: "raw_message list \<Rightarrow> nat \<Rightarrow> raw_message rpc_res" where
  "Param params i =
     (if i \<ge> length params then Inl (NewError CodeInvalidParams ''missing parameter'') else Inr (params ! i))"

definition OptionalParam :: "raw_message list \<Rightarrow> nat \<Rightarrow> raw_message option" where
  "OptionalParam params i = (if i \<ge> length params then None else Some (params ! i))"

definition decode_param :: "(raw_message \<Rightarrow> 'a res) \<Rightarrow> raw_message list \<Rightarrow> nat \<Rightarrow> 'a rpc_res" where
  "decode_param dec params i =
     (case Param params i of
        Inl e \<Rightarrow> Inl e
      | Inr raw \<Rightarrow> (case dec raw of Inl _ \<Rightarrow> Inl (NewError CodeInvalidParams ''bad parameter'') | Inr v \<Rightarrow> Inr v))"

definition ParamUint64 :: "raw_message list \<Rightarrow> nat \<Rightarrow> uint64 rpc_res" where
  "ParamUint64 params i = decode_param rpc_DecodeUint64 params i"

definition ParamBytes :: "raw_message list \<Rightarrow> nat \<Rightarrow> bytes rpc_res" where
  "ParamBytes params i = decode_param rpc_DecodeBytes params i"

definition ParamAddress :: "raw_message list \<Rightarrow> nat \<Rightarrow> address rpc_res" where
  "ParamAddress params i = decode_param rpc_DecodeAddress params i"

definition decodeHashParam :: "raw_message list \<Rightarrow> nat \<Rightarrow> hash rpc_res" where
  "decodeHashParam params i = decode_param rpc_DecodeHash params i"

section \<open>Facts about texts\<close>

definition quoted :: "string \<Rightarrow> raw_message" where
  "quoted s = [CHR 0x22] @ s @ [CHR 0x22]"

text \<open>Characters that neither trimming nor unquoting changes.\<close>

definition plain :: "string \<Rightarrow> bool" where
  "plain s \<longleftrightarrow> list_all (\<lambda>c. c \<noteq> CHR 0x22 \<and> c \<noteq> CHR 0x5C \<and> c \<noteq> CHR 0x0A) s"

lemma go_chars_plain: "plain s \<Longrightarrow> go_chars (s @ [CHR 0x22]) = Some s"
  by (induction s) (simp_all add: go_chars.simps [of "_ # _"] plain_def)

lemma Unquote_quoted [simp]: "plain s \<Longrightarrow> Unquote (quoted s) = Inr s"
  by (simp add: Unquote_def quoted_def go_chars_plain)

lemma unicode_spaces_quote: "list_all (\<lambda>p. p \<noteq> [] \<and> hd p \<noteq> CHR 0x22 \<and> last p \<noteq> CHR 0x22) unicode_spaces"
  by code_simp

lemma strip_stays: "list_all (\<lambda>p. p \<noteq> [] \<and> hd p \<noteq> c) ps \<Longrightarrow> strip ps (c # t) = c # t"
proof -
  assume ps: "list_all (\<lambda>p. p \<noteq> [] \<and> hd p \<noteq> c) ps"
  have "\<not> (p \<noteq> [] \<and> take (length p) (c # t) = p)" if "p \<in> set ps" for p
    using ps that by (cases p) (auto simp: list_all_iff)
  then have "find (\<lambda>p. p \<noteq> [] \<and> take (length p) (c # t) = p) ps = None" by (simp add: find_None_iff)
  then show ?thesis by (simp add: strip.simps [of _ "_ # _"])
qed

lemma TrimSpace_quoted [simp]: "TrimSpace (quoted s) = quoted s"
proof -
  have "list_all (\<lambda>p. p \<noteq> [] \<and> hd p \<noteq> CHR 0x22) unicode_spaces"
    "list_all (\<lambda>p. p \<noteq> [] \<and> hd p \<noteq> CHR 0x22) (map rev unicode_spaces)"
    using unicode_spaces_quote by (auto simp: list_all_iff hd_rev)
  then show ?thesis by (simp add: TrimSpace_def quoted_def strip_stays)
qed

lemma quoted_ne [simp]: "quoted s \<noteq> []" "quoted s \<noteq> ''null''" "hd (quoted s) = CHR 0x22"
  by (simp_all add: quoted_def)

lemma is_hex_hex_digit [simp]: "n < 16 \<Longrightarrow> is_hex_char (hex_digit n)"
  by (simp add: is_hex_char_def)

lemma hex_nat_snoc [simp]: "hex_nat (s @ [c]) = hex_nat s * 16 + (case hex_val c of None \<Rightarrow> 0 | Some d \<Rightarrow> d)" "hex_nat [] = 0"
  by (simp_all add: hex_nat_def)

lemma hex_string_digits: "list_all is_hex_char (hex_string n) \<and> hex_string n \<noteq> [] \<and> hex_nat (hex_string n) = n"
proof (induction n rule: hex_string.induct)
  case (1 n)
  then show ?case
    by (cases "n < 16") (simp_all add: hex_string.simps [of n], simp_all add: hex_nat_def)
qed

lemma parse_hex_string: "n < 2 ^ bits \<Longrightarrow> parse_hex bits (hex_string n) = Inr n"
  using hex_string_digits [of n] by (simp add: parse_hex_def)

lemma hex_char_plain: "is_hex_char c \<Longrightarrow> c \<noteq> CHR 0x22 \<and> c \<noteq> CHR 0x5C \<and> c \<noteq> CHR 0x0A \<and> c \<noteq> CHR ''x'' \<and> c \<noteq> CHR ''X''"
  by (auto simp: is_hex_char_def hex_val_def Let_def)

lemma hex_plain: "list_all is_hex_char s \<Longrightarrow> plain s"
  by (auto simp: plain_def list_all_iff dest: hex_char_plain)

lemma hex_encode_digits: "list_all is_hex_char (hex_encode bs)"
proof (induction bs)
  case (Cons b bs)
  have "unat b div 16 < 16" using unat_byte_less [of b] by linarith
  then show ?case using Cons by (simp add: hex_encode_def)
qed (simp add: hex_encode_def)

lemma plain_append [simp]: "plain (a @ b) \<longleftrightarrow> plain a \<and> plain b" "plain ''0x''"
  by (simp_all add: plain_def)

text \<open>The shortest form of a number is unique.\<close>

definition lower_hex :: "string \<Rightarrow> bool" where
  "lower_hex s \<longleftrightarrow> list_all (\<lambda>c. \<exists>d<16. c = hex_digit d) s"

lemma hex_digit_zero: "d < 16 \<Longrightarrow> hex_digit d = CHR ''0'' \<longleftrightarrow> d = 0"
proof -
  assume "d < 16"
  then have "hex_val (hex_digit d) = Some d" by simp
  moreover have "hex_val (CHR ''0'') = Some 0" by (simp add: hex_val_def)
  moreover have "hex_digit 0 = CHR ''0''" by code_simp
  ultimately show ?thesis by auto
qed

lemma hex_string_hd: "hd (hex_string n) = CHR ''0'' \<longleftrightarrow> n = 0"
proof (induction n rule: hex_string.induct)
  case (1 n)
  show ?case
  proof (cases "n < 16")
    case True
    then show ?thesis by (simp add: hex_string.simps [of n] hex_digit_zero)
  next
    case False
    then have "hex_string n = hex_string (n div 16) @ [hex_digit (n mod 16)]" by (simp add: hex_string.simps [of n])
    then show ?thesis using 1 False hex_string_digits [of "n div 16"] by simp
  qed
qed

lemma hex_string_unique: "lower_hex s \<Longrightarrow> s \<noteq> [] \<Longrightarrow> hd s \<noteq> CHR ''0'' \<Longrightarrow> s = hex_string (hex_nat s)"
proof (induction s rule: rev_induct)
  case (snoc c s)
  obtain d where d: "d < 16" "c = hex_digit d" using snoc.prems(1) by (auto simp: lower_hex_def)
  show ?case
  proof (cases "s = []")
    case True
    then show ?thesis using d by (simp add: hex_string.simps [of d] hex_nat_def)
  next
    case False
    then have s: "s = hex_string (hex_nat s)" using snoc by (simp add: lower_hex_def)
    have "hex_nat s \<noteq> 0"
    proof
      assume "hex_nat s = 0"
      then have "hd s = CHR ''0''" using s hex_string_hd [of 0] by simp
      then show False using snoc.prems(3) False by simp
    qed
    moreover define n where "n = hex_nat (s @ [c])"
    ultimately have "\<not> n < 16" "n div 16 = hex_nat s" "n mod 16 = d" using d by simp_all
    then have "hex_string n = hex_string (hex_nat s) @ [hex_digit d]" by (simp add: hex_string.simps [of n])
    then show ?thesis using s d n_def by metis
  qed
qed simp

lemma hex_nat_encode: "hex_nat (hex_encode bs) = be_val bs"
proof (induction bs rule: rev_induct)
  case (snoc b bs)
  have "unat b div 16 < 16" using unat_byte_less [of b] by linarith
  then have "hex_nat (hex_encode bs @ [hex_digit (unat b div 16)] @ [hex_digit (unat b mod 16)]) =
      (hex_nat (hex_encode bs) * 16 + unat b div 16) * 16 + unat b mod 16"
    unfolding append_assoc [symmetric] hex_nat_snoc by simp
  then show ?case using snoc by (simp add: hex_encode_def)
qed (simp add: hex_encode_def)

lemma hex_nat_dropWhile: "hex_nat (dropWhile (\<lambda>c. c = CHR ''0'') s) = hex_nat s"
  by (induction s) (simp_all add: hex_nat_def hex_val_def)

lemma be_val_dropWhile: "be_val (dropWhile (\<lambda>x. x = 0) bs) = be_val bs"
  by (induction bs) (simp_all add: be_val_def)

lemma lower_hex_encode: "lower_hex (hex_encode bs)"
proof (induction bs)
  case (Cons b bs)
  have "unat b div 16 < 16" using unat_byte_less [of b] by linarith
  moreover have "unat b mod 16 < 16" by simp
  ultimately show ?case using Cons unfolding hex_encode_def lower_hex_def by (simp del: mod_less_divisor) blast
qed (simp add: hex_encode_def lower_hex_def)

lemma DecodeUint64_Encode: "rpc_DecodeUint64 (quoted (rpc_EncodeUint64 v)) = Inr v"
proof -
  note d = hex_string_digits [of "unat v"]
  have "plain (''0x'' @ hex_string (unat v))" using d hex_plain [of "hex_string (unat v)"] by (simp only: plain_append)
  then have "Unquote (quoted (''0x'' @ hex_string (unat v))) = Inr (''0x'' @ hex_string (unat v))" by (rule Unquote_quoted)
  moreover have "parse_hex 64 (hex_string (unat v)) = Inr (unat v)" using unat_less_pow [of v] by (intro parse_hex_string) simp
  ultimately show ?thesis by (simp add: rpc_DecodeUint64_def rpc_EncodeUint64_def)
qed

lemma EncodeUint64_hd: "rpc_EncodeUint64 v ! 2 = CHR ''0'' \<longleftrightarrow> v = 0"
proof -
  have "rpc_EncodeUint64 v ! 2 = hd (hex_string (unat v))"
    using hex_string_digits [of "unat v"] by (cases "hex_string (unat v)") (simp_all add: rpc_EncodeUint64_def)
  then show ?thesis using hex_string_hd [of "unat v"] by (simp add: unat_eq_zero)
qed

text \<open>More fuel than \<open>behind_value\<close> gives changes nothing: twice the length of the text is enough.\<close>

lemma json_chars_shorter: "json_chars s = Some (t, r) \<Longrightarrow> length r < length s"
proof (induction s arbitrary: t r rule: json_chars.induct)
  case (1 s)
  show ?case
  proof (cases s)
    case (Cons c u)
    have u: "length r < length u" if "c \<noteq> CHR 0x22" "\<not> (of_char c :: nat) < 0x20" "c \<noteq> CHR 0x5C" "json_chars u = Some (t', r)" for t'
      using 1(1) [OF Cons that(1-3)] that(4) by blast
    have e: "length r < length u" if "c \<noteq> CHR 0x22" "\<not> (of_char c :: nat) < 0x20" "\<not> c \<noteq> CHR 0x5C"
      "json_escape u = Some (x, v)" "json_chars v = Some (t', r)" for x v t'
      using 1(2) [OF Cons that(1-4) refl that(5)] json_escape_length [OF that(4)] by simp
    show ?thesis using 1(3) u e unfolding Cons json_chars.simps [of "c # u"]
      by (auto split: if_splits option.splits prod.splits intro: less_SucI)
  qed (use 1(3) in \<open>simp add: json_chars.simps [of "[]"]\<close>)
qed

lemma skip_ws_le: "length (skip_ws s) \<le> length s"
  by (simp add: skip_ws_def length_dropWhile_le)

lemma skip_digits_shorter: "skip_digits s = Some r \<Longrightarrow> length r < length s"
  by (cases s) (auto simp: skip_digits_def length_dropWhile_le less_Suc_eq_le split: if_splits)

lemma skip_tail_le: "skip_fraction s = Some r \<Longrightarrow> length r \<le> length s" "skip_exponent s = Some r \<Longrightarrow> length r \<le> length s"
  by (auto simp: skip_fraction_def skip_exponent_def split: list.splits if_splits dest!: skip_digits_shorter)

lemma skip_number_shorter: "skip_number s = Some r \<Longrightarrow> length r < length s"
  by (auto simp: skip_number_def Let_def split: list.splits if_splits option.splits
      dest!: skip_digits_shorter skip_tail_le)

lemma skip_literal_shorter: "skip_literal s = Some r \<Longrightarrow> length r < length s"
  by (cases s) (auto simp: skip_literal_def split: if_splits)

lemma skip_shorter:
  "skip_value n s = Some r \<Longrightarrow> length r < length s"
  "skip_elements n s = Some r \<Longrightarrow> length r < length s"
  "skip_members n s = Some r \<Longrightarrow> length r < length s"
proof (induction n s and n s and n s arbitrary: r and r and r rule: skip_value_skip_elements_skip_members.induct)
  case (2 n s)
  show ?case
  proof (cases s)
    case (Cons c u)
    have ws: "length v < length u" if "skip_ws u = d # v" for d v
      using skip_ws_le [of u] that by simp
    show ?thesis using 2 ws
      by (auto simp: Cons split: if_splits list.splits dest!: json_chars_shorter skip_number_shorter skip_literal_shorter)
       (fastforce intro: less_SucI)+
  qed (use 2 in simp)
next
  case (4 n s)
  from 4(3) obtain t d u where t: "skip_value n s = Some t" "skip_ws t = d # u"
    "if d = CHR '']'' then r = u else skip_elements n (skip_ws u) = Some r"
    by (auto split: option.splits list.splits if_splits)
  have "length t < length s" "Suc (length u) \<le> length t" using 4(1) [OF t(1)] skip_ws_le [of t] t(2) by simp_all
  moreover have "length r \<le> length u" if "d \<noteq> CHR '']''"
    using 4(3) t that 4(2) [of t d u r] skip_ws_le [of u] by (auto split: if_splits)
  ultimately show ?case using t(3) by (auto split: if_splits)
next
  case (6 n s)
  from 6(3) obtain c w k t where s: "s = c # w" "c = CHR 0x22" "json_chars w = Some (k, t)"
    by (auto split: list.splits if_splits option.splits prod.splits)
  with 6(3) obtain u where u: "skip_ws t = CHR '':'' # u"
    by (auto split: list.splits if_splits option.splits)
  with 6(3) s obtain x where x: "skip_value n (skip_ws u) = Some x"
    by (auto split: option.splits)
  with 6(3) s u obtain d v where v: "skip_ws x = d # v" "if d = CHR ''}'' then r = v else skip_members n (skip_ws v) = Some r"
    by (auto split: list.splits if_splits)
  have "length x < length (skip_ws u)" using 6(1) s u x by simp
  moreover have "length r \<le> length v" if "d \<noteq> CHR ''}''"
  proof -
    have "skip_members n (skip_ws v) = Some r" "d = CHR '',''" using 6(3) s u x v that by (auto split: if_splits)
    then show ?thesis using 6(2) [OF s(1) _ s(3) refl u _ x v(1) that] s(2) skip_ws_le [of v] by simp
  qed
  moreover have "Suc (length v) \<le> length x" "Suc (length u) \<le> length t" "length t < length s" "length (skip_ws u) \<le> length u"
    using skip_ws_le [of x] skip_ws_le [of t] skip_ws_le [of u] v u json_chars_shorter [OF s(3)] s by simp_all
  ultimately show ?case using v(2) by (auto split: if_splits)
qed simp_all

lemma skip_fuel:
  "2 * length s + 1 \<le> n \<Longrightarrow> 2 * length s + 1 \<le> m \<Longrightarrow> skip_value n s = skip_value m s"
  "2 * length s + 2 \<le> n \<Longrightarrow> 2 * length s + 2 \<le> m \<Longrightarrow> skip_elements n s = skip_elements m s"
  "2 * length s + 2 \<le> n \<Longrightarrow> 2 * length s + 2 \<le> m \<Longrightarrow> skip_members n s = skip_members m s"
proof (induction n arbitrary: m s)
  case (Suc n)
  { case 1
    then obtain k where m: "m = Suc k" by (cases m) auto
    have "skip_elements n (d # v) = skip_elements k (d # v) \<and> skip_members n (d # v) = skip_members k (d # v)"
      if "s = c # u" "skip_ws u = d # v" for c u d v
      using Suc.IH(2,3) [of "d # v" k] that skip_ws_le [of u] 1 m by simp
    then have "(case skip_ws u of [] \<Rightarrow> None | d # v \<Rightarrow> if d = CHR '']'' then Some v else skip_elements n (d # v)) =
        (case skip_ws u of [] \<Rightarrow> None | d # v \<Rightarrow> if d = CHR '']'' then Some v else skip_elements k (d # v))"
      "(case skip_ws u of [] \<Rightarrow> None | d # v \<Rightarrow> if d = CHR ''}'' then Some v else skip_members n (d # v)) =
        (case skip_ws u of [] \<Rightarrow> None | d # v \<Rightarrow> if d = CHR ''}'' then Some v else skip_members k (d # v))"
      if "s = c # u" for c u using that by (cases "skip_ws u"; simp)+
    then show ?case unfolding m by (cases s) (simp_all only: skip_value.simps list.case)
  next
    case 2
    then obtain k where m: "m = Suc k" by (cases m) auto
    have v: "skip_value n s = skip_value k s" using Suc.IH(1) [of s k] 2 m by simp
    have el: "skip_elements n (skip_ws v) = skip_elements k (skip_ws v)"
      if "skip_value k s = Some r" "skip_ws r = d # v" for r d v
      using Suc.IH(2) [of "skip_ws v" k] skip_shorter(1) [OF that(1)] that(2) skip_ws_le [of r] skip_ws_le [of v] 2 m by simp
    show ?case
    proof (cases "skip_value k s")
      case (Some r)
      then show ?thesis unfolding m by (cases "skip_ws r") (simp_all add: v el)
    qed (simp add: m v)
  next
    case 3
    then obtain k where m: "m = Suc k" by (cases m) auto
    have v: "skip_value n (skip_ws u) = skip_value k (skip_ws u) \<and>
        (\<forall>x d v. skip_value k (skip_ws u) = Some x \<longrightarrow> skip_ws x = d # v \<longrightarrow> skip_members n (skip_ws v) = skip_members k (skip_ws v))"
      if "s = c # w" "json_chars w = Some (a, t)" "skip_ws t = d # u" for c w a t d u
    proof -
      have l: "Suc (length u) < length s" using json_chars_shorter [OF that(2)] that skip_ws_le [of t] by simp
      have "skip_members n (skip_ws v) = skip_members k (skip_ws v)"
        if "skip_value k (skip_ws u) = Some x" "skip_ws x = d # v" for x d v
        using Suc.IH(3) [of "skip_ws v" k] skip_shorter(1) [OF that(1)] that(2) skip_ws_le [of u] skip_ws_le [of x] skip_ws_le [of v] l 3 m by simp
      moreover have "skip_value n (skip_ws u) = skip_value k (skip_ws u)"
        using Suc.IH(1) [of "skip_ws u" k] skip_ws_le [of u] l 3 m by simp
      ultimately show ?thesis by blast
    qed
    show ?case
    proof (cases s)
      case (Cons c w)
      show ?thesis
      proof (cases "json_chars w")
        case (Some p)
        obtain a t where p: "p = (a, t)" by (cases p)
        show ?thesis
        proof (cases "skip_ws t")
          case ws: (Cons d u)
          note v = v [OF Cons Some [unfolded p] ws]
          show ?thesis
          proof (cases "skip_value k (skip_ws u)")
            case x: (Some x)
            have "skip_members n (skip_ws y) = skip_members k (skip_ws y)" if "skip_ws x = e # y" for e y
              using v x that by blast
            then show ?thesis unfolding m by (cases "skip_ws x") (simp_all add: Cons Some p ws v x)
          qed (simp add: m Cons Some p ws v)
        qed (simp add: m Cons Some p)
      qed (simp add: m Cons)
    qed (simp add: m)
  }
qed simp_all

lemma behind_value_fuel: "2 * length s + 1 \<le> n \<Longrightarrow> skip_value n s = behind_value s"
  unfolding behind_value_def by (rule skip_fuel(1)) simp_all

text \<open>Texts of printable characters are read as they are.\<close>

definition printable :: "string \<Rightarrow> bool" where
  "printable s \<longleftrightarrow> list_all (\<lambda>c. 0x20 \<le> (of_char c :: nat) \<and> c \<noteq> CHR 0x22 \<and> c \<noteq> CHR 0x5C) s"

lemma json_chars_printable: "printable s \<Longrightarrow> json_chars (s @ CHR 0x22 # r) = Some (s, r)"
  by (induction s) (simp_all add: json_chars.simps [of "_ # _"] printable_def)

lemma unmarshal_printable: "printable s \<Longrightarrow> unmarshal_string (quoted s) old = Inr s"
  by (simp add: unmarshal_string_def valid_json_def behind_value_def quoted_def json_chars_printable skip_ws_def json_space_def Let_def)

lemma hex_printable: "list_all is_hex_char s \<Longrightarrow> printable s"
  by (auto simp: printable_def list_all_iff is_hex_char_def hex_val_def Let_def split: if_splits)

lemma printable_append [simp]: "printable (a @ b) \<longleftrightarrow> printable a \<and> printable b"
  by (simp add: printable_def)

section \<open>Properties\<close>

text \<open>
  quantities survive the JSON layer. What \<open>EncodeUint64\<close> writes, quoted, \<open>DecodeUint64\<close> reads back, for
  every 64-bit value, and it is the shortest form: a leading zero only for zero itself.
\<close>

theorem quantity_roundtrip:
  "rpc_DecodeUint64 (quoted (rpc_EncodeUint64 v)) = Inr v \<and> (rpc_EncodeUint64 v ! 2 = CHR ''0'' \<longleftrightarrow> v = 0)"
  using DecodeUint64_Encode EncodeUint64_hd by blast

text \<open>
  \<open>EncodeUint256\<close> writes the shortest hexadecimal form. Stripping zero bytes and then a zero nibble
  gives, for all 256-bit values, the digits of the number without leading zeros.
\<close>

theorem EncodeUint256_shortest: "rpc_EncodeUint256 v = ''0x'' @ hex_string (unat v)"
proof -
  let ?b = "word_bytes v"
  define s where "s = dropWhile (\<lambda>c. c = CHR ''0'') (hex_encode (dropWhile (\<lambda>x. x = 0) ?b))"
  have enc: "rpc_EncodeUint256 v = (if dropWhile (\<lambda>x. x = 0) ?b = [] \<or> s = [] then ''0x0'' else ''0x'' @ s)"
  proof -
    have "length (takeWhile (\<lambda>x. x = 0) ?b) + length (dropWhile (\<lambda>x. x = 0) ?b) = length ?b"
      by (simp flip: length_append)
    then have "length (takeWhile (\<lambda>x. x = 0) ?b) = length ?b \<longleftrightarrow> length (dropWhile (\<lambda>x. x = 0) ?b) = 0" by linarith
    then show ?thesis unfolding length_0_conv by (simp only: rpc_EncodeUint256_def Let_def s_def dropWhile_eq_drop [symmetric] simp_thms) simp
  qed
  have val: "hex_nat s = unat v"
    by (simp add: s_def hex_nat_dropWhile hex_nat_encode be_val_dropWhile)
  have zero: "''0x'' @ hex_string 0 = ''0x0''" by code_simp
  show ?thesis
  proof (cases "s = []")
    case True
    then show ?thesis using enc val zero by simp
  next
    case False
    then have "hd s \<noteq> CHR ''0''" using hd_dropWhile [of "\<lambda>c. c = CHR ''0''"] by (auto simp: s_def)
    moreover have "lower_hex s"
      using lower_hex_encode unfolding s_def lower_hex_def list_all_iff by (meson set_dropWhileD)
    ultimately have "s = hex_string (unat v)" using hex_string_unique [of s] False val by simp
    moreover have "dropWhile (\<lambda>x. x = 0) ?b \<noteq> []"
    proof
      assume "dropWhile (\<lambda>x. x = 0) ?b = []"
      then show False using False unfolding s_def by (simp only: hex_encode_def list.map concat.simps dropWhile.simps)
    qed
    ultimately show ?thesis using enc False by (simp only: if_False simp_thms)
  qed
qed

lemma hex_body_encode: "hex_body (''0x'' @ hex_encode bs) = Inr bs"
proof -
  have "\<not> prefix ''0X'' (hex_encode bs)"
  proof
    assume "prefix ''0X'' (hex_encode bs)"
    then have "CHR ''X'' \<in> set (hex_encode bs)" by (auto simp: prefix_def)
    then show False using hex_encode_digits [of bs] hex_char_plain by (fastforce simp: list_all_iff)
  qed
  then have "trim_prefix ''0X'' (trim_prefix ''0x'' (''0x'' @ hex_encode bs)) = hex_encode bs"
    by (simp add: trim_prefix_def)
  moreover have "hex_encode bs = [] \<longleftrightarrow> bs = []" using length_hex_encode [of bs] by (cases bs) (auto simp: hex_encode_def)
  ultimately show ?thesis by (simp add: hex_body_def Let_def)
qed

lemma decodeHexString_encode: "decodeHexString (quoted (''0x'' @ hex_encode bs)) = Inr bs"
proof -
  have "plain (''0x'' @ hex_encode bs)" using hex_plain [OF hex_encode_digits] by (simp only: plain_append)
  then show ?thesis using Unquote_quoted [of "''0x'' @ hex_encode bs"] hex_body_encode [of bs]
    by (simp add: decodeHexString_def Let_def del: append_Cons)
qed

lemma fixed_bytes_encode:
  "8 dvd LENGTH('a) \<Longrightarrow> fixed_bytes (quoted (''0x'' @ hex_encode (word_bytes w))) = Inr (w :: 'a::len word)"
  by (simp add: fixed_bytes_def decodeHexString_encode del: append_Cons)

text \<open>
  C38: data survives the JSON layer. A hash, an address and a byte string are read back from what the server
  writes for them, as a parameter and, for addresses, as a field of the object of \<open>eth_call\<close>.
\<close>

theorem data_roundtrip:
  "rpc_DecodeHash (quoted (rpc_EncodeHash h)) = Inr h \<and> rpc_DecodeAddress (quoted (rpc_EncodeAddress a)) = Inr a \<and>
   ParseAddressStr (rpc_EncodeAddress a) = Inr a \<and> rpc_DecodeBytes (quoted (rpc_EncodeBytes b)) = Inr b"
  using fixed_bytes_encode [of h] fixed_bytes_encode [of a] decodeHexString_encode [of b]
  by (simp add: rpc_DecodeHash_def rpc_EncodeHash_def rpc_DecodeAddress_def rpc_EncodeAddress_def ParseAddressStr_def
      rpc_DecodeBytes_def rpc_EncodeBytes_def quoted_def)

lemma sortStrings_sort: "sortStrings s = sort s"
proof -
  have m: "mset (move_before x ys) = mset (x # ys)" "sorted_wrt (\<ge>) ys \<Longrightarrow> sorted_wrt (\<ge>) (move_before x ys)" for x and ys :: "string list"
  proof -
    show "mset (move_before x ys) = mset (x # ys)" by (induction ys) simp_all
    then have "set (move_before x ys) = set (x # ys)" for ys :: "string list"
      by (induction ys) auto
    then show "sorted_wrt (\<ge>) ys \<Longrightarrow> sorted_wrt (\<ge>) (move_before x ys)"
      by (induction ys) auto
  qed
  have "mset (foldl (\<lambda>acc x. move_before x acc) acc s) = mset acc + mset s \<and>
     (sorted_wrt (\<ge>) acc \<longrightarrow> sorted_wrt (\<ge>) (foldl (\<lambda>acc x. move_before x acc) acc s))" for acc
    by (induction s arbitrary: acc) (simp_all add: m)
  from this [of "[]"] show ?thesis
    by (intro properties_for_sort [symmetric]) (simp_all add: sortStrings_def sorted_wrt_rev)
qed

end
