(* ===== verification/Rpc.thy ===== *)
theory Rpc
  imports RpcCodec
begin

text \<open>
  The method registry and the dispatcher of \<open>rpc/registry.go\<close>, and the HTTP side of \<open>rpc/server.go\<close>: the
  request body as text, the rate limiter as a map of token buckets. Handlers are functions of their
  parameters and of the state they serve, of any type; a panic of a handler is the error
  \<open>GoPanic\<close>.
\<close>

section \<open>The registry\<close>

type_synonym 's handler = "raw_message list \<Rightarrow> 's \<Rightarrow> ('s \<times> json option rpc_res) res"

record 's method_spec =
  md_Name :: string
  md_Namespace :: string
  md_Params :: "string list"
  md_MaxParams :: nat
  md_Handler :: "'s handler option"
  md_RequireLive :: bool

record 's registry =
  rg_methods :: "(string, 's method_spec) fmap"
  rg_byNS :: "(string, string list) fmap"

definition NewRegistry :: "'s registry" where
  "NewRegistry = \<lparr>rg_methods = fmempty, rg_byNS = fmempty\<rparr>"

definition namespace_of :: "string \<Rightarrow> string" where
  "namespace_of name = takeWhile (\<lambda>c. c \<noteq> CHR ''_'') name"

definition names_in :: "string \<Rightarrow> 's registry \<Rightarrow> string list" where
  "names_in ns r = (case fmlookup (rg_byNS r) ns of None \<Rightarrow> [] | Some l \<Rightarrow> l)"

definition Register :: "'s method_spec \<Rightarrow> 's registry \<Rightarrow> 's registry res" where
  "Register spec r =
     (if md_Name spec = [] \<or> md_Handler spec = None then Inl GoPanic
      else
        let idx = length (namespace_of (md_Name spec)) in
        if idx = length (md_Name spec) \<or> idx = 0 then Inl GoPanic
        else
          let spec = (if md_Namespace spec = [] then spec\<lparr>md_Namespace := take idx (md_Name spec)\<rparr> else spec) in
          if fmlookup (rg_methods r) (md_Name spec) \<noteq> None then Inl GoPanic
          else
            let spec = (if md_MaxParams spec = 0 then spec\<lparr>md_MaxParams := length (md_Params spec)\<rparr> else spec)
            in Inr \<lparr>rg_methods = fmupd (md_Name spec) spec (rg_methods r),
                    rg_byNS = fmupd (md_Namespace spec) (sort (names_in (md_Namespace spec) r @ [md_Name spec])) (rg_byNS r)\<rparr>)"

definition MustRegister :: "'s method_spec list \<Rightarrow> 's registry \<Rightarrow> 's registry res" where
  "MustRegister specs r = each Register specs r"

definition Lookup :: "string \<Rightarrow> 's registry \<Rightarrow> 's method_spec option" where
  "Lookup name r = fmlookup (rg_methods r) name"

definition Methods :: "'s registry \<Rightarrow> string list" where
  "Methods r = sort (sorted_keys (rg_methods r))"

definition MethodsIn :: "string \<Rightarrow> 's registry \<Rightarrow> string list" where
  "MethodsIn ns r = names_in ns r"

definition registry_Count :: "'s registry \<Rightarrow> nat" where
  "registry_Count r = fm_size (rg_methods r)"

section \<open>The dispatcher\<close>

record 's dispatcher =
  ds_registry :: "'s registry"
  ds_ReadyFunc :: "('s \<Rightarrow> bool) option"
  ds_MaxBatchSize :: nat

definition NewDispatcher :: "'s registry \<Rightarrow> 's dispatcher" where
  "NewDispatcher reg = \<lparr>ds_registry = reg, ds_ReadyFunc = None, ds_MaxBatchSize = 10\<rparr>"

definition error_response :: "int \<Rightarrow> string \<Rightarrow> rpc_response" where
  "error_response code msg = \<lparr>rs_Result = None, rs_Error = Some (NewError code msg), rs_ID = []\<rparr>"

definition handleOne :: "'s dispatcher \<Rightarrow> rpc_request \<Rightarrow> 's \<Rightarrow> ('s \<times> rpc_response) res" where
  "handleOne d req s =
     (if rq_JSONRPC req \<noteq> [] \<and> rq_JSONRPC req \<noteq> ''2.0'' then Inr (s, error_response CodeInvalidRequest ''version'')
      else if rq_Method req = [] then Inr (s, error_response CodeInvalidRequest ''no method'')
      else case Lookup (rq_Method req) (ds_registry d) of
          None \<Rightarrow> Inr (s, error_response CodeMethodNotFound ''no such method'')
        | Some spec \<Rightarrow>
            if md_RequireLive spec \<and> (case ds_ReadyFunc d of None \<Rightarrow> False | Some f \<Rightarrow> \<not> f s)
            then Inr (s, error_response CodeServerError ''not initialised'')
            else (case ParseParams (rq_Params req) of
                Inl _ \<Rightarrow> Inr (s, error_response CodeInvalidParams ''params'')
              | Inr params \<Rightarrow>
                  if length params > md_MaxParams spec then Inr (s, error_response CodeInvalidParams ''too many'')
                  else (case md_Handler spec of
                      None \<Rightarrow> Inl GoPanic
                    | Some f \<Rightarrow> res_map (\<lambda>(s, r). (s, case r of
                          Inl e \<Rightarrow> \<lparr>rs_Result = None, rs_Error = Some e, rs_ID = []\<rparr>
                        | Inr result \<Rightarrow> \<lparr>rs_Result = result, rs_Error = None, rs_ID = []\<rparr>)) (f params s))))"

text \<open>The answer to a notification is dropped after the request has been carried out.\<close>

definition Handle :: "'s dispatcher \<Rightarrow> string \<Rightarrow> 's \<Rightarrow> ('s \<times> rpc_response option) res" where
  "Handle d raw s =
     (case unmarshal_request raw of
        Inl _ \<Rightarrow> Inr (s, Some (error_response CodeParseError ''parse''))
      | Inr req \<Rightarrow>
          res_map (\<lambda>(s, resp). (s, if IsNotification req then None else Some (resp\<lparr>rs_ID := rq_ID req\<rparr>)))
            (handleOne d req s))"

definition batch_step :: "'s dispatcher \<Rightarrow> rpc_request \<Rightarrow> 's \<times> rpc_response list \<Rightarrow> ('s \<times> rpc_response list) res" where
  "batch_step d req = (\<lambda>(s, out). res_map (\<lambda>(s, resp). (s, out @ [resp\<lparr>rs_ID := rq_ID req\<rparr>])) (handleOne d req s))"

definition unmarshal_requests :: "string \<Rightarrow> rpc_request list res" where
  "unmarshal_requests raw =
     and_then (unmarshal_array raw) (\<lambda>els. each (\<lambda>el reqs. res_map (\<lambda>r. reqs @ [r]) (unmarshal_request el)) els [])"

definition HandleBatch :: "'s dispatcher \<Rightarrow> string \<Rightarrow> 's \<Rightarrow> ('s \<times> rpc_response list option) res" where
  "HandleBatch d raw s =
     (let trimmed = TrimSpace raw in
      if trimmed = [] \<or> hd trimmed \<noteq> CHR ''['' then res_map (\<lambda>(s, r). (s, map_option (\<lambda>r. [r]) r)) (Handle d raw s)
      else case unmarshal_requests raw of
          Inl _ \<Rightarrow> Inr (s, Some [error_response CodeParseError ''parse''])
        | Inr reqs \<Rightarrow>
            if reqs = [] then Inr (s, Some [error_response CodeInvalidRequest ''empty batch''])
            else if length reqs > ds_MaxBatchSize d then Inr (s, Some [error_response CodeLimitExceeded ''batch size''])
            else res_map (\<lambda>(s, out). (s, if out = [] then None else Some out)) (each (batch_step d) reqs (s, [])))"

section \<open>The HTTP server\<close>

text \<open>Times are in nanoseconds; the sizes and limits of the configuration are integers.\<close>

record server_config =
  sv_HTTPPort :: int
  sv_MaxBodyBytes :: int
  sv_MaxBatchSize :: int
  sv_PerIPRateLimit :: int

definition DefaultServerConfig :: server_config where
  "DefaultServerConfig = \<lparr>sv_HTTPPort = 8545, sv_MaxBodyBytes = 1048576, sv_MaxBatchSize = 10, sv_PerIPRateLimit = 100\<rparr>"

record bucket =
  bk_tokens :: int
  bk_lastSeen :: nat

record 's server =
  sv_cfg :: server_config
  sv_dispatcher :: "'s dispatcher"
  sv_limiter :: "(string, bucket) fmap"

definition NewServer :: "server_config \<Rightarrow> 's dispatcher \<Rightarrow> 's server" where
  "NewServer cfg disp =
     (let cfg = (if sv_MaxBodyBytes cfg = 0 then DefaultServerConfig else cfg)
      in \<lparr>sv_cfg = cfg, sv_dispatcher = disp\<lparr>ds_MaxBatchSize := nat (sv_MaxBatchSize cfg)\<rparr>, sv_limiter = fmempty\<rparr>)"

definition allow :: "int \<Rightarrow> nat \<Rightarrow> string \<Rightarrow> (string, bucket) fmap \<Rightarrow> (string, bucket) fmap \<times> bool" where
  "allow limit now ip limiter =
     (case fmlookup limiter ip of
        None \<Rightarrow> (fmupd ip \<lparr>bk_tokens = limit - 1, bk_lastSeen = now\<rparr> limiter, True)
      | Some b \<Rightarrow>
          let refill = int ((now - bk_lastSeen b) div 1000000000) * limit;
              b = (if refill > 0
                   then \<lparr>bk_tokens = (if bk_tokens b + refill > limit then limit else bk_tokens b + refill), bk_lastSeen = now\<rparr>
                   else b)
          in if bk_tokens b \<le> 0 then (fmupd ip b limiter, False)
             else (fmupd ip (b\<lparr>bk_tokens := bk_tokens b - 1\<rparr>) limiter, True))"

text \<open>The address of the client is what the header \<open>X-Forwarded-For\<close> says, if it is there.\<close>

definition clientIP :: "string \<Rightarrow> string \<Rightarrow> string" where
  "clientIP xff addr =
     (if xff \<noteq> [] then TrimSpace (takeWhile (\<lambda>c. c \<noteq> CHR '','') xff)
      else let before = rev (tl (dropWhile (\<lambda>c. c \<noteq> CHR '':'') (rev addr)))
           in if CHR '':'' \<in> set addr \<and> before \<noteq> [] then before else addr)"

datatype http_answer = HttpStatus int | HttpError int rpc_response | HttpOne rpc_response | HttpBatch "rpc_response list"

definition handleRPC :: "bool \<Rightarrow> string \<Rightarrow> string \<Rightarrow> nat \<Rightarrow> string \<Rightarrow> 's server \<Rightarrow> 's \<Rightarrow> ('s server \<times> 's \<times> http_answer) res" where
  "handleRPC isPost xff addr now body sv s =
     (if \<not> isPost then Inr (sv, s, HttpStatus 405)
      else
        let limit = sv_PerIPRateLimit (sv_cfg sv);
            (limiter, allowed) = (if limit > 0 then allow limit now (clientIP xff addr) (sv_limiter sv) else (sv_limiter sv, True));
            sv = sv\<lparr>sv_limiter := limiter\<rparr>
        in if \<not> allowed then Inr (sv, s, HttpError 429 (error_response CodeLimitExceeded ''rate''))
           else if int (length body) > sv_MaxBodyBytes (sv_cfg sv)
           then Inr (sv, s, HttpError 413 (error_response CodeLimitExceeded ''body''))
           else
             let trimmed = TrimSpace body in
             if trimmed \<noteq> [] \<and> hd trimmed = CHR ''[''
             then res_map (\<lambda>(s, r). (sv, s, case r of None \<Rightarrow> HttpStatus 204 | Some rs \<Rightarrow> HttpBatch rs)) (HandleBatch (sv_dispatcher sv) body s)
             else res_map (\<lambda>(s, r). (sv, s, case r of None \<Rightarrow> HttpStatus 204 | Some r \<Rightarrow> HttpOne r)) (Handle (sv_dispatcher sv) body s))"

definition ParsePort :: "string \<Rightarrow> int res" where
  "ParsePort s =
     (if s = [] then Inl (ErrOther ''empty'')
      else
        let neg = (hd s = CHR ''-''); d = (if neg \<or> hd s = CHR ''+'' then tl s else s) in
        if d = [] \<or> \<not> list_all is_digit d then Inl (ErrOther ''syntax'')
        else let p = (if neg then - int (dec_val d) else int (dec_val d)) in
             if p < 1 \<or> p > 65535 then Inl (ErrOther ''range'') else Inr p)"

section \<open>What is registered\<close>

definition valid_spec :: "'s method_spec \<Rightarrow> bool" where
  "valid_spec spec \<longleftrightarrow> md_Handler spec \<noteq> None \<and> namespace_of (md_Name spec) \<noteq> [] \<and> CHR ''_'' \<in> set (md_Name spec)"

definition full_spec :: "'s method_spec \<Rightarrow> 's method_spec" where
  "full_spec spec = spec\<lparr>md_Namespace := (if md_Namespace spec = [] then namespace_of (md_Name spec) else md_Namespace spec),
     md_MaxParams := (if md_MaxParams spec = 0 then length (md_Params spec) else md_MaxParams spec)\<rparr>"

lemma full_spec_simps [simp]:
  "md_Name (full_spec spec) = md_Name spec" "md_Handler (full_spec spec) = md_Handler spec"
  "md_RequireLive (full_spec spec) = md_RequireLive spec"
  by (simp_all add: full_spec_def)

lemma namespace_all: "length (namespace_of n) = length n \<longleftrightarrow> CHR ''_'' \<notin> set n"
  by (induction n) (auto simp: namespace_of_def)

lemma take_namespace: "take (length (namespace_of n)) n = namespace_of n"
  by (simp add: namespace_of_def takeWhile_eq_take [symmetric])

lemma Register_result:
  "Register spec r = (if valid_spec spec \<and> fmlookup (rg_methods r) (md_Name spec) = None
     then Inr \<lparr>rg_methods = fmupd (md_Name spec) (full_spec spec) (rg_methods r),
       rg_byNS = fmupd (md_Namespace (full_spec spec))
         (sort (names_in (md_Namespace (full_spec spec)) r @ [md_Name spec])) (rg_byNS r)\<rparr>
     else Inl GoPanic)"
proof (cases "valid_spec spec")
  case True
  then have "md_Name spec \<noteq> []" by (auto simp: valid_spec_def)
  then show ?thesis using True
    by (auto simp: Register_def valid_spec_def Let_def namespace_all take_namespace full_spec_def)
next
  case False
  then show ?thesis by (auto simp: Register_def valid_spec_def Let_def namespace_all)
qed

definition registry_of :: "'s method_spec list \<Rightarrow> 's registry \<Rightarrow> bool" where
  "registry_of specs r \<longleftrightarrow> (\<forall>name. Lookup name r = find (\<lambda>s. md_Name s = name) (map full_spec specs)) \<and>
     (\<forall>ns. MethodsIn ns r = sort (map md_Name (filter (\<lambda>s. md_Namespace s = ns) (map full_spec specs))))"

lemma find_none_name: "find (\<lambda>s. md_Name s = name) (map full_spec specs) = None \<longleftrightarrow> name \<notin> md_Name ` set specs"
  by (induction specs) auto

lemma find_snoc: "find P (xs @ [x]) = (case find P xs of None \<Rightarrow> if P x then Some x else None | Some y \<Rightarrow> Some y)"
  by (induction xs) auto

lemma sort_snoc: "sort (sort xs @ [x]) = sort (xs @ [x :: 'a::linorder])"
  by (rule properties_for_sort) simp_all

lemma MustRegister_iff:
  "(case MustRegister specs NewRegistry of
      Inr r \<Rightarrow> list_all valid_spec specs \<and> distinct (map md_Name specs) \<and> registry_of specs r
    | Inl e \<Rightarrow> e = GoPanic \<and> \<not> (list_all valid_spec specs \<and> distinct (map md_Name specs)))"
proof (induction specs rule: rev_induct)
  case Nil
  then show ?case by (simp add: MustRegister_def registry_of_def Lookup_def NewRegistry_def MethodsIn_def names_in_def)
next
  case (snoc spec specs)
  show ?case
  proof (cases "MustRegister specs NewRegistry")
    case (Inl e)
    then show ?thesis using snoc by (auto simp: MustRegister_def each_append)
  next
    case (Inr r)
    have ok: "list_all valid_spec specs" "distinct (map md_Name specs)" "registry_of specs r" using snoc Inr by simp_all
    have step: "MustRegister (specs @ [spec]) NewRegistry = Register spec r"
      using Inr by (cases "Register spec r") (simp_all add: MustRegister_def each_append)
    have new: "fmlookup (rg_methods r) (md_Name spec) = None \<longleftrightarrow> md_Name spec \<notin> md_Name ` set specs"
      using ok(3) find_none_name by (simp add: registry_of_def Lookup_def)
    show ?thesis
    proof (cases "valid_spec spec \<and> fmlookup (rg_methods r) (md_Name spec) = None")
      case True
      have lk: "\<And>name. fmlookup (rg_methods r) name = find (\<lambda>s. md_Name s = name) (map full_spec specs)"
        "\<And>ns. names_in ns r = sort (map md_Name (filter (\<lambda>s. md_Namespace s = ns) (map full_spec specs)))"
        using ok(3) by (simp_all add: registry_of_def Lookup_def MethodsIn_def)
      have none: "find (\<lambda>s. md_Name s = md_Name spec) (map full_spec specs) = None" using True lk by simp
      let ?r = "\<lparr>rg_methods = fmupd (md_Name spec) (full_spec spec) (rg_methods r), rg_byNS = fmupd (md_Namespace (full_spec spec))
         (sort (names_in (md_Namespace (full_spec spec)) r @ [md_Name spec])) (rg_byNS r)\<rparr>"
      have "Lookup name ?r = find (\<lambda>s. md_Name s = name) (map full_spec (specs @ [spec]))" for name
        using none by (auto simp: Lookup_def lk find_snoc split: option.split)
      moreover have "MethodsIn ns ?r = sort (map md_Name (filter (\<lambda>s. md_Namespace s = ns) (map full_spec (specs @ [spec]))))" for ns
        using lk(2) [of ns] by (simp add: MethodsIn_def names_in_def [of ns ?r]) (simp add: names_in_def sort_snoc lk)
      ultimately have "registry_of (specs @ [spec]) ?r" by (simp add: registry_of_def)
      then show ?thesis unfolding step Register_result using True ok new by simp
    next
      case False
      then show ?thesis unfolding step Register_result using ok new by auto
    qed
  qed
qed

section \<open>What a request can do\<close>

text \<open>
  C18: what a request can do. Either the dispatcher answers it with an error of its own, one of four codes, and
  the state is untouched; or the method is registered, the chain is initialised if the method asks
  for it, the parameters parse to at most as many as it takes, and the state and the answer are
  those of its handler.
\<close>

theorem handleOne_outcome:
  assumes "handleOne d req s = Inr (s', resp)"
  shows "if (case Lookup (rq_Method req) (ds_registry d) of None \<Rightarrow> False | Some spec \<Rightarrow>
        (rq_JSONRPC req = [] \<or> rq_JSONRPC req = ''2.0'') \<and> rq_Method req \<noteq> [] \<and>
        (if md_RequireLive spec then (case ds_ReadyFunc d of None \<Rightarrow> True | Some f \<Rightarrow> f s) else True) \<and>
        (case ParseParams (rq_Params req) of Inl _ \<Rightarrow> False | Inr params \<Rightarrow> length params \<le> md_MaxParams spec))
    then \<exists>spec params f r. Lookup (rq_Method req) (ds_registry d) = Some spec \<and> ParseParams (rq_Params req) = Inr params \<and>
        md_Handler spec = Some f \<and> f params s = Inr (s', r) \<and>
        (case r of Inl e \<Rightarrow> rs_Error resp = Some e \<and> rs_Result resp = None
         | Inr result \<Rightarrow> rs_Error resp = None \<and> rs_Result resp = result)
    else s' = s \<and> rs_Result resp = None \<and> (\<exists>e. rs_Error resp = Some e \<and>
        re_Code e \<in> {CodeInvalidRequest, CodeMethodNotFound, CodeServerError, CodeInvalidParams})"
  using assms
  by (auto simp: handleOne_def error_response_def NewError_def res_map_Inr_iff
      split: if_splits option.splits sum.splits)

lemma batch_result:
  "each (batch_step d) reqs (s, out) = Inr (s', out') \<Longrightarrow>
   \<exists>rs. out' = out @ rs \<and> map rs_ID rs = map rq_ID reqs"
proof (induction reqs arbitrary: s out)
  case (Cons req reqs)
  obtain t resp where "handleOne d req s = Inr (t, resp)"
    "each (batch_step d) reqs (t, out @ [resp\<lparr>rs_ID := rq_ID req\<rparr>]) = Inr (s', out')"
    using Cons.prems by (auto simp: batch_step_def [of d req] and_then_Inr_iff res_map_Inr_iff)
  from Cons.IH [OF this(2)] show ?case by (auto intro: exI [of _ "resp\<lparr>rs_ID := rq_ID req\<rparr> # _"])
qed simp

text \<open>
  C28: a batch is answered completely. If the body is an array of one to \<open>MaxBatchSize\<close> requests, the
  answers come in the order of the requests and carry their ids, and there is one for every
  request, the notifications included, which should have none; otherwise a single error answers
  the whole batch and the state is untouched.
\<close>

theorem HandleBatch_answers:
  assumes "TrimSpace raw = CHR ''['' # rest" "HandleBatch d raw s = Inr (s', r)"
  shows "case unmarshal_requests raw of
      Inl _ \<Rightarrow> s' = s \<and> r = Some [error_response CodeParseError ''parse'']
    | Inr reqs \<Rightarrow>
        if 0 < length reqs \<and> length reqs \<le> ds_MaxBatchSize d
        then \<exists>rs. r = Some rs \<and> map rs_ID rs = map rq_ID reqs
        else s' = s \<and> (\<exists>e. r = Some [error_response e (if reqs = [] then ''empty batch'' else ''batch size'')])"
proof (cases "unmarshal_requests raw")
  case (Inr reqs)
  show ?thesis
  proof (cases "0 < length reqs \<and> length reqs \<le> ds_MaxBatchSize d")
    case True
    then obtain out where out: "each (batch_step d) reqs (s, []) = Inr (s', out)" "r = (if out = [] then None else Some out)"
      using assms Inr by (auto simp: HandleBatch_def res_map_Inr_iff)
    from batch_result [OF out(1)] have "map rs_ID out = map rq_ID reqs" by simp
    moreover from this have "out \<noteq> []" using True by auto
    ultimately show ?thesis using Inr True out by simp
  qed (use assms Inr in \<open>auto simp: HandleBatch_def\<close>)
qed (use assms in \<open>simp add: HandleBatch_def\<close>)

section \<open>The rate limit\<close>

text \<open>Requests of different clients at given times, and how many of one client are allowed.\<close>

fun allowed_of :: "int \<Rightarrow> string \<Rightarrow> (nat \<times> string) list \<Rightarrow> (string, bucket) fmap \<Rightarrow> nat" where
  "allowed_of limit ip [] m = 0"
| "allowed_of limit ip ((t, a) # evs) m =
     (let (m', ok) = allow limit t a m in (if a = ip \<and> ok then 1 else 0) + allowed_of limit ip evs m')"

lemma allow_other: "a \<noteq> ip \<Longrightarrow> fmlookup (fst (allow limit t a m)) ip = fmlookup m ip"
  by (simp add: allow_def Let_def split: option.split)

lemma allowed_bounded:
  assumes "0 < limit" "fmlookup m ip = Some b" "bk_tokens b \<le> limit" "0 \<le> bk_tokens b"
    "sorted (map fst evs)" "\<forall>ev\<in>set evs. bk_lastSeen b \<le> fst ev \<and> fst ev \<le> t1"
  shows "int (allowed_of limit ip evs m) \<le> bk_tokens b + limit * int ((t1 - bk_lastSeen b) div 1000000000)"
  using assms(2-)
proof (induction evs arbitrary: m b)
  case (Cons ev evs)
  obtain t a where ev: "ev = (t, a)" by (cases ev)
  show ?case
  proof (cases "a = ip")
    case False
    have "fmlookup (fst (allow limit t a m)) ip = Some b" using allow_other [OF False] Cons.prems(1) by simp
    from Cons.IH [OF this] Cons.prems show ?thesis using False
      by (simp add: ev split: prod.split) (metis fst_conv)
  next
    case True
    define k where "k = (t - bk_lastSeen b) div 1000000000"
    have t: "bk_lastSeen b \<le> t" "t \<le> t1" using Cons.prems(5) by (auto simp: ev)
    define b' where "b' = (if k > 0 then \<lparr>bk_tokens = (if bk_tokens b + int k * limit > limit then limit else bk_tokens b + int k * limit),
       bk_lastSeen = t\<rparr> else b)"
    have refill: "int k * limit > 0 \<longleftrightarrow> k > 0" using assms(1) by (simp add: zero_less_mult_iff)
    have step: "allow limit t ip m = (if bk_tokens b' \<le> 0 then (fmupd ip b' m, False)
       else (fmupd ip (b'\<lparr>bk_tokens := bk_tokens b' - 1\<rparr>) m, True))"
      using Cons.prems(1) refill by (simp add: allow_def b'_def k_def Let_def)
    have b': "bk_tokens b' \<le> limit" "0 \<le> bk_tokens b'" "bk_lastSeen b' \<le> t"
      using Cons.prems(2,3) assms(1) t by (auto simp: b'_def)
    have later: "\<forall>ev\<in>set evs. bk_lastSeen b' \<le> fst ev \<and> fst ev \<le> t1"
      using Cons.prems(4,5) b'(3) by (auto simp: ev)
    have srt: "sorted (map fst evs)" using Cons.prems(4) by simp
    have sum: "bk_tokens b' + limit * int ((t1 - bk_lastSeen b') div 1000000000) \<le>
        bk_tokens b + limit * int ((t1 - bk_lastSeen b) div 1000000000)"
    proof (cases "k > 0")
      case True
      have "t1 - bk_lastSeen b = (t - bk_lastSeen b) + (t1 - t)" using t by simp
      then have "k + (t1 - t) div 1000000000 \<le> (t1 - bk_lastSeen b) div 1000000000"
        by (simp only: k_def div_add1_eq [of "t - bk_lastSeen b" "t1 - t"])
      then have "limit * int (k + (t1 - t) div 1000000000) \<le> limit * int ((t1 - bk_lastSeen b) div 1000000000)"
        using assms(1) by (intro mult_left_mono) simp_all
      then show ?thesis using True by (auto simp: b'_def algebra_simps)
    qed (simp add: b'_def)
    show ?thesis
    proof (cases "bk_tokens b' \<le> 0")
      case True
      have "int (allowed_of limit ip evs (fmupd ip b' m)) \<le> bk_tokens b' + limit * int ((t1 - bk_lastSeen b') div 1000000000)"
        by (rule Cons.IH) (use b' later srt in simp_all)
      then show ?thesis using sum True by (simp add: ev \<open>a = ip\<close> step)
    next
      case False
      let ?b = "b'\<lparr>bk_tokens := bk_tokens b' - 1\<rparr>"
      have "int (allowed_of limit ip evs (fmupd ip ?b m)) \<le> bk_tokens ?b + limit * int ((t1 - bk_lastSeen ?b) div 1000000000)"
        by (rule Cons.IH) (use b' False later srt in simp_all)
      then show ?thesis using sum False by (simp add: ev \<open>a = ip\<close> step)
    qed
  qed
qed (use assms(1) in simp)

text \<open>
  C29: the rate limit bounds every client. Starting from an empty table, whatever other clients do in between, of
  the requests of one address between its first one at \<open>t0\<close> and \<open>t1\<close> at most \<open>limit\<close> are allowed, and
  \<open>limit\<close> more for each whole second in between.
\<close>

theorem rate_limit_bound:
  assumes "0 < limit" "sorted (map fst ((t0, ip) # evs))" "\<forall>ev\<in>set evs. fst ev \<le> t1" "fmlookup m ip = None"
  shows "int (allowed_of limit ip ((t0, ip) # evs) m) \<le> limit * (1 + int ((t1 - t0) div 1000000000))"
proof -
  let ?m = "fmupd ip \<lparr>bk_tokens = limit - 1, bk_lastSeen = t0\<rparr> m"
  have "int (allowed_of limit ip evs ?m) \<le> bk_tokens \<lparr>bk_tokens = limit - 1, bk_lastSeen = t0\<rparr> +
      limit * int ((t1 - bk_lastSeen \<lparr>bk_tokens = limit - 1, bk_lastSeen = t0\<rparr>) div 1000000000)"
    by (rule allowed_bounded) (use assms in simp_all)
  moreover have "allow limit t0 ip m = (?m, True)" using assms(4) by (simp add: allow_def)
  ultimately show ?thesis by (simp add: algebra_simps)
qed

theorem rate_limit_bound_witness:
  "int (allowed_of 2 ''a'' [(5, ''a''), (6, ''a''), (6, ''b''), (7, ''a''), (8, ''a'')] fmempty) \<le> 2"
  using rate_limit_bound [of 2 5 "''a''" "[(6, ''a''), (6, ''b''), (7, ''a''), (8, ''a'')]" 8 fmempty] by simp

text \<open>
  a client that changes its \<open>X-Forwarded-For\<close> header is not limited. A request whose header names an
  address that was not seen before is let through the rate limit whatever the limit, the true address of
  the client and the requests it has made; and each such request adds an entry to the table, which is
  never cleaned.
\<close>

theorem forwarded_bypasses_limit:
  assumes "xff \<noteq> []" "fmlookup (sv_limiter sv) (TrimSpace (takeWhile (\<lambda>c. c \<noteq> CHR '','') xff)) = None"
    "0 < sv_PerIPRateLimit (sv_cfg sv)" "int (length body) \<le> sv_MaxBodyBytes (sv_cfg sv)"
    "handleRPC True xff addr now body sv s = Inr (sv', s', answer)"
  shows "fm_size (sv_limiter sv') = Suc (fm_size (sv_limiter sv)) \<and> (\<forall>code r. answer \<noteq> HttpError code r)"
proof -
  let ?ip = "TrimSpace (takeWhile (\<lambda>c. c \<noteq> CHR '','') xff)"
  have ip: "clientIP xff addr = ?ip" using assms(1) by (simp add: clientIP_def)
  let ?m = "fmupd ?ip \<lparr>bk_tokens = sv_PerIPRateLimit (sv_cfg sv) - 1, bk_lastSeen = now\<rparr> (sv_limiter sv)"
  have al: "allow (sv_PerIPRateLimit (sv_cfg sv)) now ?ip (sv_limiter sv) = (?m, True)"
    using assms(2) by (simp add: allow_def)
  have size: "fm_size ?m = Suc (fm_size (sv_limiter sv))" using assms(2) by (simp add: fm_size_upd)
  have r: "handleRPC True xff addr now body sv s =
      (let sv = sv\<lparr>sv_limiter := ?m\<rparr> in
       if TrimSpace body \<noteq> [] \<and> hd (TrimSpace body) = CHR ''[''
       then res_map (\<lambda>(s, r). (sv, s, case r of None \<Rightarrow> HttpStatus 204 | Some rs \<Rightarrow> HttpBatch rs)) (HandleBatch (sv_dispatcher sv) body s)
       else res_map (\<lambda>(s, r). (sv, s, case r of None \<Rightarrow> HttpStatus 204 | Some r \<Rightarrow> HttpOne r)) (Handle (sv_dispatcher sv) body s))"
    using assms(3,4) by (simp add: handleRPC_def ip al Let_def)
  from r have "sv' = sv\<lparr>sv_limiter := ?m\<rparr> \<and> (\<forall>code r. answer \<noteq> HttpError code r)"
    unfolding assms(5) Let_def
    by (cases "TrimSpace body \<noteq> [] \<and> hd (TrimSpace body) = CHR ''[''")
      (simp_all only: if_True if_False simp_thms eq_commute [of "Inr (sv', s', answer)"], auto simp: res_map_Inr_iff split: option.splits)
  then show ?thesis using size by simp
qed

section \<open>A sample server\<close>

definition sample_spec :: "nat method_spec" where
  "sample_spec = \<lparr>md_Name = ''eth_chainId'', md_Namespace = [], md_Params = [''a''], md_MaxParams = 0,
     md_Handler = Some (\<lambda>params s. Inr (s + 1, Inr (Some (JStr ''0x7'')))), md_RequireLive = False\<rparr>"

definition sample_dispatcher :: "nat dispatcher" where
  "sample_dispatcher = NewDispatcher \<lparr>rg_methods = fmupd ''eth_chainId'' (full_spec sample_spec) fmempty,
     rg_byNS = fmupd ''eth'' [''eth_chainId''] fmempty\<rparr>"

definition sample_request :: rpc_request where
  "sample_request = \<lparr>rq_JSONRPC = ''2.0'', rq_Method = ''eth_chainId'', rq_Params = [], rq_ID = ''1''\<rparr>"

lemma sample_handleOne:
  "rq_JSONRPC req = [] \<or> rq_JSONRPC req = ''2.0'' \<Longrightarrow> rq_Method req = ''eth_chainId'' \<Longrightarrow> rq_Params req = [] \<Longrightarrow>
   handleOne sample_dispatcher req s = Inr (s + 1, \<lparr>rs_Result = Some (JStr ''0x7''), rs_Error = None, rs_ID = []\<rparr>)"
  by (auto simp: handleOne_def sample_dispatcher_def NewDispatcher_def Lookup_def full_spec_def
      sample_spec_def ParseParams_def)

theorem handleOne_outcome_witness:
  "\<exists>s' resp. handleOne sample_dispatcher (sample_request\<lparr>rq_ID := ''1''\<rparr>) 3 = Inr (s', resp) \<and> s' = 4 \<and>
    handleOne sample_dispatcher (sample_request\<lparr>rq_Method := ''eth_mining''\<rparr>) 3 = Inr (3, error_response CodeMethodNotFound ''no such method'')"
proof -
  have e: "handleOne sample_dispatcher (sample_request\<lparr>rq_Method := ''eth_mining''\<rparr>) 3 =
      Inr (3, error_response CodeMethodNotFound ''no such method'')"
    by (simp add: handleOne_def sample_dispatcher_def sample_request_def NewDispatcher_def Lookup_def)
  have none: "Lookup ''eth_mining'' (ds_registry sample_dispatcher) = None"
    by (simp add: sample_dispatcher_def NewDispatcher_def Lookup_def)
  have "(3 :: nat) = 3 \<and> rs_Result (error_response CodeMethodNotFound ''no such method'') = None"
    using handleOne_outcome [OF e] by (simp add: sample_request_def none)
  with e show ?thesis using sample_handleOne [of "sample_request\<lparr>rq_ID := ''1''\<rparr>" 3] by (simp add: sample_request_def)
qed

definition sample_batch :: string where
  "sample_batch = ''[{'' @ quoted ''method'' @ '':'' @ quoted ''eth_chainId'' @ '','' @ quoted ''id'' @ '':7},{'' @
     quoted ''method'' @ '':'' @ quoted ''eth_chainId'' @ ''}]''"

lemma sample_batch_requests:
  "unmarshal_requests sample_batch = Inr [\<lparr>rq_JSONRPC = [], rq_Method = ''eth_chainId'', rq_Params = [], rq_ID = ''7''\<rparr>,
     \<lparr>rq_JSONRPC = [], rq_Method = ''eth_chainId'', rq_Params = [], rq_ID = []\<rparr>]"
  by code_simp

lemma sample_batch_trimmed: "TrimSpace sample_batch = CHR ''['' # tl sample_batch"
  by code_simp

lemma sample_batch_each:
  "each (batch_step sample_dispatcher) [\<lparr>rq_JSONRPC = [], rq_Method = ''eth_chainId'', rq_Params = [], rq_ID = ''7''\<rparr>,
     \<lparr>rq_JSONRPC = [], rq_Method = ''eth_chainId'', rq_Params = [], rq_ID = []\<rparr>] (3, []) =
   Inr (5, [\<lparr>rs_Result = Some (JStr ''0x7''), rs_Error = None, rs_ID = ''7''\<rparr>,
     \<lparr>rs_Result = Some (JStr ''0x7''), rs_Error = None, rs_ID = []\<rparr>])"
  by (simp add: batch_step_def sample_handleOne)

lemma sample_batch_size: "ds_MaxBatchSize sample_dispatcher = 10"
  by (simp add: sample_dispatcher_def NewDispatcher_def)

theorem HandleBatch_answers_witness:
  "\<exists>s' rs. HandleBatch sample_dispatcher sample_batch 3 = Inr (s', Some rs) \<and> map rs_ID rs = [''7'', []]"
proof -
  have "HandleBatch sample_dispatcher sample_batch 3 =
      res_map (\<lambda>(s, out). (s, if out = [] then None else Some out))
        (each (batch_step sample_dispatcher) [\<lparr>rq_JSONRPC = [], rq_Method = ''eth_chainId'', rq_Params = [], rq_ID = ''7''\<rparr>,
          \<lparr>rq_JSONRPC = [], rq_Method = ''eth_chainId'', rq_Params = [], rq_ID = []\<rparr>] (3, []))"
    unfolding HandleBatch_def Let_def sample_batch_requests
    by (subst sample_batch_trimmed, subst sample_batch_trimmed) (simp add: sample_batch_size del: each.simps)
  then have "\<exists>s' r. HandleBatch sample_dispatcher sample_batch 3 = Inr (s', r)"
    unfolding sample_batch_each by simp
  then obtain s' r where b: "HandleBatch sample_dispatcher sample_batch 3 = Inr (s', r)" by blast
  from HandleBatch_answers [OF sample_batch_trimmed b]
  have "\<exists>rs. r = Some rs \<and> map rs_ID rs = [''7'', []]"
    unfolding sample_batch_requests sample_batch_size by simp
  then show ?thesis by (elim exE conjE, intro exI conjI) (use b in simp_all)
qed

theorem forwarded_bypasses_limit_witness:
  "\<exists>sv' s' answer. handleRPC True ''9.9.9.9'' ''1.2.3.4:5'' 10 ''?'' (NewServer DefaultServerConfig sample_dispatcher) 3 =
     Inr (sv', s', answer) \<and> fm_size (sv_limiter sv') = 1"
proof -
  let ?sv = "NewServer DefaultServerConfig sample_dispatcher"
  have xff: "takeWhile (\<lambda>c. c \<noteq> CHR '','') ''9.9.9.9'' = ''9.9.9.9''" by simp
  have "unmarshal_request ''?'' = Inl ErrJSON" by code_simp
  moreover have "TrimSpace ''?'' = ''?''" by code_simp
  moreover have "TrimSpace ''9.9.9.9'' = ''9.9.9.9''" by code_simp
  ultimately have "\<exists>sv' s' answer. handleRPC True ''9.9.9.9'' ''1.2.3.4:5'' 10 ''?'' ?sv 3 = Inr (sv', s', answer)"
    by (simp add: handleRPC_def NewServer_def DefaultServerConfig_def Let_def clientIP_def allow_def Handle_def)
  then obtain sv' s' answer where h: "handleRPC True ''9.9.9.9'' ''1.2.3.4:5'' 10 ''?'' ?sv 3 = Inr (sv', s', answer)" by blast
  from forwarded_bypasses_limit [OF _ _ _ _ h] show ?thesis using h
    by (simp add: NewServer_def DefaultServerConfig_def)
qed

end
