(* ===== verification/Chain.thy ===== *)
theory Chain
  imports Genesis
begin

text \<open>
  The chain of \<open>chain/chain.go\<close>: opening it, initialising it from a genesis configuration, reading
  and appending blocks. The store is the memory implementation of \<open>KVStore\<close>, of which the proofs use
  only the contract (the locale \<open>kvstore\<close>). Operations that change the chain return it; \<open>AppendBlock\<close>
  also returns the block, whose transactions get their hashes cached.
\<close>

section \<open>State\<close>

record head =
  hd_Height :: height
  hd_Hash :: hash
  hd_StateRoot :: hash

record chain =
  c_store :: memory_store
  c_ChainID :: uint64
  c_head :: head
  c_mgr :: "manager option"

definition empty_head :: head where
  "empty_head = \<lparr>hd_Height = 0, hd_Hash = 0, hd_StateRoot = 0\<rparr>"

definition SchemaVersion :: uint32 where
  "SchemaVersion = 1"

section \<open>Keys and records\<close>

definition blockKeyByHeight :: "height \<Rightarrow> bytes" where
  "blockKeyByHeight h = [SubBlockByHeight] @ Uint64BE h"

definition blockKeyByHash :: "hash \<Rightarrow> bytes" where
  "blockKeyByHash h = [SubBlockByHash] @ word_bytes h"

definition receiptKey :: "height \<Rightarrow> uint32 \<Rightarrow> bytes" where
  "receiptKey h i = Uint64BE h @ Uint32BE i"

definition head_bytes :: "head \<Rightarrow> bytes" where
  "head_bytes h = Uint64BE (hd_Height h) @ word_bytes (hd_Hash h) @ word_bytes (hd_StateRoot h)"

definition writeHeadToBatch :: "batch \<Rightarrow> head \<Rightarrow> batch res" where
  "writeHeadToBatch b h = batch_Put b NSMeta KeyChainTip (head_bytes h)"

definition loadHead :: "memory_store \<Rightarrow> head option res" where
  "loadHead st =
     and_then (mem_Get st NSMeta KeyChainTip) (\<lambda>d.
       case d of
         None \<Rightarrow> Inr None
       | Some data \<Rightarrow>
           if length data \<noteq> 8 + 32 + 32 then Inl (ErrOther ''head length'')
           else Inr (Some \<lparr>hd_Height = bytes_word (take 8 data),
                           hd_Hash = bytes_word (take 32 (drop 8 data)),
                           hd_StateRoot = bytes_word (take 32 (drop 40 data))\<rparr>))"

definition index_tx :: "keccak \<Rightarrow> height \<Rightarrow> nat \<times> transaction \<Rightarrow> batch \<Rightarrow> batch res" where
  "index_tx kec h itx batch =
     batch_Put batch NSTxIndex (word_bytes (fst (tx_Hash kec (snd itx))))
       (word_bytes h @ word_bytes (word_of_nat (fst itx) :: uint32))"

definition writeBlockToBatch :: "keccak \<Rightarrow> batch \<Rightarrow> block \<Rightarrow> batch res" where
  "writeBlockToBatch kec batch blk =
     (let h = b_Header blk in
      and_then (block_Encode blk) (\<lambda>enc.
      and_then (header_Hash kec h) (\<lambda>hash.
      and_then (batch_Put batch NSBlocks (blockKeyByHeight (h_Height h)) enc) (\<lambda>batch.
      and_then (batch_Put batch NSBlocks (blockKeyByHash hash) (Uint64BE (h_Height h))) (\<lambda>batch.
      each (index_tx kec (h_Height h)) (enumerate 0 (b_Transactions blk)) batch)))))"

section \<open>Opening\<close>

definition chain_New :: "memory_store \<Rightarrow> uint64 \<Rightarrow> chain res" where
  "chain_New store chainID =
     and_then (mem_Get store NSMeta KeySchemaVersion) (\<lambda>v.
     and_then
       (case v of
          None \<Rightarrow> Inr ()
        | Some b \<Rightarrow> if length b < 4 then Inl GoPanic
                   else if (bytes_word (take 4 b) :: uint32) \<noteq> SchemaVersion then Inl ErrSchemaMismatch
                   else Inr ()) (\<lambda>_.
     and_then (loadHead store) (\<lambda>h.
     Inr \<lparr>c_store = store, c_ChainID = chainID,
          c_head = (case h of None \<Rightarrow> empty_head | Some h \<Rightarrow> h), c_mgr = None\<rparr>)))"

section \<open>Reading\<close>

definition HasGenesis :: "chain \<Rightarrow> bool" where
  "HasGenesis c = (case mem_Get (c_store c) NSMeta KeyGenesisHash of Inl _ \<Rightarrow> False | Inr v \<Rightarrow> v \<noteq> None)"

definition GetBlock :: "chain \<Rightarrow> height \<Rightarrow> block res" where
  "GetBlock c h =
     (if \<not> HasGenesis c then Inl ErrNoGenesis
      else and_then (mem_Get (c_store c) NSBlocks (blockKeyByHeight h)) (\<lambda>d.
        case d of None \<Rightarrow> Inl ErrNotFound | Some data \<Rightarrow> DecodeBlock data))"

definition HeightOf :: "chain \<Rightarrow> hash \<Rightarrow> height res" where
  "HeightOf c h =
     and_then (mem_Get (c_store c) NSBlocks (blockKeyByHash h)) (\<lambda>d.
       case d of
         None \<Rightarrow> Inl ErrNotFound
       | Some data \<Rightarrow> if length data \<noteq> 8 then Inl (ErrOther ''height index'') else Inr (bytes_word data))"

definition GetBlockByHash :: "chain \<Rightarrow> hash \<Rightarrow> block res" where
  "GetBlockByHash c h = and_then (HeightOf c h) (GetBlock c)"

definition GetHeader :: "chain \<Rightarrow> height \<Rightarrow> header res" where
  "GetHeader c h = res_map b_Header (GetBlock c h)"

definition GetReceipt :: "chain \<Rightarrow> height \<Rightarrow> uint32 \<Rightarrow> receipt res" where
  "GetReceipt c h i =
     and_then (mem_Get (c_store c) NSReceipts (receiptKey h i)) (\<lambda>d.
       case d of None \<Rightarrow> Inl ErrNotFound | Some data \<Rightarrow> DecodeReceipt data)"

definition GetReceipts :: "chain \<Rightarrow> height \<Rightarrow> receipt list res" where
  "GetReceipts c h =
     and_then (GetBlock c h) (\<lambda>blk.
       each (\<lambda>i out. and_then (GetReceipt c h (word_of_nat i)) (\<lambda>r. Inr (out @ [r])))
         [0..<length (b_Transactions blk)] [])"

definition FindTx :: "chain \<Rightarrow> hash \<Rightarrow> (height \<times> uint32) res" where
  "FindTx c h =
     and_then (mem_Get (c_store c) NSTxIndex (word_bytes h)) (\<lambda>d.
       case d of
         None \<Rightarrow> Inl ErrNotFound
       | Some data \<Rightarrow>
           if length data \<noteq> 12 then Inl (ErrOther ''tx index'')
           else Inr (bytes_word (take 8 data), bytes_word (drop 8 data)))"

section \<open>Initialising\<close>

text \<open>What is there already: nothing (\<open>False\<close>), the same genesis (\<open>True\<close>), or an error.\<close>

definition check_stored_genesis :: "memory_store \<Rightarrow> hash \<Rightarrow> bool res" where
  "check_stored_genesis st gHash =
     and_then (mem_Get st NSMeta KeyGenesisHash) (\<lambda>d.
       case d of
         None \<Rightarrow> Inr False
       | Some stored \<Rightarrow>
           if length stored \<noteq> HashLen then Inl ErrGenesisMismatch
           else if bytes_word stored \<noteq> gHash then Inl ErrGenesisMismatch
           else Inr True)"

definition write_genesis :: "keccak \<Rightarrow> chain \<Rightarrow> hash \<Rightarrow> block \<Rightarrow> memory_store res" where
  "write_genesis kec c gHash blk =
     (let h = b_Header blk in
      if h_ChainID h \<noteq> c_ChainID c \<and> c_ChainID c \<noteq> 0 then Inl ErrBadChainID
      else
        and_then (writeBlockToBatch kec NewBatch blk) (\<lambda>batch.
        and_then (batch_Put batch NSMeta KeyGenesisHash (word_bytes gHash)) (\<lambda>batch.
        and_then (batch_Put batch NSMeta KeySchemaVersion (word_bytes SchemaVersion)) (\<lambda>batch.
        and_then (writeHeadToBatch batch
            \<lparr>hd_Height = 0, hd_Hash = gHash, hd_StateRoot = h_StateRoot h\<rparr>) (\<lambda>batch.
        mem_Apply (c_store c) batch)))))"

definition InitGenesis :: "keccak \<Rightarrow> chain \<Rightarrow> genesis \<Rightarrow> chain \<times> unit res" where
  "InitGenesis kec c g0 =
     (case and_then (Validate g0) (\<lambda>g. and_then (genesis_Hash kec g) (\<lambda>gHash.
            and_then (check_stored_genesis (c_store c) gHash) (\<lambda>present.
            if present then Inr None
            else and_then (BuildBlockWithManager kec g) (\<lambda>(blk, mgr). Inr (Some (gHash, blk, mgr)))))) of
        Inl e \<Rightarrow> (c, Inl e)
      | Inr None \<Rightarrow> (c, Inr ())
      | Inr (Some (gHash, blk, mgr)) \<Rightarrow>
          let c = c\<lparr>c_mgr := Some mgr\<rparr> in
          case write_genesis kec c gHash blk of
            Inl e \<Rightarrow> (c, Inl e)
          | Inr st \<Rightarrow>
              (c\<lparr>c_store := st,
                 c_head := \<lparr>hd_Height = 0, hd_Hash = gHash, hd_StateRoot = h_StateRoot (b_Header blk)\<rparr>\<rparr>,
               Inr ()))"

section \<open>Appending\<close>

definition put_receipt :: "keccak \<Rightarrow> height \<Rightarrow> nat \<times> receipt \<Rightarrow> batch \<Rightarrow> batch res" where
  "put_receipt kec h ir batch =
     and_then (receipt_Encode kec (snd ir)) (\<lambda>enc.
     batch_Put batch NSReceipts (receiptKey h (word_of_nat (fst ir))) enc)"

definition append_checks :: "keccak \<Rightarrow> chain \<Rightarrow> block \<Rightarrow> unit res" where
  "append_checks kec c blk =
     (let h = b_Header blk in
      if \<not> HasGenesis c then Inl ErrNoGenesis
      else if c_ChainID c \<noteq> 0 \<and> h_ChainID h \<noteq> c_ChainID c then Inl ErrBadChainID
      else if h_Height h \<noteq> hd_Height (c_head c) + 1 then Inl ErrBadHeight
      else if h_PrevHash h \<noteq> hd_Hash (c_head c) then Inl ErrBadParent
      else Inr ())"

text \<open>From the computed transaction root on, with the caches filled.\<close>

definition append_commit :: "keccak \<Rightarrow> chain \<Rightarrow> block \<Rightarrow> receipt list \<Rightarrow> chain res" where
  "append_commit kec c blk receipts =
     (let h = b_Header blk in
      case GetBlock c (h_Height h) of
        Inr existing \<Rightarrow>
          if value_or_zero (header_Hash kec (b_Header existing)) \<noteq> value_or_zero (header_Hash kec h)
          then Inl (ErrOther ''fork'') else Inr c
      | Inl _ \<Rightarrow>
          and_then (header_Hash kec h) (\<lambda>hash.
          and_then (writeBlockToBatch kec NewBatch blk) (\<lambda>batch.
          and_then (each (put_receipt kec (h_Height h)) (enumerate 0 receipts) batch) (\<lambda>batch.
          let tip = \<lparr>hd_Height = h_Height h, hd_Hash = hash, hd_StateRoot = h_StateRoot h\<rparr> in
          and_then (writeHeadToBatch batch tip) (\<lambda>batch.
          and_then (mem_Apply (c_store c) batch) (\<lambda>st.
          Inr (c\<lparr>c_store := st, c_head := tip\<rparr>)))))))"

definition AppendBlock ::
  "keccak \<Rightarrow> chain \<Rightarrow> block option \<Rightarrow> receipt list \<Rightarrow> chain \<times> block option \<times> unit res" where
  "AppendBlock kec c blk receipts =
     (case blk of
        None \<Rightarrow> (c, None, Inl ErrCodec)
      | Some blk \<Rightarrow>
          case append_checks kec c blk of
            Inl e \<Rightarrow> (c, Some blk, Inl e)
          | Inr _ \<Rightarrow>
              let (computed, blk') = ComputeTxRoot kec blk in
              if computed \<noteq> h_TxRoot (b_Header blk) then (c, Some blk', Inl ErrCodec)
              else case append_commit kec c blk' receipts of
                     Inl e \<Rightarrow> (c, Some blk', Inl e)
                   | Inr c' \<Rightarrow> (c', Some blk', Inr ()))"

section \<open>What the batches write\<close>

lemma batch_effect_Put:
  "batch_Put b ns' k' v = Inr b' \<Longrightarrow>
   batch_effect b' ns k = (if ns' = ns \<and> k' = k then Some (Some v) else batch_effect b ns k)"
  by (auto simp: batch_Put_def split: if_splits)

lemma key_nonempty [simp]:
  "blockKeyByHeight h \<noteq> []" "blockKeyByHash x \<noteq> []" "receiptKey h i \<noteq> []"
  "KeyChainTip \<noteq> []" "KeyGenesisHash \<noteq> []" "KeySchemaVersion \<noteq> []"
  using length_UintBE(3) [of h]
  by (auto simp: blockKeyByHeight_def blockKeyByHash_def receiptKey_def KeyChainTip_def KeyGenesisHash_def
      KeySchemaVersion_def str_bytes_def simp del: length_UintBE)

lemma keys_distinct [simp]:
  "blockKeyByHeight h = blockKeyByHeight h' \<longleftrightarrow> h = h'"
  "blockKeyByHash x = blockKeyByHash x' \<longleftrightarrow> x = x'"
  "blockKeyByHeight h \<noteq> blockKeyByHash x" "blockKeyByHash x \<noteq> blockKeyByHeight h"
  "KeyChainTip \<noteq> KeyGenesisHash" "KeyGenesisHash \<noteq> KeyChainTip"
  "KeyChainTip \<noteq> KeySchemaVersion" "KeySchemaVersion \<noteq> KeyChainTip"
  "KeySchemaVersion \<noteq> KeyGenesisHash" "KeyGenesisHash \<noteq> KeySchemaVersion"
  by (auto simp: blockKeyByHeight_def blockKeyByHash_def ns_defs KeyChainTip_def KeyGenesisHash_def
      KeySchemaVersion_def str_bytes_def)

lemma ns_distinct [simp]:
  "NSBlocks \<noteq> NSTxIndex" "NSMeta \<noteq> NSTxIndex" "NSBlocks \<noteq> NSReceipts" "NSMeta \<noteq> NSReceipts"
  "NSBlocks \<noteq> NSMeta" "NSMeta \<noteq> NSBlocks"
  by (simp_all add: ns_defs)

lemma index_txs_effect:
  assumes "each (index_tx kec h) itxs b = Inr b'" "ns \<noteq> NSTxIndex"
  shows "batch_effect b' ns k = batch_effect b ns k"
  by (rule each_invariant [where I = "\<lambda>c. batch_effect c ns k = batch_effect b ns k", OF _ _ assms(1)])
    (use assms(2) in \<open>auto simp: index_tx_def batch_effect_Put\<close>)

lemma put_receipts_effect:
  assumes "each (put_receipt kec h) irs b = Inr b'" "ns \<noteq> NSReceipts"
  shows "batch_effect b' ns k = batch_effect b ns k"
  by (rule each_invariant [where I = "\<lambda>c. batch_effect c ns k = batch_effect b ns k", OF _ _ assms(1)])
    (use assms(2) in \<open>auto simp: put_receipt_def and_then_Inr_iff batch_effect_Put\<close>)

lemma writeBlock_effect:
  assumes "writeBlockToBatch kec b blk = Inr b'"
  obtains enc hash where "block_Encode blk = Inr enc" "header_Hash kec (b_Header blk) = Inr hash"
    "\<And>ns k. ns \<noteq> NSTxIndex \<Longrightarrow> batch_effect b' ns k =
       (if ns = NSBlocks \<and> k = blockKeyByHash hash then Some (Some (Uint64BE (h_Height (b_Header blk))))
        else if ns = NSBlocks \<and> k = blockKeyByHeight (h_Height (b_Header blk)) then Some (Some enc)
        else batch_effect b ns k)"
proof -
  obtain enc hash b1 b2 where *: "block_Encode blk = Inr enc" "header_Hash kec (b_Header blk) = Inr hash"
    "batch_Put b NSBlocks (blockKeyByHeight (h_Height (b_Header blk))) enc = Inr b1"
    "batch_Put b1 NSBlocks (blockKeyByHash hash) (Uint64BE (h_Height (b_Header blk))) = Inr b2"
    "each (index_tx kec (h_Height (b_Header blk))) (enumerate 0 (b_Transactions blk)) b2 = Inr b'"
    using assms by (auto simp: writeBlockToBatch_def Let_def and_then_Inr_iff)
  show ?thesis
    by (rule that [OF *(1,2)])
      (auto simp: index_txs_effect [OF *(5)] batch_effect_Put [OF *(4)] batch_effect_Put [OF *(3)])
qed

lemma head_bytes_read:
  "\<lparr>hd_Height = bytes_word (take 8 (head_bytes h)), hd_Hash = bytes_word (take 32 (drop 8 (head_bytes h))),
    hd_StateRoot = bytes_word (take 32 (drop 40 (head_bytes h)))\<rparr> = h"
  by (simp add: head_bytes_def Uint64BE_def)

lemma loadHead_head:
  "mem_Get st NSMeta KeyChainTip = Inr (Some (head_bytes h)) \<Longrightarrow> loadHead st = Inr (Some h)"
  using head_bytes_read [of h] by (simp add: loadHead_def head_bytes_def)

section \<open>The abstract chain\<close>

text \<open>
  A chain is the list of the blocks appended to it. What a block reads back as is decided by the codec: the
  header always survives but for two fields (\<open>stored\<close>), the transactions may come back changed or not at all.
\<close>

definition readback :: "block \<Rightarrow> block res" where
  "readback b = and_then (block_Encode b) DecodeBlock"

definition stored :: "block \<Rightarrow> block" where
  "stored b = b\<lparr>b_Header := (b_Header b)\<lparr>h_Version := 0, h_Round := 0\<rparr>\<rparr>"

lemma stored_simps [simp]:
  "h_Height (b_Header (stored b)) = h_Height (b_Header b)"
  "h_PrevHash (b_Header (stored b)) = h_PrevHash (b_Header b)"
  "h_StateRoot (b_Header (stored b)) = h_StateRoot (b_Header b)"
  by (simp_all add: stored_def)

lemma header_Hash_stored: "header_Hash kec (b_Header (stored b)) = header_Hash kec (b_Header b)"
  by (simp add: stored_def header_Hash_def header_Encode_def version_bytes round_bytes
      version_bytes [of 0, simplified] round_bytes [of 0, simplified])

lemma readback_stored:
  "is_ok (block_Encode b) \<Longrightarrow> list_all tx_ok (b_Transactions b) \<Longrightarrow> readback b = Inr (stored b)"
  using DecodeBlock_Encode_zero [of b] by (auto simp: readback_def stored_def is_ok_iff)

lemma readback_header:
  assumes "readback b = Inr b'"
  shows "b_Header b' = b_Header (stored b)"
proof -
  obtain enc where enc: "block_Encode b = Inr enc" and dec: "DecodeBlock enc = Inr b'"
    using assms by (auto simp: readback_def and_then_Inr_iff)
  show ?thesis by (rule DecodeBlock_body [OF enc]) (use dec in \<open>auto simp: and_then_Inr_iff stored_def dest!: sym [of "Inr b'"]\<close>)
qed

lemma read_items_error:
  "length rest < 2 ^ 32 \<Longrightarrow> read_items dec n rest = Inl e \<Longrightarrow> e = ErrCodec"
proof (induction n arbitrary: rest)
  case (Suc n)
  have "unat (word_of_nat (length rest - 4) :: uint32) = length rest - 4" using Suc.prems(1) by (intro uint32_len) simp
  moreover have "read_items dec n (drop k rest) = Inl e \<Longrightarrow> e = ErrCodec" for k
    using Suc.IH [of "drop k rest"] Suc.prems(1) by simp
  ultimately show ?case using Suc.prems
    by (auto simp: Let_def split_at_def word_less_nat_alt not_less and_then_Inl_iff split: if_splits sum.splits)
qed simp

lemma readback_no_panic:
  assumes "is_ok (block_Encode b)"
  shows "readback b \<noteq> Inl GoPanic"
proof -
  obtain enc where enc: "block_Encode b = Inr enc" using assms by (auto simp: is_ok_iff)
  show ?thesis
  proof (rule DecodeBlock_body [OF enc])
    fix body assume b: "length body \<le> MaxBlockSize" "DecodeBlock enc = and_then (decodeBody body) (\<lambda>txs.
       Inr \<lparr>b_Header = (b_Header b)\<lparr>h_Version := 0, h_Round := 0\<rparr>, b_Transactions = txs\<rparr>)"
    have "length (drop 4 body) < 2 ^ 32" using b(1) by (simp add: size_consts)
    from read_items_error [OF this, of DecodeTx "unat (getLeUint32 (take 4 body))" GoPanic]
    have "decodeBody body \<noteq> Inl GoPanic" by (auto simp: decodeBody_def Let_def and_then_Inl_iff split: if_splits)
    then show ?thesis using b(2) by (auto simp: readback_def enc and_then_Inl_iff)
  qed
qed

text \<open>The blocks of a chain, from genesis to head, each naming the hash of the one before.\<close>

definition links :: "keccak \<Rightarrow> block list \<Rightarrow> bool" where
  "links kec bs \<longleftrightarrow>
     (\<forall>i<length bs. unat (h_Height (b_Header (bs ! i))) = i) \<and>
     (\<forall>i. Suc i < length bs \<longrightarrow> header_Hash kec (b_Header (bs ! i)) = Inr (h_PrevHash (b_Header (bs ! Suc i))))"

definition represents :: "keccak \<Rightarrow> chain \<Rightarrow> block list \<Rightarrow> bool" where
  "represents kec c bs \<longleftrightarrow>
     mem_open (c_store c) \<and> HasGenesis c \<and> loadHead (c_store c) = Inr (Some (c_head c)) \<and>
     mem_Get (c_store c) NSMeta KeySchemaVersion = Inr (Some (word_bytes SchemaVersion)) \<and>
     bs \<noteq> [] \<and> length bs = unat (hd_Height (c_head c)) + 1 \<and> links kec bs \<and>
     header_Hash kec (b_Header (last bs)) = Inr (hd_Hash (c_head c)) \<and>
     h_StateRoot (b_Header (last bs)) = hd_StateRoot (c_head c) \<and>
     list_all (\<lambda>b. is_ok (block_Encode b)) bs \<and> is_ok (readback (hd bs)) \<and>
     (\<forall>h. if unat h < length bs then GetBlock c h = readback (bs ! unat h)
          else mem_Get (c_store c) NSBlocks (blockKeyByHeight h) = Inr None)"

lemma links_snoc:
  assumes "links kec bs" "bs \<noteq> []" "unat (h_Height (b_Header b)) = length bs"
    "header_Hash kec (b_Header (last bs)) = Inr (h_PrevHash (b_Header b))"
  shows "links kec (bs @ [b])"
proof -
  have "header_Hash kec (b_Header ((bs @ [b]) ! i)) = Inr (h_PrevHash (b_Header ((bs @ [b]) ! Suc i)))"
    if i: "Suc i < length (bs @ [b])" for i
  proof (cases "Suc i < length bs")
    case True
    then show ?thesis using assms(1) by (simp add: links_def nth_append)
  next
    case False
    then have "i = length bs - 1" "i < length bs" using i assms(2) by auto
    then show ?thesis using assms(2,4) by (simp add: nth_append last_conv_nth)
  qed
  then show ?thesis using assms(1,3) by (auto simp: links_def nth_append less_Suc_eq)
qed

lemma GetBlock_unchanged:
  assumes "mem_Apply (c_store c) b = Inr st" "HasGenesis c" "batch_effect b NSMeta KeyGenesisHash = None"
    "batch_effect b NSBlocks (blockKeyByHeight h) = None"
  shows "GetBlock (c\<lparr>c_store := st, c_head := tip\<rparr>) h = GetBlock c h"
  using assms mem.get_untouched [OF assms(1,3)] mem.get_untouched [OF assms(1,4)]
  by (simp add: GetBlock_def HasGenesis_def)

lemma GetBlock_written:
  assumes "mem_Apply (c_store c) b = Inr st" "HasGenesis c" "batch_effect b NSMeta KeyGenesisHash = None"
    "batch_effect b NSBlocks (blockKeyByHeight h) = Some (Some enc)"
  shows "GetBlock (c\<lparr>c_store := st, c_head := tip\<rparr>) h = DecodeBlock enc"
  using assms mem.get_untouched [OF assms(1,3)] mem.get_written [OF assms(1) _ assms(4)]
  by (simp add: GetBlock_def HasGenesis_def)

section \<open>Appending refines extending the list\<close>

text \<open>The transactions as they are stored, with their hashes cached, decode.\<close>

definition cached :: "keccak \<Rightarrow> block \<Rightarrow> block" where
  "cached kec b = snd (ComputeTxRoot kec b)"

lemma cached_header [simp]: "b_Header (cached kec b) = b_Header b"
  by (simp add: cached_def ComputeTxRoot_def)

lemma AppendBlock_ok:
  assumes "AppendBlock kec c (Some blk) receipts = (c', blk', Inr ())"
  shows "append_checks kec c blk = Inr () \<and> fst (ComputeTxRoot kec blk) = h_TxRoot (b_Header blk)
    \<and> append_commit kec c (cached kec blk) receipts = Inr c' \<and> blk' = Some (cached kec blk)"
  using assms by (auto simp: AppendBlock_def cached_def split: sum.splits prod.splits if_splits)

lemma AppendBlock_err:
  "AppendBlock kec c blk receipts = (c', blk', Inl e) \<Longrightarrow> c' = c"
  by (auto simp: AppendBlock_def split: sum.splits prod.splits if_splits option.splits)

lemma append_checks_ok:
  "append_checks kec c blk = Inr () \<longleftrightarrow> HasGenesis c \<and> (c_ChainID c \<noteq> 0 \<longrightarrow> h_ChainID (b_Header blk) = c_ChainID c)
     \<and> h_Height (b_Header blk) = hd_Height (c_head c) + 1 \<and> h_PrevHash (b_Header blk) = hd_Hash (c_head c)"
  by (auto simp: append_checks_def Let_def)

lemma next_height:
  "unat (h :: height) < 2 ^ 64 - 1 \<Longrightarrow> unat (h + 1) = unat h + 1"
  by (simp add: unat_word_ariths)

text \<open>What appending a new block writes.\<close>

lemma append_commit_effect:
  assumes com: "append_commit kec c blk receipts = Inr c'" and nf: "GetBlock c (h_Height (b_Header blk)) = Inl e"
  obtains hash enc b3 st where "header_Hash kec (b_Header blk) = Inr hash" "block_Encode blk = Inr enc"
    "mem_Apply (c_store c) b3 = Inr st"
    "c' = c\<lparr>c_store := st,
      c_head := \<lparr>hd_Height = h_Height (b_Header blk), hd_Hash = hash, hd_StateRoot = h_StateRoot (b_Header blk)\<rparr>\<rparr>"
    "batch_effect b3 NSMeta KeyChainTip = Some (Some (head_bytes
      \<lparr>hd_Height = h_Height (b_Header blk), hd_Hash = hash, hd_StateRoot = h_StateRoot (b_Header blk)\<rparr>))"
    "batch_effect b3 NSMeta KeyGenesisHash = None" "batch_effect b3 NSMeta KeySchemaVersion = None"
    "\<And>h. batch_effect b3 NSBlocks (blockKeyByHeight h) = (if h = h_Height (b_Header blk) then Some (Some enc) else None)"
proof -
  let ?h = "h_Height (b_Header blk)"
  obtain hash b1 b2 b3 st where hash: "header_Hash kec (b_Header blk) = Inr hash"
    and b1: "writeBlockToBatch kec NewBatch blk = Inr b1"
    and b2: "each (put_receipt kec ?h) (enumerate 0 receipts) b1 = Inr b2"
    and b3: "writeHeadToBatch b2 \<lparr>hd_Height = ?h, hd_Hash = hash, hd_StateRoot = h_StateRoot (b_Header blk)\<rparr> = Inr b3"
    and st: "mem_Apply (c_store c) b3 = Inr st"
    and c': "c' = c\<lparr>c_store := st,
      c_head := \<lparr>hd_Height = ?h, hd_Hash = hash, hd_StateRoot = h_StateRoot (b_Header blk)\<rparr>\<rparr>"
    using com nf by (auto simp: append_commit_def Let_def and_then_Inr_iff)
  let ?tip = "\<lparr>hd_Height = ?h, hd_Hash = hash, hd_StateRoot = h_StateRoot (b_Header blk)\<rparr>"
  obtain enc hash' where enc: "block_Encode blk = Inr enc" "header_Hash kec (b_Header blk) = Inr hash'"
    and eff1: "\<And>ns k. ns \<noteq> NSTxIndex \<Longrightarrow> batch_effect b1 ns k =
       (if ns = NSBlocks \<and> k = blockKeyByHash hash' then Some (Some (Uint64BE (h_Height (b_Header blk))))
        else if ns = NSBlocks \<and> k = blockKeyByHeight (h_Height (b_Header blk)) then Some (Some enc)
        else batch_effect NewBatch ns k)"
    using writeBlock_effect [OF b1] by blast
  have eff: "batch_effect b3 ns k = (if ns = NSMeta \<and> k = KeyChainTip then Some (Some (head_bytes ?tip))
      else batch_effect b1 ns k)" if "ns \<noteq> NSReceipts" for ns k
    using batch_effect_Put [OF b3[unfolded writeHeadToBatch_def], of ns k] put_receipts_effect [OF b2 that] by auto
  show thesis
    by (rule that [OF hash enc(1) st c']) (simp_all add: eff eff1 NewBatch_def)
qed

lemma append_commit_represents:
  assumes rep: "represents kec c bs" and ok: "append_checks kec c blk = Inr ()"
    and com: "append_commit kec c (cached kec blk) receipts = Inr c'"
    and room: "unat (hd_Height (c_head c)) < 2 ^ 64 - 1"
  shows "represents kec c' (bs @ [cached kec blk])"
proof -
  let ?h = "h_Height (b_Header blk)" and ?b = "cached kec blk"
  have gen: "HasGenesis c" and height: "?h = hd_Height (c_head c) + 1"
    and prev: "h_PrevHash (b_Header blk) = hd_Hash (c_head c)"
    using ok by (auto simp: append_checks_ok)
  have uh: "unat ?h = length bs" using rep next_height [OF room] height by (simp add: represents_def)
  have fresh: "mem_Get (c_store c) NSBlocks (blockKeyByHeight ?h) = Inr None"
    using rep uh unfolding represents_def by (metis less_irrefl)
  then have nf: "GetBlock c (h_Height (b_Header ?b)) = Inl ErrNotFound" using gen by (simp add: GetBlock_def)
  obtain hash enc b3 st where hash: "header_Hash kec (b_Header ?b) = Inr hash" and enc: "block_Encode ?b = Inr enc"
    and st: "mem_Apply (c_store c) b3 = Inr st"
    and c': "c' = c\<lparr>c_store := st, c_head := \<lparr>hd_Height = h_Height (b_Header ?b), hd_Hash = hash,
      hd_StateRoot = h_StateRoot (b_Header ?b)\<rparr>\<rparr>"
    and e_tip: "batch_effect b3 NSMeta KeyChainTip = Some (Some (head_bytes
      \<lparr>hd_Height = h_Height (b_Header ?b), hd_Hash = hash, hd_StateRoot = h_StateRoot (b_Header ?b)\<rparr>))"
    and e_gen: "batch_effect b3 NSMeta KeyGenesisHash = None"
    and e_schema: "batch_effect b3 NSMeta KeySchemaVersion = None"
    and e_blk': "\<And>h. batch_effect b3 NSBlocks (blockKeyByHeight h) =
      (if h = h_Height (b_Header ?b) then Some (Some enc) else None)"
    by (rule append_commit_effect [OF com nf]) (rule that, assumption+)
  let ?tip = "\<lparr>hd_Height = ?h, hd_Hash = hash, hd_StateRoot = h_StateRoot (b_Header blk)\<rparr>"
  note e_blk = e_blk' [unfolded cached_header]
  have open': "mem_open st" using mem.apply_keeps_open [OF st] .
  have head': "loadHead st = Inr (Some ?tip)"
    using loadHead_head mem.get_written [OF st _ e_tip] by simp
  have gen': "HasGenesis c'" using gen mem.get_untouched [OF st e_gen] by (simp add: c' HasGenesis_def)
  have schema': "mem_Get st NSMeta KeySchemaVersion = Inr (Some (word_bytes SchemaVersion))"
    using rep mem.get_untouched [OF st e_schema] by (simp add: represents_def)
  have dec: "DecodeBlock enc = readback ?b" by (simp add: readback_def enc)
  have blocks: "if unat h < length (bs @ [?b]) then GetBlock c' h = readback ((bs @ [?b]) ! unat h)
      else mem_Get (c_store c') NSBlocks (blockKeyByHeight h) = Inr None" for h
  proof (cases "h = ?h")
    case True
    then show ?thesis using GetBlock_written [OF st gen e_gen, of h enc] uh dec e_blk [of h] c' by (simp add: nth_append)
  next
    case False
    then have ne: "unat h \<noteq> length bs" using uh unat_eqI by metis
    have e: "batch_effect b3 NSBlocks (blockKeyByHeight h) = None" using e_blk [of h] False by simp
    have "GetBlock c' h = GetBlock c h" using GetBlock_unchanged [OF st gen e_gen e] c' by simp
    moreover have "mem_Get (c_store c') NSBlocks (blockKeyByHeight h) = mem_Get (c_store c) NSBlocks (blockKeyByHeight h)"
      using mem.get_untouched [OF st e] c' by simp
    moreover have "if unat h < length bs then GetBlock c h = readback (bs ! unat h)
        else mem_Get (c_store c) NSBlocks (blockKeyByHeight h) = Inr None"
      using rep by (simp add: represents_def)
    ultimately show ?thesis using ne by (auto simp: nth_append split: if_splits)
  qed
  have "links kec (bs @ [?b])"
    using rep uh prev by (intro links_snoc) (simp_all add: represents_def)
  then show ?thesis unfolding represents_def
    using open' gen' head' hash uh schema' rep [unfolded represents_def]
    by (intro conjI allI blocks) (simp_all add: c' enc)
qed

text \<open>At the last height the next one wraps to 0, and the genesis block is there already.\<close>

lemma append_commit_wraps:
  assumes rep: "represents kec c bs" and ok: "append_checks kec c blk = Inr ()"
    and com: "append_commit kec c (cached kec blk) receipts = Inr c'"
    and full: "\<not> unat (hd_Height (c_head c)) < 2 ^ 64 - 1"
  shows "c' = c"
proof -
  have "unat (hd_Height (c_head c)) = 2 ^ 64 - 1" using full unat_less_pow [of "hd_Height (c_head c)"] by simp
  then have "unat (hd_Height (c_head c) + 1) = unat (0 :: height)" by (simp add: unat_word_ariths)
  then have h: "h_Height (b_Header (cached kec blk)) = 0" using ok by (simp only: append_checks_ok cached_header unat_eqI)
  have bs: "bs \<noteq> []" "is_ok (readback (hd bs))"
    "GetBlock c 0 = readback (bs ! 0)" using rep unfolding represents_def by (blast, blast, metis length_greater_0_conv unat_0)
  then obtain g where "GetBlock c 0 = Inr g" by (auto simp: hd_conv_nth is_ok_iff)
  then show ?thesis using com h by (auto simp: append_commit_def Let_def split: if_splits)
qed

section \<open>The genesis block\<close>

lemma genesis_block_shape:
  assumes "BuildBlockWithManager kec g = Inr (blk, mgr)"
  shows "b_Transactions blk = []" "h_Height (b_Header blk) = 0"
  using assms by (auto simp: BuildBlockWithManager_def and_then_Inr_iff)

lemma InitGenesis_fresh:
  assumes "InitGenesis kec c g0 = (c', Inr ())" "c_store c = NewMemory"
  obtains g blk mgr gHash st where "Validate g0 = Inr g" "BuildBlockWithManager kec g = Inr (blk, mgr)"
    "header_Hash kec (b_Header blk) = Inr gHash"
    "write_genesis kec (c\<lparr>c_mgr := Some mgr\<rparr>) gHash blk = Inr st"
    "c' = c\<lparr>c_mgr := Some mgr, c_store := st,
       c_head := \<lparr>hd_Height = 0, hd_Hash = gHash, hd_StateRoot = h_StateRoot (b_Header blk)\<rparr>\<rparr>"
proof -
  have absent: "check_stored_genesis (c_store c) gh = Inr False" for gh
    using assms(2) by (simp add: check_stored_genesis_def mem_Get_def NewMemory_def)
  obtain g gHash blk mgr where g: "Validate g0 = Inr g" "genesis_Hash kec g = Inr gHash"
    "BuildBlockWithManager kec g = Inr (blk, mgr)"
    using assms(1) absent
    by (cases "Validate g0"; cases "genesis_Hash kec (projr (Validate g0))";
        cases "BuildBlockWithManager kec (projr (Validate g0))") (auto simp: InitGenesis_def)
  have hash: "header_Hash kec (b_Header blk) = Inr gHash"
    using g(2,3) by (simp add: genesis_Hash_def BuildBlock_def)
  show ?thesis using assms(1) absent g that [OF g(1,3) hash]
    by (auto simp: InitGenesis_def Let_def split: sum.splits)
qed

lemma InitGenesis_represents:
  assumes "InitGenesis kec c g0 = (c', Inr ())" "c_store c = NewMemory"
  shows "\<exists>b. represents kec c' [b]"
proof -
  obtain g blk mgr gHash st where blk: "BuildBlockWithManager kec g = Inr (blk, mgr)"
    and hash: "header_Hash kec (b_Header blk) = Inr gHash"
    and w: "write_genesis kec (c\<lparr>c_mgr := Some mgr\<rparr>) gHash blk = Inr st"
    and c': "c' = c\<lparr>c_mgr := Some mgr, c_store := st,
       c_head := \<lparr>hd_Height = 0, hd_Hash = gHash, hd_StateRoot = h_StateRoot (b_Header blk)\<rparr>\<rparr>"
    by (rule InitGenesis_fresh [OF assms])
  let ?tip = "\<lparr>hd_Height = 0, hd_Hash = gHash, hd_StateRoot = h_StateRoot (b_Header blk)\<rparr>"
  note shape = genesis_block_shape [OF blk]
  obtain b1 b2 b3 b4 where b1: "writeBlockToBatch kec NewBatch blk = Inr b1"
    and b2: "batch_Put b1 NSMeta KeyGenesisHash (word_bytes gHash) = Inr b2"
    and b3: "batch_Put b2 NSMeta KeySchemaVersion (word_bytes SchemaVersion) = Inr b3"
    and b4: "writeHeadToBatch b3 ?tip = Inr b4" and st: "mem_Apply NewMemory b4 = Inr st"
    using w assms(2) by (auto simp: write_genesis_def Let_def and_then_Inr_iff split: if_splits)
  obtain enc hash' where enc: "block_Encode blk = Inr enc" "header_Hash kec (b_Header blk) = Inr hash'"
    and eff1: "\<And>ns k. ns \<noteq> NSTxIndex \<Longrightarrow> batch_effect b1 ns k =
       (if ns = NSBlocks \<and> k = blockKeyByHash hash' then Some (Some (Uint64BE (h_Height (b_Header blk))))
        else if ns = NSBlocks \<and> k = blockKeyByHeight (h_Height (b_Header blk)) then Some (Some enc)
        else batch_effect NewBatch ns k)"
    using writeBlock_effect [OF b1] by blast
  note eff = batch_effect_Put [OF b4[unfolded writeHeadToBatch_def]] batch_effect_Put [OF b3] batch_effect_Put [OF b2]
  have e_gen: "batch_effect b4 NSMeta KeyGenesisHash = Some (Some (word_bytes gHash))"
    and e_tip: "batch_effect b4 NSMeta KeyChainTip = Some (Some (head_bytes ?tip))"
    and e_schema: "batch_effect b4 NSMeta KeySchemaVersion = Some (Some (word_bytes SchemaVersion))"
    and e_blk: "batch_effect b4 NSBlocks (blockKeyByHeight h) = (if h = 0 then Some (Some enc) else None)" for h
    by (simp_all add: eff eff1 NewBatch_def shape)
  have gen: "HasGenesis c'" using mem.get_written [OF st _ e_gen] by (simp add: HasGenesis_def c')
  have schema: "mem_Get st NSMeta KeySchemaVersion = Inr (Some (word_bytes SchemaVersion))"
    using mem.get_written [OF st _ e_schema] by simp
  have dec: "DecodeBlock enc = readback blk" "is_ok (readback blk)"
    using readback_stored [of blk] enc(1) shape by (simp_all add: readback_def)
  have empty: "mem_Get NewMemory NSBlocks (blockKeyByHeight h) = Inr None" for h
    by (simp add: mem_Get_def NewMemory_def)
  have blocks: "if unat h < length [blk] then GetBlock c' h = readback ([blk] ! unat h)
      else mem_Get (c_store c') NSBlocks (blockKeyByHeight h) = Inr None" for h
  proof (cases "h = 0")
    case True
    then show ?thesis using gen mem.get_written [OF st _, of "blockKeyByHeight 0" NSBlocks "Some enc"] e_blk [of 0] dec(1)
      by (simp add: GetBlock_def c')
  next
    case False
    then have "unat h \<noteq> 0" by (simp add: unat_eq_0)
    then show ?thesis using mem.get_untouched [OF st, of NSBlocks "blockKeyByHeight h"] e_blk [of h] False empty
      by (simp add: c')
  qed
  have "represents kec c' [blk]" unfolding represents_def
    using gen schema loadHead_head mem.get_written [OF st _ e_tip] mem.apply_keeps_open [OF st] hash shape
    by (intro conjI allI blocks) (simp_all add: c' links_def dec(2) enc(1))
  then show ?thesis ..
qed

section \<open>Reachable chains\<close>

text \<open>
  A chain is initialised on an empty store. After that blocks are appended, with success or without,
  genesis is initialised again, the store is opened anew, and the state manager is used by others.
\<close>

inductive reachable :: "keccak \<Rightarrow> chain \<Rightarrow> bool" for kec where
  init: "chain_New NewMemory cid = Inr c \<Longrightarrow> InitGenesis kec c g = (c', Inr ()) \<Longrightarrow> reachable kec c'"
| append: "reachable kec c \<Longrightarrow> AppendBlock kec c blk receipts = (c', blk', r) \<Longrightarrow> reachable kec c'"
| again: "reachable kec c \<Longrightarrow> InitGenesis kec c g = (c', r) \<Longrightarrow> reachable kec c'"
| restart: "reachable kec c \<Longrightarrow> chain_New (c_store c) cid = Inr c' \<Longrightarrow> reachable kec c'"
| state: "reachable kec c \<Longrightarrow> reachable kec (c\<lparr>c_mgr := m\<rparr>)"

lemma chain_New_store: "chain_New st cid = Inr c \<Longrightarrow> c_store c = st"
  by (auto simp: chain_New_def and_then_Inr_iff)

lemma AppendBlock_represents:
  assumes rep: "represents kec c bs" and app: "AppendBlock kec c blk receipts = (c', blk', r)"
  shows "case r of Inl e \<Rightarrow> c' = c
    | Inr _ \<Rightarrow> if unat (hd_Height (c_head c)) < 2 ^ 64 - 1 then represents kec c' (bs @ [the blk']) else c' = c"
proof (cases r)
  case (Inl e)
  then show ?thesis using AppendBlock_err app by simp
next
  case (Inr u)
  then obtain b where b: "blk = Some b" using app by (cases blk) (auto simp: AppendBlock_def)
  then have "AppendBlock kec c (Some b) receipts = (c', blk', Inr ())" using app Inr by simp
  note ok = AppendBlock_ok [OF this]
  show ?thesis using append_commit_represents [OF rep] append_commit_wraps [OF rep] ok Inr by auto
qed

lemma represents_mgr [simp]: "represents kec (c\<lparr>c_mgr := x\<rparr>) bs \<longleftrightarrow> represents kec c bs"
  by (simp add: represents_def GetBlock_def HasGenesis_def)

lemma represents_ChainID: "represents kec (c\<lparr>c_ChainID := x\<rparr>) bs \<longleftrightarrow> represents kec c bs"
  by (simp add: represents_def GetBlock_def HasGenesis_def)

lemma represents_reopened:
  assumes "represents kec c bs"
  shows "chain_New (c_store c) cid = Inr (c\<lparr>c_ChainID := cid, c_mgr := None\<rparr>)"
  using assms by (cases c) (simp add: chain_New_def represents_def)

lemma represents_initialised:
  assumes "represents kec c bs" "InitGenesis kec c g = (c', r)"
  shows "c' = c"
proof -
  have "check_stored_genesis (c_store c) gh \<noteq> Inr False" for gh
    using assms(1) by (auto simp: represents_def check_stored_genesis_def HasGenesis_def split: sum.splits option.splits)
  then show ?thesis using assms(2)
    by (auto simp: InitGenesis_def and_then_def split: sum.splits option.splits prod.splits if_splits)
qed

lemma reachable_represents: "reachable kec c \<Longrightarrow> \<exists>bs. represents kec c bs"
proof (induction rule: reachable.induct)
  case (init cid c g c')
  then show ?case using InitGenesis_represents chain_New_store by blast
next
  case (append c blk receipts c' blk' r)
  then obtain bs where bs: "represents kec c bs" by blast
  then show ?case using AppendBlock_represents [OF bs append(2)] by (auto split: sum.splits if_splits)
next
  case (again c g c' r)
  then show ?case using represents_initialised by blast
next
  case (restart c cid c')
  then show ?case using represents_reopened represents_ChainID by fastforce
qed simp

section \<open>Indices\<close>

lemma each_put_effect:
  assumes "each (\<lambda>x b. and_then (val x) (\<lambda>v. batch_Put b ns (key x) v)) xs b = Inr b'" "distinct (map key xs)"
    "x \<in> set xs"
  shows "\<exists>v. val x = Inr v \<and> batch_effect b' ns (key x) = Some (Some v)"
  using assms
proof (induction xs arbitrary: b' rule: rev_induct)
  case (snoc y xs)
  obtain b1 v where b1: "each (\<lambda>x b. and_then (val x) (\<lambda>v. batch_Put b ns (key x) v)) xs b = Inr b1"
    and v: "val y = Inr v" "batch_Put b1 ns (key y) v = Inr b'"
    using snoc.prems(1) by (auto simp: each_append and_then_Inr_iff)
  show ?case
  proof (cases "x = y")
    case True
    then show ?thesis using v by (simp add: batch_effect_Put [OF v(2)])
  next
    case False
    then have "x \<in> set xs" using snoc.prems(3) by simp
    then have "key x \<in> key ` set xs" by (rule imageI)
    moreover have "key y \<notin> key ` set xs" using snoc.prems(2) by simp
    ultimately have "x \<in> set xs" "key x \<noteq> key y" using \<open>x \<in> set xs\<close> by metis+
    then show ?thesis using snoc.IH [OF b1] snoc.prems(2) batch_effect_Put [OF v(2), of ns "key x"] by auto
  qed
qed simp

lemma receiptKey_inj: "receiptKey h i = receiptKey h j \<longleftrightarrow> i = j"
  by (simp add: receiptKey_def)

text \<open>What a successful append leaves in the batch, for the receipts and the transaction index.\<close>

lemma append_commit_indices:
  assumes "append_commit kec c blk receipts = Inr c'" "GetBlock c (h_Height (b_Header blk)) = Inl e"
    "length receipts < 2 ^ 32" "distinct (map (\<lambda>t. fst (tx_Hash kec t)) (b_Transactions blk))"
  shows "\<exists>b hash. mem_Apply (c_store c) b = Inr (c_store c') \<and> header_Hash kec (b_Header blk) = Inr hash
    \<and> batch_effect b NSBlocks (blockKeyByHash hash) = Some (Some (Uint64BE (h_Height (b_Header blk))))
    \<and> (\<forall>i<length receipts. \<exists>v. receipt_Encode kec (receipts ! i) = Inr v \<and>
         batch_effect b NSReceipts (receiptKey (h_Height (b_Header blk)) (word_of_nat i)) = Some (Some v))
    \<and> (\<forall>i<length (b_Transactions blk).
         batch_effect b NSTxIndex (word_bytes (fst (tx_Hash kec (b_Transactions blk ! i)))) =
           Some (Some (word_bytes (h_Height (b_Header blk)) @ word_bytes (word_of_nat i :: uint32))))"
proof -
  let ?h = "h_Height (b_Header blk)"
  obtain hash b1 b2 b3 where hash: "header_Hash kec (b_Header blk) = Inr hash"
    and b1: "writeBlockToBatch kec NewBatch blk = Inr b1"
    and b2: "each (put_receipt kec ?h) (enumerate 0 receipts) b1 = Inr b2"
    and b3: "writeHeadToBatch b2 \<lparr>hd_Height = ?h, hd_Hash = hash, hd_StateRoot = h_StateRoot (b_Header blk)\<rparr> = Inr b3"
    and st: "mem_Apply (c_store c) b3 = Inr (c_store c')"
    using assms(1,2) by (auto simp: append_commit_def Let_def and_then_Inr_iff)
  obtain enc b0 where b0: "batch_Put b0 NSBlocks (blockKeyByHash hash) (Uint64BE ?h) = Inr enc"
    and idx: "each (index_tx kec ?h) (enumerate 0 (b_Transactions blk)) enc = Inr b1"
    using b1 hash by (auto simp: writeBlockToBatch_def Let_def and_then_Inr_iff)
  note eff3 = batch_effect_Put [OF b3[unfolded writeHeadToBatch_def]]
  have e_hash: "batch_effect b3 NSBlocks (blockKeyByHash hash) = Some (Some (Uint64BE ?h))"
    by (simp add: eff3 put_receipts_effect [OF b2] index_txs_effect [OF idx] batch_effect_Put [OF b0])
  have e_rcpt: "\<exists>v. receipt_Encode kec (receipts ! i) = Inr v \<and>
      batch_effect b3 NSReceipts (receiptKey ?h (word_of_nat i)) = Some (Some v)" if i: "i < length receipts" for i
  proof -
    let ?key = "\<lambda>ir. receiptKey ?h (word_of_nat (fst ir))"
    have "distinct (map (\<lambda>i. receiptKey ?h (word_of_nat i)) [0..<length receipts])"
      using assms(3) by (auto simp: distinct_map receiptKey_inj inj_on_def word_of_nat_eq_iff take_bit_nat_eq_self)
    moreover have "map ?key (enumerate 0 receipts) =
        map (\<lambda>i. receiptKey ?h (word_of_nat i)) (map fst (enumerate 0 receipts))"
      unfolding map_map comp_def ..
    ultimately have "distinct (map ?key (enumerate 0 receipts))" by (simp only: map_fst_enumerate) simp
    moreover have "(i, receipts ! i) \<in> set (enumerate 0 receipts)" using i by (auto simp: in_set_enumerate_eq)
    ultimately show ?thesis
      using each_put_effect [of "\<lambda>ir. receipt_Encode kec (snd ir)" NSReceipts ?key "enumerate 0 receipts" b1 b2]
        b2 by (fastforce simp: put_receipt_def [abs_def] eff3 ns_defs)
  qed
  have e_tx: "batch_effect b3 NSTxIndex (word_bytes (fst (tx_Hash kec (b_Transactions blk ! i)))) =
      Some (Some (word_bytes ?h @ word_bytes (word_of_nat i :: uint32)))" if i: "i < length (b_Transactions blk)" for i
  proof -
    let ?ts = "b_Transactions blk" and ?key = "\<lambda>itx. word_bytes (fst (tx_Hash kec (snd itx)))"
    have "map ?key (enumerate 0 ?ts) = map (\<lambda>t. word_bytes (fst (tx_Hash kec t))) ?ts"
      by (metis (no_types, lifting) map_map map_snd_enumerate o_apply map_eq_conv)
    moreover have "distinct (map (\<lambda>t. word_bytes (fst (tx_Hash kec t))) ?ts)"
      using assms(4) by (simp add: distinct_map inj_on_def)
    ultimately have "distinct (map ?key (enumerate 0 ?ts))" by simp
    moreover have "(i, ?ts ! i) \<in> set (enumerate 0 ?ts)" using i by (auto simp: in_set_enumerate_eq)
    ultimately have "batch_effect b1 NSTxIndex (?key (i, ?ts ! i)) =
        Some (Some (word_bytes ?h @ word_bytes (word_of_nat i :: uint32)))"
      using each_put_effect [of "\<lambda>itx. Inr (word_bytes ?h @ word_bytes (word_of_nat (fst itx) :: uint32))"
          NSTxIndex ?key "enumerate 0 ?ts" enc b1 "(i, ?ts ! i)"] idx
      by (simp add: index_tx_def [abs_def])
    then show ?thesis by (simp add: eff3 put_receipts_effect [OF b2] ns_defs)
  qed
  show ?thesis using st hash e_hash e_rcpt e_tx by blast
qed

text \<open>Appending fails only when the block or a receipt cannot be encoded.\<close>

lemma index_txs_ok: "\<exists>b'. each (index_tx kec h) ts b = Inr b'"
  by (induction ts arbitrary: b) (simp_all add: index_tx_def batch_Put_def)

lemma put_receipts_ok:
  "(\<exists>b'. each (put_receipt kec h) (enumerate n rs) b = Inr b') \<longleftrightarrow> list_all (\<lambda>r. is_ok (receipt_Encode kec r)) rs"
proof (induction rs arbitrary: n b)
  case (Cons r rs)
  show ?case
  proof (cases "receipt_Encode kec r")
    case (Inl e)
    then show ?thesis by (simp add: put_receipt_def)
  next
    case (Inr enc)
    then show ?thesis using Cons.IH by (simp add: put_receipt_def batch_Put_def receiptKey_def)
  qed
qed simp

lemma and_then_total: "(\<And>x. \<exists>y. k x = Inr y) \<Longrightarrow> (\<exists>y. and_then m k = Inr y) \<longleftrightarrow> (\<exists>x. m = Inr x)"
  by (cases m) simp_all

lemma append_commit_ok:
  assumes "mem_open (c_store c)" "GetBlock c (h_Height (b_Header blk)) = Inl e"
  shows "(\<exists>c'. append_commit kec c blk rs = Inr c') \<longleftrightarrow>
    is_ok (block_Encode blk) \<and> list_all (\<lambda>r. is_ok (receipt_Encode kec r)) rs"
proof (cases "block_Encode blk")
  case (Inl e')
  then show ?thesis using assms(2) by (simp add: append_commit_def Let_def writeBlockToBatch_def and_then_Inr_iff)
next
  case (Inr enc)
  then obtain hb where hb: "header_Encode (b_Header blk) = Inr hb" by (auto simp: block_Encode_def and_then_Inr_iff)
  obtain b1 where b1: "writeBlockToBatch kec NewBatch blk = Inr b1"
    using index_txs_ok [of kec "h_Height (b_Header blk)" "enumerate 0 (b_Transactions blk)"]
    by (fastforce simp: writeBlockToBatch_def Let_def Inr header_Hash_def hb batch_Put_def)
  have "(\<exists>c'. append_commit kec c blk rs = Inr c') \<longleftrightarrow>
      (\<exists>b'. each (put_receipt kec (h_Height (b_Header blk))) (enumerate 0 rs) b1 = Inr b')"
    using assms b1
    by (simp add: append_commit_def Let_def header_Hash_def hb and_then_total writeHeadToBatch_def batch_Put_def
        mem_Apply_def mem_open_def)
  then show ?thesis by (simp add: Inr put_receipts_ok)
qed

text \<open>Where no receipts are written, none can be read that was not there before.\<close>

lemma receipts_untouched:
  assumes "mem_Apply (c_store c) b = Inr (c_store c')" "batch_effect b NSReceipts (receiptKey h i) = None"
  shows "GetReceipt c' h i = GetReceipt c h i"
  using mem.get_untouched [OF assms] by (simp add: GetReceipt_def)

lemma AppendBlock_no_receipts:
  assumes "AppendBlock kec c (Some blk) [] = (c', blk', Inr ())"
  shows "GetReceipt c' h i = GetReceipt c h i"
proof -
  let ?b = "cached kec blk"
  have com: "append_commit kec c ?b [] = Inr c'" using AppendBlock_ok [OF assms] by blast
  show ?thesis
  proof (cases "GetBlock c (h_Height (b_Header ?b))")
    case (Inr existing)
    then show ?thesis using com by (simp add: append_commit_def Let_def split: if_splits)
  next
    case (Inl e)
    then obtain tip b1 b2 where b1: "writeBlockToBatch kec NewBatch ?b = Inr b1" and b2: "writeHeadToBatch b1 tip = Inr b2"
      and st: "mem_Apply (c_store c) b2 = Inr (c_store c')"
      using com by (auto simp: append_commit_def Let_def and_then_Inr_iff)
    have "batch_effect b1 NSReceipts (receiptKey h i) = None"
      by (rule writeBlock_effect [OF b1]) (simp add: NewBatch_def ns_defs)
    then have "batch_effect b2 NSReceipts (receiptKey h i) = None"
      using batch_effect_Put [OF b2[unfolded writeHeadToBatch_def]] by simp
    then show ?thesis by (rule receipts_untouched [OF st])
  qed
qed

lemma InitGenesis_no_receipts:
  assumes "InitGenesis kec c g0 = (c', Inr ())" "c_store c = NewMemory"
  shows "GetReceipt c' h i = Inl ErrNotFound"
proof -
  obtain g blk mgr gHash st where w: "write_genesis kec (c\<lparr>c_mgr := Some mgr\<rparr>) gHash blk = Inr st" and c': "c_store c' = st"
    by (rule InitGenesis_fresh [OF assms]) simp
  obtain tip b1 b2 b3 b4 where b1: "writeBlockToBatch kec NewBatch blk = Inr b1"
    and b2: "batch_Put b1 NSMeta KeyGenesisHash (word_bytes gHash) = Inr b2"
    and b3: "batch_Put b2 NSMeta KeySchemaVersion (word_bytes SchemaVersion) = Inr b3"
    and b4: "writeHeadToBatch b3 tip = Inr b4" and st: "mem_Apply (c_store c) b4 = Inr (c_store c')"
    using w c' by (auto simp: write_genesis_def Let_def and_then_Inr_iff split: if_splits)
  have "batch_effect b1 NSReceipts (receiptKey h i) = None"
    by (rule writeBlock_effect [OF b1]) (simp add: NewBatch_def ns_defs)
  then have "batch_effect b4 NSReceipts (receiptKey h i) = None"
    using batch_effect_Put [OF b4[unfolded writeHeadToBatch_def]] batch_effect_Put [OF b3] batch_effect_Put [OF b2] by simp
  from receipts_untouched [OF st this] show ?thesis
    using assms(2) by (simp add: GetReceipt_def mem_Get_def NewMemory_def)
qed

section \<open>A concrete chain\<close>

definition k0 :: keccak where "k0 = (\<lambda>b. 0)"

definition chain_sample :: chain where
  "chain_sample = \<lparr>c_store = NewMemory, c_ChainID = 7, c_head = empty_head, c_mgr = None\<rparr>"

definition genesis_min :: genesis where
  "genesis_min = genesis_sample\<lparr>g_Alloc := fmempty, g_Validators := []\<rparr>"

lemma chain_New_sample: "chain_New NewMemory 7 = Inr chain_sample"
  by (simp add: chain_New_def mem_Get_def NewMemory_def loadHead_def chain_sample_def)

lemma block_no_tx_Encode:
  assumes "header_Encode h = Inr hb"
  shows "\<exists>enc. block_Encode \<lparr>b_Header = h, b_Transactions = []\<rparr> = Inr enc"
  using length_header_bytes [OF assms] by (simp add: block_Encode_def assms encode_body_def size_consts header_fixedSize_def)

definition genesis_min_header :: header where
  "genesis_min_header = \<lparr>h_Version = 1, h_ChainID = 7, h_Height = 0, h_Round = 0, h_Timestamp = 1000,
     h_PrevHash = 0, h_Proposer = 0, h_TxRoot = 0, h_ReceiptRoot = 0, h_StateRoot = 0, h_LogsBloom = 0,
     h_GasUsed = 0, h_GasLimit = 30000000, h_BaseFeePerGas = 10, h_ValidatorSetHash = 0, h_ExtraData = []\<rparr>"

lemma genesis_min_block:
  "\<exists>mgr. BuildBlockWithManager k0 genesis_min = Inr (\<lparr>b_Header = genesis_min_header, b_Transactions = []\<rparr>, mgr)"
proof -
  have p: "parseUint64 ''7'' = Inr 7" "parseUint64 ''1000'' = Inr 1000" "parseUint64 ''30000000'' = Inr 30000000"
    by (simp_all add: genesis_eval word_less_nat_alt)
  have b: "parseUint256 ''10'' = Inr 10"
  proof -
    obtain w where w: "each parse256_step ''10'' zero_uint256 = Inr w" "to_big w = 10"
      using each_parse256 [of "''10''"] by (auto simp: is_digit_def dec_val_def digit_val_def)
    have "to_big (10 :: uint256) = 10" by (simp add: to_big_uint)
    then have "w = 10" using w(2) to_big_inject by metis
    then show ?thesis using w(1) by (simp add: parseUint256_def)
  qed
  obtain s where s: "Begin NewMemoryManager 0 = Inr s" "se_done s = False"
    by (simp add: Begin_def NewMemoryManager_def hash_is_zero_def)
  then have "\<exists>m s'. BuildState k0 genesis_min = Inr (0, m, s')"
    by (simp add: BuildState_def applyToSession_def genesis_min_def Commit_def state_root_def Keccak256_def k0_def)
  moreover have "ValidatorSetHash k0 genesis_min = Inr 0"
    by (simp add: ValidatorSetHash_def genesis_min_def Keccak256_def k0_def)
  ultimately show ?thesis
    by (auto simp: BuildBlockWithManager_def genesis_extra_def genesis_min_def genesis_sample_def p b
        value_or_zero_def MerkleRoot_def genesis_min_header_def)
qed

lemma k0_hash: "header_Encode h = Inr hb \<Longrightarrow> header_Hash k0 h = Inr 0"
  by (simp add: header_Hash_def Keccak256_def k0_def)

lemma genesis_min_Encode: "\<exists>hb. header_Encode genesis_min_header = Inr hb"
  by (simp add: header_Encode_def genesis_min_header_def size_consts)

lemma init_sample:
  "\<exists>c'. InitGenesis k0 chain_sample genesis_min = (c', Inr ()) \<and> c_ChainID c' = 7
     \<and> c_head c' = \<lparr>hd_Height = 0, hd_Hash = 0, hd_StateRoot = 0\<rparr>"
proof -
  obtain mgr where blk: "BuildBlockWithManager k0 genesis_min = Inr (\<lparr>b_Header = genesis_min_header, b_Transactions = []\<rparr>, mgr)"
    using genesis_min_block by blast
  obtain hb where hb: "header_Encode genesis_min_header = Inr hb" using genesis_min_Encode by blast
  obtain enc where enc: "block_Encode \<lparr>b_Header = genesis_min_header, b_Transactions = []\<rparr> = Inr enc"
    using block_no_tx_Encode [OF hb] by blast
  note hash = k0_hash [OF hb]
  have val: "Validate genesis_min = Inr genesis_min"
    by (simp add: Validate_def genesis_min_def genesis_sample_def genesis_eval)
  have gh: "genesis_Hash k0 genesis_min = Inr 0" by (simp add: genesis_Hash_def BuildBlock_def blk hash)
  have chk: "check_stored_genesis NewMemory 0 = Inr False"
    by (simp add: check_stored_genesis_def mem_Get_def NewMemory_def)
  have "\<exists>st. write_genesis k0 (chain_sample\<lparr>c_mgr := Some mgr\<rparr>) 0 \<lparr>b_Header = genesis_min_header, b_Transactions = []\<rparr> = Inr st"
    by (simp add: write_genesis_def chain_sample_def genesis_min_header_def [THEN arg_cong, of h_ChainID] writeBlockToBatch_def
        enc hash batch_Put_def writeHeadToBatch_def mem_Apply_def NewMemory_def)
  then show ?thesis
    by (auto simp: InitGenesis_def Let_def val gh chk blk chain_sample_def genesis_min_header_def [THEN arg_cong, of h_StateRoot])
qed

definition next_block :: block where
  "next_block = \<lparr>b_Header = genesis_min_header\<lparr>h_Height := 1\<rparr>, b_Transactions = []\<rparr>"

lemma next_block_simps [simp]:
  "cached k0 next_block = next_block" "ComputeTxRoot k0 next_block = (0, next_block)"
  "b_Transactions next_block = []" "h_Height (b_Header next_block) = 1" "h_TxRoot (b_Header next_block) = 0"
  "h_ChainID (b_Header next_block) = 7" "h_PrevHash (b_Header next_block) = 0"
  by (simp_all add: cached_def ComputeTxRoot_def next_block_def MerkleRoot_def genesis_min_header_def)

lemma fresh_above:
  assumes "represents kec c bs" "unat (hd_Height (c_head c)) < 2 ^ 64 - 1"
  shows "GetBlock c (hd_Height (c_head c) + 1) = Inl ErrNotFound"
proof -
  have "unat (hd_Height (c_head c) + 1) = length bs" using assms(1) next_height [OF assms(2)] by (simp add: represents_def)
  then have "mem_Get (c_store c) NSBlocks (blockKeyByHeight (hd_Height (c_head c) + 1)) = Inr None"
    using assms(1) unfolding represents_def by (metis less_irrefl)
  then show ?thesis using assms(1) by (simp add: GetBlock_def represents_def)
qed

text \<open>A block that can be encoded, on top of the genesis block.\<close>

lemma append_first:
  assumes "represents k0 c bs" "c_ChainID c = 7" "c_head c = \<lparr>hd_Height = 0, hd_Hash = 0, hd_StateRoot = 0\<rparr>"
    and h: "h_Height (b_Header b) = 1" "h_ChainID (b_Header b) = 7" "h_PrevHash (b_Header b) = 0"
    and root: "ComputeTxRoot k0 b = (h_TxRoot (b_Header b), b)" and enc: "is_ok (block_Encode b)"
  shows "\<exists>c'. AppendBlock k0 c (Some b) [] = (c', Some b, Inr ())"
proof -
  have gen: "HasGenesis c" and op: "mem_open (c_store c)" using assms(1) by (simp_all add: represents_def)
  have "GetBlock c (h_Height (b_Header b)) = Inl ErrNotFound" using fresh_above [OF assms(1)] assms(3) h(1) by simp
  from append_commit_ok [OF op this, of k0 "[]"] obtain c' where "append_commit k0 c b [] = Inr c'" using enc by auto
  moreover have "append_checks k0 c b = Inr ()" using gen assms(2,3) h by (simp add: append_checks_ok)
  ultimately show ?thesis using root by (simp add: AppendBlock_def)
qed

lemma append_empty:
  assumes "represents k0 c bs" "c_ChainID c = 7" "c_head c = \<lparr>hd_Height = 0, hd_Hash = 0, hd_StateRoot = 0\<rparr>"
    and h: "h_Height h = 1" "h_ChainID h = 7" "h_PrevHash h = 0" "h_TxRoot h = 0" "h_ExtraData h = []"
  shows "\<exists>c'. AppendBlock k0 c (Some \<lparr>b_Header = h, b_Transactions = []\<rparr>) [] =
    (c', Some \<lparr>b_Header = h, b_Transactions = []\<rparr>, Inr ())"
proof (rule append_first [OF assms(1-3)])
  obtain hb where "header_Encode h = Inr hb" by (simp add: header_Encode_def h(5) size_consts)
  then show "is_ok (block_Encode \<lparr>b_Header = h, b_Transactions = []\<rparr>)" using block_no_tx_Encode by (auto simp: is_ok_iff)
qed (simp_all add: h ComputeTxRoot_def MerkleRoot_def)

lemma append_sample:
  assumes "represents k0 c bs" "c_ChainID c = 7" "c_head c = \<lparr>hd_Height = 0, hd_Hash = 0, hd_StateRoot = 0\<rparr>"
  shows "\<exists>c'. AppendBlock k0 c (Some next_block) [] = (c', Some next_block, Inr ())"
  unfolding next_block_def by (rule append_empty [OF assms]) (simp_all add: genesis_min_header_def)

text \<open>A block with one transaction: a typed one, and a legacy one with call data, which does not read back.\<close>

definition tx_block :: "transaction \<Rightarrow> block" where
  "tx_block tx = next_block\<lparr>b_Transactions := [tx]\<rparr>"

definition legacy_sample :: transaction where
  "legacy_sample = tx_sample\<lparr>tx_Type := 0, tx_MaxPriorityFeePerGas := 0, tx_MaxFeePerGas := 0, tx_HashCache := Some 0\<rparr>"

lemma tx_block_Encode:
  assumes "tx_Encode tx = Inr enc" "length enc \<le> 1000"
  shows "is_ok (block_Encode (tx_block tx))"
  by (rule one_tx_Encode [OF _ _ assms]) (simp_all add: tx_block_def next_block_def genesis_min_header_def)

lemma append_tx_block:
  assumes "represents k0 c bs" "c_ChainID c = 7" "c_head c = \<lparr>hd_Height = 0, hd_Hash = 0, hd_StateRoot = 0\<rparr>"
    and "tx_HashCache tx = Some 0" "tx_Encode tx = Inr enc" "length enc \<le> 1000"
  shows "\<exists>c'. AppendBlock k0 c (Some (tx_block tx)) [] = (c', Some (tx_block tx), Inr ())"
  by (rule append_first [OF assms(1-3) _ _ _ _ tx_block_Encode [OF assms(5,6)]])
    (simp_all add: tx_block_def ComputeTxRoot_def MerkleRoot_def merkle_loop.simps tx_leaf_def tx_Hash_def assms(4)
      Keccak256_def k0_def)

lemma legacy_Encode: "\<exists>enc. tx_Encode legacy_sample = Inr enc \<and> length enc \<le> 1000"
  by (simp add: legacy_sample_def tx_sample_def tx_Encode_def tx_types tx_type_prefix_def SigningPayload_def size_consts)

section \<open>Properties\<close>



text \<open>
  C2: appending refines extending the list of blocks. On a chain that represents a list of blocks,
  \<open>AppendBlock\<close>, with any block and receipts, either fails and leaves the chain as it was, or succeeds and
  the chain then represents the list extended by the block with its hashes cached, so no block below ever
  changes. The block reads back as it was, but for version and round, if its transactions have types 1 to 127, only the
  fee fields of their type, no zero recipient, no recovered sender and at most \<open>MaxTxSize\<close> bytes. At the last height of 64 bits an append
  that succeeds changes nothing.
\<close>

theorem AppendBlock_refines:
  assumes "represents kec c bs" "AppendBlock kec c blk receipts = (c', blk', r)"
  shows "case r of Inl e \<Rightarrow> c' = c
    | Inr _ \<Rightarrow> blk' = map_option (cached kec) blk \<and>
        (if unat (hd_Height (c_head c)) < 2 ^ 64 - 1
         then represents kec c' (bs @ [the blk']) \<and>
           (list_all tx_ok (b_Transactions (the blk')) \<longrightarrow> GetBlock c' (hd_Height (c_head c')) = Inr (stored (the blk')))
         else c' = c)"
proof (cases r)
  case (Inl e)
  then show ?thesis using AppendBlock_represents [OF assms] by simp
next
  case (Inr u)
  have blk: "blk' = map_option (cached kec) blk"
    using assms(2) Inr by (cases blk) (auto simp: AppendBlock_def cached_def split: sum.splits prod.splits if_splits)
  have "GetBlock c' (hd_Height (c_head c')) = Inr (stored b)"
    if rep: "represents kec c' (bs @ [b])" and "list_all tx_ok (b_Transactions b)" for b
  proof -
    have "unat (hd_Height (c_head c')) = length bs" "is_ok (block_Encode b)" using rep by (simp_all add: represents_def)
    moreover have "GetBlock c' (hd_Height (c_head c')) = readback ((bs @ [b]) ! unat (hd_Height (c_head c')))"
      using rep calculation(1) unfolding represents_def by (metis length_append_singleton lessI)
    ultimately show ?thesis using readback_stored that(2) by simp
  qed
  then show ?thesis using AppendBlock_represents [OF assms] Inr blk by auto
qed

theorem AppendBlock_refines_witness:
  "\<exists>c1 c2 b tx. InitGenesis k0 chain_sample genesis_min = (c1, Inr ()) \<and> tx_Data tx = [1, 2, 3]
    \<and> AppendBlock k0 c1 (Some (tx_block tx)) [] = (c2, Some (tx_block tx), Inr ())
    \<and> represents k0 c2 [b, tx_block tx] \<and> GetBlock c2 1 = Inr (stored (tx_block tx))"
proof -
  obtain c1 where c1: "InitGenesis k0 chain_sample genesis_min = (c1, Inr ())" "c_ChainID c1 = 7"
    "c_head c1 = \<lparr>hd_Height = 0, hd_Hash = 0, hd_StateRoot = 0\<rparr>"
    using init_sample by blast
  obtain b where b: "represents k0 c1 [b]" using InitGenesis_represents [OF c1(1)] by (auto simp: chain_sample_def)
  define tx where "tx = tx_sample\<lparr>tx_HashCache := Some 0\<rparr>"
  have tx: "tx_HashCache tx = Some 0" "tx_Data tx = [1, 2, 3]" "tx_ok tx" "\<exists>enc. tx_Encode tx = Inr enc \<and> length enc \<le> 1000"
    by (simp_all add: tx_def tx_ok_def tx_sample_def tx_Encode_def fees_ok_def tx_types tx_type_prefix_def
        SigningPayload_def size_consts)
  then obtain c2 where c2: "AppendBlock k0 c1 (Some (tx_block tx)) [] = (c2, Some (tx_block tx), Inr ())"
    using append_tx_block [OF b c1(2,3) tx(1)] by blast
  have "represents k0 c2 ([b] @ [tx_block tx]) \<and> GetBlock c2 (hd_Height (c_head c2)) = Inr (stored (tx_block tx))"
    using AppendBlock_refines [OF b c2] c1(3) tx(3) by (simp add: tx_block_def)
  moreover from this have "hd_Height (c_head c2) = 1" by (intro unat_eqI) (simp add: represents_def)
  ultimately show ?thesis using c1(1) c2 tx(2) by auto
qed

text \<open>
  what is accepted is checked. \<open>AppendBlock\<close> succeeds only for a block of the chain's id, one
  above the head, naming the head's hash as its parent, whose transaction root is the one
  computed from its transactions.
\<close>

theorem AppendBlock_checks:
  assumes "AppendBlock kec c (Some blk) receipts = (c', blk', Inr ())"
  shows "HasGenesis c \<and> (c_ChainID c = 0 \<or> h_ChainID (b_Header blk) = c_ChainID c)
    \<and> h_Height (b_Header blk) = hd_Height (c_head c) + 1
    \<and> h_PrevHash (b_Header blk) = hd_Hash (c_head c)
    \<and> h_TxRoot (b_Header blk) = MerkleRoot kec (map (tx_leaf kec) (b_Transactions blk))"
  using AppendBlock_ok [OF assms] by (auto simp: append_checks_ok ComputeTxRoot_def)

theorem AppendBlock_checks_witness:
  "\<exists>c1 c2. AppendBlock k0 c1 (Some next_block) [] = (c2, Some next_block, Inr ())
    \<and> HasGenesis c1 \<and> hd_Height (c_head c1) + 1 = 1"
proof -
  obtain c1 where c1: "InitGenesis k0 chain_sample genesis_min = (c1, Inr ())" "c_ChainID c1 = 7"
    "c_head c1 = \<lparr>hd_Height = 0, hd_Hash = 0, hd_StateRoot = 0\<rparr>"
    using init_sample by blast
  obtain b where b: "represents k0 c1 [b]" using InitGenesis_represents [OF c1(1)] by (auto simp: chain_sample_def)
  then obtain c2 where c2: "AppendBlock k0 c1 (Some next_block) [] = (c2, Some next_block, Inr ())"
    using append_sample c1(2,3) by blast
  from AppendBlock_checks [OF c2] show ?thesis using c2 c1(3) by fastforce
qed

text \<open>
  an appended block can be found. After a successful \<open>AppendBlock\<close> on a chain that represents its
  blocks, the block's hash leads to its height, each of its transactions is located by its hash
  (where the hashes are distinct), and each receipt that encodes below 4 GiB is read back.
\<close>

theorem AppendBlock_indexed:
  assumes "represents kec c bs" "AppendBlock kec c (Some blk) receipts = (c', blk', Inr ())"
    "unat (hd_Height (c_head c)) < 2 ^ 64 - 1" "length receipts < 2 ^ 32"
    "distinct (map (\<lambda>t. fst (tx_Hash kec t)) (b_Transactions (cached kec blk)))"
  shows "HeightOf c' (hd_Hash (c_head c')) = Inr (h_Height (b_Header blk))
    \<and> (\<forall>i<length (b_Transactions (cached kec blk)).
         FindTx c' (fst (tx_Hash kec (b_Transactions (cached kec blk) ! i))) = Inr (h_Height (b_Header blk), word_of_nat i))
    \<and> (\<forall>i<length receipts. receipt_ok kec (receipts ! i) \<longrightarrow>
         GetReceipt c' (h_Height (b_Header blk)) (word_of_nat i) = Inr (receipts ! i))"
proof -
  let ?b = "cached kec blk" and ?h = "h_Height (b_Header blk)"
  note ok = AppendBlock_ok [OF assms(2)]
  then have com: "append_commit kec c ?b receipts = Inr c'" and height: "?h = hd_Height (c_head c) + 1"
    and gen: "HasGenesis c"
    by (simp_all add: append_checks_ok)
  have uh: "unat ?h = length bs" using assms(1) next_height [OF assms(3)] height by (simp add: represents_def)
  then have nf: "GetBlock c ?h = Inl ErrNotFound"
    using assms(1) gen unfolding represents_def GetBlock_def by (metis and_then_simps(2) less_irrefl option.simps(4))
  obtain b hash where st: "mem_Apply (c_store c) b = Inr (c_store c')" and hash: "header_Hash kec (b_Header blk) = Inr hash"
    and e_hash: "batch_effect b NSBlocks (blockKeyByHash hash) = Some (Some (Uint64BE ?h))"
    and e_rcpt: "\<forall>i<length receipts. \<exists>v. receipt_Encode kec (receipts ! i) = Inr v \<and>
         batch_effect b NSReceipts (receiptKey ?h (word_of_nat i)) = Some (Some v)"
    and e_tx: "\<forall>i<length (b_Transactions ?b).
         batch_effect b NSTxIndex (word_bytes (fst (tx_Hash kec (b_Transactions ?b ! i)))) =
           Some (Some (word_bytes ?h @ word_bytes (word_of_nat i :: uint32)))"
    using append_commit_indices [OF com, of ErrNotFound] nf assms(4,5) by auto
  have tip: "hd_Hash (c_head c') = hash"
    using com nf hash by (auto simp: append_commit_def Let_def and_then_Inr_iff)
  have "HeightOf c' hash = Inr ?h"
    using mem.get_written [OF st _ e_hash] by (simp add: HeightOf_def Uint64BE_def)
  moreover have "FindTx c' (fst (tx_Hash kec (b_Transactions ?b ! i))) = Inr (?h, word_of_nat i)"
    if "i < length (b_Transactions ?b)" for i
  proof -
    have ne: "word_bytes (x :: hash) \<noteq> []" for x
    proof
      assume "word_bytes x = []"
      then have "length (word_bytes x) = 0" by (simp only: list.size)
      then show False by simp
    qed
    show ?thesis using mem.get_written [OF st ne] e_tx that by (simp add: FindTx_def)
  qed
  moreover have "GetReceipt c' ?h (word_of_nat i) = Inr (receipts ! i)"
    if i: "i < length receipts" and "receipt_ok kec (receipts ! i)" for i
  proof -
    obtain v where v: "receipt_Encode kec (receipts ! i) = Inr v"
      "batch_effect b NSReceipts (receiptKey ?h (word_of_nat i)) = Some (Some v)"
      using e_rcpt i by blast
    then show ?thesis using mem.get_written [OF st _ v(2)] rcpt.dec_enc [OF that(2) v(1)] by (simp add: GetReceipt_def)
  qed
  ultimately show ?thesis using tip by blast
qed

theorem AppendBlock_indexed_witness:
  "\<exists>c1 c2. AppendBlock k0 c1 (Some next_block) [] = (c2, Some next_block, Inr ())
    \<and> HeightOf c2 (hd_Hash (c_head c2)) = Inr 1"
proof -
  obtain c1 where c1: "InitGenesis k0 chain_sample genesis_min = (c1, Inr ())" "c_ChainID c1 = 7"
    "c_head c1 = \<lparr>hd_Height = 0, hd_Hash = 0, hd_StateRoot = 0\<rparr>"
    using init_sample by blast
  obtain b where b: "represents k0 c1 [b]" using InitGenesis_represents [OF c1(1)] by (auto simp: chain_sample_def)
  then obtain c2 where c2: "AppendBlock k0 c1 (Some next_block) [] = (c2, Some next_block, Inr ())"
    using append_sample c1(2,3) by blast
  from AppendBlock_indexed [OF b c2] show ?thesis using c2 c1(3) by auto
qed

text \<open>
  a restart finds the same head, and no state. Reopening the store of a chain that represents its
  blocks gives the same head but no state manager; \<open>InitGenesis\<close> on the reopened chain, whenever it
  succeeds, returns it unchanged, so \<open>State()\<close> stays nil.
\<close>

theorem restart_loses_state:
  assumes "represents kec c bs"
  shows "chain_New (c_store c) cid = Inr (c\<lparr>c_ChainID := cid, c_mgr := None\<rparr>)
    \<and> (\<forall>g c'. InitGenesis kec (c\<lparr>c_ChainID := cid, c_mgr := None\<rparr>) g = (c', Inr ()) \<longrightarrow> c_mgr c' = None)"
proof
  have rep: "loadHead (c_store c) = Inr (Some (c_head c))"
    "mem_Get (c_store c) NSMeta KeySchemaVersion = Inr (Some (word_bytes SchemaVersion))" "HasGenesis c"
    using assms by (simp_all add: represents_def)
  then show "chain_New (c_store c) cid = Inr (c\<lparr>c_ChainID := cid, c_mgr := None\<rparr>)"
    by (cases c) (simp add: chain_New_def)
  have "check_stored_genesis (c_store c) gh \<noteq> Inr False" for gh
    using rep(3) by (auto simp: check_stored_genesis_def HasGenesis_def split: sum.splits option.splits)
  then show "\<forall>g c'. InitGenesis kec (c\<lparr>c_ChainID := cid, c_mgr := None\<rparr>) g = (c', Inr ()) \<longrightarrow> c_mgr c' = None"
    by (auto simp: InitGenesis_def and_then_def split: sum.splits option.splits prod.splits if_splits)
qed

theorem restart_loses_state_witness:
  "\<exists>c1 c2. InitGenesis k0 chain_sample genesis_min = (c1, Inr ()) \<and> c_mgr c1 \<noteq> None
    \<and> chain_New (c_store c1) 7 = Inr c2 \<and> c_mgr c2 = None"
proof -
  obtain c1 where c1: "InitGenesis k0 chain_sample genesis_min = (c1, Inr ())" using init_sample by blast
  have st: "c_store chain_sample = NewMemory" by (simp add: chain_sample_def)
  obtain b where b: "represents k0 c1 [b]" using InitGenesis_represents [OF c1 st] by blast
  have "c_mgr c1 \<noteq> None" by (rule InitGenesis_fresh [OF c1 st]) simp
  then show ?thesis using c1 conjunct1 [OF restart_loses_state [OF b]] by auto
qed

end
