(* ===== verification/RpcMethods.thy ===== *)
theory RpcMethods
  imports Rpc Chain
begin

text \<open>
  The methods of \<open>rpc/methods_chain.go\<close>. The interfaces \<open>ChainAPI\<close> and \<open>TxSubmitter\<close> are records of
  functions of the state served; a \<open>TxSubmitter\<close> that is nil is \<open>None\<close>. Each handler is a definition
  of its own. The texts of errors are abbreviated, and the members of a result that is a Go map are
  listed in the order of the source.
\<close>

section \<open>Interfaces\<close>

record 's chain_api =
  api_HasGenesis :: "'s \<Rightarrow> bool"
  api_Head :: "'s \<Rightarrow> head"
  api_ChainID :: "'s \<Rightarrow> uint64"
  api_GetBlock :: "'s \<Rightarrow> height \<Rightarrow> block res"
  api_GetBlockByHash :: "'s \<Rightarrow> hash \<Rightarrow> block res"
  api_HeightOf :: "'s \<Rightarrow> hash \<Rightarrow> height res"
  api_FindTx :: "'s \<Rightarrow> hash \<Rightarrow> (height \<times> uint32) res"
  api_GetReceipt :: "'s \<Rightarrow> height \<Rightarrow> uint32 \<Rightarrow> receipt res"
  api_GetHeader :: "'s \<Rightarrow> height \<Rightarrow> header res"

record 's tx_api =
  ta_SubmitRawTx :: "bytes \<Rightarrow> 's \<Rightarrow> 's \<times> hash res"
  ta_GetBalance :: "address \<Rightarrow> 's \<Rightarrow> string res"
  ta_GetNonce :: "address \<Rightarrow> 's \<Rightarrow> uint64 res"
  ta_Call :: "address \<Rightarrow> address \<Rightarrow> bytes \<Rightarrow> gas \<Rightarrow> 's \<Rightarrow> 's \<times> (bytes \<times> uint64 \<times> string) res"

definition ClientVersion :: string where
  "ClientVersion = ''chfault/v0.1.0-m1''"

text \<open>
  How a handler uses a result that may be an error: a panic stays a panic, any other error gives \<open>z\<close>.
\<close>

definition or_answer :: "'a res \<Rightarrow> 'b \<Rightarrow> ('a \<Rightarrow> 'b res) \<Rightarrow> 'b res" where
  "or_answer r z f = (case r of Inr x \<Rightarrow> f x | Inl e \<Rightarrow> if e = GoPanic then Inl GoPanic else Inr z)"

text \<open>The answer of a handler that does not change the state: nil, an error, or a value.\<close>

type_synonym rpc_answer = "json option rpc_res"

definition answer_nil :: rpc_answer where "answer_nil = Inr None"

definition answer_error :: "int \<Rightarrow> string \<Rightarrow> rpc_answer" where
  "answer_error code msg = Inl (NewError code msg)"

definition answer_str :: "string \<Rightarrow> rpc_answer" where
  "answer_str s = Inr (Some (JStr s))"

definition reading :: "(raw_message list \<Rightarrow> 's \<Rightarrow> rpc_answer res) \<Rightarrow> 's handler" where
  "reading f = (\<lambda>params s. res_map (\<lambda>r. (s, r)) (f params s))"

section \<open>Output\<close>

definition transactionToRPC :: "keccak \<Rightarrow> block \<Rightarrow> uint32 \<Rightarrow> json" where
  "transactionToRPC kec blk i =
     (let tx = b_Transactions blk ! unat i;
          sig = word_bytes (tx_Signature tx)
      in JObj [
        (''hash'', JStr (rpc_EncodeHash (fst (tx_Hash kec tx)))),
        (''nonce'', JStr (rpc_EncodeUint64 (tx_Nonce tx))),
        (''blockHash'', JStr (rpc_EncodeHash (value_or_zero (header_Hash kec (b_Header blk))))),
        (''blockNumber'', JStr (rpc_EncodeUint64 (h_Height (b_Header blk)))),
        (''transactionIndex'', JStr (rpc_EncodeUint64 (ucast i))),
        (''from'', JStr (rpc_EncodeAddress (tx_From tx))),
        (''to'', (case tx_To tx of None \<Rightarrow> JNull | Some a \<Rightarrow> JStr (rpc_EncodeAddress a))),
        (''value'', JStr (rpc_EncodeUint256 (tx_Value tx))),
        (''gas'', JStr (rpc_EncodeUint64 (tx_GasLimit tx))),
        (''input'', JStr (rpc_EncodeBytes (tx_Data tx))),
        (''type'', JStr (rpc_EncodeUint64 (ucast (tx_Type tx)))),
        (''chainId'', JStr (rpc_EncodeUint64 (tx_ChainID tx))),
        (''maxFeePerGas'', JStr (rpc_EncodeUint256 (tx_MaxFeePerGas tx))),
        (''maxPriorityFeePerGas'', JStr (rpc_EncodeUint256 (tx_MaxPriorityFeePerGas tx))),
        (''gasPrice'', JStr (rpc_EncodeUint256 (tx_MaxFeePerGas tx))),
        (''accessList'', JArr []),
        (''v'', JStr (rpc_EncodeUint64 (ucast (sig ! 64)))),
        (''r'', JStr (rpc_EncodeHash (bytes_word (take 32 sig)))),
        (''s'', JStr (rpc_EncodeHash (bytes_word (take 32 (drop 32 sig)))))])"

definition block_object :: "keccak \<Rightarrow> block \<Rightarrow> hash \<Rightarrow> bool \<Rightarrow> json" where
  "block_object kec blk blockHash fullTx =
     (let hdr = b_Header blk;
          txs = map (\<lambda>i. if fullTx then transactionToRPC kec blk (word_of_nat i)
            else JStr (rpc_EncodeHash (fst (tx_Hash kec (b_Transactions blk ! i))))) [0..<length (b_Transactions blk)]
      in JObj [
        (''number'', JStr (rpc_EncodeUint64 (h_Height hdr))),
        (''hash'', JStr (rpc_EncodeHash blockHash)),
        (''parentHash'', JStr (rpc_EncodeHash (h_PrevHash hdr))),
        (''nonce'', JStr ''0x0000000000000000''),
        (''sha3Uncles'', JStr (rpc_EncodeHash 0)),
        (''logsBloom'', JStr (rpc_EncodeBytes (word_bytes (h_LogsBloom hdr)))),
        (''transactionsRoot'', JStr (rpc_EncodeHash (h_TxRoot hdr))),
        (''stateRoot'', JStr (rpc_EncodeHash (h_StateRoot hdr))),
        (''receiptsRoot'', JStr (rpc_EncodeHash (h_ReceiptRoot hdr))),
        (''miner'', JStr (rpc_EncodeAddress (h_Proposer hdr))),
        (''difficulty'', JStr ''0x0''),
        (''totalDifficulty'', JStr ''0x0''),
        (''extraData'', JStr (rpc_EncodeBytes (h_ExtraData hdr))),
        (''size'', JStr (rpc_EncodeUint64 0)),
        (''gasLimit'', JStr (rpc_EncodeUint64 (h_GasLimit hdr))),
        (''gasUsed'', JStr (rpc_EncodeUint64 (h_GasUsed hdr))),
        (''timestamp'', JStr (rpc_EncodeUint64 (h_Timestamp hdr))),
        (''transactions'', JArr txs),
        (''uncles'', JArr []),
        (''baseFeePerGas'', JStr (rpc_EncodeUint256 (h_BaseFeePerGas hdr))),
        (''chainId'', JStr (rpc_EncodeUint64 (h_ChainID hdr))),
        (''round'', JStr (rpc_EncodeUint64 (ucast (h_Round hdr)))),
        (''validatorSetHash'', JStr (rpc_EncodeHash (h_ValidatorSetHash hdr))),
        (''transactionCount'', JStr (rpc_EncodeUint64 (word_of_nat (length (b_Transactions blk)))))])"

definition blockToRPC :: "keccak \<Rightarrow> 's chain_api \<Rightarrow> 's \<Rightarrow> height \<Rightarrow> bool \<Rightarrow> rpc_answer res" where
  "blockToRPC kec api s h fullTx =
     or_answer (api_GetBlock api s h) answer_nil (\<lambda>blk.
       case header_Hash kec (b_Header blk) of
         Inl _ \<Rightarrow> Inr (answer_error CodeInternalError ''block hash'')
       | Inr blockHash \<Rightarrow> Inr (Inr (Some (block_object kec blk blockHash fullTx))))"

definition logToRPC :: "height \<Rightarrow> uint32 \<Rightarrow> nat \<times> log \<Rightarrow> json" where
  "logToRPC h i = (\<lambda>(j, lg). JObj [
     (''address'', JStr (rpc_EncodeAddress (lg_Address lg))),
     (''topics'', JArr (map (\<lambda>t. JStr (rpc_EncodeHash t)) (lg_Topics lg))),
     (''data'', JStr (rpc_EncodeBytes (lg_Data lg))),
     (''blockNumber'', JStr (rpc_EncodeUint64 h)),
     (''transactionIndex'', JStr (rpc_EncodeUint64 (ucast i))),
     (''logIndex'', JStr (rpc_EncodeUint64 (word_of_nat j))),
     (''removed'', JBool False)])"

definition receiptToRPC :: "receipt \<Rightarrow> height \<Rightarrow> uint32 \<Rightarrow> json" where
  "receiptToRPC r h i = JObj [
     (''transactionHash'', JStr (rpc_EncodeHash (r_TxHash r))),
     (''transactionIndex'', JStr (rpc_EncodeUint64 (ucast i))),
     (''blockNumber'', JStr (rpc_EncodeUint64 h)),
     (''cumulativeGasUsed'', JStr (rpc_EncodeUint64 (r_CumulativeGasUsed r))),
     (''gasUsed'', JStr (rpc_EncodeUint64 (r_GasUsed r))),
     (''logs'', JArr (map (logToRPC h i) (enumerate 0 (r_Logs r)))),
     (''logsBloom'', JStr (rpc_EncodeBytes (word_bytes (r_LogsBloom r)))),
     (''status'', JStr (if r_Status r = 1 then ''0x1'' else ''0x0'')),
     (''effectiveGasPrice'', JStr (rpc_EncodeUint256 (r_EffectiveGasPrice r))),
     (''contractAddress'', (case r_ContractAddress r of None \<Rightarrow> JNull | Some a \<Rightarrow> JStr (rpc_EncodeAddress a))),
     (''type'', JStr ''0x2'')]"

section \<open>Parameters\<close>

definition resolveBlockNumber :: "'s chain_api \<Rightarrow> 's \<Rightarrow> raw_message list \<Rightarrow> nat \<Rightarrow> height rpc_res" where
  "resolveBlockNumber api s params i =
     (case OptionalParam params i of
        None \<Rightarrow> Inl (NewError CodeInvalidParams ''no block number'')
      | Some raw \<Rightarrow>
          let number = (case rpc_DecodeUint64 raw of Inl _ \<Rightarrow> Inl (NewError CodeInvalidParams ''block number'') | Inr v \<Rightarrow> Inr v) in
          if raw \<noteq> [] \<and> hd raw = CHR 0x22 then
            (case unmarshal_string raw [] of
               Inl _ \<Rightarrow> number
             | Inr tag \<Rightarrow>
                 if tag \<in> {''latest'', ''pending'', ''safe'', ''finalized''} then Inr (hd_Height (api_Head api s))
                 else if tag = ''earliest'' then Inr 0
                 else number)
          else number)"

definition full_flag :: "raw_message list \<Rightarrow> bool" where
  "full_flag params = (case OptionalParam params 1 of None \<Rightarrow> False | Some raw \<Rightarrow> unmarshal_bool raw False)"

section \<open>Handlers\<close>

definition eth_chainId :: "'s chain_api \<Rightarrow> raw_message list \<Rightarrow> 's \<Rightarrow> rpc_answer res" where
  "eth_chainId api params s = Inr (answer_str (rpc_EncodeUint64 (api_ChainID api s)))"

definition eth_blockNumber :: "'s chain_api \<Rightarrow> raw_message list \<Rightarrow> 's \<Rightarrow> rpc_answer res" where
  "eth_blockNumber api params s = Inr (answer_str (rpc_EncodeUint64 (hd_Height (api_Head api s))))"

definition eth_getBlockByNumber :: "keccak \<Rightarrow> 's chain_api \<Rightarrow> raw_message list \<Rightarrow> 's \<Rightarrow> rpc_answer res" where
  "eth_getBlockByNumber kec api params s =
     (case resolveBlockNumber api s params 0 of
        Inl e \<Rightarrow> Inr (Inl e)
      | Inr h \<Rightarrow> blockToRPC kec api s h (full_flag params))"

definition eth_getBlockByHash :: "keccak \<Rightarrow> 's chain_api \<Rightarrow> raw_message list \<Rightarrow> 's \<Rightarrow> rpc_answer res" where
  "eth_getBlockByHash kec api params s =
     (case decodeHashParam params 0 of
        Inl e \<Rightarrow> Inr (Inl e)
      | Inr hash \<Rightarrow> or_answer (api_HeightOf api s hash) answer_nil (\<lambda>h. blockToRPC kec api s h (full_flag params)))"

definition eth_getTransactionByHash :: "keccak \<Rightarrow> 's chain_api \<Rightarrow> raw_message list \<Rightarrow> 's \<Rightarrow> rpc_answer res" where
  "eth_getTransactionByHash kec api params s =
     (case decodeHashParam params 0 of
        Inl e \<Rightarrow> Inr (Inl e)
      | Inr hash \<Rightarrow>
          or_answer (api_FindTx api s hash) answer_nil (\<lambda>(h, i).
          or_answer (api_GetBlock api s h) answer_nil (\<lambda>blk.
          if unat i \<ge> length (b_Transactions blk) then Inr answer_nil
          else Inr (Inr (Some (transactionToRPC kec blk i))))))"

definition eth_getTransactionReceipt :: "'s chain_api \<Rightarrow> raw_message list \<Rightarrow> 's \<Rightarrow> rpc_answer res" where
  "eth_getTransactionReceipt api params s =
     (case decodeHashParam params 0 of
        Inl e \<Rightarrow> Inr (Inl e)
      | Inr hash \<Rightarrow>
          or_answer (api_FindTx api s hash) answer_nil (\<lambda>(h, i).
          or_answer (api_GetReceipt api s h i) answer_nil (\<lambda>r.
          Inr (Inr (Some (receiptToRPC r h i))))))"

definition eth_getCode :: "raw_message list \<Rightarrow> 's \<Rightarrow> rpc_answer res" where
  "eth_getCode params s = Inr (answer_str ''0x'')"

definition ethDisabled :: rpc_answer where
  "ethDisabled = answer_error CodeServerError ''no EVM''"

definition eth_sendRawTransaction :: "'s tx_api option \<Rightarrow> 's handler" where
  "eth_sendRawTransaction txAPI params s =
     (case txAPI of
        None \<Rightarrow> Inr (s, ethDisabled)
      | Some t \<Rightarrow>
          (case ParamBytes params 0 of
             Inl e \<Rightarrow> Inr (s, Inl e)
           | Inr raw \<Rightarrow>
               (case ta_SubmitRawTx t raw s of
                  (s, Inl e) \<Rightarrow> if e = GoPanic then Inl GoPanic else Inr (s, answer_error CodeTxRejected ''rejected'')
                | (s, Inr h) \<Rightarrow> Inr (s, answer_str (rpc_EncodeHash h)))))"

definition eth_getBalance :: "'s tx_api option \<Rightarrow> raw_message list \<Rightarrow> 's \<Rightarrow> rpc_answer res" where
  "eth_getBalance txAPI params s =
     (case txAPI of
        None \<Rightarrow> Inr ethDisabled
      | Some t \<Rightarrow>
          (case ParamAddress params 0 of
             Inl e \<Rightarrow> Inr (Inl e)
           | Inr addr \<Rightarrow> or_answer (ta_GetBalance t addr s) (answer_error CodeInternalError ''balance'') (\<lambda>bal. Inr (answer_str bal))))"

definition eth_getTransactionCount :: "'s tx_api option \<Rightarrow> raw_message list \<Rightarrow> 's \<Rightarrow> rpc_answer res" where
  "eth_getTransactionCount txAPI params s =
     (case txAPI of
        None \<Rightarrow> Inr ethDisabled
      | Some t \<Rightarrow>
          (case ParamAddress params 0 of
             Inl e \<Rightarrow> Inr (Inl e)
           | Inr addr \<Rightarrow> or_answer (ta_GetNonce t addr s) (answer_error CodeInternalError ''nonce'')
               (\<lambda>nonce. Inr (answer_str (rpc_EncodeUint64 nonce)))))"

text \<open>
  The object of \<open>eth_call\<close>. \<open>strconv.Quote\<close> around the data is undone by the decoder, so the data are
  the bytes of their hexadecimal text. An address \<open>from\<close> that does not parse is zero.
\<close>

definition call_object :: "raw_message \<Rightarrow> (string \<times> string \<times> string) res" where
  "call_object raw =
     and_then (unmarshal_object raw) (\<lambda>kvs.
     and_then (string_field ''to'' kvs) (\<lambda>to.
     and_then (string_field ''data'' kvs) (\<lambda>dat.
     and_then (string_field ''from'' kvs) (\<lambda>from. Inr (to, dat, from)))))"

definition eth_call :: "'s tx_api option \<Rightarrow> 's handler" where
  "eth_call txAPI params s =
     (case txAPI of
        None \<Rightarrow> Inr (s, ethDisabled)
      | Some t \<Rightarrow>
          (case Param params 0 of
             Inl e \<Rightarrow> Inr (s, Inl e)
           | Inr raw \<Rightarrow>
               (case call_object raw of
                  Inl _ \<Rightarrow> Inr (s, answer_error CodeInvalidParams ''txObject'')
                | Inr (toStr, datStr, fromStr) \<Rightarrow>
                    (case ParseAddressStr toStr of
                       Inl _ \<Rightarrow> Inr (s, answer_error CodeInvalidParams ''to'')
                     | Inr to \<Rightarrow>
                         let from = (if fromStr \<noteq> [] then value_or_zero (ParseAddressStr fromStr) else 0) in
                         (case hex_body datStr of
                            Inl _ \<Rightarrow> Inr (s, answer_error CodeInvalidParams ''data'')
                          | Inr dat \<Rightarrow>
                              (case ta_Call t from to dat 50000000 s of
                                 (s, Inl e) \<Rightarrow> if e = GoPanic then Inl GoPanic else Inr (s, answer_error CodeInternalError ''call'')
                               | (s, Inr (result, _, vmErr)) \<Rightarrow>
                                   Inr (s, if vmErr \<noteq> [] then answer_error CodeTxRejected vmErr
                                     else answer_str (rpc_EncodeBytes result))))))))"

definition net_version :: "'s chain_api \<Rightarrow> raw_message list \<Rightarrow> 's \<Rightarrow> rpc_answer res" where
  "net_version api params s = Inr (answer_str (dec_string (unat (api_ChainID api s))))"

definition net_listening :: "raw_message list \<Rightarrow> 's \<Rightarrow> rpc_answer res" where
  "net_listening params s = Inr (Inr (Some (JBool True)))"

definition web3_clientVersion :: "raw_message list \<Rightarrow> 's \<Rightarrow> rpc_answer res" where
  "web3_clientVersion params s = Inr (answer_str ClientVersion)"

definition chfault_status :: "'s chain_api \<Rightarrow> raw_message list \<Rightarrow> 's \<Rightarrow> rpc_answer res" where
  "chfault_status api params s =
     (let head = api_Head api s in
      Inr (Inr (Some (JObj [
        (''chainId'', JStr (rpc_EncodeUint64 (api_ChainID api s))),
        (''height'', JStr (rpc_EncodeUint64 (hd_Height head))),
        (''blockHash'', JStr (rpc_EncodeHash (hd_Hash head))),
        (''stateRoot'', JStr (rpc_EncodeHash (hd_StateRoot head))),
        (''clientVersion'', JStr ClientVersion),
        (''initialized'', JBool (api_HasGenesis api s))]))))"

section \<open>Registration\<close>

definition spec_of :: "string \<Rightarrow> string list \<Rightarrow> nat \<Rightarrow> bool \<Rightarrow> 's handler \<Rightarrow> 's method_spec" where
  "spec_of name params maxParams requireLive f =
     \<lparr>md_Name = name, md_Namespace = [], md_Params = params, md_MaxParams = maxParams, md_Handler = Some f, md_RequireLive = requireLive\<rparr>"

definition chain_methods :: "keccak \<Rightarrow> 's chain_api \<Rightarrow> 's tx_api option \<Rightarrow> 's method_spec list" where
  "chain_methods kec api txAPI = [
     spec_of ''eth_chainId'' [] 0 False (reading (eth_chainId api)),
     spec_of ''eth_blockNumber'' [] 0 True (reading (eth_blockNumber api)),
     spec_of ''eth_getBlockByNumber'' [''blockNumber'', ''fullTransactions''] 2 True (reading (eth_getBlockByNumber kec api)),
     spec_of ''eth_getBlockByHash'' [''blockHash'', ''fullTransactions''] 2 True (reading (eth_getBlockByHash kec api)),
     spec_of ''eth_getTransactionByHash'' [''txHash''] 0 True (reading (eth_getTransactionByHash kec api)),
     spec_of ''eth_getTransactionReceipt'' [''txHash''] 0 True (reading (eth_getTransactionReceipt api)),
     spec_of ''eth_getCode'' [''address'', ''blockNumber''] 2 True (reading eth_getCode),
     spec_of ''eth_sendRawTransaction'' [''signedTx''] 1 True (eth_sendRawTransaction txAPI),
     spec_of ''eth_getBalance'' [''address'', ''blockNumber''] 2 True (reading (eth_getBalance txAPI)),
     spec_of ''eth_getTransactionCount'' [''address'', ''blockNumber''] 2 True (reading (eth_getTransactionCount txAPI)),
     spec_of ''eth_call'' [''txObject'', ''blockNumber''] 2 True (eth_call txAPI),
     spec_of ''net_version'' [] 0 False (reading (net_version api)),
     spec_of ''net_listening'' [] 0 False (reading net_listening),
     spec_of ''web3_clientVersion'' [] 0 False (reading web3_clientVersion),
     spec_of ''chfault_status'' [] 0 True (reading (chfault_status api))]"

text \<open>The parameter \<open>live\<close> of the source is not used.\<close>

definition RegisterChainMethods ::
    "keccak \<Rightarrow> 's chain_api \<Rightarrow> 's tx_api option \<Rightarrow> 's registry \<Rightarrow> 's registry res" where
  "RegisterChainMethods kec api txAPI reg = each Register (chain_methods kec api txAPI) reg"

section \<open>What is registered\<close>

lemma chain_methods_names: "map md_Name (chain_methods kec api txAPI) = [''eth_chainId'', ''eth_blockNumber'',
   ''eth_getBlockByNumber'', ''eth_getBlockByHash'', ''eth_getTransactionByHash'', ''eth_getTransactionReceipt'', ''eth_getCode'',
   ''eth_sendRawTransaction'', ''eth_getBalance'', ''eth_getTransactionCount'', ''eth_call'', ''net_version'', ''net_listening'',
   ''web3_clientVersion'', ''chfault_status'']"
  by (simp add: chain_methods_def spec_of_def)

lemma chain_methods_valid: "list_all valid_spec (chain_methods kec api txAPI)"
  by (simp add: chain_methods_def spec_of_def valid_spec_def namespace_of_def)

lemma chain_methods_distinct: "distinct (map md_Name (chain_methods kec api txAPI))"
  unfolding chain_methods_names by code_simp

lemma RegisterChainMethods_registry:
  "\<exists>r. RegisterChainMethods kec api txAPI NewRegistry = Inr r \<and> registry_of (chain_methods kec api txAPI) r"
  using MustRegister_iff [of "chain_methods kec api txAPI"] chain_methods_valid [of kec api txAPI] chain_methods_distinct [of kec api txAPI]
  by (simp add: MustRegister_def RegisterChainMethods_def split: sum.splits)

text \<open>Looking a method up gives its specification, with what registration fills in.\<close>

lemma registry_of_Lookup:
  assumes "registry_of specs r" "distinct (map md_Name specs)" "spec \<in> set specs"
  shows "Lookup (md_Name spec) r = Some (full_spec spec)"
proof -
  have "find (\<lambda>s. md_Name s = md_Name spec) (map full_spec specs) = Some (full_spec spec)"
    using assms(2,3) by (induction specs) (auto simp: rev_image_eqI)
  then show ?thesis using assms(1) by (simp add: registry_of_def)
qed

lemmas registered = registry_of_Lookup [OF _ chain_methods_distinct]

text \<open>
  the methods of the chain are registered. On a new registry registration does not panic, every name then
  looks up its own method and an unknown name none, the methods of the namespace \<open>eth\<close> are listed in
  order, and registering them once more panics.
\<close>

theorem RegisterChainMethods_complete:
  "case RegisterChainMethods kec api txAPI NewRegistry of
     Inl _ \<Rightarrow> False
   | Inr r \<Rightarrow> (\<forall>name. Lookup name r = find (\<lambda>s. md_Name s = name) (map full_spec (chain_methods kec api txAPI))) \<and>
       MethodsIn ''eth'' r = [''eth_blockNumber'', ''eth_call'', ''eth_chainId'', ''eth_getBalance'', ''eth_getBlockByHash'',
         ''eth_getBlockByNumber'', ''eth_getCode'', ''eth_getTransactionByHash'', ''eth_getTransactionCount'',
         ''eth_getTransactionReceipt'', ''eth_sendRawTransaction''] \<and>
       RegisterChainMethods kec api txAPI r = Inl GoPanic"
proof -
  obtain r where r: "RegisterChainMethods kec api txAPI NewRegistry = Inr r" "registry_of (chain_methods kec api txAPI) r"
    using RegisterChainMethods_registry by blast
  have "map md_Name (filter (\<lambda>s. md_Namespace s = ''eth'') (map full_spec (chain_methods kec api txAPI))) =
      [''eth_chainId'', ''eth_blockNumber'', ''eth_getBlockByNumber'', ''eth_getBlockByHash'', ''eth_getTransactionByHash'',
       ''eth_getTransactionReceipt'', ''eth_getCode'', ''eth_sendRawTransaction'', ''eth_getBalance'', ''eth_getTransactionCount'', ''eth_call'']"
    by (simp add: chain_methods_def spec_of_def full_spec_def namespace_of_def)
  then have eth: "MethodsIn ''eth'' r = sort [''eth_chainId'', ''eth_blockNumber'', ''eth_getBlockByNumber'', ''eth_getBlockByHash'',
       ''eth_getTransactionByHash'', ''eth_getTransactionReceipt'', ''eth_getCode'', ''eth_sendRawTransaction'', ''eth_getBalance'',
       ''eth_getTransactionCount'', ''eth_call'']"
    using r(2) by (simp add: registry_of_def del: sort_key_simps)
  have first: "hd (chain_methods kec api txAPI) \<in> set (chain_methods kec api txAPI)" by (simp add: chain_methods_def)
  from registered [OF r(2) first] have "Register (hd (chain_methods kec api txAPI)) r = Inl GoPanic"
    by (simp add: Register_result Lookup_def)
  moreover have "chain_methods kec api txAPI = hd (chain_methods kec api txAPI) # tl (chain_methods kec api txAPI)"
    by (simp add: chain_methods_def)
  ultimately have "RegisterChainMethods kec api txAPI r = Inl GoPanic"
    unfolding RegisterChainMethods_def by (metis each.simps(2) and_then_simps(1))
  moreover have "sort [''eth_chainId'', ''eth_blockNumber'', ''eth_getBlockByNumber'', ''eth_getBlockByHash'',
       ''eth_getTransactionByHash'', ''eth_getTransactionReceipt'', ''eth_getCode'', ''eth_sendRawTransaction'', ''eth_getBalance'',
       ''eth_getTransactionCount'', ''eth_call''] = [''eth_blockNumber'', ''eth_call'', ''eth_chainId'', ''eth_getBalance'', ''eth_getBlockByHash'',
         ''eth_getBlockByNumber'', ''eth_getCode'', ''eth_getTransactionByHash'', ''eth_getTransactionCount'',
         ''eth_getTransactionReceipt'', ''eth_sendRawTransaction'']"
    by code_simp
  ultimately show ?thesis using r eth by (simp add: registry_of_def del: sort_key_simps)
qed

section \<open>Answering a registered method\<close>

lemma Lookup_method:
  assumes "RegisterChainMethods kec api txAPI NewRegistry = Inr r" "spec \<in> set (chain_methods kec api txAPI)"
  shows "Lookup (md_Name spec) r = Some (full_spec spec)"
  using RegisterChainMethods_registry [of kec api txAPI] registered [of kec api txAPI r spec] assms by simp

text \<open>What a request of a registered method gives, in terms of its handler.\<close>

lemma handleOne_method:
  assumes "rq_JSONRPC req = [] \<or> rq_JSONRPC req = ''2.0''" "rq_Method req \<noteq> []"
    "Lookup (rq_Method req) (ds_registry d) = Some (full_spec (spec_of (rq_Method req) names maxParams requireLive f))"
    "ds_ReadyFunc d = Some ready" "ready s"
    "ParseParams (rq_Params req) = Inr params" "length params \<le> (if maxParams = 0 then length names else maxParams)"
  shows "handleOne d req s = res_map (\<lambda>(s, r). (s, case r of
       Inl e \<Rightarrow> \<lparr>rs_Result = None, rs_Error = Some e, rs_ID = []\<rparr>
     | Inr result \<Rightarrow> \<lparr>rs_Result = result, rs_Error = None, rs_ID = []\<rparr>)) (f params s)"
  using assms by (auto simp: handleOne_def full_spec_def spec_of_def)

lemma quoted_not_object: "unmarshal_object (quoted t) = Inl ErrJSON"
  by (simp add: unmarshal_object_def Let_def skip_ws_def quoted_def json_space_def)

text \<open>A parameter that names a height: its hexadecimal form or one of the tags.\<close>

definition names_height :: "raw_message \<Rightarrow> height \<Rightarrow> height \<Rightarrow> bool" where
  "names_height p tip h \<longleftrightarrow> p = quoted (rpc_EncodeUint64 h) \<or> p = quoted ''latest'' \<and> h = tip \<or> p = quoted ''earliest'' \<and> h = 0"

lemma EncodeUint64_printable: "printable (rpc_EncodeUint64 h)"
  using hex_printable [of "hex_string (unat h)"] hex_string_digits [of "unat h"]
  by (simp add: rpc_EncodeUint64_def printable_def)

lemma resolve_height:
  assumes "names_height p (hd_Height (api_Head api s)) h"
  shows "resolveBlockNumber api s (p # rest) 0 = Inr h"
proof -
  have tag: "unmarshal_string (quoted ''latest'') [] = Inr ''latest''" "unmarshal_string (quoted ''earliest'') [] = Inr ''earliest''"
    by (rule unmarshal_printable, simp add: printable_def)+
  have "rpc_EncodeUint64 h \<notin> {''latest'', ''pending'', ''safe'', ''finalized''}" "rpc_EncodeUint64 h \<noteq> ''earliest''"
    by (simp_all add: rpc_EncodeUint64_def)
  then have "resolveBlockNumber api s (quoted (rpc_EncodeUint64 h) # rest) 0 = Inr h"
    using unmarshal_printable [OF EncodeUint64_printable]
    by (simp add: resolveBlockNumber_def OptionalParam_def DecodeUint64_Encode Let_def)
  then show ?thesis using assms tag
    by (auto simp: names_height_def resolveBlockNumber_def OptionalParam_def)
qed

section \<open>Reading a chain of blocks\<close>

text \<open>
  What the block methods need of \<open>ChainAPI\<close>: the state holds a list of blocks, from height 0 to the head,
  a height on the list gives what its block reads back as, never a panic, and any other height an error;
  headers that are read have hashes.
\<close>

locale chain_reader =
  fixes kec :: keccak and api :: "'s chain_api" and holds :: "'s \<Rightarrow> block list \<Rightarrow> bool" and reads :: "block \<Rightarrow> block res"
  assumes block: "holds s bs \<Longrightarrow> unat h < length bs \<Longrightarrow> api_GetBlock api s h = reads (bs ! unat h)"
    and no_block: "holds s bs \<Longrightarrow> \<not> unat h < length bs \<Longrightarrow> \<exists>e. api_GetBlock api s h = Inl e \<and> e \<noteq> GoPanic"
    and no_panic: "holds s bs \<Longrightarrow> i < length bs \<Longrightarrow> reads (bs ! i) \<noteq> Inl GoPanic"
    and top: "holds s bs \<Longrightarrow> Suc (unat (hd_Height (api_Head api s))) = length bs"
    and hashed: "holds s bs \<Longrightarrow> i < length bs \<Longrightarrow> reads (bs ! i) = Inr b \<Longrightarrow> \<exists>x. header_Hash kec (b_Header b) = Inr x"
begin

definition shown :: "block list \<Rightarrow> height \<Rightarrow> bool \<Rightarrow> json option" where
  "shown bs h full = (if unat h < length bs
     then case reads (bs ! unat h) of Inl _ \<Rightarrow> None
       | Inr b \<Rightarrow> Some (block_object kec b (value_or_zero (header_Hash kec (b_Header b))) full)
     else None)"

lemma blockToRPC_held:
  assumes "holds s bs"
  shows "blockToRPC kec api s h full = Inr (Inr (shown bs h full))"
proof (cases "unat h < length bs")
  case True
  note b = block [OF assms True] no_panic [OF assms True] hashed [OF assms True]
  show ?thesis
  proof (cases "reads (bs ! unat h)")
    case (Inl e)
    then show ?thesis using True b by (simp add: blockToRPC_def or_answer_def answer_nil_def shown_def)
  next
    case (Inr x)
    then obtain y where "header_Hash kec (b_Header x) = Inr y" using b(3) by blast
    then show ?thesis using True b(1) Inr by (simp add: blockToRPC_def or_answer_def value_or_zero_def shown_def)
  qed
next
  case False
  then show ?thesis using no_block [OF assms False] by (auto simp: blockToRPC_def or_answer_def answer_nil_def shown_def)
qed

lemma getBlockByNumber_held:
  assumes "holds s bs" "names_height p (hd_Height (api_Head api s)) h"
  shows "eth_getBlockByNumber kec api [p] s = Inr (Inr (shown bs h False))"
  using resolve_height [of p api s h "[]"] assms
  by (simp add: eth_getBlockByNumber_def full_flag_def OptionalParam_def blockToRPC_held)

lemma latest_held: "holds s bs \<Longrightarrow> unat (hd_Height (api_Head api s)) < length bs"
  using top by fastforce

end

end
