(* ===== verification/StateDB.thy ===== *)
theory StateDB
  imports State
begin

text \<open>
  The adapter between go-ethereum's EVM and a session: \<open>vm/statedb.go\<close>. The 256-bit integers of
  \<open>holiman/uint256\<close> are a type \<open>'u\<close> whose operations are the record \<open>holiman\<close>; logs are of any
  type \<open>'l\<close>. The session is the memory session, together with its manager. Addresses and hashes
  are converted by Go type conversions and need none here.
\<close>

section \<open>The integers of the EVM\<close>

record 'u holiman =
  hu_SetBytes :: "bytes \<Rightarrow> 'u"
  hu_Add :: "'u \<Rightarrow> 'u \<Rightarrow> 'u"
  hu_Sub :: "'u \<Rightarrow> 'u \<Rightarrow> 'u"
  hu_Sign :: "'u \<Rightarrow> int"
  hu_IsUint64 :: "'u \<Rightarrow> bool"
  hu_BitLen :: "'u \<Rightarrow> nat"
  hu_Bytes32 :: "'u \<Rightarrow> bytes"
  hu_zero :: 'u

text \<open>
  What the library documents, for the value \<open>v x\<close> of an integer \<open>x\<close>: 256 bits, addition and
  subtraction wrap, and \<open>Sign\<close> reads the value as a two's complement number.
\<close>

definition holiman_ok :: "'u holiman \<Rightarrow> ('u \<Rightarrow> uint256) \<Rightarrow> bool" where
  "holiman_ok H v \<longleftrightarrow>
     (\<forall>b. length b = 32 \<longrightarrow> v (hu_SetBytes H b) = bytes_word b) \<and>
     (\<forall>x y. v (hu_Add H x y) = v x + v y) \<and> (\<forall>x y. v (hu_Sub H x y) = v x - v y) \<and>
     (\<forall>x. hu_Sign H x = (if v x = 0 then 0 else if bit (v x) 255 then -1 else 1)) \<and>
     (\<forall>x. hu_BitLen H x \<le> 256) \<and> (\<forall>x. hu_Bytes32 H x = word_bytes (v x)) \<and>
     hu_zero H = hu_SetBytes H (replicate 32 0)"

definition toGethU256 :: "'u holiman \<Rightarrow> uint256 \<Rightarrow> 'u" where
  "toGethU256 H v = hu_SetBytes H (word_bytes v)"

definition fromGethU256 :: "'u holiman \<Rightarrow> 'u option \<Rightarrow> uint256 res" where
  "fromGethU256 H v =
     (case v of
        None \<Rightarrow> Inr zero_uint256
      | Some v \<Rightarrow>
          if \<not> hu_IsUint64 H v \<and> hu_BitLen H v > 256 then Inl (ErrOther ''uint256'')
          else Inr (bytes_word (hu_Bytes32 H v)))"

section \<open>The adapter\<close>

record transientChange =
  tc_id :: nat
  tc_addr :: address
  tc_key :: hash
  tc_old :: hash

record 'l adapter =
  ad_ms :: "manager \<times> session"
  ad_logs :: "'l list"
  ad_refund :: uint64
  ad_transient :: "(address, (hash, hash) fmap) fmap"
  ad_selfDestructed :: "(address, bool) fmap"
  ad_accessListAddresses :: "address fset"
  ad_accessListSlots :: "(address, hash fset) fmap"
  ad_txHash :: hash
  ad_txIndex :: int
  ad_snapDepth :: nat
  ad_transientJournal :: "transientChange list"

definition NewStateDBAdapter :: "manager \<times> session \<Rightarrow> 'l adapter" where
  "NewStateDBAdapter ms = \<lparr>ad_ms = ms, ad_logs = [], ad_refund = 0, ad_transient = fmempty,
     ad_selfDestructed = fmempty, ad_accessListAddresses = {||}, ad_accessListSlots = fmempty,
     ad_txHash = 0, ad_txIndex = 0, ad_snapDepth = 0, ad_transientJournal = []\<rparr>"

definition SetTxContext :: "hash \<Rightarrow> int \<Rightarrow> 'l adapter \<Rightarrow> 'l adapter" where
  "SetTxContext thash ti a = a\<lparr>ad_txHash := thash, ad_txIndex := ti\<rparr>"

text \<open>A setter of the session; the adapter drops the errors of the session.\<close>

definition on_session :: "(session \<Rightarrow> session res) \<Rightarrow> 'l adapter \<Rightarrow> 'l adapter res" where
  "on_session f a =
     (case f (snd (ad_ms a)) of
        Inr s \<Rightarrow> Inr (a\<lparr>ad_ms := (fst (ad_ms a), s)\<rparr>)
      | Inl e \<Rightarrow> if e = GoPanic then Inl GoPanic else Inr a)"

definition db_CreateAccount :: "address \<Rightarrow> 'l adapter \<Rightarrow> 'l adapter res" where
  "db_CreateAccount addr a =
     and_then (on_session (SetNonce addr 0) a) (on_session (SetBalance addr zero_uint256))"

definition db_CreateContract :: "address \<Rightarrow> 'l adapter \<Rightarrow> 'l adapter res" where
  "db_CreateContract addr a = on_session (SetNonce addr 1) a"

definition db_GetBalance :: "'u holiman \<Rightarrow> 'l adapter \<Rightarrow> address \<Rightarrow> 'u" where
  "db_GetBalance H a addr =
     (case GetAccount (snd (ad_ms a)) addr of Inl _ \<Rightarrow> hu_zero H | Inr acc \<Rightarrow> toGethU256 H (acc_Balance acc))"

definition db_SubBalance :: "'u holiman \<Rightarrow> address \<Rightarrow> 'u \<Rightarrow> 'l adapter \<Rightarrow> ('l adapter \<times> 'u) res" where
  "db_SubBalance H addr amount a =
     (let cur = (case GetAccount (snd (ad_ms a)) addr of Inl _ \<Rightarrow> hu_zero H | Inr acc \<Rightarrow> toGethU256 H (acc_Balance acc));
          newVal = hu_Sub H cur amount
      in if hu_Sign H newVal < 0 then Inl GoPanic
         else
           let chfVal = (case fromGethU256 H (Some newVal) of Inl _ \<Rightarrow> zero_uint256 | Inr c \<Rightarrow> c)
           in res_map (\<lambda>a. (a, newVal)) (on_session (SetBalance addr chfVal) a))"

definition db_AddBalance :: "'u holiman \<Rightarrow> address \<Rightarrow> 'u \<Rightarrow> 'l adapter \<Rightarrow> ('l adapter \<times> 'u) res" where
  "db_AddBalance H addr amount a =
     (let cur = (case GetAccount (snd (ad_ms a)) addr of Inl _ \<Rightarrow> hu_zero H | Inr acc \<Rightarrow> toGethU256 H (acc_Balance acc));
          newVal = hu_Add H cur amount
      in case fromGethU256 H (Some newVal) of
           Inl _ \<Rightarrow> Inl GoPanic
         | Inr chfVal \<Rightarrow> res_map (\<lambda>a. (a, newVal)) (on_session (SetBalance addr chfVal) a))"

definition db_GetNonce :: "'l adapter \<Rightarrow> address \<Rightarrow> uint64" where
  "db_GetNonce a addr = (case GetAccount (snd (ad_ms a)) addr of Inl _ \<Rightarrow> 0 | Inr acc \<Rightarrow> acc_Nonce acc)"

definition db_SetNonce :: "address \<Rightarrow> uint64 \<Rightarrow> 'l adapter \<Rightarrow> 'l adapter res" where
  "db_SetNonce addr n a = on_session (SetNonce addr n) a"

definition db_GetCodeHash :: "'l adapter \<Rightarrow> address \<Rightarrow> hash" where
  "db_GetCodeHash a addr = (case GetAccount (snd (ad_ms a)) addr of Inl _ \<Rightarrow> 0 | Inr acc \<Rightarrow> acc_CodeHash acc)"

definition db_GetCode :: "'l adapter \<Rightarrow> address \<Rightarrow> bytes" where
  "db_GetCode a addr = (case GetCode (fst (ad_ms a)) (snd (ad_ms a)) addr of Inl _ \<Rightarrow> [] | Inr c \<Rightarrow> c)"

definition db_GetCodeSize :: "'l adapter \<Rightarrow> address \<Rightarrow> nat" where
  "db_GetCodeSize a addr = length (db_GetCode a addr)"

definition db_SetCode :: "keccak \<Rightarrow> address \<Rightarrow> bytes \<Rightarrow> 'l adapter \<Rightarrow> ('l adapter \<times> bytes) res" where
  "db_SetCode kec addr code a =
     (let old = db_GetCode a addr in
      case SetCode kec addr code (ad_ms a) of
        Inr ms \<Rightarrow> Inr (a\<lparr>ad_ms := ms\<rparr>, old)
      | Inl e \<Rightarrow> if e = GoPanic then Inl GoPanic else Inr (a, old))"

section \<open>Refunds, storage and transient storage\<close>

definition db_AddRefund :: "uint64 \<Rightarrow> 'l adapter \<Rightarrow> 'l adapter" where
  "db_AddRefund g a = a\<lparr>ad_refund := ad_refund a + g\<rparr>"

definition db_SubRefund :: "uint64 \<Rightarrow> 'l adapter \<Rightarrow> 'l adapter res" where
  "db_SubRefund g a = (if g > ad_refund a then Inl GoPanic else Inr (a\<lparr>ad_refund := ad_refund a - g\<rparr>))"

definition db_GetRefund :: "'l adapter \<Rightarrow> uint64" where
  "db_GetRefund a = ad_refund a"

definition db_GetState :: "'l adapter \<Rightarrow> address \<Rightarrow> hash \<Rightarrow> hash" where
  "db_GetState a addr key = GetStorage (snd (ad_ms a)) addr key"

definition db_GetCommittedState :: "'l adapter \<Rightarrow> address \<Rightarrow> hash \<Rightarrow> hash" where
  "db_GetCommittedState a addr key = db_GetState a addr key"

definition db_GetStateAndCommittedState :: "'l adapter \<Rightarrow> address \<Rightarrow> hash \<Rightarrow> hash \<times> hash" where
  "db_GetStateAndCommittedState a addr key = (let v = db_GetState a addr key in (v, v))"

definition db_SetState :: "address \<Rightarrow> hash \<Rightarrow> hash \<Rightarrow> 'l adapter \<Rightarrow> 'l adapter \<times> hash" where
  "db_SetState addr key v a =
     (let old = db_GetState a addr key
      in (a\<lparr>ad_ms := (fst (ad_ms a), SetStorage addr key v (snd (ad_ms a)))\<rparr>, old))"

definition slot_of :: "(hash, hash) fmap \<Rightarrow> hash \<Rightarrow> hash" where
  "slot_of m key = (case fmlookup m key of None \<Rightarrow> 0 | Some v \<Rightarrow> v)"

definition db_GetTransientState :: "'l adapter \<Rightarrow> address \<Rightarrow> hash \<Rightarrow> hash" where
  "db_GetTransientState a addr key =
     (case fmlookup (ad_transient a) addr of Some m \<Rightarrow> slot_of m key | None \<Rightarrow> 0)"

definition db_SetTransientState :: "address \<Rightarrow> hash \<Rightarrow> hash \<Rightarrow> 'l adapter \<Rightarrow> 'l adapter" where
  "db_SetTransientState addr key v a =
     (let m = (case fmlookup (ad_transient a) addr of None \<Rightarrow> fmempty | Some m \<Rightarrow> m);
          old = slot_of m key
      in a\<lparr>ad_transient := fmupd addr (fmupd key v m) (ad_transient a),
           ad_transientJournal := ad_transientJournal a @
             [\<lparr>tc_id = ad_snapDepth a, tc_addr = addr, tc_key = key, tc_old = old\<rparr>]\<rparr>)"

section \<open>Self-destruct and existence\<close>

definition db_SelfDestruct :: "address \<Rightarrow> 'l adapter \<Rightarrow> 'l adapter res" where
  "db_SelfDestruct addr a =
     res_map (\<lambda>a. a\<lparr>ad_selfDestructed := fmupd addr True (ad_selfDestructed a)\<rparr>)
       (on_session (SetBalance addr zero_uint256) a)"

definition db_Selfdestruct6780 :: "address \<Rightarrow> 'l adapter \<Rightarrow> 'l adapter res" where
  "db_Selfdestruct6780 addr a = db_SelfDestruct addr a"

definition db_HasSelfDestructed :: "'l adapter \<Rightarrow> address \<Rightarrow> bool" where
  "db_HasSelfDestructed a addr = (case fmlookup (ad_selfDestructed a) addr of None \<Rightarrow> False | Some b \<Rightarrow> b)"

definition db_Exist :: "'l adapter \<Rightarrow> address \<Rightarrow> bool" where
  "db_Exist a addr = (case GetAccount (snd (ad_ms a)) addr of Inl _ \<Rightarrow> False | Inr _ \<Rightarrow> True)"

definition db_Touch :: "address \<Rightarrow> 'l adapter \<Rightarrow> 'l adapter res" where
  "db_Touch addr a = (if \<not> db_Exist a addr then db_CreateAccount addr a else Inr a)"

definition db_IsNewContract :: "'l adapter \<Rightarrow> address \<Rightarrow> bool" where
  "db_IsNewContract a addr = False"

definition db_Empty :: "'l adapter \<Rightarrow> address \<Rightarrow> bool" where
  "db_Empty a addr =
     (case GetAccount (snd (ad_ms a)) addr of
        Inl _ \<Rightarrow> True
      | Inr acc \<Rightarrow> uint256_is_zero (acc_Balance acc) \<and> acc_Nonce acc = 0 \<and> length (db_GetCode a addr) = 0)"

section \<open>The access list\<close>

definition db_AddressInAccessList :: "'l adapter \<Rightarrow> address \<Rightarrow> bool" where
  "db_AddressInAccessList a addr \<longleftrightarrow> addr |\<in>| ad_accessListAddresses a"

definition db_SlotInAccessList :: "'l adapter \<Rightarrow> address \<Rightarrow> hash \<Rightarrow> bool \<times> bool" where
  "db_SlotInAccessList a addr slot =
     (let aOk = addr |\<in>| ad_accessListAddresses a in
      case fmlookup (ad_accessListSlots a) addr of
        None \<Rightarrow> (aOk, False) | Some ss \<Rightarrow> (aOk, slot |\<in>| ss))"

definition db_AddAddressToAccessList :: "address \<Rightarrow> 'l adapter \<Rightarrow> 'l adapter" where
  "db_AddAddressToAccessList addr a = a\<lparr>ad_accessListAddresses := finsert addr (ad_accessListAddresses a)\<rparr>"

definition db_AddSlotToAccessList :: "address \<Rightarrow> hash \<Rightarrow> 'l adapter \<Rightarrow> 'l adapter" where
  "db_AddSlotToAccessList addr slot a =
     (let a = db_AddAddressToAccessList addr a;
          ss = (case fmlookup (ad_accessListSlots a) addr of None \<Rightarrow> {||} | Some ss \<Rightarrow> ss)
      in a\<lparr>ad_accessListSlots := fmupd addr (finsert slot ss) (ad_accessListSlots a)\<rparr>)"

text \<open>Of go-ethereum's \<open>Rules\<close>, the two flags \<open>Prepare\<close> reads; an access tuple is an address and its keys.\<close>

record rules =
  IsBerlin :: bool
  IsShanghai :: bool

definition prewarm_tuple :: "address \<times> hash list \<Rightarrow> 'l adapter \<Rightarrow> 'l adapter" where
  "prewarm_tuple acc a =
     foldl (\<lambda>a slot. db_AddSlotToAccessList (fst acc) slot a) (db_AddAddressToAccessList (fst acc) a) (snd acc)"

definition db_Prepare :: "rules \<Rightarrow> address \<Rightarrow> address \<Rightarrow> address option \<Rightarrow> address list \<Rightarrow> (address \<times> hash list) list \<Rightarrow>
    'l adapter \<Rightarrow> 'l adapter" where
  "db_Prepare rules sender coinbase dest precompiles txAccesses a =
     (if IsBerlin rules then
        let a = db_AddAddressToAccessList sender a;
            a = (case dest of None \<Rightarrow> a | Some d \<Rightarrow> db_AddAddressToAccessList d a);
            a = foldl (\<lambda>a addr. db_AddAddressToAccessList addr a) a precompiles;
            a = foldl (\<lambda>a acc. prewarm_tuple acc a) a txAccesses
        in if IsShanghai rules then (if coinbase \<noteq> 0 then db_AddAddressToAccessList coinbase a else a) else a
      else a)"

text \<open>Warming up does not touch the session.\<close>

lemma AddAddress_ms [simp]: "ad_ms (db_AddAddressToAccessList x a) = ad_ms a"
  by (simp add: db_AddAddressToAccessList_def)

lemma AddSlot_ms [simp]: "ad_ms (db_AddSlotToAccessList x k a) = ad_ms a"
  by (simp add: db_AddSlotToAccessList_def Let_def)

lemma foldl_ms: "(\<And>x a. ad_ms (f a x) = ad_ms a) \<Longrightarrow> ad_ms (foldl f a xs) = ad_ms a"
  by (induction xs arbitrary: a) simp_all

lemma AddAddress_logs [simp]: "ad_logs (db_AddAddressToAccessList x a) = ad_logs a"
  by (simp add: db_AddAddressToAccessList_def)

lemma AddSlot_logs [simp]: "ad_logs (db_AddSlotToAccessList x k a) = ad_logs a"
  by (simp add: db_AddSlotToAccessList_def Let_def)

lemma foldl_logs: "(\<And>x a. ad_logs (f a x) = ad_logs a) \<Longrightarrow> ad_logs (foldl f a xs) = ad_logs a"
  by (induction xs arbitrary: a) simp_all

lemma Prepare_logs [simp]: "ad_logs (db_Prepare rules sender coinbase dest pre accs a) = ad_logs a"
  by (simp add: db_Prepare_def Let_def foldl_logs prewarm_tuple_def split: option.split)

lemma Prepare_ms [simp]: "ad_ms (db_Prepare rules sender coinbase dest pre accs a) = ad_ms a"
  by (simp add: db_Prepare_def Let_def foldl_ms prewarm_tuple_def split: option.split)

section \<open>Logs, snapshots and reverting\<close>

definition db_AddLog :: "'l \<Rightarrow> 'l adapter \<Rightarrow> 'l adapter" where
  "db_AddLog l a = a\<lparr>ad_logs := ad_logs a @ [l]\<rparr>"

definition db_Snapshot :: "'l adapter \<Rightarrow> nat \<times> 'l adapter" where
  "db_Snapshot a = (let a = a\<lparr>ad_snapDepth := ad_snapDepth a + 1\<rparr> in (Savepoint (snd (ad_ms a)), a))"

definition undo_transient :: "transientChange \<Rightarrow> (address, (hash, hash) fmap) fmap \<Rightarrow> (address, (hash, hash) fmap) fmap" where
  "undo_transient c t =
     (case fmlookup t (tc_addr c) of
        None \<Rightarrow> t
      | Some m \<Rightarrow> fmupd (tc_addr c)
          (if tc_old c = 0 then fmdrop (tc_key c) m else fmupd (tc_key c) (tc_old c) m) t)"

text \<open>The loop from the last change down to the first of an older snapshot.\<close>

fun undo_transients :: "nat \<Rightarrow> transientChange list \<Rightarrow> (address, (hash, hash) fmap) fmap \<Rightarrow>
    (address, (hash, hash) fmap) fmap" where
  "undo_transients n [] t = t"
| "undo_transients n (c # cs) t = (if tc_id c < n then t else undo_transients n cs (undo_transient c t))"

fun cut_journal :: "nat \<Rightarrow> transientChange list \<Rightarrow> nat" where
  "cut_journal n [] = 0"
| "cut_journal n (c # cs) = (if tc_id c < n then length cs + 1 else cut_journal n cs)"

definition db_RevertToSnapshot :: "nat \<Rightarrow> 'l adapter \<Rightarrow> 'l adapter res" where
  "db_RevertToSnapshot n a =
     and_then (RollbackTo n (snd (ad_ms a))) (\<lambda>s.
     let j = ad_transientJournal a in
     Inr (a\<lparr>ad_ms := (fst (ad_ms a), s),
            ad_transient := undo_transients n (rev j) (ad_transient a),
            ad_transientJournal := (if n = 0 then [] else take (cut_journal n (rev j)) j),
            ad_snapDepth := n\<rparr>))"

section \<open>The operations that change the adapter\<close>

datatype ('l, 'u) db_op =
    DCreateAccount address | DCreateContract address | DSubBalance address 'u | DAddBalance address 'u
  | DSetNonce address uint64 | DSetCode address bytes | DSetState address hash hash
  | DSetTransientState address hash hash | DSelfDestruct address | DTouch address
  | DAddRefund uint64 | DSubRefund uint64 | DAddLog 'l | DAddAddress address | DAddSlot address hash
  | DSnapshot | DRevert nat

fun db_exec :: "'u holiman \<Rightarrow> keccak \<Rightarrow> ('l, 'u) db_op \<Rightarrow> 'l adapter \<Rightarrow> 'l adapter res" where
  "db_exec H kec (DCreateAccount x) a = db_CreateAccount x a"
| "db_exec H kec (DCreateContract x) a = db_CreateContract x a"
| "db_exec H kec (DSubBalance x v) a = res_map fst (db_SubBalance H x v a)"
| "db_exec H kec (DAddBalance x v) a = res_map fst (db_AddBalance H x v a)"
| "db_exec H kec (DSetNonce x n) a = db_SetNonce x n a"
| "db_exec H kec (DSetCode x c) a = res_map fst (db_SetCode kec x c a)"
| "db_exec H kec (DSetState x k v) a = Inr (fst (db_SetState x k v a))"
| "db_exec H kec (DSetTransientState x k v) a = Inr (db_SetTransientState x k v a)"
| "db_exec H kec (DSelfDestruct x) a = db_SelfDestruct x a"
| "db_exec H kec (DTouch x) a = db_Touch x a"
| "db_exec H kec (DAddRefund g) a = Inr (db_AddRefund g a)"
| "db_exec H kec (DSubRefund g) a = db_SubRefund g a"
| "db_exec H kec (DAddLog l) a = Inr (db_AddLog l a)"
| "db_exec H kec (DAddAddress x) a = Inr (db_AddAddressToAccessList x a)"
| "db_exec H kec (DAddSlot x k) a = Inr (db_AddSlotToAccessList x k a)"
| "db_exec H kec DSnapshot a = Inr (snd (db_Snapshot a))"
| "db_exec H kec (DRevert n) a = db_RevertToSnapshot n a"

definition db_run :: "'u holiman \<Rightarrow> keccak \<Rightarrow> ('l, 'u) db_op list \<Rightarrow> 'l adapter \<Rightarrow> 'l adapter res" where
  "db_run H kec ops a = each (db_exec H kec) ops a"

section \<open>Reverting the state\<close>

lemma on_session_write:
  assumes "\<exists>s'. f (snd (ad_ms a)) = Inr s'"
  shows "on_session f a = res_map (\<lambda>s. a\<lparr>ad_ms := (fst (ad_ms a), s)\<rparr>) (f (snd (ad_ms a)))"
  using assms by (auto simp: on_session_def)

lemma SetNonce_total: "\<exists>s'. SetNonce x n s = Inr s'"
  and SetBalance_total: "\<exists>s'. SetBalance x v s = Inr s'"
  using update_undoable [of x "\<lambda>acc. acc\<lparr>acc_Nonce := n\<rparr>" s] update_undoable [of x "\<lambda>acc. acc\<lparr>acc_Balance := v\<rparr>" s]
  by (auto simp: SetNonce_def SetBalance_def)

lemma SetCode_total: "\<exists>ms'. SetCode kec x c ms = Inr ms'"
  using write_undoable [of kec "WCode x c" "fst ms" "snd ms"] by (cases ms) auto

text \<open>A step writes to the session by these actions.\<close>

definition writes :: "keccak \<Rightarrow> nat \<Rightarrow> 'l adapter \<Rightarrow> 'l adapter \<Rightarrow> bool" where
  "writes kec n a a' \<longleftrightarrow>
     (\<exists>as. stays_above n as \<and> run (write_step kec) ms_rollback as (ad_ms a) = Inr (ad_ms a'))"

lemma writes_none: "ad_ms a' = ad_ms a \<Longrightarrow> writes kec n a a'"
  unfolding writes_def by (rule exI [of _ "[]"]) (simp add: stays_above_def)

lemma run_append:
  "run st rb (as @ bs) s = and_then (run st rb as s) (run st rb bs)"
proof (induction as arbitrary: s)
  case (Cons x as)
  then show ?case by (cases x) (auto simp: and_then_def split: sum.split)
qed simp

lemma writes_trans:
  assumes "writes kec n a b" "writes kec n b c"
  shows "writes kec n a c"
proof -
  obtain as bs where "stays_above n as" "run (write_step kec) ms_rollback as (ad_ms a) = Inr (ad_ms b)"
    "stays_above n bs" "run (write_step kec) ms_rollback bs (ad_ms b) = Inr (ad_ms c)"
    using assms unfolding writes_def by blast
  then show ?thesis unfolding writes_def
    by (intro exI [of _ "as @ bs"]) (simp add: run_append stays_above_def)
qed

lemma writes_one:
  "write_step kec op (ad_ms a) = Inr (ad_ms a') \<Longrightarrow> writes kec n a a'"
  unfolding writes_def by (rule exI [of _ "[Do op]"]) (simp add: stays_above_def)

lemma on_session_writes:
  "on_session (SetNonce x k) a = Inr a' \<Longrightarrow> writes kec n a a'"
  "on_session (SetBalance x v) a = Inr a' \<Longrightarrow> writes kec n a a'"
proof -
  show "writes kec n a a'" if "on_session (SetNonce x k) a = Inr a'"
    using that SetNonce_total [of x k "snd (ad_ms a)"]
    by (intro writes_one [of kec "WNonce x k"]) (cases "ad_ms a", auto simp: on_session_def)
  show "writes kec n a a'" if "on_session (SetBalance x v) a = Inr a'"
    using that SetBalance_total [of x v "snd (ad_ms a)"]
    by (intro writes_one [of kec "WBalance x v"]) (cases "ad_ms a", auto simp: on_session_def)
qed

lemma CreateAccount_writes: "db_CreateAccount x a = Inr a' \<Longrightarrow> writes kec n a a'"
  unfolding db_CreateAccount_def and_then_Inr_iff by (blast intro: writes_trans on_session_writes)

lemma exec_writes:
  assumes "db_exec H kec op a = Inr a'" "\<forall>k. op = DRevert k \<longrightarrow> n \<le> k"
  shows "writes kec n a a'"
proof (cases op)
  case (DCreateAccount x)
  then show ?thesis using assms CreateAccount_writes by simp
next
  case (DCreateContract x)
  then show ?thesis using assms on_session_writes(1) by (simp add: db_CreateContract_def)
next
  case (DSubBalance x v)
  then show ?thesis using assms
    by (auto simp: db_SubBalance_def Let_def res_map_Inr_iff split: if_splits intro: on_session_writes(2))
next
  case (DAddBalance x v)
  then show ?thesis using assms
    by (auto simp: db_AddBalance_def Let_def res_map_Inr_iff split: sum.splits intro: on_session_writes(2))
next
  case (DSetNonce x k)
  then show ?thesis using assms on_session_writes(1) by (simp add: db_SetNonce_def)
next
  case (DSetCode x c)
  then have "write_step kec (WCode x c) (ad_ms a) = Inr (ad_ms a')"
    using assms SetCode_total [of kec x c "ad_ms a"] by (cases "ad_ms a") (auto simp: db_SetCode_def Let_def)
  then show ?thesis by (rule writes_one)
next
  case (DSetState x k v)
  then have "write_step kec (WStorage x k v) (ad_ms a) = Inr (ad_ms a')"
    using assms by (cases "ad_ms a") (auto simp: db_SetState_def Let_def)
  then show ?thesis by (rule writes_one)
next
  case (DSelfDestruct x)
  then obtain b where "on_session (SetBalance x zero_uint256) a = Inr b" "ad_ms a' = ad_ms b"
    using assms by (auto simp: db_SelfDestruct_def res_map_Inr_iff)
  then show ?thesis using on_session_writes(2) writes_none writes_trans by blast
next
  case (DTouch x)
  then show ?thesis using assms CreateAccount_writes writes_none [of a' a] by (auto simp: db_Touch_def split: if_splits)
next
  case (DRevert k)
  then obtain s where "RollbackTo k (snd (ad_ms a)) = Inr s" "ad_ms a' = (fst (ad_ms a), s)"
    using assms by (auto simp: db_RevertToSnapshot_def and_then_Inr_iff Let_def)
  then show ?thesis unfolding writes_def using DRevert assms(2)
    by (intro exI [of _ "[Back k]"]) (simp add: stays_above_def ms_rollback_def)
qed (use assms in \<open>auto intro!: writes_none simp: db_SetTransientState_def db_AddRefund_def db_SubRefund_def db_AddLog_def
    db_AddAddressToAccessList_def db_AddSlotToAccessList_def db_Snapshot_def Let_def split: if_splits\<close>)

lemma run_writes:
  "db_run H kec ops a = Inr a' \<Longrightarrow> \<forall>k. DRevert k \<in> set ops \<longrightarrow> n \<le> k \<Longrightarrow> writes kec n a a'"
proof (induction ops arbitrary: a)
  case Nil
  then show ?case by (simp add: db_run_def writes_none)
next
  case (Cons op ops)
  then obtain b where b: "db_exec H kec op a = Inr b" "db_run H kec ops b = Inr a'"
    by (auto simp: db_run_def and_then_Inr_iff)
  have "writes kec n a b" using Cons.prems(2) by (intro exec_writes [OF b(1)]) auto
  moreover have "writes kec n b a'" using Cons.IH [OF b(2)] Cons.prems(2) by simp
  ultimately show ?case by (rule writes_trans)
qed

text \<open>
  C36: a revert restores balances, nonces and storage. After a snapshot, let the EVM do anything:
  create accounts, move money, write code and storage, take further snapshots and revert to them.
  Reverting to the snapshot succeeds and gives every account the balance, nonce and storage it had.
\<close>

theorem revert_restores:
  assumes "session_inv (snd (ad_ms a))" "db_Snapshot a = (n, a1)" "db_run H kec ops a1 = Inr a2"
    and "\<forall>k. DRevert k \<in> set ops \<longrightarrow> n \<le> k" "holiman_ok H v"
  shows "\<exists>a3. db_RevertToSnapshot n a2 = Inr a3 \<and>
    (\<forall>x key. db_GetBalance H a3 x = db_GetBalance H a x \<and> db_GetNonce a3 x = db_GetNonce a x \<and>
      db_GetState a3 x key = db_GetState a x key)"
proof -
  have n: "n = ms_jlen (ad_ms a)" "ad_ms a1 = ad_ms a"
    using assms(2) by (auto simp: db_Snapshot_def Let_def ms_jlen_def)
  obtain as where as: "stays_above n as" "run (write_step kec) ms_rollback as (ad_ms a) = Inr (ad_ms a2)"
    using run_writes [OF assms(3,4)] n(2) unfolding writes_def by auto
  obtain ms where ms: "ms_rollback n (ad_ms a2) = Inr ms" "ms_obs ms = ms_obs (ad_ms a)"
    using js.run_back_here [of "ad_ms a" as kec "ad_ms a2"] as assms(1) n(1) by (auto simp: ms_inv_def)
  then obtain s where s: "RollbackTo n (snd (ad_ms a2)) = Inr s" "ms = (fst (ad_ms a2), s)"
    by (auto simp: ms_rollback_def res_map_Inr_iff)
  then obtain a3 where a3: "db_RevertToSnapshot n a2 = Inr a3" "snd (ad_ms a3) = s"
    by (simp add: db_RevertToSnapshot_def Let_def)
  have zero: "hu_zero H = toGethU256 H 0"
    using assms(5) word_bytes_zero [where 'a = 256] by (simp add: holiman_ok_def toGethU256_def)
  have obs: "account_at (se_accounts s) = account_at (se_accounts (snd (ad_ms a)))"
    "se_storage s = se_storage (snd (ad_ms a))"
    using ms(2) s(2) by (auto simp: ms_obs_def session_obs_def core_view_def)
  have balance: "db_GetBalance H b x = toGethU256 H (acc_Balance (account_at (se_accounts (snd (ad_ms b))) x))"
    and nonce: "db_GetNonce b x = acc_Nonce (account_at (se_accounts (snd (ad_ms b))) x)"
    and storage: "db_GetState b x key = GetStorage (snd (ad_ms b)) x key" for b :: "'a adapter" and x key
    by (auto simp: db_GetBalance_def db_GetNonce_def db_GetState_def GetAccount_def account_at_def empty_account_def
        zero split: option.split)
  show ?thesis using a3 obs unfolding balance nonce storage GetStorage_def by (intro exI [of _ a3]) simp
qed

section \<open>Balances\<close>

lemma holiman_from:
  "holiman_ok H v \<Longrightarrow> fromGethU256 H (Some x) = Inr (v x)"
  by (auto simp: holiman_ok_def fromGethU256_def not_less)

lemma holiman_to: "holiman_ok H v \<Longrightarrow> v (toGethU256 H x) = x"
  by (simp add: holiman_ok_def toGethU256_def)

text \<open>The balance in the session is the balance the EVM sees.\<close>

lemma SetBalance_effect:
  assumes H: "holiman_ok H v" and s: "on_session (SetBalance x b) a = Inr a'"
  shows "v (db_GetBalance H a' y) = (if y = x then b else v (db_GetBalance H a y))"
proof -
  obtain s' where s': "SetBalance x b (snd (ad_ms a)) = Inr s'" "a' = a\<lparr>ad_ms := (fst (ad_ms a), s')\<rparr>"
    using s SetBalance_total [of x b "snd (ad_ms a)"] by (auto simp: on_session_def)
  have acc: "fmlookup (se_accounts s') x = Some (account_at (se_accounts (snd (ad_ms a))) x\<lparr>acc_Balance := b\<rparr>)"
    "y \<noteq> x \<Longrightarrow> fmlookup (se_accounts s') y = fmlookup (se_accounts (snd (ad_ms a))) y"
    using s'(1) by (auto simp: SetBalance_def update_account_def recordAccount_def ensureAccount_def account_at_def
        split: option.splits)
  show ?thesis using acc holiman_to [OF H] by (auto simp: db_GetBalance_def GetAccount_def s'(2))
qed

lemma cur_balance:
  "(case GetAccount (snd (ad_ms a)) x of Inl _ \<Rightarrow> hu_zero H | Inr acc \<Rightarrow> toGethU256 H (acc_Balance acc)) = db_GetBalance H a x"
  by (simp add: db_GetBalance_def)

lemma SubBalance_cases:
  assumes "holiman_ok H v"
  shows "db_SubBalance H x amt a =
    (if bit (v (db_GetBalance H a x) - v amt) 255 then Inl GoPanic
     else res_map (\<lambda>b. (b, hu_Sub H (db_GetBalance H a x) amt))
       (on_session (SetBalance x (v (db_GetBalance H a x) - v amt)) a))"
proof -
  have "hu_Sign H (hu_Sub H (db_GetBalance H a x) amt) < 0 \<longleftrightarrow> bit (v (db_GetBalance H a x) - v amt) 255"
    using assms by (auto simp: holiman_ok_def)
  moreover have "v (hu_Sub H (db_GetBalance H a x) amt) = v (db_GetBalance H a x) - v amt"
    using assms by (simp add: holiman_ok_def)
  ultimately show ?thesis unfolding db_SubBalance_def cur_balance holiman_from [OF assms] by (simp add: Let_def)
qed

lemma AddBalance_cases:
  assumes "holiman_ok H v"
  shows "db_AddBalance H x amt a = res_map (\<lambda>b. (b, hu_Add H (db_GetBalance H a x) amt))
      (on_session (SetBalance x (v (db_GetBalance H a x) + v amt)) a)"
proof -
  have "v (hu_Add H (db_GetBalance H a x) amt) = v (db_GetBalance H a x) + v amt"
    using assms by (simp add: holiman_ok_def)
  then show ?thesis unfolding db_AddBalance_def cur_balance holiman_from [OF assms] by (simp add: Let_def)
qed

lemma SetBalance_ok: "\<exists>a'. on_session (SetBalance x b) a = Inr a'"
  using SetBalance_total [of x b "snd (ad_ms a)"] by (auto simp: on_session_def)

text \<open>
  a transfer moves the amount. When the payer has the amount and what is left is below 2^255,
  and the payee's balance does not overflow, subtracting from one and adding to the other changes
  exactly these two balances, by the amount.
\<close>

theorem transfer_moves:
  assumes H: "holiman_ok H v" and xy: "x \<noteq> y"
    and enough: "v amt \<le> v (db_GetBalance H a x)" "v (db_GetBalance H a x) - v amt < 2 ^ 255"
    and fits: "uint (v (db_GetBalance H a y)) + uint (v amt) < 2 ^ 256"
  shows "\<exists>a1 r1 a2 r2. db_SubBalance H x amt a = Inr (a1, r1) \<and> db_AddBalance H y amt a1 = Inr (a2, r2) \<and>
    uint (v (db_GetBalance H a2 x)) = uint (v (db_GetBalance H a x)) - uint (v amt) \<and>
    uint (v (db_GetBalance H a2 y)) = uint (v (db_GetBalance H a y)) + uint (v amt) \<and>
    (\<forall>z. z \<noteq> x \<longrightarrow> z \<noteq> y \<longrightarrow> v (db_GetBalance H a2 z) = v (db_GetBalance H a z))"
proof -
  let ?b = "\<lambda>a z. v (db_GetBalance H a z)"
  have "\<not> bit (?b a x - v amt) 255"
    using div_word_less [OF enough(2)] by (simp add: bit_iff_odd)
  moreover obtain a1 where a1: "on_session (SetBalance x (?b a x - v amt)) a = Inr a1" using SetBalance_ok by blast
  ultimately have s1: "db_SubBalance H x amt a = Inr (a1, hu_Sub H (db_GetBalance H a x) amt)"
    unfolding SubBalance_cases [OF H] by simp
  obtain a2 where a2: "on_session (SetBalance y (?b a1 y + v amt)) a1 = Inr a2" using SetBalance_ok by blast
  then have s2: "db_AddBalance H y amt a1 = Inr (a2, hu_Add H (db_GetBalance H a1 y) amt)"
    unfolding AddBalance_cases [OF H] by simp
  note e = SetBalance_effect [OF H a1] SetBalance_effect [OF H a2]
  have sub: "uint (?b a x - v amt) = uint (?b a x) - uint (v amt)" using enough(1) by (simp add: uint_sub_lem word_le_def)
  have add: "uint (?b a y + v amt) = uint (?b a y) + uint (v amt)"
    by (rule uint_add_lem [THEN iffD1]) (use fits in simp)
  show ?thesis using s1 s2 e sub add xy by auto
qed

text \<open>
  the underflow check looks at one bit. \<open>SubBalance\<close> panics exactly when bit 255 of the wrapped
  difference is set: it panics for balances of 2^255 and more that suffice, and it lets an
  underflow by more than 2^255 through. \<open>AddBalance\<close> never panics; the sum wraps.
\<close>

theorem balance_checks:
  assumes "holiman_ok H v"
  shows "(db_SubBalance H x amt a = Inl GoPanic \<longleftrightarrow> bit (v (db_GetBalance H a x) - v amt) 255) \<and>
    (\<exists>a' r. db_AddBalance H x amt a = Inr (a', r) \<and> v (db_GetBalance H a' x) = v (db_GetBalance H a x) + v amt)"
proof -
  obtain a1 a2 where "on_session (SetBalance x (v (db_GetBalance H a x) - v amt)) a = Inr a1"
    and a2: "on_session (SetBalance x (v (db_GetBalance H a x) + v amt)) a = Inr a2"
    using SetBalance_ok by blast
  then show ?thesis
    unfolding SubBalance_cases [OF assms] AddBalance_cases [OF assms] using SetBalance_effect [OF assms a2] by simp
qed

section \<open>Transient storage\<close>

text \<open>
  a failed call leaves traces. Snapshot identifiers are lengths of the session's journal, but
  transient writes are tagged with the number of snapshots. When the journal is longer than that,
  a transient write after the snapshot survives the revert; the log and the refund of the
  reverted call survive every revert.
\<close>

theorem revert_leaves_traces:
  assumes "session_inv (snd (ad_ms a))" "db_Snapshot a = (n, a1)" "ad_snapDepth a + 1 < n"
    and "a2 = db_SetTransientState x key w (db_AddRefund g (db_AddLog l a1))"
  shows "\<exists>a3. db_RevertToSnapshot n a2 = Inr a3 \<and> db_GetTransientState a3 x key = w \<and>
    ad_logs a3 = ad_logs a @ [l] \<and> db_GetRefund a3 = db_GetRefund a + g"
proof -
  obtain s where "RollbackTo n (snd (ad_ms a)) = Inr s" using RollbackTo_ok [OF assms(1)] by blast
  then show ?thesis using assms(2-4)
    by (auto simp: db_Snapshot_def db_RevertToSnapshot_def db_SetTransientState_def db_AddRefund_def db_AddLog_def
        db_GetTransientState_def db_GetRefund_def slot_of_def Let_def)
qed

text \<open>What the maps say, and what undoing a change does to it.\<close>

definition transient_view :: "(address, (hash, hash) fmap) fmap \<Rightarrow> address \<times> hash \<Rightarrow> hash" where
  "transient_view t xk = (case fmlookup t (fst xk) of Some m \<Rightarrow> slot_of m (snd xk) | None \<Rightarrow> 0)"

definition covers :: "(address, (hash, hash) fmap) fmap \<Rightarrow> transientChange list \<Rightarrow> bool" where
  "covers t cs \<longleftrightarrow> (\<forall>c\<in>set cs. fmlookup t (tc_addr c) \<noteq> None)"

lemma undo_transient_view:
  "fmlookup t (tc_addr c) \<noteq> None \<Longrightarrow>
   transient_view (undo_transient c t) = (transient_view t)((tc_addr c, tc_key c) := tc_old c)"
  by (rule ext) (auto simp: transient_view_def undo_transient_def slot_of_def split: option.splits)

lemma undo_transient_dom: "fmlookup (undo_transient c t) x = None \<longleftrightarrow> fmlookup t x = None"
  by (auto simp: undo_transient_def split: option.splits)

lemma covers_undo: "covers (undo_transient c t) cs = covers t cs"
  by (simp add: covers_def undo_transient_dom)

lemma undo_split:
  "undo_transients n cs t = fold undo_transient (takeWhile (\<lambda>c. \<not> tc_id c < n) cs) t"
  by (induction cs arbitrary: t) auto

lemma cut_le: "cut_journal n cs \<le> length cs"
  by (induction cs) auto

lemma cut_split: "take (cut_journal n cs) (rev cs) = rev (dropWhile (\<lambda>c. \<not> tc_id c < n) cs)"
  by (induction cs) (auto simp: cut_le)

text \<open>Undoing the whole journal leads back to zero.\<close>

definition transient_ok :: "'l adapter \<Rightarrow> bool" where
  "transient_ok a \<longleftrightarrow> covers (ad_transient a) (ad_transientJournal a) \<and>
     transient_view (fold undo_transient (rev (ad_transientJournal a)) (ad_transient a)) = (\<lambda>_. 0)"

lemma fold_undo_cong:
  "transient_view t = transient_view t' \<Longrightarrow> covers t cs \<Longrightarrow> covers t' cs \<Longrightarrow>
   transient_view (fold undo_transient cs t) = transient_view (fold undo_transient cs t')"
proof (induction cs arbitrary: t t')
  case (Cons c cs)
  have c: "fmlookup t (tc_addr c) \<noteq> None" "fmlookup t' (tc_addr c) \<noteq> None" "covers t cs" "covers t' cs"
    using Cons.prems by (simp_all add: covers_def)
  have "transient_view (undo_transient c t) = transient_view (undo_transient c t')"
    unfolding undo_transient_view [OF c(1)] undo_transient_view [OF c(2)] using Cons.prems(1) by simp
  then show ?case using Cons.IH [of "undo_transient c t" "undo_transient c t'"] c(3,4) by (simp add: covers_undo)
qed simp

lemma transient_ok_new: "transient_ok (NewStateDBAdapter ms)"
  by (simp add: transient_ok_def NewStateDBAdapter_def covers_def transient_view_def fun_eq_iff)

lemma transient_ok_set:
  assumes "transient_ok a"
  shows "transient_ok (db_SetTransientState x key w a)"
proof -
  let ?t = "ad_transient a" and ?j = "ad_transientJournal a" and ?a = "db_SetTransientState x key w a"
  define m where "m = (case fmlookup ?t x of None \<Rightarrow> fmempty | Some m \<Rightarrow> m)"
  define c where "c = \<lparr>tc_id = ad_snapDepth a, tc_addr = x, tc_key = key, tc_old = slot_of m key\<rparr>"
  let ?t' = "fmupd x (fmupd key w m) ?t"
  have a': "ad_transient ?a = ?t'" "ad_transientJournal ?a = ?j @ [c]"
    by (simp_all add: db_SetTransientState_def m_def c_def Let_def)
  have "transient_view (undo_transient c ?t') = transient_view ?t"
    by (rule ext) (auto simp: c_def m_def undo_transient_def transient_view_def slot_of_def split: option.splits)
  moreover have cov: "covers ?t ?j" "covers ?t' ?j" using assms by (auto simp: transient_ok_def covers_def)
  ultimately have "transient_view (fold undo_transient (rev ?j) (undo_transient c ?t')) = (\<lambda>_. 0)"
    using fold_undo_cong [of "undo_transient c ?t'" ?t "rev ?j"] assms covers_undo [of c ?t' "rev ?j"]
    by (simp add: transient_ok_def covers_def)
  then show ?thesis using cov(2) by (simp add: transient_ok_def a' covers_def c_def)
qed

lemma transient_ok_revert:
  assumes ok: "transient_ok a" and r: "db_RevertToSnapshot n a = Inr a'"
  shows "transient_ok a'"
proof -
  let ?cs = "rev (ad_transientJournal a)" and ?P = "\<lambda>c. \<not> tc_id c < n"
  have t: "ad_transient a' = fold undo_transient (takeWhile ?P ?cs) (ad_transient a)"
    using r by (auto simp: db_RevertToSnapshot_def and_then_Inr_iff Let_def undo_split)
  have j: "ad_transientJournal a' = rev (dropWhile ?P ?cs)"
    using r cut_split [of n ?cs] by (auto simp: db_RevertToSnapshot_def and_then_Inr_iff Let_def split: if_splits)
  have dom: "covers (fold undo_transient cs t) ds = covers t ds" for cs t ds
    by (induction cs arbitrary: t) (simp_all add: covers_undo)
  have "fold undo_transient (dropWhile ?P ?cs) (fold undo_transient (takeWhile ?P ?cs) (ad_transient a)) =
      fold undo_transient ?cs (ad_transient a)"
    by (metis comp_apply fold_append takeWhile_dropWhile_id)
  moreover have "covers (ad_transient a) (rev (dropWhile ?P ?cs))"
    using ok set_dropWhileD by (fastforce simp: transient_ok_def covers_def)
  ultimately show ?thesis using ok by (simp add: transient_ok_def t j dom)
qed

lemma transient_ok_cong:
  "transient_ok a \<Longrightarrow> ad_transient a' = ad_transient a \<Longrightarrow> ad_transientJournal a' = ad_transientJournal a \<Longrightarrow> transient_ok a'"
  by (simp add: transient_ok_def)

lemma on_session_transient:
  "on_session f a = Inr a' \<Longrightarrow> ad_transient a' = ad_transient a \<and> ad_transientJournal a' = ad_transientJournal a"
  by (auto simp: on_session_def split: sum.splits if_splits)

lemma exec_transient_ok:
  assumes "transient_ok a" "db_exec H kec op a = Inr a'"
  shows "transient_ok a'"
proof (cases "(\<exists>x k w. op = DSetTransientState x k w) \<or> (\<exists>n. op = DRevert n)")
  case True
  then show ?thesis using assms transient_ok_set transient_ok_revert by auto
next
  case False
  then have "ad_transient a' = ad_transient a \<and> ad_transientJournal a' = ad_transientJournal a"
    using assms(2)
    by (cases op) (auto simp: db_CreateAccount_def db_CreateContract_def db_SubBalance_def db_AddBalance_def
      db_SetNonce_def db_SetCode_def db_SetState_def db_SelfDestruct_def db_Touch_def db_AddRefund_def db_SubRefund_def
      db_AddLog_def db_AddAddressToAccessList_def db_AddSlotToAccessList_def db_Snapshot_def Let_def
      and_then_Inr_iff res_map_Inr_iff dest!: on_session_transient split: if_splits sum.splits)
  then show ?thesis using assms(1) transient_ok_cong by blast
qed

lemma run_transient_ok: "transient_ok a \<Longrightarrow> db_run H kec ops a = Inr a' \<Longrightarrow> transient_ok a'"
  unfolding db_run_def
  by (induction ops arbitrary: a) (auto simp: and_then_Inr_iff dest: exec_transient_ok)

text \<open>
  reverting to the start clears transient storage. After any operations of a new adapter, a
  revert to snapshot 0 leaves every transient slot zero.
\<close>

theorem revert_to_start:
  assumes "db_run H kec ops (NewStateDBAdapter ms) = Inr a" "db_RevertToSnapshot 0 a = Inr a'"
  shows "db_GetTransientState a' x key = 0"
proof -
  have "transient_ok a'"
    using transient_ok_revert [OF run_transient_ok [OF transient_ok_new assms(1)] assms(2)] .
  moreover have "ad_transientJournal a' = []"
    using assms(2) by (auto simp: db_RevertToSnapshot_def and_then_Inr_iff Let_def)
  ultimately have "transient_view (ad_transient a') (x, key) = 0" by (simp add: transient_ok_def)
  then show ?thesis by (simp add: transient_view_def db_GetTransientState_def split: option.splits)
qed

section \<open>The access list\<close>

text \<open>The list as a set of addresses and a set of slots.\<close>

definition warm :: "'l adapter \<Rightarrow> address set \<times> (address \<times> hash) set" where
  "warm a = ({x. db_AddressInAccessList a x}, {(x, k). snd (db_SlotInAccessList a x k)})"

lemma warm_AddAddress: "warm (db_AddAddressToAccessList x a) = (insert x (fst (warm a)), snd (warm a))"
  by (auto simp: warm_def db_AddressInAccessList_def db_SlotInAccessList_def db_AddAddressToAccessList_def Let_def
      split: option.split)

lemma warm_AddSlot: "warm (db_AddSlotToAccessList x k a) = (insert x (fst (warm a)), insert (x, k) (snd (warm a)))"
  by (auto simp: warm_def db_AddressInAccessList_def db_SlotInAccessList_def db_AddAddressToAccessList_def
      db_AddSlotToAccessList_def Let_def split: option.splits if_splits)

lemma warm_addresses: "warm (foldl (\<lambda>a x. db_AddAddressToAccessList x a) a xs) = (fst (warm a) \<union> set xs, snd (warm a))"
  by (induction xs arbitrary: a) (auto simp: warm_AddAddress)

lemma warm_slots:
  "warm (foldl (\<lambda>a k. db_AddSlotToAccessList x k a) a ks) =
     (fst (warm a) \<union> (if ks = [] then {} else {x}), snd (warm a) \<union> {x} \<times> set ks)"
  by (induction ks arbitrary: a) (auto simp: warm_AddSlot)

lemma warm_tuple:
  "warm (prewarm_tuple acc a) = (insert (fst acc) (fst (warm a)), snd (warm a) \<union> {fst acc} \<times> set (snd acc))"
  by (auto simp: prewarm_tuple_def warm_slots warm_AddAddress)

lemma warm_tuples:
  "warm (foldl (\<lambda>a acc. prewarm_tuple acc a) a accs) =
     (fst (warm a) \<union> fst ` set accs, snd (warm a) \<union> {(x, k). \<exists>ks. (x, ks) \<in> set accs \<and> k \<in> set ks})"
  by (induction accs arbitrary: a) (auto simp: warm_tuple)

lemma warm_Prepare:
  "IsBerlin rules \<Longrightarrow> warm (db_Prepare rules sender coinbase dest pre accs a) =
     (fst (warm a) \<union> {sender} \<union> set_option dest \<union> set pre \<union> fst ` set accs \<union>
        (if IsShanghai rules \<and> coinbase \<noteq> 0 then {coinbase} else {}),
      snd (warm a) \<union> {(x, k). \<exists>ks. (x, ks) \<in> set accs \<and> k \<in> set ks})"
  by (auto simp: db_Prepare_def Let_def warm_AddAddress warm_addresses warm_tuples split: option.splits)

lemma warm_iff:
  "db_AddressInAccessList a x \<longleftrightarrow> x \<in> fst (warm a)" "snd (db_SlotInAccessList a x k) \<longleftrightarrow> (x, k) \<in> snd (warm a)"
  by (simp_all add: warm_def)

text \<open>
  \<open>Prepare\<close> warms what the transaction names. From Berlin on, the addresses in the list are
  those there before, the sender, the destination, the precompiles, the addresses of the access
  tuples and from Shanghai on the coinbase when it is not zero; the slots are those before and
  those of the tuples.
\<close>

theorem Prepare_exact:
  assumes "IsBerlin rules"
  shows "(db_AddressInAccessList (db_Prepare rules sender coinbase dest pre accs a) x \<longleftrightarrow>
      db_AddressInAccessList a x \<or> x = sender \<or> dest = Some x \<or> x \<in> set pre \<or> x \<in> fst ` set accs \<or>
      (IsShanghai rules \<and> coinbase \<noteq> 0 \<and> x = coinbase)) \<and>
    (snd (db_SlotInAccessList (db_Prepare rules sender coinbase dest pre accs a) x k) \<longleftrightarrow>
      snd (db_SlotInAccessList a x k) \<or> (\<exists>ks. (x, ks) \<in> set accs \<and> k \<in> set ks))"
  unfolding warm_iff warm_Prepare [OF assms] by auto

section \<open>Witnesses\<close>

text \<open>The integers as 256-bit words, and a session in which account 1 owns 100.\<close>

definition word_ints :: "uint256 holiman" where
  "word_ints = \<lparr>hu_SetBytes = bytes_word, hu_Add = (+), hu_Sub = (-),
     hu_Sign = (\<lambda>x. if x = 0 then 0 else if bit x 255 then -1 else 1), hu_IsUint64 = (\<lambda>x. x < 2 ^ 64),
     hu_BitLen = (\<lambda>x. 256), hu_Bytes32 = word_bytes, hu_zero = 0\<rparr>"

lemma word_ints_ok: "holiman_ok word_ints (\<lambda>x. x)"
  by (simp add: holiman_ok_def word_ints_def bytes_word_zeros)

definition rich_session :: "manager \<times> session" where
  "rich_session = (NewMemoryManager, \<lparr>se_parent = 0,
     se_accounts = fmupd 1 (empty_account\<lparr>acc_Balance := 100\<rparr>) fmempty, se_storage = fmempty,
     se_journal = replicate 3 (JAccount 1 (Some empty_account)), se_done = False\<rparr>)"

lemma rich_session_inv: "session_inv (snd rich_session)"
  by (simp add: session_inv_def rich_session_def list_all_iff)

definition evm_sample :: "nat adapter" where
  "evm_sample = NewStateDBAdapter rich_session"

lemma evm_sample_simps: "ad_ms evm_sample = rich_session" "ad_snapDepth evm_sample = 0" "ad_logs evm_sample = []"
  "ad_refund evm_sample = 0"
  by (simp_all add: evm_sample_def NewStateDBAdapter_def)

lemma evm_sample_balance: "db_GetBalance word_ints evm_sample 1 = 100" "db_GetBalance word_ints evm_sample 2 = 0"
  using holiman_to [OF word_ints_ok]
  by (simp_all add: db_GetBalance_def evm_sample_simps rich_session_def GetAccount_def word_ints_def)

theorem revert_restores_witness:
  "\<exists>a2 a3. db_run word_ints (\<lambda>_. 0) [DAddBalance 2 40, DSetState 1 5 6, DSnapshot, DSetNonce 1 9, DRevert 5]
      (snd (db_Snapshot evm_sample)) = Inr a2
    \<and> db_RevertToSnapshot 3 a2 = Inr a3 \<and> db_GetBalance word_ints a3 2 = 0 \<and> db_GetNonce a3 1 = 0"
proof -
  let ?ops = "[DAddBalance 2 40, DSetState 1 5 6, DSnapshot, DSetNonce 1 9, DRevert 5] :: (nat, uint256) db_op list"
  have snap: "db_Snapshot evm_sample = (3, snd (db_Snapshot evm_sample))"
    by (simp add: db_Snapshot_def Let_def Savepoint_def evm_sample_simps rich_session_def)
  obtain a2 where run: "db_run word_ints (\<lambda>_. 0) ?ops (snd (db_Snapshot evm_sample)) = Inr a2"
    by (simp add: db_run_def db_AddBalance_def db_SetState_def db_Snapshot_def db_SetNonce_def on_session_def Let_def
        db_RevertToSnapshot_def evm_sample_simps rich_session_def GetAccount_def SetBalance_def SetNonce_def
        SetStorage_def ensureAccount_def recordAccount_def update_account_def RollbackTo_def fromGethU256_def
        word_ints_def)
  have "\<forall>k. DRevert k \<in> set ?ops \<longrightarrow> 3 \<le> k" by simp
  from revert_restores [OF _ snap run this word_ints_ok] rich_session_inv evm_sample_balance
  obtain a3 where "db_RevertToSnapshot 3 a2 = Inr a3" "db_GetBalance word_ints a3 2 = 0"
    "db_GetNonce a3 1 = db_GetNonce evm_sample 1"
    by (auto simp: evm_sample_simps)
  moreover have "db_GetNonce evm_sample 1 = 0"
    by (simp add: db_GetNonce_def evm_sample_simps rich_session_def GetAccount_def empty_account_def)
  ultimately show ?thesis using run by auto
qed

theorem transfer_moves_witness:
  "\<exists>a1 r1 a2 r2. db_SubBalance word_ints 1 30 evm_sample = Inr (a1, r1) \<and> db_AddBalance word_ints 2 30 a1 = Inr (a2, r2) \<and>
    uint (db_GetBalance word_ints a2 1) = 70 \<and> uint (db_GetBalance word_ints a2 2) = 30"
proof -
  have "\<exists>a1 r1 a2 r2. db_SubBalance word_ints 1 30 evm_sample = Inr (a1, r1) \<and> db_AddBalance word_ints 2 30 a1 = Inr (a2, r2) \<and>
    uint (db_GetBalance word_ints a2 1) = uint (db_GetBalance word_ints evm_sample 1) - uint (30 :: uint256) \<and>
    uint (db_GetBalance word_ints a2 2) = uint (db_GetBalance word_ints evm_sample 2) + uint (30 :: uint256) \<and>
    (\<forall>z. z \<noteq> 1 \<longrightarrow> z \<noteq> 2 \<longrightarrow> db_GetBalance word_ints a2 z = db_GetBalance word_ints evm_sample z)"
    by (rule transfer_moves [OF word_ints_ok]) (simp_all add: evm_sample_balance)
  then show ?thesis by (auto simp: evm_sample_balance)
qed

theorem balance_checks_witness:
  "db_SubBalance word_ints 2 1 evm_sample = Inl GoPanic"
  using balance_checks [OF word_ints_ok, of 2 1 evm_sample] by (simp add: evm_sample_balance)

theorem revert_leaves_traces_witness:
  "\<exists>a3. db_RevertToSnapshot 3 (db_SetTransientState 1 2 7 (db_AddRefund 10 (db_AddLog 4 (snd (db_Snapshot evm_sample))))) = Inr a3
    \<and> db_GetTransientState a3 1 2 = 7 \<and> ad_logs a3 = [4] \<and> db_GetRefund a3 = 10"
proof -
  have "db_Snapshot evm_sample = (3, snd (db_Snapshot evm_sample))"
    by (simp add: db_Snapshot_def Let_def Savepoint_def evm_sample_simps rich_session_def)
  from revert_leaves_traces [OF _ this _ refl, of 1 2 7 10 4] rich_session_inv
  show ?thesis by (simp add: evm_sample_simps db_GetRefund_def)
qed

theorem revert_to_start_witness:
  "\<exists>a. db_RevertToSnapshot 0 (db_SetTransientState 1 2 7 (NewStateDBAdapter rich_session :: nat adapter)) = Inr a
    \<and> db_GetTransientState a 1 2 = 0"
proof -
  let ?a = "db_SetTransientState 1 2 7 (NewStateDBAdapter rich_session :: nat adapter)"
  have run: "db_run word_ints (\<lambda>_. 0) [DSetTransientState 1 2 7] (NewStateDBAdapter rich_session) = Inr ?a"
    by (simp add: db_run_def)
  obtain s where "RollbackTo 0 (snd rich_session) = Inr s" using RollbackTo_ok [OF rich_session_inv] by blast
  then obtain a where "db_RevertToSnapshot 0 ?a = Inr a"
    by (simp add: db_RevertToSnapshot_def db_SetTransientState_def NewStateDBAdapter_def Let_def)
  then show ?thesis using revert_to_start [OF run] by blast
qed

theorem Prepare_exact_witness:
  "db_AddressInAccessList (db_Prepare \<lparr>IsBerlin = True, IsShanghai = True\<rparr> 3 9 None [1, 2] [(5, [7])] evm_sample) 9"
  using Prepare_exact [of "\<lparr>IsBerlin = True, IsShanghai = True\<rparr>" 3 9 None "[1, 2]" "[(5, [7])]" evm_sample 9 7] by simp

end
