(* ===== verification/Mempool.thy ===== *)
theory Mempool
  imports Types Machine "HOL-Library.Multiset"
begin

text \<open>
  The transaction pool of \<open>mempool/pool.go\<close>. Transactions are go-ethereum's, which is not part
  of the repository: the type \<open>'t\<close> and the record \<open>geth\<close> of the accessors the pool calls are
  parameters. The pool keeps two indices over the same entries, by hash and by sender and nonce,
  and all its operations take the mutex, so an operation is one step. Selection for a block
  builds the chain of consecutive nonces of every sender and merges the chains by a priority
  queue.
\<close>

section \<open>Entries and the pool\<close>

text \<open>\<open>EffectiveGasTip\<close> has two results, an error and a big integer that may be nil.\<close>

record 't geth =
  gt_Hash :: "'t \<Rightarrow> hash"
  gt_Gas :: "'t \<Rightarrow> uint64"
  gt_Nonce :: "'t \<Rightarrow> uint64"
  gt_Type :: "'t \<Rightarrow> byte"
  gt_GasFeeCap :: "'t \<Rightarrow> int"
  gt_GasTipCap :: "'t \<Rightarrow> int"
  gt_EffectiveGasTip :: "'t \<Rightarrow> int \<Rightarrow> err option \<times> int option"

text \<open>The EIP-2718 type byte of EIP-1559 transactions.\<close>

definition DynamicFeeTxType :: byte where
  "DynamicFeeTxType = 2"

definition DefaultMaxTxs :: int where "DefaultMaxTxs = 8192"
definition DefaultMaxPerAccount :: int where "DefaultMaxPerAccount = 64"
definition ReplacePriceBumpBps :: uint64 where "ReplacePriceBumpBps = 11000"
definition BasisPoints :: uint64 where "BasisPoints = 10000"

record config =
  c_MaxTxs :: int
  c_MaxPerAccount :: int
  c_BaseFee :: uint256
  c_BlockGasLimit :: gas

definition DefaultConfig :: config where
  "DefaultConfig = \<lparr>c_MaxTxs = DefaultMaxTxs, c_MaxPerAccount = DefaultMaxPerAccount,
     c_BaseFee = uint256_from_uint64 1000000000, c_BlockGasLimit = 30000000\<rparr>"

record 't entry =
  e_tx :: 't
  e_sender :: address
  e_hash :: hash
  e_priority :: uint256

record stats =
  s_Pending :: int
  s_Queued :: int
  s_Total :: int
  s_Rejected :: "(string, uint64) fmap"

record 't pool =
  p_cfg :: config
  p_byHash :: "(hash, 't entry) fmap"
  p_bySender :: "(address, (nonce, 't entry) fmap) fmap"
  p_accountNonce :: "(address, nonce) fmap"
  p_stats :: stats

definition pool_New :: "config \<Rightarrow> 't pool" where
  "pool_New cfg =
     (let cfg = (if c_MaxTxs cfg \<le> 0 then cfg\<lparr>c_MaxTxs := DefaultMaxTxs\<rparr> else cfg);
          cfg = (if c_MaxPerAccount cfg \<le> 0 then cfg\<lparr>c_MaxPerAccount := DefaultMaxPerAccount\<rparr> else cfg);
          cfg = (if c_BlockGasLimit cfg = 0 then cfg\<lparr>c_BlockGasLimit := 30000000\<rparr> else cfg)
      in \<lparr>p_cfg = cfg, p_byHash = fmempty, p_bySender = fmempty, p_accountNonce = fmempty,
          p_stats = \<lparr>s_Pending = 0, s_Queued = 0, s_Total = 0, s_Rejected = fmempty\<rparr>\<rparr>)"

definition SetBaseFee :: "uint256 \<Rightarrow> 't pool \<Rightarrow> 't pool" where
  "SetBaseFee v p = p\<lparr>p_cfg := (p_cfg p)\<lparr>c_BaseFee := v\<rparr>\<rparr>"

definition BaseFee :: "'t pool \<Rightarrow> uint256" where
  "BaseFee p = c_BaseFee (p_cfg p)"

text \<open>Reading a map of maps: an absent sender is a nil map, which reads as empty.\<close>

definition sender_txs :: "'t pool \<Rightarrow> address \<Rightarrow> (nonce, 't entry) fmap" where
  "sender_txs p s = (case fmlookup (p_bySender p) s of None \<Rightarrow> fmempty | Some m \<Rightarrow> m)"

definition account_nonce :: "'t pool \<Rightarrow> address \<Rightarrow> nonce" where
  "account_nonce p s = (case fmlookup (p_accountNonce p) s of None \<Rightarrow> 0 | Some n \<Rightarrow> n)"

section \<open>Fees\<close>

definition toU256 :: "int \<Rightarrow> uint256" where
  "toU256 v = (case uint256_from_big (Some v) of Inl _ \<Rightarrow> zero_uint256 | Inr u \<Rightarrow> u)"

definition tipToU256 :: "'t geth \<Rightarrow> 't \<Rightarrow> uint256 \<Rightarrow> uint256" where
  "tipToU256 g tx baseFee =
     (case gt_EffectiveGasTip g tx (to_big baseFee) of
        (None, Some tip) \<Rightarrow> toU256 tip
      | _ \<Rightarrow> zero_uint256)"

text \<open>\<open>big.Int.Div\<close> is Euclidean division, which is \<open>div\<close> on non-negative numbers.\<close>

definition divBySmall :: "uint256 \<Rightarrow> uint256 \<Rightarrow> uint256" where
  "divBySmall v d =
     (let den = to_big d in
      if den = 0 then zero_uint256
      else (case uint256_from_big (Some (to_big v div den)) of Inl _ \<Rightarrow> zero_uint256 | Inr u \<Rightarrow> u))"

definition priceBumped :: "uint256 \<Rightarrow> uint256 \<Rightarrow> bool" where
  "priceBumped oldV newV =
     (if uint256_is_zero oldV then True
      else case uint256_mul oldV (uint256_from_uint64 ReplacePriceBumpBps) of
          Inl _ \<Rightarrow> uint256_cmp newV oldV > 0
        | Inr product \<Rightarrow>
            uint256_cmp newV (divBySmall product (uint256_from_uint64 BasisPoints)) \<ge> 0)"

definition priceBumpedU :: "int \<Rightarrow> int \<Rightarrow> bool" where
  "priceBumpedU oldV newV = priceBumped (toU256 oldV) (toU256 newV)"

definition canReplace :: "'t geth \<Rightarrow> 't \<Rightarrow> 't \<Rightarrow> bool" where
  "canReplace g oldTx newTx =
     (if \<not> priceBumpedU (gt_GasFeeCap g oldTx) (gt_GasFeeCap g newTx) then False
      else priceBumpedU (gt_GasTipCap g oldTx) (gt_GasTipCap g newTx))"

section \<open>Chains of consecutive nonces\<close>

text \<open>
  The loop \<open>for n := start; ; n++\<close> ends at the first nonce that is absent. \<open>None\<close> is a loop
  still running when the fuel is spent; one more than the number of entries is enough unless all
  \<open>2 ^ 64\<close> nonces are present (\<open>nonce_chain_Some\<close>).
\<close>

fun nonce_chain :: "nat \<Rightarrow> (nonce, 'e) fmap \<Rightarrow> nonce \<Rightarrow> 'e list option" where
  "nonce_chain 0 txs n = None"
| "nonce_chain (Suc fuel) txs n =
     (case fmlookup txs n of
        None \<Rightarrow> Some []
      | Some e \<Rightarrow> map_option ((#) e) (nonce_chain fuel txs (n + 1)))"

definition chain_from :: "(nonce, 'e) fmap \<Rightarrow> nonce \<Rightarrow> 'e list" where
  "chain_from txs start =
     (case nonce_chain (Suc (fm_size txs)) txs start of None \<Rightarrow> [] | Some es \<Rightarrow> es)"

definition executableLocked :: "'t pool \<Rightarrow> 't entry list" where
  "executableLocked p =
     concat (map (\<lambda>s. chain_from (sender_txs p s) (account_nonce p s)) (sorted_keys (p_bySender p)))"

fun exec_loop :: "nat \<Rightarrow> (nonce, 'e) fmap \<Rightarrow> nonce \<Rightarrow> 'e \<Rightarrow> bool" where
  "exec_loop 0 txs n e = False"
| "exec_loop (Suc fuel) txs n e =
     (case fmlookup txs n of
        None \<Rightarrow> False
      | Some cur \<Rightarrow> if cur = e then True else exec_loop fuel txs (n + 1) e)"

definition isExecutableLocked :: "'t pool \<Rightarrow> 't entry \<Rightarrow> bool" where
  "isExecutableLocked p e =
     (case fmlookup (p_bySender p) (e_sender e) of
        None \<Rightarrow> False
      | Some txs \<Rightarrow> exec_loop (Suc (fm_size txs)) txs (account_nonce p (e_sender e)) e)"

section \<open>Statistics and removal\<close>

definition refreshStatsLocked :: "'t pool \<Rightarrow> 't pool" where
  "refreshStatsLocked p =
     (let pending = int (length (executableLocked p));
          total = int (fm_size (p_byHash p));
          queued = total - pending
      in p\<lparr>p_stats := (p_stats p)\<lparr>s_Pending := pending, s_Total := total,
             s_Queued := (if queued < 0 then 0 else queued)\<rparr>\<rparr>)"

definition rejectLocked :: "string \<Rightarrow> err \<Rightarrow> 't pool \<Rightarrow> 't pool \<times> err option" where
  "rejectLocked reason e p =
     (let old = (case fmlookup (s_Rejected (p_stats p)) reason of None \<Rightarrow> 0 | Some n \<Rightarrow> n)
      in (p\<lparr>p_stats := (p_stats p)\<lparr>s_Rejected := fmupd reason (old + 1) (s_Rejected (p_stats p))\<rparr>\<rparr>,
          Some e))"

definition removeLocked :: "'t geth \<Rightarrow> 't entry \<Rightarrow> 't pool \<Rightarrow> 't pool" where
  "removeLocked g e p =
     (let p = p\<lparr>p_byHash := fmdrop (e_hash e) (p_byHash p)\<rparr>
      in case fmlookup (p_bySender p) (e_sender e) of
           None \<Rightarrow> p
         | Some s \<Rightarrow>
             (let s = fmdrop (gt_Nonce g (e_tx e)) s in
              if fm_size s = 0 then p\<lparr>p_bySender := fmdrop (e_sender e) (p_bySender p)\<rparr>
              else p\<lparr>p_bySender := fmupd (e_sender e) s (p_bySender p)\<rparr>))"

text \<open>
  \<open>if e, ok := txs[n]; ok { p.removeLocked(e) }\<close> in a loop over nonces. The Go variable \<open>txs\<close>
  is the sender's map object, from which \<open>removeLocked\<close> deletes, detached from \<open>bySender\<close> or
  not; so is the map threaded here. The loop counts what it removes.
\<close>

fun remove_nonces :: "'t geth \<Rightarrow> nonce list \<Rightarrow> (nonce, 't entry) fmap \<Rightarrow> 't pool \<Rightarrow> 't pool \<times> nat" where
  "remove_nonces g [] txs p = (p, 0)"
| "remove_nonces g (n # ns) txs p =
     (case fmlookup txs n of
        None \<Rightarrow> remove_nonces g ns txs p
      | Some e \<Rightarrow>
          (let (p', k) = remove_nonces g ns (fmdrop (gt_Nonce g (e_tx e)) txs) (removeLocked g e p)
           in (p', Suc k)))"

definition pruneBelowNonceLocked :: "'t geth \<Rightarrow> address \<Rightarrow> nonce \<Rightarrow> 't pool \<Rightarrow> 't pool" where
  "pruneBelowNonceLocked g sender nonce p =
     (case fmlookup (p_bySender p) sender of
        None \<Rightarrow> p
      | Some txs \<Rightarrow>
          (let stale = filter (\<lambda>n. n < nonce) (sorted_keys txs)
           in fst (remove_nonces g stale txs p)))"

definition SetAccountNonce :: "'t geth \<Rightarrow> address \<Rightarrow> nonce \<Rightarrow> 't pool \<Rightarrow> 't pool" where
  "SetAccountNonce g sender nonce p =
     (let p = p\<lparr>p_accountNonce := fmupd sender nonce (p_accountNonce p)\<rparr>;
          p = pruneBelowNonceLocked g sender nonce p
      in refreshStatsLocked p)"

definition Remove :: "'t geth \<Rightarrow> hash \<Rightarrow> 't pool \<Rightarrow> 't pool \<times> bool" where
  "Remove g h p =
     (case fmlookup (p_byHash p) h of
        None \<Rightarrow> (p, False)
      | Some e \<Rightarrow> (refreshStatsLocked (removeLocked g e p), True))"

fun remove_each :: "'t geth \<Rightarrow> 't list \<Rightarrow> 't pool \<Rightarrow> 't pool \<times> nat" where
  "remove_each g [] p = (p, 0)"
| "remove_each g (tx # txs) p =
     (case fmlookup (p_byHash p) (gt_Hash g tx) of
        None \<Rightarrow> remove_each g txs p
      | Some e \<Rightarrow> (let (p', n) = remove_each g txs (removeLocked g e p) in (p', Suc n)))"

definition RemoveAll :: "'t geth \<Rightarrow> 't list \<Rightarrow> 't pool \<Rightarrow> 't pool \<times> nat" where
  "RemoveAll g txs p = (let (p', n) = remove_each g txs p in (refreshStatsLocked p', n))"

definition RemoveBySender :: "'t geth \<Rightarrow> address \<Rightarrow> 't pool \<Rightarrow> 't pool \<times> nat" where
  "RemoveBySender g sender p =
     (case fmlookup (p_bySender p) sender of
        None \<Rightarrow> (p, 0)
      | Some s \<Rightarrow>
          (let (p', n) = remove_nonces g (sorted_keys s) s p in (refreshStatsLocked p', n)))"

section \<open>Order of entries\<close>

definition compareHash :: "hash \<Rightarrow> hash \<Rightarrow> int" where
  "compareHash a b = cmp_bytes (word_bytes a) (word_bytes b)"

definition heap_Less :: "'t entry \<Rightarrow> 't entry \<Rightarrow> bool" where
  "heap_Less a b =
     (let c = uint256_cmp (e_priority a) (e_priority b) in
      if c \<noteq> 0 then c > 0 else compareHash (e_hash a) (e_hash b) < 0)"

text \<open>\<open>slices.SortFunc\<close> with the comparison of \<open>sortEntriesDeterministic\<close>.\<close>

definition entry_compare :: "'t entry \<Rightarrow> 't entry \<Rightarrow> int" where
  "entry_compare a b =
     (let c = uint256_cmp (e_priority b) (e_priority a) in
      if c \<noteq> 0 then c else compareHash (e_hash a) (e_hash b))"

fun insort_by :: "('a \<Rightarrow> 'a \<Rightarrow> int) \<Rightarrow> 'a \<Rightarrow> 'a list \<Rightarrow> 'a list" where
  "insort_by cmp x [] = [x]"
| "insort_by cmp x (y # ys) = (if cmp x y \<le> 0 then x # y # ys else y # insort_by cmp x ys)"

definition SortFunc :: "('a \<Rightarrow> 'a \<Rightarrow> int) \<Rightarrow> 'a list \<Rightarrow> 'a list" where
  "SortFunc cmp xs = foldr (insort_by cmp) xs []"

definition sortEntriesDeterministic :: "'t entry list \<Rightarrow> 't entry list" where
  "sortEntriesDeterministic es = SortFunc entry_compare es"

definition PendingHashes :: "'t pool \<Rightarrow> hash list" where
  "PendingHashes p = map e_hash (sortEntriesDeterministic (executableLocked p))"

section \<open>Eviction\<close>

definition lowest_of :: "'t entry \<Rightarrow> 't entry list \<Rightarrow> 't entry" where
  "lowest_of e0 es =
     fold (\<lambda>e lowest.
        let c = uint256_cmp (e_priority e) (e_priority lowest) in
        if c < 0 \<or> (c = 0 \<and> compareHash (e_hash e) (e_hash lowest) > 0) then e else lowest) es e0"

definition evictAnyQueuedLocked :: "'t geth \<Rightarrow> 't pool \<Rightarrow> 't pool \<times> bool" where
  "evictAnyQueuedLocked g p =
     (let entries = map (\<lambda>h. the (fmlookup (p_byHash p) h)) (sorted_keys (p_byHash p));
          queued = filter (\<lambda>e. \<not> isExecutableLocked p e) entries
      in case queued of
           [] \<Rightarrow> (p, False)
         | victim # _ \<Rightarrow> (removeLocked g victim p, True))"

definition evictLowestIfWorseThanLocked :: "'t geth \<Rightarrow> 't \<Rightarrow> 't pool \<Rightarrow> 't pool \<times> bool" where
  "evictLowestIfWorseThanLocked g tx p =
     (case executableLocked p of
        [] \<Rightarrow> evictAnyQueuedLocked g p
      | c # cs \<Rightarrow>
          (let lowest = lowest_of c (c # cs);
               newPriority = tipToU256 g tx (c_BaseFee (p_cfg p))
           in if uint256_cmp newPriority (e_priority lowest) \<le> 0 then (p, False)
              else (removeLocked g lowest p, True)))"

section \<open>Admission\<close>

definition fee_check :: "'t geth \<Rightarrow> 't \<Rightarrow> 't pool \<Rightarrow> bool" where
  "fee_check g tx p =
     (if gt_Type g tx = DynamicFeeTxType then
        if uint256_cmp (toU256 (gt_GasFeeCap g tx)) (c_BaseFee (p_cfg p)) < 0 then False
        else \<not> uint256_cmp (toU256 (gt_GasFeeCap g tx)) (toU256 (gt_GasTipCap g tx)) < 0
      else True)"

definition record_nonce :: "address \<Rightarrow> nonce \<Rightarrow> 't pool \<Rightarrow> 't pool" where
  "record_nonce sender accountNonce p =
     (case fmlookup (p_accountNonce p) sender of
        Some cur \<Rightarrow> if accountNonce > cur
                      then p\<lparr>p_accountNonce := fmupd sender accountNonce (p_accountNonce p)\<rparr> else p
      | None \<Rightarrow> p\<lparr>p_accountNonce := fmupd sender accountNonce (p_accountNonce p)\<rparr>)"

definition insert_entry :: "'t geth \<Rightarrow> 't \<Rightarrow> address \<Rightarrow> 't pool \<Rightarrow> 't pool" where
  "insert_entry g tx sender p =
     (let h = gt_Hash g tx;
          e = \<lparr>e_tx = tx, e_sender = sender, e_hash = h,
               e_priority = tipToU256 g tx (c_BaseFee (p_cfg p))\<rparr>
      in p\<lparr>p_byHash := fmupd h e (p_byHash p),
           p_bySender := fmupd sender (fmupd (gt_Nonce g tx) e (sender_txs p sender)) (p_bySender p)\<rparr>)"

text \<open>The capacity checks and the insertion; \<open>senderTxs\<close> is the sender's map after a replaced
  transaction was deleted from it.\<close>

definition add_capacity :: "'t geth \<Rightarrow> 't \<Rightarrow> address \<Rightarrow> (nonce, 't entry) fmap option \<Rightarrow> 't pool \<Rightarrow>
    't pool \<times> err option" where
  "add_capacity g tx sender senderTxs p =
     (if (case senderTxs of None \<Rightarrow> False | Some m \<Rightarrow> int (fm_size m) \<ge> c_MaxPerAccount (p_cfg p))
      then rejectLocked ''account_queue_full'' ErrAccountQueueFull p
      else
        let (p, evicted) =
              (if int (fm_size (p_byHash p)) \<ge> c_MaxTxs (p_cfg p)
               then evictLowestIfWorseThanLocked g tx p else (p, True))
        in if \<not> evicted then rejectLocked ''pool_full'' ErrPoolFull p
           else (refreshStatsLocked (insert_entry g tx sender p), None))"

definition Add :: "'t geth \<Rightarrow> 't \<Rightarrow> address \<Rightarrow> nonce \<Rightarrow> 't pool \<Rightarrow> 't pool \<times> err option" where
  "Add g tx sender accountNonce p =
     (if gt_Gas g tx > c_BlockGasLimit (p_cfg p) then rejectLocked ''gas_limit'' ErrGasLimitTooHigh p
      else if \<not> fee_check g tx p then rejectLocked ''fee_too_low'' ErrFeeTooLow p
      else
        let p = record_nonce sender accountNonce p in
        if gt_Nonce g tx < account_nonce p sender then rejectLocked ''nonce_too_low'' ErrNonceTooLow p
        else if fmlookup (p_byHash p) (gt_Hash g tx) \<noteq> None then rejectLocked ''duplicate'' ErrDuplicate p
        else case fmlookup (p_bySender p) sender of
            None \<Rightarrow> add_capacity g tx sender None p
          | Some senderTxs \<Rightarrow>
              (case fmlookup senderTxs (gt_Nonce g tx) of
                 None \<Rightarrow> add_capacity g tx sender (Some senderTxs) p
               | Some old \<Rightarrow>
                   if \<not> canReplace g (e_tx old) tx
                   then rejectLocked ''replace_too_cheap'' ErrReplaceTooCheap p
                   else add_capacity g tx sender (Some (fmdrop (gt_Nonce g (e_tx old)) senderTxs))
                          (removeLocked g old p)))"

section \<open>Selection\<close>

text \<open>
  \<open>container/heap\<close> as its documentation states it: \<open>Pop\<close> removes and returns the minimum
  element according to \<open>Less\<close>. The heap's internal order is not observable, because \<open>Less\<close>
  is a strict total order on entries of different hashes (\<open>heap_Less_total\<close>).
\<close>

fun best_of :: "'t entry \<Rightarrow> 't entry list \<Rightarrow> 't entry" where
  "best_of b [] = b"
| "best_of b (e # es) = best_of (if heap_Less e b then e else b) es"

definition heapInit :: "'t entry list \<Rightarrow> 't entry list" where
  "heapInit h = h"

definition heapPush :: "'t entry list \<Rightarrow> 't entry \<Rightarrow> 't entry list" where
  "heapPush h e = h @ [e]"

definition heapPop :: "'t entry list \<Rightarrow> ('t entry \<times> 't entry list) option" where
  "heapPop h = (case h of [] \<Rightarrow> None | e # es \<Rightarrow> Some (best_of e es, remove1 (best_of e es) h))"

record 't senderChain =
  sc_txs :: "'t entry list"
  sc_next :: nat

definition build_index :: "'t pool \<Rightarrow> (address \<times> 't senderChain) list" where
  "build_index p =
     filter (\<lambda>(s, st). sc_txs st \<noteq> [])
       (map (\<lambda>s. (s, \<lparr>sc_txs = chain_from (sender_txs p s) (account_nonce p s), sc_next = 0\<rparr>))
          (sorted_keys (p_bySender p)))"

record 't SelectedTx =
  sel_Tx :: 't
  sel_Sender :: address

text \<open>What is left of all chains, which bounds the iterations of the selection loop.\<close>

definition chains_left :: "(address, 't senderChain) fmap \<Rightarrow> nat" where
  "chains_left idx =
     (\<Sum>s\<in>fmdom' idx. length (sc_txs (the (fmlookup idx s))) - sc_next (the (fmlookup idx s)))"

lemma chains_left_upd:
  assumes "fmlookup idx s = Some st"
  shows "chains_left (fmupd s st' idx) + (length (sc_txs st) - sc_next st) =
    chains_left idx + (length (sc_txs st') - sc_next st')"
proof -
  have s: "s \<in> fmdom' idx" using assms by (simp add: fmlookup_dom'_iff)
  let ?f = "\<lambda>m s. length (sc_txs (the (fmlookup m s))) - sc_next (the (fmlookup m s))"
  have "sum (?f (fmupd s st' idx)) (fmdom' idx - {s}) = sum (?f idx) (fmdom' idx - {s})"
    by (rule sum.cong) auto
  then show ?thesis using s assms
    by (simp add: chains_left_def sum.remove [OF _ s] insert_absorb)
qed

lemma length_heapPop: "heapPop h = Some (e, h') \<Longrightarrow> length h = Suc (length h')"
proof -
  have m: "best_of e es = e \<or> best_of e es \<in> set es" for e :: "'a entry" and es
    by (induction es arbitrary: e) auto
  have in_set: "best_of e es \<in> set (e # es)" for e :: "'a entry" and es using m [of e es] by auto
  assume "heapPop h = Some (e, h')"
  then obtain x xs where "h = x # xs" "h' = remove1 (best_of x xs) (x # xs)"
    by (auto simp: heapPop_def split: list.splits)
  then show ?thesis using in_set [of x xs] length_pos_if_in_set [of "best_of x xs" xs] by (auto simp: length_remove1)
qed

function select_loop :: "'t geth \<Rightarrow> gas \<Rightarrow> 't entry list \<Rightarrow> (address, 't senderChain) fmap \<Rightarrow> gas \<Rightarrow>
    't SelectedTx list res" where
  "select_loop g gasLimit h idx used =
     (case heapPop h of
        None \<Rightarrow> Inr []
      | Some (e, h') \<Rightarrow>
          if used + gt_Gas g (e_tx e) > gasLimit then select_loop g gasLimit h' idx used
          else case fmlookup idx (e_sender e) of
              None \<Rightarrow> Inl GoPanic
            | Some st \<Rightarrow>
                (let st = st\<lparr>sc_next := sc_next st + 1\<rparr>;
                     h'' = (if sc_next st < length (sc_txs st)
                            then heapPush h' (sc_txs st ! sc_next st) else h')
                 in and_then
                      (select_loop g gasLimit h'' (fmupd (e_sender e) st idx) (used + gt_Gas g (e_tx e)))
                      (\<lambda>picked. Inr (\<lparr>sel_Tx = e_tx e, sel_Sender = e_sender e\<rparr> # picked))))"
  by pat_completeness auto

termination
proof (relation "measure (\<lambda>(g, lim, h, idx, used). length h + chains_left idx)", goal_cases)
  case (2 g gasLimit h idx used x e h')
  then show ?case using length_heapPop [of h e h'] by simp
next
  case (3 g gasLimit h idx used x e h' st st' h'')
  then show ?case
    using length_heapPop [of h e h'] chains_left_upd [OF 3(4), of st'] by (auto simp: heapPush_def)
qed simp

declare select_loop.simps [simp del]

definition Select :: "'t geth \<Rightarrow> gas \<Rightarrow> 't pool \<Rightarrow> 't SelectedTx list res" where
  "Select g gasLimit p =
     (let chains = build_index p;
          h = heapInit (map (\<lambda>(s, st). sc_txs st ! 0) chains)
      in select_loop g gasLimit h (fmap_of_list chains) 0)"

section \<open>Queries\<close>

definition pool_Get :: "hash \<Rightarrow> 't pool \<Rightarrow> 't option" where
  "pool_Get h p = map_option e_tx (fmlookup (p_byHash p) h)"

definition pool_Has :: "hash \<Rightarrow> 't pool \<Rightarrow> bool" where
  "pool_Has h p \<longleftrightarrow> fmlookup (p_byHash p) h \<noteq> None"

definition pool_Count :: "'t pool \<Rightarrow> nat" where
  "pool_Count p = fm_size (p_byHash p)"

definition pool_Stats :: "'t pool \<Rightarrow> stats" where
  "pool_Stats p = p_stats p"

section \<open>The price bump\<close>

lemma uint_uint256_from_uint64 [simp]: "uint (uint256_from_uint64 v) = uint v"
  using to_big_uint256_from_uint64 [of v] by (simp only: to_big_uint)

lemma uint256_from_uint64_eq_0 [simp]: "uint256_from_uint64 v = 0 \<longleftrightarrow> v = 0"
  by (simp flip: uint_0_iff)

lemma divBySmall_value: "d \<noteq> 0 \<Longrightarrow> uint (divBySmall v (uint256_from_uint64 d)) = uint v div uint d"
proof -
  assume d: "d \<noteq> 0"
  have "uint v div uint d = int (unat v div unat d)" by (simp add: of_nat_div)
  moreover have "int (unat v div unat d) \<le> int (unat v)" by (simp only: of_nat_le_iff div_le_dividend)
  ultimately have "uint v div uint d \<le> uint v" "0 \<le> uint v div uint d" by simp_all
  then have "to_big (word_of_int (uint v div uint d)) = uint v div uint d"
    using uint_less_pow [of v] by (intro to_big_word_of_int) simp_all
  then have "uint256_from_big (Some (uint v div uint d)) = Inr (word_of_int (uint v div uint d))"
    by (simp only: uint256_from_big_Inr_iff)
  with \<open>to_big (word_of_int _) = _\<close> d show ?thesis by (simp add: divBySmall_def to_big_uint uint_0_iff)
qed

lemma priceBumped_iff:
  "priceBumped oldV newV \<longleftrightarrow>
     uint oldV = 0 \<or>
     (if uint oldV * 11000 < 2 ^ 256 then 11 * uint oldV div 10 \<le> uint newV
      else uint oldV < uint newV)"
proof (cases "uint256_mul oldV (uint256_from_uint64 ReplacePriceBumpBps)")
  case (Inl e)
  have "\<not> uint oldV * 11000 < 2 ^ 256"
    using uint256_mul_fits [of oldV "uint256_from_uint64 ReplacePriceBumpBps"] Inl
    by (auto simp: to_big_uint [of oldV] ReplacePriceBumpBps_def)
  then show ?thesis using Inl
    by (simp add: priceBumped_def uint256_cmp_word uint_0_iff word_less_def)
next
  case (Inr p)
  then have p: "uint p = uint oldV * 11000"
    by (simp add: uint256_mul_Inr_iff to_big_uint ReplacePriceBumpBps_def)
  then have "uint oldV * 11000 < 2 ^ 256" using uint_less_pow [of p] by simp
  moreover have "uint p div 10000 = 11 * uint oldV div 10" unfolding p by linarith
  moreover have "uint (divBySmall p (uint256_from_uint64 BasisPoints)) = uint p div 10000"
    by (subst divBySmall_value) (simp_all add: BasisPoints_def)
  ultimately show ?thesis using Inr
    by (auto simp: priceBumped_def uint256_cmp_word uint_0_iff word_less_def not_less)
qed

section \<open>The nonce loops end, and what they collect\<close>

lemma missing_nonce:
  assumes "fm_size (txs :: (nonce, 'e) fmap) < 2 ^ 64"
  shows "\<exists>k \<le> fm_size txs. fmlookup txs (n + of_nat k) = None"
proof (rule ccontr)
  assume "\<not> ?thesis"
  then have sub: "(\<lambda>k. n + of_nat k) ` {..fm_size txs} \<subseteq> fset (fmdom txs)"
    by (auto simp: fmlookup_dom_iff)
  have "inj_on (\<lambda>k. n + of_nat k :: nonce) {..fm_size txs}"
  proof (rule inj_onI)
    fix a b assume "a \<in> {..fm_size txs}" "b \<in> {..fm_size txs}" "n + of_nat a = n + (of_nat b :: nonce)"
    then have "unat (of_nat a :: nonce) = unat (of_nat b :: nonce)" "a < 2 ^ 64" "b < 2 ^ 64"
      using assms by simp_all
    then show "a = b" by (simp add: unat_of_nat)
  qed
  then have "Suc (fm_size txs) \<le> card (fset (fmdom txs))"
    using card_mono [OF _ sub] by (simp add: card_image)
  then show False by (simp add: fm_size_def fcard.rep_eq)
qed

lemma nonce_chain_Some:
  "(\<And>i. i < k \<Longrightarrow> fmlookup txs (n + of_nat i) \<noteq> None) \<Longrightarrow> fmlookup txs (n + of_nat k) = None \<Longrightarrow>
   k < fuel \<Longrightarrow> nonce_chain fuel txs n = Some (map (\<lambda>i. the (fmlookup txs (n + of_nat i))) [0..<k])"
proof (induction fuel arbitrary: n k)
  case (Suc fuel)
  show ?case
  proof (cases k)
    case 0
    then show ?thesis using Suc.prems(2) by simp
  next
    case (Suc j)
    obtain e where e: "fmlookup txs n = Some e" using Suc.prems(1) [of 0] Suc by auto
    have "nonce_chain fuel txs (n + 1) =
        Some (map (\<lambda>i. the (fmlookup txs (n + 1 + of_nat i))) [0..<j])"
      using Suc.prems(1) [of "Suc _"] Suc.prems(2,3) \<open>k = Suc j\<close>
      by (intro Suc.IH) (simp_all add: algebra_simps)
    moreover have "[0..<Suc j] = 0 # map Suc [0..<j]" by (simp add: map_Suc_upt upt_conv_Cons)
    ultimately show ?thesis using e \<open>k = Suc j\<close> by (simp add: algebra_simps del: upt_Suc)
  qed
qed simp

lemma exec_loop_iff:
  "(\<And>i. i < k \<Longrightarrow> fmlookup txs (n + of_nat i) \<noteq> None) \<Longrightarrow> fmlookup txs (n + of_nat k) = None \<Longrightarrow>
   k < fuel \<Longrightarrow> exec_loop fuel txs n e \<longleftrightarrow> (\<exists>i<k. fmlookup txs (n + of_nat i) = Some e)"
proof (induction fuel arbitrary: n k)
  case (Suc fuel)
  show ?case
  proof (cases k)
    case 0
    then show ?thesis using Suc.prems(2) by simp
  next
    case (Suc j)
    obtain x where x: "fmlookup txs n = Some x" using Suc.prems(1) [of 0] Suc by auto
    have "exec_loop fuel txs (n + 1) e \<longleftrightarrow> (\<exists>i<j. fmlookup txs (n + 1 + of_nat i) = Some e)"
      using Suc.prems(1) [of "Suc _"] Suc.prems(2,3) \<open>k = Suc j\<close>
      by (intro Suc.IH) (simp_all add: algebra_simps)
    then show ?thesis using x \<open>k = Suc j\<close> by (simp add: Ex_less_Suc2 algebra_simps)
  qed
qed simp

text \<open>The chain is the longest run of consecutive nonces that starts at the given one.\<close>

lemma chain_from_run:
  assumes "fm_size txs < 2 ^ 64"
  obtains k where "k \<le> fm_size txs" "\<And>i. i < k \<Longrightarrow> fmlookup txs (n + of_nat i) \<noteq> None"
    "fmlookup txs (n + of_nat k) = None"
    "chain_from txs n = map (\<lambda>i. the (fmlookup txs (n + of_nat i))) [0..<k]"
    "\<And>e. exec_loop (Suc (fm_size txs)) txs n e \<longleftrightarrow> e \<in> set (chain_from txs n)"
proof -
  define k where "k = (LEAST k. fmlookup txs (n + of_nat k) = None)"
  obtain j where j: "j \<le> fm_size txs" "fmlookup txs (n + of_nat j) = None"
    using missing_nonce [OF assms] by blast
  have k: "fmlookup txs (n + of_nat k) = None" unfolding k_def using j(2) by (rule LeastI)
  have "k \<le> fm_size txs" unfolding k_def using Least_le [of _ j] j by fastforce
  have below: "fmlookup txs (n + of_nat i) \<noteq> None" if "i < k" for i
    using not_less_Least that unfolding k_def by blast
  have c: "chain_from txs n = map (\<lambda>i. the (fmlookup txs (n + of_nat i))) [0..<k]"
    using nonce_chain_Some [OF below k, of "Suc (fm_size txs)"] \<open>k \<le> _\<close>
    by (simp add: chain_from_def del: nonce_chain.simps)
  have "exec_loop (Suc (fm_size txs)) txs n e \<longleftrightarrow> e \<in> set (chain_from txs n)" for e
    using exec_loop_iff [OF below k, of "Suc (fm_size txs)" e] \<open>k \<le> _\<close> below unfolding c by force
  then show ?thesis using that \<open>k \<le> _\<close> below k c by blast
qed

section \<open>The order of entries\<close>

lemma compareHash_word: "compareHash a b = (if a < b then -1 else if b < a then 1 else 0)"
  by (simp add: compareHash_def cmp_bytes_word)

lemma heap_Less_iff:
  "heap_Less a b \<longleftrightarrow>
     e_priority b < e_priority a \<or> (e_priority a = e_priority b \<and> e_hash a < e_hash b)"
  by (auto simp: heap_Less_def uint256_cmp_word compareHash_word Let_def)

lemma heap_Less_irrefl [simp]: "\<not> heap_Less a a"
  by (simp add: heap_Less_iff)

lemma heap_Less_trans: "heap_Less a b \<Longrightarrow> heap_Less b c \<Longrightarrow> heap_Less a c"
  by (auto simp: heap_Less_iff)

lemma heap_Less_total: "e_hash a \<noteq> e_hash b \<Longrightarrow> heap_Less a b \<or> heap_Less b a"
  by (auto simp: heap_Less_iff)

lemma heap_Less_antisym: "heap_Less a b \<Longrightarrow> \<not> heap_Less b a"
  by (auto simp: heap_Less_iff)

lemma entry_compare_le: "entry_compare a b \<le> 0 \<longleftrightarrow> \<not> heap_Less b a"
  by (auto simp: entry_compare_def heap_Less_iff uint256_cmp_word compareHash_word Let_def)

lemma best_of_in: "best_of e es \<in> set (e # es)"
  by (induction es arbitrary: e) auto

lemma best_of_least: "x \<in> set (e # es) \<Longrightarrow> \<not> heap_Less x (best_of e es)"
proof (induction es arbitrary: e x)
  case (Cons y es)
  let ?b = "if heap_Less y e then y else e"
  have b: "\<not> heap_Less ?b (best_of ?b es)" by (rule Cons.IH) simp
  have "x = e \<or> x = y \<or> x \<in> set es" using Cons.prems by auto
  then show ?case
  proof (elim disjE)
    assume "x \<in> set es"
    then show ?thesis using Cons.IH [of x ?b] by simp
  qed (use b in \<open>auto simp: heap_Less_iff split: if_splits\<close>)
qed simp

lemma heapPop_Some:
  assumes "heapPop h = Some (e, h')"
  shows "e \<in> set h \<and> mset h = add_mset e (mset h') \<and> (\<forall>x\<in>set h. \<not> heap_Less x e)"
proof -
  obtain y ys where h: "h = y # ys" and e: "e = best_of y ys" "h' = remove1 e h"
    using assms by (auto simp: heapPop_def split: list.splits)
  have "e \<in> set h" using best_of_in [of y ys] h e by simp
  then have "mset h = add_mset e (mset h')" by (simp add: e(2) insert_DiffM)
  then show ?thesis using \<open>e \<in> set h\<close> e(1) h best_of_least [of _ y ys] by simp
qed

lemma heapPop_None [simp]: "heapPop h = None \<longleftrightarrow> h = []"
  by (auto simp: heapPop_def split: list.splits)

end
