(* ===== verification/PoolInv.thy ===== *)
theory PoolInv
  imports Mempool
begin

text \<open>
  The invariant of the transaction pool and what it gives: the two indices hold the same entries,
  the capacity limits are kept, a refused transaction changes nothing but counters, and the
  statistics count what is there.
\<close>

section \<open>The invariant\<close>

text \<open>The two indices agree, and every entry is filed under its own hash, sender and nonce.\<close>

definition indices_ok :: "'t geth \<Rightarrow> 't pool \<Rightarrow> bool" where
  "indices_ok g p \<longleftrightarrow>
     (\<forall>s n e. fmlookup (sender_txs p s) n = Some e \<longleftrightarrow>
        fmlookup (p_byHash p) (e_hash e) = Some e \<and> e_sender e = s \<and> gt_Nonce g (e_tx e) = n) \<and>
     (\<forall>h e. fmlookup (p_byHash p) h = Some e \<longrightarrow> e_hash e = h \<and> gt_Hash g (e_tx e) = h) \<and>
     (\<forall>s m. fmlookup (p_bySender p) s = Some m \<longrightarrow> fm_size m \<noteq> 0)"

definition limits_ok :: "'t geth \<Rightarrow> 't pool \<Rightarrow> bool" where
  "limits_ok g p \<longleftrightarrow>
     0 < c_MaxTxs (p_cfg p) \<and> 0 < c_MaxPerAccount (p_cfg p) \<and>
     int (fm_size (p_byHash p)) \<le> c_MaxTxs (p_cfg p) \<and>
     (\<forall>s. int (fm_size (sender_txs p s)) \<le> c_MaxPerAccount (p_cfg p)) \<and>
     (\<forall>h e. fmlookup (p_byHash p) h = Some e \<longrightarrow>
        gt_Gas g (e_tx e) \<le> c_BlockGasLimit (p_cfg p))"

definition stats_ok :: "'t pool \<Rightarrow> bool" where
  "stats_ok p \<longleftrightarrow> s_Total (p_stats p) = int (fm_size (p_byHash p)) \<and>
     s_Pending (p_stats p) + s_Queued (p_stats p) = s_Total (p_stats p) \<and>
     0 \<le> s_Pending (p_stats p) \<and> 0 \<le> s_Queued (p_stats p)"

text \<open>A Go \<open>int\<close> is below \<open>2 ^ 63\<close>.\<close>

definition config_ok :: "config \<Rightarrow> bool" where
  "config_ok cfg \<longleftrightarrow> c_MaxTxs cfg < 2 ^ 63 \<and> c_MaxPerAccount cfg < 2 ^ 63"

definition pool_ok :: "'t geth \<Rightarrow> 't pool \<Rightarrow> bool" where
  "pool_ok g p \<longleftrightarrow> indices_ok g p \<and> limits_ok g p \<and> config_ok (p_cfg p)"

lemma sender_txs_iff:
  "indices_ok g p \<Longrightarrow> fmlookup (sender_txs p s) n = Some e \<longleftrightarrow>
     fmlookup (p_byHash p) (e_hash e) = Some e \<and> e_sender e = s \<and> gt_Nonce g (e_tx e) = n"
  by (simp add: indices_ok_def)

lemma byHash_hash:
  "indices_ok g p \<Longrightarrow> fmlookup (p_byHash p) h = Some e \<Longrightarrow> e_hash e = h \<and> gt_Hash g (e_tx e) = h"
  by (simp add: indices_ok_def)

lemma bySender_nonempty: "indices_ok g p \<Longrightarrow> fmlookup (p_bySender p) s = Some m \<Longrightarrow> fm_size m \<noteq> 0"
  by (simp add: indices_ok_def)

section \<open>Removing and inserting\<close>

lemma removeLocked_views [simp]:
  "p_byHash (removeLocked g e p) = fmdrop (e_hash e) (p_byHash p)"
  "p_cfg (removeLocked g e p) = p_cfg p"
  "p_accountNonce (removeLocked g e p) = p_accountNonce p"
  "p_stats (removeLocked g e p) = p_stats p"
  by (simp_all add: removeLocked_def Let_def split: option.splits)

lemma fm_size_eq_0: "fm_size m = 0 \<longleftrightarrow> m = fmempty"
proof
  assume "fm_size m = 0"
  then have "fmdom m = {||}" by (simp add: fm_size_def fcard.rep_eq) (simp flip: fset_cong add: fset_inverse)
  then show "m = fmempty" by (intro fmap_ext) (metis fmdom_empty fmdom_notD fempty_iff)
qed simp

lemma sender_txs_remove:
  "sender_txs (removeLocked g e p) s =
     (if s = e_sender e then fmdrop (gt_Nonce g (e_tx e)) (sender_txs p s) else sender_txs p s)"
  by (auto simp: removeLocked_def sender_txs_def Let_def fm_size_eq_0 split: option.splits)

lemma bySender_remove:
  "fmlookup (p_bySender (removeLocked g e p)) s = Some m \<Longrightarrow>
     (s \<noteq> e_sender e \<and> fmlookup (p_bySender p) s = Some m) \<or> fm_size m \<noteq> 0"
  by (auto simp: removeLocked_def Let_def split: option.splits if_splits)

lemma indices_remove:
  assumes "indices_ok g p" "fmlookup (p_byHash p) (e_hash e) = Some e"
  shows "indices_ok g (removeLocked g e p)"
  unfolding indices_ok_def
proof (intro conjI allI impI)
  fix s n x
  have "x = e" if "fmlookup (p_byHash p) (e_hash x) = Some x" "e_hash x = e_hash e" for x
    using that assms(2) by simp
  moreover have "x = e" if "fmlookup (p_byHash p) (e_hash x) = Some x" "e_sender x = e_sender e"
      "gt_Nonce g (e_tx x) = gt_Nonce g (e_tx e)" for x
    using that assms sender_txs_iff [OF assms(1)] by (metis option.inject)
  ultimately show "fmlookup (sender_txs (removeLocked g e p) s) n = Some x \<longleftrightarrow>
      fmlookup (p_byHash (removeLocked g e p)) (e_hash x) = Some x \<and> e_sender x = s \<and> gt_Nonce g (e_tx x) = n"
    using sender_txs_iff [OF assms(1)] by (auto simp: sender_txs_remove split: if_splits)
next
  fix h x assume "fmlookup (p_byHash (removeLocked g e p)) h = Some x"
  then have "fmlookup (p_byHash p) h = Some x" by (simp split: if_splits)
  from byHash_hash [OF assms(1) this] show "e_hash x = h" "gt_Hash g (e_tx x) = h" by simp_all
next
  fix s m assume "fmlookup (p_bySender (removeLocked g e p)) s = Some m"
  then show "fm_size m \<noteq> 0" using bySender_remove bySender_nonempty [OF assms(1)] by blast
qed

lemma fmdrop_bound: "int (fm_size m) \<le> b \<Longrightarrow> int (fm_size (fmdrop k m)) \<le> b"
proof -
  have "fm_size (fmdrop k m) \<le> fm_size m" by (simp add: fm_size_drop)
  then show "int (fm_size m) \<le> b \<Longrightarrow> int (fm_size (fmdrop k m)) \<le> b" by linarith
qed

lemma limits_remove: "limits_ok g p \<Longrightarrow> limits_ok g (removeLocked g e p)"
  by (auto simp: limits_ok_def sender_txs_remove fmdrop_bound split: if_splits)

lemma pool_ok_remove:
  "pool_ok g p \<Longrightarrow> fmlookup (p_byHash p) (e_hash e) = Some e \<Longrightarrow> pool_ok g (removeLocked g e p)"
  by (simp add: pool_ok_def indices_remove limits_remove)

definition new_entry :: "'t geth \<Rightarrow> 't \<Rightarrow> address \<Rightarrow> 't pool \<Rightarrow> 't entry" where
  "new_entry g tx s p = \<lparr>e_tx = tx, e_sender = s, e_hash = gt_Hash g tx,
     e_priority = tipToU256 g tx (c_BaseFee (p_cfg p))\<rparr>"

lemma new_entry_simps [simp]:
  "e_tx (new_entry g tx s p) = tx" "e_sender (new_entry g tx s p) = s"
  "e_hash (new_entry g tx s p) = gt_Hash g tx"
  by (simp_all add: new_entry_def)

lemma insert_entry_views [simp]:
  "p_byHash (insert_entry g tx s p) = fmupd (gt_Hash g tx) (new_entry g tx s p) (p_byHash p)"
  "p_cfg (insert_entry g tx s p) = p_cfg p"
  "p_accountNonce (insert_entry g tx s p) = p_accountNonce p"
  "p_stats (insert_entry g tx s p) = p_stats p"
  by (simp_all add: insert_entry_def new_entry_def Let_def)

lemma sender_txs_insert:
  "sender_txs (insert_entry g tx s p) x =
     (if x = s then fmupd (gt_Nonce g tx) (new_entry g tx s p) (sender_txs p s) else sender_txs p x)"
  by (auto simp: insert_entry_def new_entry_def sender_txs_def Let_def)

lemma bySender_insert:
  "fmlookup (p_bySender (insert_entry g tx s p)) x = Some m \<Longrightarrow>
     (x \<noteq> s \<and> fmlookup (p_bySender p) x = Some m) \<or> fm_size m \<noteq> 0"
  by (auto simp: insert_entry_def fm_size_eq_0 Let_def split: if_splits)

text \<open>There is a free place for a transaction.\<close>

definition room_for :: "'t geth \<Rightarrow> 't \<Rightarrow> address \<Rightarrow> 't pool \<Rightarrow> bool" where
  "room_for g tx s p \<longleftrightarrow> fmlookup (p_byHash p) (gt_Hash g tx) = None \<and>
     fmlookup (sender_txs p s) (gt_Nonce g tx) = None \<and>
     gt_Gas g tx \<le> c_BlockGasLimit (p_cfg p) \<and>
     int (fm_size (p_byHash p)) < c_MaxTxs (p_cfg p) \<and>
     int (fm_size (sender_txs p s)) < c_MaxPerAccount (p_cfg p)"

lemma indices_insert:
  assumes "indices_ok g p" "room_for g tx s p"
  shows "indices_ok g (insert_entry g tx s p)"
proof -
  let ?e = "new_entry g tx s p"
  have free: "fmlookup (p_byHash p) (gt_Hash g tx) = None" "fmlookup (sender_txs p s) (gt_Nonce g tx) = None"
    using assms(2) by (simp_all add: room_for_def)
  have h: "fmlookup (p_byHash (insert_entry g tx s p)) (e_hash x) = Some x \<longleftrightarrow>
      x = ?e \<or> fmlookup (p_byHash p) (e_hash x) = Some x" for x
    using free(1) by auto
  have n: "fmlookup (sender_txs (insert_entry g tx s p) s') n = Some x \<longleftrightarrow>
      s' = s \<and> n = gt_Nonce g tx \<and> x = ?e \<or> fmlookup (sender_txs p s') n = Some x" for s' n x
    using free(2) by (auto simp: sender_txs_insert)
  have "fmlookup (sender_txs (insert_entry g tx s p) s') n = Some x \<longleftrightarrow>
      fmlookup (p_byHash (insert_entry g tx s p)) (e_hash x) = Some x \<and> e_sender x = s' \<and> gt_Nonce g (e_tx x) = n"
    for s' n x
    unfolding h n sender_txs_iff [OF assms(1)] by auto
  moreover have "e_hash x = h \<and> gt_Hash g (e_tx x) = h"
    if "fmlookup (p_byHash (insert_entry g tx s p)) h = Some x" for h x
    using that byHash_hash [OF assms(1), of h x] by (auto split: if_splits)
  ultimately show ?thesis
    using bySender_insert [of g tx s p] bySender_nonempty [OF assms(1)] unfolding indices_ok_def by blast
qed

lemma limits_insert:
  assumes "limits_ok g p" "room_for g tx s p"
  shows "limits_ok g (insert_entry g tx s p)"
  using assms by (auto simp: limits_ok_def room_for_def sender_txs_insert fm_size_upd split: if_splits)

lemma pool_ok_insert: "pool_ok g p \<Longrightarrow> room_for g tx s p \<Longrightarrow> pool_ok g (insert_entry g tx s p)"
  by (simp add: pool_ok_def indices_insert limits_insert)

text \<open>Counters, nonces and the base fee are not part of the invariant.\<close>

lemma refresh_views [simp]:
  "p_byHash (refreshStatsLocked p) = p_byHash p" "p_bySender (refreshStatsLocked p) = p_bySender p"
  "p_cfg (refreshStatsLocked p) = p_cfg p" "p_accountNonce (refreshStatsLocked p) = p_accountNonce p"
  by (simp_all add: refreshStatsLocked_def Let_def)

lemma reject_views [simp]:
  "p_byHash (fst (rejectLocked r e p)) = p_byHash p" "p_bySender (fst (rejectLocked r e p)) = p_bySender p"
  "p_cfg (fst (rejectLocked r e p)) = p_cfg p" "p_accountNonce (fst (rejectLocked r e p)) = p_accountNonce p"
  "snd (rejectLocked r e p) = Some e"
  by (simp_all add: rejectLocked_def Let_def)

lemma record_views [simp]:
  "p_byHash (record_nonce s n p) = p_byHash p" "p_bySender (record_nonce s n p) = p_bySender p"
  "p_cfg (record_nonce s n p) = p_cfg p" "p_stats (record_nonce s n p) = p_stats p"
  by (simp_all add: record_nonce_def split: option.splits)

lemma sender_txs_cong: "p_bySender p = p_bySender q \<Longrightarrow> sender_txs p s = sender_txs q s"
  by (simp add: sender_txs_def)

lemma pool_ok_cong:
  assumes "p_byHash p = p_byHash q" "p_bySender p = p_bySender q"
    "c_MaxTxs (p_cfg p) = c_MaxTxs (p_cfg q)" "c_MaxPerAccount (p_cfg p) = c_MaxPerAccount (p_cfg q)"
    "c_BlockGasLimit (p_cfg p) = c_BlockGasLimit (p_cfg q)"
  shows "pool_ok g p \<longleftrightarrow> pool_ok g q"
  using assms sender_txs_cong [OF assms(2)]
  by (simp add: pool_ok_def indices_ok_def limits_ok_def config_ok_def)

section \<open>Executable transactions\<close>

lemma sender_size: "pool_ok g p \<Longrightarrow> fm_size (sender_txs p s) < 2 ^ 64"
proof -
  assume "pool_ok g p"
  then have "int (fm_size (sender_txs p s)) \<le> c_MaxPerAccount (p_cfg p)" "c_MaxPerAccount (p_cfg p) < 2 ^ 63"
    by (simp_all add: pool_ok_def limits_ok_def config_ok_def)
  then show ?thesis by simp
qed

lemma chain_member:
  assumes "pool_ok g p" "e \<in> set (chain_from (sender_txs p s) n)"
  shows "fmlookup (p_byHash p) (e_hash e) = Some e \<and> e_sender e = s"
proof -
  obtain k where "\<And>i. i < k \<Longrightarrow> fmlookup (sender_txs p s) (n + of_nat i) \<noteq> None"
    "chain_from (sender_txs p s) n = map (\<lambda>i. the (fmlookup (sender_txs p s) (n + of_nat i))) [0..<k]"
    using chain_from_run [OF sender_size [OF assms(1)], of s n] by metis
  then obtain m where "fmlookup (sender_txs p s) m = Some e" using assms(2) by fastforce
  then show ?thesis using sender_txs_iff [of g p s m e] assms(1) by (simp add: pool_ok_def)
qed

lemma executable_member:
  "pool_ok g p \<Longrightarrow> e \<in> set (executableLocked p) \<Longrightarrow> fmlookup (p_byHash p) (e_hash e) = Some e"
  by (auto simp: executableLocked_def dest: chain_member)

lemma isExecutable_iff:
  assumes "pool_ok g p" "fmlookup (p_byHash p) (e_hash e) = Some e"
  shows "isExecutableLocked p e \<longleftrightarrow> e \<in> set (executableLocked p)"
proof -
  let ?s = "e_sender e"
  have "fmlookup (sender_txs p ?s) (gt_Nonce g (e_tx e)) = Some e"
    using assms sender_txs_iff [of g p ?s _ e] by (simp add: pool_ok_def)
  then obtain m where m: "fmlookup (p_bySender p) ?s = Some m" "sender_txs p ?s = m"
    by (cases "fmlookup (p_bySender p) ?s") (auto simp: sender_txs_def)
  obtain k where run: "\<And>e. exec_loop (Suc (fm_size (sender_txs p ?s))) (sender_txs p ?s) (account_nonce p ?s) e \<longleftrightarrow>
      e \<in> set (chain_from (sender_txs p ?s) (account_nonce p ?s))"
    using chain_from_run [OF sender_size [OF assms(1)], of ?s "account_nonce p ?s"] by metis
  have "isExecutableLocked p e \<longleftrightarrow> e \<in> set (chain_from (sender_txs p ?s) (account_nonce p ?s))"
    using run [of e] m by (simp only: isExecutableLocked_def option.case)
  also have "\<dots> \<longleftrightarrow> e \<in> set (executableLocked p)"
  proof
    assume "e \<in> set (chain_from (sender_txs p ?s) (account_nonce p ?s))"
    moreover have "?s \<in> set (sorted_keys (p_bySender p))" using m(1) by (simp add: fmlookup_dom'_iff)
    ultimately show "e \<in> set (executableLocked p)" by (auto simp: executableLocked_def)
  next
    assume "e \<in> set (executableLocked p)"
    then obtain s where "e \<in> set (chain_from (sender_txs p s) (account_nonce p s))"
      by (auto simp: executableLocked_def)
    moreover from chain_member [OF assms(1) this] have "e_sender e = s" by simp
    ultimately show "e \<in> set (chain_from (sender_txs p ?s) (account_nonce p ?s))" by simp
  qed
  finally show ?thesis .
qed

section \<open>Eviction removes one entry, or changes nothing\<close>

lemma lowest_of_in: "lowest_of e es \<in> set (e # es)"
  unfolding lowest_of_def by (induction es arbitrary: e) (auto simp: Let_def)

lemma evict_cases:
  assumes "pool_ok g p" "evictLowestIfWorseThanLocked g tx p = (p', b)"
  shows "if b then \<exists>e. fmlookup (p_byHash p) (e_hash e) = Some e \<and> p' = removeLocked g e p
         else p' = p"
proof (cases "executableLocked p")
  case Nil
  let ?q = "filter (\<lambda>e. \<not> isExecutableLocked p e)
    (map (\<lambda>h. the (fmlookup (p_byHash p) h)) (sorted_keys (p_byHash p)))"
  have "fmlookup (p_byHash p) (e_hash e) = Some e" if "e \<in> set ?q" for e
    using that byHash_hash [of g p] assms(1) by (force simp: pool_ok_def fmlookup_dom'_iff)
  then have "fmlookup (p_byHash p) (e_hash v) = Some v" if "?q = v # vs" for v vs
    using that by (metis list.set_intros(1))
  then show ?thesis using assms(2) Nil
    by (auto simp: evictLowestIfWorseThanLocked_def evictAnyQueuedLocked_def Let_def split: list.splits)
next
  case (Cons c cs)
  have "fmlookup (p_byHash p) (e_hash (lowest_of c (c # cs))) = Some (lowest_of c (c # cs))"
    using executable_member [OF assms(1)] lowest_of_in [of c "c # cs"] Cons by auto
  then show ?thesis using assms(2) Cons
    by (auto simp: evictLowestIfWorseThanLocked_def Let_def split: if_splits)
qed

text \<open>A pool that is full makes room by evicting.\<close>

lemma evict_makes_room:
  assumes "pool_ok g p" "fmlookup (p_byHash p) (gt_Hash g tx) = None"
    "fmlookup (sender_txs p s) (gt_Nonce g tx) = None" "gt_Gas g tx \<le> c_BlockGasLimit (p_cfg p)"
    "int (fm_size (sender_txs p s)) < c_MaxPerAccount (p_cfg p)"
    "fmlookup (p_byHash p) (e_hash e) = Some e"
  shows "room_for g tx s (removeLocked g e p)"
proof -
  have "0 < fm_size (p_byHash p)" using assms(6) by (metis fm_size_eq_0 fmempty_lookup gr0I option.distinct(1))
  then have "int (fm_size (fmdrop (e_hash e) (p_byHash p))) < c_MaxTxs (p_cfg p)"
    using assms(1,6) by (simp add: fm_size_drop pool_ok_def limits_ok_def)
  moreover have "int (fm_size (sender_txs (removeLocked g e p) s)) < c_MaxPerAccount (p_cfg p)"
    using order.strict_trans1 [OF fmdrop_bound [OF order.refl] assms(5)] assms(5)
    by (cases "s = e_sender e") (simp_all add: sender_txs_remove)
  moreover have "fmlookup (sender_txs (removeLocked g e p) s) (gt_Nonce g tx) = None"
    using assms(3) by (auto simp: sender_txs_remove)
  ultimately show ?thesis using assms(2,4) by (simp add: room_for_def)
qed

lemma replace_makes_room:
  assumes "pool_ok g p" "fmlookup (p_byHash p) (gt_Hash g tx) = None"
    "gt_Gas g tx \<le> c_BlockGasLimit (p_cfg p)" "fmlookup (sender_txs p s) (gt_Nonce g tx) = Some old"
  shows "fmlookup (p_byHash p) (e_hash old) = Some old \<and> room_for g tx s (removeLocked g old p)"
proof -
  have old: "fmlookup (p_byHash p) (e_hash old) = Some old" "e_sender old = s" "gt_Nonce g (e_tx old) = gt_Nonce g tx"
    using assms(1,4) sender_txs_iff [of g p s] by (simp_all add: pool_ok_def)
  have "0 < fm_size (p_byHash p)" using old(1) by (metis fm_size_eq_0 fmempty_lookup gr0I option.distinct(1))
  then have "int (fm_size (fmdrop (e_hash old) (p_byHash p))) < c_MaxTxs (p_cfg p)"
    using assms(1) old(1) by (simp add: fm_size_drop pool_ok_def limits_ok_def)
  moreover have "0 < fm_size (sender_txs p s)"
    using assms(4) by (metis fm_size_eq_0 fmempty_lookup gr0I option.distinct(1))
  moreover have "int (fm_size (sender_txs p s)) \<le> c_MaxPerAccount (p_cfg p)"
    using assms(1) by (simp add: pool_ok_def limits_ok_def)
  ultimately show ?thesis
    using assms old by (simp add: room_for_def sender_txs_remove fm_size_drop)
qed

section \<open>Admission\<close>

text \<open>What can become of a transaction that reaches the capacity checks.\<close>

lemma add_capacity_cases:
  assumes ok: "pool_ok g p"
    and free: "fmlookup (p_byHash p) (gt_Hash g tx) = None" "fmlookup (sender_txs p s) (gt_Nonce g tx) = None"
      "gt_Gas g tx \<le> c_BlockGasLimit (p_cfg p)"
    and m: "case senderTxs of None \<Rightarrow> sender_txs p s = fmempty | Some m \<Rightarrow> m = sender_txs p s"
    and add: "add_capacity g tx s senderTxs p = (p', r)"
  obtains "r = Some ErrAccountQueueFull" "p' = fst (rejectLocked ''account_queue_full'' ErrAccountQueueFull p)"
      "int (fm_size (sender_txs p s)) \<ge> c_MaxPerAccount (p_cfg p)"
  | "r = Some ErrPoolFull" "p' = fst (rejectLocked ''pool_full'' ErrPoolFull p)"
      "int (fm_size (p_byHash p)) \<ge> c_MaxTxs (p_cfg p)"
  | "r = None" "p' = refreshStatsLocked (insert_entry g tx s p)" "room_for g tx s p"
  | e where "r = None" "p' = refreshStatsLocked (insert_entry g tx s (removeLocked g e p))"
      "fmlookup (p_byHash p) (e_hash e) = Some e" "room_for g tx s (removeLocked g e p)"
      "int (fm_size (p_byHash p)) \<ge> c_MaxTxs (p_cfg p)"
proof (cases "int (fm_size (sender_txs p s)) \<ge> c_MaxPerAccount (p_cfg p)")
  case True
  moreover have "senderTxs \<noteq> None"
    using True ok m by (cases senderTxs) (simp_all add: pool_ok_def limits_ok_def)
  ultimately have "(p', r) = rejectLocked ''account_queue_full'' ErrAccountQueueFull p"
    using add m by (auto simp: add_capacity_def)
  then show ?thesis using that(1) True by (metis fst_conv reject_views(5) snd_conv)
next
  case small: False
  then have s: "\<not> (case senderTxs of None \<Rightarrow> False | Some m \<Rightarrow> int (fm_size m) \<ge> c_MaxPerAccount (p_cfg p))"
    using m by (auto split: option.splits)
  show ?thesis
  proof (cases "int (fm_size (p_byHash p)) \<ge> c_MaxTxs (p_cfg p)")
    case full: True
    obtain q b where q: "evictLowestIfWorseThanLocked g tx p = (q, b)" by fastforce
    note c = evict_cases [OF ok q]
    show ?thesis
    proof (cases b)
      case False
      then have "(p', r) = rejectLocked ''pool_full'' ErrPoolFull p"
        using add c s full q by (simp add: add_capacity_def)
      then show ?thesis using that(2) full by (metis fst_conv reject_views(5) snd_conv)
    next
      case True
      then obtain e where e: "fmlookup (p_byHash p) (e_hash e) = Some e" "q = removeLocked g e p" using c by auto
      moreover have "p' = refreshStatsLocked (insert_entry g tx s q)" "r = None"
        using add s full q True by (simp_all add: add_capacity_def)
      ultimately show ?thesis using that(4) full evict_makes_room [OF ok free _ e(1)] small by simp
    qed
  next
    case False
    then have "p' = refreshStatsLocked (insert_entry g tx s p)" "r = None"
      using add s by (simp_all add: add_capacity_def)
    then show ?thesis using that(3) False small free by (simp add: room_for_def)
  qed
qed

text \<open>
  What \<open>Add\<close> does: a refusal leaves both indices alone; an acceptance inserts the transaction
  into the pool, from which at most one entry was taken, the one it replaces or the evicted one.
\<close>

definition same_txs :: "'t pool \<Rightarrow> 't pool \<Rightarrow> bool" where
  "same_txs p q \<longleftrightarrow> p_byHash p = p_byHash q \<and> p_bySender p = p_bySender q \<and> p_cfg p = p_cfg q"

lemma same_txs_simps [simp]:
  "same_txs p p" "same_txs (fst (rejectLocked r e p)) q = same_txs p q"
  "same_txs (record_nonce s n p) q = same_txs p q" "same_txs (refreshStatsLocked p) q = same_txs p q"
  by (simp_all add: same_txs_def)

lemma same_txs_ok: "same_txs p q \<Longrightarrow> pool_ok g p = pool_ok g q"
  by (intro pool_ok_cong) (simp_all add: same_txs_def)

lemma pool_ok_record [simp]: "pool_ok g (record_nonce s n p) = pool_ok g p"
  by (rule pool_ok_cong) simp_all

lemma sender_txs_record [simp]: "sender_txs (record_nonce s n p) = sender_txs p"
  by (rule ext) (simp add: sender_txs_def)

lemma Add_cases:
  assumes ok: "pool_ok g p" and add: "Add g tx s n p = (p', r)"
  obtains e where "r = Some e" "same_txs p' p" "s_Total (p_stats p') = s_Total (p_stats p)"
      "s_Pending (p_stats p') = s_Pending (p_stats p)" "s_Queued (p_stats p') = s_Queued (p_stats p)"
  | "r = None" "p' = refreshStatsLocked (insert_entry g tx s (record_nonce s n p))"
      "room_for g tx s (record_nonce s n p)"
  | old where "r = None"
      "p' = refreshStatsLocked (insert_entry g tx s (removeLocked g old (record_nonce s n p)))"
      "fmlookup (p_byHash p) (e_hash old) = Some old" "room_for g tx s (removeLocked g old (record_nonce s n p))"
      "fmlookup (p_byHash p) (gt_Hash g tx) = None"
      "(fmlookup (sender_txs p s) (gt_Nonce g tx) = Some old \<and> canReplace g (e_tx old) tx) \<or>
       (fmlookup (sender_txs p s) (gt_Nonce g tx) = None \<and> int (fm_size (p_byHash p)) \<ge> c_MaxTxs (p_cfg p))"
proof -
  let ?p = "record_nonce s n p"
  note result = that
  have reject: thesis if pr: "(p', r) = rejectLocked re e q" and q: "same_txs q p" "p_stats q = p_stats p" for re e q
  proof -
    have "p' = fst (rejectLocked re e q)" "r = snd (rejectLocked re e q)"
      using pr by (metis fst_conv, metis snd_conv)
    then show thesis using result(1) [of e] q by (simp add: rejectLocked_def Let_def same_txs_def)
  qed
  show thesis
  proof (cases "gt_Gas g tx > c_BlockGasLimit (p_cfg p) \<or> \<not> fee_check g tx p \<or>
      gt_Nonce g tx < account_nonce ?p s \<or> fmlookup (p_byHash p) (gt_Hash g tx) \<noteq> None")
    case True
    then have "(\<exists>re e. (p', r) = rejectLocked re e p) \<or> (\<exists>re e. (p', r) = rejectLocked re e ?p)"
      unfolding Add_def Let_def add [symmetric] by (auto split: if_splits)
    then show ?thesis using reject [of _ _ p] reject [of _ _ ?p] by auto
  next
    case False
    then have new: "fmlookup (p_byHash ?p) (gt_Hash g tx) = None" and gas: "gt_Gas g tx \<le> c_BlockGasLimit (p_cfg ?p)"
      by auto
    have ok': "pool_ok g ?p" using ok by simp
    have add': "(case fmlookup (p_bySender p) s of
        None \<Rightarrow> add_capacity g tx s None ?p
      | Some senderTxs \<Rightarrow>
          (case fmlookup senderTxs (gt_Nonce g tx) of
             None \<Rightarrow> add_capacity g tx s (Some senderTxs) ?p
           | Some old \<Rightarrow>
               if \<not> canReplace g (e_tx old) tx then rejectLocked ''replace_too_cheap'' ErrReplaceTooCheap ?p
               else add_capacity g tx s (Some (fmdrop (gt_Nonce g (e_tx old)) senderTxs))
                      (removeLocked g old ?p))) = (p', r)"
      using add False by (simp add: Add_def Let_def)
    show ?thesis
    proof (cases "fmlookup (sender_txs p s) (gt_Nonce g tx)")
      case None
      let ?m = "fmlookup (p_bySender p) s"
      have m: "case ?m of None \<Rightarrow> sender_txs ?p s = fmempty | Some m \<Rightarrow> m = sender_txs ?p s"
        by (simp add: sender_txs_def split: option.splits)
      have "add_capacity g tx s ?m ?p = (p', r)"
        using add' None by (cases ?m) (auto simp: sender_txs_def)
      note m = m this
      have free: "fmlookup (sender_txs ?p s) (gt_Nonce g tx) = None" using None by simp
      from ok' new free gas m show ?thesis
      proof (cases rule: add_capacity_cases)
        case 1
        then show ?thesis using reject [of "''account_queue_full''" ErrAccountQueueFull ?p] by (simp add: prod_eq_iff)
      next
        case 2
        then show ?thesis using reject [of "''pool_full''" ErrPoolFull ?p] by (simp add: prod_eq_iff)
      next
        case 3
        then show ?thesis using result(2) by simp
      next
        case (4 e)
        then show ?thesis using result(3) [of e] None new by simp
      qed
    next
      case (Some old)
      have old: "fmlookup (p_byHash ?p) (e_hash old) = Some old" "room_for g tx s (removeLocked g old ?p)"
        using replace_makes_room [OF ok' new gas, of s old] Some by simp_all
      obtain m where m: "fmlookup (p_bySender p) s = Some m" "m = sender_txs p s"
        using Some by (cases "fmlookup (p_bySender p) s") (auto simp: sender_txs_def)
      show ?thesis
      proof (cases "canReplace g (e_tx old) tx")
        case False
        then have "rejectLocked ''replace_too_cheap'' ErrReplaceTooCheap ?p = (p', r)"
          using add' m Some by simp
        then show ?thesis using reject [of "''replace_too_cheap''" ErrReplaceTooCheap ?p] by simp
      next
        case True
        have old': "e_sender old = s" "gt_Nonce g (e_tx old) = gt_Nonce g tx"
          using ok Some sender_txs_iff [of g p s _ old] by (simp_all add: pool_ok_def)
        let ?q = "removeLocked g old ?p"
        have "add_capacity g tx s (Some (sender_txs ?q s)) ?q = (p', r)"
          using add' m Some True old' by (simp add: sender_txs_remove)
        moreover have "\<not> int (fm_size (sender_txs ?q s)) \<ge> c_MaxPerAccount (p_cfg ?q)"
            "\<not> int (fm_size (p_byHash ?q)) \<ge> c_MaxTxs (p_cfg ?q)"
          using old(2) unfolding room_for_def by linarith+
        ultimately have "r = None" "p' = refreshStatsLocked (insert_entry g tx s ?q)"
          by (simp_all add: add_capacity_def)
        then show ?thesis using result(3) [of old] old Some True new by simp
      qed
    qed
  qed
qed

lemma Add_ok:
  assumes "pool_ok g p" "Add g tx s n p = (p', r)"
  shows "pool_ok g p'"
proof (rule Add_cases [OF assms])
  fix e assume "same_txs p' p"
  then show ?thesis using assms(1) same_txs_ok by blast
next
  assume "p' = refreshStatsLocked (insert_entry g tx s (record_nonce s n p))"
    "room_for g tx s (record_nonce s n p)"
  then show ?thesis using assms(1) pool_ok_insert [of g "record_nonce s n p" tx s]
    by (subst same_txs_ok [of _ "insert_entry g tx s (record_nonce s n p)"]) simp_all
next
  fix old
  let ?q = "removeLocked g old (record_nonce s n p)"
  assume "p' = refreshStatsLocked (insert_entry g tx s ?q)" "room_for g tx s ?q"
    "fmlookup (p_byHash p) (e_hash old) = Some old"
  then show ?thesis using assms(1) pool_ok_insert [of g ?q tx s] pool_ok_remove [of g "record_nonce s n p" old]
    by (subst same_txs_ok [of _ "insert_entry g tx s ?q"]) simp_all
qed

section \<open>Removal\<close>

text \<open>What is left when the entries that satisfy a condition are taken out.\<close>

definition without :: "('t entry \<Rightarrow> bool) \<Rightarrow> 't pool \<Rightarrow> hash \<Rightarrow> 't entry option" where
  "without P p h = (case fmlookup (p_byHash p) h of
     Some e \<Rightarrow> if P e then None else Some e | None \<Rightarrow> None)"

lemma without_cong:
  assumes "indices_ok g p"
    "\<And>e. fmlookup (p_byHash p) (e_hash e) = Some e \<Longrightarrow> P e = Q e"
  shows "without P p = without Q p"
proof (rule ext)
  fix h
  show "without P p h = without Q p h"
  proof (cases "fmlookup (p_byHash p) h")
    case (Some e)
    then have "fmlookup (p_byHash p) (e_hash e) = Some e" using byHash_hash [OF assms(1) Some] by simp
    then show ?thesis using assms(2) Some by (simp add: without_def)
  qed (simp add: without_def)
qed

lemma without_remove:
  assumes "indices_ok g p" "fmlookup (p_byHash p) (e_hash e) = Some e"
  shows "without P (removeLocked g e p) = without (\<lambda>x. x = e \<or> P x) p"
proof (rule ext)
  fix h
  show "without P (removeLocked g e p) h = without (\<lambda>x. x = e \<or> P x) p h"
  proof (cases "h = e_hash e")
    case False
    then have "fmlookup (p_byHash p) h \<noteq> Some e" using byHash_hash [OF assms(1), of h e] by blast
    then show ?thesis using False by (auto simp: without_def split: option.splits)
  qed (simp add: without_def assms(2))
qed

lemma without_none: "(\<And>e. \<not> P e) \<Longrightarrow> without P p = fmlookup (p_byHash p)"
  by (rule ext) (simp add: without_def split: option.splits)

lemma remove_nonces_result:
  assumes "pool_ok g p" "txs = sender_txs p s" "remove_nonces g ns txs p = (p', k)"
  shows "pool_ok g p' \<and> p_cfg p' = p_cfg p \<and> p_accountNonce p' = p_accountNonce p \<and> p_stats p' = p_stats p \<and>
    fmlookup (p_byHash p') = without (\<lambda>e. e_sender e = s \<and> gt_Nonce g (e_tx e) \<in> set ns) p"
  using assms
proof (induction ns arbitrary: txs p k)
  case Nil
  then show ?case by (simp add: without_none)
next
  case (Cons n ns)
  have ok: "indices_ok g p" using Cons.prems(1) by (simp add: pool_ok_def)
  note iff = sender_txs_iff [OF ok, of s n]
  show ?case
  proof (cases "fmlookup txs n")
    case None
    have "without (\<lambda>e. e_sender e = s \<and> gt_Nonce g (e_tx e) \<in> set (n # ns)) p =
        without (\<lambda>e. e_sender e = s \<and> gt_Nonce g (e_tx e) \<in> set ns) p"
      by (rule without_cong [OF ok]) (use iff None Cons.prems(2) in auto)
    then show ?thesis using Cons.IH [OF Cons.prems(1,2)] Cons.prems(3) None by simp
  next
    case (Some e)
    then have e: "fmlookup (p_byHash p) (e_hash e) = Some e" "e_sender e = s" "gt_Nonce g (e_tx e) = n"
      using iff [of e] Cons.prems(2) by simp_all
    obtain j where j: "remove_nonces g ns (fmdrop (gt_Nonce g (e_tx e)) txs) (removeLocked g e p) = (p', j)"
      using Cons.prems(3) Some by (auto simp: Let_def split: prod.splits)
    have "pool_ok g (removeLocked g e p)" "fmdrop (gt_Nonce g (e_tx e)) txs = sender_txs (removeLocked g e p) s"
      using pool_ok_remove [OF Cons.prems(1) e(1)] Cons.prems(2) e(2) by (simp_all add: sender_txs_remove)
    note IH = Cons.IH [OF this j]
    have "without (\<lambda>x. x = e \<or> e_sender x = s \<and> gt_Nonce g (e_tx x) \<in> set ns) p =
        without (\<lambda>e. e_sender e = s \<and> gt_Nonce g (e_tx e) \<in> set (n # ns)) p"
    proof (rule without_cong [OF ok])
      fix x assume "fmlookup (p_byHash p) (e_hash x) = Some x"
      then have "x = e \<longleftrightarrow> e_sender x = s \<and> gt_Nonce g (e_tx x) = n"
        using iff [of x] Some Cons.prems(2) e by auto
      then show "(x = e \<or> e_sender x = s \<and> gt_Nonce g (e_tx x) \<in> set ns) =
          (e_sender x = s \<and> gt_Nonce g (e_tx x) \<in> set (n # ns))" by auto
    qed
    then show ?thesis using IH without_remove [OF ok e(1)] by simp
  qed
qed

lemma remove_each_result:
  "pool_ok g p \<Longrightarrow> remove_each g txs p = (p', k) \<Longrightarrow> pool_ok g p' \<and> p_cfg p' = p_cfg p \<and>
     p_accountNonce p' = p_accountNonce p \<and>
     fmlookup (p_byHash p') = without (\<lambda>e. e_hash e \<in> gt_Hash g ` set txs) p"
proof (induction txs arbitrary: p k)
  case Nil
  then show ?case by (simp add: without_none)
next
  case (Cons tx txs)
  have ok: "indices_ok g p" using Cons.prems(1) by (simp add: pool_ok_def)
  show ?case
  proof (cases "fmlookup (p_byHash p) (gt_Hash g tx)")
    case None
    have "without (\<lambda>e. e_hash e \<in> gt_Hash g ` set (tx # txs)) p = without (\<lambda>e. e_hash e \<in> gt_Hash g ` set txs) p"
      by (rule without_cong [OF ok]) (use None in auto)
    then show ?thesis using Cons.IH [OF Cons.prems(1)] Cons.prems(2) None by simp
  next
    case (Some e)
    then have h: "e_hash e = gt_Hash g tx" and e: "fmlookup (p_byHash p) (e_hash e) = Some e"
      using byHash_hash [OF ok] by auto
    obtain j where j: "remove_each g txs (removeLocked g e p) = (p', j)"
      using Cons.prems(2) Some by (auto simp: Let_def split: prod.splits)
    have "without (\<lambda>x. x = e \<or> e_hash x \<in> gt_Hash g ` set txs) p = without (\<lambda>e. e_hash e \<in> gt_Hash g ` set (tx # txs)) p"
      by (rule without_cong [OF ok]) (use Some h in auto)
    then show ?thesis
      using Cons.IH [OF pool_ok_remove [OF Cons.prems(1) e] j] without_remove [OF ok e] by simp
  qed
qed

section \<open>Chains hold consecutive nonces, and the executable transactions are distinct\<close>

lemma chain_nonces:
  assumes "pool_ok g p" "i < length (chain_from (sender_txs p s) n)"
  shows "fmlookup (sender_txs p s) (n + of_nat i) = Some (chain_from (sender_txs p s) n ! i)"
    and "gt_Nonce g (e_tx (chain_from (sender_txs p s) n ! i)) = n + of_nat i"
    and "length (chain_from (sender_txs p s) n) < 2 ^ 64"
proof -
  obtain k where k: "k \<le> fm_size (sender_txs p s)"
    "\<And>i. i < k \<Longrightarrow> fmlookup (sender_txs p s) (n + of_nat i) \<noteq> None"
    "chain_from (sender_txs p s) n = map (\<lambda>i. the (fmlookup (sender_txs p s) (n + of_nat i))) [0..<k]"
    using chain_from_run [OF sender_size [OF assms(1)], of s n] by metis
  then show "length (chain_from (sender_txs p s) n) < 2 ^ 64" using sender_size [OF assms(1), of s] by simp
  have "i < k" using assms(2) k(3) by simp
  then obtain e where e: "fmlookup (sender_txs p s) (n + of_nat i) = Some e" using k(2) by auto
  then show "fmlookup (sender_txs p s) (n + of_nat i) = Some (chain_from (sender_txs p s) n ! i)"
    using k(3) \<open>i < k\<close> by simp
  moreover have "gt_Nonce g (e_tx e) = n + of_nat i"
    using e sender_txs_iff [of g p] assms(1) by (simp add: pool_ok_def)
  ultimately show "gt_Nonce g (e_tx (chain_from (sender_txs p s) n ! i)) = n + of_nat i" using e by simp
qed

lemma of_nat_word_inj: "i < 2 ^ 64 \<Longrightarrow> j < 2 ^ 64 \<Longrightarrow> (n :: nonce) + of_nat i = n + of_nat j \<longleftrightarrow> i = j"
proof -
  assume "i < 2 ^ 64" "j < 2 ^ 64"
  then have "unat (of_nat i :: nonce) = i" "unat (of_nat j :: nonce) = j" by (simp_all add: unat_of_nat)
  then show ?thesis by (metis add_left_cancel)
qed

lemma distinct_chain:
  assumes "pool_ok g p"
  shows "distinct (chain_from (sender_txs p s) n)"
proof -
  have "i = j" if "i < length (chain_from (sender_txs p s) n)" "j < length (chain_from (sender_txs p s) n)"
    "chain_from (sender_txs p s) n ! i = chain_from (sender_txs p s) n ! j" for i j
  proof -
    have "n + of_nat i = n + of_nat j" using chain_nonces(2) [OF assms] that by metis
    moreover have "i < 2 ^ 64" "j < 2 ^ 64" using chain_nonces(3) [OF assms that(1)] that(1,2) by simp_all
    ultimately show ?thesis using of_nat_word_inj by blast
  qed
  then show ?thesis by (auto simp: distinct_conv_nth)
qed

lemma distinct_executable:
  assumes "pool_ok g p"
  shows "distinct (executableLocked p)" "distinct (map e_hash (executableLocked p))"
proof -
  have "distinct ss \<Longrightarrow> distinct (concat (map (\<lambda>s. chain_from (sender_txs p s) (account_nonce p s)) ss))" for ss
  proof (induction ss)
    case (Cons s ss)
    have "e_sender e = s \<and> e_sender e \<in> set ss"
      if "e \<in> set (chain_from (sender_txs p s) (account_nonce p s))"
        "e \<in> set (concat (map (\<lambda>s. chain_from (sender_txs p s) (account_nonce p s)) ss))" for e
      using that chain_member [OF assms] by fastforce
    then have "set (chain_from (sender_txs p s) (account_nonce p s)) \<inter>
        set (concat (map (\<lambda>s. chain_from (sender_txs p s) (account_nonce p s)) ss)) = {}"
      using Cons.prems by fastforce
    then show ?case using Cons distinct_chain [OF assms, of s] by simp
  qed simp
  then show d: "distinct (executableLocked p)" by (simp add: executableLocked_def)
  have "inj_on e_hash (set (executableLocked p))"
    using executable_member [OF assms] by (intro inj_onI) (metis option.inject)
  then show "distinct (map e_hash (executableLocked p))" using d by (simp add: distinct_map)
qed

lemma length_executable:
  assumes "pool_ok g p"
  shows "length (executableLocked p) \<le> fm_size (p_byHash p)"
proof -
  have "length (executableLocked p) = card (e_hash ` set (executableLocked p))"
    using distinct_executable(2) [OF assms] by (metis distinct_card length_map set_map)
  also have "\<dots> \<le> card (fset (fmdom (p_byHash p)))"
    using executable_member [OF assms] by (intro card_mono) (auto simp: fmlookup_dom_iff)
  finally show ?thesis by (simp add: fm_size_def fcard.rep_eq)
qed

lemma stats_ok_refresh: "pool_ok g p \<Longrightarrow> stats_ok (refreshStatsLocked p)"
  using length_executable [of g p] by (simp add: stats_ok_def refreshStatsLocked_def Let_def)

section \<open>All operations keep the invariant\<close>

datatype 't pool_op =
    OpAdd 't address nonce | OpRemove hash | OpRemoveAll "'t list" | OpRemoveBySender address
  | OpSetAccountNonce address nonce | OpSetBaseFee uint256

fun pool_step :: "'t geth \<Rightarrow> 't pool_op \<Rightarrow> 't pool \<Rightarrow> 't pool" where
  "pool_step g (OpAdd tx s n) p = fst (Add g tx s n p)"
| "pool_step g (OpRemove h) p = fst (Remove g h p)"
| "pool_step g (OpRemoveAll txs) p = fst (RemoveAll g txs p)"
| "pool_step g (OpRemoveBySender s) p = fst (RemoveBySender g s p)"
| "pool_step g (OpSetAccountNonce s n) p = SetAccountNonce g s n p"
| "pool_step g (OpSetBaseFee v) p = SetBaseFee v p"

lemma pool_ok_refresh [simp]: "pool_ok g (refreshStatsLocked p) = pool_ok g p"
  by (rule pool_ok_cong) simp_all

lemma RemoveBySender_result:
  assumes "pool_ok g p" "RemoveBySender g s p = (p', k)"
  shows "pool_ok g p' \<and> fmlookup (p_byHash p') = without (\<lambda>e. e_sender e = s) p \<and>
    (stats_ok p \<longrightarrow> stats_ok p')"
proof (cases "fmlookup (p_bySender p) s")
  case None
  then have "sender_txs p s = fmempty" by (simp add: sender_txs_def)
  then have "without (\<lambda>e. e_sender e = s) p = without (\<lambda>_. False) p"
    using assms(1) sender_txs_iff [of g p s] by (intro without_cong [of g]) (auto simp: pool_ok_def)
  then show ?thesis using assms None by (simp add: RemoveBySender_def without_none)
next
  case (Some m)
  then have m: "m = sender_txs p s" by (simp add: sender_txs_def)
  obtain q j where q: "remove_nonces g (sorted_keys m) m p = (q, j)" by fastforce
  note r = remove_nonces_result [OF assms(1) m q]
  have "without (\<lambda>e. e_sender e = s \<and> gt_Nonce g (e_tx e) \<in> set (sorted_keys m)) p = without (\<lambda>e. e_sender e = s) p"
    using assms(1) sender_txs_iff [of g p s] m
    by (intro without_cong [of g]) (auto simp: pool_ok_def fmlookup_dom'_iff)
  moreover have "p' = refreshStatsLocked q" using assms(2) Some q by (simp add: RemoveBySender_def)
  ultimately show ?thesis using r stats_ok_refresh [of g q] by simp
qed

lemma SetAccountNonce_result:
  assumes "pool_ok g p"
  shows "pool_ok g (SetAccountNonce g s n p) \<and> stats_ok (SetAccountNonce g s n p) \<and>
    p_accountNonce (SetAccountNonce g s n p) = fmupd s n (p_accountNonce p) \<and>
    fmlookup (p_byHash (SetAccountNonce g s n p)) =
      without (\<lambda>e. e_sender e = s \<and> gt_Nonce g (e_tx e) < n) p"
proof -
  let ?p = "p\<lparr>p_accountNonce := fmupd s n (p_accountNonce p)\<rparr>"
  have st: "sender_txs ?p = sender_txs p" "without P ?p = without P p" for P
    by (simp_all add: sender_txs_def without_def fun_eq_iff)
  have ok: "pool_ok g ?p" using assms by (subst pool_ok_cong [of _ p]) simp_all
  let ?q = "pruneBelowNonceLocked g s n ?p"
  have "pool_ok g ?q \<and> p_accountNonce ?q = fmupd s n (p_accountNonce p) \<and>
      fmlookup (p_byHash ?q) = without (\<lambda>e. e_sender e = s \<and> gt_Nonce g (e_tx e) < n) p"
  proof (cases "fmlookup (p_bySender p) s")
    case None
    then have "sender_txs p s = fmempty" by (simp add: sender_txs_def)
    then have "without (\<lambda>e. e_sender e = s \<and> gt_Nonce g (e_tx e) < n) p = without (\<lambda>_. False) p"
      using assms sender_txs_iff [of g p s] by (intro without_cong [of g]) (auto simp: pool_ok_def)
    then show ?thesis using ok None by (simp add: pruneBelowNonceLocked_def without_none)
  next
    case (Some m)
    then have m: "m = sender_txs ?p s" by (simp add: sender_txs_def)
    obtain q j where q: "remove_nonces g (filter (\<lambda>k. k < n) (sorted_keys m)) m ?p = (q, j)" by fastforce
    have "without (\<lambda>e. e_sender e = s \<and> gt_Nonce g (e_tx e) \<in> set (filter (\<lambda>k. k < n) (sorted_keys m))) p =
        without (\<lambda>e. e_sender e = s \<and> gt_Nonce g (e_tx e) < n) p"
      using assms sender_txs_iff [of g p s] m st
      by (intro without_cong [of g]) (auto simp: pool_ok_def fmlookup_dom'_iff)
    then show ?thesis using remove_nonces_result [OF ok m q] Some q st
      by (simp add: pruneBelowNonceLocked_def)
  qed
  then show ?thesis using stats_ok_refresh [of g ?q] by (simp add: SetAccountNonce_def Let_def)
qed

lemma Add_stats:
  assumes "pool_ok g p" "stats_ok p" "Add g tx s n p = (p', r)"
  shows "stats_ok p'"
proof (rule Add_cases [OF assms(1,3)])
  fix e assume "same_txs p' p" "s_Total (p_stats p') = s_Total (p_stats p)"
    "s_Pending (p_stats p') = s_Pending (p_stats p)" "s_Queued (p_stats p') = s_Queued (p_stats p)"
  then show ?thesis using assms(2) by (simp add: stats_ok_def same_txs_def)
next
  let ?q = "insert_entry g tx s (record_nonce s n p)"
  assume "p' = refreshStatsLocked ?q"
  then show ?thesis using stats_ok_refresh [of g ?q] Add_ok [OF assms(1,3)] by simp
next
  fix old
  let ?q = "insert_entry g tx s (removeLocked g old (record_nonce s n p))"
  assume "p' = refreshStatsLocked ?q"
  then show ?thesis using stats_ok_refresh [of g ?q] Add_ok [OF assms(1,3)] by simp
qed

lemma pool_step_ok:
  assumes "pool_ok g p \<and> stats_ok p"
  shows "pool_ok g (pool_step g op p) \<and> stats_ok (pool_step g op p)"
proof (cases op)
  case (OpAdd tx s n)
  then show ?thesis using Add_ok Add_stats assms by (metis pool_step.simps(1) prod.collapse)
next
  case (OpRemove h)
  show ?thesis
  proof (cases "fmlookup (p_byHash p) h")
    case (Some e)
    then have "fmlookup (p_byHash p) (e_hash e) = Some e"
      using byHash_hash [of g p] assms by (auto simp: pool_ok_def)
    from pool_ok_remove [OF _ this] have "pool_ok g (removeLocked g e p)" using assms by simp
    then show ?thesis using OpRemove Some stats_ok_refresh by (auto simp: Remove_def)
  qed (use OpRemove assms in \<open>simp add: Remove_def\<close>)
next
  case (OpRemoveAll txs)
  obtain q k where q: "remove_each g txs p = (q, k)" by fastforce
  then have "pool_ok g q" using remove_each_result assms by blast
  then show ?thesis using OpRemoveAll q stats_ok_refresh by (auto simp: RemoveAll_def)
next
  case (OpRemoveBySender s)
  then show ?thesis using RemoveBySender_result assms by (metis pool_step.simps(4) prod.collapse)
next
  case (OpSetAccountNonce s n)
  then show ?thesis using SetAccountNonce_result [of g p s n] assms by simp
next
  case (OpSetBaseFee v)
  have "pool_ok g (SetBaseFee v p)" using assms
    by (subst pool_ok_cong [of _ p]) (simp_all add: SetBaseFee_def)
  then show ?thesis using OpSetBaseFee assms by (simp add: stats_ok_def SetBaseFee_def)
qed

lemma pool_New_ok: "config_ok cfg \<Longrightarrow> pool_ok g (pool_New cfg) \<and> stats_ok (pool_New cfg)"
  by (auto simp: pool_New_def pool_ok_def indices_ok_def limits_ok_def config_ok_def stats_ok_def
      sender_txs_def DefaultMaxTxs_def DefaultMaxPerAccount_def Let_def)

interpretation pm: machine "pool_step g" "\<lambda>p. \<exists>cfg. config_ok cfg \<and> p = pool_New cfg"
    "\<lambda>p. pool_ok g p \<and> stats_ok p" for g
  by unfold_locales (use pool_New_ok pool_step_ok in blast)+

section \<open>Sorting\<close>

lemma mset_insort_by [simp]: "mset (insort_by cmp x xs) = add_mset x (mset xs)"
  by (induction xs) auto

lemma mset_SortFunc [simp]: "mset (SortFunc cmp xs) = mset xs"
  by (induction xs) (simp_all add: SortFunc_def)

lemma set_SortFunc [simp]: "set (SortFunc cmp xs) = set xs"
  by (metis mset_SortFunc set_mset_mset)

lemma sorted_insort_entry:
  "sorted_wrt (\<lambda>a b. \<not> heap_Less b a) xs \<Longrightarrow> sorted_wrt (\<lambda>a b. \<not> heap_Less b a) (insort_by entry_compare x xs)"
proof (induction xs)
  case (Cons y ys)
  have "set (insort_by entry_compare x ys) = insert x (set ys)"
    by (metis mset_insort_by set_mset_add_mset_insert set_mset_mset)
  then show ?case using Cons by (auto simp: entry_compare_le heap_Less_iff)
qed simp

lemma sorted_SortFunc: "sorted_wrt (\<lambda>a b. \<not> heap_Less b a) (sortEntriesDeterministic es)"
  unfolding sortEntriesDeterministic_def SortFunc_def
  by (induction es) (simp_all add: sorted_insort_entry)

lemma sorted_wrt_mset_unique:
  assumes "\<And>a b. R a b \<Longrightarrow> \<not> R b a"
  shows "mset xs = mset ys \<Longrightarrow> sorted_wrt R xs \<Longrightarrow> sorted_wrt R ys \<Longrightarrow> xs = ys"
proof (induction xs arbitrary: ys)
  case (Cons x xs)
  then obtain y ys' where ys: "ys = y # ys'" by (cases ys) auto
  have "x = y"
  proof (rule ccontr)
    assume "x \<noteq> y"
    then have "x \<in> set ys'" "y \<in> set xs"
      using Cons.prems(1) ys by (metis list.set_intros(1) set_ConsD set_mset_mset)+
    then show False using assms Cons.prems(2,3) ys by auto
  qed
  then show ?case using Cons ys by simp
qed simp

section \<open>Properties\<close>

text \<open>A sample instance: the transaction is a number, its fee cap its tip cap.\<close>

definition geth_sample :: "nat geth" where
  "geth_sample = \<lparr>gt_Hash = (\<lambda>t. word_of_nat t), gt_Gas = (\<lambda>t. 21000), gt_Nonce = (\<lambda>t. word_of_nat (t mod 4)),
     gt_Type = (\<lambda>t. 2), gt_GasFeeCap = (\<lambda>t. int t * 1000000000), gt_GasTipCap = (\<lambda>t. int t * 1000000000),
     gt_EffectiveGasTip = (\<lambda>t base. (None, Some (int t * 1000000000 - base)))\<rparr>"

lemma config_ok_Default: "config_ok DefaultConfig"
  by (simp add: config_ok_def DefaultConfig_def DefaultMaxTxs_def DefaultMaxPerAccount_def)

lemma Default_simps [simp]:
  "c_MaxTxs DefaultConfig = 8192" "c_MaxPerAccount DefaultConfig = 64"
  "c_BaseFee DefaultConfig = uint256_from_uint64 1000000000" "c_BlockGasLimit DefaultConfig = 30000000"
  by (simp_all add: DefaultConfig_def DefaultMaxTxs_def DefaultMaxPerAccount_def)

lemma pool_New_Default:
  "pool_New DefaultConfig = \<lparr>p_cfg = DefaultConfig, p_byHash = fmempty, p_bySender = fmempty,
     p_accountNonce = fmempty, p_stats = \<lparr>s_Pending = 0, s_Queued = 0, s_Total = 0, s_Rejected = fmempty\<rparr>\<rparr>"
  by (simp add: pool_New_def Let_def)

lemma toU256_value: "v \<in> {0..<2 ^ 256} \<Longrightarrow> uint (toU256 v) = v"
  using to_big_word_of_int [of v] uint256_from_big_Inr_iff [of v "word_of_int v"]
  by (simp add: toU256_def to_big_uint)

definition sample_pool :: "nat pool" where
  "sample_pool = refreshStatsLocked (insert_entry geth_sample 4 7 (record_nonce 7 0 (pool_New DefaultConfig)))"

lemma sample_add: "Add geth_sample 4 7 0 (pool_New DefaultConfig) = (sample_pool, None)"
proof -
  have "fee_check geth_sample 4 (pool_New DefaultConfig)"
    by (simp add: fee_check_def geth_sample_def pool_New_Default DynamicFeeTxType_def uint256_cmp_word
        word_less_def toU256_value)
  then show ?thesis
    by (simp add: Add_def add_capacity_def sample_pool_def record_nonce_def account_nonce_def pool_New_Default
        geth_sample_def Let_def)
qed

lemma sample_pool_byHash:
  "p_byHash sample_pool = fmupd 4 (new_entry geth_sample 4 7 (record_nonce 7 0 (pool_New DefaultConfig))) fmempty"
  by (simp add: sample_pool_def pool_New_Default geth_sample_def)

lemma sample_pool_ok: "pool_ok geth_sample sample_pool"
  using Add_ok [OF _ sample_add] pool_New_ok [OF config_ok_Default] by blast

text \<open>
  C12: the two indices of the pool always agree. In every state reached from an empty pool by public
  operations, an entry is filed under its sender and nonce iff it is filed under its hash, no sender
  has an empty map, the pool and each sender stay within their limits, no transaction asks
  for more gas than a block has, and the statistics add up to the number of entries.
\<close>

theorem pool_reachable_ok:
  assumes "config_ok cfg"
  shows "indices_ok g (fold (pool_step g) ops (pool_New cfg))
    \<and> limits_ok g (fold (pool_step g) ops (pool_New cfg))
    \<and> stats_ok (fold (pool_step g) ops (pool_New cfg))"
proof -
  have "\<exists>cfg'. config_ok cfg' \<and> (pool_New cfg :: 'a pool) = pool_New cfg'" using assms by blast
  from pm.reach_inv [of "pool_New cfg" g ops, OF this] show ?thesis by (simp add: pool_ok_def)
qed

theorem pool_reachable_ok_witness:
  "indices_ok geth_sample (fold (pool_step geth_sample) [OpAdd 4 7 0, OpAdd 5 7 0, OpSetAccountNonce 7 1]
     (pool_New DefaultConfig))"
  by (rule pool_reachable_ok [OF config_ok_Default, THEN conjunct1])

text \<open>
  C25: what \<open>Add\<close> does. A refused transaction changes neither index. An accepted one is then in the
  pool under its hash, and every other entry stays, except at most one: the one of the same sender
  and nonce, when the new transaction pays enough to replace it, or, in a full pool only, an
  evicted one.
\<close>

theorem Add_result:
  assumes "pool_ok g p" "Add g tx s n p = (p', r)"
  shows "case r of
      Some e \<Rightarrow> p_byHash p' = p_byHash p \<and> p_bySender p' = p_bySender p
    | None \<Rightarrow> pool_Get (gt_Hash g tx) p = None \<and> pool_Get (gt_Hash g tx) p' = Some tx \<and>
        (\<exists>gone. (\<forall>h. h \<noteq> gt_Hash g tx \<longrightarrow> fmlookup (p_byHash p') h = without gone p h) \<and>
           ((\<forall>e. \<not> gone e) \<or>
            (\<exists>old. gone = (\<lambda>e. e = old) \<and> fmlookup (p_byHash p) (e_hash old) = Some old \<and>
              (e_sender old = s \<and> gt_Nonce g (e_tx old) = gt_Nonce g tx \<and> canReplace g (e_tx old) tx \<or>
               int (pool_Count p) \<ge> c_MaxTxs (p_cfg p)))))"
proof (rule Add_cases [OF assms])
  fix e assume "r = Some e" "same_txs p' p"
  then show ?thesis by (simp add: same_txs_def)
next
  assume a: "r = None" "p' = refreshStatsLocked (insert_entry g tx s (record_nonce s n p))"
    "room_for g tx s (record_nonce s n p)"
  then have "fmlookup (p_byHash p) (gt_Hash g tx) = None" by (simp add: room_for_def)
  moreover have "\<forall>h. h \<noteq> gt_Hash g tx \<longrightarrow> fmlookup (p_byHash p') h = without (\<lambda>_. False) p h"
    using a(2) by (simp add: without_none)
  ultimately show ?thesis using a by (auto simp: pool_Get_def intro!: exI [of _ "\<lambda>_. False"])
next
  fix old
  assume a: "r = None" "p' = refreshStatsLocked (insert_entry g tx s (removeLocked g old (record_nonce s n p)))"
    "fmlookup (p_byHash p) (e_hash old) = Some old" "room_for g tx s (removeLocked g old (record_nonce s n p))"
    and new: "fmlookup (p_byHash p) (gt_Hash g tx) = None"
    and why: "(fmlookup (sender_txs p s) (gt_Nonce g tx) = Some old \<and> canReplace g (e_tx old) tx) \<or>
       (fmlookup (sender_txs p s) (gt_Nonce g tx) = None \<and> int (fm_size (p_byHash p)) \<ge> c_MaxTxs (p_cfg p))"
  have ok: "indices_ok g p" using assms(1) by (simp add: pool_ok_def)
  have "fmlookup (p_byHash p') h = without (\<lambda>e. e = old) p h" if "h \<noteq> gt_Hash g tx" for h
  proof -
    have "without (\<lambda>_. False) (removeLocked g old p) h = without (\<lambda>e. e = old) p h"
      using without_remove [OF ok a(3), of "\<lambda>_. False"] by simp
    then show ?thesis using a(2) that by (simp add: without_none)
  qed
  moreover have "e_sender old = s \<and> gt_Nonce g (e_tx old) = gt_Nonce g tx \<and> canReplace g (e_tx old) tx \<or>
      int (pool_Count p) \<ge> c_MaxTxs (p_cfg p)"
    using why sender_txs_iff [OF ok, of s _ old] by (auto simp: pool_Count_def)
  ultimately show ?thesis using a(1-3) new by (auto simp: pool_Get_def intro!: exI [of _ "\<lambda>e. e = old"])
qed

theorem Add_result_witness:
  "pool_Get 4 (fst (Add geth_sample 4 7 0 (pool_New DefaultConfig))) = Some 4
   \<and> pool_Get 4 (pool_New DefaultConfig :: nat pool) = None"
proof -
  have "pool_ok geth_sample (pool_New DefaultConfig)" using pool_New_ok [OF config_ok_Default] by blast
  from Add_result [OF this sample_add] show ?thesis by (simp add: sample_add) (simp add: geth_sample_def)
qed

text \<open>
  when a transaction replaces another. Both fee fields must pass: a field passes when the
  old value is zero, or when the new one is at least eleven tenths of the old one, rounded down, or,
  where that product does not fit in 256 bits, is larger. So an old fee of 1 to 9 is replaced at
  the same price, and any larger one only at a higher price.
\<close>

theorem canReplace_iff:
  assumes "\<forall>t\<in>{old, new}. gt_GasFeeCap g t \<in> {0..<2 ^ 256} \<and> gt_GasTipCap g t \<in> {0..<2 ^ 256}"
  shows "(canReplace g old new \<longleftrightarrow>
      (\<forall>f\<in>{gt_GasFeeCap g, gt_GasTipCap g}. f old = 0 \<or>
         (if f old * 11000 < 2 ^ 256 then 11 * f old div 10 \<le> f new else f old < f new)))
    \<and> (canReplace g old new \<and> 10 \<le> gt_GasFeeCap g old \<longrightarrow> gt_GasFeeCap g old < gt_GasFeeCap g new)"
proof -
  have iff: "canReplace g old new \<longleftrightarrow>
      (\<forall>f\<in>{gt_GasFeeCap g, gt_GasTipCap g}. f old = 0 \<or>
         (if f old * 11000 < 2 ^ 256 then 11 * f old div 10 \<le> f new else f old < f new))"
    using assms by (simp add: toU256_value canReplace_def priceBumpedU_def priceBumped_iff)
  have "gt_GasFeeCap g old < gt_GasFeeCap g new" if "canReplace g old new" "10 \<le> gt_GasFeeCap g old"
    using that unfolding iff by (auto split: if_splits)
  with iff show ?thesis by blast
qed

theorem canReplace_iff_witness:
  "canReplace geth_sample 4 5 \<and> \<not> canReplace geth_sample 20 21"
  using canReplace_iff [of 4 5 geth_sample] canReplace_iff [of 20 21 geth_sample]
  by (simp add: geth_sample_def)

text \<open>
  confirming an account's nonce takes out exactly its stale transactions. After
  \<open>SetAccountNonce\<close> the pool holds the entries it held, less those of that sender below the nonce;
  the other accounts keep their nonces.
\<close>

theorem SetAccountNonce_prunes:
  assumes "pool_ok g p"
  shows "pool_ok g (SetAccountNonce g s n p) \<and>
    p_accountNonce (SetAccountNonce g s n p) = fmupd s n (p_accountNonce p) \<and>
    (\<forall>h. fmlookup (p_byHash (SetAccountNonce g s n p)) h =
      (case fmlookup (p_byHash p) h of
         Some e \<Rightarrow> if e_sender e = s \<and> gt_Nonce g (e_tx e) < n then None else Some e | None \<Rightarrow> None))"
  using SetAccountNonce_result [OF assms, of s n] by (simp add: without_def)

theorem SetAccountNonce_prunes_witness:
  "pool_Has 4 sample_pool \<and> \<not> pool_Has 4 (SetAccountNonce geth_sample 7 1 sample_pool)"
  using SetAccountNonce_prunes [OF sample_pool_ok, of 7 1]
  by (simp add: pool_Has_def sample_pool_byHash) (simp add: geth_sample_def)

text \<open>
  the pending hashes are reproducible. \<open>PendingHashes\<close> lists each executable transaction once,
  by falling priority and, among equals, rising hash; so any two lists with these properties are
  the same, whatever order the maps were walked in.
\<close>

theorem PendingHashes_canonical:
  assumes "pool_ok g p"
  shows "\<exists>es. PendingHashes p = map e_hash es \<and> mset es = mset (executableLocked p)
    \<and> sorted_wrt heap_Less es
    \<and> (\<forall>fs. mset fs = mset (executableLocked p) \<longrightarrow> sorted_wrt heap_Less fs \<longrightarrow> fs = es)"
proof -
  let ?es = "sortEntriesDeterministic (executableLocked p)"
  have m: "mset ?es = mset (executableLocked p)" by (simp add: sortEntriesDeterministic_def)
  have d: "distinct (map e_hash ?es)"
    using distinct_executable(2) [OF assms] m by (metis mset_eq_imp_distinct_iff mset_map)
  have "heap_Less (?es ! i) (?es ! j)" if "i < j" "j < length ?es" for i j
  proof -
    have "\<not> heap_Less (?es ! j) (?es ! i)"
      using sorted_SortFunc [of "executableLocked p"] that by (simp add: sorted_wrt_iff_nth_less)
    moreover have "e_hash (?es ! i) \<noteq> e_hash (?es ! j)"
      using d that by (auto simp: distinct_conv_nth)
    ultimately show ?thesis using heap_Less_total by blast
  qed
  then have sorted: "sorted_wrt heap_Less ?es" by (simp add: sorted_wrt_iff_nth_less)
  have unique: "\<forall>fs. mset fs = mset (executableLocked p) \<longrightarrow> sorted_wrt heap_Less fs \<longrightarrow> fs = ?es"
  proof (intro allI impI)
    fix fs assume fs: "mset fs = mset (executableLocked p)" "sorted_wrt heap_Less fs"
    show "fs = ?es"
      by (rule sorted_wrt_mset_unique [OF heap_Less_antisym _ fs(2) sorted]) (simp_all only: fs(1) m)
  qed
  have "PendingHashes p = map e_hash ?es" by (rule PendingHashes_def)
  with m sorted unique show ?thesis by blast
qed

theorem PendingHashes_canonical_witness:
  "\<exists>es. PendingHashes sample_pool = map e_hash es \<and> mset es = mset (executableLocked sample_pool)
    \<and> sorted_wrt heap_Less es"
  using PendingHashes_canonical [OF sample_pool_ok] by blast

end
