(* ===== verification/Engine.thy ===== *)
theory Engine
  imports StateDB PoolInv Block
begin

text \<open>
  The execution engine of \<open>vm/engine.go\<close> and the read-only calls of \<open>vm/call.go\<close>: what they prepare
  for go-ethereum's EVM and what they make of the answer. The EVM itself, \<open>ApplyMessage\<close> and
  \<open>StaticCall\<close>, is a pair of operations of the record \<open>evm\<close>, as are the other functions of
  go-ethereum they call; the state adapter is the one of \<open>vm/statedb.go\<close>.
\<close>

section \<open>What go-ethereum provides\<close>

text \<open>A log of the EVM has the fields of a log of the chain; the pointer may be nil.\<close>

type_synonym evm_log = "log option"

text \<open>Further accessors of a transaction; big integers are \<open>int\<close>, signature values may be nil.\<close>

record 't geth_body =
  gb_ChainId :: "'t \<Rightarrow> int"
  gb_GasPrice :: "'t \<Rightarrow> int"
  gb_Value :: "'t \<Rightarrow> int"
  gb_Cost :: "'t \<Rightarrow> int"
  gb_To :: "'t \<Rightarrow> address option"
  gb_Data :: "'t \<Rightarrow> bytes"
  gb_V :: "'t \<Rightarrow> int option"
  gb_R :: "'t \<Rightarrow> int option"
  gb_S :: "'t \<Rightarrow> int option"

record block_context =
  bc_GetHash :: "uint64 \<Rightarrow> hash"
  bc_Coinbase :: address
  bc_BlockNumber :: int
  bc_Time :: uint64
  bc_BaseFee :: int
  bc_GasLimit :: uint64
  bc_Random :: hash

record message_result =
  mr_UsedGas :: uint64
  mr_Err :: "string option"
  mr_Return :: bytes

text \<open>
  \<open>ApplyMessage\<close> runs the transaction on the adapter and leaves the adapter changed, whether it
  gives a result or an error. Of the message only the recipient is read here. \<open>StaticCall\<close> includes
  the budget made of the gas limit and gives what was returned, the gas used and the error.
  \<open>Sender\<close> takes the chain id of the signer, \<open>LatestSignerForChainID\<close>.
\<close>

record 't evm =
  ev_UnmarshalBinary :: "bytes \<Rightarrow> 't option"
  ev_Sender :: "int \<Rightarrow> 't \<Rightarrow> address option"
  ev_Rules :: "int \<Rightarrow> uint64 \<Rightarrow> rules"
  ev_PrecompiledCancun :: "address list"
  ev_TransactionToMessage :: "'t \<Rightarrow> int \<Rightarrow> address option option"
  ev_ApplyMessage :: "block_context \<Rightarrow> address \<Rightarrow> uint256 \<Rightarrow> 't \<Rightarrow> evm_log adapter \<Rightarrow>
    evm_log adapter \<times> message_result res"
  ev_StaticCall :: "block_context \<Rightarrow> address \<Rightarrow> uint256 \<Rightarrow> address \<Rightarrow> bytes \<Rightarrow> gas \<Rightarrow> evm_log adapter \<Rightarrow>
    evm_log adapter \<times> (bytes \<times> gas \<times> string option) res"
  ev_CreateAddress :: "address \<Rightarrow> uint64 \<Rightarrow> address"
  ev_FromBig :: "int \<Rightarrow> uint256 \<times> bool"

text \<open>The documented conversion: the second component tells that the value does not fit.\<close>

definition FromBig_ok :: "(int \<Rightarrow> uint256 \<times> bool) \<Rightarrow> bool" where
  "FromBig_ok F \<longleftrightarrow> (\<forall>b. 0 \<le> b \<longrightarrow> b < 2 ^ 256 \<longrightarrow> F b = (word_of_int b, False)) \<and>
     (\<forall>b. 2 ^ 256 \<le> b \<longrightarrow> snd (F b))"

section \<open>The engine\<close>

record execution_context =
  x_Height :: height
  x_Timestamp :: uint64
  x_Proposer :: address
  x_BaseFee :: uint256
  x_GasLimit :: gas
  x_ChainID :: uint64
  x_PrevHash :: hash

record execution_result =
  er_Success :: bool
  er_GasUsed :: gas
  er_EffectiveGasPrice :: uint256
  er_Logs :: "evm_log list"
  er_ReturnData :: bytes
  er_ContractAddress :: "address option"
  er_VMError :: string

definition ErrDecodeTx :: err where "ErrDecodeTx = ErrOther ''decode tx''"
definition ErrBadSender :: err where "ErrBadSender = ErrOther ''bad sender''"
definition ErrInsufficientFunds :: err where "ErrInsufficientFunds = ErrOther ''insufficient funds''"
definition ErrNonceMismatch :: err where "ErrNonceMismatch = ErrOther ''nonce mismatch''"

definition engine_DecodeTx :: "'t evm \<Rightarrow> bytes \<Rightarrow> 't res" where
  "engine_DecodeTx E data =
     (if length data = 0 then Inl ErrDecodeTx
      else if length data > MaxTxSize then Inl ErrOversized
      else case ev_UnmarshalBinary E data of None \<Rightarrow> Inl ErrDecodeTx | Some tx \<Rightarrow> Inr tx)"

definition RecoverSender :: "'t evm \<Rightarrow> uint64 \<Rightarrow> 't \<Rightarrow> address res" where
  "RecoverSender E chainID tx = (case ev_Sender E (uint chainID) tx of None \<Rightarrow> Inl ErrBadSender | Some a \<Rightarrow> Inr a)"

definition ValidateAgainstState :: "'t evm \<Rightarrow> 't geth \<Rightarrow> 't geth_body \<Rightarrow> session \<Rightarrow> 't \<Rightarrow> address \<Rightarrow> unit res" where
  "ValidateAgainstState E g gb sess tx sender =
     (case GetAccount sess sender of
        Inl _ \<Rightarrow> Inl ErrNonceMismatch
      | Inr acc \<Rightarrow>
          if gt_Nonce g tx \<noteq> acc_Nonce acc then Inl ErrNonceMismatch
          else
            let (costU256, overflow) = ev_FromBig E (gb_Cost gb tx)
            in if \<not> overflow \<and> acc_Balance acc < costU256 then Inl ErrInsufficientFunds else Inr ())"

definition txEffectiveGasPrice :: "'t geth \<Rightarrow> 't geth_body \<Rightarrow> 't \<Rightarrow> int \<Rightarrow> int" where
  "txEffectiveGasPrice g gb tx baseFee =
     (if gt_Type g tx = 0 then gb_GasPrice gb tx
      else
        let headroom = gt_GasFeeCap g tx - baseFee;
            headroom = (if headroom < 0 then 0 else headroom);
            tip = (if gt_GasTipCap g tx < headroom then gt_GasTipCap g tx else headroom)
        in baseFee + tip)"

definition EffectiveGasPrice :: "'t geth \<Rightarrow> 't geth_body \<Rightarrow> 't \<Rightarrow> int \<Rightarrow> int" where
  "EffectiveGasPrice g gb tx baseFee = txEffectiveGasPrice g gb tx baseFee"

definition mustUint256 :: "int \<Rightarrow> uint256 res" where
  "mustUint256 v = (case uint256_from_big (Some v) of Inl _ \<Rightarrow> Inl GoPanic | Inr x \<Rightarrow> Inr x)"

definition randomOf :: "keccak \<Rightarrow> uint64 \<Rightarrow> hash" where
  "randomOf kec h = Keccak256 kec [Uint64BE h]"

definition block_context_of :: "keccak \<Rightarrow> execution_context \<Rightarrow> block_context" where
  "block_context_of kec ctx = \<lparr>
     bc_GetHash = (\<lambda>n. if n < x_Height ctx then x_PrevHash ctx else 0),
     bc_Coinbase = x_Proposer ctx,
     bc_BlockNumber = sint (x_Height ctx),
     bc_Time = x_Timestamp ctx,
     bc_BaseFee = uint (x_BaseFee ctx),
     bc_GasLimit = x_GasLimit ctx,
     bc_Random = randomOf kec (x_Height ctx)\<rparr>"

text \<open>
  The state after \<open>RunTx\<close> and its result. A gas price above 256 bits panics in \<open>MustFromBig\<close>, before
  the EVM runs.
\<close>

definition RunTx :: "keccak \<Rightarrow> 't evm \<Rightarrow> 't geth \<Rightarrow> 't geth_body \<Rightarrow> manager \<times> session \<Rightarrow> 't \<Rightarrow> address \<Rightarrow>
    execution_context \<Rightarrow> (manager \<times> session) \<times> execution_result res" where
  "RunTx kec E g gb ms rawTx sender ctx =
     (let blockCtx = block_context_of kec ctx;
          gasPrice = txEffectiveGasPrice g gb rawTx (uint (x_BaseFee ctx));
          rules = ev_Rules E (bc_BlockNumber blockCtx) (x_Timestamp ctx);
          adapter = db_Prepare rules sender (bc_Coinbase blockCtx) (gb_To gb rawTx) (ev_PrecompiledCancun E) []
            (NewStateDBAdapter ms);
          (price, overflow) = ev_FromBig E gasPrice
      in if overflow then (ms, Inl GoPanic)
         else case ev_TransactionToMessage E rawTx (uint (x_BaseFee ctx)) of
             None \<Rightarrow> (ad_ms adapter, Inl (ErrOther ''message''))
           | Some to \<Rightarrow>
               (case ev_ApplyMessage E blockCtx sender price rawTx adapter of
                  (adapter, Inl e) \<Rightarrow> (ad_ms adapter, Inl (if e = GoPanic then GoPanic else ErrOther ''apply''))
                | (adapter, Inr r) \<Rightarrow>
                    (ad_ms adapter, and_then (mustUint256 gasPrice) (\<lambda>price. Inr \<lparr>
                       er_Success = (mr_Err r = None),
                       er_GasUsed = mr_UsedGas r,
                       er_EffectiveGasPrice = price,
                       er_Logs = ad_logs adapter,
                       er_ReturnData = mr_Return r,
                       er_ContractAddress =
                         (if to = None then Some (ev_CreateAddress E sender (gt_Nonce g rawTx)) else None),
                       er_VMError = (case mr_Err r of None \<Rightarrow> [] | Some e \<Rightarrow> e)\<rparr>))))"

section \<open>Read-only calls\<close>

definition call_block_context :: "keccak \<Rightarrow> execution_context \<Rightarrow> block_context" where
  "call_block_context kec ctx = \<lparr>
     bc_GetHash = (\<lambda>_. x_PrevHash ctx),
     bc_Coinbase = x_Proposer ctx,
     bc_BlockNumber = uint (x_Height ctx),
     bc_Time = x_Timestamp ctx,
     bc_BaseFee = 0,
     bc_GasLimit = x_GasLimit ctx,
     bc_Random = randomOf kec (x_Height ctx)\<rparr>"

text \<open>A failed call is a result, with no return data; only a panic is an error.\<close>

definition RunCall :: "keccak \<Rightarrow> 't evm \<Rightarrow> manager \<times> session \<Rightarrow> address \<Rightarrow> address \<Rightarrow> bytes \<Rightarrow> gas \<Rightarrow>
    execution_context \<Rightarrow> (manager \<times> session) \<times> execution_result res" where
  "RunCall kec E ms caller to dat gasLimit ctx =
     (let blockCtx = call_block_context kec ctx;
          rules = ev_Rules E (uint (x_Height ctx)) (x_Timestamp ctx);
          adapter = db_Prepare rules caller (bc_Coinbase blockCtx) (Some to) (ev_PrecompiledCancun E) []
            (NewStateDBAdapter ms);
          failed = \<lparr>er_Success = False, er_GasUsed = 0, er_EffectiveGasPrice = 0, er_Logs = [],
            er_ReturnData = [], er_ContractAddress = None, er_VMError = []\<rparr>
      in case ev_StaticCall E blockCtx caller 0 to dat gasLimit adapter of
           (adapter, Inl e) \<Rightarrow> (ad_ms adapter, Inl e)
         | (adapter, Inr (ret, gasUsed, Some e)) \<Rightarrow>
             (ad_ms adapter, Inr (failed\<lparr>er_GasUsed := gasUsed, er_VMError := e\<rparr>))
         | (adapter, Inr (ret, gasUsed, None)) \<Rightarrow>
             (ad_ms adapter, Inr (failed\<lparr>er_Success := True, er_GasUsed := gasUsed, er_ReturnData := ret\<rparr>)))"

definition EstGas :: "keccak \<Rightarrow> 't evm \<Rightarrow> manager \<times> session \<Rightarrow> address \<Rightarrow> address \<Rightarrow> bytes \<Rightarrow> gas \<Rightarrow>
    execution_context \<Rightarrow> (manager \<times> session) \<times> (gas \<times> string) res" where
  "EstGas kec E ms from to dat gasCap ctx =
     (case RunCall kec E ms from to dat gasCap ctx of
        (ms, Inl e) \<Rightarrow> (ms, Inl e)
      | (ms, Inr r) \<Rightarrow>
          (ms, Inr (if \<not> er_Success r then (0, er_VMError r) else (er_GasUsed r, []))))"

section \<open>Properties\<close>

text \<open>
  the effective gas price follows EIP-1559. A dynamic-fee transaction whose tip does not exceed
  its fee cap and whose fee cap covers the base fee pays the smaller of the fee cap and base fee
  plus tip; below the base fee it pays the base fee, more than its fee cap.
\<close>

theorem gas_price_1559:
  assumes "gt_Type g tx \<noteq> 0" "0 \<le> gt_GasTipCap g tx"
  shows "txEffectiveGasPrice g gb tx baseFee =
    (if baseFee \<le> gt_GasFeeCap g tx then min (gt_GasFeeCap g tx) (baseFee + gt_GasTipCap g tx) else baseFee)"
  using assms by (simp add: txEffectiveGasPrice_def Let_def min_def)

text \<open>
  when a transaction is admitted against the state. \<open>ValidateAgainstState\<close> accepts it exactly
  when the sender's account is in the session with the transaction's nonce, and its balance covers
  the cost or the cost does not fit 256 bits at all: then the balance is not looked at.
\<close>

theorem ValidateAgainstState_accepts:
  assumes "FromBig_ok (ev_FromBig E)" "0 \<le> gb_Cost gb tx"
  shows "ValidateAgainstState E g gb sess tx sender = Inr () \<longleftrightarrow>
    (\<exists>acc. GetAccount sess sender = Inr acc \<and> gt_Nonce g tx = acc_Nonce acc \<and>
      (gb_Cost gb tx \<le> uint (acc_Balance acc) \<or> 2 ^ 256 \<le> gb_Cost gb tx))"
proof (cases "gb_Cost gb tx < 2 ^ 256")
  case True
  then have F: "ev_FromBig E (gb_Cost gb tx) = (word_of_int (gb_Cost gb tx), False)"
    using assms by (simp add: FromBig_ok_def)
  have "uint (word_of_int (gb_Cost gb tx) :: uint256) = gb_Cost gb tx"
    using True assms(2) by (simp add: uint_word_of_int)
  then show ?thesis using True
    by (auto simp: ValidateAgainstState_def F word_less_def split: sum.split)
next
  case False
  then have "snd (ev_FromBig E (gb_Cost gb tx))" using assms(1) by (simp add: FromBig_ok_def)
  then show ?thesis using False by (auto simp: ValidateAgainstState_def Let_def split: sum.split prod.split)
qed

text \<open>A sample of the parameters: an EVM that succeeds at once, and transactions that are numbers.\<close>

definition big_sample :: "int \<Rightarrow> uint256 \<times> bool" where
  "big_sample b = (word_of_int b, b < 0 \<or> 2 ^ 256 \<le> b)"

lemma FromBig_ok_sample: "FromBig_ok big_sample"
  by (simp add: FromBig_ok_def big_sample_def)

definition engine_sample :: "nat evm" where
  "engine_sample = \<lparr>ev_UnmarshalBinary = (\<lambda>b. Some (length b)), ev_Sender = (\<lambda>_ t. Some (word_of_nat t)),
     ev_Rules = (\<lambda>_ _. \<lparr>IsBerlin = True, IsShanghai = True\<rparr>), ev_PrecompiledCancun = [1],
     ev_TransactionToMessage = (\<lambda>t _. Some (Some 9)),
     ev_ApplyMessage = (\<lambda>_ _ _ t a. (a, Inr \<lparr>mr_UsedGas = 21000, mr_Err = None, mr_Return = []\<rparr>)),
     ev_StaticCall = (\<lambda>_ _ _ _ d g a. (a, Inr (d, g, None))),
     ev_CreateAddress = (\<lambda>a n. a + ucast n), ev_FromBig = big_sample\<rparr>"

definition body_sample :: "nat geth_body" where
  "body_sample = \<lparr>gb_ChainId = (\<lambda>_. 7), gb_GasPrice = (\<lambda>_. 10), gb_Value = (\<lambda>_. 1), gb_Cost = (\<lambda>_. 100),
     gb_To = (\<lambda>_. Some 9), gb_Data = (\<lambda>_. []), gb_V = (\<lambda>_. Some 1), gb_R = (\<lambda>_. Some 2), gb_S = (\<lambda>_. Some 3)\<rparr>"

text \<open>A balance of 50 does not cover a cost of 100, but it does for a cost of \<open>2 ^ 256\<close>.\<close>

definition poor_session :: session where
  "poor_session = \<lparr>se_parent = 0, se_accounts = fmupd 7 (empty_account\<lparr>acc_Balance := 50\<rparr>) fmempty,
     se_storage = fmempty, se_journal = [], se_done = False\<rparr>"

theorem gas_price_1559_witness:
  "txEffectiveGasPrice (geth_sample\<lparr>gt_Type := \<lambda>_. 2, gt_GasFeeCap := \<lambda>_. 30, gt_GasTipCap := \<lambda>_. 5\<rparr>) body_sample 4 10 = 15"
  by (subst gas_price_1559) simp_all

theorem ValidateAgainstState_accepts_witness:
  "ValidateAgainstState engine_sample (geth_sample\<lparr>gt_Nonce := \<lambda>_. 0\<rparr>) body_sample poor_session 4 7 \<noteq> Inr ()
   \<and> ValidateAgainstState engine_sample (geth_sample\<lparr>gt_Nonce := \<lambda>_. 0\<rparr>) (body_sample\<lparr>gb_Cost := \<lambda>_. 2 ^ 256\<rparr>)
       poor_session 4 7 = Inr ()"
proof -
  have F: "FromBig_ok (ev_FromBig engine_sample)" using FromBig_ok_sample by (simp add: engine_sample_def)
  have G: "GetAccount poor_session 7 = Inr (empty_account\<lparr>acc_Balance := 50\<rparr>)"
    by (simp add: GetAccount_def poor_session_def)
  show ?thesis
    using ValidateAgainstState_accepts [OF F, of body_sample 4 "geth_sample\<lparr>gt_Nonce := \<lambda>_. 0\<rparr>" poor_session 7]
      ValidateAgainstState_accepts [OF F, of "body_sample\<lparr>gb_Cost := \<lambda>_. 2 ^ 256\<rparr>" 4
        "geth_sample\<lparr>gt_Nonce := \<lambda>_. 0\<rparr>" poor_session 7]
    by (simp add: G body_sample_def empty_account_def)
qed

end
