(* ===== verification/Selection.thy ===== *)
theory Selection
  imports PoolInv "HOL-Library.Sublist"
begin

text \<open>
  Selecting the transactions of a block: what \<open>Pool.Select\<close> guarantees. The loop is described by
  the part of each sender's chain that is still open, which is empty once the sender was dropped.
\<close>

section \<open>The selection loop\<close>

definition sel :: "'t entry \<Rightarrow> 't SelectedTx" where
  "sel e = \<lparr>sel_Tx = e_tx e, sel_Sender = e_sender e\<rparr>"

definition of_sender :: "address \<Rightarrow> 't entry list \<Rightarrow> 't entry list" where
  "of_sender s es = filter (\<lambda>e. e_sender e = s) es"

definition gas_sum :: "'t geth \<Rightarrow> 't entry list \<Rightarrow> nat" where
  "gas_sum g es = sum_list (map (\<lambda>e. unat (gt_Gas g (e_tx e))) es)"

lemma of_sender_simps [simp]:
  "of_sender s [] = []" "of_sender s (e # es) = (if e_sender e = s then e # of_sender s es else of_sender s es)"
  by (simp_all add: of_sender_def)

lemma gas_sum_simps [simp]:
  "gas_sum g [] = 0" "gas_sum g (e # es) = unat (gt_Gas g (e_tx e)) + gas_sum g es"
  by (simp_all add: gas_sum_def)

text \<open>The chain of a sender from its entry in the heap on.\<close>

definition open_chain :: "'t entry list \<Rightarrow> (address, 't senderChain) fmap \<Rightarrow> address \<Rightarrow> 't entry list" where
  "open_chain h idx s =
     (if s \<in> e_sender ` set h
      then (case fmlookup idx s of None \<Rightarrow> [] | Some st \<Rightarrow> drop (sc_next st) (sc_txs st)) else [])"

text \<open>Every entry of the heap is the next one of its sender, and hashes tell entries apart.\<close>

definition sel_inv :: "'t entry list \<Rightarrow> (address, 't senderChain) fmap \<Rightarrow> bool" where
  "sel_inv h idx \<longleftrightarrow> distinct (map e_sender h) \<and>
     (\<forall>e\<in>set h. \<exists>st. fmlookup idx (e_sender e) = Some st \<and> sc_next st < length (sc_txs st) \<and>
        sc_txs st ! sc_next st = e) \<and>
     (\<forall>s st. fmlookup idx s = Some st \<longrightarrow> (\<forall>x\<in>set (sc_txs st). e_sender x = s)) \<and>
     (\<forall>s st s' st' x y. fmlookup idx s = Some st \<longrightarrow> fmlookup idx s' = Some st' \<longrightarrow>
        x \<in> set (sc_txs st) \<longrightarrow> y \<in> set (sc_txs st') \<longrightarrow> e_hash x = e_hash y \<longrightarrow> x = y)"

text \<open>
  The four guarantees: each sender's picks are a prefix of its open chain; the first one not
  picked did not fit any more; the gas limit is kept; and an entry picked while a later pick was
  already open comes before it in the order of the heap.
\<close>

definition picks :: "'t geth \<Rightarrow> gas \<Rightarrow> (address \<Rightarrow> 't entry list) \<Rightarrow> gas \<Rightarrow> 't entry list \<Rightarrow> bool" where
  "picks g gasLimit L used es \<longleftrightarrow>
     (\<forall>s. prefix (of_sender s es) (L s)) \<and>
     (\<forall>s. length (of_sender s es) < length (L s) \<longrightarrow>
        unat gasLimit < unat used + gas_sum g es + unat (gt_Gas g (e_tx (L s ! length (of_sender s es))))) \<and>
     unat used + gas_sum g es \<le> unat gasLimit \<and>
     (\<forall>i j. i < j \<longrightarrow> j < length es \<longrightarrow> (\<forall>k\<in>{i..<j}. e_sender (es ! k) \<noteq> e_sender (es ! j)) \<longrightarrow>
        heap_Less (es ! i) (es ! j))"

lemma sel_inv_entry:
  assumes "sel_inv h idx" "e \<in> set h"
  obtains st where "fmlookup idx (e_sender e) = Some st" "sc_next st < length (sc_txs st)"
    "sc_txs st ! sc_next st = e" "open_chain h idx (e_sender e) = e # drop (Suc (sc_next st)) (sc_txs st)"
proof -
  obtain st where st: "fmlookup idx (e_sender e) = Some st" "sc_next st < length (sc_txs st)"
      "sc_txs st ! sc_next st = e"
    using assms unfolding sel_inv_def by blast
  then show ?thesis using that assms(2) Cons_nth_drop_Suc [OF st(2)] by (simp add: open_chain_def)
qed

lemma sel_inv_hash:
  "sel_inv h idx \<Longrightarrow> fmlookup idx s = Some st \<Longrightarrow> fmlookup idx s' = Some st' \<Longrightarrow>
     x \<in> set (sc_txs st) \<Longrightarrow> y \<in> set (sc_txs st') \<Longrightarrow> e_hash x = e_hash y \<Longrightarrow> x = y"
  unfolding sel_inv_def by blast

text \<open>Dropping the popped entry's sender, and advancing its chain.\<close>

lemma pop_senders:
  assumes "sel_inv h idx" "heapPop h = Some (e, h')"
  shows "e \<in> set h" "set h = insert e (set h')" "e_sender ` set h' = e_sender ` set h - {e_sender e}"
    "distinct (map e_sender h')" "\<And>x. x \<in> set h' \<Longrightarrow> e_sender x \<noteq> e_sender e"
proof -
  have p: "e \<in> set h" "mset h = add_mset e (mset h')" using heapPop_Some [OF assms(2)] by simp_all
  then show "e \<in> set h" "set h = insert e (set h')" by (metis, metis set_mset_add_mset_insert set_mset_mset)
  have "mset (map e_sender h) = mset (map e_sender (e # h'))" using p(2) by simp
  then have d: "distinct (map e_sender (e # h'))"
    using assms(1) unfolding sel_inv_def by (metis mset_eq_imp_distinct_iff)
  then show "distinct (map e_sender h')" by simp
  show ne: "e_sender x \<noteq> e_sender e" if "x \<in> set h'" for x
    using d that by (metis distinct.simps(2) imageI list.simps(9) set_map)
  show "e_sender ` set h' = e_sender ` set h - {e_sender e}" using \<open>set h = insert e (set h')\<close> ne by auto
qed

lemma sel_inv_skip:
  assumes "sel_inv h idx" "heapPop h = Some (e, h')"
  shows "sel_inv h' idx"
    and "open_chain h' idx = (open_chain h idx)(e_sender e := [])"
proof -
  note p = pop_senders [OF assms]
  show "sel_inv h' idx" using assms(1) p(2,4) by (simp add: sel_inv_def)
  show "open_chain h' idx = (open_chain h idx)(e_sender e := [])"
    using p(3) by (auto simp: open_chain_def fun_eq_iff)
qed

lemma sel_inv_advance:
  assumes inv: "sel_inv h idx" and pop: "heapPop h = Some (e, h')"
    and st: "fmlookup idx (e_sender e) = Some st" "st' = st\<lparr>sc_next := sc_next st + 1\<rparr>"
    and h'': "h'' = (if sc_next st' < length (sc_txs st') then heapPush h' (sc_txs st' ! sc_next st') else h')"
  shows "sel_inv h'' (fmupd (e_sender e) st' idx)"
    and "open_chain h'' (fmupd (e_sender e) st' idx) =
      (open_chain h idx)(e_sender e := tl (open_chain h idx (e_sender e)))"
proof -
  note p = pop_senders [OF inv pop]
  have mem: "\<forall>x\<in>set (sc_txs st). e_sender x = e_sender e" using inv st(1) by (simp add: sel_inv_def)
  have old: "\<exists>st. fmlookup idx (e_sender x) = Some st \<and> sc_next st < length (sc_txs st) \<and> sc_txs st ! sc_next st = x"
    if "x \<in> set h'" for x
    using inv p(2) that by (simp add: sel_inv_def)
  have st': "sc_txs st' = sc_txs st" "sc_next st' = Suc (sc_next st)" by (simp_all add: st(2))
  have push: "e_sender (sc_txs st ! Suc (sc_next st)) = e_sender e" if "Suc (sc_next st) < length (sc_txs st)"
    using mem that by simp
  show "sel_inv h'' (fmupd (e_sender e) st' idx)"
    unfolding sel_inv_def
  proof (intro conjI ballI)
    show "distinct (map e_sender h'')"
    proof -
      have "e_sender e \<notin> e_sender ` set h'" using p(3) by simp
      then show ?thesis using p(4) push unfolding h'' heapPush_def by (simp add: st')
    qed
  next
    fix x assume x: "x \<in> set h''"
    show "\<exists>sx. fmlookup (fmupd (e_sender e) st' idx) (e_sender x) = Some sx \<and>
        sc_next sx < length (sc_txs sx) \<and> sc_txs sx ! sc_next sx = x"
    proof (cases "x \<in> set h'")
      case True
      then show ?thesis using old [OF True] p(5) [OF True] by simp
    next
      case False
      then have "x = sc_txs st ! Suc (sc_next st)" "Suc (sc_next st) < length (sc_txs st)"
        using x unfolding h'' heapPush_def by (auto simp: st' split: if_splits)
      then show ?thesis using push by (simp add: st')
    qed
  next
    show "\<forall>s sx. fmlookup (fmupd (e_sender e) st' idx) s = Some sx \<longrightarrow> (\<forall>x\<in>set (sc_txs sx). e_sender x = s)"
      using inv mem by (auto simp: sel_inv_def st')
  next
    have "\<exists>sy. fmlookup idx s = Some sy \<and> sc_txs sy = sc_txs sx"
      if "fmlookup (fmupd (e_sender e) st' idx) s = Some sx" for s sx
      using that st(1) st' by (cases "s = e_sender e") auto
    note chains = this
    show "\<forall>s sx s' sy x y. fmlookup (fmupd (e_sender e) st' idx) s = Some sx \<longrightarrow>
        fmlookup (fmupd (e_sender e) st' idx) s' = Some sy \<longrightarrow>
        x \<in> set (sc_txs sx) \<longrightarrow> y \<in> set (sc_txs sy) \<longrightarrow> e_hash x = e_hash y \<longrightarrow> x = y"
    proof (intro allI impI)
      fix s sx s' sy x y
      assume a: "fmlookup (fmupd (e_sender e) st' idx) s = Some sx" "fmlookup (fmupd (e_sender e) st' idx) s' = Some sy"
        "x \<in> set (sc_txs sx)" "y \<in> set (sc_txs sy)" "e_hash x = e_hash y"
      obtain tx ty where "fmlookup idx s = Some tx" "sc_txs tx = sc_txs sx"
          "fmlookup idx s' = Some ty" "sc_txs ty = sc_txs sy"
        using chains [OF a(1)] chains [OF a(2)] by blast
      then show "x = y" using sel_inv_hash [OF inv] a(3-5) by metis
    qed
  qed
  obtain st0 where "open_chain h idx (e_sender e) = e # drop (Suc (sc_next st0)) (sc_txs st0)"
      "fmlookup idx (e_sender e) = Some st0"
    using sel_inv_entry [OF inv p(1)] by metis
  then have tl: "tl (open_chain h idx (e_sender e)) = drop (Suc (sc_next st)) (sc_txs st)" using st(1) by simp
  show "open_chain h'' (fmupd (e_sender e) st' idx) =
      (open_chain h idx)(e_sender e := tl (open_chain h idx (e_sender e)))"
  proof (rule ext)
    fix s
    have senders: "e_sender ` set h'' = e_sender ` set h' \<union>
        (if Suc (sc_next st) < length (sc_txs st) then {e_sender e} else {})"
      unfolding h'' heapPush_def using push by (auto simp: st')
    show "open_chain h'' (fmupd (e_sender e) st' idx) s =
        ((open_chain h idx)(e_sender e := tl (open_chain h idx (e_sender e)))) s"
    proof (cases "s = e_sender e")
      case True
      have "e_sender e \<in> e_sender ` set h'' \<longleftrightarrow> Suc (sc_next st) < length (sc_txs st)"
        unfolding senders p(3) by simp
      then show ?thesis unfolding True fun_upd_same tl by (simp add: open_chain_def st')
    next
      case False
      then have "s \<in> e_sender ` set h'' \<longleftrightarrow> s \<in> e_sender ` set h"
        unfolding senders p(3) by simp
      then show ?thesis using False by (simp add: open_chain_def)
    qed
  qed
qed

section \<open>Every run of the loop keeps the guarantees\<close>

lemma picks_nil: "(\<And>s. L s = []) \<Longrightarrow> unat used \<le> unat gasLimit \<Longrightarrow> picks g gasLimit L used []"
  by (simp add: picks_def)

text \<open>An entry that does not fit: its sender is dropped.\<close>

lemma picks_skip:
  assumes "picks g gasLimit (L(s := [])) used es" "L s = e # rest"
    and "unat gasLimit < unat used + unat (gt_Gas g (e_tx e))"
  shows "picks g gasLimit L used es"
proof -
  have pre: "prefix (of_sender s' es) ((L(s := [])) s')" for s' using assms(1) by (simp add: picks_def)
  have none: "of_sender s es = []" using pre [of s] by simp
  have "prefix (of_sender s' es) (L s')" for s' using pre [of s'] none by (cases "s' = s") auto
  moreover have "unat gasLimit < unat used + gas_sum g es + unat (gt_Gas g (e_tx (L s' ! length (of_sender s' es))))"
    if "length (of_sender s' es) < length (L s')" for s'
  proof (cases "s' = s")
    case True
    then show ?thesis using assms(2,3) none by simp
  next
    case False
    then show ?thesis using assms(1) that unfolding picks_def by (metis fun_upd_apply)
  qed
  ultimately show ?thesis using assms(1) unfolding picks_def by blast
qed

text \<open>An entry that fits and precedes the first open entry of every other sender.\<close>

lemma picks_take:
  assumes es: "picks g gasLimit (L(e_sender e := rest)) (used + gt_Gas g (e_tx e)) es"
    and L: "L (e_sender e) = e # rest"
    and fits: "unat (used + gt_Gas g (e_tx e)) = unat used + unat (gt_Gas g (e_tx e))"
    and best: "\<And>s x xs. s \<noteq> e_sender e \<Longrightarrow> L s = x # xs \<Longrightarrow> heap_Less e x"
  shows "picks g gasLimit L used (e # es)"
  unfolding picks_def
proof (intro conjI allI impI)
  let ?L = "L(e_sender e := rest)"
  have pre: "prefix (of_sender s es) (?L s)" for s using es by (simp add: picks_def)
  show "prefix (of_sender s (e # es)) (L s)" for s
    using pre [of s] L by (cases "s = e_sender e") auto
  show "unat used + gas_sum g (e # es) \<le> unat gasLimit"
    using es by (simp add: picks_def fits)
  show "unat gasLimit < unat used + gas_sum g (e # es) +
      unat (gt_Gas g (e_tx (L s ! length (of_sender s (e # es)))))"
    if "length (of_sender s (e # es)) < length (L s)" for s
  proof -
    have "length (of_sender s es) < length (?L s)" using that L by (auto split: if_splits)
    moreover have "?L s ! length (of_sender s es) = L s ! length (of_sender s (e # es))"
      using L by auto
    ultimately show ?thesis using es by (auto simp: picks_def fits)
  qed
  show "heap_Less ((e # es) ! i) ((e # es) ! j)"
    if ij: "i < j" "j < length (e # es)" "\<forall>k\<in>{i..<j}. e_sender ((e # es) ! k) \<noteq> e_sender ((e # es) ! j)" for i j
  proof (cases i)
    case 0
    obtain j' where j: "j = Suc j'" "j' < length es" using ij by (cases j) auto
    let ?y = "es ! j'" and ?s = "e_sender (es ! j')"
    have "e_sender e \<noteq> ?s" using ij(3) 0 j by (auto dest!: bspec [of _ _ 0])
    have "e_sender (es ! k) \<noteq> ?s" if "k < j'" for k
      using ij(3) 0 j that by (auto dest!: bspec [of _ _ "Suc k"])
    then have "of_sender ?s (take j' es) = []"
      using j(2) by (auto simp: of_sender_def filter_empty_conv in_set_conv_nth)
    then have "of_sender ?s es = ?y # of_sender ?s (drop (Suc j') es)"
      using id_take_nth_drop [OF j(2)] unfolding of_sender_def
      by (metis (mono_tags, lifting) append_Nil filter.simps(2) filter_append)
    then obtain xs where "L ?s = ?y # xs"
      using pre [of ?s] \<open>e_sender e \<noteq> ?s\<close> by (auto simp: prefix_def)
    then show ?thesis using best [of ?s] \<open>e_sender e \<noteq> ?s\<close> 0 j by simp
  next
    case (Suc i')
    then obtain j' where j: "j = Suc j'" using ij(1) by (cases j) auto
    have "\<forall>k\<in>{i'..<j'}. e_sender (es ! k) \<noteq> e_sender (es ! j')"
    proof
      fix k assume "k \<in> {i'..<j'}"
      then show "e_sender (es ! k) \<noteq> e_sender (es ! j')"
        using ij(3) Suc j by (auto dest!: bspec [of _ _ "Suc k"])
    qed
    moreover have "i' < j'" "j' < length es" using ij Suc j by auto
    ultimately show ?thesis using es Suc j unfolding picks_def by simp
  qed
qed

definition gas_fits :: "'t geth \<Rightarrow> gas \<Rightarrow> (address, 't senderChain) fmap \<Rightarrow> bool" where
  "gas_fits g gasLimit idx \<longleftrightarrow> (\<forall>s st. fmlookup idx s = Some st \<longrightarrow>
     (\<forall>x\<in>set (sc_txs st). unat gasLimit + unat (gt_Gas g (e_tx x)) < 2 ^ 64))"

lemma select_loop_picks:
  assumes "sel_inv h idx" "gas_fits g gasLimit idx" "unat used \<le> unat gasLimit"
  shows "\<exists>es. select_loop g gasLimit h idx used = Inr (map sel es) \<and>
    picks g gasLimit (open_chain h idx) used es"
  using assms
proof (induction g gasLimit h idx used rule: select_loop.induct)
  case (1 g gasLimit h idx used)
  show ?case
  proof (cases "heapPop h")
    case None
    then have h: "h = []" by simp
    have "picks g gasLimit (open_chain h idx) used []"
      using "1.prems"(3) by (intro picks_nil) (simp_all add: open_chain_def h)
    moreover have "select_loop g gasLimit h idx used = Inr (map sel [])"
      using None by (simp add: select_loop.simps [of g gasLimit h idx used] del: heapPop_None)
    ultimately show ?thesis by blast
  next
    case (Some eh)
    then obtain e h' where pop: "heapPop h = Some (e, h')" by (cases eh) simp
    note e = pop_senders(1) [OF "1.prems"(1) pop]
    obtain st where st: "fmlookup idx (e_sender e) = Some st" "sc_next st < length (sc_txs st)"
        "sc_txs st ! sc_next st = e" "open_chain h idx (e_sender e) = e # drop (Suc (sc_next st)) (sc_txs st)"
      using sel_inv_entry [OF "1.prems"(1) e] by blast
    have "e \<in> set (sc_txs st)" using st(2,3) nth_mem by blast
    then have small: "unat gasLimit + unat (gt_Gas g (e_tx e)) < 2 ^ 64"
      using "1.prems"(2) st(1) unfolding gas_fits_def by blast
    then have sum: "unat (used + gt_Gas g (e_tx e)) = unat used + unat (gt_Gas g (e_tx e))"
      using "1.prems"(3) by (intro unat_add_lem [THEN iffD1]) simp
    show ?thesis
    proof (cases "used + gt_Gas g (e_tx e) > gasLimit")
      case True
      note inv = sel_inv_skip [OF "1.prems"(1) pop]
      obtain es where es: "select_loop g gasLimit h' idx used = Inr (map sel es)"
          "picks g gasLimit (open_chain h' idx) used es"
        using "1.IH"(1) [OF pop refl True inv(1) "1.prems"(2,3)] by blast
      have "unat gasLimit < unat used + unat (gt_Gas g (e_tx e))"
        using True sum by (simp add: word_less_nat_alt)
      from picks_skip [OF es(2) [unfolded inv(2)] st(4) this]
      show ?thesis using es(1) pop True by (auto simp: select_loop.simps [of g gasLimit h])
    next
      case False
      define st' where "st' = st\<lparr>sc_next := sc_next st + 1\<rparr>"
      define h'' where "h'' = (if sc_next st' < length (sc_txs st') then heapPush h' (sc_txs st' ! sc_next st') else h')"
      note inv = sel_inv_advance [OF "1.prems"(1) pop st(1) st'_def h''_def]
      have "gas_fits g gasLimit (fmupd (e_sender e) st' idx)"
        using "1.prems"(2) st(1) by (auto simp: gas_fits_def st'_def)
      moreover have "unat (used + gt_Gas g (e_tx e)) \<le> unat gasLimit"
        using False by (simp add: word_le_nat_alt not_less)
      ultimately obtain es where es:
          "select_loop g gasLimit h'' (fmupd (e_sender e) st' idx) (used + gt_Gas g (e_tx e)) = Inr (map sel es)"
          "picks g gasLimit (open_chain h'' (fmupd (e_sender e) st' idx)) (used + gt_Gas g (e_tx e)) es"
        using "1.IH"(2) [OF pop refl False st(1) st'_def h''_def inv(1)] by blast
      have best: "heap_Less e x" if s: "s \<noteq> e_sender e" "open_chain h idx s = x # xs" for s x xs
      proof -
        obtain y where y: "y \<in> set h" "e_sender y = s"
          using s(2) by (auto simp: open_chain_def split: if_splits)
        then have "x = y" using sel_inv_entry [OF "1.prems"(1) y(1)] s(2) by (metis list.inject)
        moreover have "\<not> heap_Less y e" using heapPop_Some [OF pop] y(1) by blast
        moreover have "e_hash y \<noteq> e_hash e"
        proof
          assume "e_hash y = e_hash e"
          moreover obtain sy where "fmlookup idx (e_sender y) = Some sy" "y \<in> set (sc_txs sy)"
            using sel_inv_entry [OF "1.prems"(1) y(1)] nth_mem by metis
          ultimately have "y = e" using sel_inv_hash [OF "1.prems"(1) _ st(1)] \<open>e \<in> set (sc_txs st)\<close> by blast
          then show False using y(2) s(1) by simp
        qed
        ultimately show ?thesis using heap_Less_total by metis
      qed
      have "picks g gasLimit (open_chain h idx) used (e # es)"
        by (rule picks_take [OF es(2) [unfolded inv(2) st(4) list.sel] st(4) sum]) (rule best)
      moreover have "select_loop g gasLimit h idx used = Inr (map sel (e # es))"
        using es(1) pop False st(1) unfolding h''_def st'_def
        by (simp add: select_loop.simps [of g gasLimit h] sel_def Let_def split: if_splits)
      ultimately show ?thesis by blast
    qed
  qed
qed

section \<open>Selecting from a pool\<close>

definition sender_chain :: "'t pool \<Rightarrow> address \<Rightarrow> 't entry list" where
  "sender_chain p s = chain_from (sender_txs p s) (account_nonce p s)"

lemma build_index_member:
  "(s, st) \<in> set (build_index p) \<longleftrightarrow>
     fmlookup (p_bySender p) s \<noteq> None \<and> sender_chain p s \<noteq> [] \<and> st = \<lparr>sc_txs = sender_chain p s, sc_next = 0\<rparr>"
  by (auto simp: build_index_def sender_chain_def fmlookup_dom'_iff)

lemma build_index_keys: "distinct (map fst (build_index p))"
  by (simp add: build_index_def filter_map o_def)

lemma index_lookup:
  "fmlookup (fmap_of_list (build_index p)) s =
     (if fmlookup (p_bySender p) s \<noteq> None \<and> sender_chain p s \<noteq> []
      then Some \<lparr>sc_txs = sender_chain p s, sc_next = 0\<rparr> else None)"
proof -
  have "map_of (build_index p) s = Some st \<longleftrightarrow> (s, st) \<in> set (build_index p)" for st
    by (rule map_of_eq_Some_iff [OF build_index_keys])
  then show ?thesis
    unfolding fmlookup_of_list build_index_member by (cases "map_of (build_index p) s") auto
qed

lemma index_chain:
  "fmlookup (fmap_of_list (build_index p)) s = Some st \<Longrightarrow> sc_txs st = sender_chain p s"
  by (auto simp: index_lookup split: if_splits)

lemma chain_hash:
  assumes "pool_ok g p" "x \<in> set (sender_chain p s)" "y \<in> set (sender_chain p s')" "e_hash x = e_hash y"
  shows "x = y"
  using chain_member [OF assms(1)] assms(2-4) unfolding sender_chain_def by (metis option.inject)

lemma sel_inv_start:
  assumes "pool_ok g p"
  shows "sel_inv (map (\<lambda>(s, st). sc_txs st ! 0) (build_index p)) (fmap_of_list (build_index p))"
    and "open_chain (map (\<lambda>(s, st). sc_txs st ! 0) (build_index p)) (fmap_of_list (build_index p)) = sender_chain p"
proof -
  let ?h = "map (\<lambda>(s, st). sc_txs st ! 0) (build_index p)"
  have sender: "e_sender (sender_chain p s ! 0) = s" if "sender_chain p s \<noteq> []" for s
  proof -
    have "sender_chain p s ! 0 \<in> set (sender_chain p s)" using that by simp
    then show ?thesis unfolding sender_chain_def using chain_member [OF assms] by blast
  qed
  have "map e_sender ?h = map fst (build_index p)"
    using sender build_index_member [of _ _ p] by (auto simp: case_prod_beta)
  then have d: "distinct (map e_sender ?h)" using build_index_keys by metis
  have mem: "\<forall>x\<in>set (sender_chain p s). e_sender x = s" for s
    using chain_member [OF assms] by (simp add: sender_chain_def)
  show "sel_inv ?h (fmap_of_list (build_index p))"
    unfolding sel_inv_def
  proof (intro conjI)
    show "\<forall>e\<in>set ?h. \<exists>st. fmlookup (fmap_of_list (build_index p)) (e_sender e) = Some st \<and>
        sc_next st < length (sc_txs st) \<and> sc_txs st ! sc_next st = e"
      using sender by (auto simp: build_index_member index_lookup)
    show "distinct (map e_sender ?h)" by (rule d)
    show "\<forall>s st. fmlookup (fmap_of_list (build_index p)) s = Some st \<longrightarrow> (\<forall>x\<in>set (sc_txs st). e_sender x = s)"
      using mem index_chain by metis
    show "\<forall>s st s' st' x y. fmlookup (fmap_of_list (build_index p)) s = Some st \<longrightarrow>
        fmlookup (fmap_of_list (build_index p)) s' = Some st' \<longrightarrow>
        x \<in> set (sc_txs st) \<longrightarrow> y \<in> set (sc_txs st') \<longrightarrow> e_hash x = e_hash y \<longrightarrow> x = y"
      by (intro allI impI) (metis index_chain chain_hash [OF assms])
  qed
  have senders: "s \<in> e_sender ` set ?h \<longleftrightarrow> sender_chain p s \<noteq> [] \<and> fmlookup (p_bySender p) s \<noteq> None" for s
  proof -
    have "e_sender ` set ?h = fst ` set (build_index p)"
      using arg_cong [OF \<open>map e_sender ?h = map fst (build_index p)\<close>, of set] by (simp only: set_map)
    moreover have "s \<in> fst ` set (build_index p) \<longleftrightarrow> (\<exists>st. (s, st) \<in> set (build_index p))"
      by (simp add: Domain_iff flip: Domain_fst)
    ultimately show ?thesis by (simp add: build_index_member conj_commute)
  qed
  have none: "sender_chain p s = []" if "fmlookup (p_bySender p) s = None" for s
    using that by (simp add: sender_chain_def sender_txs_def chain_from_def)
  show "open_chain ?h (fmap_of_list (build_index p)) = sender_chain p"
  proof (rule ext)
    fix s
    show "open_chain ?h (fmap_of_list (build_index p)) s = sender_chain p s"
      unfolding open_chain_def senders index_lookup using none [of s] by simp
  qed
qed

lemma Select_picks:
  assumes "pool_ok g p" "unat gasLimit + unat (c_BlockGasLimit (p_cfg p)) < 2 ^ 64"
  shows "\<exists>es. Select g gasLimit p = Inr (map sel es) \<and> picks g gasLimit (sender_chain p) 0 es"
proof -
  have "gas_fits g gasLimit (fmap_of_list (build_index p))"
    unfolding gas_fits_def index_lookup
  proof (intro allI impI ballI)
    fix s st x
    assume "(if fmlookup (p_bySender p) s \<noteq> None \<and> sender_chain p s \<noteq> []
        then Some \<lparr>sc_txs = sender_chain p s, sc_next = 0\<rparr> else None) = Some st" "x \<in> set (sc_txs st)"
    then have "x \<in> set (sender_chain p s)" by (auto split: if_splits)
    then have "fmlookup (p_byHash p) (e_hash x) = Some x"
      using chain_member [OF assms(1)] by (simp add: sender_chain_def)
    then have "gt_Gas g (e_tx x) \<le> c_BlockGasLimit (p_cfg p)"
      using assms(1) by (auto simp: pool_ok_def limits_ok_def)
    then show "unat gasLimit + unat (gt_Gas g (e_tx x)) < 2 ^ 64"
      using assms(2) by (simp add: word_le_nat_alt)
  qed
  from select_loop_picks [OF sel_inv_start(1) [OF assms(1)] this, of 0]
  show ?thesis unfolding sel_inv_start(2) [OF assms(1)] by (simp add: Select_def heapInit_def Let_def)
qed

section \<open>Properties\<close>

text \<open>
  C23: what is selected can be executed and fits. \<open>Select\<close> never panics; the transactions it picks of
  each sender are the first ones of its chain of consecutive nonces that starts at the account's
  nonce, in that order; and together they need no more gas than the limit, where the limit and a
  block's gas do not overflow together.
\<close>

theorem Select_valid:
  assumes "pool_ok g p" "unat gasLimit + unat (c_BlockGasLimit (p_cfg p)) < 2 ^ 64"
  shows "\<exists>es. Select g gasLimit p = Inr (map sel es) \<and> gas_sum g es \<le> unat gasLimit
    \<and> (\<forall>s. prefix (of_sender s es) (sender_chain p s)
         \<and> map (\<lambda>e. gt_Nonce g (e_tx e)) (of_sender s es) =
             map (\<lambda>i. account_nonce p s + of_nat i) [0..<length (of_sender s es)])"
proof -
  obtain es where es: "Select g gasLimit p = Inr (map sel es)" "picks g gasLimit (sender_chain p) 0 es"
    using Select_picks [OF assms] by blast
  have pre: "prefix (of_sender s es) (sender_chain p s)" for s using es(2) by (simp add: picks_def)
  have "gt_Nonce g (e_tx (of_sender s es ! i)) = account_nonce p s + of_nat i"
    if "i < length (of_sender s es)" for s i
  proof -
    have "of_sender s es ! i = sender_chain p s ! i" "i < length (sender_chain p s)"
      using pre [of s] that by (auto simp: prefix_def nth_append)
    then show ?thesis using chain_nonces(2) [OF assms(1)] unfolding sender_chain_def by simp
  qed
  then have "map (\<lambda>e. gt_Nonce g (e_tx e)) (of_sender s es) =
      map (\<lambda>i. account_nonce p s + of_nat i) [0..<length (of_sender s es)]" for s
    by (intro nth_equalityI) simp_all
  then show ?thesis using es pre by (auto simp: picks_def)
qed

text \<open>
  C24: selection is greedy in the order of the heap. \<open>Select\<close> answers with a list of the pool's entries, taken from the front of each
  sender's chain. When one is picked while another one picked later was already open, that is, its sender's previous ones were already
  picked, the first has the higher priority or, at the same priority, the smaller hash. As for C23, the limit and
  a block's gas must not overflow together.
\<close>

theorem Select_priority:
  assumes "pool_ok g p" "unat gasLimit + unat (c_BlockGasLimit (p_cfg p)) < 2 ^ 64"
  shows "\<exists>es. Select g gasLimit p = Inr (map sel es) \<and>
    (\<forall>s. prefix (of_sender s es) (sender_chain p s)) \<and>
    (\<forall>j<length es. \<forall>i<j. (\<forall>k\<in>{i..<j}. e_sender (es ! k) \<noteq> e_sender (es ! j)) \<longrightarrow>
       e_priority (es ! j) < e_priority (es ! i) \<or>
       e_priority (es ! i) = e_priority (es ! j) \<and> e_hash (es ! i) < e_hash (es ! j))"
proof -
  obtain es where es: "Select g gasLimit p = Inr (map sel es)" "picks g gasLimit (sender_chain p) 0 es"
    using Select_picks [OF assms] by blast
  then show ?thesis unfolding picks_def heap_Less_iff by blast
qed

text \<open>
  nothing that fits is left out. The first transaction of a sender's chain that was not picked
  does not fit into what the picked ones leave of the gas limit.
\<close>

theorem Select_maximal:
  assumes "pool_ok g p" "unat gasLimit + unat (c_BlockGasLimit (p_cfg p)) < 2 ^ 64"
  shows "\<exists>es. Select g gasLimit p = Inr (map sel es) \<and>
    (\<forall>s. let k = length (of_sender s es) in k < length (sender_chain p s) \<longrightarrow>
       unat gasLimit < gas_sum g es + unat (gt_Gas g (e_tx (sender_chain p s ! k))))"
proof -
  obtain es where es: "Select g gasLimit p = Inr (map sel es)" "picks g gasLimit (sender_chain p) 0 es"
    using Select_picks [OF assms] by blast
  then show ?thesis unfolding picks_def by (intro exI [of _ es]) (simp add: Let_def)
qed

lemma sample_gas: "unat (100000 :: gas) + unat (c_BlockGasLimit (p_cfg sample_pool)) < 2 ^ 64"
  by (simp add: sample_pool_def pool_New_Default)

theorem Select_valid_witness:
  "\<exists>es. Select geth_sample 100000 sample_pool = Inr (map sel es) \<and> gas_sum geth_sample es \<le> unat (100000 :: gas)"
  using Select_valid [OF sample_pool_ok sample_gas] by blast

text \<open>
  A pool with transaction 4 of account 7, which tips 3 gwei, and transaction 8 of account 9, which tips 7. Both have
  nonce 0; account 9 comes after account 7 in the index, and is picked first.
\<close>

definition two_pool :: "nat pool" where
  "two_pool = refreshStatsLocked (insert_entry geth_sample 8 9 (record_nonce 9 0 sample_pool))"

lemma two_add: "Add geth_sample 8 9 0 sample_pool = (two_pool, None)"
proof -
  have "fee_check geth_sample 8 sample_pool"
    by (simp add: fee_check_def geth_sample_def pool_New_Default DynamicFeeTxType_def uint256_cmp_word
        word_less_def toU256_value sample_pool_def)
  moreover have "p_bySender sample_pool = fmupd 7 (fmupd 0 (new_entry geth_sample 4 7 (record_nonce 7 0 (pool_New DefaultConfig))) fmempty) fmempty"
    by (simp add: sample_pool_def insert_entry_def Let_def sender_txs_def pool_New_Default geth_sample_def record_nonce_def new_entry_def)
  moreover have "fm_size (p_byHash sample_pool) = 1" by (simp add: sample_pool_byHash fm_size_upd)
  moreover have "account_nonce (record_nonce 9 0 sample_pool) 9 = 0"
    by (simp add: sample_pool_def account_nonce_def record_nonce_def pool_New_Default)
  moreover have "gt_Hash geth_sample 8 = 8" "gt_Hash geth_sample 4 = 4" "gt_Gas geth_sample 8 = 21000" "gt_Nonce geth_sample 8 = 0"
    by (simp_all add: geth_sample_def)
  moreover have "p_cfg sample_pool = DefaultConfig" by (simp add: sample_pool_def pool_New_Default)
  ultimately show ?thesis
    by (simp add: Add_def add_capacity_def two_pool_def sample_pool_byHash Let_def)
qed

lemma two_pool_ok: "pool_ok geth_sample two_pool"
  by (rule Add_ok [OF sample_pool_ok two_add])


lemma two_priorities:
  "e_priority (new_entry geth_sample 4 s (record_nonce s n (pool_New DefaultConfig))) = 3000000000"
  "e_priority (new_entry geth_sample 8 s' (record_nonce s' n' sample_pool)) = 7000000000"
proof -
  have v: "toU256 3000000000 = 3000000000" "toU256 7000000000 = 7000000000"
    using toU256_value [of 3000000000] toU256_value [of 7000000000] by (simp_all add: word_uint_eq_iff)
  show "e_priority (new_entry geth_sample 4 s (record_nonce s n (pool_New DefaultConfig))) = 3000000000"
    "e_priority (new_entry geth_sample 8 s' (record_nonce s' n' sample_pool)) = 7000000000"
    by (simp_all add: new_entry_def tipToU256_def geth_sample_def pool_New_Default sample_pool_def v)
qed

lemma two_chains:
  "account_nonce two_pool s = 0"
  "sender_txs two_pool 7 = fmupd 0 (new_entry geth_sample 4 7 (record_nonce 7 0 (pool_New DefaultConfig))) fmempty"
  "sender_txs two_pool 9 = fmupd 0 (new_entry geth_sample 8 9 (record_nonce 9 0 sample_pool)) fmempty"
  "sorted_keys (p_bySender two_pool) = [7, 9]"
proof -
  show "account_nonce two_pool s = 0"
    by (simp add: two_pool_def sample_pool_def account_nonce_def record_nonce_def pool_New_Default)
  have s: "sender_txs sample_pool 7 = fmupd 0 (new_entry geth_sample 4 7 (record_nonce 7 0 (pool_New DefaultConfig))) fmempty"
      "sender_txs sample_pool 9 = fmempty"
    by (simp_all add: sample_pool_def sender_txs_cong [OF refresh_views(2)] sender_txs_insert)
      (simp_all add: sender_txs_def pool_New_Default geth_sample_def)
  show "sender_txs two_pool 7 = fmupd 0 (new_entry geth_sample 4 7 (record_nonce 7 0 (pool_New DefaultConfig))) fmempty"
    "sender_txs two_pool 9 = fmupd 0 (new_entry geth_sample 8 9 (record_nonce 9 0 sample_pool)) fmempty"
    by (simp_all add: two_pool_def sender_txs_cong [OF refresh_views(2)] sender_txs_insert s)
      (simp_all add: geth_sample_def)
  show "sorted_keys (p_bySender two_pool) = [7, 9]"
    by (simp add: two_pool_def sample_pool_def insert_entry_def Let_def record_nonce_def pool_New_Default sorted_keys_def
        sorted_list_of_fset.rep_eq)
qed

lemma two_select:
  "Select geth_sample 100000 two_pool = Inr [\<lparr>sel_Tx = 8, sel_Sender = 9\<rparr>, \<lparr>sel_Tx = 4, sel_Sender = 7\<rparr>]"
proof -
  let ?e = "new_entry geth_sample 4 7 (record_nonce 7 0 (pool_New DefaultConfig))"
  let ?f = "new_entry geth_sample 8 9 (record_nonce 9 0 sample_pool)"
  have "build_index two_pool = [(7, \<lparr>sc_txs = [?e], sc_next = 0\<rparr>), (9, \<lparr>sc_txs = [?f], sc_next = 0\<rparr>)]"
    by (simp add: build_index_def two_chains chain_from_def fm_size_upd)
  moreover have "heap_Less ?f ?e" "?f \<noteq> ?e" unfolding heap_Less_iff two_priorities by (simp_all add: new_entry_def)
  moreover have "gt_Gas geth_sample t = 21000" for t by (simp add: geth_sample_def)
  ultimately show ?thesis
    by (simp add: Select_def heapInit_def select_loop.simps heapPop_def Let_def fmlookup_of_list)
qed

theorem Select_priority_witness:
  "\<exists>e f. Select geth_sample 100000 two_pool = Inr [sel f, sel e] \<and> e_sender f = 9 \<and> e_sender e = 7 \<and>
    prefix [f] (sender_chain two_pool 9) \<and> prefix [e] (sender_chain two_pool 7) \<and>
    (e_priority e < e_priority f \<or> e_priority f = e_priority e \<and> e_hash f < e_hash e)"
proof -
  have gas: "unat (100000 :: gas) + unat (c_BlockGasLimit (p_cfg two_pool)) < 2 ^ 64"
    using sample_gas by (simp add: two_pool_def)
  obtain es where es: "Select geth_sample 100000 two_pool = Inr (map sel es)"
    "\<forall>s. prefix (of_sender s es) (sender_chain two_pool s)"
    "\<forall>j<length es. \<forall>i<j. (\<forall>k\<in>{i..<j}. e_sender (es ! k) \<noteq> e_sender (es ! j)) \<longrightarrow>
       e_priority (es ! j) < e_priority (es ! i) \<or>
       e_priority (es ! i) = e_priority (es ! j) \<and> e_hash (es ! i) < e_hash (es ! j)"
    using Select_priority [OF two_pool_ok gas] by blast
  then obtain f e where fe: "es = [f, e]" "e_sender f = 9" "e_sender e = 7"
    unfolding two_select by (auto simp: sel_def)
  have "prefix [f] (sender_chain two_pool 9)" "prefix [e] (sender_chain two_pool 7)"
    using es(2) [rule_format, of 9] es(2) [rule_format, of 7] fe by simp_all
  moreover have "e_priority e < e_priority f \<or> e_priority f = e_priority e \<and> e_hash f < e_hash e"
    using es(3) [rule_format, of 1 0] fe by simp
  ultimately show ?thesis using es(1) fe by auto
qed

theorem Select_maximal_witness:
  "\<exists>es. Select geth_sample 100000 sample_pool = Inr (map sel es)
    \<and> (0 < length (of_sender 7 es) \<or> 79000 < gas_sum geth_sample es)"
proof -
  let ?e = "new_entry geth_sample 4 7 (record_nonce 7 0 (pool_New DefaultConfig))"
  have txs: "sender_txs sample_pool 7 = fmupd 0 ?e fmempty"
    by (simp add: sample_pool_def sender_txs_cong [OF refresh_views(2)] sender_txs_insert)
      (simp add: sender_txs_def pool_New_Default geth_sample_def)
  have "account_nonce sample_pool 7 = 0"
    by (simp add: sample_pool_def account_nonce_def record_nonce_def pool_New_Default)
  then have chain: "sender_chain sample_pool 7 = [?e]"
    by (simp add: sender_chain_def chain_from_def txs fm_size_upd)
  obtain es where es: "Select geth_sample 100000 sample_pool = Inr (map sel es)"
      "length (of_sender 7 es) < length (sender_chain sample_pool 7) \<Longrightarrow>
       unat (100000 :: gas) < gas_sum geth_sample es +
         unat (gt_Gas geth_sample (e_tx (sender_chain sample_pool 7 ! length (of_sender 7 es))))"
    using Select_maximal [OF sample_pool_ok sample_gas] by (auto simp: Let_def)
  then show ?thesis unfolding chain by (intro exI [of _ es]) (auto simp: geth_sample_def)
qed

end
