(* ===== verification/Builder.thy ===== *)
theory Builder
  imports Engine Chain Selection
begin

text \<open>
  The block builder of \<open>node/blockbuilder.go\<close>: select from the pool, execute on a session of the
  parent's state, commit it, and make the header and the receipts. The session and its manager are
  threaded through the executions; the builder leaves the manager in the chain.
\<close>

section \<open>Converting transactions, logs and blooms\<close>

definition statusOf :: "bool \<Rightarrow> byte" where
  "statusOf success = (if success then 1 else 0)"

definition mergeBlooms :: "bloom \<Rightarrow> bloom \<Rightarrow> bloom" where
  "mergeBlooms a b = bytes_word (map2 (OR) (word_bytes a) (word_bytes b))"

text \<open>The transactions a caller goes on with, hashed as \<open>Hash\<close> hashes them; it never fails.\<close>

definition computeTxRoot :: "keccak \<Rightarrow> transaction list \<Rightarrow> hash" where
  "computeTxRoot kec txs = MerkleRoot kec (map (tx_leaf kec) txs)"

fun convertLogs :: "evm_log list \<Rightarrow> log list" where
  "convertLogs [] = []"
| "convertLogs (None # gls) = convertLogs gls"
| "convertLogs (Some gl # gls) =
     \<lparr>lg_Address = lg_Address gl, lg_Topics = lg_Topics gl, lg_Data = lg_Data gl\<rparr> # convertLogs gls"

text \<open>\<open>v.Bytes()\<close>, \<open>v.Uint64()\<close>, and \<open>copy(a[hi-len(b):hi], b)\<close>, which panics on a negative index.\<close>

definition big_Bytes :: "int \<Rightarrow> bytes" where
  "big_Bytes v = nat_bytes (nat \<bar>v\<bar>)"

definition big_Uint64 :: "int \<Rightarrow> uint64" where
  "big_Uint64 v = word_of_int \<bar>v\<bar>"

definition copy_end :: "nat \<Rightarrow> bytes \<Rightarrow> bytes \<Rightarrow> bytes res" where
  "copy_end hi b a =
     (if length b > hi then Inl GoPanic else Inr (take (hi - length b) a @ b @ drop hi a))"

definition set_from_big :: "int \<Rightarrow> uint256" where
  "set_from_big v = (case uint256_from_big (Some v) of Inl _ \<Rightarrow> zero_uint256 | Inr x \<Rightarrow> x)"

definition raw_signature :: "int option \<Rightarrow> int option \<Rightarrow> int option \<Rightarrow> signature res" where
  "raw_signature v r s =
     (case (r, s) of
        (Some r, Some s) \<Rightarrow>
          and_then (copy_end 32 (big_Bytes r) (replicate SignatureLen 0)) (\<lambda>sig.
          and_then (copy_end 64 (big_Bytes s) sig) (\<lambda>sig.
          case v of
            None \<Rightarrow> Inl GoPanic
          | Some v \<Rightarrow> Inr (bytes_word (sig[64 := ucast (big_Uint64 v)]))))
      | _ \<Rightarrow> Inr 0)"

definition chainTxFrom :: "'t geth \<Rightarrow> 't geth_body \<Rightarrow> 't \<Rightarrow> address \<Rightarrow> transaction res" where
  "chainTxFrom g gb gt sender =
     (let dyn = gt_Type g gt = DynamicFeeTxType in
      res_map (\<lambda>sig.
        \<lparr>tx_Type = (if dyn then TxTypeDynamicFee else TxTypeLegacy),
         tx_ChainID = big_Uint64 (gb_ChainId gb gt),
         tx_Nonce = gt_Nonce g gt,
         tx_MaxPriorityFeePerGas = (if dyn then set_from_big (gt_GasTipCap g gt) else 0),
         tx_MaxFeePerGas = (if dyn then set_from_big (gt_GasFeeCap g gt) else 0),
         tx_GasPrice = (if dyn then 0 else set_from_big (gb_GasPrice gb gt)),
         tx_GasLimit = gt_Gas g gt,
         tx_To = gb_To gb gt,
         tx_Value = set_from_big (gb_Value gb gt),
         tx_Data = gb_Data gb gt,
         tx_Signature = sig,
         tx_From = sender,
         tx_HashCache = Some (gt_Hash g gt)\<rparr>)
      (raw_signature (gb_V gb gt) (gb_R gb gt) (gb_S gb gt)))"

section \<open>Building a block\<close>

record 't builder =
  bb_evm :: "'t evm"
  bb_baseFee :: uint256
  bb_gasLimit :: gas
  bb_proposer :: address

definition NewBlockBuilder :: "'t evm \<Rightarrow> uint256 \<Rightarrow> gas \<Rightarrow> 't builder" where
  "NewBlockBuilder E baseFee gasLimit =
     \<lparr>bb_evm = E, bb_baseFee = baseFee, bb_gasLimit = gasLimit, bb_proposer = push_bit 152 1\<rparr>"

record 't BuiltBlock =
  bt_Block :: block
  bt_Receipts :: "receipt list"
  bt_GethTxs :: "'t list"

text \<open>The variables of the execution loop, with the session and its manager.\<close>

record 't build =
  bd_ms :: "manager \<times> session"
  bd_receipts :: "receipt list"
  bd_executedTxs :: "transaction list"
  bd_gethTxs :: "'t list"
  bd_cumulative :: gas
  bd_bloom :: bloom

definition make_receipt :: "keccak \<Rightarrow> hash \<Rightarrow> gas \<Rightarrow> execution_result \<Rightarrow> receipt" where
  "make_receipt kec txHash cumulative result =
     (let r = \<lparr>r_Status = statusOf (er_Success result), r_TxHash = txHash, r_GasUsed = er_GasUsed result,
            r_CumulativeGasUsed = cumulative, r_LogsBloom = 0, r_Logs = convertLogs (er_Logs result),
            r_ContractAddress = er_ContractAddress result,
            r_EffectiveGasPrice = er_EffectiveGasPrice result\<rparr>
      in r\<lparr>r_LogsBloom := ComputeLogsBloom kec r\<rparr>)"

definition build_tx :: "keccak \<Rightarrow> 't evm \<Rightarrow> 't geth \<Rightarrow> 't geth_body \<Rightarrow> execution_context \<Rightarrow>
    't SelectedTx \<Rightarrow> 't build \<Rightarrow> 't build res" where
  "build_tx kec E g gb execCtx picked bd =
     (case RunTx kec E g gb (bd_ms bd) (sel_Tx picked) (sel_Sender picked) execCtx of
        (ms, Inl e) \<Rightarrow> if e = GoPanic then Inl GoPanic else Inr (bd\<lparr>bd_ms := ms\<rparr>)
      | (ms, Inr result) \<Rightarrow>
          let cumulative = bd_cumulative bd + er_GasUsed result;
              r = make_receipt kec (gt_Hash g (sel_Tx picked)) cumulative result
          in and_then (chainTxFrom g gb (sel_Tx picked) (sel_Sender picked)) (\<lambda>tx.
             Inr \<lparr>bd_ms = ms, bd_receipts = bd_receipts bd @ [r],
                  bd_executedTxs = bd_executedTxs bd @ [tx], bd_gethTxs = bd_gethTxs bd @ [sel_Tx picked],
                  bd_cumulative = cumulative, bd_bloom = mergeBlooms (bd_bloom bd) (r_LogsBloom r)\<rparr>))"

definition exec_context :: "'t builder \<Rightarrow> head \<Rightarrow> execution_context" where
  "exec_context b parent =
     \<lparr>x_Height = hd_Height parent + 1, x_Timestamp = hd_Height parent + 1 + 1700000000,
      x_Proposer = bb_proposer b, x_BaseFee = bb_baseFee b, x_GasLimit = bb_gasLimit b,
      x_ChainID = 0, x_PrevHash = hd_Hash parent\<rparr>"

definition validatorSetHash :: "hash res" where
  "validatorSetHash = Inr (push_bit 248 0xab)"

definition build_header :: "keccak \<Rightarrow> 't builder \<Rightarrow> uint64 \<Rightarrow> head \<Rightarrow> execution_context \<Rightarrow> 't build \<Rightarrow> hash \<Rightarrow> header" where
  "build_header kec b chainID parent execCtx bd newRoot =
     \<lparr>h_Version = 1, h_ChainID = chainID, h_Height = x_Height execCtx, h_Round = 0,
      h_Timestamp = x_Timestamp execCtx, h_PrevHash = hd_Hash parent, h_Proposer = bb_proposer b,
      h_TxRoot = computeTxRoot kec (bd_executedTxs bd),
      h_ReceiptRoot = ComputeReceiptRoot kec (bd_receipts bd), h_StateRoot = newRoot,
      h_LogsBloom = bd_bloom bd, h_GasUsed = bd_cumulative bd, h_GasLimit = bb_gasLimit b,
      h_BaseFeePerGas = bb_baseFee b, h_ValidatorSetHash = value_or_zero validatorSetHash,
      h_ExtraData = []\<rparr>"

text \<open>A chain without a state manager, as after a restart, panics at once.\<close>

definition builder_BuildBlock :: "keccak \<Rightarrow> 't geth \<Rightarrow> 't geth_body \<Rightarrow> 't builder \<Rightarrow> chain \<Rightarrow> 't pool \<Rightarrow> head \<Rightarrow>
    chain \<times> 't BuiltBlock res" where
  "builder_BuildBlock kec g gb b c pool parent =
     (case c_mgr c of
        None \<Rightarrow> (c, Inl GoPanic)
      | Some m \<Rightarrow>
          (case Begin m (hd_StateRoot parent) of
             Inl e \<Rightarrow> (c, Inl e)
           | Inr sess \<Rightarrow>
               (let execCtx = exec_context b parent in
                case and_then (Select g (bb_gasLimit b) pool) (\<lambda>selected.
                       each (build_tx kec (bb_evm b) g gb execCtx) selected
                         \<lparr>bd_ms = (m, sess), bd_receipts = [], bd_executedTxs = [], bd_gethTxs = [],
                          bd_cumulative = 0, bd_bloom = 0\<rparr>) of
                  Inl e \<Rightarrow> (c, Inl e)
                | Inr bd \<Rightarrow>
                    (case Commit kec (bd_ms bd) of
                       Inl e \<Rightarrow> (c\<lparr>c_mgr := Some (fst (bd_ms bd))\<rparr>, Inl e)
                     | Inr (newRoot, m', _) \<Rightarrow>
                         (c\<lparr>c_mgr := Some m'\<rparr>,
                          Inr \<lparr>bt_Block = \<lparr>b_Header = build_header kec b (c_ChainID c) parent execCtx bd newRoot,
                                           b_Transactions = bd_executedTxs bd\<rparr>,
                               bt_Receipts = bd_receipts bd, bt_GethTxs = bd_gethTxs bd\<rparr>)))))"

section \<open>The execution loop\<close>

text \<open>The receipts belong to the transactions, in order, and account for the gas and the bloom.\<close>

definition gas_total :: "receipt list \<Rightarrow> gas" where
  "gas_total rs = sum_list (map r_GasUsed rs)"

definition receipts_match :: "keccak \<Rightarrow> transaction list \<Rightarrow> receipt list \<Rightarrow> bool" where
  "receipts_match kec txs rs \<longleftrightarrow> length rs = length txs \<and>
     (\<forall>i<length rs. r_TxHash (rs ! i) = fst (tx_Hash kec (txs ! i)) \<and>
        r_CumulativeGasUsed (rs ! i) = gas_total (take (Suc i) rs) \<and>
        r_LogsBloom (rs ! i) = ComputeLogsBloom kec (rs ! i) \<and> r_Status (rs ! i) \<le> 1)"

definition build_inv :: "keccak \<Rightarrow> 't geth \<Rightarrow> 't build \<Rightarrow> bool" where
  "build_inv kec g bd \<longleftrightarrow> receipts_match kec (bd_executedTxs bd) (bd_receipts bd) \<and>
     bd_cumulative bd = gas_total (bd_receipts bd) \<and>
     bd_bloom bd = foldl mergeBlooms 0 (map r_LogsBloom (bd_receipts bd)) \<and>
     map (\<lambda>tx. fst (tx_Hash kec tx)) (bd_executedTxs bd) = map (gt_Hash g) (bd_gethTxs bd)"

lemma gas_total_simps [simp]:
  "gas_total [] = 0" "gas_total (r # rs) = r_GasUsed r + gas_total rs"
  "gas_total (rs @ ss) = gas_total rs + gas_total ss"
  by (simp_all add: gas_total_def)

lemma receipts_match_snoc:
  assumes "receipts_match kec txs rs" "r_TxHash r = fst (tx_Hash kec tx)"
    "r_CumulativeGasUsed r = gas_total rs + r_GasUsed r" "r_LogsBloom r = ComputeLogsBloom kec r" "r_Status r \<le> 1"
  shows "receipts_match kec (txs @ [tx]) (rs @ [r])"
  using assms by (auto simp: receipts_match_def nth_append less_Suc_eq)

lemma make_receipt_fields [simp]:
  "r_TxHash (make_receipt kec h cum res) = h" "r_GasUsed (make_receipt kec h cum res) = er_GasUsed res"
  "r_CumulativeGasUsed (make_receipt kec h cum res) = cum"
  "r_Logs (make_receipt kec h cum res) = convertLogs (er_Logs res)"
  "r_Status (make_receipt kec h cum res) \<le> 1"
  by (simp_all add: make_receipt_def statusOf_def ComputeLogsBloom_def Let_def)

lemma make_receipt_bloom:
  "r_LogsBloom (make_receipt kec h cum res) = ComputeLogsBloom kec (make_receipt kec h cum res)"
  by (simp add: make_receipt_def ComputeLogsBloom_def Let_def)

lemma chainTxFrom_hash: "chainTxFrom g gb t s = Inr tx \<Longrightarrow> fst (tx_Hash kec tx) = gt_Hash g t"
  by (auto simp: chainTxFrom_def Let_def res_map_Inr_iff tx_Hash_def)

lemma build_tx_inv:
  assumes "build_inv kec g bd" "build_tx kec E g gb ctx picked bd = Inr bd'"
  shows "build_inv kec g bd'"
proof -
  obtain ms r where run: "RunTx kec E g gb (bd_ms bd) (sel_Tx picked) (sel_Sender picked) ctx = (ms, r)"
    by (cases "RunTx kec E g gb (bd_ms bd) (sel_Tx picked) (sel_Sender picked) ctx") auto
  show ?thesis
  proof (cases r)
    case (Inl e)
    then show ?thesis using assms run by (auto simp: build_tx_def build_inv_def split: if_splits)
  next
    case (Inr result)
    then obtain tx where tx: "chainTxFrom g gb (sel_Tx picked) (sel_Sender picked) = Inr tx"
      and bd': "bd' = \<lparr>bd_ms = ms,
        bd_receipts = bd_receipts bd @ [make_receipt kec (gt_Hash g (sel_Tx picked)) (bd_cumulative bd + er_GasUsed result) result],
        bd_executedTxs = bd_executedTxs bd @ [tx], bd_gethTxs = bd_gethTxs bd @ [sel_Tx picked],
        bd_cumulative = bd_cumulative bd + er_GasUsed result,
        bd_bloom = mergeBlooms (bd_bloom bd) (r_LogsBloom
          (make_receipt kec (gt_Hash g (sel_Tx picked)) (bd_cumulative bd + er_GasUsed result) result))\<rparr>"
      using assms(2) run by (auto simp: build_tx_def Let_def and_then_Inr_iff)
    show ?thesis using assms(1) unfolding bd' build_inv_def
      by (auto intro!: receipts_match_snoc make_receipt_bloom simp: chainTxFrom_hash [OF tx])
  qed
qed

lemma build_all_inv:
  assumes "each (build_tx kec E g gb ctx) ps \<lparr>bd_ms = ms, bd_receipts = [], bd_executedTxs = [], bd_gethTxs = [],
      bd_cumulative = 0, bd_bloom = 0\<rparr> = Inr bd"
  shows "build_inv kec g bd"
  by (rule each_invariant [OF build_tx_inv _ assms]) (simp_all add: build_inv_def receipts_match_def)

text \<open>A block that was built, taken apart.\<close>

lemma BuildBlock_ok:
  assumes "builder_BuildBlock kec g gb b c pool parent = (c', Inr built)"
  obtains m sess picked bd root m' s' where "c_mgr c = Some m" "Begin m (hd_StateRoot parent) = Inr sess"
    "Select g (bb_gasLimit b) pool = Inr picked"
    "each (build_tx kec (bb_evm b) g gb (exec_context b parent)) picked
       \<lparr>bd_ms = (m, sess), bd_receipts = [], bd_executedTxs = [], bd_gethTxs = [], bd_cumulative = 0, bd_bloom = 0\<rparr> = Inr bd"
    "Commit kec (bd_ms bd) = Inr (root, m', s')" "c' = c\<lparr>c_mgr := Some m'\<rparr>"
    "built = \<lparr>bt_Block = \<lparr>b_Header = build_header kec b (c_ChainID c) parent (exec_context b parent) bd root,
        b_Transactions = bd_executedTxs bd\<rparr>, bt_Receipts = bd_receipts bd, bt_GethTxs = bd_gethTxs bd\<rparr>"
  using assms that
  by (auto simp: builder_BuildBlock_def Let_def and_then_Inr_iff split: option.splits sum.splits prod.splits)

section \<open>Properties\<close>

lemma merge_all: "foldl mergeBlooms b (map r_LogsBloom rs) = foldl (\<lambda>bloom r. mergeBloom bloom (r_LogsBloom r)) b rs"
  by (induction rs arbitrary: b) (simp_all add: mergeBlooms_def mergeBloom_def)

lemma BuildBlock_inv_root:
  assumes "builder_BuildBlock kec g gb b c pool parent = (c', Inr built)"
  shows "fst (ComputeTxRoot kec (bt_Block built)) = h_TxRoot (b_Header (bt_Block built))"
  by (rule BuildBlock_ok [OF assms]) (simp add: build_header_def computeTxRoot_def ComputeTxRoot_def)

lemma BuildBlock_receipts:
  assumes "builder_BuildBlock kec g gb b c pool parent = (c', Inr built)"
  shows "receipts_match kec (b_Transactions (bt_Block built)) (bt_Receipts built)"
  by (rule BuildBlock_ok [OF assms]) (use build_all_inv in \<open>force simp: build_inv_def\<close>)

text \<open>
  C34: a built block accounts for its receipts. There is one receipt for each transaction, in order,
  naming its hash and carrying the bloom of its logs; the cumulative gas of a receipt is the gas of
  the receipts up to it; and the header has the transaction root, the receipt root, the bloom and
  the gas of exactly these transactions and receipts.
\<close>

theorem BuildBlock_accounts:
  assumes "builder_BuildBlock kec g gb b c pool parent = (c', Inr built)"
  shows "receipts_match kec (b_Transactions (bt_Block built)) (bt_Receipts built)
    \<and> h_TxRoot (b_Header (bt_Block built)) = fst (ComputeTxRoot kec (bt_Block built))
    \<and> h_ReceiptRoot (b_Header (bt_Block built)) = ComputeReceiptRoot kec (bt_Receipts built)
    \<and> h_LogsBloom (b_Header (bt_Block built)) = ComputeBlockLogsBloom (bt_Receipts built)
    \<and> h_GasUsed (b_Header (bt_Block built)) = gas_total (bt_Receipts built)"
proof -
  obtain m sess picked bd root m' s' where "each (build_tx kec (bb_evm b) g gb (exec_context b parent)) picked
       \<lparr>bd_ms = (m, sess), bd_receipts = [], bd_executedTxs = [], bd_gethTxs = [], bd_cumulative = 0, bd_bloom = 0\<rparr> = Inr bd"
    and built: "built = \<lparr>bt_Block = \<lparr>b_Header = build_header kec b (c_ChainID c) parent (exec_context b parent) bd root,
        b_Transactions = bd_executedTxs bd\<rparr>, bt_Receipts = bd_receipts bd, bt_GethTxs = bd_gethTxs bd\<rparr>"
    by (rule BuildBlock_ok [OF assms])
  from build_all_inv [OF this(1)] show ?thesis
    by (simp add: build_inv_def built build_header_def computeTxRoot_def ComputeTxRoot_def
        ComputeBlockLogsBloom_def merge_all)
qed

section \<open>The gas of a block\<close>

text \<open>The EVM uses at most the gas of the transaction.\<close>

definition evm_gas_ok :: "'t evm \<Rightarrow> 't geth \<Rightarrow> bool" where
  "evm_gas_ok E g \<longleftrightarrow>
     (\<forall>bc sender price t a a' r. ev_ApplyMessage E bc sender price t a = (a', Inr r) \<longrightarrow> mr_UsedGas r \<le> gt_Gas g t)"

lemma RunTx_gas:
  assumes "evm_gas_ok E g" "RunTx kec E g gb ms t sender ctx = (ms', Inr r)"
  shows "unat (er_GasUsed r) \<le> unat (gt_Gas g t)"
  using assms
  by (auto simp: RunTx_def Let_def evm_gas_ok_def and_then_Inr_iff word_le_nat_alt
      split: prod.splits if_splits option.splits sum.splits)

definition picked_gas :: "'t geth \<Rightarrow> 't SelectedTx list \<Rightarrow> nat" where
  "picked_gas g ps = (\<Sum>p\<leftarrow>ps. unat (gt_Gas g (sel_Tx p)))"

lemma picked_gas_sel: "picked_gas g (map sel es) = gas_sum g es"
  by (simp add: picked_gas_def gas_sum_def sel_def comp_def)

lemma build_tx_gas:
  assumes "evm_gas_ok E g" "build_tx kec E g gb ctx p bd = Inr bd'"
    "unat (bd_cumulative bd) + unat (gt_Gas g (sel_Tx p)) < 2 ^ 64"
  shows "unat (bd_cumulative bd') \<le> unat (bd_cumulative bd) + unat (gt_Gas g (sel_Tx p))"
proof -
  obtain ms r where run: "RunTx kec E g gb (bd_ms bd) (sel_Tx p) (sel_Sender p) ctx = (ms, r)"
    by (cases "RunTx kec E g gb (bd_ms bd) (sel_Tx p) (sel_Sender p) ctx") auto
  show ?thesis
  proof (cases r)
    case (Inl e)
    then show ?thesis using assms(2) run by (auto simp: build_tx_def split: if_splits)
  next
    case (Inr result)
    then have "bd_cumulative bd' = bd_cumulative bd + er_GasUsed result"
      using assms(2) run by (auto simp: build_tx_def Let_def and_then_Inr_iff)
    moreover have "unat (er_GasUsed result) \<le> unat (gt_Gas g (sel_Tx p))"
      using RunTx_gas [OF assms(1)] run Inr by blast
    ultimately show ?thesis using assms(3) by (simp add: unat_word_ariths)
  qed
qed

lemma build_all_gas:
  "evm_gas_ok E g \<Longrightarrow> each (build_tx kec E g gb ctx) ps bd = Inr bd' \<Longrightarrow>
   unat (bd_cumulative bd) + picked_gas g ps < 2 ^ 64 \<Longrightarrow>
   unat (bd_cumulative bd') \<le> unat (bd_cumulative bd) + picked_gas g ps"
proof (induction ps arbitrary: bd)
  case (Cons p ps)
  then obtain bd1 where bd1: "build_tx kec E g gb ctx p bd = Inr bd1" "each (build_tx kec E g gb ctx) ps bd1 = Inr bd'"
    by (auto simp: and_then_Inr_iff)
  have "unat (bd_cumulative bd1) \<le> unat (bd_cumulative bd) + unat (gt_Gas g (sel_Tx p))"
    using build_tx_gas [OF Cons.prems(1) bd1(1)] Cons.prems(3) by (simp add: picked_gas_def)
  moreover have "unat (bd_cumulative bd') \<le> unat (bd_cumulative bd1) + picked_gas g ps"
    using calculation Cons.prems(3) by (intro Cons.IH [OF Cons.prems(1) bd1(2)]) (simp add: picked_gas_def)
  ultimately show ?case by (simp add: picked_gas_def)
qed (simp add: picked_gas_def)

text \<open>
  C35: a built block stays within its gas limit. From a pool in order, with an EVM that uses no more gas
  than a transaction asks for, the gas used in the header is at most the gas limit in the header,
  where the limit and the pool's block gas limit do not overflow together.
\<close>

theorem BuildBlock_gas:
  assumes "builder_BuildBlock kec g gb b c pool parent = (c', Inr built)" "pool_ok g pool"
    "evm_gas_ok (bb_evm b) g" "unat (bb_gasLimit b) + unat (c_BlockGasLimit (p_cfg pool)) < 2 ^ 64"
  shows "h_GasUsed (b_Header (bt_Block built)) \<le> h_GasLimit (b_Header (bt_Block built))"
proof -
  obtain m sess picked bd root m' s' where sel: "Select g (bb_gasLimit b) pool = Inr picked"
    and run: "each (build_tx kec (bb_evm b) g gb (exec_context b parent)) picked
       \<lparr>bd_ms = (m, sess), bd_receipts = [], bd_executedTxs = [], bd_gethTxs = [], bd_cumulative = 0, bd_bloom = 0\<rparr> = Inr bd"
    and built: "built = \<lparr>bt_Block = \<lparr>b_Header = build_header kec b (c_ChainID c) parent (exec_context b parent) bd root,
        b_Transactions = bd_executedTxs bd\<rparr>, bt_Receipts = bd_receipts bd, bt_GethTxs = bd_gethTxs bd\<rparr>"
    by (rule BuildBlock_ok [OF assms(1)])
  obtain es where es: "Select g (bb_gasLimit b) pool = Inr (map sel es)" "picks g (bb_gasLimit b) (sender_chain pool) 0 es"
    using Select_picks [OF assms(2,4)] by blast
  then have lim: "picked_gas g picked \<le> unat (bb_gasLimit b)"
    using sel by (simp add: picks_def picked_gas_sel)
  then have "unat (bd_cumulative bd) \<le> picked_gas g picked"
    using build_all_gas [OF assms(3) run] unat_less_pow [of "bb_gasLimit b"] by simp
  then show ?thesis using lim by (simp add: built build_header_def word_le_nat_alt)
qed

section \<open>Appending what was built\<close>

text \<open>The encoding leaves the senders out, so they read back as zero.\<close>

lemma no_sender_Hash [simp]: "fst (tx_Hash kec (tx\<lparr>tx_From := x\<rparr>)) = fst (tx_Hash kec tx)"
  by (simp add: tx_Hash_def SigningPayload_def tx_type_prefix_def Let_def split: option.splits)

lemma cached_tx_Hash [simp]: "tx_HashCache tx \<noteq> None \<Longrightarrow> snd (tx_Hash kec tx) = tx"
  by (auto simp: tx_Hash_def)

lemma write_items_no_sender:
  "write_items tx_Encode (map (\<lambda>tx. tx\<lparr>tx_From := 0\<rparr>) txs) = write_items tx_Encode txs"
  by (induction txs) (simp_all split: sum.split)

lemma drop_senders_Encode [simp]: "block_Encode (drop_senders b) = block_Encode b"
  by (simp add: block_Encode_def encode_body_def drop_senders_def write_items_no_sender)

lemma cached_all:
  assumes "list_all (\<lambda>tx. tx_HashCache tx \<noteq> None) (b_Transactions b)"
  shows "cached kec b = b"
proof -
  have "map (\<lambda>tx. snd (tx_Hash kec tx)) (b_Transactions b) = b_Transactions b"
    using assms by (intro map_idI) (auto simp: list_all_iff)
  then show ?thesis by (simp add: cached_def ComputeTxRoot_def)
qed

lemma build_tx_cached:
  assumes "list_all (\<lambda>tx. tx_HashCache tx \<noteq> None) (bd_executedTxs bd)" "build_tx kec E g gb ctx p bd = Inr bd'"
  shows "list_all (\<lambda>tx. tx_HashCache tx \<noteq> None) (bd_executedTxs bd')"
  using assms
  by (auto simp: build_tx_def Let_def and_then_Inr_iff chainTxFrom_def res_map_Inr_iff
      split: prod.splits sum.splits if_splits)

lemma BuildBlock_cached:
  assumes "builder_BuildBlock kec g gb b c pool parent = (c', Inr built)"
  shows "list_all (\<lambda>tx. tx_HashCache tx \<noteq> None) (b_Transactions (bt_Block built))"
proof -
  obtain m sess picked bd root m' s' where run: "each (build_tx kec (bb_evm b) g gb (exec_context b parent)) picked
       \<lparr>bd_ms = (m, sess), bd_receipts = [], bd_executedTxs = [], bd_gethTxs = [], bd_cumulative = 0, bd_bloom = 0\<rparr> = Inr bd"
    and built: "built = \<lparr>bt_Block = \<lparr>b_Header = build_header kec b (c_ChainID c) parent (exec_context b parent) bd root,
        b_Transactions = bd_executedTxs bd\<rparr>, bt_Receipts = bd_receipts bd, bt_GethTxs = bd_gethTxs bd\<rparr>"
    by (rule BuildBlock_ok [OF assms])
  have "list_all (\<lambda>tx. tx_HashCache tx \<noteq> None) (bd_executedTxs bd)"
    by (rule each_invariant [OF build_tx_cached _ run]) simp_all
  then show ?thesis by (simp add: built)
qed

lemma Commit_opens:
  "Commit kec ms = Inr (root, m', s') \<Longrightarrow> is_ok (Begin m' root)"
  by (auto simp: Commit_def Let_def Begin_def split: if_splits prod.splits)

text \<open>A built block fits the head it was built on.\<close>

lemma BuildBlock_fits:
  assumes "builder_BuildBlock kec g gb b c pool (c_head c) = (c', Inr built)"
  obtains m where "c' = c\<lparr>c_mgr := Some m\<rparr>" "is_ok (Begin m (h_StateRoot (b_Header (bt_Block built))))"
    "h_Height (b_Header (bt_Block built)) = hd_Height (c_head c) + 1"
    "h_ChainID (b_Header (bt_Block built)) = c_ChainID c" "h_PrevHash (b_Header (bt_Block built)) = hd_Hash (c_head c)"
proof -
  obtain m sess picked bd root m' s' where com: "Commit kec (bd_ms bd) = Inr (root, m', s')"
    and c': "c' = c\<lparr>c_mgr := Some m'\<rparr>"
    and built: "built = \<lparr>bt_Block = \<lparr>b_Header = build_header kec b (c_ChainID c) (c_head c) (exec_context b (c_head c)) bd root,
        b_Transactions = bd_executedTxs bd\<rparr>, bt_Receipts = bd_receipts bd, bt_GethTxs = bd_gethTxs bd\<rparr>"
    by (rule BuildBlock_ok [OF assms])
  show thesis by (rule that [OF c']) (simp_all add: built build_header_def exec_context_def Commit_opens [OF com])
qed

lemma BuildBlock_next:
  assumes "represents kec c bs" "builder_BuildBlock kec g gb b c pool (c_head c) = (c1, Inr built)"
    "unat (hd_Height (c_head c)) < 2 ^ 64 - 1"
  shows "\<exists>m. c1 = c\<lparr>c_mgr := Some m\<rparr> \<and> is_ok (Begin m (h_StateRoot (b_Header (bt_Block built))))
    \<and> append_checks kec c1 (bt_Block built) = Inr ()
    \<and> GetBlock c1 (h_Height (b_Header (bt_Block built))) = Inl ErrNotFound"
proof -
  let ?b = "bt_Block built"
  obtain m where c1: "c1 = c\<lparr>c_mgr := Some m\<rparr>" "is_ok (Begin m (h_StateRoot (b_Header ?b)))"
    and fits: "h_Height (b_Header ?b) = hd_Height (c_head c) + 1" "h_ChainID (b_Header ?b) = c_ChainID c"
      "h_PrevHash (b_Header ?b) = hd_Hash (c_head c)"
    by (rule BuildBlock_fits [OF assms(2)])
  have "unat (h_Height (b_Header ?b)) = length bs"
    using assms(1) next_height [OF assms(3)] fits(1) by (simp add: represents_def)
  then have "mem_Get (c_store c) NSBlocks (blockKeyByHeight (h_Height (b_Header ?b))) = Inr None"
    using assms(1) unfolding represents_def by (metis less_irrefl)
  moreover have "HasGenesis c1" using assms(1) by (simp add: c1 represents_def HasGenesis_def)
  ultimately have "GetBlock c1 (h_Height (b_Header ?b)) = Inl ErrNotFound" by (simp add: GetBlock_def c1)
  then show ?thesis using c1 fits assms(1)
    by (intro exI [of _ m]) (simp add: append_checks_ok represents_def HasGenesis_def)
qed

lemma append_commit_mgr: "append_commit kec c blk rs = Inr c' \<Longrightarrow> c_mgr c' = c_mgr c"
  by (auto simp: append_commit_def Let_def and_then_Inr_iff split: sum.splits if_splits)

lemma represents_head: "represents kec c bs \<Longrightarrow> hd_StateRoot (c_head c) = h_StateRoot (b_Header (last bs))"
  by (simp add: represents_def)

text \<open>The same block with any receipts, as consensus appends it with none.\<close>

lemma append_built:
  assumes "represents kec c bs" "builder_BuildBlock kec g gb b c pool (c_head c) = (c1, Inr built)"
    "unat (hd_Height (c_head c)) < 2 ^ 64 - 1"
    "AppendBlock kec c1 (Some (bt_Block built)) rs = (c2, blk', r)"
  shows "if is_ok (block_Encode (bt_Block built)) \<and> list_all (\<lambda>x. is_ok (receipt_Encode kec x)) rs
    then r = Inr () \<and> represents kec c2 (bs @ [bt_Block built])
      \<and> (\<exists>m. c_mgr c2 = Some m \<and> is_ok (Begin m (hd_StateRoot (c_head c2))))
    else (\<exists>e. r = Inl e) \<and> c2 = c1"
proof -
  let ?b = "bt_Block built"
  obtain m where c1: "c1 = c\<lparr>c_mgr := Some m\<rparr>" "is_ok (Begin m (h_StateRoot (b_Header ?b)))"
    and ok: "append_checks kec c1 ?b = Inr ()"
    and nf: "GetBlock c1 (h_Height (b_Header ?b)) = Inl ErrNotFound"
    using BuildBlock_next [OF assms(1-3)] by blast
  have cach: "cached kec ?b = ?b" by (rule cached_all [OF BuildBlock_cached [OF assms(2)]])
  have app: "(c2, r) = (case append_commit kec c1 ?b rs of Inl e \<Rightarrow> (c1, Inl e) | Inr c' \<Rightarrow> (c', Inr ()))"
    using assms(4) ok BuildBlock_inv_root [OF assms(2)] cach
    by (auto simp: AppendBlock_def cached_def split: prod.splits sum.splits if_splits)
  have "mem_open (c_store c1)" using assms(1) by (simp add: c1 represents_def)
  note commits = append_commit_ok [OF this nf, of kec rs]
  have "represents kec c2 (bs @ [?b]) \<and> (\<exists>m. c_mgr c2 = Some m \<and> is_ok (Begin m (hd_StateRoot (c_head c2))))"
    if com: "append_commit kec c1 ?b rs = Inr c2"
  proof -
    have rep: "represents kec c2 (bs @ [?b])"
      using append_commit_represents [of kec c1 bs ?b] assms(1,3) ok com cach by (simp add: c1)
    then show ?thesis using represents_head [OF rep] append_commit_mgr [OF com] c1 by simp
  qed
  then show ?thesis using app commits by (cases "append_commit kec c1 ?b rs") auto
qed

lemma GetBlock_head:
  assumes "represents kec c (bs @ [b])"
  shows "GetBlock c (hd_Height (c_head c)) = readback b"
proof -
  have n: "unat (hd_Height (c_head c)) = length bs" using assms by (simp add: represents_def)
  then have "GetBlock c (hd_Height (c_head c)) = readback ((bs @ [b]) ! unat (hd_Height (c_head c)))"
    using assms unfolding represents_def by (metis length_append_singleton lessI)
  then show ?thesis by (simp add: n)
qed

lemma readback_readable:
  assumes "is_ok (block_Encode b)" "readable b"
  shows "readback b = Inr (stored (drop_senders b))"
  using assms DecodeBlock_readable [OF assms(2)] by (auto simp: readback_def stored_def is_ok_iff)

text \<open>
  C5: a chain accepts its own builder's blocks and can build on them. Below the last height of 64 bits, a
  block built on the head of a chain is appended unless it or one of its receipts cannot be encoded, and
  then the chain is as before. After the append the chain represents its blocks and the new one,
  and the state of the new head can be opened. The block at the new head reads back without its senders if
  the packed transactions have types 1 to 127, only the fee fields of their type, no zero recipient and at most
  \<open>MaxTxSize\<close> bytes; otherwise the chain may be unable to read it.
\<close>

theorem built_block_appends:
  assumes "represents kec c bs" "builder_BuildBlock kec g gb b c pool (c_head c) = (c1, Inr built)"
    "unat (hd_Height (c_head c)) < 2 ^ 64 - 1"
    "AppendBlock kec c1 (Some (bt_Block built)) (bt_Receipts built) = (c2, blk', r)"
  shows "if is_ok (block_Encode (bt_Block built)) \<and> list_all (\<lambda>x. is_ok (receipt_Encode kec x)) (bt_Receipts built)
    then r = Inr () \<and> represents kec c2 (bs @ [bt_Block built])
      \<and> (\<exists>m. c_mgr c2 = Some m \<and> is_ok (Begin m (hd_StateRoot (c_head c2))))
      \<and> (readable (bt_Block built) \<longrightarrow> GetBlock c2 (hd_Height (c_head c2)) = Inr (stored (drop_senders (bt_Block built))))
    else (\<exists>e. r = Inl e) \<and> c2 = c1"
  using append_built [OF assms] GetBlock_head readback_readable by (auto split: if_splits)

section \<open>Blocks that cannot be read back\<close>

lemma build_tx_types:
  assumes "list_all2 (\<lambda>t tx. \<exists>s. chainTxFrom g gb t s = Inr tx) (bd_gethTxs bd) (bd_executedTxs bd)"
    "build_tx kec E g gb ctx p bd = Inr bd'"
  shows "list_all2 (\<lambda>t tx. \<exists>s. chainTxFrom g gb t s = Inr tx) (bd_gethTxs bd') (bd_executedTxs bd')"
  using assms
  by (auto intro!: list_all2_appendI simp: build_tx_def Let_def and_then_Inr_iff split: prod.splits sum.splits if_splits)

lemma BuildBlock_converts:
  assumes "builder_BuildBlock kec g gb b c pool parent = (c', Inr built)"
  shows "list_all2 (\<lambda>t tx. \<exists>s. chainTxFrom g gb t s = Inr tx) (bt_GethTxs built) (b_Transactions (bt_Block built))"
proof -
  obtain m sess picked bd root m' s' where run: "each (build_tx kec (bb_evm b) g gb (exec_context b parent)) picked
       \<lparr>bd_ms = (m, sess), bd_receipts = [], bd_executedTxs = [], bd_gethTxs = [], bd_cumulative = 0, bd_bloom = 0\<rparr> = Inr bd"
    and built: "built = \<lparr>bt_Block = \<lparr>b_Header = build_header kec b (c_ChainID c) parent (exec_context b parent) bd root,
        b_Transactions = bd_executedTxs bd\<rparr>, bt_Receipts = bd_receipts bd, bt_GethTxs = bd_gethTxs bd\<rparr>"
    by (rule BuildBlock_ok [OF assms])
  have "list_all2 (\<lambda>t tx. \<exists>s. chainTxFrom g gb t s = Inr tx) (bd_gethTxs bd) (bd_executedTxs bd)"
    by (rule each_invariant [OF build_tx_types _ run]) simp_all
  then show ?thesis by (simp add: built)
qed

lemma unat_word_of_int_small: "0 \<le> i \<Longrightarrow> i < 2 ^ 56 \<Longrightarrow> unat (word_of_int i :: uint64) < 2 ^ 56"
  by (simp add: unat_eq_nat_uint uint_word_of_int nat_less_iff)

text \<open>
  one transaction of another type makes its block unreadable. \<open>chainTxFrom\<close> turns every transaction that
  is not a dynamic-fee one into a legacy one, whose encoding does not decode when it has call data; the
  chain appends the block all the same, and then has no readable block at its head.
\<close>

theorem legacy_block_unreadable:
  assumes "represents kec c bs" "unat (hd_Height (c_head c)) < 2 ^ 64 - 1"
    "builder_BuildBlock kec g gb b c pool (c_head c) = (c1, Inr built)"
    "t \<in> set (bt_GethTxs built)" "gt_Type g t \<noteq> DynamicFeeTxType" "gb_Data gb t \<noteq> []" "\<bar>gb_ChainId gb t\<bar> < 2 ^ 56"
    "AppendBlock kec c1 (Some (bt_Block built)) (bt_Receipts built) = (c2, blk', Inr ())"
  shows "hd_Height (c_head c2) = hd_Height (c_head c) + 1 \<and> (\<exists>e. GetBlock c2 (hd_Height (c_head c2)) = Inl e)"
proof -
  let ?b = "bt_Block built"
  obtain m where c1: "c1 = c\<lparr>c_mgr := Some m\<rparr>" and ok: "append_checks kec c1 ?b = Inr ()"
    and nf: "GetBlock c1 (h_Height (b_Header ?b)) = Inl ErrNotFound"
    using BuildBlock_next [OF assms(1,3,2)] by blast
  then have height: "h_Height (b_Header ?b) = hd_Height (c_head c) + 1" and gen: "HasGenesis c1"
    by (auto simp: append_checks_ok)
  have cach: "cached kec ?b = ?b" by (rule cached_all [OF BuildBlock_cached [OF assms(3)]])
  have com: "append_commit kec c1 ?b (bt_Receipts built) = Inr c2"
    using AppendBlock_ok [OF assms(8)] cach by simp
  obtain hash enc b3 st where enc: "block_Encode ?b = Inr enc" and st: "mem_Apply (c_store c1) b3 = Inr st"
    and c2: "c2 = c1\<lparr>c_store := st, c_head := \<lparr>hd_Height = h_Height (b_Header ?b), hd_Hash = hash,
      hd_StateRoot = h_StateRoot (b_Header ?b)\<rparr>\<rparr>"
    and e_gen: "batch_effect b3 NSMeta KeyGenesisHash = None"
    and e_blk: "\<And>h. batch_effect b3 NSBlocks (blockKeyByHeight h) = (if h = h_Height (b_Header ?b) then Some (Some enc) else None)"
    by (rule append_commit_effect [OF com nf]) (rule that, assumption+)
  obtain s tx where tx: "tx \<in> set (b_Transactions ?b)" "chainTxFrom g gb t s = Inr tx"
    using BuildBlock_converts [OF assms(3)] assms(4) by (force simp: list_all2_conv_all_nth in_set_conv_nth)
  then have fields: "tx_Type tx = 0" "tx_Data tx \<noteq> []" "tx_ChainID tx = big_Uint64 (gb_ChainId gb t)"
    using assms(5,6) by (auto simp: chainTxFrom_def Let_def res_map_Inr_iff TxTypeLegacy_def)
  have "unat (tx_ChainID tx) < 2 ^ 56"
    unfolding fields big_Uint64_def using assms(7) by (intro unat_word_of_int_small) simp_all
  from legacy_tx_undecodable [OF fields(1) this fields(2)]
  have "\<exists>e. DecodeBlock enc = Inl e"
    by (intro DecodeBlock_bad [OF enc tx(1)]) blast
  then show ?thesis
    using GetBlock_written [OF st gen e_gen] e_blk by (simp add: c2 height c1)
qed

section \<open>A sample\<close>

definition builder_sample :: "nat builder" where
  "builder_sample = NewBlockBuilder engine_sample (uint256_from_uint64 1000000000) 30000000"

lemma Select_sample:
  assumes "gt_Gas g 4 = 21000"
  shows "Select g 30000000 sample_pool = Inr [\<lparr>sel_Tx = 4, sel_Sender = 7\<rparr>]"
proof -
  let ?e = "new_entry geth_sample 4 7 (record_nonce 7 0 (pool_New DefaultConfig))"
  have txs: "sender_txs sample_pool 7 = fmupd 0 ?e fmempty"
    by (simp add: sample_pool_def sender_txs_cong [OF refresh_views(2)] sender_txs_insert)
      (simp add: sender_txs_def pool_New_Default geth_sample_def)
  have "account_nonce sample_pool 7 = 0"
    by (simp add: sample_pool_def account_nonce_def record_nonce_def pool_New_Default)
  then have chain: "sender_chain sample_pool 7 = [?e]"
    by (simp add: sender_chain_def chain_from_def txs fm_size_upd)
  have "sorted_keys (p_bySender sample_pool) = [7]"
    by (simp add: sample_pool_def insert_entry_def Let_def record_nonce_def pool_New_Default sorted_keys_def
        sorted_list_of_fset.rep_eq)
  then have "build_index sample_pool = [(7, \<lparr>sc_txs = [?e], sc_next = 0\<rparr>)]"
    using chain by (simp add: build_index_def sender_chain_def)
  then show ?thesis
    by (simp add: Select_def heapInit_def select_loop.simps heapPop_def Let_def fmlookup_of_list)
      (simp add: assms new_entry_def)
qed

definition tx_built :: transaction where
  "tx_built = \<lparr>tx_Type = 2, tx_ChainID = 7, tx_Nonce = 0, tx_MaxPriorityFeePerGas = 4000000000,
     tx_MaxFeePerGas = 4000000000, tx_GasPrice = 0, tx_GasLimit = 21000, tx_To = Some 9, tx_Value = 1,
     tx_Data = [], tx_Signature = bytes_word (replicate 31 0 @ [2] @ replicate 31 0 @ [3, 1]), tx_From = 7,
     tx_HashCache = Some 4\<rparr>"

lemma nat_bytes_small: "0 < n \<Longrightarrow> n < 256 \<Longrightarrow> nat_bytes n = [word_of_nat n]"
  by (simp add: nat_bytes.simps)

lemma from_big_fits: "0 \<le> v \<Longrightarrow> v < 2 ^ 256 \<Longrightarrow> uint256_from_big (Some v) = Inr (word_of_int v)"
  using uint256_from_big_Inr_iff [of v "word_of_int v"] to_big_word_of_int [of v] by simp

lemma set_from_big_ok: "0 \<le> v \<Longrightarrow> v < 2 ^ 256 \<Longrightarrow> set_from_big v = word_of_int v"
  by (simp add: set_from_big_def from_big_fits)

lemma chainTxFrom_sample: "chainTxFrom geth_sample body_sample 4 7 = Inr tx_built"
  by (simp add: chainTxFrom_def raw_signature_def copy_end_def geth_sample_def body_sample_def big_Bytes_def
      nat_bytes_small big_Uint64_def set_from_big_ok tx_built_def DynamicFeeTxType_def tx_types size_consts
      list_update_append nth_Cons')

lemma RunTx_sample:
  assumes "0 \<le> txEffectiveGasPrice g gb 4 1000000000" "txEffectiveGasPrice g gb 4 1000000000 < 2 ^ 256"
  shows "\<exists>r. RunTx kec engine_sample g gb ms 4 7 (exec_context builder_sample h) = (ms, Inr r)
    \<and> er_GasUsed r = 21000 \<and> er_Logs r = [] \<and> er_Success r"
  using assms
  by (simp add: RunTx_def exec_context_def builder_sample_def NewBlockBuilder_def engine_sample_def big_sample_def
      mustUint256_def Let_def Prepare_ms Prepare_logs NewStateDBAdapter_def from_big_fits)

lemma Begin_empty: "\<exists>s. Begin m 0 = Inr s \<and> \<not> se_done s"
  by (simp add: Begin_def hash_is_zero_def split: option.split)

text \<open>Built on any chain with a state manager, whose parent has the empty state.\<close>

definition sample_receipt :: "keccak \<Rightarrow> receipt \<Rightarrow> bool" where
  "sample_receipt kec r \<longleftrightarrow> r_Logs r = [] \<and> r_Status r = 1 \<and> r_LogsBloom r = ComputeLogsBloom kec r"

lemma sample_make_receipt:
  assumes "er_Logs x = []" "er_Success x"
  shows "sample_receipt kec (make_receipt kec h cum x)"
proof -
  have "r_Status (make_receipt kec h cum x) = 1" using assms(2) by (simp add: make_receipt_def statusOf_def Let_def)
  then show ?thesis using assms(1) by (simp add: sample_receipt_def make_receipt_bloom)
qed

lemma build_sample:
  assumes "c_mgr c = Some m" "hd_StateRoot h = 0" "gt_Gas g 4 = 21000" "chainTxFrom g gb 4 7 = Inr tx"
    "0 \<le> txEffectiveGasPrice g gb 4 1000000000" "txEffectiveGasPrice g gb 4 1000000000 < 2 ^ 256"
  obtains c' built r where "builder_BuildBlock kec g gb builder_sample c sample_pool h = (c', Inr built)"
    "b_Transactions (bt_Block built) = [tx]" "bt_GethTxs built = [4]" "bt_Receipts built = [r]" "sample_receipt kec r"
    "h_ExtraData (b_Header (bt_Block built)) = []"
proof -
  obtain s where s: "Begin m 0 = Inr s" "\<not> se_done s" using Begin_empty by blast
  obtain r where r: "RunTx kec engine_sample g gb (m, s) 4 7 (exec_context builder_sample h) = ((m, s), Inr r)"
    "er_Logs r = []" "er_Success r"
    using RunTx_sample [OF assms(5,6)] by blast
  have b: "bb_gasLimit builder_sample = 30000000" "bb_evm builder_sample = engine_sample"
    by (simp_all add: builder_sample_def NewBlockBuilder_def)
  obtain root m' s' where com: "Commit kec (m, s) = Inr (root, m', s')"
    using s(2) by (simp add: Commit_def Let_def)
  define bd where "bd = \<lparr>bd_ms = (m, s), bd_receipts = [make_receipt kec (gt_Hash g 4) (er_GasUsed r) r],
    bd_executedTxs = [tx], bd_gethTxs = [4 :: nat], bd_cumulative = er_GasUsed r,
    bd_bloom = mergeBlooms 0 (r_LogsBloom (make_receipt kec (gt_Hash g 4) (er_GasUsed r) r))\<rparr>"
  have sel: "Select g 30000000 sample_pool = Inr [\<lparr>sel_Tx = 4, sel_Sender = 7\<rparr>]"
    by (rule Select_sample [OF assms(3)])
  have "builder_BuildBlock kec g gb builder_sample c sample_pool h = (c\<lparr>c_mgr := Some m'\<rparr>, Inr
     \<lparr>bt_Block = \<lparr>b_Header = build_header kec builder_sample (c_ChainID c) h (exec_context builder_sample h) bd root,
        b_Transactions = [tx]\<rparr>,
      bt_Receipts = [make_receipt kec (gt_Hash g 4) (er_GasUsed r) r], bt_GethTxs = [4]\<rparr>)"
    by (simp add: builder_BuildBlock_def assms(1,2,4) s(1) b sel build_tx_def r(1) Let_def com bd_def)
  from that [OF this] show thesis
    using sample_make_receipt [OF r(2,3)] by (simp add: build_header_def)
qed

lemma effective_sample:
  "0 \<le> txEffectiveGasPrice geth_sample body_sample 4 1000000000"
  "txEffectiveGasPrice geth_sample body_sample 4 1000000000 < 2 ^ 256" "gt_Gas geth_sample 4 = 21000"
  by (simp_all add: txEffectiveGasPrice_def geth_sample_def)

lemmas build_sample_1559 = build_sample [OF _ _ effective_sample(3) chainTxFrom_sample effective_sample(1,2)]

lemma init_sample_full:
  obtains c1 m b where "represents k0 c1 [b]" "c_mgr c1 = Some m" "c_head c1 = \<lparr>hd_Height = 0, hd_Hash = 0, hd_StateRoot = 0\<rparr>"
    "\<forall>h i. GetReceipt c1 h i = Inl ErrNotFound"
proof -
  obtain c1 where c1: "InitGenesis k0 chain_sample genesis_min = (c1, Inr ())"
    "c_head c1 = \<lparr>hd_Height = 0, hd_Hash = 0, hd_StateRoot = 0\<rparr>"
    using init_sample by blast
  have st: "c_store chain_sample = NewMemory" by (simp add: chain_sample_def)
  obtain b where "represents k0 c1 [b]" using InitGenesis_represents [OF c1(1) st] by blast
  moreover have "c_mgr c1 \<noteq> None" by (rule InitGenesis_fresh [OF c1(1) st]) simp
  ultimately show thesis using that c1(2) InitGenesis_no_receipts [OF c1(1) st] by blast
qed

lemma init_sample_mgr:
  obtains c1 m b where "represents k0 c1 [b]" "c_mgr c1 = Some m" "c_head c1 = \<lparr>hd_Height = 0, hd_Hash = 0, hd_StateRoot = 0\<rparr>"
  by (rule init_sample_full) (rule that)

theorem BuildBlock_accounts_witness:
  "\<exists>c' built. builder_BuildBlock k0 geth_sample body_sample builder_sample (chain_sample\<lparr>c_mgr := Some NewMemoryManager\<rparr>)
      sample_pool empty_head = (c', Inr built) \<and> length (bt_Receipts built) = 1
    \<and> h_GasUsed (b_Header (bt_Block built)) = r_GasUsed (bt_Receipts built ! 0)"
proof -
  obtain c' built where b: "builder_BuildBlock k0 geth_sample body_sample builder_sample
      (chain_sample\<lparr>c_mgr := Some NewMemoryManager\<rparr>) sample_pool empty_head = (c', Inr built)"
    "b_Transactions (bt_Block built) = [tx_built]"
    by (rule build_sample_1559 [of "chain_sample\<lparr>c_mgr := Some NewMemoryManager\<rparr>" NewMemoryManager empty_head k0])
      (simp_all add: empty_head_def)
  from BuildBlock_accounts [OF b(1)] show ?thesis
    using b by (auto simp: receipts_match_def length_Suc_conv)
qed

lemma engine_sample_gas: "evm_gas_ok engine_sample geth_sample"
  by (simp add: evm_gas_ok_def engine_sample_def geth_sample_def)

theorem BuildBlock_gas_witness:
  "\<exists>c' built. builder_BuildBlock k0 geth_sample body_sample builder_sample (chain_sample\<lparr>c_mgr := Some NewMemoryManager\<rparr>)
      sample_pool empty_head = (c', Inr built) \<and> h_GasUsed (b_Header (bt_Block built)) \<le> h_GasLimit (b_Header (bt_Block built))"
proof -
  obtain c' built where b: "builder_BuildBlock k0 geth_sample body_sample builder_sample
      (chain_sample\<lparr>c_mgr := Some NewMemoryManager\<rparr>) sample_pool empty_head = (c', Inr built)"
    by (rule build_sample_1559 [of "chain_sample\<lparr>c_mgr := Some NewMemoryManager\<rparr>" NewMemoryManager empty_head k0])
      (simp_all add: empty_head_def)
  have "h_GasUsed (b_Header (bt_Block built)) \<le> h_GasLimit (b_Header (bt_Block built))"
    by (rule BuildBlock_gas [OF b sample_pool_ok])
      (simp_all add: builder_sample_def NewBlockBuilder_def engine_sample_gas sample_pool_def pool_New_Default)
  then show ?thesis using b by blast
qed

lemma sample_receipt_Encode: "sample_receipt kec r \<Longrightarrow> is_ok (receipt_Encode kec r)"
  by (simp add: sample_receipt_def receipt_Encode_def)

lemma sample_receipt_ok: "sample_receipt kec r \<Longrightarrow> receipt_ok kec r"
  by (simp add: sample_receipt_def receipt_ok_def receipt_Encode_def size_consts split: option.split)

theorem built_block_appends_witness:
  "\<exists>c b c1 built c2 blk'. represents k0 c [b]
    \<and> builder_BuildBlock k0 geth_sample body_sample builder_sample c sample_pool (c_head c) = (c1, Inr built)
    \<and> AppendBlock k0 c1 (Some (bt_Block built)) (bt_Receipts built) = (c2, blk', Inr ())
    \<and> represents k0 c2 [b, bt_Block built] \<and> GetBlock c2 1 = Inr (stored (drop_senders (bt_Block built)))"
proof -
  obtain c m b where c: "represents k0 c [b]" "c_mgr c = Some m" "c_head c = \<lparr>hd_Height = 0, hd_Hash = 0, hd_StateRoot = 0\<rparr>"
    by (rule init_sample_mgr)
  obtain c1 built x where b: "builder_BuildBlock k0 geth_sample body_sample builder_sample c sample_pool (c_head c) = (c1, Inr built)"
    "b_Transactions (bt_Block built) = [tx_built]" "bt_Receipts built = [x]" "sample_receipt k0 x"
    "h_ExtraData (b_Header (bt_Block built)) = []"
    by (rule build_sample_1559 [OF c(2), of "c_head c" k0]) (simp_all add: c(3))
  obtain c2 blk' r where a: "AppendBlock k0 c1 (Some (bt_Block built)) (bt_Receipts built) = (c2, blk', r)"
    using prod_cases3 by blast
  have "tx_ok (tx_built\<lparr>tx_From := 0\<rparr>)" and e: "\<exists>enc. tx_Encode tx_built = Inr enc \<and> length enc \<le> 1000"
    by (simp_all add: tx_ok_def tx_built_def tx_Encode_def fees_ok_def tx_types tx_type_prefix_def
        SigningPayload_def size_consts)
  then have "readable (bt_Block built)" using b(2) by (simp add: readable_def)
  with built_block_appends [OF c(1) b(1) _ a]
  have r: "r = Inr () \<and> represents k0 c2 ([b] @ [bt_Block built]) \<and>
      GetBlock c2 (hd_Height (c_head c2)) = Inr (stored (drop_senders (bt_Block built)))"
    using e one_tx_Encode [OF b(5,2)] sample_receipt_Encode [OF b(4)] by (auto simp: c(3) b(3))
  then have "hd_Height (c_head c2) = 1" by (intro unat_eqI) (simp add: represents_def)
  then show ?thesis using c(1) b(1) a r by (intro exI conjI) auto
qed

text \<open>The same transaction as a legacy one, with call data.\<close>

definition old_geth :: "nat geth" where "old_geth = geth_sample\<lparr>gt_Type := \<lambda>_. 0\<rparr>"
definition old_body :: "nat geth_body" where "old_body = body_sample\<lparr>gb_Data := \<lambda>_. [1]\<rparr>"
definition tx_old :: transaction where
  "tx_old = tx_built\<lparr>tx_Type := 0, tx_MaxPriorityFeePerGas := 0, tx_MaxFeePerGas := 0, tx_GasPrice := 10, tx_Data := [1]\<rparr>"

lemma chainTxFrom_old: "chainTxFrom old_geth old_body 4 7 = Inr tx_old"
  by (simp add: chainTxFrom_def raw_signature_def copy_end_def old_geth_def old_body_def geth_sample_def body_sample_def
      big_Bytes_def nat_bytes_small big_Uint64_def set_from_big_ok tx_old_def tx_built_def DynamicFeeTxType_def tx_types
      size_consts list_update_append nth_Cons')

lemma effective_old: "0 \<le> txEffectiveGasPrice old_geth old_body 4 1000000000"
  "txEffectiveGasPrice old_geth old_body 4 1000000000 < 2 ^ 256" "gt_Gas old_geth 4 = 21000"
  by (simp_all add: txEffectiveGasPrice_def old_geth_def old_body_def geth_sample_def body_sample_def)

theorem legacy_block_unreadable_witness:
  "\<exists>c b c1 built c2 blk' e. represents k0 c [b]
    \<and> builder_BuildBlock k0 old_geth old_body builder_sample c sample_pool (c_head c) = (c1, Inr built)
    \<and> AppendBlock k0 c1 (Some (bt_Block built)) (bt_Receipts built) = (c2, blk', Inr ())
    \<and> hd_Height (c_head c2) = 1 \<and> GetBlock c2 1 = Inl e"
proof -
  obtain c m b where c: "represents k0 c [b]" "c_mgr c = Some m" "c_head c = \<lparr>hd_Height = 0, hd_Hash = 0, hd_StateRoot = 0\<rparr>"
    by (rule init_sample_mgr)
  obtain c1 built x where b: "builder_BuildBlock k0 old_geth old_body builder_sample c sample_pool (c_head c) = (c1, Inr built)"
    "b_Transactions (bt_Block built) = [tx_old]" "bt_GethTxs built = [4]" "bt_Receipts built = [x]" "sample_receipt k0 x"
    "h_ExtraData (b_Header (bt_Block built)) = []"
    by (rule build_sample [OF c(2) _ effective_old(3) chainTxFrom_old effective_old(1,2), of "c_head c" k0])
      (simp_all add: c(3))
  have room: "unat (hd_Height (c_head c)) < 2 ^ 64 - 1" by (simp add: c(3))
  obtain m' where c1: "c1 = c\<lparr>c_mgr := Some m'\<rparr>" and ok: "append_checks k0 c1 (bt_Block built) = Inr ()"
    and nf: "GetBlock c1 (h_Height (b_Header (bt_Block built))) = Inl ErrNotFound"
    using BuildBlock_next [OF c(1) b(1) room] by blast
  have e: "\<exists>enc. tx_Encode tx_old = Inr enc \<and> length enc \<le> 1000"
    by (simp add: tx_old_def tx_built_def tx_Encode_def tx_types tx_type_prefix_def SigningPayload_def size_consts)
  have op: "mem_open (c_store c1)" using c(1) by (simp add: c1 represents_def)
  have "is_ok (block_Encode (bt_Block built))" using e one_tx_Encode [OF b(6,2)] by blast
  then obtain c2 where "append_commit k0 c1 (bt_Block built) (bt_Receipts built) = Inr c2"
    using append_commit_ok [OF op nf, of k0 "bt_Receipts built"] sample_receipt_Encode [OF b(5)] by (auto simp: b(4))
  then have a: "AppendBlock k0 c1 (Some (bt_Block built)) (bt_Receipts built) = (c2, Some (bt_Block built), Inr ())"
    using ok BuildBlock_inv_root [OF b(1)] cached_all [OF BuildBlock_cached [OF b(1)], of k0]
    by (auto simp: AppendBlock_def cached_def split: prod.splits)
  have h: "4 \<in> set (bt_GethTxs built)" "gt_Type old_geth 4 \<noteq> DynamicFeeTxType" "gb_Data old_body 4 \<noteq> []"
    "\<bar>gb_ChainId old_body 4\<bar> < 2 ^ 56"
    by (simp_all add: b(3) old_geth_def DynamicFeeTxType_def old_body_def body_sample_def)
  note bad = legacy_block_unreadable [OF c(1) room b(1) h a]
  have "hd_Height (c_head c2) = 1" using bad by (simp add: c(3))
  moreover obtain e where "GetBlock c2 (hd_Height (c_head c2)) = Inl e" using bad by blast
  ultimately have "hd_Height (c_head c2) = 1" "GetBlock c2 1 = Inl e" by simp_all
  then show ?thesis using c(1) b(1) a by blast
qed

section \<open>Transactions that are left out\<close>

text \<open>An EVM that charges the sender for the gas and then rejects the transaction.\<close>

definition charging_apply :: "block_context \<Rightarrow> address \<Rightarrow> uint256 \<Rightarrow> nat \<Rightarrow> evm_log adapter \<Rightarrow>
    evm_log adapter \<times> message_result res" where
  "charging_apply bc sender price t a =
     (case on_session (SetBalance sender 0) a of
        Inl e \<Rightarrow> (a, Inl e) | Inr a' \<Rightarrow> (a', Inl (ErrOther ''intrinsic gas too low'')))"

definition charged_mgr :: manager where
  "charged_mgr = NewMemoryManager\<lparr>mg_states := fmupd 1 (fmupd 7 (empty_account\<lparr>acc_Balance := 50\<rparr>) fmempty) fmempty\<rparr>"

definition charged_parent :: head where
  "charged_parent = \<lparr>hd_Height = 3, hd_Hash = 2, hd_StateRoot = 1\<rparr>"

definition charging_builder :: "nat builder" where
  "charging_builder = builder_sample\<lparr>bb_evm := engine_sample\<lparr>ev_ApplyMessage := charging_apply\<rparr>\<rparr>"

text \<open>
  a transaction that is left out still changes the state. \<open>BuildBlock\<close> skips a transaction whose
  execution fails, but does not go back to before it: there are an EVM, a pool and a state such that
  the block has no transaction and no receipt, and the sender's 50 are gone from the state it commits to.
\<close>

theorem skipped_tx_keeps_effects:
  "\<exists>c' built m s s'. builder_BuildBlock kec geth_sample body_sample charging_builder
       (chain_sample\<lparr>c_mgr := Some charged_mgr\<rparr>) sample_pool charged_parent = (c', Inr built)
    \<and> b_Transactions (bt_Block built) = [] \<and> bt_Receipts built = [] \<and> h_GasUsed (b_Header (bt_Block built)) = 0
    \<and> Begin charged_mgr (hd_StateRoot charged_parent) = Inr s \<and> res_map acc_Balance (GetAccount s 7) = Inr 50
    \<and> c_mgr c' = Some m \<and> Begin m (h_StateRoot (b_Header (bt_Block built))) = Inr s'
    \<and> res_map acc_Balance (GetAccount s' 7) = Inr 0"
proof -
  let ?acc = "empty_account\<lparr>acc_Balance := 50\<rparr>"
  obtain s where s: "Begin charged_mgr 1 = Inr s" "se_accounts s = fmupd 7 ?acc fmempty" "\<not> se_done s"
    by (simp add: Begin_def charged_mgr_def hash_is_zero_def)
  obtain s2 where s2: "SetBalance 7 0 s = Inr s2" "se_accounts s2 = fmupd 7 (?acc\<lparr>acc_Balance := 0\<rparr>) (se_accounts s)"
    "\<not> se_done s2"
    using s by (simp add: SetBalance_def update_account_def recordAccount_def ensureAccount_def)
  have b: "bb_gasLimit charging_builder = 30000000" "bb_evm charging_builder = engine_sample\<lparr>ev_ApplyMessage := charging_apply\<rparr>"
    by (simp_all add: charging_builder_def builder_sample_def NewBlockBuilder_def)
  have run: "RunTx kec (bb_evm charging_builder) geth_sample body_sample (charged_mgr, s) 4 7
      (exec_context charging_builder charged_parent) = ((charged_mgr, s2), Inl (ErrOther ''apply''))"
    using effective_sample s2(1)
    by (simp add: RunTx_def b exec_context_def charging_builder_def builder_sample_def NewBlockBuilder_def engine_sample_def
      big_sample_def Let_def charging_apply_def on_session_def NewStateDBAdapter_def)
  define root where "root = state_root kec (se_accounts s2) (se_storage s2)"
  define m where "m = charged_mgr\<lparr>mg_states := fmupd root (se_accounts s2) (mg_states charged_mgr),
     mg_storageStates := fmupd root (se_storage s2) (mg_storageStates charged_mgr)\<rparr>"
  define bd where "bd = \<lparr>bd_ms = (charged_mgr, s2), bd_receipts = [], bd_executedTxs = [], bd_gethTxs = [] :: nat list,
    bd_cumulative = 0, bd_bloom = 0\<rparr>"
  have com: "Commit kec (charged_mgr, s2) = Inr (root, m, s2\<lparr>se_done := True\<rparr>)"
    using s2(3) by (simp add: Commit_def Let_def root_def m_def)
  have r1: "hd_StateRoot charged_parent = 1" by (simp add: charged_parent_def)
  have built: "builder_BuildBlock kec geth_sample body_sample charging_builder
       (chain_sample\<lparr>c_mgr := Some charged_mgr\<rparr>) sample_pool charged_parent =
     (chain_sample\<lparr>c_mgr := Some m\<rparr>, Inr \<lparr>bt_Block = \<lparr>b_Header = build_header kec charging_builder 7 charged_parent
         (exec_context charging_builder charged_parent) bd root, b_Transactions = []\<rparr>, bt_Receipts = [], bt_GethTxs = []\<rparr>)"
    by (simp add: builder_BuildBlock_def r1 s(1) b(1) Select_sample [OF effective_sample(3)] build_tx_def run Let_def com bd_def)
      (simp add: chain_sample_def)
  obtain s' where s': "Begin m root = Inr s'" "se_accounts s' = se_accounts s2"
    by (simp add: Begin_def m_def)
  show ?thesis
    by (rule exI, rule exI, rule exI [of _ m], rule exI [of _ s], rule exI [of _ s'], intro conjI, rule built)
      (simp_all add: r1 s s' s2 GetAccount_def build_header_def bd_def)
qed

section \<open>Signatures\<close>

lemma length_nat_bytes_le: "length (nat_bytes v) \<le> n \<longleftrightarrow> v < 256 ^ n"
proof (induction v arbitrary: n rule: nat_bytes.induct)
  case (1 v)
  show ?case
  proof (cases "v = 0 \<or> n = 0")
    case True
    then show ?thesis by (auto simp: nat_bytes.simps [of v])
  next
    case False
    then obtain k where k: "n = Suc k" by (cases n) auto
    have "v div 256 < 256 ^ k \<longleftrightarrow> v < 256 ^ n" by (simp add: k less_mult_imp_div_less div_less_iff_less_mult mult.commute)
    then show ?thesis using "1.IH" [of k] False by (simp add: nat_bytes.simps [of v] k)
  qed
qed

lemma copy_end_ok: "(\<exists>a'. copy_end hi (big_Bytes x) a = Inr a') \<longleftrightarrow> nat \<bar>x\<bar> < 256 ^ hi"
  by (simp add: copy_end_def big_Bytes_def flip: length_nat_bytes_le)

lemma be_val_pad: "be_val (replicate n 0 @ bs) = be_val bs"
  by (induction n) (simp_all add: be_val_Cons)

text \<open>The signature of a converted transaction: 32 bytes of \<open>r\<close>, 32 of \<open>s\<close> and one of \<open>v\<close>.\<close>

lemma raw_signature_fits:
  assumes "nat \<bar>r\<bar> < 256 ^ 32" "nat \<bar>s\<bar> < 256 ^ 32"
  shows "\<exists>sig. raw_signature (Some v) (Some r) (Some s) = Inr sig \<and> be_val (take 32 (word_bytes sig)) = nat \<bar>r\<bar>
    \<and> be_val (take 32 (drop 32 (word_bytes sig))) = nat \<bar>s\<bar> \<and> word_bytes sig ! 64 = ucast (big_Uint64 v)"
proof -
  let ?r = "big_Bytes r" and ?s = "big_Bytes s"
  have l: "length ?r \<le> 32" "length ?s \<le> 32" using assms by (simp_all add: big_Bytes_def length_nat_bytes_le)
  define bs where "bs = (replicate (32 - length ?r) 0 @ ?r) @ (replicate (32 - length ?s) 0 @ ?s) @ [ucast (big_Uint64 v)]"
  have c1: "copy_end 32 ?r (replicate SignatureLen 0) = Inr (replicate (32 - length ?r) 0 @ ?r @ replicate 33 0)"
    using l by (simp add: copy_end_def size_consts min_def)
  have c2: "copy_end 64 ?s (replicate (32 - length ?r) 0 @ ?r @ replicate 33 0) =
      Inr ((replicate (32 - length ?r) 0 @ ?r) @ (replicate (32 - length ?s) 0 @ ?s) @ [0])"
    using l by (simp add: copy_end_def min_def) arith
  have "raw_signature (Some v) (Some r) (Some s) = Inr (bytes_word bs)"
    using l by (auto simp: raw_signature_def c1 c2 bs_def list_update_append)
  moreover have "word_bytes (bytes_word bs :: signature) = bs"
    using l by (simp add: word_bytes_bytes_word bs_def)
  ultimately show ?thesis using l
    by (auto simp: bs_def be_val_pad big_Bytes_def nth_append)
qed

lemma raw_signature_panics:
  "raw_signature (Some v) (Some r) (Some s) = Inl GoPanic \<longleftrightarrow>
    \<not> (length (big_Bytes r) \<le> 32 \<and> length (big_Bytes s) \<le> 64)"
  by (auto simp: raw_signature_def copy_end_def and_then_Inl_iff)

text \<open>
  a converted transaction keeps its signature. The conversion of a signed transaction panics exactly when
  \<open>r\<close> does not fit 256 bits or \<open>s\<close> does not fit 512; when both fit 256 bits, the 65 bytes of the block's
  transaction read back as \<open>r\<close>, \<open>s\<close> and the low byte of \<open>v\<close>.
\<close>

theorem chainTxFrom_signature:
  assumes "gb_R gb t = Some r" "gb_S gb t = Some s" "gb_V gb t = Some v"
  shows "(chainTxFrom g gb t sender = Inl GoPanic \<longleftrightarrow> \<not> (nat \<bar>r\<bar> < 256 ^ 32 \<and> nat \<bar>s\<bar> < 256 ^ 64))
    \<and> (nat \<bar>r\<bar> < 256 ^ 32 \<and> nat \<bar>s\<bar> < 256 ^ 32 \<longrightarrow>
        (\<exists>tx. chainTxFrom g gb t sender = Inr tx
          \<and> be_val (take 32 (word_bytes (tx_Signature tx))) = nat \<bar>r\<bar>
          \<and> be_val (take 32 (drop 32 (word_bytes (tx_Signature tx)))) = nat \<bar>s\<bar>
          \<and> word_bytes (tx_Signature tx) ! 64 = ucast (big_Uint64 v)))"
proof
  show "chainTxFrom g gb t sender = Inl GoPanic \<longleftrightarrow> \<not> (nat \<bar>r\<bar> < 256 ^ 32 \<and> nat \<bar>s\<bar> < 256 ^ 64)"
    unfolding length_nat_bytes_le [symmetric] big_Bytes_def [symmetric] raw_signature_panics [of v, symmetric]
    by (cases "raw_signature (Some v) (Some r) (Some s)") (simp_all add: chainTxFrom_def assms Let_def)
  have "\<exists>tx. chainTxFrom g gb t sender = Inr tx \<and> be_val (take 32 (word_bytes (tx_Signature tx))) = nat \<bar>r\<bar>
          \<and> be_val (take 32 (drop 32 (word_bytes (tx_Signature tx)))) = nat \<bar>s\<bar>
          \<and> word_bytes (tx_Signature tx) ! 64 = ucast (big_Uint64 v)"
    if fits: "nat \<bar>r\<bar> < 256 ^ 32" "nat \<bar>s\<bar> < 256 ^ 32"
  proof -
    obtain sig where "raw_signature (Some v) (Some r) (Some s) = Inr sig"
      "be_val (take 32 (word_bytes sig)) = nat \<bar>r\<bar>" "be_val (take 32 (drop 32 (word_bytes sig))) = nat \<bar>s\<bar>"
      "word_bytes sig ! 64 = ucast (big_Uint64 v)"
      using raw_signature_fits [OF fits] by blast
    then show ?thesis by (simp add: chainTxFrom_def assms Let_def)
  qed
  then show "nat \<bar>r\<bar> < 256 ^ 32 \<and> nat \<bar>s\<bar> < 256 ^ 32 \<longrightarrow>
        (\<exists>tx. chainTxFrom g gb t sender = Inr tx
          \<and> be_val (take 32 (word_bytes (tx_Signature tx))) = nat \<bar>r\<bar>
          \<and> be_val (take 32 (drop 32 (word_bytes (tx_Signature tx)))) = nat \<bar>s\<bar>
          \<and> word_bytes (tx_Signature tx) ! 64 = ucast (big_Uint64 v))"
    by blast
qed

theorem chainTxFrom_signature_witness:
  "chainTxFrom geth_sample (body_sample\<lparr>gb_R := \<lambda>_. Some (2 ^ 256)\<rparr>) 4 7 = Inl GoPanic
   \<and> (\<exists>tx. chainTxFrom geth_sample body_sample 4 7 = Inr tx \<and> be_val (take 32 (drop 32 (word_bytes (tx_Signature tx)))) = 3)"
  using chainTxFrom_signature [of "body_sample\<lparr>gb_R := \<lambda>_. Some (2 ^ 256)\<rparr>" 4 "2 ^ 256" 3 1 geth_sample 7]
    chainTxFrom_signature [of body_sample 4 2 3 1 geth_sample 7]
  by (auto simp: body_sample_def)

end
