(* ===== verification/NodeConfig.thy ===== *)
theory NodeConfig
  imports Genesis
begin

text \<open>
  The configuration of a node: the structures, defaults and validation of \<open>node/config.go\<close>, and the
  number and address parsers of \<open>node/node.go\<close> and \<open>node/consensus.go\<close> that read its strings.
  Reading and writing YAML files is not modelled. Go's \<open>int\<close> is \<open>int\<close>; a string is the list of its
  bytes, and a byte above 127 is not a digit, as the rune it belongs to is not.
\<close>

section \<open>The structures\<close>

record chain_config =
  cc_Name :: string
  cc_ChainID :: string
  cc_NetworkType :: string
  cc_Genesis :: string

record consensus_section =
  cn_Protocol :: string
  cn_ValidatorSet :: string
  cn_BlockTimeMs :: int
  cn_TimeoutProposeMs :: int
  cn_TimeoutPrevoteMs :: int
  cn_TimeoutPrecommitMs :: int
  cn_DeltaIncrementMs :: int
  cn_EpochLength :: int
  cn_MaxValidators :: int
  cn_Validators :: "string list"
  cn_KeySeed :: int

record execution_config =
  ec_Engine :: string
  ec_BlockGasLimit :: string

record storage_config =
  sc_DataDir :: string
  sc_Backend :: string

record network_config =
  nc_Listen :: "string list"
  nc_Bootstrap :: "string list"
  nc_PrivateNetworkPSK :: string
  nc_MaxPeers :: int
  nc_EnableDHT :: bool

record rpc_config =
  rc_HTTP_Enabled :: bool
  rc_HTTP_Port :: int
  rc_HTTP_Modules :: "string list"
  rc_Metrics_Enabled :: bool
  rc_Metrics_Port :: int

record node_config =
  nf_Chain :: chain_config
  nf_Consensus :: consensus_section
  nf_Execution :: execution_config
  nf_Storage :: storage_config
  nf_Network :: network_config
  nf_RPC :: rpc_config

definition config_default :: node_config where
  "config_default = \<lparr>
     nf_Chain = \<lparr>cc_Name = ''chfault-dev'', cc_ChainID = ''10086'', cc_NetworkType = ''consortium'',
       cc_Genesis = ''genesis.json''\<rparr>,
     nf_Consensus = \<lparr>cn_Protocol = ''tendermint-bft'', cn_ValidatorSet = ''poa'', cn_BlockTimeMs = 1000,
       cn_TimeoutProposeMs = 800, cn_TimeoutPrevoteMs = 400, cn_TimeoutPrecommitMs = 400,
       cn_DeltaIncrementMs = 200, cn_EpochLength = 1000, cn_MaxValidators = 25, cn_Validators = [],
       cn_KeySeed = 7\<rparr>,
     nf_Execution = \<lparr>ec_Engine = ''evm'', ec_BlockGasLimit = ''30000000''\<rparr>,
     nf_Storage = \<lparr>sc_DataDir = ''./data'', sc_Backend = ''pebble''\<rparr>,
     nf_Network = \<lparr>nc_Listen = [], nc_Bootstrap = [], nc_PrivateNetworkPSK = [], nc_MaxPeers = 50,
       nc_EnableDHT = False\<rparr>,
     nf_RPC = \<lparr>rc_HTTP_Enabled = True, rc_HTTP_Port = 8545,
       rc_HTTP_Modules = [''eth'', ''net'', ''web3'', ''chfault''], rc_Metrics_Enabled = False, rc_Metrics_Port = 0\<rparr>\<rparr>"

section \<open>Number and address parsers\<close>

definition digit_step :: "char \<Rightarrow> uint64 \<Rightarrow> uint64 res" where
  "digit_step c v =
     (if \<not> (CHR ''0'' \<le> c \<and> c \<le> CHR ''9'') then Inl (ErrOther ''not a digit'')
      else let nv = v * 10 + word_of_nat (of_char c - 48) in
        if nv < v then Inl (ErrOther ''overflow'') else Inr nv)"

definition parseChainID :: "string \<Rightarrow> uint64 res" where
  "parseChainID s =
     (if s = [] then Inl (ErrOther ''chainId empty'')
      else and_then (each digit_step s 0) (\<lambda>v.
        if v = 0 then Inl (ErrOther ''chainId zero'') else Inr v))"

definition parsePositiveInt :: "string \<Rightarrow> uint64 res" where
  "parsePositiveInt s =
     (if s = [] then Inl (ErrOther ''empty'')
      else and_then (each digit_step s 0) (\<lambda>v.
        if v = 0 then Inl (ErrOther ''not positive'') else Inr v))"

definition u256_step :: "char \<Rightarrow> uint256 \<Rightarrow> uint256 res" where
  "u256_step c acc =
     (if \<not> (CHR ''0'' \<le> c \<and> c \<le> CHR ''9'') then Inl (ErrOther ''not a digit'')
      else let a = (case uint256_mul acc (uint256_from_uint64 10) of Inl _ \<Rightarrow> zero_uint256 | Inr a \<Rightarrow> a)
        in case uint256_add a (uint256_from_uint64 (word_of_nat (of_char c - 48))) of
             Inl _ \<Rightarrow> Inl (ErrOther ''overflow'') | Inr d \<Rightarrow> Inr d)"

definition u256FromString :: "string \<Rightarrow> uint256 res" where
  "u256FromString s = (if s = [] then Inl (ErrOther ''empty'') else each u256_step s zero_uint256)"

definition parseAddrHex :: "string \<Rightarrow> address res" where
  "parseAddrHex s =
     (if length s \<noteq> 42 \<or> take 2 s \<noteq> ''0x'' then Inl (ErrOther ''address format'')
      else and_then (hex_decode (drop 2 s)) (\<lambda>b. Inr (bytes_word b)))"

section \<open>Validation\<close>

definition config_error :: "string \<Rightarrow> err" where
  "config_error what = ErrOther what"

definition check_validator_string :: "string \<Rightarrow> unit \<Rightarrow> unit res" where
  "check_validator_string v _ = guard (\<not> (length v \<noteq> 42 \<or> take 2 v \<noteq> ''0x'')) (config_error ''consensus.validators'')"

definition config_Validate :: "node_config \<Rightarrow> unit res" where
  "config_Validate c =
     (let ch = nf_Chain c; cn = nf_Consensus c; st = nf_Storage c; rp = nf_RPC c in
      if cc_Name ch = [] then Inl (config_error ''chain.name'')
      else if cc_ChainID ch = [] then Inl (config_error ''chain.chainId'')
      else case parsePositiveInt (cc_ChainID ch) of
        Inl e \<Rightarrow> Inl e
      | Inr _ \<Rightarrow>
          if \<not> (cc_NetworkType ch = ''consortium'' \<or> cc_NetworkType ch = ''private'') then Inl (config_error ''chain.networkType'')
          else if cc_Genesis ch = [] then Inl (config_error ''chain.genesis'')
          else if cn_Protocol cn \<noteq> ''tendermint-bft'' then Inl (config_error ''consensus.protocol'')
          else if cn_ValidatorSet cn \<noteq> ''poa'' then Inl (config_error ''consensus.validatorSet'')
          else and_then (each check_validator_string (cn_Validators cn) ()) (\<lambda>_.
            if cn_KeySeed cn < 0 \<or> cn_KeySeed cn > 255 then Inl (config_error ''consensus.keySeed'')
            else if cn_BlockTimeMs cn \<le> 0 then Inl (config_error ''consensus.blockTimeMs'')
            else if cn_TimeoutProposeMs cn \<le> 0 then Inl (config_error ''consensus.timeoutProposeMs'')
            else if cn_TimeoutProposeMs cn \<ge> cn_BlockTimeMs cn then Inl (config_error ''consensus.timeoutProposeMs'')
            else if ec_Engine (nf_Execution c) \<noteq> ''evm'' then Inl (config_error ''execution.engine'')
            else if \<not> (sc_Backend st = ''pebble'' \<or> sc_Backend st = ''memory'') then Inl (config_error ''storage.backend'')
            else if sc_DataDir st = [] then Inl (config_error ''storage.dataDir'')
            else if rc_HTTP_Enabled rp \<and> rc_HTTP_Port rp = 0 then Inl (config_error ''rpc.http.port'')
            else Inr ()))"

section \<open>The parsers are those of the genesis file\<close>

lemma is_digit_char: "CHR ''0'' \<le> c \<and> c \<le> CHR ''9'' \<longleftrightarrow> is_digit c"
  by (simp add: is_digit_def less_eq_char_def)

lemma digit_step_parse64: "digit_step = parse64_step"
  by (intro ext) (simp add: digit_step_def parse64_step_def is_digit_char digit_val_def)

lemma u256_step_parse256: "u256_step = parse256_step"
  by (intro ext) (simp add: u256_step_def parse256_step_def is_digit_char digit_val_def Let_def)

text \<open>
  four parsers of decimal numbers agree. \<open>parseChainID\<close> and \<open>parsePositiveInt\<close> accept the same
  strings with the same value, the one \<open>parseUint64\<close> of the genesis file reads, unless that is zero;
  and \<open>u256FromString\<close> reads what \<open>parseUint256\<close> reads in a string without a hexadecimal prefix.
\<close>

theorem decimal_parsers_agree:
  "(parseChainID s = Inr v \<longleftrightarrow> parsePositiveInt s = Inr v)
   \<and> (parsePositiveInt s = Inr v \<longleftrightarrow> parseUint64 s = Inr v \<and> v \<noteq> 0)
   \<and> (\<not> prefix ''0x'' s \<and> \<not> prefix ''0X'' s \<longrightarrow> is_ok (u256FromString s) = is_ok (parseUint256 s)
        \<and> (u256FromString s = Inr w \<longleftrightarrow> parseUint256 s = Inr w))"
  by (auto simp: parseChainID_def parsePositiveInt_def parseUint64_def u256FromString_def parseUint256_def
      digit_step_parse64 u256_step_parse256 and_then_Inr_iff is_ok_def)

theorem decimal_parsers_agree_witness:
  "parseChainID ''10086'' = Inr 10086 \<and> u256FromString ''1000000000'' = parseUint256 ''1000000000''"
proof -
  have "parseUint64 ''10086'' = Inr 10086"
    by (simp add: parseUint64_def parse64_step_def is_digit_def digit_val_def word_less_nat_alt)
  moreover obtain w where "parseUint256 ''1000000000'' = Inr w"
    using each_parse256 [of "''1000000000''"] by (auto simp: parseUint256_def is_digit_def dec_val_def digit_val_def)
  ultimately show ?thesis
    using decimal_parsers_agree [of "''10086''" 10086] decimal_parsers_agree [of "''1000000000''" _ w] by simp
qed

section \<open>What validation promises\<close>

lemma check_validators: "each check_validator_string vs () = Inr u \<longleftrightarrow>
    list_all (\<lambda>v. length v = 42 \<and> take 2 v = ''0x'') vs"
  by (induction vs) (auto simp: check_validator_string_def and_then_Inr_iff)

text \<open>The characters of hexadecimal numbers.\<close>

definition is_hex :: "char \<Rightarrow> bool" where
  "is_hex c \<longleftrightarrow> hex_val c \<noteq> None"

lemma hex_decode_ok: "is_ok (hex_decode s) \<longleftrightarrow> even (length s) \<and> list_all is_hex s"
  by (induction s rule: hex_decode.induct)
    (auto simp: is_hex_def is_ok_iff and_then_Inr_iff split: option.splits)

text \<open>
  what a valid configuration promises and what it does not. A configuration that \<open>Validate\<close> accepts has
  a chain id that \<open>parseChainID\<close> reads, a proposal timeout below the block time, a key seed that is a byte,
  and validator addresses of the right length, which \<open>initConsensus\<close> can then read
  exactly when the rest is hexadecimal: \<open>Validate\<close> does not look at it.
\<close>

theorem Validate_promises:
  assumes "config_Validate c = Inr ()"
  shows "is_ok (parseChainID (cc_ChainID (nf_Chain c)))
    \<and> 0 < cn_TimeoutProposeMs (nf_Consensus c) \<and> cn_TimeoutProposeMs (nf_Consensus c) < cn_BlockTimeMs (nf_Consensus c)
    \<and> cn_KeySeed (nf_Consensus c) \<in> {0..255}
    \<and> (\<forall>v\<in>set (cn_Validators (nf_Consensus c)). length v = 42 \<and>
         (is_ok (parseAddrHex v) \<longleftrightarrow> list_all is_hex (drop 2 v)))"
proof -
  note ok = assms [unfolded config_Validate_def Let_def]
  have "is_ok (parsePositiveInt (cc_ChainID (nf_Chain c)))"
    using ok by (auto simp: is_ok_iff split: if_splits sum.splits)
  then have "is_ok (parseChainID (cc_ChainID (nf_Chain c)))"
    by (auto simp: is_ok_iff parsePositiveInt_def parseChainID_def and_then_Inr_iff split: if_splits)
  moreover have e: "each check_validator_string (cn_Validators (nf_Consensus c)) () = Inr ()"
    and "0 < cn_TimeoutProposeMs (nf_Consensus c) \<and> cn_TimeoutProposeMs (nf_Consensus c) < cn_BlockTimeMs (nf_Consensus c)
      \<and> cn_KeySeed (nf_Consensus c) \<in> {0..255}"
    using ok by (auto simp: and_then_Inr_iff split: if_splits sum.splits)
  moreover have "list_all (\<lambda>v. length v = 42 \<and> take 2 v = ''0x'') (cn_Validators (nf_Consensus c))"
    using e by (simp add: check_validators)
  moreover have "is_ok (parseAddrHex v) \<longleftrightarrow> list_all is_hex (drop 2 v)" if "length v = 42" "take 2 v = ''0x''" for v
    using that hex_decode_ok [of "drop 2 v"] by (simp add: parseAddrHex_def is_ok_iff and_then_Inr_iff)
  ultimately show ?thesis by (auto simp: list_all_iff)
qed

theorem Validate_promises_witness:
  "config_Validate config_default = Inr () \<and> is_ok (parseChainID ''10086'')"
proof -
  have "parsePositiveInt ''10086'' = Inr 10086"
    by (simp add: parsePositiveInt_def digit_step_def word_less_nat_alt)
  then have v: "config_Validate config_default = Inr ()" by (simp add: config_Validate_def config_default_def)
  from Validate_promises [OF v] v show ?thesis by (simp add: config_default_def)
qed

end
