(* ===== verification/Network.thy ===== *)
theory Network
  imports Json Validators Machine
begin

text \<open>
  The network layer: the wire form of consensus messages and envelopes of \<open>network/protocol.go\<close>, the
  frames and the handshake of \<open>network/transport.go\<close>, and the connections of \<open>network/swarm.go\<close>.
  Sockets are the byte strings read from them; the text form of a JSON value is a parameter, with
  the law that parsing undoes printing. A goroutine of the swarm is the sequence of the steps in
  which it holds the lock.
\<close>

section \<open>Consensus messages on the wire\<close>

definition TypeConsensus :: string where "TypeConsensus = ''consensus''"
definition TypeTx :: string where "TypeTx = ''tx''"
definition TypePing :: string where "TypePing = ''ping''"

definition tagProposal :: byte where "tagProposal = 0x01"
definition tagVote :: byte where "tagVote = 0x02"
definition tagQC :: byte where "tagQC = 0x03"

definition ErrUnknownType :: err where "ErrUnknownType = ErrOther ''unknown type''"
definition ErrEmptyPayload :: err where "ErrEmptyPayload = ErrOther ''empty payload''"

definition wireProposal :: "proposal \<Rightarrow> json" where
  "wireProposal b = JObj
     [(''polRound'', j_uint (unat (pr_POLRound b))), (''block'', j_bytes (pr_Block b)),
      (''blockHash'', j_array (pr_BlockHash b)), (''sig'', j_array (pr_Signature b))]"

definition wireVote :: "vote \<Rightarrow> json" where
  "wireVote b = JObj
     [(''type'', j_uint (unat (vt_Type b))), (''blockHash'', j_array (vt_BlockHash b)),
      (''sig'', j_array (vt_Signature b))]"

definition wireQCSignature :: "qc_signature \<Rightarrow> json" where
  "wireQCSignature s = JObj [(''addr'', j_array (qs_Validator s)), (''sig'', j_array (qs_Sig s))]"

definition wireQC :: "qc \<Rightarrow> json" where
  "wireQC b = JObj
     [(''type'', j_uint (unat (qc_Type b))), (''height'', j_uint (unat (qc_Height b))),
      (''round'', j_uint (unat (qc_Round b))), (''blockHash'', j_array (qc_BlockHash b)),
      (''sigs'', JArr (map wireQCSignature (qc_Signatures b)))]"

definition wireMessage :: "message \<Rightarrow> byte \<Rightarrow> json \<Rightarrow> json" where
  "wireMessage msg tag inner = JObj
     [(''h'', j_uint (unat (m_Height msg))), (''r'', j_uint (unat (m_Round msg))),
      (''from'', j_array (m_From msg)), (''tag'', j_uint (unat tag)), (''body'', inner)]"

definition MarshalConsensusMessage :: "message \<Rightarrow> json res" where
  "MarshalConsensusMessage msg =
     (case m_Body msg of
        BProposal b \<Rightarrow> Inr (wireMessage msg tagProposal (wireProposal b))
      | BVote b \<Rightarrow> Inr (wireMessage msg tagVote (wireVote b))
      | BQC b \<Rightarrow> Inr (wireMessage msg tagQC (wireQC b))
      | BNil \<Rightarrow> Inl ErrUnknownType)"

definition readProposal :: "json \<Rightarrow> proposal res" where
  "readProposal j =
     and_then (as_object j) (\<lambda>fs.
     and_then (field ''polRound'' as_word 0 fs) (\<lambda>r.
     and_then (field ''block'' as_bytes [] fs) (\<lambda>b.
     and_then (field ''blockHash'' as_array 0 fs) (\<lambda>h.
     and_then (field ''sig'' as_array 0 fs) (\<lambda>s.
     Inr \<lparr>pr_POLRound = r, pr_Block = b, pr_BlockHash = h, pr_Signature = s\<rparr>)))))"

definition readVote :: "json \<Rightarrow> vote res" where
  "readVote j =
     and_then (as_object j) (\<lambda>fs.
     and_then (field ''type'' as_word 0 fs) (\<lambda>t.
     and_then (field ''blockHash'' as_array 0 fs) (\<lambda>h.
     and_then (field ''sig'' as_array 0 fs) (\<lambda>s.
     Inr \<lparr>vt_Type = t, vt_BlockHash = h, vt_Signature = s\<rparr>))))"

definition readQCSignature :: "json \<Rightarrow> qc_signature res" where
  "readQCSignature j =
     and_then (as_object j) (\<lambda>fs.
     and_then (field ''addr'' as_array 0 fs) (\<lambda>a.
     and_then (field ''sig'' as_array 0 fs) (\<lambda>s.
     Inr \<lparr>qs_Validator = a, qs_Sig = s\<rparr>)))"

definition readQC :: "json \<Rightarrow> qc res" where
  "readQC j =
     and_then (as_object j) (\<lambda>fs.
     and_then (field ''type'' as_word 0 fs) (\<lambda>t.
     and_then (field ''height'' as_word 0 fs) (\<lambda>h.
     and_then (field ''round'' as_word 0 fs) (\<lambda>r.
     and_then (field ''blockHash'' as_array 0 fs) (\<lambda>bh.
     and_then (field ''sigs'' (as_list readQCSignature \<lparr>qs_Validator = 0, qs_Sig = 0\<rparr>) [] fs) (\<lambda>sigs.
     Inr \<lparr>qc_Type = t, qc_Height = h, qc_Round = r, qc_BlockHash = bh, qc_Signatures = sigs,
          qc_AggSig = [], qc_AggBitmap = []\<rparr>))))))"

text \<open>The payload is a \<open>json.RawMessage\<close>; \<open>None\<close> is the empty one, and so is a missing body, which does not parse.\<close>

definition read_body :: "(json \<Rightarrow> 'a res) \<Rightarrow> json option \<Rightarrow> 'a res" where
  "read_body dec j = (case j of None \<Rightarrow> Inl ErrJSON | Some j \<Rightarrow> dec j)"

definition UnmarshalConsensusMessage :: "json option \<Rightarrow> message res" where
  "UnmarshalConsensusMessage data =
     (case data of
        None \<Rightarrow> Inl ErrEmptyPayload
      | Some j \<Rightarrow>
          and_then (as_object j) (\<lambda>fs.
          and_then (field ''h'' as_word 0 fs) (\<lambda>h.
          and_then (field ''r'' as_word 0 fs) (\<lambda>r.
          and_then (field ''from'' as_array 0 fs) (\<lambda>from.
          and_then (field ''tag'' as_word 0 fs) (\<lambda>tag.
          let inner = raw_field ''body'' fs;
              msg = (\<lambda>b. \<lparr>m_Height = h, m_Round = r, m_From = from, m_Body = b\<rparr>)
          in if tag = tagProposal then and_then (read_body readProposal inner) (\<lambda>w. Inr (msg (BProposal w)))
             else if tag = tagVote then and_then (read_body readVote inner) (\<lambda>w. Inr (msg (BVote w)))
             else if tag = tagQC then and_then (read_body readQC inner) (\<lambda>w. Inr (msg (BQC w)))
             else Inl ErrUnknownType))))))"

section \<open>Envelopes and frames\<close>

record envelope =
  env_Type :: string
  env_Payload :: "json option"

definition NewConsensusEnvelope :: "message \<Rightarrow> envelope res" where
  "NewConsensusEnvelope msg =
     and_then (MarshalConsensusMessage msg) (\<lambda>p. Inr \<lparr>env_Type = TypeConsensus, env_Payload = Some p\<rparr>)"

definition NewTxEnvelope :: "bytes \<Rightarrow> envelope" where
  "NewTxEnvelope rawTx = \<lparr>env_Type = TypeTx, env_Payload = Some (JObj [(''raw'', j_bytes rawTx)])\<rparr>"

record json_text =
  jt_print :: "json \<Rightarrow> bytes"
  jt_parse :: "bytes \<Rightarrow> json option"


definition maxFrameSize :: nat where
  "maxFrameSize = 4 * 2 ^ 20"

text \<open>A nil payload is written as \<open>null\<close>.\<close>

definition envelope_json :: "envelope \<Rightarrow> json" where
  "envelope_json env = JObj [(''type'', JStr (env_Type env)),
     (''payload'', case env_Payload env of None \<Rightarrow> JNull | Some j \<Rightarrow> j)]"

text \<open>What \<open>encoding/json\<close> documents: a value is printed, as a non-empty text that parses to it.\<close>

definition printable :: "json_text \<Rightarrow> envelope \<Rightarrow> bool" where
  "printable T env \<longleftrightarrow>
     (let j = envelope_json env in jt_print T j \<noteq> [] \<and> jt_parse T (jt_print T j) = Some j)"

definition writeFrame :: "json_text \<Rightarrow> envelope \<Rightarrow> bytes res" where
  "writeFrame T env =
     (let data = jt_print T (envelope_json env) in
      if length data > maxFrameSize then Inl (ErrOther ''frame too long'')
      else Inr (Uint32BE (word_of_nat (length data)) @ data))"

definition read_envelope :: "json \<Rightarrow> envelope res" where
  "read_envelope j =
     and_then (as_object j) (\<lambda>fs.
     and_then (field ''type'' as_string [] fs) (\<lambda>t.
     Inr \<lparr>env_Type = t, env_Payload = raw_field ''payload'' fs\<rparr>))"

text \<open>The frame at the start of the stream and what follows it; a short stream is an error of \<open>io.ReadFull\<close>.\<close>

definition readFrame :: "json_text \<Rightarrow> bytes \<Rightarrow> (envelope \<times> bytes) res" where
  "readFrame T stream =
     and_then (split_at 4 stream (ErrOther ''EOF'')) (\<lambda>(lenBuf, stream).
     let len = (bytes_word lenBuf :: uint32) in
     if len = 0 \<or> unat len > maxFrameSize then Inl (ErrOther ''frame length'')
     else and_then (split_at (unat len) stream (ErrOther ''EOF'')) (\<lambda>(data, stream).
       case jt_parse T data of
         None \<Rightarrow> Inl ErrJSON
       | Some j \<Rightarrow> and_then (read_envelope j) (\<lambda>env. Inr (env, stream))))"

text \<open>\<open>Recv\<close> until the first error, which closes the connection.\<close>

lemma readFrame_shorter: "readFrame T s = Inr (env, rest) \<Longrightarrow> length rest < length s"
  by (auto simp: readFrame_def and_then_Inr_iff split_at_Inr_iff Let_def split: if_splits option.splits)

function read_frames :: "json_text \<Rightarrow> bytes \<Rightarrow> envelope list" where
  "read_frames T s = (case readFrame T s of Inl _ \<Rightarrow> [] | Inr (env, rest) \<Rightarrow> env # read_frames T rest)"
  by pat_completeness auto
termination by (relation "measure (\<lambda>(T, s). length s)") (auto dest: readFrame_shorter)

declare read_frames.simps [simp del]

section \<open>The handshake\<close>

record HandshakeInfo =
  hi_NodeID :: string
  hi_Listen :: string
  hi_Protocol :: uint32

definition ProtocolVersion :: uint32 where
  "ProtocolVersion = 1"

definition handshake_json :: "HandshakeInfo \<Rightarrow> json" where
  "handshake_json i = JObj [(''nodeId'', JStr (hi_NodeID i)), (''listen'', JStr (hi_Listen i)),
     (''protocol'', j_uint (unat (hi_Protocol i)))]"

definition read_handshake :: "json \<Rightarrow> HandshakeInfo res" where
  "read_handshake j =
     and_then (as_object j) (\<lambda>fs.
     and_then (field ''nodeId'' as_string [] fs) (\<lambda>n.
     and_then (field ''listen'' as_string [] fs) (\<lambda>l.
     and_then (field ''protocol'' as_word 0 fs) (\<lambda>p.
     Inr \<lparr>hi_NodeID = n, hi_Listen = l, hi_Protocol = p\<rparr>))))"

definition handshake_envelope :: "HandshakeInfo \<Rightarrow> envelope" where
  "handshake_envelope i = \<lparr>env_Type = ''handshake'', env_Payload = Some (handshake_json i)\<rparr>"

text \<open>What is written, what the peer said, and the stream after it.\<close>

definition DoHandshake :: "json_text \<Rightarrow> HandshakeInfo \<Rightarrow> bytes \<Rightarrow> (bytes \<times> HandshakeInfo \<times> bytes) res" where
  "DoHandshake T info stream =
     and_then (writeFrame T (handshake_envelope info)) (\<lambda>out.
     and_then (readFrame T stream) (\<lambda>(env, stream).
     if env_Type env \<noteq> ''handshake'' then Inl (ErrOther ''handshake expected'')
     else and_then (read_body read_handshake (env_Payload env)) (\<lambda>peerInfo.
       if hi_Protocol peerInfo \<noteq> ProtocolVersion then Inl (ErrOther ''protocol version'')
       else Inr (out, peerInfo, stream))))"

section \<open>What arrives\<close>

text \<open>The field names of the wire structs differ when case is ignored.\<close>

lemma read_wireProposal [simp]: "readProposal (wireProposal b) = Inr b"
  by (simp add: readProposal_def wireProposal_def same_name_def lower_char_def)

lemma read_wireVote [simp]: "readVote (wireVote b) = Inr b"
  by (simp add: readVote_def wireVote_def same_name_def lower_char_def)

lemma read_wireQCSignature [simp]: "readQCSignature (wireQCSignature s) = Inr s"
  by (simp add: readQCSignature_def wireQCSignature_def same_name_def lower_char_def)

lemma wireQCSignature_not_null [simp]: "wireQCSignature s \<noteq> JNull"
  by (simp add: wireQCSignature_def)

lemma read_wireQC [simp]: "readQC (wireQC b) = Inr (b\<lparr>qc_AggSig := [], qc_AggBitmap := []\<rparr>)"
  by (simp add: readQC_def wireQC_def same_name_def lower_char_def as_list_map)

text \<open>The message as a receiver sees it: a certificate has lost its aggregate signature.\<close>

definition received :: "message \<Rightarrow> message" where
  "received m = (case m_Body m of
     BQC qc \<Rightarrow> m\<lparr>m_Body := BQC (qc\<lparr>qc_AggSig := [], qc_AggBitmap := []\<rparr>)\<rparr> | _ \<Rightarrow> m)"

lemma tags_distinct [simp]: "tagVote \<noteq> tagProposal" "tagQC \<noteq> tagProposal" "tagQC \<noteq> tagVote"
  by (simp_all add: tagProposal_def tagVote_def tagQC_def)

lemma unmarshal_wire:
  "UnmarshalConsensusMessage (Some (wireMessage m tag inner)) =
     (let msg = (\<lambda>b. m\<lparr>m_Body := b\<rparr>) in
      if tag = tagProposal then and_then (readProposal inner) (\<lambda>w. Inr (msg (BProposal w)))
      else if tag = tagVote then and_then (readVote inner) (\<lambda>w. Inr (msg (BVote w)))
      else if tag = tagQC then and_then (readQC inner) (\<lambda>w. Inr (msg (BQC w)))
      else Inl ErrUnknownType)"
  by (cases m) (simp add: UnmarshalConsensusMessage_def wireMessage_def same_name_def lower_char_def raw_field_def
      values_of_def read_body_def Let_def)

lemma marshal_receive: "MarshalConsensusMessage m = Inr j \<Longrightarrow> UnmarshalConsensusMessage (Some j) = Inr (received m)"
  by (cases m; cases "m_Body m") (auto simp: MarshalConsensusMessage_def unmarshal_wire received_def)

text \<open>
  A consensus message with a body survives the wire: what \<open>UnmarshalConsensusMessage\<close> reads from
  the output of \<open>MarshalConsensusMessage\<close> is the message, height, round, sender and every field of
  the body, except that a certificate arrives without its BLS aggregate and bitmap; only a message
  without a body is refused.
\<close>

theorem consensus_wire_roundtrip:
  "case MarshalConsensusMessage m of
     Inl e \<Rightarrow> m_Body m = BNil \<and> e = ErrUnknownType
   | Inr j \<Rightarrow> UnmarshalConsensusMessage (Some j) = Inr (received m)"
  by (cases "m_Body m") (simp_all add: MarshalConsensusMessage_def marshal_receive)

text \<open>
  Over the network a certificate is never checked by its BLS aggregate. Whatever aggregate the
  sender attached, the receiver checks the single signatures, so its verdict does not depend on the
  aggregate and is the verdict of a node without a BLS signer.
\<close>

theorem wire_certificate_unaggregated:
  assumes "m_Body m = BQC qc" "MarshalConsensusMessage m = Inr j"
  shows "\<exists>m' qc'. UnmarshalConsensusMessage (Some j) = Inr m' \<and> m_Body m' = BQC qc' \<and>
    VerifyQC cfg qc' = VerifyQC (cfg\<lparr>cfg_BLSSigner := None\<rparr>) (qc\<lparr>qc_AggSig := s, qc_AggBitmap := b\<rparr>)"
  using marshal_receive [OF assms(2)] assms(1) by (simp add: received_def VerifyQC_def Let_def)

section \<open>Frames\<close>

text \<open>An envelope as a reader sees it: a missing payload is \<open>null\<close>.\<close>

definition sent_envelope :: "envelope \<Rightarrow> envelope" where
  "sent_envelope env = env\<lparr>env_Payload := Some (case env_Payload env of None \<Rightarrow> JNull | Some j \<Rightarrow> j)\<rparr>"

lemma read_envelope_json: "read_envelope (envelope_json env) = Inr (sent_envelope env)"
  by (simp add: read_envelope_def envelope_json_def same_name_def lower_char_def raw_field_def values_of_def sent_envelope_def)

lemma readFrame_writeFrame:
  assumes T: "printable T env" and w: "writeFrame T env = Inr bs"
  shows "readFrame T (bs @ rest) = Inr (sent_envelope env, rest)"
proof -
  define data where "data = jt_print T (envelope_json env)"
  have bs: "bs = Uint32BE (word_of_nat (length data)) @ data" and len: "length data \<le> maxFrameSize"
    using w by (auto simp: writeFrame_def data_def Let_def split: if_splits)
  have u: "unat (word_of_nat (length data) :: uint32) = length data"
    using len by (simp add: unat_of_nat maxFrameSize_def)
  moreover have "word_of_nat (length data) \<noteq> (0 :: uint32)"
    using u T by (metis data_def length_0_conv unat_0 printable_def)
  moreover have "jt_parse T data = Some (envelope_json env)"
    using T by (simp add: printable_def data_def Let_def)
  ultimately show ?thesis
    using len by (simp add: bs readFrame_def Uint32BE_def read_envelope_json)
qed

lemma writeFrame_length: "writeFrame T env = Inr bs \<Longrightarrow> length bs = 4 + length (jt_print T (envelope_json env))"
  by (auto simp: writeFrame_def Let_def Uint32BE_def split: if_splits)

lemma readFrame_truncated:
  assumes w: "writeFrame T env = Inr bs" and n: "n < length bs"
  shows "\<exists>e. readFrame T (take n bs) = Inl e"
proof -
  define data where "data = jt_print T (envelope_json env)"
  have bs: "bs = word_bytes (word_of_nat (length data) :: uint32) @ data" and len: "length data \<le> maxFrameSize"
    using w by (auto simp: writeFrame_def data_def Let_def Uint32BE_def split: if_splits)
  show ?thesis
  proof (cases "n < 4")
    case True
    moreover have "\<not> length bs < 4" by (simp add: bs)
    ultimately show ?thesis by (simp add: readFrame_def split_at_def and_then_def)
  next
    case False
    have "unat (word_of_nat (length data) :: uint32) = length data"
      using len by (simp add: unat_of_nat maxFrameSize_def)
    moreover have "take n bs = word_bytes (word_of_nat (length data) :: uint32) @ take (n - 4) data"
      using False by (simp add: bs)
    ultimately show ?thesis using False n bs by (auto simp: readFrame_def split_at_def and_then_def Let_def)
  qed
qed

text \<open>
  C33: Frames keep their boundaries. However many bytes of a stream of written frames have arrived,
  the reader delivers exactly the envelopes whose frames have arrived completely, in order, and
  nothing of the next one.
\<close>

theorem frames_delivered:
  assumes w: "list_all2 (\<lambda>env bs. printable T env \<and> writeFrame T env = Inr bs) envs frames"
  shows "\<exists>k \<le> length envs. read_frames T (take n (concat frames)) = map sent_envelope (take k envs) \<and>
    length (concat (take k frames)) \<le> n \<and> (k < length envs \<longrightarrow> n < length (concat (take (Suc k) frames)))"
  using w
proof (induction envs frames arbitrary: n rule: list_all2_induct)
  case Nil
  then show ?case by (simp add: read_frames.simps readFrame_def split_at_def)
next
  case (Cons env envs bs frames)
  show ?case
  proof (cases "n < length bs")
    case True
    then show ?thesis using readFrame_truncated [OF conjunct2 [OF Cons.hyps(1)] True]
      by (intro exI [of _ 0]) (auto simp: read_frames.simps)
  next
    case False
    obtain k where k: "k \<le> length envs"
        "read_frames T (take (n - length bs) (concat frames)) = map sent_envelope (take k envs)"
        "length (concat (take k frames)) \<le> n - length bs"
        "k < length envs \<longrightarrow> n - length bs < length (concat (take (Suc k) frames))"
      using Cons.IH by blast
    have "read_frames T (take n (concat (bs # frames))) = map sent_envelope (take (Suc k) (env # envs))"
      using False k(2) by (simp add: read_frames.simps [of T "bs @ rest" for rest] readFrame_writeFrame [OF conjunct1 [OF Cons.hyps(1)] conjunct2 [OF Cons.hyps(1)]])
    then show ?thesis using False k by (intro exI [of _ "Suc k"]) auto
  qed
qed

section \<open>Handshakes\<close>

lemma read_handshake_json [simp]: "read_handshake (handshake_json i) = Inr i"
  by (simp add: read_handshake_def handshake_json_def same_name_def lower_char_def)

text \<open>
  The handshake exchanges the node infos. When each side reads what the other wrote, it accepts
  exactly a peer of its own protocol version and learns its node id and listen address as sent, and
  whatever follows the handshake on the stream is left for the read loop.
\<close>

theorem handshake_exchange:
  assumes T: "printable T (handshake_envelope theirs)"
    and sent: "writeFrame T (handshake_envelope mine) = Inr out" "writeFrame T (handshake_envelope theirs) = Inr inp"
  shows "DoHandshake T mine (inp @ rest) =
    (if hi_Protocol theirs = ProtocolVersion then Inr (out, theirs, rest) else Inl (ErrOther ''protocol version''))"
  using sent(1) readFrame_writeFrame [OF T sent(2), of rest]
  by (auto simp: DoHandshake_def handshake_envelope_def sent_envelope_def read_body_def)

section \<open>Connections\<close>

text \<open>
  A peer is a connection, known by a number that stands for its pointer; a connection that a later
  one replaced is still there, closed, until its read loop ends. What was sent on it is logged.
\<close>

record peer =
  pe_Addr :: string
  pe_Address :: string
  pe_closed :: bool
  pe_sent :: "envelope list"

record swarm =
  sw_peers :: "(string, nat) fmap"
  sw_conns :: "(nat, peer) fmap"
  sw_closed :: bool

definition NewSwarm :: swarm where
  "NewSwarm = \<lparr>sw_peers = fmempty, sw_conns = fmempty, sw_closed = False\<rparr>"

definition update_peer :: "nat \<Rightarrow> (peer \<Rightarrow> peer) \<Rightarrow> swarm \<Rightarrow> swarm" where
  "update_peer n f s =
     (case fmlookup (sw_conns s) n of None \<Rightarrow> s | Some p \<Rightarrow> s\<lparr>sw_conns := fmupd n (f p) (sw_conns s)\<rparr>)"

definition close_peer :: "nat \<Rightarrow> swarm \<Rightarrow> swarm" where
  "close_peer n s = update_peer n (\<lambda>p. p\<lparr>pe_closed := True\<rparr>) s"

definition register :: "nat \<Rightarrow> string \<Rightarrow> swarm \<Rightarrow> swarm" where
  "register n nodeID s =
     (let s = (case fmlookup (sw_peers s) nodeID of None \<Rightarrow> s | Some old \<Rightarrow> close_peer old s)
      in s\<lparr>sw_peers := fmupd nodeID n (sw_peers s)\<rparr>)"

text \<open>
  The end of \<open>handleInbound\<close>, \<open>tryDial\<close> and \<open>Connect\<close>: a new connection whose handshake succeeded,
  which has set \<open>Address\<close> to the peer's node id. A number that is in use is not new.
\<close>

definition connected :: "nat \<Rightarrow> string \<Rightarrow> HandshakeInfo \<Rightarrow> swarm \<Rightarrow> swarm" where
  "connected n addr info s =
     (if fmlookup (sw_conns s) n \<noteq> None then s
      else register n (hi_NodeID info) (s\<lparr>sw_conns := fmupd n
        \<lparr>pe_Addr = addr, pe_Address = hi_NodeID info, pe_closed = False, pe_sent = []\<rparr> (sw_conns s)\<rparr>))"

text \<open>The end of a read loop: close, and drop the entry only if it is this very connection.\<close>

definition readLoop_end :: "nat \<Rightarrow> swarm \<Rightarrow> swarm" where
  "readLoop_end n s =
     (case fmlookup (sw_conns s) n of
        None \<Rightarrow> s
      | Some p \<Rightarrow>
          let s = close_peer n s in
          if fmlookup (sw_peers s) (pe_Address p) = Some n
          then s\<lparr>sw_peers := fmdrop (pe_Address p) (sw_peers s)\<rparr> else s)"

text \<open>\<open>Send\<close>: an error on a closed connection or when the write fails, as \<open>ok n\<close> tells.\<close>

definition send_to :: "(nat \<Rightarrow> bool) \<Rightarrow> envelope \<Rightarrow> nat \<Rightarrow> swarm \<times> nat \<Rightarrow> swarm \<times> nat" where
  "send_to ok env n = (\<lambda>(s, sent).
     case fmlookup (sw_conns s) n of
       None \<Rightarrow> (s, sent)
     | Some p \<Rightarrow>
         if pe_closed p \<or> \<not> ok n then (s, sent)
         else (update_peer n (\<lambda>p. p\<lparr>pe_sent := pe_sent p @ [env]\<rparr>) s, sent + 1))"

definition peer_order :: "swarm \<Rightarrow> nat list" where
  "peer_order s = sort_key (\<lambda>n. case fmlookup (sw_conns s) n of None \<Rightarrow> [] | Some p \<Rightarrow> pe_Address p)
     (map (\<lambda>k. the (fmlookup (sw_peers s) k)) (sorted_keys (sw_peers s)))"

definition swarm_Broadcast :: "(nat \<Rightarrow> bool) \<Rightarrow> envelope \<Rightarrow> swarm \<Rightarrow> swarm \<times> nat" where
  "swarm_Broadcast ok env s = fold (send_to ok env) (peer_order s) (s, 0)"

definition PeerCount :: "swarm \<Rightarrow> nat" where
  "PeerCount s = fm_size (sw_peers s)"

text \<open>\<open>Connect\<close> skips an address that is connected, as remote address or as node id.\<close>

definition already_connected :: "string \<Rightarrow> swarm \<Rightarrow> bool" where
  "already_connected addr s =
     list_ex (\<lambda>k. case fmlookup (sw_conns s) (the (fmlookup (sw_peers s) k)) of
         None \<Rightarrow> False | Some p \<Rightarrow> pe_Addr p = addr \<or> pe_Address p = addr) (sorted_keys (sw_peers s))"

definition swarm_Connect :: "json_text \<Rightarrow> HandshakeInfo \<Rightarrow> string \<Rightarrow>
    (nat \<times> string \<times> bytes) option \<Rightarrow> swarm \<Rightarrow> swarm \<times> unit res" where
  "swarm_Connect T self addr dialed s =
     (if already_connected addr s then (s, Inr ())
      else (case dialed of
          None \<Rightarrow> (s, Inl (ErrOther ''dial''))
        | Some (n, remote, stream) \<Rightarrow>
            (case DoHandshake T self stream of
               Inl e \<Rightarrow> (s, Inl e)
             | Inr (_, peerInfo, _) \<Rightarrow> (connected n remote peerInfo s, Inr ()))))"

text \<open>Closing the channel a second time panics.\<close>

definition swarm_Close :: "swarm \<Rightarrow> swarm res" where
  "swarm_Close s =
     (if sw_closed s then Inl GoPanic
      else Inr ((fold close_peer (map (\<lambda>k. the (fmlookup (sw_peers s) k)) (sorted_keys (sw_peers s))) s)
        \<lparr>sw_peers := fmempty, sw_closed := True\<rparr>))"

section \<open>One live connection per node\<close>

datatype swarm_op =
    SwConnected nat string HandshakeInfo
  | SwFail nat
  | SwLoopEnd nat
  | SwBroadcast "nat \<Rightarrow> bool" envelope
  | SwClose

fun swarm_step :: "swarm_op \<Rightarrow> swarm \<Rightarrow> swarm" where
  "swarm_step (SwConnected n addr info) s = connected n addr info s"
| "swarm_step (SwFail n) s = close_peer n s"
| "swarm_step (SwLoopEnd n) s = readLoop_end n s"
| "swarm_step (SwBroadcast ok env) s = fst (swarm_Broadcast ok env s)"
| "swarm_step SwClose s = (case swarm_Close s of Inl _ \<Rightarrow> s | Inr s \<Rightarrow> s)"

definition registered :: "swarm \<Rightarrow> string \<Rightarrow> nat option" where
  "registered s k = fmlookup (sw_peers s) k"

definition conn :: "swarm \<Rightarrow> nat \<Rightarrow> peer option" where
  "conn s n = fmlookup (sw_conns s) n"

definition swarm_ok :: "swarm \<Rightarrow> bool" where
  "swarm_ok s \<longleftrightarrow>
     (\<forall>k n. registered s k = Some n \<longrightarrow> (\<exists>p. conn s n = Some p \<and> pe_Address p = k)) \<and>
     (\<forall>n p. conn s n = Some p \<longrightarrow> \<not> pe_closed p \<longrightarrow> registered s (pe_Address p) = Some n)"

lemma swarm_ok_registered: "swarm_ok s \<Longrightarrow> registered s k = Some n \<Longrightarrow> \<exists>p. conn s n = Some p \<and> pe_Address p = k"
  by (simp add: swarm_ok_def)

lemma swarm_ok_open: "swarm_ok s \<Longrightarrow> conn s n = Some p \<Longrightarrow> \<not> pe_closed p \<Longrightarrow> registered s (pe_Address p) = Some n"
  by (simp add: swarm_ok_def)

lemma swarm_ok_cong:
  assumes "swarm_ok s" "registered s' = registered s"
    and "\<And>m. map_option (\<lambda>p. (pe_Address p, pe_closed p)) (conn s' m) = map_option (\<lambda>p. (pe_Address p, pe_closed p)) (conn s m)"
  shows "swarm_ok s'"
  unfolding swarm_ok_def
proof (intro conjI allI impI)
  fix k n assume "registered s' k = Some n"
  then obtain p where "conn s n = Some p" "pe_Address p = k" using assms(1,2) swarm_ok_registered by metis
  then show "\<exists>p. conn s' n = Some p \<and> pe_Address p = k" using assms(3) [of n] by auto
next
  fix n p assume "conn s' n = Some p" "\<not> pe_closed p"
  then obtain q where "conn s n = Some q" "pe_Address q = pe_Address p" "\<not> pe_closed q"
    using assms(3) [of n] by (cases "conn s n") auto
  then show "registered s' (pe_Address p) = Some n" using swarm_ok_open [OF assms(1)] assms(2) by metis
qed

lemma update_peer_views [simp]:
  "registered (update_peer n f s) = registered s" "sw_peers (update_peer n f s) = sw_peers s"
  "sw_closed (update_peer n f s) = sw_closed s"
  "conn (update_peer n f s) m = (if m = n then map_option f (conn s m) else conn s m)"
  by (auto simp: update_peer_def registered_def conn_def split: option.split)

text \<open>Closing connections and sending on them keeps the invariant.\<close>

lemma swarm_ok_update:
  "swarm_ok s \<Longrightarrow> (\<And>p. pe_Address (f p) = pe_Address p \<and> (pe_closed p \<longrightarrow> pe_closed (f p))) \<Longrightarrow> swarm_ok (update_peer n f s)"
  unfolding swarm_ok_def by (auto split: if_splits) blast+

lemma swarm_ok_close: "swarm_ok s \<Longrightarrow> swarm_ok (close_peer n s)"
  by (auto simp: close_peer_def intro: swarm_ok_update)

lemma swarm_ok_fold: "(\<And>x t. swarm_ok t \<Longrightarrow> swarm_ok (f x t)) \<Longrightarrow> swarm_ok s \<Longrightarrow> swarm_ok (fold f xs s)"
  by (induction xs arbitrary: s) simp_all

lemma swarm_ok_connected:
  assumes s: "swarm_ok s"
  shows "swarm_ok (connected n addr info s)"
proof (cases "conn s n")
  case None
  define k where "k = hi_NodeID info"
  define t where "t = (case registered s k of None \<Rightarrow> s | Some old \<Rightarrow> close_peer old s)"
  have fresh: "registered s k' \<noteq> Some n" for k' using s None by (fastforce simp: swarm_ok_def)
  define s' where "s' = connected n addr info s"
  have reg: "registered s' k' = (if k' = k then Some n else registered s k')" for k'
    using None fresh by (auto simp: s'_def connected_def register_def registered_def conn_def k_def Let_def close_peer_def
        update_peer_def split: option.split)
  have con: "conn s' m = (if m = n then Some \<lparr>pe_Addr = addr, pe_Address = k, pe_closed = False, pe_sent = []\<rparr>
      else if registered s k = Some m then map_option (\<lambda>p. p\<lparr>pe_closed := True\<rparr>) (conn s m) else conn s m)" for m
    using None fresh [of k]
    by (auto simp: s'_def connected_def register_def registered_def conn_def k_def Let_def close_peer_def update_peer_def
        split: option.split)
  have "swarm_ok s'"
    unfolding swarm_ok_def
  proof (intro conjI allI impI)
    fix k' m assume r: "registered s' k' = Some m"
    show "\<exists>p. conn s' m = Some p \<and> pe_Address p = k'"
    proof (cases "k' = k")
      case False
      then have "registered s k' = Some m" using r by (simp add: reg)
      then show ?thesis using swarm_ok_registered [OF s] fresh [of k'] unfolding con by fastforce
    qed (use r in \<open>simp add: reg con\<close>)
  next
    fix m p assume p: "conn s' m = Some p" "\<not> pe_closed p"
    show "registered s' (pe_Address p) = Some m"
    proof (cases "m = n")
      case False
      then have r: "registered s k \<noteq> Some m" "conn s m = Some p" using p by (auto simp: con split: if_splits)
      then show ?thesis using swarm_ok_open [OF s r(2) p(2)] by (auto simp: reg)
    qed (use p in \<open>simp add: con reg, auto\<close>)
  qed
  then show ?thesis by (simp add: s'_def)
next
  case (Some p)
  then show ?thesis using s by (simp add: connected_def conn_def)
qed

lemma swarm_ok_end: "swarm_ok s \<Longrightarrow> swarm_ok (readLoop_end n s)"
proof (cases "conn s n")
  case (Some p)
  assume s: "swarm_ok s"
  define t where "t = close_peer n s"
  have t: "swarm_ok t" using s by (simp add: t_def swarm_ok_close)
  have closed: "conn t n = Some (p\<lparr>pe_closed := True\<rparr>)" using Some by (simp add: t_def close_peer_def)
  have "swarm_ok (t\<lparr>sw_peers := fmdrop (pe_Address p) (sw_peers t)\<rparr>)" if reg: "registered t (pe_Address p) = Some n"
    using t reg closed unfolding swarm_ok_def registered_def conn_def by auto (metis option.inject peer.select_convs(3) peer.surjective peer.update_convs(3))+
  then show ?thesis using t Some by (simp add: readLoop_end_def conn_def registered_def Let_def flip: t_def)
qed (simp add: readLoop_end_def conn_def)

text \<open>Sending to a list of distinct connections.\<close>

lemma send_to_views:
  "send_to ok env n (s, c) = (s', c') \<Longrightarrow>
     registered s' = registered s \<and> sw_closed s' = sw_closed s \<and>
     conn s' m = (if m = n then map_option (\<lambda>p. if pe_closed p \<or> \<not> ok n then p
        else p\<lparr>pe_sent := pe_sent p @ [env]\<rparr>) (conn s m) else conn s m) \<and>
     c' = (case conn s n of Some p \<Rightarrow> if pe_closed p \<or> \<not> ok n then c else c + 1 | None \<Rightarrow> c)"
  by (auto simp: send_to_def conn_def [symmetric] split: option.splits if_splits)

definition receives :: "(nat \<Rightarrow> bool) \<Rightarrow> swarm \<Rightarrow> nat \<Rightarrow> bool" where
  "receives ok s n \<longleftrightarrow> (case conn s n of Some p \<Rightarrow> \<not> pe_closed p \<and> ok n | None \<Rightarrow> False)"

lemma send_fold:
  "distinct ns \<Longrightarrow> fold (send_to ok env) ns (s, c) = (s', c') \<Longrightarrow>
     registered s' = registered s \<and> sw_closed s' = sw_closed s \<and>
     (\<forall>m. conn s' m = (if m \<in> set ns \<and> receives ok s m
        then map_option (\<lambda>p. p\<lparr>pe_sent := pe_sent p @ [env]\<rparr>) (conn s m) else conn s m)) \<and>
     c' = c + length (filter (receives ok s) ns)"
proof (induction ns arbitrary: s c)
  case (Cons n ns)
  obtain t d where t: "send_to ok env n (s, c) = (t, d)" by (cases "send_to ok env n (s, c)")
  note v = send_to_views [OF t]
  have other: "receives ok t m = receives ok s m" if "m \<noteq> n" for m
    using v [of m] that by (simp add: receives_def)
  then have "filter (receives ok t) ns = filter (receives ok s) ns"
    using Cons.prems(1) by (intro filter_cong) (metis distinct.simps(2))+
  moreover have "d = c + (if receives ok s n then 1 else 0)"
    using v [of n] by (auto simp: receives_def split: option.splits)
  moreover have run: "fold (send_to ok env) ns (t, d) = (s', c')" using Cons.prems(2) t by simp
  moreover have ns: "distinct ns" "n \<notin> set ns" using Cons.prems(1) by simp_all
  moreover have "conn s' m = (if m \<in> set (n # ns) \<and> receives ok s m
        then map_option (\<lambda>p. p\<lparr>pe_sent := pe_sent p @ [env]\<rparr>) (conn s m) else conn s m)" for m
  proof (cases "m = n")
    case True
    then have "conn s' m = conn t m" using Cons.IH [OF ns(1) run] ns(2) by simp
    then show ?thesis using v [of m] True by (auto simp: receives_def split: option.splits)
  next
    case False
    then show ?thesis using Cons.IH [OF ns(1) run] v [of m] other by simp
  qed
  ultimately show ?case using Cons.IH [OF ns(1) run] v by simp
qed simp

lemma peer_order_registered:
  "swarm_ok s \<Longrightarrow> distinct (peer_order s) \<and> set (peer_order s) = {n. \<exists>k. registered s k = Some n}"
proof -
  assume s: "swarm_ok s"
  let ?f = "\<lambda>k. the (fmlookup (sw_peers s) k)"
  have "inj_on ?f (set (sorted_keys (sw_peers s)))"
  proof (rule inj_onI)
    fix k l assume "k \<in> set (sorted_keys (sw_peers s))" "l \<in> set (sorted_keys (sw_peers s))" "?f k = ?f l"
    then have "\<exists>n. registered s k = Some n \<and> registered s l = Some n" by (auto simp: registered_def fmlookup_dom'_iff)
    then show "k = l" using swarm_ok_registered [OF s] by (metis option.inject)
  qed
  then have "distinct (map ?f (sorted_keys (sw_peers s)))" by (simp add: distinct_map)
  moreover have "?f ` set (sorted_keys (sw_peers s)) = {n. \<exists>k. registered s k = Some n}"
    by (force simp: registered_def fmlookup_dom'_iff)
  ultimately show ?thesis by (simp add: peer_order_def)
qed

text \<open>
  A broadcast reaches every live peer once. In a state the swarm can be in, the envelope is
  appended exactly once to what was sent on each open connection whose write succeeds, on no other,
  and the result counts them; the connections stay as they were otherwise.
\<close>

lemma broadcast_exact:
  assumes s: "swarm_ok s" and b: "swarm_Broadcast ok env s = (s', sent)"
  shows "conn s' n = (if receives ok s n then map_option (\<lambda>p. p\<lparr>pe_sent := pe_sent p @ [env]\<rparr>) (conn s n) else conn s n) \<and>
    registered s' = registered s \<and> sent = card {m. receives ok s m}"
proof -
  note order = peer_order_registered [OF s]
  have sub: "receives ok s m \<Longrightarrow> m \<in> set (peer_order s)" for m
    using swarm_ok_open [OF s] order by (fastforce simp: receives_def split: option.splits)
  have "card {m. receives ok s m} = length (filter (receives ok s) (peer_order s))"
    using sub order by (subst distinct_card [symmetric]) (auto intro: arg_cong [of _ _ card])
  then show ?thesis
    using send_fold [OF conjunct1 [OF order] b [unfolded swarm_Broadcast_def]] sub by auto
qed

lemma swarm_ok_broadcast: "swarm_ok s \<Longrightarrow> swarm_ok (fst (swarm_Broadcast ok env s))"
proof -
  assume s: "swarm_ok s"
  obtain s' c where b: "swarm_Broadcast ok env s = (s', c)" by (cases "swarm_Broadcast ok env s")
  note v = send_fold [OF conjunct1 [OF peer_order_registered [OF s]] b [unfolded swarm_Broadcast_def]]
  show ?thesis unfolding b fst_conv using v by (intro swarm_ok_cong [OF s]) (auto simp: option.map_comp comp_def)
qed

lemma close_all_views:
  "registered (fold close_peer ns s) = registered s \<and>
   conn (fold close_peer ns s) m = (if m \<in> set ns then map_option (\<lambda>p. p\<lparr>pe_closed := True\<rparr>) (conn s m) else conn s m)"
proof (induction ns arbitrary: s)
  case (Cons n ns)
  show ?case using Cons.IH [of "close_peer n s"]
    by (auto simp: close_peer_def option.map_comp comp_def split: if_splits)
qed simp

lemma swarm_ok_Close:
  assumes s: "swarm_ok s" and c: "swarm_Close s = Inr s'"
  shows "swarm_ok s'"
proof -
  define ns where "ns = map (\<lambda>k. the (fmlookup (sw_peers s) k)) (sorted_keys (sw_peers s))"
  have s': "s' = (fold close_peer ns s)\<lparr>sw_peers := fmempty, sw_closed := True\<rparr>"
    using c by (auto simp: swarm_Close_def ns_def split: if_splits)
  have "pe_closed p" if p: "conn (fold close_peer ns s) n = Some p" for n p
  proof (rule ccontr)
    assume open_p: "\<not> pe_closed p"
    then have "n \<notin> set ns" "conn s n = Some p" using p close_all_views [of ns s n] by (auto split: if_splits)
    moreover have "fmlookup (sw_peers s) (pe_Address p) = Some n"
      using swarm_ok_open [OF s _ open_p] calculation(2) by (simp add: registered_def)
    then have "n \<in> (\<lambda>k. the (fmlookup (sw_peers s) k)) ` fmdom' (sw_peers s)"
      by (intro image_eqI [of _ _ "pe_Address p"]) (simp_all add: fmlookup_dom'_iff)
    ultimately show False by (simp add: ns_def)
  qed
  then show ?thesis by (auto simp: s' swarm_ok_def registered_def conn_def)
qed

lemma swarm_step_ok: "swarm_ok s \<Longrightarrow> swarm_ok (swarm_step op s)"
  by (cases op) (auto simp: swarm_ok_close swarm_ok_connected swarm_ok_end swarm_ok_broadcast swarm_ok_Close split: sum.split)

interpretation sw: machine swarm_step "\<lambda>s. s = NewSwarm" swarm_ok
  by unfold_locales (simp_all add: swarm_step_ok, simp add: swarm_ok_def NewSwarm_def registered_def conn_def)

text \<open>
  C30: However connections come, fail and go, and read loops end late, no node has two live
  connections, and a live connection is always the one registered under its node's id: the end of
  the read loop of a replaced connection does not drop the new one.
\<close>

theorem one_live_connection:
  assumes "s = fold swarm_step ops NewSwarm" "conn s n = Some p" "\<not> pe_closed p"
  shows "registered s (pe_Address p) = Some n \<and>
    (\<forall>m q. conn s m = Some q \<and> \<not> pe_closed q \<and> pe_Address q = pe_Address p \<longrightarrow> m = n)"
proof -
  have "swarm_ok s" unfolding assms(1) by (rule sw.reach_inv) (rule refl)
  from swarm_ok_open [OF this] show ?thesis using assms(2,3) by (metis option.inject)
qed

text \<open>
  A node id is whatever the other side claims. A new connection whose handshake names a
  connected node takes that node's place: the live connection to the node is closed, and only the
  newcomer is registered under its id.
\<close>

theorem claimed_id_replaces:
  assumes "swarm_ok s" "registered s (hi_NodeID info) = Some old" "conn s n = None"
  shows "registered (connected n addr info s) (hi_NodeID info) = Some n \<and>
    (\<exists>p. conn (connected n addr info s) old = Some p \<and> pe_closed p)"
proof -
  obtain p where p: "conn s old = Some p" using swarm_ok_registered [OF assms(1,2)] by blast
  then have "old \<noteq> n" using assms(3) by auto
  then show ?thesis using assms(2,3) p
    by (auto simp: connected_def register_def close_peer_def update_peer_def registered_def conn_def Let_def)
qed

section \<open>Witnesses\<close>

definition sample_vote :: message where
  "sample_vote = \<lparr>m_Height = 3, m_Round = 1, m_From = 7,
     m_Body = BVote \<lparr>vt_Type = Prevote, vt_BlockHash = 5, vt_Signature = 9\<rparr>\<rparr>"

definition sample_qc :: qc where
  "sample_qc = \<lparr>qc_Type = Precommit, qc_Height = 3, qc_Round = 1, qc_BlockHash = 5, qc_Signatures = [],
     qc_AggSig = [1, 2], qc_AggBitmap = [7]\<rparr>"

theorem wire_certificate_unaggregated_witness:
  "\<exists>m' qc'. UnmarshalConsensusMessage (Some (wireMessage (sample_vote\<lparr>m_Body := BQC sample_qc\<rparr>) tagQC (wireQC sample_qc))) = Inr m' \<and>
    m_Body m' = BQC qc' \<and> VerifyQC sample_config qc' =
      VerifyQC (sample_config\<lparr>cfg_BLSSigner := None\<rparr>) (sample_qc\<lparr>qc_AggSig := [1], qc_AggBitmap := [1]\<rparr>)"
  by (rule wire_certificate_unaggregated [of "sample_vote\<lparr>m_Body := BQC sample_qc\<rparr>"])
    (simp_all add: MarshalConsensusMessage_def)

text \<open>The texts of two envelopes, and what the reader delivers when the second has not arrived completely.\<close>

definition ping :: envelope where
  "ping = \<lparr>env_Type = TypePing, env_Payload = None\<rparr>"

definition hello :: HandshakeInfo where
  "hello = \<lparr>hi_NodeID = ''n'', hi_Listen = ''l'', hi_Protocol = 1\<rparr>"

definition text_sample :: json_text where
  "text_sample =
     (let p = str (''{'' @ [CHR 0x22] @ ''type'' @ [CHR 0x22] @ '':'' @ [CHR 0x22] @ ''ping'' @ [CHR 0x22] @ '','' @
            [CHR 0x22] @ ''payload'' @ [CHR 0x22] @ '':null}'')
      in \<lparr>jt_print = (\<lambda>j. if j = envelope_json ping then p else [1]),
          jt_parse = (\<lambda>b. if b = p then Some (envelope_json ping) else Some (envelope_json (handshake_envelope hello)))\<rparr>)"

lemma text_sample_printable: "printable text_sample ping" "printable text_sample (handshake_envelope hello)"
  by (simp_all add: printable_def text_sample_def Let_def str_def ping_def TypePing_def envelope_json_def handshake_envelope_def)

lemma write_samples:
  "\<exists>bs. writeFrame text_sample ping = Inr bs" "\<exists>bs. writeFrame text_sample (handshake_envelope hello) = Inr bs"
  by (simp_all add: writeFrame_def text_sample_def Let_def str_def maxFrameSize_def)

theorem frames_delivered_witness:
  "\<exists>frames k. list_all2 (\<lambda>env bs. writeFrame text_sample env = Inr bs) [ping, ping] frames \<and> k \<le> 2 \<and>
     read_frames text_sample (take 40 (concat frames)) = map sent_envelope (take k [ping, ping])"
proof -
  obtain bs where bs: "writeFrame text_sample ping = Inr bs" using write_samples by blast
  have "list_all2 (\<lambda>env bs. printable text_sample env \<and> writeFrame text_sample env = Inr bs) [ping, ping] [bs, bs]"
    by (simp add: bs text_sample_printable)
  from frames_delivered [OF this, of 40] obtain k where "k \<le> length [ping, ping]"
    "read_frames text_sample (take 40 (concat [bs, bs])) = map sent_envelope (take k [ping, ping])" by blast
  then show ?thesis using bs by (intro exI [of _ "[bs, bs]"] exI [of _ k]) simp
qed

theorem handshake_exchange_witness:
  "\<exists>out inp. writeFrame text_sample (handshake_envelope hello) = Inr inp \<and>
     DoHandshake text_sample hello (inp @ [5]) = Inr (out, hello, [5])"
proof -
  obtain bs where bs: "writeFrame text_sample (handshake_envelope hello) = Inr bs" using write_samples by blast
  from handshake_exchange [OF text_sample_printable(2) bs bs, of "[5]"] show ?thesis
    using bs by (auto simp: hello_def ProtocolVersion_def)
qed

definition info_of :: "string \<Rightarrow> HandshakeInfo" where
  "info_of k = \<lparr>hi_NodeID = k, hi_Listen = k, hi_Protocol = 1\<rparr>"

definition two_peers :: swarm where
  "two_peers = fold swarm_step [SwConnected 4 ''a'' (info_of ''n1''), SwConnected 5 ''b'' (info_of ''n2'')] NewSwarm"

lemma two_peers_ok: "swarm_ok two_peers"
  unfolding two_peers_def by (rule sw.reach_inv) (rule refl)

lemma two_peers_views:
  "conn two_peers 4 = Some \<lparr>pe_Addr = ''a'', pe_Address = ''n1'', pe_closed = False, pe_sent = []\<rparr>"
  "conn two_peers 5 = Some \<lparr>pe_Addr = ''b'', pe_Address = ''n2'', pe_closed = False, pe_sent = []\<rparr>"
  "registered two_peers ''n1'' = Some 4" "conn two_peers 6 = None"
  by (simp_all add: two_peers_def connected_def register_def NewSwarm_def info_of_def conn_def registered_def)

theorem one_live_connection_witness:
  "registered (fold swarm_step [SwConnected 4 ''a'' (info_of ''n1''), SwConnected 5 ''b'' (info_of ''n1''), SwLoopEnd 4] NewSwarm)
     ''n1'' = Some 5"
proof -
  let ?s = "fold swarm_step [SwConnected 4 ''a'' (info_of ''n1''), SwConnected 5 ''b'' (info_of ''n1''), SwLoopEnd 4] NewSwarm"
  have "conn ?s 5 = Some \<lparr>pe_Addr = ''b'', pe_Address = ''n1'', pe_closed = False, pe_sent = []\<rparr>"
    by (simp add: connected_def register_def readLoop_end_def close_peer_def update_peer_def NewSwarm_def info_of_def conn_def Let_def)
  from one_live_connection [OF refl this] show ?thesis by simp
qed

theorem claimed_id_replaces_witness:
  "registered (connected 6 ''x'' (info_of ''n1'') two_peers) ''n1'' = Some 6 \<and>
   (\<exists>p. conn (connected 6 ''x'' (info_of ''n1'') two_peers) 4 = Some p \<and> pe_closed p)"
  using claimed_id_replaces [OF two_peers_ok, of "info_of ''n1''" 4 6 "''x''"]
  by (simp add: two_peers_views info_of_def)

end
