(* ===== verification/Node.thy ===== *)
theory Node
  imports Builder NodeConfig Consensus Network PoolInv
begin

text \<open>
  The node: \<open>node/node.go\<close>, \<open>node/consensus.go\<close> and the driver of \<open>node/blockbuilder.go\<close>, which wire the
  chain, the pool, the engine, consensus and the network together. The record \<open>world\<close> holds what
  lies outside the repository or the process: the libraries of the other theories, the file system,
  the listening sockets. Each exported method is one step.
\<close>

section \<open>Surroundings and state\<close>

record ('t, 'k) world =
  w_keccak :: keccak
  w_geth :: "'t geth"
  w_body :: "'t geth_body"
  w_evm :: "uint64 \<Rightarrow> 't evm"
  w_PrivKeyFromBytes :: "bytes \<Rightarrow> 'k"
  w_PubKey :: "'k \<Rightarrow> bytes"
  w_SignCompact :: "hash \<Rightarrow> 'k \<Rightarrow> bytes"
  w_RecoverCompact :: "bytes \<Rightarrow> hash \<Rightarrow> bytes option"
  w_MkdirAll :: "string \<Rightarrow> err option"
  w_Open :: "string \<Rightarrow> memory_store res"
  w_Stat :: "string \<Rightarrow> bool"
  w_LoadGenesis :: "string \<Rightarrow> genesis res"
  w_Listen :: "string \<Rightarrow> err option"
  w_StartRPC :: "int \<Rightarrow> err option"
  w_StopRPC :: "err option"
  w_CloseStore :: "err option"

text \<open>
  The store is kept inside the chain that uses it; \<open>n_store\<close> tells that the field is not nil. The
  engine is known by its chain id. The broadcasts of raw transactions are logged in \<open>n_gossiped\<close>,
  those of consensus in its own state.
\<close>

record 't node =
  n_cfg :: node_config
  n_store :: bool
  n_chain :: "chain option"
  n_pool :: "'t pool option"
  n_rpcSrv :: bool
  n_evm :: "uint64 option"
  n_consensus :: "(consensus_config \<times> cons_state) option"
  n_swarm :: bool
  n_gossipSeen :: "hash fset"
  n_gossiped :: "bytes list"
  n_pendingBuilt :: "'t BuiltBlock option"
  n_started :: bool
  n_stopped :: bool

definition ErrAlreadyStarted :: err where "ErrAlreadyStarted = ErrOther ''already started''"
definition ErrNotStarted :: err where "ErrNotStarted = ErrOther ''not started''"

definition node_New :: "node_config option \<Rightarrow> 't node res" where
  "node_New cfg =
     (case cfg of
        None \<Rightarrow> Inl (ErrOther ''nil config'')
      | Some cfg \<Rightarrow> Inr \<lparr>n_cfg = cfg, n_store = False, n_chain = None, n_pool = None, n_rpcSrv = False, n_evm = None,
          n_consensus = None, n_swarm = False, n_gossipSeen = {||}, n_gossiped = [], n_pendingBuilt = None,
          n_started = False, n_stopped = False\<rparr>)"

section \<open>Starting\<close>

text \<open>\<open>Open\<close> gives the contents of the database in the directory.\<close>

definition openStorage :: "('t, 'k) world \<Rightarrow> node_config \<Rightarrow> memory_store res" where
  "openStorage W cfg =
     (let st = nf_Storage cfg in
      if sc_Backend st = ''memory'' then Inr NewMemory
      else if sc_Backend st = ''pebble'' then
        (case w_MkdirAll W (sc_DataDir st) of Some e \<Rightarrow> Inl e | None \<Rightarrow> w_Open W (sc_DataDir st))
      else Inl (ErrOther ''storage backend''))"

definition initChain :: "('t, 'k) world \<Rightarrow> node_config \<Rightarrow> memory_store \<Rightarrow> chain res" where
  "initChain W cfg store =
     (let genesisPath = cc_Genesis (nf_Chain cfg) in
      and_then (parseChainID (cc_ChainID (nf_Chain cfg))) (\<lambda>chainID.
      if \<not> w_Stat W genesisPath then Inl (ErrOther ''no genesis file'')
      else and_then (w_LoadGenesis W genesisPath) (\<lambda>g.
        if value_or_zero (parseChainID (g_ChainID g)) \<noteq> chainID then Inl (ErrOther ''genesis chain id'')
        else and_then (chain_New store chainID) (\<lambda>c.
          case InitGenesis (w_keccak W) c g of (_, Inl e) \<Rightarrow> Inl e | (c, Inr _) \<Rightarrow> Inr c))))"

definition newDevSigner :: "('t, 'k) world \<Rightarrow> byte \<Rightarrow> 'k \<times> address" where
  "newDevSigner W seed =
     (let priv = w_PrivKeyFromBytes W (replicate 32 seed)
      in (priv, value_or_zero (PubKeyToAddress (w_keccak W) (w_PubKey W priv))))"

definition devSigner_Sign :: "('t, 'k) world \<Rightarrow> 'k \<Rightarrow> hash \<Rightarrow> signature option" where
  "devSigner_Sign W priv digest = (case Sign (w_SignCompact W) digest priv of Inl _ \<Rightarrow> None | Inr s \<Rightarrow> Some s)"

definition devSigner_Verify :: "('t, 'k) world \<Rightarrow> hash \<Rightarrow> signature \<Rightarrow> address \<Rightarrow> bool" where
  "devSigner_Verify W digest sig expected = Verify (w_keccak W) (w_RecoverCompact W) digest sig expected"

definition validator_of :: "string \<Rightarrow> validator list \<Rightarrow> validator list res" where
  "validator_of vs vals = res_map (\<lambda>a. vals @ [\<lparr>v_Address = a, v_Power = 1\<rparr>]) (parseAddrHex vs)"

definition consensus_validators :: "node_config \<Rightarrow> address \<Rightarrow> validator_set res" where
  "consensus_validators cfg self =
     (let vs = cn_Validators (nf_Consensus cfg) in
      if vs = [] then Inr (NewValidatorSet [\<lparr>v_Address = self, v_Power = 1\<rparr>])
      else and_then (each validator_of vs []) (\<lambda>vals.
        let valSet = NewValidatorSet vals in
        if vals_Get valSet self = None then Inl (ErrOther ''not a validator'') else Inr valSet))"

definition node_consensus_config :: "('t, 'k) world \<Rightarrow> 'k \<times> address \<Rightarrow> validator_set \<Rightarrow> consensus_config" where
  "node_consensus_config W signer valSet =
     \<lparr>cfg_Self = snd signer, cfg_Validators = valSet, cfg_Sign = devSigner_Sign W (fst signer),
      cfg_Verify = devSigner_Verify W, cfg_ValidateBlock = None, cfg_BLSSigner = None, cfg_hasSink = True,
      cfg_keccak = w_keccak W\<rparr>"

text \<open>
  What consensus sends goes to the swarm, if there is one; \<open>up\<close> tells on which connections the write
  succeeds.
\<close>

definition outgoing_Broadcast :: "(nat \<Rightarrow> bool) \<Rightarrow> message \<Rightarrow> swarm option \<Rightarrow> swarm option" where
  "outgoing_Broadcast up msg sw =
     (case sw of
        None \<Rightarrow> None
      | Some s \<Rightarrow>
          (case NewConsensusEnvelope msg of
             Inl _ \<Rightarrow> Some s
           | Inr env \<Rightarrow> Some (fst (swarm_Broadcast up env s))))"

text \<open>
  The proposal maker reads the node, so it cannot be a value of the consensus state here; the
  function stored marks that there is one, and \<open>cons_step\<close> below puts what it gives in its place.
\<close>

definition initConsensus :: "('t, 'k) world \<Rightarrow> 't node \<Rightarrow> 't node \<times> unit res" where
  "initConsensus W n =
     (let signer = newDevSigner W (word_of_int (cn_KeySeed (nf_Consensus (n_cfg n)))) in
      case consensus_validators (n_cfg n) (snd signer) of
        Inl e \<Rightarrow> (n, Inl e)
      | Inr valSet \<Rightarrow>
          let opened = (case nc_Listen (nf_Network (n_cfg n)) of
                [] \<Rightarrow> Inr n
              | l # _ \<Rightarrow> (case w_Listen W l of Some e \<Rightarrow> Inl e | None \<Rightarrow> Inr (n\<lparr>n_swarm := True\<rparr>)))
          in case opened of
               Inl e \<Rightarrow> (n, Inl e)
             | Inr n \<Rightarrow>
                 let cfg = node_consensus_config W signer valSet in
                 (case NewState cfg of
                    Inl e \<Rightarrow> (n, Inl e)
                  | Inr st \<Rightarrow>
                      (n\<lparr>n_consensus := Some (cfg, SetProposalMaker (Some (\<lambda>_ _. None)) st)\<rparr>, Inr ())))"

definition close_store :: "'t node \<Rightarrow> 't node" where
  "close_store n = n\<lparr>n_chain := map_option (\<lambda>c. c\<lparr>c_store := mem_Close (c_store c)\<rparr>) (n_chain n)\<rparr>"

definition shutdown :: "'t node \<Rightarrow> 't node" where
  "shutdown n =
     (let n = n\<lparr>n_rpcSrv := False\<rparr>;
          n = (if n_store n then (close_store n)\<lparr>n_store := False\<rparr> else n)
      in n\<lparr>n_started := False\<rparr>)"

text \<open>\<open>startRPC\<close> makes the engine again; a server that failed to start is still in the field.\<close>

definition startRPC :: "('t, 'k) world \<Rightarrow> 't node \<Rightarrow> 't node \<times> unit res" where
  "startRPC W n =
     (let n = n\<lparr>n_evm := Some (value_or_zero (parseChainID (cc_ChainID (nf_Chain (n_cfg n))))), n_rpcSrv := True\<rparr>
      in (n, case w_StartRPC W (rc_HTTP_Port (nf_RPC (n_cfg n))) of Some e \<Rightarrow> Inl e | None \<Rightarrow> Inr ()))"

definition node_pool_config :: "uint256 \<Rightarrow> config" where
  "node_pool_config baseFee =
     \<lparr>c_MaxTxs = 0, c_MaxPerAccount = 0, c_BaseFee = baseFee, c_BlockGasLimit = 30000000\<rparr>"

definition node_Start :: "('t, 'k) world \<Rightarrow> 't node \<Rightarrow> 't node \<times> unit res" where
  "node_Start W n =
     (if n_started n then (n, Inl ErrAlreadyStarted)
      else
        let n = n\<lparr>n_started := True\<rparr> in
        case openStorage W (n_cfg n) of
          Inl e \<Rightarrow> (shutdown n, Inl e)
        | Inr store \<Rightarrow>
            let n = n\<lparr>n_store := True\<rparr> in
            (case initChain W (n_cfg n) store of
               Inl e \<Rightarrow> (shutdown n, Inl e)
             | Inr c \<Rightarrow>
                 let chainID = value_or_zero (parseChainID (cc_ChainID (nf_Chain (n_cfg n))));
                     n = n\<lparr>n_chain := Some c, n_evm := Some chainID\<rparr>
                 in (case u256FromString ''1000000000'' of
                       Inl e \<Rightarrow> (shutdown n, Inl e)
                     | Inr baseFee \<Rightarrow>
                         (case initConsensus W (n\<lparr>n_pool := Some (pool_New (node_pool_config baseFee))\<rparr>) of
                            (n, Inl e) \<Rightarrow> (shutdown n, Inl e)
                          | (n, Inr _) \<Rightarrow>
                              if rc_HTTP_Enabled (nf_RPC (n_cfg n)) then
                                (case startRPC W n of
                                   (n, Inl e) \<Rightarrow> (shutdown n, Inl e)
                                 | (n, Inr _) \<Rightarrow> (n, Inr ()))
                              else (n, Inr ())))))"

section \<open>Stopping\<close>

text \<open>The first error of the two; the swarm is left running.\<close>

definition node_Stop :: "('t, 'k) world \<Rightarrow> 't node \<Rightarrow> 't node \<times> unit res" where
  "node_Stop W n =
     (if \<not> n_started n \<or> n_stopped n then (n, Inl ErrNotStarted)
      else
        let n = n\<lparr>n_stopped := True\<rparr>;
            firstErr = (if n_rpcSrv n then w_StopRPC W else None);
            firstErr = (if n_store n \<and> w_CloseStore W \<noteq> None \<and> firstErr = None then w_CloseStore W else firstErr)
        in (if n_store n then close_store n else n, case firstErr of None \<Rightarrow> Inr () | Some e \<Rightarrow> Inl e))"

definition IsRunning :: "'t node \<Rightarrow> bool" where
  "IsRunning n \<longleftrightarrow> n_started n \<and> \<not> n_stopped n"

section \<open>Transactions and queries\<close>

definition gossipTx :: "('t, 'k) world \<Rightarrow> bytes \<Rightarrow> 't node \<Rightarrow> 't node" where
  "gossipTx W raw n =
     (let h = Keccak256 (w_keccak W) [raw] in
      if h |\<in>| n_gossipSeen n then n
      else
        let seen = finsert h (n_gossipSeen n);
            seen = (if fcard seen > 4096 then {||} else seen)
        in n\<lparr>n_gossipSeen := seen, n_gossiped := (if n_swarm n then n_gossiped n @ [raw] else n_gossiped n)\<rparr>)"

text \<open>A chain whose state manager is nil panics in \<open>View\<close> and in \<open>Begin\<close>.\<close>

definition head_view :: "chain \<Rightarrow> session res" where
  "head_view c = (case c_mgr c of None \<Rightarrow> Inl GoPanic | Some m \<Rightarrow> View m (hd_StateRoot (c_head c)))"

definition ErrNotReady :: err where "ErrNotReady = ErrOther ''not fully started''"

definition SubmitRawTx :: "('t, 'k) world \<Rightarrow> bytes \<Rightarrow> 't node \<Rightarrow> 't node \<times> hash res" where
  "SubmitRawTx W dat n =
     (case (n_evm n, n_pool n, n_chain n) of
        (Some chainID, Some pool, Some c) \<Rightarrow>
          let E = w_evm W chainID; g = w_geth W in
          (case engine_DecodeTx E dat of
             Inl e \<Rightarrow> (n, Inl e)
           | Inr gtx \<Rightarrow>
               (case RecoverSender E chainID gtx of
                  Inl e \<Rightarrow> (n, Inl e)
                | Inr sender \<Rightarrow>
                    (case head_view c of
                       Inl e \<Rightarrow> (n, Inl e)
                     | Inr ro \<Rightarrow>
                         let accountNonce = (case GetAccount ro sender of Inl _ \<Rightarrow> 0 | Inr acc \<Rightarrow> acc_Nonce acc) in
                         (case ValidateAgainstState E g (w_body W) ro gtx sender of
                            Inl e \<Rightarrow> (n, Inl e)
                          | Inr _ \<Rightarrow>
                              (case Add g gtx sender accountNonce pool of
                                 (pool, Some e) \<Rightarrow> (n\<lparr>n_pool := Some pool\<rparr>, Inl e)
                               | (pool, None) \<Rightarrow>
                                   (gossipTx W dat (n\<lparr>n_pool := Some pool\<rparr>), Inr (gt_Hash g gtx)))))))
      | _ \<Rightarrow> (n, Inl ErrNotReady))"

text \<open>The balance is a decimal string; an account that is not there has none.\<close>

definition node_GetBalance :: "address \<Rightarrow> 't node \<Rightarrow> string res" where
  "node_GetBalance addr n =
     (case n_chain n of
        None \<Rightarrow> Inl (ErrOther ''no chain'')
      | Some c \<Rightarrow> and_then (head_view c) (\<lambda>ro.
          case GetAccount ro addr of Inl _ \<Rightarrow> Inr ''0'' | Inr acc \<Rightarrow> Inr (dec_string (unat (acc_Balance acc)))))"

definition node_GetNonce :: "address \<Rightarrow> 't node \<Rightarrow> uint64 res" where
  "node_GetNonce addr n =
     (case n_chain n of
        None \<Rightarrow> Inl (ErrOther ''no chain'')
      | Some c \<Rightarrow> and_then (head_view c) (\<lambda>ro.
          case GetAccount ro addr of Inl _ \<Rightarrow> Inr 0 | Inr acc \<Rightarrow> Inr (acc_Nonce acc)))"

definition call_context :: "head \<Rightarrow> gas \<Rightarrow> execution_context" where
  "call_context head gas =
     \<lparr>x_Height = hd_Height head + 1, x_Timestamp = hd_Height head + 1 + 1700000000, x_Proposer = push_bit 152 1,
      x_BaseFee = uint256_from_uint64 1000000000, x_GasLimit = gas, x_ChainID = 0, x_PrevHash = hd_Hash head\<rparr>"

definition node_Call :: "('t, 'k) world \<Rightarrow> address \<Rightarrow> address \<Rightarrow> bytes \<Rightarrow> gas \<Rightarrow> 't node \<Rightarrow>
    't node \<times> (bytes \<times> uint64 \<times> string) res" where
  "node_Call W from to dat gas n =
     (case (n_evm n, n_chain n) of
        (Some chainID, Some c) \<Rightarrow>
          (case c_mgr c of
             None \<Rightarrow> (n, Inl GoPanic)
           | Some m \<Rightarrow>
               (case Begin m (hd_StateRoot (c_head c)) of
                  Inl e \<Rightarrow> (n, Inl e)
                | Inr sess \<Rightarrow>
                    let (ms, result) = RunCall (w_keccak W) (w_evm W chainID) (m, sess) from to dat gas
                          (call_context (c_head c) gas);
                        n = n\<lparr>n_chain := Some (c\<lparr>c_mgr := Some (fst ms)\<rparr>)\<rparr>
                    in (n, and_then result (\<lambda>r.
                          if \<not> er_Success r then Inr (er_ReturnData r, er_GasUsed r, er_VMError r)
                          else Inr (er_ReturnData r, er_GasUsed r, [])))))
      | _ \<Rightarrow> (n, Inl ErrNotReady))"

definition PoolGet :: "hash \<Rightarrow> 't node \<Rightarrow> 't option res" where
  "PoolGet h n = (case n_pool n of None \<Rightarrow> Inl GoPanic | Some p \<Rightarrow> Inr (pool_Get h p))"

section \<open>Block production\<close>

definition blockBuilder :: "('t, 'k) world \<Rightarrow> uint64 \<Rightarrow> 't pool \<Rightarrow> 't builder" where
  "blockBuilder W chainID pool = NewBlockBuilder (w_evm W chainID) (BaseFee pool) 30000000"

definition build_on_head :: "('t, 'k) world \<Rightarrow> uint64 \<Rightarrow> chain \<Rightarrow> 't pool \<Rightarrow> chain \<times> 't BuiltBlock res" where
  "build_on_head W chainID c pool =
     builder_BuildBlock (w_keccak W) (w_geth W) (w_body W) (blockBuilder W chainID pool) c pool (c_head c)"

text \<open>Packed transactions leave the pool, and the nonce of a sender that can be recovered moves on.\<close>

definition advance_nonce :: "'t geth \<Rightarrow> ('t \<Rightarrow> address option) \<Rightarrow> 't \<Rightarrow> 't pool \<Rightarrow> 't pool" where
  "advance_nonce g from tx pool =
     (case from tx of None \<Rightarrow> pool | Some a \<Rightarrow> SetAccountNonce g a (gt_Nonce g tx + 1) pool)"

definition clean_pool :: "'t geth \<Rightarrow> ('t \<Rightarrow> address option) \<Rightarrow> 't list \<Rightarrow> 't pool \<Rightarrow> 't pool" where
  "clean_pool g from txs pool = fold (advance_nonce g from) txs (fst (RemoveAll g txs pool))"

definition produceBlock :: "('t, 'k) world \<Rightarrow> 't node \<Rightarrow> 't node \<times> unit res" where
  "produceBlock W n =
     (if \<not> n_started n \<or> n_stopped n then (n, Inr ())
      else case (n_chain n, n_pool n, n_evm n) of
        (Some c, Some pool, Some chainID) \<Rightarrow>
          (case build_on_head W chainID c pool of
             (c, Inl e) \<Rightarrow> (n\<lparr>n_chain := Some c\<rparr>, Inl e)
           | (c, Inr built) \<Rightarrow>
               if b_Transactions (bt_Block built) = [] then (n\<lparr>n_chain := Some c\<rparr>, Inr ())
               else (case AppendBlock (w_keccak W) c (Some (bt_Block built)) (bt_Receipts built) of
                   (c, _, Inl e) \<Rightarrow> (n\<lparr>n_chain := Some c\<rparr>, Inl e)
                 | (c, _, Inr _) \<Rightarrow>
                     let from = ev_Sender (w_evm W chainID) (sint (c_ChainID c))
                     in (n\<lparr>n_chain := Some c,
                           n_pool := Some (clean_pool (w_geth W) from (bt_GethTxs built) pool)\<rparr>, Inr ())))
      | _ \<Rightarrow> (n, Inr ()))"

section \<open>Consensus\<close>

definition txFrom :: "('t, 'k) world \<Rightarrow> 't \<Rightarrow> address option" where
  "txFrom W gt =
     (let chainID = big_Uint64 (gb_ChainId (w_body W) gt) in ev_Sender (w_evm W chainID) (sint chainID) gt)"

text \<open>The proposal maker: the block goes to \<open>pendingBuilt\<close>, its code and hash to consensus.\<close>

definition make_proposal :: "('t, 'k) world \<Rightarrow> 't node \<Rightarrow> ('t node \<times> (bytes \<times> hash) option) res" where
  "make_proposal W n =
     (case (n_chain n, n_pool n, n_evm n) of
        (Some c, Some pool, Some chainID) \<Rightarrow>
          (case build_on_head W chainID c pool of
             (c, Inl e) \<Rightarrow> if e = GoPanic then Inl GoPanic else Inr (n\<lparr>n_chain := Some c\<rparr>, None)
           | (c, Inr built) \<Rightarrow>
               let n = n\<lparr>n_chain := Some c, n_pendingBuilt := Some built\<rparr> in
               (case header_Hash (w_keccak W) (b_Header (bt_Block built)) of
                  Inl _ \<Rightarrow> Inr (n, None)
                | Inr blkHash \<Rightarrow>
                    (case block_Encode (bt_Block built) of
                       Inl _ \<Rightarrow> Inr (n, None)
                     | Inr blkData \<Rightarrow> Inr (n, Some (blkData, blkHash)))))
      | _ \<Rightarrow> Inl GoPanic)"

definition pending_for :: "height \<Rightarrow> 't node \<Rightarrow> 't BuiltBlock option" where
  "pending_for h n =
     (case n_pendingBuilt n of
        None \<Rightarrow> None
      | Some built \<Rightarrow> if h_Height (b_Header (bt_Block built)) = h then Some built else None)"

text \<open>\<open>gethTxs != nil\<close>: a built block without transactions has a nil list.\<close>

definition node_CommitBlock :: "('t, 'k) world \<Rightarrow> bytes \<Rightarrow> height \<Rightarrow> 't node \<Rightarrow> 't node \<times> unit res" where
  "node_CommitBlock W blockData h n =
     (case n_chain n of
        None \<Rightarrow> (n, Inl GoPanic)
      | Some c \<Rightarrow>
          (case (case pending_for h n of
                Some built \<Rightarrow> (n\<lparr>n_pendingBuilt := None\<rparr>, Inr (bt_Block built, bt_GethTxs built))
              | None \<Rightarrow> (n, and_then (DecodeBlock blockData) (\<lambda>b. Inr (b, [])))) of
             (n, Inl e) \<Rightarrow> (n, Inl e)
           | (n, Inr (blk, gethTxs)) \<Rightarrow>
               (case AppendBlock (w_keccak W) c (Some blk) [] of
                  (c, _, Inl e) \<Rightarrow> (n\<lparr>n_chain := Some c\<rparr>, Inl e)
                | (c, _, Inr _) \<Rightarrow>
                    (n\<lparr>n_chain := Some c,
                       n_pool := (if gethTxs = [] then n_pool n
                         else map_option (clean_pool (w_geth W) (txFrom W) gethTxs) (n_pool n))\<rparr>, Inr ()))))"

text \<open>
  One call of the consensus state machine. Whether it calls the maker does not depend on what the
  maker gives, so a run with any block tells: it broadcasts a proposal exactly if it called it. The
  commits are its last actions and nothing in the machine depends on their outcome.
\<close>

definition is_proposal :: "message \<Rightarrow> bool" where
  "is_proposal m = (case m_Body m of BProposal _ \<Rightarrow> True | _ \<Rightarrow> False)"

definition maker_called :: "consensus_config \<Rightarrow> cons_op \<Rightarrow> cons_state \<Rightarrow> bool" where
  "maker_called cfg op cs =
     (case cons_exec cfg op (cs\<lparr>cs_makeProposal := Some (\<lambda>_ _. Some ([], 1))\<rparr>) of
        Inl _ \<Rightarrow> False
      | Inr (cs', _) \<Rightarrow> list_ex is_proposal (drop (length (cs_sent cs)) (cs_sent cs')))"

definition commit_all :: "('t, 'k) world \<Rightarrow> (bytes \<times> height) list \<Rightarrow> 't node \<Rightarrow> 't node" where
  "commit_all W cs n = fold (\<lambda>(dat, h) n. fst (node_CommitBlock W dat h n)) cs n"

definition cons_step :: "('t, 'k) world \<Rightarrow> cons_op \<Rightarrow> 't node \<Rightarrow> ('t node \<times> err option) res" where
  "cons_step W op n =
     (case n_consensus n of
        None \<Rightarrow> Inl GoPanic
      | Some (cfg, cs) \<Rightarrow>
          and_then (if maker_called cfg op cs then make_proposal W n else Inr (n, None)) (\<lambda>(n, prop).
          and_then (cons_exec cfg op (cs\<lparr>cs_makeProposal := Some (\<lambda>_ _. prop)\<rparr>)) (\<lambda>(cs', e).
          Inr (commit_all W (drop (length (cs_committed cs)) (cs_committed cs'))
                 (n\<lparr>n_consensus := Some (cfg, cs'\<lparr>cs_makeProposal := cs_makeProposal cs\<rparr>)\<rparr>), e))))"

definition node_height :: "'t node \<Rightarrow> height res" where
  "node_height n = (case n_chain n of None \<Rightarrow> Inl GoPanic | Some c \<Rightarrow> Inr (hd_Height (c_head c)))"

text \<open>A tick of \<open>StartConsensusProduction\<close>; it then only waits for the commit.\<close>

definition production_tick :: "('t, 'k) world \<Rightarrow> uint64 \<Rightarrow> 't node \<Rightarrow> 't node res" where
  "production_tick W now n =
     and_then (node_height n) (\<lambda>h. res_map fst (cons_step W (OpStart (h + 1) now) n))"

definition node_IsCommitted :: "height \<Rightarrow> 't node \<Rightarrow> bool" where
  "node_IsCommitted h n = (case n_consensus n of None \<Rightarrow> False | Some (_, cs) \<Rightarrow> IsCommitted h cs)"

text \<open>
  One round of the loop of \<open>AdvanceConsensus\<close>: take the pending message and handle it. The deadline
  allows a number of rounds, which is the fuel.
\<close>

definition take_and_handle :: "('t, 'k) world \<Rightarrow> 't node \<Rightarrow> 't node res" where
  "take_and_handle W n =
     (case n_consensus n of
        None \<Rightarrow> Inl GoPanic
      | Some (_, cs) \<Rightarrow>
          and_then (cons_step W OpTakePending n) (\<lambda>(n, _).
          case cs_pendingSelf cs of
            None \<Rightarrow> Inr n
          | Some pm \<Rightarrow> res_map fst (cons_step W (OpMessage pm) n)))"

fun advance_loop :: "('t, 'k) world \<Rightarrow> nat \<Rightarrow> height \<Rightarrow> 't node \<Rightarrow> 't node res" where
  "advance_loop W 0 h n = Inr n"
| "advance_loop W (Suc k) h n =
     (if node_IsCommitted h n then Inr n else and_then (take_and_handle W n) (advance_loop W k h))"

definition AdvanceConsensus :: "('t, 'k) world \<Rightarrow> uint64 \<Rightarrow> nat \<Rightarrow> 't node \<Rightarrow> ('t node \<times> err option) res" where
  "AdvanceConsensus W now polls n =
     and_then (node_height n) (\<lambda>h.
     and_then (cons_step W (OpStart (h + 1) now) n) (\<lambda>(n, e).
     case e of
       Some e \<Rightarrow> Inr (n, Some e)
     | None \<Rightarrow> and_then (advance_loop W polls (h + 1) n) (\<lambda>n.
         Inr (n, if node_IsCommitted (h + 1) n then None else Some (ErrOther ''not committed'')))))"

section \<open>Messages from the network\<close>

definition tx_payload :: "json option \<Rightarrow> bytes res" where
  "tx_payload p = read_body (\<lambda>j. and_then (as_object j) (field ''raw'' as_bytes [])) p"

text \<open>The error of a transaction that panics is the panic; all other errors are dropped.\<close>

definition handleNetworkMessage :: "('t, 'k) world \<Rightarrow> envelope \<Rightarrow> 't node \<Rightarrow> 't node res" where
  "handleNetworkMessage W env n =
     (if env_Type env = TypeConsensus then
        (case UnmarshalConsensusMessage (env_Payload env) of
           Inl _ \<Rightarrow> Inr n
         | Inr msg \<Rightarrow> res_map fst (cons_step W (OpMessage msg) n))
      else if env_Type env = TypeTx then
        (case tx_payload (env_Payload env) of
           Inl _ \<Rightarrow> Inr n
         | Inr raw \<Rightarrow>
             if raw = [] then Inr n
             else (case SubmitRawTx W raw n of
                 (n, Inl e) \<Rightarrow> if e = GoPanic then Inl GoPanic else Inr n
               | (n, Inr _) \<Rightarrow> Inr (gossipTx W raw n)))
      else Inr n)"

end
