(* ===== verification/NodeProps.thy ===== *)
theory NodeProps
  imports Node
begin

text \<open>
  What the node does: its life cycle, the admission of transactions, block production, and the
  two ways a block decided by consensus is committed.
\<close>

section \<open>Sequences of calls\<close>

datatype node_op =
    NdStart
  | NdStop
  | NdSubmit bytes
  | NdCall address address bytes gas
  | NdProduce
  | NdTick uint64
  | NdAdvance uint64 nat
  | NdNet envelope

text \<open>A panic ends the process; every other error leaves a state to go on from.\<close>

definition unless_panic :: "'t node \<times> 'a res \<Rightarrow> 't node res" where
  "unless_panic r = (case r of (n, Inl e) \<Rightarrow> if e = GoPanic then Inl GoPanic else Inr n | (n, Inr _) \<Rightarrow> Inr n)"

fun node_exec :: "('t, 'k) world \<Rightarrow> node_op \<Rightarrow> 't node \<Rightarrow> 't node res" where
  "node_exec W NdStart n = unless_panic (node_Start W n)"
| "node_exec W NdStop n = unless_panic (node_Stop W n)"
| "node_exec W (NdSubmit dat) n = unless_panic (SubmitRawTx W dat n)"
| "node_exec W (NdCall from to dat gas) n = unless_panic (node_Call W from to dat gas n)"
| "node_exec W NdProduce n = unless_panic (produceBlock W n)"
| "node_exec W (NdTick now) n = production_tick W now n"
| "node_exec W (NdAdvance now polls) n = res_map fst (AdvanceConsensus W now polls n)"
| "node_exec W (NdNet env) n = handleNetworkMessage W env n"

definition node_run :: "('t, 'k) world \<Rightarrow> node_op list \<Rightarrow> 't node \<Rightarrow> 't node res" where
  "node_run W ops n = each (node_exec W) ops n"

section \<open>What an operation leaves alone\<close>

text \<open>The fields the life cycle is about, which only starting and stopping change.\<close>

definition life :: "'t node \<Rightarrow> node_config \<times> bool \<times> bool \<times> bool \<times> bool \<times> bool \<times> bool \<times> bool \<times> bool \<times> bool" where
  "life n = (n_cfg n, n_store n, n_chain n = None, n_pool n = None, n_rpcSrv n, n_evm n = None, n_consensus n = None,
     n_swarm n, n_started n, n_stopped n)"

lemma life_update [simp]:
  "n_chain n \<noteq> None \<Longrightarrow> life (n\<lparr>n_chain := Some c\<rparr>) = life n" "n_pool n \<noteq> None \<Longrightarrow> life (n\<lparr>n_pool := Some p\<rparr>) = life n"
  "life (n\<lparr>n_gossipSeen := S, n_gossiped := g\<rparr>) = life n" "life (n\<lparr>n_pendingBuilt := b\<rparr>) = life n"
  "n_chain n \<noteq> None \<Longrightarrow> life (n\<lparr>n_chain := Some c, n_pendingBuilt := b\<rparr>) = life n"
  "n_chain n \<noteq> None \<Longrightarrow> n_pool n \<noteq> None \<Longrightarrow> life (n\<lparr>n_chain := Some c, n_pool := Some p\<rparr>) = life n"
  "n_consensus n \<noteq> None \<Longrightarrow> life (n\<lparr>n_consensus := Some x\<rparr>) = life n"
  by (auto simp: life_def)

lemma life_gossip [simp]: "life (gossipTx W raw n) = life n"
  by (simp add: gossipTx_def Let_def)

lemma life_submit [simp]: "life (fst (SubmitRawTx W dat n)) = life n"
  by (auto simp: SubmitRawTx_def Let_def split: option.split sum.split prod.split)

lemma life_call [simp]: "life (fst (node_Call W from to dat gas n)) = life n"
  by (auto simp: node_Call_def Let_def split: option.split sum.split prod.split)

lemma life_produce [simp]: "life (fst (produceBlock W n)) = life n"
  by (auto simp: produceBlock_def Let_def split: option.split sum.split prod.split)

lemma life_commit [simp]: "life (fst (node_CommitBlock W dat h n)) = life n"
  by (auto simp: node_CommitBlock_def life_def split: option.split sum.split prod.split)

lemma life_commits [simp]: "life (commit_all W cs n) = life n"
proof -
  have "life (fold (\<lambda>(dat, h) n. fst (node_CommitBlock W dat h n)) cs m) = life m" for m
    by (induction cs arbitrary: m) auto
  then show ?thesis by (simp add: commit_all_def)
qed

lemma life_proposal: "make_proposal W n = Inr (n', p) \<Longrightarrow> life n' = life n"
  by (auto simp: make_proposal_def Let_def split: option.splits sum.splits prod.splits if_splits)

lemma cons_step_cases:
  assumes "cons_step W op n = Inr (n', e)"
  obtains cfg cs m made cs' where "n_consensus n = Some (cfg, cs)"
    "(if maker_called cfg op cs then make_proposal W n else Inr (n, None)) = Inr (m, made)"
    "cons_exec cfg op (cs\<lparr>cs_makeProposal := Some (\<lambda>_ _. made)\<rparr>) = Inr (cs', e)"
    "n' = commit_all W (drop (length (cs_committed cs)) (cs_committed cs'))
       (m\<lparr>n_consensus := Some (cfg, cs'\<lparr>cs_makeProposal := cs_makeProposal cs\<rparr>)\<rparr>)"
  using assms by (auto simp: cons_step_def and_then_Inr_iff split: option.splits)

lemma life_cons:
  assumes "cons_step W op n = Inr (n', e)"
  shows "life n' = life n"
proof (rule cons_step_cases [OF assms])
  fix cfg cs m made cs'
  assume c: "n_consensus n = Some (cfg, cs)"
    and m: "(if maker_called cfg op cs then make_proposal W n else Inr (n, None)) = Inr (m, made)"
    and n': "n' = commit_all W (drop (length (cs_committed cs)) (cs_committed cs'))
      (m\<lparr>n_consensus := Some (cfg, cs'\<lparr>cs_makeProposal := cs_makeProposal cs\<rparr>)\<rparr>)"
  have eq: "life m = life n" using m life_proposal by (auto split: if_splits)
  then have "n_consensus m \<noteq> None" using c by (auto simp: life_def)
  then show ?thesis using n' eq by simp
qed

lemma life_loop: "advance_loop W k h n = Inr n' \<Longrightarrow> life n' = life n"
proof (induction k arbitrary: n)
  case (Suc k)
  have "life m = life n" if "take_and_handle W n = Inr m" for m
    using that by (auto simp: take_and_handle_def and_then_Inr_iff res_map_Inr_iff split: option.splits dest!: life_cons)
  then show ?case using Suc by (auto simp: and_then_Inr_iff split: if_splits)
qed simp

lemma unless_panic_Inr: "unless_panic r = Inr n \<Longrightarrow> n = fst r"
  by (auto simp: unless_panic_def split: prod.splits sum.splits if_splits)

lemma life_exec: "op \<noteq> NdStart \<Longrightarrow> op \<noteq> NdStop \<Longrightarrow> node_exec W op n = Inr n' \<Longrightarrow> life n' = life n"
proof (cases op)
  case (NdNet env)
  have "life n' = life n" if "SubmitRawTx W raw n = (m, r)" "n' = m \<or> n' = gossipTx W raw m" for m raw and r :: "hash res"
    using that life_submit [of W raw n] by auto
  moreover assume "node_exec W op n = Inr n'"
  ultimately show ?thesis using NdNet
    by (auto simp: handleNetworkMessage_def res_map_Inr_iff split: if_splits sum.splits prod.splits dest: life_cons)
next
  case (NdAdvance now polls)
  assume "node_exec W op n = Inr n'"
  then show ?thesis using NdAdvance
    by (auto simp: AdvanceConsensus_def and_then_Inr_iff res_map_Inr_iff split: option.splits dest!: life_cons life_loop)
qed (auto simp: production_tick_def and_then_Inr_iff res_map_Inr_iff dest!: unless_panic_Inr life_cons)

section \<open>The life cycle\<close>

definition complete :: "'t node \<Rightarrow> bool" where
  "complete n \<longleftrightarrow> n_store n \<and> n_chain n \<noteq> None \<and> n_pool n \<noteq> None \<and> n_evm n \<noteq> None \<and> n_consensus n \<noteq> None \<and>
     n_rpcSrv n = rc_HTTP_Enabled (nf_RPC (n_cfg n))"

definition life_ok :: "'t node \<Rightarrow> bool" where
  "life_ok n \<longleftrightarrow> (if n_started n then complete n else \<not> n_store n \<and> \<not> n_rpcSrv n \<and> \<not> n_stopped n)"

lemma life_ok_cong: "life n' = life n \<Longrightarrow> life_ok n' = life_ok n"
  by (simp add: life_ok_def complete_def life_def)

lemma shutdown_simps [simp]:
  "\<not> n_started (shutdown n)" "\<not> n_store (shutdown n)" "\<not> n_rpcSrv (shutdown n)" "n_stopped (shutdown n) = n_stopped n"
  "n_cfg (shutdown n) = n_cfg n"
  by (simp_all add: shutdown_def close_store_def Let_def)

lemma initConsensus_ok:
  "initConsensus W n = (n', Inr u) \<Longrightarrow> n_consensus n' \<noteq> None \<and> n_cfg n' = n_cfg n \<and> n_store n' = n_store n \<and>
     n_chain n' = n_chain n \<and> n_pool n' = n_pool n \<and> n_evm n' = n_evm n \<and> n_rpcSrv n' = n_rpcSrv n \<and>
     n_started n' = n_started n \<and> n_stopped n' = n_stopped n"
  "initConsensus W n = (n', r) \<Longrightarrow> n_stopped n' = n_stopped n"
  by (auto simp: initConsensus_def Let_def split: sum.splits list.splits option.splits)

text \<open>Starting either completes the node or leaves it as one that was never started.\<close>

lemma Start_cases:
  assumes start: "node_Start W n = (n', r)" and new: "\<not> n_started n"
  shows "n_stopped n' = n_stopped n \<and> (case r of
     Inl e \<Rightarrow> \<not> n_started n' \<and> \<not> n_store n' \<and> \<not> n_rpcSrv n'
   | Inr _ \<Rightarrow> n_started n' \<and> (n_rpcSrv n \<or> complete n'))"
proof -
  show ?thesis
  proof (cases "openStorage W (n_cfg n)")
    case (Inl e)
    then show ?thesis using start new by (auto simp: node_Start_def)
  next
    case store: (Inr store)
    show ?thesis
    proof (cases "initChain W (n_cfg n) store")
      case (Inl e)
      then show ?thesis using start new store by (auto simp: node_Start_def Let_def)
    next
      case c: (Inr c)
      show ?thesis
      proof (cases "u256FromString ''1000000000''")
        case (Inl e)
        then show ?thesis using start new store c by (auto simp: node_Start_def Let_def)
      next
        case fee: (Inr baseFee)
        define n3 where "n3 = n\<lparr>n_started := True, n_store := True, n_chain := Some c,
          n_evm := Some (value_or_zero (parseChainID (cc_ChainID (nf_Chain (n_cfg n))))),
          n_pool := Some (pool_New (node_pool_config baseFee))\<rparr>"
        obtain n4 q where n4: "initConsensus W n3 = (n4, q)" by fastforce
        have r: "(n', r) = (case q of Inl e \<Rightarrow> (shutdown n4, Inl e)
            | Inr _ \<Rightarrow> if rc_HTTP_Enabled (nf_RPC (n_cfg n4)) then
                (case startRPC W n4 of (n, Inl e) \<Rightarrow> (shutdown n, Inl e) | (n, Inr _) \<Rightarrow> (n, Inr ()))
              else (n4, Inr ()))"
          using start new store c fee n4 by (simp add: node_Start_def Let_def n3_def split: sum.split)
        show ?thesis
        proof (cases q)
          case (Inl e)
          then show ?thesis using r initConsensus_ok(2) [OF n4] by (simp add: n3_def)
        next
          case q: (Inr u)
          note ok = initConsensus_ok(1) [OF n4 [unfolded q]]
          show ?thesis using r ok
            by (auto simp: q n3_def startRPC_def complete_def Let_def split: option.splits if_splits)
        qed
      qed
    qed
  qed
qed

lemma Stop_cases: "node_Stop W n = (n', r) \<Longrightarrow> n' = n \<or> n_started n \<and> n' = (if n_store n
    then close_store (n\<lparr>n_stopped := True\<rparr>) else n\<lparr>n_stopped := True\<rparr>)"
  by (auto simp: node_Stop_def Let_def split: if_splits)

lemma life_ok_exec: "life_ok n \<Longrightarrow> node_exec W op n = Inr n' \<Longrightarrow> life_ok n'"
proof -
  assume n: "life_ok n" and e: "node_exec W op n = Inr n'"
  consider "op = NdStart" | "op = NdStop" | "op \<noteq> NdStart" "op \<noteq> NdStop" by blast
  then show ?thesis
  proof cases
    case 1
    obtain m r where m: "node_Start W n = (m, r)" by (cases "node_Start W n")
    then have n': "n' = m" using e 1 by (auto dest: unless_panic_Inr)
    show ?thesis
    proof (cases "n_started n")
      case True
      then show ?thesis using m n' n by (simp add: node_Start_def)
    next
      case False
      then have "\<not> n_stopped n" using n by (simp add: life_ok_def)
      then show ?thesis using Start_cases [OF m False] n' n False by (auto simp: life_ok_def split: sum.splits)
    qed
  next
    case 2
    obtain m r where m: "node_Stop W n = (m, r)" by (cases "node_Stop W n")
    then have "n' = m" using e 2 by (auto dest: unless_panic_Inr)
    then show ?thesis using Stop_cases [OF m] n
      by (auto simp: close_store_def life_ok_def complete_def split: if_splits)
  next
    case 3
    then show ?thesis using life_exec [OF 3 e] life_ok_cong n by blast
  qed
qed

text \<open>What starting a node gives depends on its configuration only, and the configuration never changes.\<close>

lemma initConsensus_result:
  assumes "n_cfg n = n_cfg m"
  shows "snd (initConsensus W n) = snd (initConsensus W m)" "n_cfg (fst (initConsensus W n)) = n_cfg n"
  using assms by (auto simp: initConsensus_def Let_def split: sum.splits list.splits option.splits)

lemma startRPC_result:
  "n_cfg n = n_cfg m \<Longrightarrow> snd (startRPC W n) = snd (startRPC W m)" "n_cfg (fst (startRPC W n)) = n_cfg n"
  by (simp_all add: startRPC_def Let_def)

definition start_rest :: "('t, 'k) world \<Rightarrow> 't node \<Rightarrow> 't node \<times> unit res" where
  "start_rest W n = (case initConsensus W n of
       (n, Inl e) \<Rightarrow> (shutdown n, Inl e)
     | (n, Inr _) \<Rightarrow> if rc_HTTP_Enabled (nf_RPC (n_cfg n)) then
         (case startRPC W n of (n, Inl e) \<Rightarrow> (shutdown n, Inl e) | (n, Inr _) \<Rightarrow> (n, Inr ()))
       else (n, Inr ()))"

lemma start_rest_result:
  assumes "n_cfg n = n_cfg m"
  shows "snd (start_rest W n) = snd (start_rest W m)" "n_cfg (fst (start_rest W n)) = n_cfg n"
proof -
  note i = initConsensus_result [OF assms, of W] initConsensus_result(2) [OF refl, of W m]
  note r = startRPC_result(1) [of "fst (initConsensus W n)" "fst (initConsensus W m)" W]
    startRPC_result(2) [of W "fst (initConsensus W n)"] startRPC_result(2) [of W "fst (initConsensus W m)"]
  show "snd (start_rest W n) = snd (start_rest W m)" "n_cfg (fst (start_rest W n)) = n_cfg n"
    using i r assms unfolding start_rest_def by (auto split: prod.splits sum.splits)
qed

lemma node_Start_eq:
  "node_Start W n = (if n_started n then (n, Inl ErrAlreadyStarted)
     else let n = n\<lparr>n_started := True\<rparr> in case openStorage W (n_cfg n) of Inl e \<Rightarrow> (shutdown n, Inl e)
     | Inr store \<Rightarrow> let n = n\<lparr>n_store := True\<rparr> in
        case initChain W (n_cfg n) store of Inl e \<Rightarrow> (shutdown n, Inl e)
        | Inr c \<Rightarrow> let n = n\<lparr>n_chain := Some c, n_evm := Some (value_or_zero (parseChainID (cc_ChainID (nf_Chain (n_cfg n)))))\<rparr> in
          case u256FromString ''1000000000'' of Inl e \<Rightarrow> (shutdown n, Inl e)
          | Inr baseFee \<Rightarrow> start_rest W (n\<lparr>n_pool := Some (pool_New (node_pool_config baseFee))\<rparr>))"
  unfolding node_Start_def start_rest_def Let_def ..

lemma Start_result:
  "\<not> n_started n \<Longrightarrow> \<not> n_started m \<Longrightarrow> n_cfg n = n_cfg m \<Longrightarrow> snd (node_Start W n) = snd (node_Start W m)"
  by (auto simp: node_Start_eq Let_def intro!: start_rest_result(1) split: sum.split)

lemma Start_cfg: "n_cfg (fst (node_Start W n)) = n_cfg n"
  by (auto simp: node_Start_eq Let_def start_rest_result(2) [OF refl] split: sum.split)

lemma cfg_exec:
  assumes "node_exec W op n = Inr n'"
  shows "n_cfg n' = n_cfg n"
proof -
  consider "op = NdStart" | "op = NdStop" | "op \<noteq> NdStart" "op \<noteq> NdStop" by blast
  then show ?thesis
  proof cases
    case 1
    then show ?thesis using assms Start_cfg by (auto dest: unless_panic_Inr)
  next
    case 2
    then show ?thesis using assms by (auto simp: node_Stop_def close_store_def Let_def dest!: unless_panic_Inr)
  next
    case 3
    then show ?thesis using life_exec [OF 3 assms] by (simp add: life_def)
  qed
qed

text \<open>
  C15: the life cycle of a node. Whatever is done with a new node, unless the process panics: a
  started node has all its components, and the RPC server exactly if it is configured; starting it again is
  refused, and after it was stopped so is stopping it. A node that is not started, because it never was or
  because starting it failed, holds no store and no server and cannot be stopped. It can be started: in any
  surroundings, the start ends as that of the new node would, with success or with the same error, and a
  success leaves it running. A failed start may leave the swarm listening, of which this says
  nothing; that its port is taken then is part of those surroundings.
\<close>

theorem node_lifecycle:
  assumes "node_New cfg = Inr n0" "node_run W ops n0 = Inr n"
  shows "if n_started n
    then n_store n \<and> n_chain n \<noteq> None \<and> n_pool n \<noteq> None \<and> n_evm n \<noteq> None \<and> n_consensus n \<noteq> None
      \<and> n_rpcSrv n = rc_HTTP_Enabled (nf_RPC (n_cfg n)) \<and> node_Start W n = (n, Inl ErrAlreadyStarted)
      \<and> (n_stopped n \<longrightarrow> node_Stop W n = (n, Inl ErrNotStarted))
    else \<not> n_store n \<and> \<not> n_rpcSrv n \<and> \<not> n_stopped n \<and> node_Stop W n = (n, Inl ErrNotStarted)
      \<and> (\<forall>W'. snd (node_Start W' n) = snd (node_Start W' n0) \<and>
          (case node_Start W' n of (n', r) \<Rightarrow> IsRunning n' \<longleftrightarrow> r = Inr ()))"
proof -
  have new: "life_ok n0" "\<not> n_started n0" using assms(1) by (auto simp: node_New_def life_ok_def split: option.splits)
  have life: "life_ok n"
    by (rule each_invariant [where I = life_ok, OF _ new(1) assms(2) [unfolded node_run_def]]) (rule life_ok_exec)
  have cfg: "n_cfg n = n_cfg n0"
    by (rule each_invariant [where I = "\<lambda>m. n_cfg m = n_cfg n0", OF _ refl assms(2) [unfolded node_run_def]])
      (simp add: cfg_exec)
  show ?thesis
  proof (cases "n_started n")
    case True
    then show ?thesis using life by (auto simp: life_ok_def complete_def node_Start_def node_Stop_def)
  next
    case False
    have run: "case node_Start W' n of (n', r) \<Rightarrow> IsRunning n' \<longleftrightarrow> r = Inr ()" for W'
    proof (cases "node_Start W' n")
      case (Pair n' r)
      then show ?thesis using Start_cases [OF Pair False] life False
        by (cases r) (auto simp: IsRunning_def life_ok_def)
    qed
    then show ?thesis using life False by (simp add: life_ok_def node_Stop_def Start_result [OF False new(2) cfg] run)
  qed
qed

section \<open>After stopping\<close>

lemma closed_store: "\<not> mem_open st \<Longrightarrow> mem_Get st ns k = Inl (if k = [] then ErrEmptyKey else ErrClosed)" "\<not> mem_open st \<Longrightarrow> mem_Apply st b = Inl ErrClosed"
  by (simp_all add: mem_Get_def mem_Apply_def mem_open_def)

lemma AppendBlock_closed: "\<not> mem_open (c_store c) \<Longrightarrow> AppendBlock kec c blk rs = (c', x, r) \<Longrightarrow> c' = c"
  by (auto simp: AppendBlock_def append_commit_def GetBlock_def and_then_Inr_iff closed_store Let_def
      split: option.splits sum.splits prod.splits if_splits)

section \<open>One validator\<close>

text \<open>With itself as the only validator, a node's own vote is a quorum: the proposal is committed in the call that makes it.\<close>

definition alone :: "consensus_config \<Rightarrow> bool" where
  "alone cfg \<longleftrightarrow> cfg_Validators cfg = NewValidatorSet [\<lparr>v_Address = cfg_Self cfg, v_Power = 1\<rparr>] \<and> cfg_hasSink cfg"

lemma alone_set:
  "alone cfg \<Longrightarrow> ProposerOf (cfg_Validators cfg) h r = cfg_Self cfg" "alone cfg \<Longrightarrow> Quorum (cfg_Validators cfg) = 1"
  "alone cfg \<Longrightarrow> val_power cfg (cfg_Self cfg) = 1"
  by (simp_all add: alone_def ProposerOf_def Quorum_def NewValidatorSet_def val_power_def vals_Get_def vals_At_def)

text \<open>One vote for a block in an empty set of one validator.\<close>

definition one_vote :: "vote \<Rightarrow> address \<Rightarrow> vote_set \<Rightarrow> vote_set" where
  "one_vote v a vs = vs\<lparr>vs_votes := fmupd a v fmempty, vs_power := 1, vs_byBlock := fmupd (vt_BlockHash v) 1 fmempty,
     vs_maxBlock := vt_BlockHash v, vs_maxPower := 1\<rparr>"

lemma one_vote_add: "vt_BlockHash v \<noteq> 0 \<Longrightarrow> vs_add (newVoteSet ty r) v a 1 1 = Inr (one_vote v a (newVoteSet ty r), True)"
  by (simp add: vs_add_def newVoteSet_def one_vote_def block_power_def Let_def)

lemma one_vote_QC:
  "\<exists>qc. QCOf (one_vote v a (newVoteSet ty r)) h = Some qc \<and> qc_BlockHash qc = vt_BlockHash v"
  by (simp add: QCOf_def one_vote_def Let_def)

lemma one_vote_quorum: "alone cfg \<Longrightarrow> \<not> nil_quorum cfg (one_vote v a (newVoteSet ty r))"
  by (simp add: nil_quorum_def one_vote_def newVoteSet_def alone_set)

lemma sign_vote_hash [simp]: "vt_BlockHash (sign_vote cfg s ty h) = h"
  by (simp add: sign_vote_def Let_def split: option.split)

text \<open>The own vote of a lone validator, when its vote set is empty, leads straight to the quorum.\<close>

lemma alone_votes:
  assumes "alone cfg" "h \<noteq> 0" "votes_of ty s = Some (newVoteSet ty r)" "is_vote_type ty"
  shows "castVote cfg ty h s = onQuorum cfg ty (set_votes ty (one_vote (sign_vote cfg s ty h) (cfg_Self cfg) (newVoteSet ty r))
    (Broadcast (own_message cfg s (BVote (sign_vote cfg s ty h))) s))"
proof -
  let ?v = "sign_vote cfg s ty h"
  have "m_From (own_message cfg s b) = cfg_Self cfg" for b by (simp add: own_message_def)
  moreover have "votes_of ty (Broadcast m s) = Some (newVoteSet ty r)" for m
    using assms(3) by (cases "ty = Prevote") (simp_all add: votes_of_def)
  ultimately show ?thesis
    using assms by (simp add: castVote.simps [of cfg ty h s] recordVote.simps [of cfg] recordVoteTo_def alone_set one_vote_add
        Let_def res_map_def split: sum.split)
qed

lemma alone_commits:
  assumes cfg: "alone cfg" and h: "h \<noteq> 0" and st: "cs_step s = StepPropose"
    "cs_prevotes s = Some (newVoteSet Prevote r)" "cs_precommits s = Some (newVoteSet Precommit r)"
    "cs_makeProposal s = Some (\<lambda>_ _. Some (dat, h))"
  shows "\<exists>s' m1 rest. proposeCurrentRound cfg ts s = Inr s' \<and>
    cs_committed s' = cs_committed s @ [(dat, cs_height s)] \<and> cs_lastCommitted s' = cs_height s \<and>
    cs_sent s' = cs_sent s @ m1 # rest \<and> is_proposal m1"
proof -
  define m1 where "m1 = own_message cfg s (BProposal (sign_proposal cfg s dat h))"
  have body: "proposal_body (Some m1) = Some (sign_proposal cfg s dat h)" by (simp add: m1_def own_message_def proposal_body_def)
  have signed: "pr_BlockHash (sign_proposal cfg s dat h) = h" "pr_Block (sign_proposal cfg s dat h) = dat"
    by (simp_all add: sign_proposal_def Let_def split: option.split)
  define s1 where "s1 = (Broadcast m1 s)\<lparr>cs_proposal := Some m1, cs_step := StepPrevote\<rparr>"
  have "proposeCurrentRound cfg ts s = castVote cfg Prevote h s1"
    using st body signed by (simp add: proposeCurrentRound.simps [of cfg ts s] enterPrevote.simps [of cfg] Let_def s1_def
        flip: m1_def)
  also have "\<dots> = onQuorum cfg Prevote (set_votes Prevote (one_vote (sign_vote cfg s1 Prevote h) (cfg_Self cfg) (newVoteSet Prevote r))
    (Broadcast (own_message cfg s1 (BVote (sign_vote cfg s1 Prevote h))) s1))" (is "_ = onQuorum cfg Prevote ?s2")
    by (rule alone_votes [OF cfg h]) (simp_all add: s1_def votes_of_def st)
  also obtain qc where "QCOf (one_vote (sign_vote cfg s1 Prevote h) (cfg_Self cfg) (newVoteSet Prevote r)) (cs_height s) = Some qc"
      "qc_BlockHash qc = h"
    using one_vote_QC by force
  then have "onQuorum cfg Prevote ?s2 = castVote cfg Precommit h
      ((Broadcast (own_message cfg (lock cfg qc ?s2) (BQC qc)) (lock cfg qc ?s2))\<lparr>cs_step := StepPrecommit\<rparr>)" (is "_ = castVote cfg Precommit h ?s3")
    using one_vote_quorum [OF cfg] by (simp add: onQuorum.simps [of cfg Prevote] s1_def Let_def set_votes_def)
  also have "castVote cfg Precommit h ?s3 = onQuorum cfg Precommit (set_votes Precommit (one_vote (sign_vote cfg ?s3 Precommit h) (cfg_Self cfg) (newVoteSet Precommit r))
    (Broadcast (own_message cfg ?s3 (BVote (sign_vote cfg ?s3 Precommit h))) ?s3))" (is "_ = onQuorum cfg Precommit ?s4")
    by (rule alone_votes [OF cfg h]) (simp_all add: s1_def votes_of_def st set_votes_def)
  also obtain qc' where "QCOf (one_vote (sign_vote cfg ?s3 Precommit h) (cfg_Self cfg) (newVoteSet Precommit r)) (cs_height s) = Some qc'"
      "qc_BlockHash qc' = h"
    using one_vote_QC by force
  then have "onQuorum cfg Precommit ?s4 = Inr (commitCurrent cfg qc' (?s4\<lparr>cs_anyPrecommitQC := Some qc'\<rparr>))"
    using one_vote_quorum [OF cfg] by (simp add: onQuorum.simps [of cfg Precommit] s1_def Let_def set_votes_def)
  finally show ?thesis
    using body signed \<open>qc_BlockHash qc' = h\<close> cfg
    by (simp add: commitCurrent_def Let_def s1_def set_votes_def CommitBlock_def alone_def m1_def is_proposal_def own_message_def)
qed

lemma alone_starts:
  assumes cfg: "alone cfg" and h: "h \<noteq> 0" and new: "\<not> (ht \<le> cs_lastCommitted cs \<and> cs_lastCommitted cs > 0)"
  shows "\<exists>cs' m1 rest. StartNewHeight cfg ht ts (cs\<lparr>cs_makeProposal := Some (\<lambda>_ _. Some (dat, h))\<rparr>) = Inr (cs', None) \<and>
    cs_committed cs' = cs_committed cs @ [(dat, ht)] \<and> cs_lastCommitted cs' = ht \<and>
    cs_sent cs' = cs_sent cs @ m1 # rest \<and> is_proposal m1"
proof -
  define s where "s = (new_round 0 (cs\<lparr>cs_makeProposal := Some (\<lambda>_ _. Some (dat, h))\<rparr>))\<lparr>cs_height := ht, cs_lockedHash := 0, cs_lockedRound := 0\<rparr>"
  have "cs_step s = StepPropose" "cs_prevotes s = Some (newVoteSet Prevote 0)" "cs_precommits s = Some (newVoteSet Precommit 0)"
    "cs_makeProposal s = Some (\<lambda>_ _. Some (dat, h))" "cs_committed s = cs_committed cs" "cs_sent s = cs_sent cs" "cs_height s = ht"
    by (simp_all add: s_def)
  from alone_commits [OF cfg h this(1-4), of ts] this(5-7) show ?thesis
    using new by (auto simp: StartNewHeight_def Let_def alone_set(1) [OF cfg] ok_def simp flip: s_def)
qed

text \<open>The pool after a block.\<close>

lemma advance_nonces_shrink:
  "pool_ok g p \<Longrightarrow> pool_ok g (fold (advance_nonce g from) txs p) \<and>
   (\<forall>h e. fmlookup (p_byHash (fold (advance_nonce g from) txs p)) h = Some e \<longrightarrow> fmlookup (p_byHash p) h = Some e)"
proof (induction txs arbitrary: p)
  case (Cons tx txs)
  have "pool_ok g (advance_nonce g from tx p) \<and>
     (\<forall>h e. fmlookup (p_byHash (advance_nonce g from tx p)) h = Some e \<longrightarrow> fmlookup (p_byHash p) h = Some e)"
  proof (cases "from tx")
    case (Some a)
    then show ?thesis using SetAccountNonce_result [OF Cons.prems, of a "gt_Nonce g tx + 1"]
      by (auto simp: advance_nonce_def without_def split: option.splits if_splits)
  qed (use Cons.prems in \<open>simp add: advance_nonce_def\<close>)
  then show ?case using Cons.IH [of "advance_nonce g from tx p"] by auto
qed simp

lemma clean_pool_result:
  assumes "pool_ok g p"
  shows "pool_ok g (clean_pool g from txs p) \<and> (\<forall>tx\<in>set txs. pool_Get (gt_Hash g tx) (clean_pool g from txs p) = None) \<and>
    (\<forall>h e. fmlookup (p_byHash (clean_pool g from txs p)) h = Some e \<longrightarrow> fmlookup (p_byHash p) h = Some e)"
proof -
  obtain q k where q: "remove_each g txs p = (q, k)" by (cases "remove_each g txs p")
  note r = remove_each_result [OF assms q]
  have "pool_ok g (refreshStatsLocked q)" using r by simp
  from advance_nonces_shrink [OF this, of "from" txs]
  have s: "pool_ok g (clean_pool g from txs p)"
    "\<And>h e. fmlookup (p_byHash (clean_pool g from txs p)) h = Some e \<Longrightarrow> fmlookup (p_byHash q) h = Some e"
    by (auto simp: clean_pool_def RemoveAll_def q)
  have gone: "\<And>h e. fmlookup (p_byHash q) h = Some e \<Longrightarrow> fmlookup (p_byHash p) h = Some e \<and> e_hash e \<notin> gt_Hash g ` set txs"
    using r by (auto simp: without_def split: option.splits if_splits)
  have own: "\<And>h e. fmlookup (p_byHash p) h = Some e \<Longrightarrow> e_hash e = h"
    using assms by (simp add: pool_ok_def indices_ok_def)
  have "pool_Get (gt_Hash g tx) (clean_pool g from txs p) = None" if tx: "tx \<in> set txs" for tx
  proof (rule ccontr)
    assume "pool_Get (gt_Hash g tx) (clean_pool g from txs p) \<noteq> None"
    then obtain e where "fmlookup (p_byHash (clean_pool g from txs p)) (gt_Hash g tx) = Some e" by (auto simp: pool_Get_def)
    then have e: "fmlookup (p_byHash p) (gt_Hash g tx) = Some e" "e_hash e \<notin> gt_Hash g ` set txs" using s(2) gone by blast+
    then show False using own [OF e(1)] tx by simp
  qed
  then show ?thesis using s gone by blast
qed

lemma commit_pending:
  assumes n: "n_chain n = Some c1" "n_pendingBuilt n = Some built"
    and built: "build_on_head W chainID c pool = (c1, Inr built)"
    and c: "represents (w_keccak W) c bs" "unat (hd_Height (c_head c)) < 2 ^ 64 - 1"
    and enc: "is_ok (block_Encode (bt_Block built))"
  obtains c2 m where
    "node_CommitBlock W dat (hd_Height (c_head c) + 1) n = (n\<lparr>n_chain := Some c2, n_pendingBuilt := None,
       n_pool := if bt_GethTxs built = [] then n_pool n
         else map_option (clean_pool (w_geth W) (txFrom W) (bt_GethTxs built)) (n_pool n)\<rparr>, Inr ())"
    "represents (w_keccak W) c2 (bs @ [bt_Block built])"
    "c_mgr c2 = Some m" "is_ok (Begin m (hd_StateRoot (c_head c2)))"
proof -
  have b: "builder_BuildBlock (w_keccak W) (w_geth W) (w_body W) (blockBuilder W chainID pool) c pool (c_head c) = (c1, Inr built)"
    using built by (simp add: build_on_head_def)
  have "h_Height (b_Header (bt_Block built)) = hd_Height (c_head c) + 1" by (rule BuildBlock_fits [OF b])
  then have p: "pending_for (hd_Height (c_head c) + 1) n = Some built" by (simp add: pending_for_def n)
  obtain c2 blk' r where a: "AppendBlock (w_keccak W) c1 (Some (bt_Block built)) [] = (c2, blk', r)" using prod_cases3 by blast
  from append_built [OF c(1) b c(2) a] enc obtain m where r: "r = Inr ()"
      "represents (w_keccak W) c2 (bs @ [bt_Block built])"
      "c_mgr c2 = Some m" "is_ok (Begin m (hd_StateRoot (c_head c2)))" by auto
  show thesis by (rule that [OF _ r(2-4)]) (simp add: node_CommitBlock_def p n a r(1))
qed

text \<open>
  C4: a node that is the only validator makes progress. Let its consensus not be ahead of its chain, its head below
  the last height of 64 bits, and let the block it builds on its head be encodable, with a hash that is not zero.
  Then \<open>AdvanceConsensus\<close> succeeds in one call, without waiting: the chain represents its blocks and that
  one, the state of the new head can be opened, and the pool keeps its invariant, has no packed
  transaction any more and gained none. The block is appended whether or not it can be read back.
\<close>

theorem single_validator_advances:
  assumes cons: "n_consensus n = Some (cfg, cs)" "alone cfg" "cs_lastCommitted cs \<le> hd_Height (c_head c)"
    and n: "n_chain n = Some c" "n_pool n = Some pool" "n_evm n = Some chainID"
    and c: "represents (w_keccak W) c bs" "unat (hd_Height (c_head c)) < 2 ^ 64 - 1"
    and pool: "pool_ok (w_geth W) pool"
    and built: "build_on_head W chainID c pool = (c1, Inr built)"
    and enc: "is_ok (block_Encode (bt_Block built))"
    and hash: "header_Hash (w_keccak W) (b_Header (bt_Block built)) = Inr h" "h \<noteq> 0"
  shows "\<exists>n' c2 m pool'. AdvanceConsensus W now polls n = Inr (n', None) \<and> n_chain n' = Some c2 \<and>
    represents (w_keccak W) c2 (bs @ [bt_Block built]) \<and>
    c_mgr c2 = Some m \<and> is_ok (Begin m (hd_StateRoot (c_head c2))) \<and>
    n_pool n' = Some pool' \<and> pool_ok (w_geth W) pool' \<and>
    (\<forall>gtx\<in>set (bt_GethTxs built). pool_Get (gt_Hash (w_geth W) gtx) pool' = None) \<and>
    (\<forall>h gtx. pool_Get h pool' = Some gtx \<longrightarrow> pool_Get h pool = Some gtx)"
proof -
  let ?ht = "hd_Height (c_head c) + 1"
  have "hd_Height (c_head c) < ?ht" using c(2) by (simp add: word_less_nat_alt unat_word_ariths)
  then have new: "\<not> (?ht \<le> cs_lastCommitted cs \<and> cs_lastCommitted cs > 0)" using cons(3) by (meson leD le_less_trans)
  obtain dat where dat: "block_Encode (bt_Block built) = Inr dat" using enc by (auto simp: is_ok_iff)
  have called: "maker_called cfg (OpStart ?ht now) cs"
    using alone_starts [OF cons(2) _ new, of 1 now "[]"] by (auto simp: maker_called_def)
  have made: "make_proposal W n = Inr (n\<lparr>n_chain := Some c1, n_pendingBuilt := Some built\<rparr>, Some (dat, h))"
    by (simp add: make_proposal_def n built hash dat Let_def)
  obtain cs' m1 rest where cs': "cons_exec cfg (OpStart ?ht now) (cs\<lparr>cs_makeProposal := Some (\<lambda>_ _. Some (dat, h))\<rparr>) = Inr (cs', None)"
      "cs_committed cs' = cs_committed cs @ [(dat, ?ht)]" "cs_lastCommitted cs' = ?ht"
    using alone_starts [OF cons(2) hash(2) new, of now dat] by auto
  define n1 where "n1 = n\<lparr>n_chain := Some c1, n_pendingBuilt := Some built,
    n_consensus := Some (cfg, cs'\<lparr>cs_makeProposal := cs_makeProposal cs\<rparr>)\<rparr>"
  obtain c2 m where com: "node_CommitBlock W dat ?ht n1 = (n1\<lparr>n_chain := Some c2, n_pendingBuilt := None,
       n_pool := if bt_GethTxs built = [] then n_pool n1
         else map_option (clean_pool (w_geth W) (txFrom W) (bt_GethTxs built)) (n_pool n1)\<rparr>, Inr ())"
    "represents (w_keccak W) c2 (bs @ [bt_Block built])"
    "c_mgr c2 = Some m" "is_ok (Begin m (hd_StateRoot (c_head c2)))"
    by (rule commit_pending [OF _ _ built c enc, of n1]) (simp_all add: n1_def)
  have "cons_step W (OpStart ?ht now) n = Inr (fst (node_CommitBlock W dat ?ht n1), None)"
    using cs'(1) by (simp add: cons_step_def cons(1) called made cs'(2) commit_all_def n1_def)
  moreover have "n_consensus (fst (node_CommitBlock W dat ?ht n1)) = n_consensus n1" by (simp add: com(1))
  then have "node_IsCommitted ?ht (fst (node_CommitBlock W dat ?ht n1))"
    using cs'(3) by (simp add: node_IsCommitted_def n1_def IsCommitted_def)
  moreover from this have "advance_loop W polls ?ht (fst (node_CommitBlock W dat ?ht n1)) = Inr (fst (node_CommitBlock W dat ?ht n1))"
    by (cases polls) simp_all
  ultimately have "AdvanceConsensus W now polls n = Inr (fst (node_CommitBlock W dat ?ht n1), None)"
    by (simp add: AdvanceConsensus_def node_height_def n)
  moreover define pool' where "pool' = (if bt_GethTxs built = [] then pool
      else clean_pool (w_geth W) (txFrom W) (bt_GethTxs built) pool)"
  moreover have "n_pool n1 = Some pool" by (simp add: n1_def n)
  then have "n_pool (fst (node_CommitBlock W dat ?ht n1)) = Some pool'" "n_chain (fst (node_CommitBlock W dat ?ht n1)) = Some c2"
    by (simp_all add: com(1) pool'_def)
  moreover have "pool_ok (w_geth W) pool'" "\<forall>gtx\<in>set (bt_GethTxs built). pool_Get (gt_Hash (w_geth W) gtx) pool' = None"
    "\<forall>h gtx. pool_Get h pool' = Some gtx \<longrightarrow> pool_Get h pool = Some gtx"
    using clean_pool_result [OF pool, of "txFrom W" "bt_GethTxs built"] pool by (auto simp: pool'_def pool_Get_def)
  ultimately show ?thesis using com(2-4) by blast
qed

text \<open>
  a node that has built a block for a height stores that block when consensus decides the height,
  whatever block it decided: the data that consensus hands over is not looked at, and the head of
  the node's chain is its own block. A node whose proposal lost its round is on a fork.
\<close>

theorem commit_stores_own_block:
  assumes n: "n_chain n = Some c1" "n_pendingBuilt n = Some built"
    and built: "build_on_head W chainID c pool = (c1, Inr built)"
    and c: "represents (w_keccak W) c bs" "unat (hd_Height (c_head c)) < 2 ^ 64 - 1"
    and enc: "is_ok (block_Encode (bt_Block built))"
  shows "\<exists>n' c2. (\<forall>decided. node_CommitBlock W decided (hd_Height (c_head c) + 1) n = (n', Inr ())) \<and>
    n_chain n' = Some c2 \<and> header_Hash (w_keccak W) (b_Header (bt_Block built)) = Inr (hd_Hash (c_head c2))"
proof -
  obtain c2 m where com: "node_CommitBlock W [] (hd_Height (c_head c) + 1) n = (n\<lparr>n_chain := Some c2, n_pendingBuilt := None,
       n_pool := if bt_GethTxs built = [] then n_pool n
         else map_option (clean_pool (w_geth W) (txFrom W) (bt_GethTxs built)) (n_pool n)\<rparr>, Inr ())"
    "represents (w_keccak W) c2 (bs @ [bt_Block built])"
    by (rule commit_pending [OF assms, of "[]"])
  have "builder_BuildBlock (w_keccak W) (w_geth W) (w_body W) (blockBuilder W chainID pool) c pool (c_head c) = (c1, Inr built)"
    using built by (simp add: build_on_head_def)
  then have "h_Height (b_Header (bt_Block built)) = hd_Height (c_head c) + 1" by (rule BuildBlock_fits)
  then have "node_CommitBlock W decided (hd_Height (c_head c) + 1) n = node_CommitBlock W [] (hd_Height (c_head c) + 1) n" for decided
    by (simp add: node_CommitBlock_def pending_for_def n)
  moreover have "header_Hash (w_keccak W) (b_Header (bt_Block built)) = Inr (hd_Hash (c_head c2))"
    using com(2) by (simp add: represents_def)
  ultimately show ?thesis using com(1) by auto
qed

section \<open>A sample node\<close>

definition world_sample :: "keccak \<Rightarrow> (nat, unit) world" where
  "world_sample kec = \<lparr>w_keccak = kec, w_geth = geth_sample, w_body = body_sample, w_evm = (\<lambda>_. engine_sample),
     w_PrivKeyFromBytes = (\<lambda>_. ()), w_PubKey = (\<lambda>_. []), w_SignCompact = (\<lambda>_ _. []), w_RecoverCompact = (\<lambda>_ _. None),
     w_MkdirAll = (\<lambda>_. None), w_Open = (\<lambda>_. Inr NewMemory), w_Stat = (\<lambda>_. True), w_LoadGenesis = (\<lambda>_. Inr genesis_min),
     w_Listen = (\<lambda>_. None), w_StartRPC = (\<lambda>_. None), w_StopRPC = None, w_CloseStore = None\<rparr>"

definition sample_consensus :: "keccak \<Rightarrow> consensus_config" where
  "sample_consensus kec = node_consensus_config (world_sample kec) ((), 5) (NewValidatorSet [\<lparr>v_Address = 5, v_Power = 1\<rparr>])"

definition node_sample :: "keccak \<Rightarrow> chain \<Rightarrow> nat node" where
  "node_sample kec c = \<lparr>n_cfg = config_default, n_store = True, n_chain = Some c, n_pool = Some sample_pool, n_rpcSrv = True,
     n_evm = Some 7, n_consensus = Some (sample_consensus kec, initial_state), n_swarm = False, n_gossipSeen = {||},
     n_gossiped = [], n_pendingBuilt = None, n_started = True, n_stopped = False\<rparr>"

lemma blockBuilder_sample: "blockBuilder (world_sample kec) 7 sample_pool = builder_sample"
  by (simp add: blockBuilder_def builder_sample_def world_sample_def BaseFee_def sample_pool_def insert_entry_def
      record_nonce_def pool_New_Default Let_def refreshStatsLocked_def)

lemma represents_single:
  "represents kec c [b] \<Longrightarrow> header_Hash kec' (b_Header b) = header_Hash kec (b_Header b) \<Longrightarrow> represents kec' c [b]"
  by (simp add: represents_def links_def)

text \<open>A chain of one block with hash 0 under a hash function that gives every other header the hash 1.\<close>

lemma sample_ready_full:
  obtains kec c b c1 built where "represents kec c [b]" "c_head c = \<lparr>hd_Height = 0, hd_Hash = 0, hd_StateRoot = 0\<rparr>"
    "build_on_head (world_sample kec) 7 c sample_pool = (c1, Inr built)" "bt_GethTxs built = [4]"
    "readable (bt_Block built)" "is_ok (block_Encode (bt_Block built))"
    "header_Hash kec (b_Header (bt_Block built)) = Inr 1" "\<forall>h i. GetReceipt c h i = Inl ErrNotFound"
proof -
  obtain c m b where c: "represents k0 c [b]" "c_mgr c = Some m" "c_head c = \<lparr>hd_Height = 0, hd_Hash = 0, hd_StateRoot = 0\<rparr>"
    "\<forall>h i. GetReceipt c h i = Inl ErrNotFound"
    by (rule init_sample_full)
  have hash: "header_Hash k0 (b_Header b) = Inr 0" and h0: "h_Height (b_Header b) = 0"
    using c(1,3) by (simp_all add: represents_def links_def unat_eq_zero)
  obtain hb where hb: "header_Encode (b_Header b) = Inr hb" using hash by (auto simp: header_Hash_def and_then_Inr_iff)
  define kec :: keccak where "kec = (\<lambda>bs. if bs = hb then 0 else 1)"
  have "header_Hash kec (b_Header b) = Inr 0" by (simp add: header_Hash_def hb Keccak256_def kec_def)
  then have r: "represents kec c [b]" using represents_single [OF c(1)] hash by simp
  obtain c1 built x where b: "builder_BuildBlock kec geth_sample body_sample builder_sample c sample_pool (c_head c) = (c1, Inr built)"
    "b_Transactions (bt_Block built) = [tx_built]" "bt_GethTxs built = [4]" "bt_Receipts built = [x]" "sample_receipt kec x"
    "h_ExtraData (b_Header (bt_Block built)) = []"
    by (rule build_sample_1559 [OF c(2), of "c_head c" kec]) (simp_all add: c(3))
  have "h_Height (b_Header (bt_Block built)) = 1" using BuildBlock_fits [OF b(1)] by (simp add: c(3))
  moreover obtain hb' where hb': "header_Encode (b_Header (bt_Block built)) = Inr hb'" using b(6) by (simp add: header_Encode_def)
  ultimately have "hb' \<noteq> hb" using arg_cong [OF iffD1 [OF header_Encode_eq_iff [OF hb hb']], of h_Height] h0 by auto
  then have h: "header_Hash kec (b_Header (bt_Block built)) = Inr 1"
    by (simp add: header_Hash_def hb' Keccak256_def kec_def)
  have tx: "tx_ok (tx_built\<lparr>tx_From := 0\<rparr>)" and e: "\<exists>enc. tx_Encode tx_built = Inr enc \<and> length enc \<le> 1000"
    by (simp_all add: tx_ok_def tx_built_def tx_Encode_def fees_ok_def tx_types tx_type_prefix_def
        SigningPayload_def size_consts)
  then have "is_ok (block_Encode (bt_Block built))" using one_tx_Encode [OF b(6,2)] by blast
  moreover have "build_on_head (world_sample kec) 7 c sample_pool = (c1, Inr built)"
    using b(1) by (simp add: build_on_head_def blockBuilder_sample) (simp add: world_sample_def)
  moreover have "readable (bt_Block built)" using tx by (simp add: readable_def b(2))
  ultimately show thesis using that [OF r c(3)] b(3) h c(4) by simp
qed

lemma sample_ready:
  obtains kec c b c1 built where "represents kec c [b]" "c_head c = \<lparr>hd_Height = 0, hd_Hash = 0, hd_StateRoot = 0\<rparr>"
    "build_on_head (world_sample kec) 7 c sample_pool = (c1, Inr built)" "bt_GethTxs built = [4]"
    "readable (bt_Block built)" "is_ok (block_Encode (bt_Block built))"
    "header_Hash kec (b_Header (bt_Block built)) = Inr 1"
  by (rule sample_ready_full) (rule that)

lemma world_sample_keccak [simp]: "w_keccak (world_sample kec) = kec"
  by (simp add: world_sample_def)

lemma sample_consensus_alone: "alone (sample_consensus kec)"
  by (simp add: alone_def sample_consensus_def node_consensus_config_def)

lemma sample_ready_receipts:
  assumes "build_on_head (world_sample kec) 7 c sample_pool = (c1, Inr built)" "hd_StateRoot (c_head c) = 0"
  shows "list_all (\<lambda>r. is_ok (receipt_Encode kec r)) (bt_Receipts built)" "b_Transactions (bt_Block built) = [tx_built]"
    "list_all (receipt_ok kec) (bt_Receipts built)"
proof -
  obtain m where m: "c_mgr c = Some m" using assms(1) by (auto simp: build_on_head_def builder_BuildBlock_def split: option.splits)
  obtain c' built' r where b: "builder_BuildBlock kec geth_sample body_sample builder_sample c sample_pool (c_head c) = (c', Inr built')"
    "b_Transactions (bt_Block built') = [tx_built]" "bt_Receipts built' = [r]" "sample_receipt kec r"
    by (rule build_sample_1559 [OF m assms(2)])
  have "built' = built" using b(1) assms(1) unfolding build_on_head_def blockBuilder_sample by (simp add: world_sample_def)
  then show "list_all (\<lambda>r. is_ok (receipt_Encode kec r)) (bt_Receipts built)" "b_Transactions (bt_Block built) = [tx_built]"
    "list_all (receipt_ok kec) (bt_Receipts built)"
    using b(2-4) sample_receipt_Encode sample_receipt_ok by auto
qed

theorem single_validator_advances_witness:
  "\<exists>kec c b n' c2 pool'. represents kec c [b]
    \<and> AdvanceConsensus (world_sample kec) 99 0 (node_sample kec c) = Inr (n', None)
    \<and> n_chain n' = Some c2 \<and> (\<exists>b2. represents kec c2 [b, b2] \<and> b_Transactions b2 \<noteq> [])
    \<and> n_pool n' = Some pool' \<and> pool_Get 4 sample_pool \<noteq> None \<and> pool_Get 4 pool' = None"
proof -
  obtain kec c b c1 built where s: "represents kec c [b]" "c_head c = \<lparr>hd_Height = 0, hd_Hash = 0, hd_StateRoot = 0\<rparr>"
    "build_on_head (world_sample kec) 7 c sample_pool = (c1, Inr built)" "bt_GethTxs built = [4]"
    "readable (bt_Block built)" "is_ok (block_Encode (bt_Block built))"
    "header_Hash kec (b_Header (bt_Block built)) = Inr 1"
    by (rule sample_ready)
  let ?n = "node_sample kec c"
  have n: "n_consensus ?n = Some (sample_consensus kec, initial_state)" "n_chain ?n = Some c"
    "n_pool ?n = Some sample_pool" "n_evm ?n = Some 7" "cs_lastCommitted initial_state \<le> hd_Height (c_head c)"
    by (simp_all add: node_sample_def initial_state_def)
  have g: "w_geth (world_sample kec) = geth_sample" "gt_Hash geth_sample 4 = 4" by (simp_all add: world_sample_def geth_sample_def)
  have "\<exists>n' c2 m pool'. AdvanceConsensus (world_sample kec) 99 0 ?n = Inr (n', None) \<and> n_chain n' = Some c2 \<and>
     represents kec c2 ([b] @ [bt_Block built]) \<and> n_pool n' = Some pool' \<and> pool_Get 4 pool' = None"
    using single_validator_advances [OF n(1) sample_consensus_alone n(5,2-4), of "world_sample kec" "[b]" c1 built 1 99 0]
      s sample_pool_ok g by auto
  moreover have "b_Transactions (bt_Block built) \<noteq> []" by (simp add: sample_ready_receipts [OF s(3)] s(2))
  moreover have "pool_Get 4 sample_pool \<noteq> None" by (simp add: pool_Get_def sample_pool_byHash)
  ultimately show ?thesis using s(1) by (metis append_Cons append_Nil)
qed

theorem commit_stores_own_block_witness:
  "\<exists>kec n c2 m. node_CommitBlock (world_sample kec) [] 1 n = (m, Inr ()) \<and> n_chain m = Some c2 \<and> hd_Hash (c_head c2) = 1"
proof -
  obtain kec c b c1 built where s: "represents kec c [b]" "c_head c = \<lparr>hd_Height = 0, hd_Hash = 0, hd_StateRoot = 0\<rparr>"
    "build_on_head (world_sample kec) 7 c sample_pool = (c1, Inr built)" "bt_GethTxs built = [4]"
    "readable (bt_Block built)" "is_ok (block_Encode (bt_Block built))"
    "header_Hash kec (b_Header (bt_Block built)) = Inr 1"
    by (rule sample_ready)
  from commit_stores_own_block [OF _ _ s(3) _ _ s(6), of "(node_sample kec c1)\<lparr>n_pendingBuilt := Some built\<rparr>" "[b]"]
  show ?thesis using s(1,2,7) by (fastforce simp: node_sample_def)
qed

lemma config_default_chain: "cc_ChainID (nf_Chain config_default) = ''10086''" "parseChainID ''10086'' = Inr 10086"
   apply (simp add: config_default_def)
  by code_simp

theorem node_lifecycle_witness:
  "\<exists>n0 n. node_New (Some config_default) = Inr n0 \<and>
    node_run ((world_sample k0)\<lparr>w_Stat := \<lambda>_. False\<rparr>) [NdStart, NdStop, NdTick 5] n0 = Inl GoPanic \<and>
    node_run ((world_sample k0)\<lparr>w_Stat := \<lambda>_. False\<rparr>) [NdStart, NdStop] n0 = Inr n \<and> \<not> n_started n \<and> \<not> n_store n"
proof -
  obtain n0 :: "nat node" where n0: "node_New (Some config_default) = Inr n0" "n_started n0 = False" "n_chain n0 = None" "n_cfg n0 = config_default"
    by (simp add: node_New_def)
  define W where "W = (world_sample k0)\<lparr>w_Stat := \<lambda>_. False\<rparr>"
  obtain store where "openStorage W config_default = Inr store"
    by (simp add: openStorage_def W_def world_sample_def config_default_def)
  moreover have "initChain W config_default store = Inl (ErrOther ''no genesis file'')"
    by (simp add: initChain_def config_default_chain W_def)
  ultimately have s: "node_Start W n0 = (shutdown (n0\<lparr>n_started := True, n_store := True\<rparr>), Inl (ErrOther ''no genesis file''))"
    using n0 by (simp add: node_Start_def Let_def)
  define n where "n = shutdown (n0\<lparr>n_started := True, n_store := True\<rparr>)"
  have n: "n_chain n = None" "\<not> n_started n" using n0(3) by (simp_all add: n_def shutdown_def close_store_def Let_def)
  have e1: "node_exec W NdStart n0 = Inr n" by (simp add: s unless_panic_def n_def)
  have e2: "node_exec W NdStop n = Inr n" using n(2) by (simp add: unless_panic_def node_Stop_def ErrNotStarted_def)
  have e3: "node_exec W (NdTick 5) n = Inl GoPanic" by (simp add: production_tick_def node_height_def n(1))
  have r: "node_run W [NdStart, NdStop] n0 = Inr n" "node_run W [NdStart, NdStop, NdTick 5] n0 = Inl GoPanic"
    using e1 e2 e3 by (simp_all add: node_run_def del: node_exec.simps)
  have "\<not> n_store n" using node_lifecycle [OF n0(1) r(1)] n(2) by (auto split: if_splits)
  then show ?thesis unfolding W_def [symmetric] using n0(1) r n(2) by blast
qed

section \<open>A block that another node built\<close>

text \<open>
  Committing a decoded block executes nothing: the state manager has the roots it had before.
\<close>

lemma commit_decoded:
  assumes n: "n_chain n = Some c" "pending_for h n = None" and c: "represents (w_keccak W) c bs"
    "unat (hd_Height (c_head c)) < 2 ^ 64 - 1"
    and d: "DecodeBlock dat = Inr blk" "node_CommitBlock W dat h n = (n', Inr ())"
  obtains st hash where "n' = n\<lparr>n_chain := Some (c\<lparr>c_store := st,
      c_head := \<lparr>hd_Height = h_Height (b_Header blk), hd_Hash = hash, hd_StateRoot = h_StateRoot (b_Header blk)\<rparr>\<rparr>)\<rparr>"
    "append_commit (w_keccak W) c (cached (w_keccak W) blk) [] = Inr (c\<lparr>c_store := st,
      c_head := \<lparr>hd_Height = h_Height (b_Header blk), hd_Hash = hash, hd_StateRoot = h_StateRoot (b_Header blk)\<rparr>\<rparr>)"
proof -
  obtain c2 blk' where a: "AppendBlock (w_keccak W) c (Some blk) [] = (c2, blk', Inr ())" and n': "n' = n\<lparr>n_chain := Some c2\<rparr>"
    using d n by (auto simp: node_CommitBlock_def split: prod.splits sum.splits)
  note ok = AppendBlock_ok [OF a]
  have h: "b_Header (cached (w_keccak W) blk) = b_Header blk" by simp
  have "h_Height (b_Header blk) = hd_Height (c_head c) + 1" using ok by (simp add: append_checks_ok)
  moreover have "unat (hd_Height (c_head c) + 1) = length bs" using c by (simp add: represents_def unat_word_ariths)
  ultimately have "mem_Get (c_store c) NSBlocks (blockKeyByHeight (h_Height (b_Header blk))) = Inr None"
    using c(1) unfolding represents_def by (metis less_irrefl)
  then have "GetBlock c (h_Height (b_Header (cached (w_keccak W) blk))) = Inl ErrNotFound"
    using c(1) by (simp add: GetBlock_def represents_def)
  then obtain hash enc b3 st where "c2 = c\<lparr>c_store := st,
      c_head := \<lparr>hd_Height = h_Height (b_Header blk), hd_Hash = hash, hd_StateRoot = h_StateRoot (b_Header blk)\<rparr>\<rparr>"
    using append_commit_effect [of "w_keccak W" c "cached (w_keccak W) blk" "[]" c2 ErrNotFound] ok unfolding h by blast
  then show thesis using that n' ok by blast
qed

text \<open>
  C16: a node that commits a block it did not build cannot go on. Unless its state manager happens to
  hold the state the block names, afterwards no balance or nonce can be read, no call is executed,
  every transaction is refused and left out of the pool, and it has no block to propose.
\<close>

theorem follower_loses_state:
  assumes n: "n_chain n = Some c" "pending_for h n = None" "n_pool n = Some pool" "n_evm n = Some chainID"
    and c: "represents (w_keccak W) c bs" "unat (hd_Height (c_head c)) < 2 ^ 64 - 1"
    and d: "DecodeBlock dat = Inr blk" "node_CommitBlock W dat h n = (n', Inr ())"
    and root: "c_mgr c = Some m" "fmlookup (mg_states m) (h_StateRoot (b_Header blk)) = None" "h_StateRoot (b_Header blk) \<noteq> 0"
  shows "node_GetBalance a n' = Inl ErrAccountNotFound \<and> node_GetNonce a n' = Inl ErrAccountNotFound \<and>
    node_Call W from to args gas n' = (n', Inl ErrAccountNotFound) \<and> (\<exists>e. SubmitRawTx W raw n' = (n', Inl e)) \<and>
    make_proposal W n' = Inr (n', None)"
proof -
  obtain st hash where n': "n' = n\<lparr>n_chain := Some (c\<lparr>c_store := st,
      c_head := \<lparr>hd_Height = h_Height (b_Header blk), hd_Hash = hash, hd_StateRoot = h_StateRoot (b_Header blk)\<rparr>\<rparr>)\<rparr>"
    by (rule commit_decoded [OF n(1,2) c d])
  have b: "Begin m (h_StateRoot (b_Header blk)) = Inl ErrAccountNotFound"
    using root(2,3) by (simp add: Begin_def hash_is_zero_def)
  then have view: "n_chain n' = Some c' \<Longrightarrow> head_view c' = Inl ErrAccountNotFound" for c'
    by (auto simp: head_view_def View_def n' root(1))
  have "\<exists>e. SubmitRawTx W raw n' = (n', Inl e)" using view
    by (simp add: SubmitRawTx_def n' n(3,4) Let_def split: sum.split)
  moreover have "node_GetBalance a n' = Inl ErrAccountNotFound" "node_GetNonce a n' = Inl ErrAccountNotFound"
    using view by (simp_all add: node_GetBalance_def node_GetNonce_def n')
  moreover have "node_Call W from to args gas n' = (n', Inl ErrAccountNotFound)"
    by (simp add: node_Call_def n' n(4) root(1) b)
  moreover have "make_proposal W n' = Inr (n', None)"
    by (simp add: make_proposal_def n' n(3,4) build_on_head_def builder_BuildBlock_def root(1) b)
  ultimately show ?thesis by blast
qed

section \<open>A silent proposer\<close>

text \<open>The state of a round that waits for the proposal of someone else.\<close>

definition waiting :: "height \<Rightarrow> cons_state \<Rightarrow> cons_state" where
  "waiting h cs = (new_round 0 cs)\<lparr>cs_height := h, cs_lockedHash := 0, cs_lockedRound := 0\<rparr>"

lemma waiting_again [simp]: "waiting h (waiting h cs) = waiting h cs"
  by (simp add: waiting_def new_round_def)

lemma tick_waits:
  assumes n: "n_consensus n = Some (cfg, cs)" "n_chain n = Some c"
    and p: "ProposerOf (cfg_Validators cfg) (hd_Height (c_head c) + 1) 0 \<noteq> cfg_Self cfg"
    and f: "fmlookup (cs_futureHeightProps cs) (hd_Height (c_head c) + 1) = None"
    and new: "\<not> (hd_Height (c_head c) + 1 \<le> cs_lastCommitted cs \<and> cs_lastCommitted cs > 0)"
  shows "production_tick W ts n = Inr (n\<lparr>n_consensus := Some (cfg, waiting (hd_Height (c_head c) + 1) cs)\<rparr>)"
proof -
  let ?h = "hd_Height (c_head c) + 1"
  have start: "cons_exec cfg (OpStart ?h ts) (cs\<lparr>cs_makeProposal := mk\<rparr>) = Inr ((waiting ?h cs)\<lparr>cs_makeProposal := mk\<rparr>, None)" for mk
    using p f new by (simp add: StartNewHeight_def Let_def new_round_def waiting_def)
  have "\<not> maker_called cfg (OpStart ?h ts) cs"
    using start [of "Some (\<lambda>_ _. Some ([], 1))"] by (simp add: maker_called_def waiting_def)
  then show ?thesis using start [of "Some (\<lambda>_ _. None)"]
    by (simp add: production_tick_def node_height_def n cons_step_def commit_all_def waiting_def res_map_def new_round_def)
qed

text \<open>
  nothing replaces a proposer that stays silent. However often the production loop ticks, a node
  that is not the proposer of round 0 of the next height sends nothing, commits nothing and does not
  leave round 0; the ticks discard the votes and the lock it has.
\<close>

theorem silent_proposer_halts:
  assumes n: "n_consensus n = Some (cfg, cs)" "n_chain n = Some c"
    and p: "ProposerOf (cfg_Validators cfg) (hd_Height (c_head c) + 1) 0 \<noteq> cfg_Self cfg"
    and f: "fmlookup (cs_futureHeightProps cs) (hd_Height (c_head c) + 1) = None"
    and new: "cs_lastCommitted cs \<le> hd_Height (c_head c)" "unat (hd_Height (c_head c)) < 2 ^ 64 - 1"
  shows "\<exists>cs'. each (production_tick W) (t # ticks) n = Inr (n\<lparr>n_consensus := Some (cfg, cs')\<rparr>) \<and>
    cs_sent cs' = cs_sent cs \<and> cs_committed cs' = cs_committed cs \<and> cs_round cs' = 0 \<and> cs_step cs' = StepPropose \<and>
    cs_prevotes cs' = Some (newVoteSet Prevote 0) \<and> cs_lockedHash cs' = 0"
proof -
  let ?h = "hd_Height (c_head c) + 1"
  have "hd_Height (c_head c) < ?h" using new(2) by (simp add: word_less_nat_alt unat_word_ariths)
  then have new: "\<not> (?h \<le> cs_lastCommitted cs \<and> cs_lastCommitted cs > 0)" using new(1) by (meson leD le_less_trans)
  have first: "production_tick W t n = Inr (n\<lparr>n_consensus := Some (cfg, waiting ?h cs)\<rparr>)" by (rule tick_waits [OF n p f new])
  have "each (production_tick W) ticks (n\<lparr>n_consensus := Some (cfg, waiting ?h cs)\<rparr>) = Inr (n\<lparr>n_consensus := Some (cfg, waiting ?h cs)\<rparr>)"
  proof (induction ticks)
    case (Cons t' ticks)
    have "production_tick W t' (n\<lparr>n_consensus := Some (cfg, waiting ?h cs)\<rparr>) = Inr (n\<lparr>n_consensus := Some (cfg, waiting ?h cs)\<rparr>)"
      using tick_waits [of "n\<lparr>n_consensus := Some (cfg, waiting ?h cs)\<rparr>" cfg "waiting ?h cs" c W t'] n p f new
      by (simp add: waiting_def new_round_def)
    then show ?case using Cons.IH by simp
  qed simp
  then show ?thesis using first by (auto simp: waiting_def new_round_def)
qed

text \<open>An empty block that names a state nobody has.\<close>

definition foreign_block :: block where
  "foreign_block = \<lparr>b_Header = genesis_min_header\<lparr>h_Version := 0, h_Height := 1, h_StateRoot := 5\<rparr>, b_Transactions = []\<rparr>"

lemma foreign_block_Encode: obtains dat where "block_Encode foreign_block = Inr dat" "DecodeBlock dat = Inr foreign_block"
proof -
  have "\<exists>hb. header_Encode (b_Header foreign_block) = Inr hb"
    by (simp add: header_Encode_def foreign_block_def genesis_min_header_def size_consts)
  then obtain dat where e: "block_Encode foreign_block = Inr dat"
    using block_no_tx_Encode [of "b_Header foreign_block"] by (auto simp: foreign_block_def)
  have "block_ok foreign_block"
    by (simp add: block_ok_def header_ok_def foreign_block_def genesis_min_header_def)
  then show thesis using that e DecodeBlock_Encode by blast
qed

theorem follower_loses_state_witness:
  "\<exists>dat n n'. node_CommitBlock (world_sample k0) dat 1 n = (n', Inr ()) \<and> node_GetNonce 7 n = Inr 0 \<and>
    node_GetNonce 7 n' = Inl ErrAccountNotFound"
proof -
  obtain c0 where c0: "InitGenesis k0 chain_sample genesis_min = (c0, Inr ())" "c_ChainID c0 = 7"
    "c_head c0 = \<lparr>hd_Height = 0, hd_Hash = 0, hd_StateRoot = 0\<rparr>"
    using init_sample by blast
  obtain b where r0: "represents k0 c0 [b]" using InitGenesis_represents [OF c0(1)] by (auto simp: chain_sample_def)
  define c where "c = c0\<lparr>c_mgr := Some NewMemoryManager\<rparr>"
  have c: "represents k0 c [b]" "c_ChainID c = 7" "c_head c = \<lparr>hd_Height = 0, hd_Hash = 0, hd_StateRoot = 0\<rparr>"
    "c_mgr c = Some NewMemoryManager"
    using r0 c0 by (simp_all add: c_def represents_mgr)
  obtain dat where dat: "DecodeBlock dat = Inr foreign_block" by (rule foreign_block_Encode)
  obtain c' where a: "AppendBlock k0 c (Some foreign_block) [] = (c', Some foreign_block, Inr ())"
    using append_empty [OF c(1-3), of "b_Header foreign_block"] by (auto simp: foreign_block_def genesis_min_header_def)
  define n where "n = node_sample k0 c"
  have n: "n_chain n = Some c" "pending_for 1 n = None" "n_pool n = Some sample_pool" "n_evm n = Some 7"
    by (simp_all add: n_def node_sample_def pending_for_def)
  have com: "node_CommitBlock (world_sample k0) dat 1 n = (n\<lparr>n_chain := Some c'\<rparr>, Inr ())"
    by (simp add: node_CommitBlock_def n dat a)
  have "node_GetNonce 7 (n\<lparr>n_chain := Some c'\<rparr>) = Inl ErrAccountNotFound"
    using follower_loses_state [OF n _ _ dat com c(4), of "[b]"] c
    by (simp add: NewMemoryManager_def foreign_block_def)
  moreover have "node_GetNonce 7 n = Inr 0"
    by (simp add: node_GetNonce_def n head_view_def c View_def Begin_def hash_is_zero_def NewMemoryManager_def GetAccount_def)
  ultimately show ?thesis using com by blast
qed

text \<open>A node in round 2 that holds a lock, in a set of two validators.\<close>

definition follower_consensus :: consensus_config where
  "follower_consensus = node_consensus_config (world_sample k0) ((), 4)
     (NewValidatorSet [\<lparr>v_Address = 4, v_Power = 1\<rparr>, \<lparr>v_Address = 5, v_Power = 1\<rparr>])"

theorem silent_proposer_halts_witness:
  "\<exists>n' cs'. each (production_tick (world_sample k0)) [10, 20, 30] ((node_sample k0 chain_sample)
      \<lparr>n_consensus := Some (follower_consensus, initial_state\<lparr>cs_height := 1, cs_round := 2, cs_lockedHash := 9\<rparr>)\<rparr>) = Inr n' \<and>
    n_consensus n' = Some (follower_consensus, cs') \<and> cs_round cs' = 0 \<and> cs_sent cs' = [] \<and> cs_lockedHash cs' = 0"
proof -
  let ?n = "(node_sample k0 chain_sample)
      \<lparr>n_consensus := Some (follower_consensus, initial_state\<lparr>cs_height := 1, cs_round := 2, cs_lockedHash := 9\<rparr>)\<rparr>"
  have p: "ProposerOf (cfg_Validators follower_consensus) (hd_Height (c_head chain_sample) + 1) 0 \<noteq> cfg_Self follower_consensus"
    by (simp add: follower_consensus_def node_consensus_config_def chain_sample_def empty_head_def ProposerOf_def
        NewValidatorSet_def address_compare_word)
  show ?thesis
    using silent_proposer_halts [of ?n follower_consensus "initial_state\<lparr>cs_height := 1, cs_round := 2, cs_lockedHash := 9\<rparr>" chain_sample
      "world_sample k0" 10 "[20, 30]"] p
    by (auto simp: node_sample_def initial_state_def chain_sample_def empty_head_def)
qed

section \<open>Admission of transactions\<close>

lemma Add_accepts:
  assumes "pool_ok g p" "Add g tx s n p = (p', None)"
  shows "pool_Get (gt_Hash g tx) p = None \<and> pool_Get (gt_Hash g tx) p' = Some tx"
  by (rule Add_cases [OF assms]) (simp_all add: pool_Get_def room_for_def new_entry_def)

lemma Add_rejects:
  assumes "pool_ok g p" "Add g tx s n p = (p', Some e)"
  shows "p_byHash p' = p_byHash p \<and> p_bySender p' = p_bySender p"
  by (rule Add_cases [OF assms]) (simp_all add: same_txs_def)

lemma gossipTx_keeps [simp]: "n_chain (gossipTx W raw n) = n_chain n" "n_pool (gossipTx W raw n) = n_pool n"
  "n_gossiped (gossipTx W raw n) = n_gossiped n @ (if n_swarm n \<and> Keccak256 (w_keccak W) [raw] |\<notin>| n_gossipSeen n then [raw] else [])"
  by (simp_all add: gossipTx_def Let_def)

lemma SubmitRawTx_cases:
  assumes "n_evm n = Some chainID" "n_pool n = Some pool" "n_chain n = Some c" "SubmitRawTx W dat n = (n', r)"
  obtains e where "n' = n" "r = Inl e"
  | gtx sender ro acc pool' q where "engine_DecodeTx (w_evm W chainID) dat = Inr gtx"
      "RecoverSender (w_evm W chainID) chainID gtx = Inr sender" "head_view c = Inr ro"
      "GetAccount ro sender = Inr acc" "gt_Nonce (w_geth W) gtx = acc_Nonce acc"
      "snd (ev_FromBig (w_evm W chainID) (gb_Cost (w_body W) gtx)) \<or>
       fst (ev_FromBig (w_evm W chainID) (gb_Cost (w_body W) gtx)) \<le> acc_Balance acc"
      "Add (w_geth W) gtx sender (acc_Nonce acc) pool = (pool', q)"
      "(n', r) = (case q of Some e \<Rightarrow> (n\<lparr>n_pool := Some pool'\<rparr>, Inl e)
        | None \<Rightarrow> (gossipTx W dat (n\<lparr>n_pool := Some pool'\<rparr>), Inr (gt_Hash (w_geth W) gtx)))"
proof (cases "\<exists>e. n' = n \<and> r = Inl e")
  case False
  then obtain gtx sender ro where gtx: "engine_DecodeTx (w_evm W chainID) dat = Inr gtx"
      "RecoverSender (w_evm W chainID) chainID gtx = Inr sender" "head_view c = Inr ro"
      "ValidateAgainstState (w_evm W chainID) (w_geth W) (w_body W) ro gtx sender = Inr ()"
    using assms by (auto simp: SubmitRawTx_def Let_def split: sum.splits)
  obtain acc where acc: "GetAccount ro sender = Inr acc" "gt_Nonce (w_geth W) gtx = acc_Nonce acc"
      "snd (ev_FromBig (w_evm W chainID) (gb_Cost (w_body W) gtx)) \<or>
       fst (ev_FromBig (w_evm W chainID) (gb_Cost (w_body W) gtx)) \<le> acc_Balance acc"
    using gtx(4) by (auto simp: ValidateAgainstState_def Let_def not_less split: sum.splits prod.splits if_splits)
  obtain pool' q where add: "Add (w_geth W) gtx sender (acc_Nonce acc) pool = (pool', q)"
    by (cases "Add (w_geth W) gtx sender (acc_Nonce acc) pool")
  show thesis
    by (rule that(2) [OF gtx(1-3) acc add]) (use assms gtx acc(1) add in \<open>simp add: SubmitRawTx_def split: option.split\<close>)
qed (use that(1) in blast)

text \<open>
  C6: what \<open>SubmitRawTx\<close> lets into the pool. An accepted transaction decodes, has a recoverable
  sender with an account in the state of the head, and carries the next nonce of that account. The balance of the
  account covers its cost, or the cost does not fit in 256 bits: then \<open>FromBig\<close> reports an overflow and the balance
  is not looked at. The transaction was not in the pool and is there afterwards under the hash returned, and it
  is gossiped if it has not been seen. A rejected one changes neither the transactions of the pool,
  nor the chain, nor what was gossiped. In particular a transaction with a later nonce is never queued.
\<close>

theorem SubmitRawTx_accepts:
  assumes n: "n_evm n = Some chainID" "n_pool n = Some pool" "n_chain n = Some c"
    and ok: "pool_ok (w_geth W) pool" and s: "SubmitRawTx W dat n = (n', r)"
  shows "n_chain n' = Some c \<and> (case r of
      Inl e \<Rightarrow> n_gossiped n' = n_gossiped n \<and>
        (\<exists>pool'. n_pool n' = Some pool' \<and> p_byHash pool' = p_byHash pool \<and> p_bySender pool' = p_bySender pool)
    | Inr h \<Rightarrow> \<exists>gtx sender ro acc. engine_DecodeTx (w_evm W chainID) dat = Inr gtx \<and>
        RecoverSender (w_evm W chainID) chainID gtx = Inr sender \<and> head_view c = Inr ro \<and>
        GetAccount ro sender = Inr acc \<and> gt_Nonce (w_geth W) gtx = acc_Nonce acc \<and>
        (snd (ev_FromBig (w_evm W chainID) (gb_Cost (w_body W) gtx)) \<or>
         fst (ev_FromBig (w_evm W chainID) (gb_Cost (w_body W) gtx)) \<le> acc_Balance acc) \<and>
        h = gt_Hash (w_geth W) gtx \<and> PoolGet h n = Inr None \<and> PoolGet h n' = Inr (Some gtx) \<and>
        n_gossiped n' = n_gossiped n @
          (if n_swarm n \<and> Keccak256 (w_keccak W) [dat] |\<notin>| n_gossipSeen n then [dat] else []))"
proof (rule SubmitRawTx_cases [OF n s])
  fix gtx sender ro acc pool' q
  assume *: "engine_DecodeTx (w_evm W chainID) dat = Inr gtx" "RecoverSender (w_evm W chainID) chainID gtx = Inr sender"
      "head_view c = Inr ro" "GetAccount ro sender = Inr acc" "gt_Nonce (w_geth W) gtx = acc_Nonce acc"
      "snd (ev_FromBig (w_evm W chainID) (gb_Cost (w_body W) gtx)) \<or>
       fst (ev_FromBig (w_evm W chainID) (gb_Cost (w_body W) gtx)) \<le> acc_Balance acc"
    and add: "Add (w_geth W) gtx sender (acc_Nonce acc) pool = (pool', q)"
    and r: "(n', r) = (case q of Some e \<Rightarrow> (n\<lparr>n_pool := Some pool'\<rparr>, Inl e)
        | None \<Rightarrow> (gossipTx W dat (n\<lparr>n_pool := Some pool'\<rparr>), Inr (gt_Hash (w_geth W) gtx)))"
  show ?thesis
  proof (cases q)
    case (Some e)
    then show ?thesis using r n(3) Add_rejects [OF ok, of gtx sender "acc_Nonce acc" pool' e] add by simp
  next
    case None
    then show ?thesis using r n * Add_accepts [OF ok, of gtx sender "acc_Nonce acc" pool'] add by (auto simp: PoolGet_def)
  qed
qed (use n in simp)

definition rich_chain :: chain where
  "rich_chain = chain_sample\<lparr>c_mgr := Some \<lparr>mg_states = fmupd 0 (fmupd 7 (empty_account\<lparr>acc_Balance := 1000\<rparr>) fmempty) fmempty,
     mg_storageStates = fmempty, mg_codes = fmempty\<rparr>\<rparr>"

definition world_from_7 :: "(nat, unit) world" where
  "world_from_7 = (world_sample k0)\<lparr>w_evm := \<lambda>_. engine_sample\<lparr>ev_Sender := \<lambda>_ _. Some 7\<rparr>\<rparr>"

text \<open>Any chain with that state accepts the transaction 4.\<close>

lemma rich_submit:
  assumes "c_mgr c = c_mgr rich_chain" "hd_StateRoot (c_head c) = 0"
  shows "\<exists>n'. SubmitRawTx world_from_7 [1, 2, 3, 4] ((node_sample k0 c)\<lparr>n_pool := Some (pool_New DefaultConfig)\<rparr>) = (n', Inr 4)"
proof -
  let ?n = "(node_sample k0 c)\<lparr>n_pool := Some (pool_New DefaultConfig)\<rparr>"
  have "\<exists>ro. head_view c = Inr ro \<and> GetAccount ro 7 = Inr (empty_account\<lparr>acc_Balance := 1000\<rparr>)"
    using assms by (simp add: rich_chain_def head_view_def View_def Begin_def GetAccount_def)
  then obtain ro where ro: "head_view c = Inr ro" "GetAccount ro 7 = Inr (empty_account\<lparr>acc_Balance := 1000\<rparr>)" by blast
  have dec: "engine_DecodeTx (w_evm world_from_7 7) [1, 2, 3, 4] = Inr 4"
    by (simp add: engine_DecodeTx_def world_from_7_def engine_sample_def size_consts)
  have rec: "RecoverSender (w_evm world_from_7 7) 7 4 = Inr 7"
    by (simp add: RecoverSender_def world_from_7_def)
  have g: "w_geth world_from_7 = geth_sample" "gt_Nonce geth_sample 4 = 0" "gt_Hash geth_sample 4 = 4"
    by (simp_all add: world_from_7_def world_sample_def geth_sample_def)
  have val: "ValidateAgainstState (w_evm world_from_7 7) geth_sample (w_body world_from_7) ro 4 7 = Inr ()"
    using ro(2) g(2) by (simp add: ValidateAgainstState_def world_from_7_def world_sample_def engine_sample_def body_sample_def
        big_sample_def empty_account_def)
  have n: "n_evm ?n = Some 7" "n_pool ?n = Some (pool_New DefaultConfig)" "n_chain ?n = Some c"
    by (simp_all add: node_sample_def)
  have "SubmitRawTx world_from_7 [1, 2, 3, 4] ?n = (gossipTx world_from_7 [1, 2, 3, 4] (?n\<lparr>n_pool := Some sample_pool\<rparr>), Inr 4)"
    unfolding SubmitRawTx_def n using dec rec ro val g sample_add by (simp add: Let_def empty_account_def)
  then show ?thesis by blast
qed

lemma world_from_7_pool: "pool_ok (w_geth world_from_7) (pool_New DefaultConfig)"
  by (rule conjunct1 [OF pool_New_ok [OF config_ok_Default]])

lemma world_from_7_decodes: "engine_DecodeTx (w_evm world_from_7 7) [1, 2, 3, 4] = Inr 4"
  by (simp add: engine_DecodeTx_def world_from_7_def engine_sample_def size_consts)

theorem SubmitRawTx_accepts_witness:
  "\<exists>n'. SubmitRawTx world_from_7 [1, 2, 3, 4] ((node_sample k0 rich_chain)\<lparr>n_pool := Some (pool_New DefaultConfig)\<rparr>) = (n', Inr 4) \<and>
    PoolGet 4 n' = Inr (Some 4)"
proof -
  let ?n = "(node_sample k0 rich_chain)\<lparr>n_pool := Some (pool_New DefaultConfig)\<rparr>"
  have n: "n_evm ?n = Some 7" "n_pool ?n = Some (pool_New DefaultConfig)" "n_chain ?n = Some rich_chain"
    by (simp_all add: node_sample_def)
  obtain n' where s: "SubmitRawTx world_from_7 [1, 2, 3, 4] ?n = (n', Inr 4)"
    using rich_submit [of rich_chain] by (auto simp: rich_chain_def chain_sample_def empty_head_def)
  from SubmitRawTx_accepts [OF n world_from_7_pool s] show ?thesis using s world_from_7_decodes by auto
qed

section \<open>The pool after a block\<close>

lemma produce_built:
  assumes n: "IsRunning n" "n_chain n = Some c" "n_pool n = Some pool" "n_evm n = Some chainID"
    and c: "represents (w_keccak W) c bs" "unat (hd_Height (c_head c)) < 2 ^ 64 - 1"
    and pool: "pool_ok (w_geth W) pool"
    and built: "build_on_head W chainID c pool = (c1, Inr built)" "b_Transactions (bt_Block built) \<noteq> []"
    and enc: "is_ok (block_Encode (bt_Block built))" "list_all (\<lambda>r. is_ok (receipt_Encode (w_keccak W) r)) (bt_Receipts built)"
  shows "\<exists>n' c2 m pool'. produceBlock W n = (n', Inr ()) \<and> n_chain n' = Some c2 \<and> n_pool n' = Some pool' \<and>
    represents (w_keccak W) c2 (bs @ [bt_Block built]) \<and>
    c_mgr c2 = Some m \<and> is_ok (Begin m (hd_StateRoot (c_head c2))) \<and> pool_ok (w_geth W) pool' \<and>
    (\<forall>gtx\<in>set (bt_GethTxs built). pool_Get (gt_Hash (w_geth W) gtx) pool' = None) \<and>
    (\<forall>h gtx. pool_Get h pool' = Some gtx \<longrightarrow> pool_Get h pool = Some gtx) \<and>
    (readable (bt_Block built) \<longrightarrow> GetBlock c2 (hd_Height (c_head c2)) = Inr (stored (drop_senders (bt_Block built))))"
proof -
  have b: "builder_BuildBlock (w_keccak W) (w_geth W) (w_body W) (blockBuilder W chainID pool) c pool (c_head c) = (c1, Inr built)"
    using built by (simp add: build_on_head_def)
  obtain c2 blk' r where a: "AppendBlock (w_keccak W) c1 (Some (bt_Block built)) (bt_Receipts built) = (c2, blk', r)"
    using prod_cases3 by blast
  from append_built [OF c(1) b c(2) a] enc obtain m where r: "r = Inr ()"
      "represents (w_keccak W) c2 (bs @ [bt_Block built])"
      "c_mgr c2 = Some m" "is_ok (Begin m (hd_StateRoot (c_head c2)))" by auto
  let ?pool = "clean_pool (w_geth W) (ev_Sender (w_evm W chainID) (sint (c_ChainID c2))) (bt_GethTxs built) pool"
  have "produceBlock W n = (n\<lparr>n_chain := Some c2, n_pool := Some ?pool\<rparr>, Inr ())"
    using n(1) by (simp add: produceBlock_def IsRunning_def n(2-4) built a r(1) Let_def)
  moreover have "\<forall>h gtx. pool_Get h ?pool = Some gtx \<longrightarrow> pool_Get h pool = Some gtx"
    using clean_pool_result [OF pool] by (auto simp: pool_Get_def)
  moreover have "readable (bt_Block built) \<longrightarrow> GetBlock c2 (hd_Height (c_head c2)) = Inr (stored (drop_senders (bt_Block built)))"
    using GetBlock_head [OF r(2)] readback_readable enc(1) by simp
  ultimately show ?thesis using r(2-4) clean_pool_result [OF pool] by auto
qed

text \<open>
  C22: what a successful \<open>produceBlock\<close> does. A running node whose head can be built on, below the last height of
  64 bits, and whose built block has transactions and can be encoded with its receipts, has that block appended:
  its chain represents the blocks it had and the new one, as they were built. The state of the new head can be opened;
  the pool keeps its invariant, has lost every transaction that was packed and gained none. The block reads back
  without its senders if its transactions have types 1 to 127, only the fee fields of their type, no zero recipient and
  at most \<open>MaxTxSize\<close> bytes;
  it is appended in any case, also when it holds a legacy transaction with call data and cannot be read.
\<close>

theorem produceBlock_appends:
  assumes n: "IsRunning n" "n_chain n = Some c" "n_pool n = Some pool" "n_evm n = Some chainID"
    and c: "represents (w_keccak W) c bs" "unat (hd_Height (c_head c)) < 2 ^ 64 - 1"
    and pool: "pool_ok (w_geth W) pool"
    and built: "build_on_head W chainID c pool = (c1, Inr built)" "b_Transactions (bt_Block built) \<noteq> []"
    and enc: "is_ok (block_Encode (bt_Block built))" "list_all (\<lambda>r. is_ok (receipt_Encode (w_keccak W) r)) (bt_Receipts built)"
  shows "\<exists>n' c2 m pool'. produceBlock W n = (n', Inr ()) \<and> n_chain n' = Some c2 \<and> n_pool n' = Some pool' \<and>
    represents (w_keccak W) c2 (bs @ [bt_Block built]) \<and>
    c_mgr c2 = Some m \<and> is_ok (Begin m (hd_StateRoot (c_head c2))) \<and> pool_ok (w_geth W) pool' \<and>
    (\<forall>gtx\<in>set (bt_GethTxs built). pool_Get (gt_Hash (w_geth W) gtx) pool' = None) \<and>
    (\<forall>h gtx. pool_Get h pool' = Some gtx \<longrightarrow> pool_Get h pool = Some gtx) \<and>
    (readable (bt_Block built) \<longrightarrow> GetBlock c2 (hd_Height (c_head c2)) = Inr (stored (drop_senders (bt_Block built))))"
  by (rule produce_built [OF assms])

theorem produceBlock_appends_witness:
  "\<exists>kec c b n' c2 pool'. represents kec c [b] \<and> produceBlock (world_sample kec) (node_sample kec c) = (n', Inr ())
    \<and> n_chain n' = Some c2 \<and> n_pool n' = Some pool' \<and> (\<exists>b2. represents kec c2 [b, b2])
    \<and> pool_Get 4 sample_pool \<noteq> None \<and> pool_Get 4 pool' = None"
proof -
  obtain kec c b c1 built where s: "represents kec c [b]" "c_head c = \<lparr>hd_Height = 0, hd_Hash = 0, hd_StateRoot = 0\<rparr>"
    "build_on_head (world_sample kec) 7 c sample_pool = (c1, Inr built)" "bt_GethTxs built = [4]"
    "readable (bt_Block built)" "is_ok (block_Encode (bt_Block built))"
    "header_Hash kec (b_Header (bt_Block built)) = Inr 1"
    by (rule sample_ready)
  note r = sample_ready_receipts [OF s(3)]
  have g: "w_geth (world_sample kec) = geth_sample" "gt_Hash geth_sample 4 = 4" by (simp_all add: world_sample_def geth_sample_def)
  have n: "IsRunning (node_sample kec c)" "n_chain (node_sample kec c) = Some c" "n_pool (node_sample kec c) = Some sample_pool"
    "n_evm (node_sample kec c) = Some 7"
    by (simp_all add: IsRunning_def node_sample_def)
  have "\<exists>n' c2 m pool'. produceBlock (world_sample kec) (node_sample kec c) = (n', Inr ()) \<and> n_chain n' = Some c2 \<and>
     n_pool n' = Some pool' \<and> represents kec c2 ([b] @ [bt_Block built]) \<and> pool_Get 4 pool' = None"
    using produceBlock_appends [OF n, of "world_sample kec" "[b]" c1 built] s r sample_pool_ok g by auto
  then obtain n' c2 m pool' where "produceBlock (world_sample kec) (node_sample kec c) = (n', Inr ())" "n_chain n' = Some c2"
     "n_pool n' = Some pool'" "represents kec c2 [b, bt_Block built]" "pool_Get 4 pool' = None" by auto
  moreover have "pool_Get 4 sample_pool \<noteq> None" by (simp add: pool_Get_def sample_pool_byHash)
  ultimately show ?thesis using s(1) by blast
qed

section \<open>Consensus over the network\<close>

text \<open>
  C31: what consensus broadcasts arrives. In any state the swarm can be in, a message with a body is put once
  on every open connection whose write succeeds and on no other, and the receiver's decoder reads
  the message back from it (without the BLS aggregate of a certificate); a node without a
  swarm sends nothing.
\<close>

theorem message_reaches_peers:
  assumes "m_Body m \<noteq> BNil"
  shows "outgoing_Broadcast up m None = None \<and>
    (\<exists>s' env. outgoing_Broadcast up m (Some (fold swarm_step ops NewSwarm)) = Some s' \<and>
      env_Type env = TypeConsensus \<and> UnmarshalConsensusMessage (env_Payload env) = Inr (received m) \<and>
      (\<forall>n. conn s' n = (if receives up (fold swarm_step ops NewSwarm) n
        then map_option (\<lambda>p. p\<lparr>pe_sent := pe_sent p @ [env]\<rparr>) (conn (fold swarm_step ops NewSwarm) n)
        else conn (fold swarm_step ops NewSwarm) n)))"
proof -
  let ?s = "fold swarm_step ops NewSwarm"
  obtain j where j: "MarshalConsensusMessage m = Inr j"
    using assms by (cases "m_Body m") (simp_all add: MarshalConsensusMessage_def)
  define env where "env = \<lparr>env_Type = TypeConsensus, env_Payload = Some j\<rparr>"
  have e: "NewConsensusEnvelope m = Inr env" by (simp add: NewConsensusEnvelope_def j env_def)
  have "swarm_ok ?s" by (rule sw.reach_inv) (rule refl)
  note b = broadcast_exact [OF this surjective_pairing, of up env]
  have "env_Type env = TypeConsensus" "UnmarshalConsensusMessage (env_Payload env) = Inr (received m)"
    by (simp_all add: env_def marshal_receive [OF j])
  then show ?thesis
    by (intro conjI exI [of _ "fst (swarm_Broadcast up env ?s)"] exI [of _ env])
      (simp_all add: outgoing_Broadcast_def e b)
qed

theorem message_reaches_peers_witness:
  "\<exists>s'. outgoing_Broadcast (\<lambda>n. n = 5) sample_vote (Some two_peers) = Some s' \<and> conn s' 4 = conn two_peers 4 \<and>
    conn s' 5 \<noteq> conn two_peers 5"
proof -
  have b: "m_Body sample_vote \<noteq> BNil" by (simp add: sample_vote_def)
  obtain s' env where "outgoing_Broadcast (\<lambda>n. n = 5) sample_vote (Some two_peers) = Some s'"
    "\<forall>n. conn s' n = (if receives (\<lambda>n. n = 5) two_peers n
        then map_option (\<lambda>p. p\<lparr>pe_sent := pe_sent p @ [env]\<rparr>) (conn two_peers n) else conn two_peers n)"
    using message_reaches_peers [OF b, of "\<lambda>n. n = 5" "[SwConnected 4 ''a'' (info_of ''n1''), SwConnected 5 ''b'' (info_of ''n2'')]"]
    unfolding two_peers_def by blast
  then show ?thesis by (auto simp: two_peers_views receives_def)
qed

end
