(* ===== verification/RpcNode.thy ===== *)
theory RpcNode
  imports RpcMethods NodeProps
begin

text \<open>
  The methods on a node: the functions \<open>startRPC\<close> of \<open>node/node.go\<close> passes to the registry, the
  dispatcher and the server it makes, and what clients see of the chain and of the pool through them.
\<close>

section \<open>The server of a node\<close>

text \<open>The server is made when the node has its chain, which it then keeps.\<close>

definition of_chain :: "'a \<Rightarrow> (chain \<Rightarrow> 'a) \<Rightarrow> 't node \<Rightarrow> 'a" where
  "of_chain z f n = (case n_chain n of None \<Rightarrow> z | Some c \<Rightarrow> f c)"

definition node_chain_api :: "'t node chain_api" where
  "node_chain_api =
     \<lparr>api_HasGenesis = of_chain False HasGenesis,
      api_Head = of_chain empty_head c_head,
      api_ChainID = of_chain 0 c_ChainID,
      api_GetBlock = (\<lambda>n h. of_chain (Inl GoPanic) (\<lambda>c. GetBlock c h) n),
      api_GetBlockByHash = (\<lambda>n h. of_chain (Inl GoPanic) (\<lambda>c. GetBlockByHash c h) n),
      api_HeightOf = (\<lambda>n h. of_chain (Inl GoPanic) (\<lambda>c. HeightOf c h) n),
      api_FindTx = (\<lambda>n h. of_chain (Inl GoPanic) (\<lambda>c. FindTx c h) n),
      api_GetReceipt = (\<lambda>n h i. of_chain (Inl GoPanic) (\<lambda>c. GetReceipt c h i) n),
      api_GetHeader = (\<lambda>n h. of_chain (Inl GoPanic) (\<lambda>c. GetHeader c h) n)\<rparr>"

definition node_tx_api :: "('t, 'k) world \<Rightarrow> 't node tx_api" where
  "node_tx_api W =
     \<lparr>ta_SubmitRawTx = SubmitRawTx W, ta_GetBalance = node_GetBalance, ta_GetNonce = node_GetNonce,
      ta_Call = node_Call W\<rparr>"

definition node_server :: "('t, 'k) world \<Rightarrow> int \<Rightarrow> 't node server res" where
  "node_server W port =
     and_then (RegisterChainMethods (w_keccak W) node_chain_api (Some (node_tx_api W)) NewRegistry) (\<lambda>reg.
       let disp = (NewDispatcher reg)\<lparr>ds_ReadyFunc := Some (api_HasGenesis node_chain_api)\<rparr>
       in Inr (NewServer (DefaultServerConfig\<lparr>sv_HTTPPort := port\<rparr>) disp))"

text \<open>What the server keeps: the limits of the default configuration and the dispatcher of the node.\<close>

lemma node_server_parts:
  assumes "node_server W port = Inr sv"
  shows "sv_cfg sv = DefaultServerConfig\<lparr>sv_HTTPPort := port\<rparr>" "sv_limiter sv = fmempty"
    "ds_ReadyFunc (sv_dispatcher sv) = Some (api_HasGenesis node_chain_api)" "ds_MaxBatchSize (sv_dispatcher sv) = 10"
    "RegisterChainMethods (w_keccak W) node_chain_api (Some (node_tx_api W)) NewRegistry = Inr (ds_registry (sv_dispatcher sv))"
  using assms by (auto simp: node_server_def and_then_Inr_iff NewServer_def DefaultServerConfig_def NewDispatcher_def Let_def)

lemma node_server_exists: "\<exists>sv. node_server W port = Inr sv"
  using RegisterChainMethods_registry [of "w_keccak W" node_chain_api "Some (node_tx_api W)"]
  by (auto simp: node_server_def Let_def)

text \<open>A request of a registered method to the server of a node whose chain has its genesis.\<close>

lemma node_request:
  assumes "node_server W port = Inr sv" "spec_of (rq_Method req) names maxParams requireLive f \<in>
      set (chain_methods (w_keccak W) node_chain_api (Some (node_tx_api W)))"
    "rq_JSONRPC req = ''2.0''" "n_chain n = Some c" "HasGenesis c"
    "ParseParams (rq_Params req) = Inr params" "length params \<le> (if maxParams = 0 then length names else maxParams)"
  shows "handleOne (sv_dispatcher sv) req n = res_map (\<lambda>(s, r). (s, case r of
       Inl e \<Rightarrow> \<lparr>rs_Result = None, rs_Error = Some e, rs_ID = []\<rparr>
     | Inr result \<Rightarrow> \<lparr>rs_Result = result, rs_Error = None, rs_ID = []\<rparr>)) (f params n)"
proof (rule handleOne_method [OF _ _ _ _ _ assms(6,7), where ready = "api_HasGenesis node_chain_api"])
  note p = node_server_parts [OF assms(1)]
  have "rq_Method req \<in> set (map md_Name (chain_methods (w_keccak W) node_chain_api (Some (node_tx_api W))))"
    using assms(2) unfolding set_map by (rule rev_image_eqI) (simp add: spec_of_def)
  then show "rq_Method req \<noteq> []" unfolding chain_methods_names by auto
  show "Lookup (rq_Method req) (ds_registry (sv_dispatcher sv)) =
      Some (full_spec (spec_of (rq_Method req) names maxParams requireLive f))"
    using Lookup_method [OF p(5) assms(2)] by (simp add: spec_of_def)
  show "ds_ReadyFunc (sv_dispatcher sv) = Some (api_HasGenesis node_chain_api)" by (rule p(3))
  show "api_HasGenesis node_chain_api n" using assms(4,5) by (simp add: node_chain_api_def of_chain_def)
qed (use assms(3) in simp)

section \<open>Blocks\<close>

definition node_holds :: "keccak \<Rightarrow> 't node \<Rightarrow> block list \<Rightarrow> bool" where
  "node_holds kec n bs \<longleftrightarrow> (case n_chain n of None \<Rightarrow> False | Some c \<Rightarrow> represents kec c bs)"

lemma represents_hashed:
  assumes "represents kec c bs" "i < length bs"
  shows "\<exists>x. header_Hash kec (b_Header (bs ! i)) = Inr x"
proof (cases "Suc i < length bs")
  case True
  then show ?thesis using assms by (auto simp: represents_def links_def)
next
  case False
  then have "bs ! i = last bs" using assms(2) by (cases bs rule: rev_cases) (auto simp: nth_append)
  then show ?thesis using assms(1) by (auto simp: represents_def)
qed

lemma readback_Hash: "readback b = Inr b' \<Longrightarrow> header_Hash kec (b_Header b') = header_Hash kec (b_Header b)"
  by (simp add: readback_header header_Hash_stored)

interpretation blocks: chain_reader kec node_chain_api "node_holds kec" readback
proof
  fix n :: "'a node" and bs h
  assume "node_holds kec n bs"
  then obtain c where c: "n_chain n = Some c" "represents kec c bs" by (auto simp: node_holds_def split: option.splits)
  then show "unat h < length bs \<Longrightarrow> api_GetBlock node_chain_api n h = readback (bs ! unat h)"
    and "\<not> unat h < length bs \<Longrightarrow> \<exists>e. api_GetBlock node_chain_api n h = Inl e \<and> e \<noteq> GoPanic"
    and "Suc (unat (hd_Height (api_Head node_chain_api n))) = length bs"
    by (simp_all add: node_chain_api_def of_chain_def represents_def, simp add: GetBlock_def)
  show "i < length bs \<Longrightarrow> readback (bs ! i) \<noteq> Inl GoPanic" for i
    using c(2) by (simp add: readback_no_panic represents_def list_all_length)
  show "i < length bs \<Longrightarrow> readback (bs ! i) = Inr b \<Longrightarrow> \<exists>x. header_Hash kec (b_Header b) = Inr x" for i b
    using represents_hashed [OF c(2)] by (simp add: readback_Hash)
qed

definition json_member :: "string \<Rightarrow> json \<Rightarrow> json option" where
  "json_member k j = (case j of JObj kvs \<Rightarrow> map_of kvs k | _ \<Rightarrow> None)"

lemma block_object_members:
  "json_member ''number'' (block_object kec b x full) = Some (JStr (rpc_EncodeUint64 (h_Height (b_Header b))))"
  "json_member ''hash'' (block_object kec b x full) = Some (JStr (rpc_EncodeHash x))"
  "json_member ''parentHash'' (block_object kec b x full) = Some (JStr (rpc_EncodeHash (h_PrevHash (b_Header b))))"
  by (simp_all add: block_object_def Let_def json_member_def)

lemma chain_method_block: "spec_of ''eth_getBlockByNumber'' [''blockNumber'', ''fullTransactions''] 2 True (reading (eth_getBlockByNumber kec api))
    \<in> set (chain_methods kec api txAPI)"
  by (simp add: chain_methods_def)

text \<open>
  C7: the server shows the chain of the node. On a node whose chain is the list of blocks \<open>bs\<close>, a request of a
  block by its hexadecimal height, or by the tag \<open>latest\<close> or \<open>earliest\<close>, gives the block of that height
  with its hash, and with the hash of the block before it as its parent, so that a client can walk
  the chain back to genesis; the node is not changed. Above the head, and for a block that the codec does not read
  back, the answer has neither a result nor an error: the nil result is left out, where JSON-RPC asks for \<open>null\<close>.
\<close>

theorem served_blocks:
  assumes "node_server W port = Inr sv" "n_chain n = Some c" "represents (w_keccak W) c bs"
    "rq_JSONRPC req = ''2.0''" "rq_Method req = ''eth_getBlockByNumber''"
    "ParseParams (rq_Params req) = Inr [p]" "names_height p (hd_Height (c_head c)) h"
  shows "\<exists>resp. handleOne (sv_dispatcher sv) req n = Inr (n, resp) \<and> rs_Error resp = None \<and>
    (if unat h < length bs \<and> is_ok (readback (bs ! unat h))
     then \<exists>j. rs_Result resp = Some j \<and> json_member ''number'' j = Some (JStr (rpc_EncodeUint64 h)) \<and>
       json_member ''hash'' j = Some (JStr (rpc_EncodeHash (value_or_zero (header_Hash (w_keccak W) (b_Header (bs ! unat h)))))) \<and>
       (if h = 0 then True else json_member ''parentHash'' j =
         Some (JStr (rpc_EncodeHash (value_or_zero (header_Hash (w_keccak W) (b_Header (bs ! (unat h - 1))))))))
     else map fst (response_members (resp\<lparr>rs_ID := rq_ID req\<rparr>)) = ''jsonrpc'' # (if rq_ID req = [] then [] else [''id'']))"
proof -
  let ?kec = "w_keccak W"
  have holds: "node_holds ?kec n bs" using assms(2,3) by (simp add: node_holds_def)
  have "HasGenesis c" using assms(3) by (simp add: represents_def)
  moreover have "spec_of (rq_Method req) [''blockNumber'', ''fullTransactions''] 2 True (reading (eth_getBlockByNumber ?kec node_chain_api))
      \<in> set (chain_methods ?kec node_chain_api (Some (node_tx_api W)))"
    unfolding assms(5) by (rule chain_method_block)
  ultimately have h: "handleOne (sv_dispatcher sv) req n = res_map (\<lambda>(s, r). (s, case r of
       Inl e \<Rightarrow> \<lparr>rs_Result = None, rs_Error = Some e, rs_ID = []\<rparr>
     | Inr result \<Rightarrow> \<lparr>rs_Result = result, rs_Error = None, rs_ID = []\<rparr>)) (reading (eth_getBlockByNumber ?kec node_chain_api) [p] n)"
    using node_request [OF assms(1) _ assms(4,2) _ assms(6)] by simp
  have names: "names_height p (hd_Height (api_Head node_chain_api n)) h"
    using assms(2,7) by (simp add: node_chain_api_def of_chain_def)
  have height: "h_Height (b_Header (bs ! unat h)) = h" if "unat h < length bs"
    using assms(3) that by (intro unat_eqI) (simp add: represents_def links_def)
  have parent: "value_or_zero (header_Hash ?kec (b_Header (bs ! (unat h - 1)))) = h_PrevHash (b_Header (bs ! unat h))"
    if "unat h < length bs" "h \<noteq> 0"
  proof -
    have "unat h \<noteq> 0" using that(2) by (simp add: unat_eq_zero)
    then have "Suc (unat h - 1) = unat h" by linarith
    moreover have "\<And>i. Suc i < length bs \<Longrightarrow> header_Hash ?kec (b_Header (bs ! i)) = Inr (h_PrevHash (b_Header (bs ! Suc i)))"
      using assms(3) by (simp add: represents_def links_def)
    ultimately show ?thesis using that(1) by (metis sum.case(2) value_or_zero_def)
  qed
  show ?thesis
  proof (cases "unat h < length bs \<and> is_ok (readback (bs ! unat h))")
    case True
    then obtain b where b: "readback (bs ! unat h) = Inr b" by (auto simp: is_ok_iff)
    have hd: "b_Header b = b_Header (stored (bs ! unat h))" by (rule readback_header [OF b])
    show ?thesis using True
      by (simp add: h reading_def blocks.getBlockByNumber_held [OF holds names] blocks.shown_def b hd block_object_members height
          header_Hash_stored parent [unfolded One_nat_def])
  next
    case False
    then have "blocks.shown ?kec bs h False = None" by (auto simp: blocks.shown_def is_ok_iff split: sum.splits)
    then show ?thesis using False
      by (simp add: h reading_def blocks.getBlockByNumber_held [OF holds names] response_members_def)
  qed
qed

definition latest_request :: rpc_request where
  "latest_request = \<lparr>rq_JSONRPC = ''2.0'', rq_Method = ''eth_getBlockByNumber'',
     rq_Params = ''['' @ quoted ''latest'' @ '']'', rq_ID = ''1''\<rparr>"

lemma latest_params: "ParseParams (''['' @ quoted ''latest'' @ '']'') = Inr [quoted ''latest'']"
  by code_simp

theorem served_blocks_witness:
  "\<exists>sv c b resp j. node_server (world_sample k0) 8545 = Inr sv \<and> represents k0 c [b] \<and>
    handleOne (sv_dispatcher sv) latest_request (node_sample k0 c) = Inr (node_sample k0 c, resp) \<and>
    rs_Result resp = Some j \<and> json_member ''number'' j = Some (JStr (rpc_EncodeUint64 0))"
proof -
  obtain c m b where c: "represents k0 c [b]" "c_mgr c = Some m" "c_head c = \<lparr>hd_Height = 0, hd_Hash = 0, hd_StateRoot = 0\<rparr>"
    by (rule init_sample_mgr)
  obtain sv where sv: "node_server (world_sample k0) 8545 = Inr sv" using node_server_exists by blast
  have n: "n_chain (node_sample k0 c) = Some c" by (simp add: node_sample_def)
  have r: "represents (w_keccak (world_sample k0)) c [b]" using c(1) by simp
  have "names_height (quoted ''latest'') (hd_Height (c_head c)) 0" by (simp add: names_height_def c(3))
  moreover have "is_ok (readback b)" using c(1) by (simp add: represents_def)
  ultimately show ?thesis using served_blocks [OF sv n r, of latest_request "quoted ''latest''" 0] latest_params sv c(1)
    by (auto simp: latest_request_def)
qed

section \<open>Transactions\<close>

text \<open>
  C8: a transaction sent to the server reaches the pool unchanged. The answer to \<open>eth_sendRawTransaction\<close> is
  the hash under which the transaction the bytes encode is in the pool of the node afterwards, or an
  error with the code of a rejected transaction, when the pool holds the transactions it held; a panic
  of the admission is a panic of the handler.
\<close>

theorem sent_transaction_pooled:
  assumes "node_server W port = Inr sv" "n_evm n = Some chainID" "n_pool n = Some pool" "n_chain n = Some c" "HasGenesis c"
    "pool_ok (w_geth W) pool" "rq_JSONRPC req = ''2.0''" "rq_Method req = ''eth_sendRawTransaction''"
    "ParseParams (rq_Params req) = Inr [quoted (rpc_EncodeBytes raw)]" "SubmitRawTx W raw n = (n', r)"
  shows "case r of
      Inr h \<Rightarrow> \<exists>gtx. handleOne (sv_dispatcher sv) req n =
          Inr (n', \<lparr>rs_Result = Some (JStr (rpc_EncodeHash h)), rs_Error = None, rs_ID = []\<rparr>) \<and>
        engine_DecodeTx (w_evm W chainID) raw = Inr gtx \<and> h = gt_Hash (w_geth W) gtx \<and> PoolGet h n' = Inr (Some gtx)
    | Inl e \<Rightarrow>
        if e = GoPanic then handleOne (sv_dispatcher sv) req n = Inl GoPanic
        else (\<exists>resp pool'. handleOne (sv_dispatcher sv) req n = Inr (n', resp) \<and> rs_Result resp = None \<and>
          map_option re_Code (rs_Error resp) = Some CodeTxRejected \<and> n_pool n' = Some pool' \<and> p_byHash pool' = p_byHash pool)"
proof -
  have spec: "spec_of (rq_Method req) [''signedTx''] 1 True (eth_sendRawTransaction (Some (node_tx_api W)))
      \<in> set (chain_methods (w_keccak W) node_chain_api (Some (node_tx_api W)))"
    by (simp add: assms(8) chain_methods_def)
  have "ParamBytes [quoted (rpc_EncodeBytes raw)] 0 = Inr raw"
    by (simp add: ParamBytes_def decode_param_def Param_def rpc_DecodeBytes_def rpc_EncodeBytes_def
        decodeHexString_encode del: append_Cons)
  then have h: "handleOne (sv_dispatcher sv) req n = res_map (\<lambda>(s, r). (s, case r of
       Inl e \<Rightarrow> \<lparr>rs_Result = None, rs_Error = Some e, rs_ID = []\<rparr>
     | Inr result \<Rightarrow> \<lparr>rs_Result = result, rs_Error = None, rs_ID = []\<rparr>))
      (case r of Inl e \<Rightarrow> if e = GoPanic then Inl GoPanic else Inr (n', answer_error CodeTxRejected ''rejected'')
       | Inr h \<Rightarrow> Inr (n', answer_str (rpc_EncodeHash h)))"
    using node_request [OF assms(1) spec assms(7,4,5,9)] assms(10)
    by (simp add: eth_sendRawTransaction_def node_tx_api_def)
  show ?thesis
  proof (rule SubmitRawTx_cases [OF assms(2,3,4,10)])
    fix e assume "n' = n" "r = Inl e"
    then show ?thesis using h assms(3) by (simp add: answer_error_def NewError_def)
  next
    fix gtx sender ro acc pool' q
    assume dec: "engine_DecodeTx (w_evm W chainID) raw = Inr gtx"
      and add: "Add (w_geth W) gtx sender (acc_Nonce acc) pool = (pool', q)"
      and r: "(n', r) = (case q of Some e \<Rightarrow> (n\<lparr>n_pool := Some pool'\<rparr>, Inl e)
        | None \<Rightarrow> (gossipTx W raw (n\<lparr>n_pool := Some pool'\<rparr>), Inr (gt_Hash (w_geth W) gtx)))"
    show ?thesis
    proof (cases q)
      case (Some e)
      then show ?thesis using r h Add_rejects [OF assms(6), of gtx sender "acc_Nonce acc" pool' e] add
        by (simp add: answer_error_def NewError_def)
    next
      case None
      then show ?thesis using r h dec Add_accepts [OF assms(6), of gtx sender "acc_Nonce acc" pool'] add
        by (auto simp: PoolGet_def answer_str_def)
    qed
  qed
qed

definition send_request :: rpc_request where
  "send_request = \<lparr>rq_JSONRPC = ''2.0'', rq_Method = ''eth_sendRawTransaction'',
     rq_Params = ''['' @ quoted ''0x01020304'' @ '']'', rq_ID = ''1''\<rparr>"

lemma send_params: "ParseParams (''['' @ quoted ''0x01020304'' @ '']'') = Inr [quoted ''0x01020304'']"
  by code_simp

lemma raw_encoded: "rpc_EncodeBytes [1, 2, 3, 4] = ''0x01020304''"
  by code_simp

theorem sent_transaction_pooled_witness:
  "\<exists>sv c n' resp. node_server world_from_7 8545 = Inr sv \<and>
    handleOne (sv_dispatcher sv) send_request ((node_sample k0 c)\<lparr>n_pool := Some (pool_New DefaultConfig)\<rparr>) = Inr (n', resp) \<and>
    rs_Result resp = Some (JStr (rpc_EncodeHash 4)) \<and> PoolGet 4 n' = Inr (Some 4)"
proof -
  obtain c0 m b where c0: "represents k0 c0 [b]" "c_mgr c0 = Some m" "c_head c0 = \<lparr>hd_Height = 0, hd_Hash = 0, hd_StateRoot = 0\<rparr>"
    by (rule init_sample_mgr)
  define c where "c = c0\<lparr>c_mgr := c_mgr rich_chain\<rparr>"
  let ?n = "(node_sample k0 c)\<lparr>n_pool := Some (pool_New DefaultConfig)\<rparr>"
  obtain sv where sv: "node_server world_from_7 8545 = Inr sv" using node_server_exists by blast
  have n: "n_evm ?n = Some 7" "n_pool ?n = Some (pool_New DefaultConfig)" "n_chain ?n = Some c"
    by (simp_all add: node_sample_def)
  have gen: "HasGenesis c" using c0(1) by (simp add: represents_def c_def HasGenesis_def)
  obtain n' where s: "SubmitRawTx world_from_7 [1, 2, 3, 4] ?n = (n', Inr 4)"
    using rich_submit [of c] c0(3) by (auto simp: c_def)
  have "\<exists>resp. handleOne (sv_dispatcher sv) send_request ?n = Inr (n', resp) \<and>
      rs_Result resp = Some (JStr (rpc_EncodeHash 4)) \<and> PoolGet 4 n' = Inr (Some 4)"
    using sent_transaction_pooled [OF sv n gen world_from_7_pool _ _ _ s, of send_request] send_params raw_encoded
      world_from_7_decodes
    by (auto simp: send_request_def)
  then show ?thesis using sv by blast
qed

section \<open>Reading the state\<close>

text \<open>
  after a restart the state cannot be asked for. On a node whose chain was opened again from its
  database, and so has no state manager, a request of a balance or of a nonce, with an address in
  the form the server itself writes, passes every check of the dispatcher and panics, whatever the address.
\<close>

theorem state_queries_panic:
  assumes "node_server W port = Inr sv" "n_chain n = Some c" "HasGenesis c" "c_mgr c = None"
    "rq_JSONRPC req = ''2.0''" "rq_Method req \<in> {''eth_getBalance'', ''eth_getTransactionCount''}"
    "ParseParams (rq_Params req) = Inr [quoted (rpc_EncodeAddress a)]"
  shows "handleOne (sv_dispatcher sv) req n = Inl GoPanic"
proof -
  let ?api = "Some (node_tx_api W)"
  have addr: "ParamAddress [quoted (rpc_EncodeAddress a)] 0 = Inr a"
    using fixed_bytes_encode [of a]
    by (simp add: ParamAddress_def decode_param_def Param_def rpc_DecodeAddress_def rpc_EncodeAddress_def del: append_Cons)
  have panic: "node_GetBalance a n = Inl GoPanic" "node_GetNonce a n = Inl GoPanic"
    using assms(2,4) by (simp_all add: node_GetBalance_def node_GetNonce_def head_view_def)
  have bal: "spec_of ''eth_getBalance'' [''address'', ''blockNumber''] 2 True (reading (eth_getBalance ?api))
      \<in> set (chain_methods (w_keccak W) node_chain_api ?api)"
    and cnt: "spec_of ''eth_getTransactionCount'' [''address'', ''blockNumber''] 2 True (reading (eth_getTransactionCount ?api))
      \<in> set (chain_methods (w_keccak W) node_chain_api ?api)"
    by (simp_all add: chain_methods_def)
  consider "rq_Method req = ''eth_getBalance''" | "rq_Method req = ''eth_getTransactionCount''" using assms(6) by blast
  then show ?thesis
  proof cases
    case 1
    from node_request [OF assms(1) _ assms(5,2,3,7), unfolded 1, OF bal] show ?thesis
      by (simp add: reading_def eth_getBalance_def node_tx_api_def addr panic or_answer_def)
  next
    case 2
    from node_request [OF assms(1) _ assms(5,2,3,7), unfolded 2, OF cnt] show ?thesis
      by (simp add: reading_def eth_getTransactionCount_def node_tx_api_def addr panic or_answer_def)
  qed
qed

definition balance_request :: rpc_request where
  "balance_request = \<lparr>rq_JSONRPC = ''2.0'', rq_Method = ''eth_getBalance'',
     rq_Params = ''['' @ quoted (rpc_EncodeAddress 5) @ '']'', rq_ID = ''1''\<rparr>"

lemma balance_params: "ParseParams (''['' @ quoted (rpc_EncodeAddress 5) @ '']'') = Inr [quoted (rpc_EncodeAddress 5)]"
  by code_simp

theorem state_queries_panic_witness:
  "\<exists>sv c. node_server (world_sample k0) 8545 = Inr sv \<and> HasGenesis c \<and>
    handleOne (sv_dispatcher sv) balance_request (node_sample k0 c) = Inl GoPanic"
proof -
  obtain c0 m b where c0: "represents k0 c0 [b]" "c_mgr c0 = Some m" "c_head c0 = \<lparr>hd_Height = 0, hd_Hash = 0, hd_StateRoot = 0\<rparr>"
    by (rule init_sample_mgr)
  define c where "c = c0\<lparr>c_mgr := None\<rparr>"
  obtain sv where sv: "node_server (world_sample k0) 8545 = Inr sv" using node_server_exists by blast
  have gen: "HasGenesis c" using c0(1) by (simp add: represents_def c_def HasGenesis_def)
  have "n_chain (node_sample k0 c) = Some c" "c_mgr c = None" by (simp_all add: node_sample_def c_def)
  from state_queries_panic [OF sv this(1) gen this(2), of balance_request 5] balance_params
  have "handleOne (sv_dispatcher sv) balance_request (node_sample k0 c) = Inl GoPanic" by (simp add: balance_request_def)
  then show ?thesis using sv gen by blast
qed

section \<open>Named parameters\<close>

text \<open>
  \<open>eth_call\<close> cannot be used with named parameters. Sorting the names puts \<open>blockNumber\<close> before
  \<open>txObject\<close>, so the handler takes the block for the object of the call: with the two names of its own
  specification, in either order, and a tag or quantity as the block, the request is refused
  whatever the object, the node and the state.
\<close>

theorem named_call_refused:
  assumes "TrimSpace raw = CHR ''{'' # rest" "unmarshal_object raw = Inr kvs"
    "kvs = [(''txObject'', obj), (''blockNumber'', quoted t)] \<or> kvs = [(''blockNumber'', quoted t), (''txObject'', obj)]"
  shows "\<exists>params. ParseParams raw = Inr params \<and> length params = 2 \<and>
    eth_call (Some api) params s = Inr (s, Inl (NewError CodeInvalidParams ''txObject''))"
proof -
  have ne: "raw \<noteq> [] \<and> raw \<noteq> ''null''"
  proof -
    have "TrimSpace [] = []" "TrimSpace ''null'' = ''null''" by code_simp+
    then show ?thesis using assms(1) by auto
  qed
  have m: "fold (\<lambda>(k, v). fmupd k v) kvs fmempty = fmupd ''blockNumber'' (quoted t) (fmupd ''txObject'' obj fmempty)"
    using assms(3) by (auto intro!: fmap_ext)
  have "sortStrings (sorted_keys (fmupd ''blockNumber'' (quoted t) (fmupd ''txObject'' obj fmempty))) = [''blockNumber'', ''txObject'']"
    by (simp only: sorted_keys_fmupd sorted_keys_fmempty) code_simp
  then have "ParseParams raw = Inr [quoted t, obj]"
    using ne assms(1,2) by (simp add: ParseParams_def m)
  moreover have "eth_call (Some api) [quoted t, obj] s = Inr (s, Inl (NewError CodeInvalidParams ''txObject''))"
    by (simp add: eth_call_def Param_def call_object_def quoted_not_object answer_error_def)
  ultimately show ?thesis by simp
qed

definition named_call :: raw_message where
  "named_call = ''{'' @ quoted ''txObject'' @ '':{'' @ quoted ''to'' @ '':'' @ quoted ''0x05'' @ ''},'' @
     quoted ''blockNumber'' @ '':'' @ quoted ''latest'' @ ''}''"

lemma named_call_members:
  "unmarshal_object named_call = Inr [(''txObject'', ''{'' @ quoted ''to'' @ '':'' @ quoted ''0x05'' @ ''}''), (''blockNumber'', quoted ''latest'')]"
  by code_simp

lemma named_call_trimmed: "TrimSpace named_call = CHR ''{'' # tl named_call"
  by code_simp

theorem named_call_refused_witness:
  "\<exists>params. ParseParams named_call = Inr params \<and> length params = 2 \<and>
    eth_call (Some (node_tx_api (world_sample k0))) params (node_sample k0 chain_sample) =
      Inr (node_sample k0 chain_sample, Inl (NewError CodeInvalidParams ''txObject''))"
  by (rule named_call_refused [OF named_call_trimmed named_call_members]) simp

section \<open>From the pool to the clients\<close>

lemma hash_param: "decodeHashParam [quoted (rpc_EncodeHash h)] 0 = Inr h"
  using fixed_bytes_encode [of h]
  by (simp add: decodeHashParam_def decode_param_def Param_def rpc_DecodeHash_def rpc_EncodeHash_def del: append_Cons)

lemma tx_query:
  assumes "node_server W port = Inr sv" "n_chain n = Some c" "HasGenesis c" "rq_JSONRPC req = ''2.0''"
    "ParseParams (rq_Params req) = Inr [quoted (rpc_EncodeHash x)]"
    "rq_Method req = ''eth_getTransactionReceipt'' \<and> f = eth_getTransactionReceipt node_chain_api \<or>
     rq_Method req = ''eth_getTransactionByHash'' \<and> f = eth_getTransactionByHash (w_keccak W) node_chain_api"
    "f [quoted (rpc_EncodeHash x)] n = Inr (Inr result)"
  shows "handleOne (sv_dispatcher sv) req n = Inr (n, \<lparr>rs_Result = result, rs_Error = None, rs_ID = []\<rparr>)"
proof -
  have "spec_of (rq_Method req) [''txHash''] 0 True (reading f) \<in>
      set (chain_methods (w_keccak W) node_chain_api (Some (node_tx_api W)))"
    using assms(6) by (auto simp: chain_methods_def)
  then show ?thesis using node_request [OF assms(1) _ assms(4,2,3,5)] assms(7) by (simp add: reading_def)
qed

text \<open>The answers to both queries, when the transaction is located and its block, or its receipt, is there.\<close>

lemma tx_answers:
  assumes "n_chain n = Some c" "FindTx c x = Inr (h, i)"
  shows "GetReceipt c h i = Inr r \<Longrightarrow>
      eth_getTransactionReceipt node_chain_api [quoted (rpc_EncodeHash x)] n = Inr (Inr (Some (receiptToRPC r h i)))"
    "GetReceipt c h i = Inl e \<Longrightarrow> e \<noteq> GoPanic \<Longrightarrow>
      eth_getTransactionReceipt node_chain_api [quoted (rpc_EncodeHash x)] n = Inr (Inr None)"
    "GetBlock c h = Inr b \<Longrightarrow> unat i < length (b_Transactions b) \<Longrightarrow>
      eth_getTransactionByHash kec node_chain_api [quoted (rpc_EncodeHash x)] n = Inr (Inr (Some (transactionToRPC kec b i)))"
  using assms
  by (simp_all add: eth_getTransactionReceipt_def eth_getTransactionByHash_def hash_param or_answer_def answer_nil_def
      node_chain_api_def of_chain_def)

lemma receipt_members:
  "json_member ''transactionHash'' (receiptToRPC r h i) = Some (JStr (rpc_EncodeHash (r_TxHash r)))"
  "json_member ''blockNumber'' (receiptToRPC r h i) = Some (JStr (rpc_EncodeUint64 h))"
  "json_member ''transactionIndex'' (receiptToRPC r h i) = Some (JStr (rpc_EncodeUint64 (ucast i)))"
  "json_member ''cumulativeGasUsed'' (receiptToRPC r h i) = Some (JStr (rpc_EncodeUint64 (r_CumulativeGasUsed r)))"
  by (simp_all add: receiptToRPC_def json_member_def)

lemma transaction_members:
  "json_member ''hash'' (transactionToRPC kec b i) = Some (JStr (rpc_EncodeHash (fst (tx_Hash kec (b_Transactions b ! unat i)))))"
  "json_member ''blockNumber'' (transactionToRPC kec b i) = Some (JStr (rpc_EncodeUint64 (h_Height (b_Header b))))"
  "json_member ''transactionIndex'' (transactionToRPC kec b i) = Some (JStr (rpc_EncodeUint64 (ucast i)))"
  "json_member ''blockHash'' (transactionToRPC kec b i) = Some (JStr (rpc_EncodeHash (value_or_zero (header_Hash kec (b_Header b)))))"
  by (simp_all add: transactionToRPC_def json_member_def Let_def)

lemma block_tx_bound:
  assumes "is_ok (block_Encode b)"
  shows "length (b_Transactions b) < 2 ^ 32"
proof -
  obtain dat where "block_Encode b = Inr dat" using assms by (auto simp: is_ok_iff)
  then obtain body where "encode_body (b_Transactions b) = Inr body" "length body \<le> MaxBlockSize" by (rule DecodeBlock_body)
  from block_tx_count [OF this] show ?thesis by (simp add: size_consts)
qed

text \<open>Where a block that was built and appended is found, whatever receipts are stored with it.\<close>

lemma built_block_found:
  assumes c: "represents kec c bs" "unat (hd_Height (c_head c)) < 2 ^ 64 - 1"
    and built: "builder_BuildBlock kec g gb b c pool (c_head c) = (c1, Inr built)"
    and tx: "distinct (map (\<lambda>t. fst (tx_Hash kec t)) (b_Transactions (bt_Block built)))"
    and a: "AppendBlock kec c1 (Some (bt_Block built)) rs = (c2, blk', Inr ())" "length rs < 2 ^ 32"
  shows "represents kec c2 (bs @ [bt_Block built])"
    "i < length (b_Transactions (bt_Block built)) \<Longrightarrow>
      FindTx c2 (fst (tx_Hash kec (b_Transactions (bt_Block built) ! i))) = Inr (hd_Height (c_head c) + 1, word_of_nat i)"
    "readable (bt_Block built) \<Longrightarrow> GetBlock c2 (hd_Height (c_head c) + 1) = Inr (stored (drop_senders (bt_Block built)))"
    "i < length rs \<Longrightarrow> receipt_ok kec (rs ! i) \<Longrightarrow> GetReceipt c2 (hd_Height (c_head c) + 1) (word_of_nat i) = Inr (rs ! i)"
    "hd_Height (c_head c2) = hd_Height (c_head c) + 1"
    "header_Hash kec (b_Header (stored (drop_senders (bt_Block built)))) = Inr (hd_Hash (c_head c2))"
    "length (b_Transactions (bt_Block built)) < 2 ^ 32"
proof -
  let ?ht = "hd_Height (c_head c) + 1"
  obtain m where c1: "c1 = c\<lparr>c_mgr := Some m\<rparr>" and fits: "h_Height (b_Header (bt_Block built)) = ?ht"
    by (rule BuildBlock_fits [OF built])
  have cach: "cached kec (bt_Block built) = bt_Block built" by (rule cached_all [OF BuildBlock_cached [OF built]])
  have rep1: "represents kec c1 bs" using c(1) by (simp add: c1)
  show rep: "represents kec c2 (bs @ [bt_Block built])"
    using append_built [OF c(1) built c(2) a(1)] by (auto split: if_splits)
  have ht: "unat ?ht = length bs" using c(1) next_height [OF c(2)] by (simp add: represents_def)
  show head: "hd_Height (c_head c2) = ?ht" using rep ht by (simp add: represents_def word_unat_eq_iff)
  have enc: "is_ok (block_Encode (bt_Block built))" using rep by (simp add: represents_def)
  show "GetBlock c2 ?ht = Inr (stored (drop_senders (bt_Block built)))" if "readable (bt_Block built)"
    using GetBlock_head [OF rep] readback_readable [OF enc that] head by simp
  show "header_Hash kec (b_Header (stored (drop_senders (bt_Block built)))) = Inr (hd_Hash (c_head c2))"
    using rep by (simp add: represents_def header_Hash_stored)
  show "length (b_Transactions (bt_Block built)) < 2 ^ 32" by (rule block_tx_bound [OF enc])
  have "unat (hd_Height (c_head c1)) < 2 ^ 64 - 1" using c(2) by (simp add: c1)
  from AppendBlock_indexed [OF rep1 a(1) this a(2)] tx
  show "i < length (b_Transactions (bt_Block built)) \<Longrightarrow>
      FindTx c2 (fst (tx_Hash kec (b_Transactions (bt_Block built) ! i))) = Inr (?ht, word_of_nat i)"
    and "i < length rs \<Longrightarrow> receipt_ok kec (rs ! i) \<Longrightarrow> GetReceipt c2 ?ht (word_of_nat i) = Inr (rs ! i)"
    by (simp_all add: cach fits)
qed

text \<open>
  C9: what a node produces can be looked up. After a successful \<open>produceBlock\<close> below the last height of 64 bits that
  packed transactions with different hashes, whose receipts have less than 4 GiB each, both queries of a packed transaction
  by its hash are answered without changing the node: \<open>eth_getTransactionReceipt\<close> with the receipt of
  that transaction and the gas used up to it, and \<open>eth_getTransactionByHash\<close> with its block, which is the new head,
  and its place in it. The second query needs a block that reads back: its transactions must have types 1 to 127, only the fee
  fields of their type, no zero recipient and at most \<open>MaxTxSize\<close> bytes. The receipts are found also when it does not.
\<close>

theorem produced_block_served:
  assumes sv: "node_server W port = Inr sv"
    and n: "IsRunning n" "n_chain n = Some c" "n_pool n = Some pool" "n_evm n = Some chainID"
    and c: "represents (w_keccak W) c bs" "unat (hd_Height (c_head c)) < 2 ^ 64 - 1"
    and built: "build_on_head W chainID c pool = (c1, Inr built)" "i < length (b_Transactions (bt_Block built))"
    and tx: "distinct (map (\<lambda>t. fst (tx_Hash (w_keccak W) t)) (b_Transactions (bt_Block built)))"
      "list_all (receipt_ok (w_keccak W)) (bt_Receipts built)"
      "if rq_Method req = ''eth_getTransactionByHash'' then readable (bt_Block built) else True"
    and p: "produceBlock W n = (n', Inr ())"
    and req: "rq_JSONRPC req = ''2.0''" "rq_Method req \<in> {''eth_getTransactionReceipt'', ''eth_getTransactionByHash''}"
      "ParseParams (rq_Params req) = Inr [quoted (rpc_EncodeHash (fst (tx_Hash (w_keccak W) (b_Transactions (bt_Block built) ! i))))]"
  shows "\<exists>resp j c2. handleOne (sv_dispatcher sv) req n' = Inr (n', resp) \<and> rs_Error resp = None \<and> rs_Result resp = Some j \<and>
    json_member ''blockNumber'' j = Some (JStr (rpc_EncodeUint64 (hd_Height (c_head c) + 1))) \<and>
    json_member ''transactionIndex'' j = Some (JStr (rpc_EncodeUint64 (word_of_nat i))) \<and>
    json_member (if rq_Method req = ''eth_getTransactionReceipt'' then ''transactionHash'' else ''hash'') j =
      Some (JStr (rpc_EncodeHash (fst (tx_Hash (w_keccak W) (b_Transactions (bt_Block built) ! i))))) \<and>
    n_chain n' = Some c2 \<and> hd_Height (c_head c2) = hd_Height (c_head c) + 1 \<and>
    (if rq_Method req = ''eth_getTransactionReceipt''
     then json_member ''cumulativeGasUsed'' j = Some (JStr (rpc_EncodeUint64 (gas_total (take (Suc i) (bt_Receipts built)))))
     else json_member ''blockHash'' j = Some (JStr (rpc_EncodeHash (hd_Hash (c_head c2)))))"
proof -
  let ?kec = "w_keccak W" and ?txs = "b_Transactions (bt_Block built)" and ?ht = "hd_Height (c_head c) + 1"
  let ?x = "fst (tx_Hash ?kec (?txs ! i))" and ?b = "stored (drop_senders (bt_Block built))"
  have b: "builder_BuildBlock ?kec (w_geth W) (w_body W) (blockBuilder W chainID pool) c pool (c_head c) = (c1, Inr built)"
    using built by (simp add: build_on_head_def)
  have match: "receipts_match ?kec ?txs (bt_Receipts built)" by (rule BuildBlock_receipts [OF b])
  obtain c2 blk' where a: "AppendBlock ?kec c1 (Some (bt_Block built)) (bt_Receipts built) = (c2, blk', Inr ())"
    and n': "n_chain n' = Some c2"
    using p n(1) built(2) by (auto simp: produceBlock_def IsRunning_def n(2-4) built(1) Let_def split: prod.splits sum.splits if_splits)
  have enc: "is_ok (block_Encode (bt_Block built))" using append_built [OF c(1) b c(2) a] by (auto split: if_splits)
  have len: "length (bt_Receipts built) = length ?txs" "length (bt_Receipts built) < 2 ^ 32"
    using match block_tx_bound [OF enc] by (simp_all add: receipts_match_def)
  note found = built_block_found [OF c b tx(1) a len(2)]
  note loc = found(2) [OF built(2)]
  have gen: "HasGenesis c2" using found(1) by (simp add: represents_def)
  have ix: "unat (word_of_nat i :: uint32) = i" "ucast (word_of_nat i :: uint32) = (word_of_nat i :: uint64)"
    using built(2) found(7) by (simp_all add: unat_of_nat word_unat_eq_iff unat_ucast_64)
  show ?thesis
  proof (cases "rq_Method req = ''eth_getTransactionReceipt''")
    case True
    have r: "GetReceipt c2 ?ht (word_of_nat i) = Inr (bt_Receipts built ! i)"
      by (rule found(4)) (use tx(2) built(2) len(1) in \<open>simp_all add: list_all_length\<close>)
    have "r_TxHash (bt_Receipts built ! i) = ?x" "r_CumulativeGasUsed (bt_Receipts built ! i) = gas_total (take (Suc i) (bt_Receipts built))"
      using match built(2) by (simp_all add: receipts_match_def)
    moreover have "handleOne (sv_dispatcher sv) req n' = Inr (n',
        \<lparr>rs_Result = Some (receiptToRPC (bt_Receipts built ! i) ?ht (word_of_nat i)), rs_Error = None, rs_ID = []\<rparr>)"
      by (rule tx_query [OF sv n' gen req(1,3), where f = "eth_getTransactionReceipt node_chain_api"])
        (use True tx_answers(1) [OF n' loc r] in simp_all)
    ultimately show ?thesis using n' found(5) True by (simp add: receipt_members ix)
  next
    case False
    have "handleOne (sv_dispatcher sv) req n' = Inr (n',
        \<lparr>rs_Result = Some (transactionToRPC ?kec ?b (word_of_nat i)), rs_Error = None, rs_ID = []\<rparr>)"
      by (rule tx_query [OF sv n' gen req(1,3), where f = "eth_getTransactionByHash ?kec node_chain_api"])
        (use False req(2) tx_answers(3) [OF n' loc found(3)] built(2) tx(3) ix in \<open>simp_all add: stored_def drop_senders_def\<close>)
    moreover have "h_Height (b_Header ?b) = ?ht" "fst (tx_Hash ?kec (b_Transactions ?b ! i)) = ?x"
      using BuildBlock_fits [OF b] built(2) by (auto simp: stored_def drop_senders_def)
    ultimately show ?thesis using n' found(5,6) False by (simp add: transaction_members ix value_or_zero_def)
  qed
qed

definition receipt_request :: rpc_request where
  "receipt_request = \<lparr>rq_JSONRPC = ''2.0'', rq_Method = ''eth_getTransactionReceipt'',
     rq_Params = ''['' @ quoted (rpc_EncodeHash 4) @ '']'', rq_ID = ''1''\<rparr>"

lemma receipt_params: "ParseParams (''['' @ quoted (rpc_EncodeHash 4) @ '']'') = Inr [quoted (rpc_EncodeHash 4)]"
  by code_simp

theorem produced_block_served_witness:
  "\<exists>kec sv c n' resp j. node_server (world_sample kec) 8545 = Inr sv \<and>
    produceBlock (world_sample kec) (node_sample kec c) = (n', Inr ()) \<and>
    handleOne (sv_dispatcher sv) receipt_request n' = Inr (n', resp) \<and> rs_Result resp = Some j \<and>
    json_member ''transactionHash'' j = Some (JStr (rpc_EncodeHash 4)) \<and>
    json_member ''blockNumber'' j = Some (JStr (rpc_EncodeUint64 1))"
proof -
  obtain kec c b c1 built where s: "represents kec c [b]" "c_head c = \<lparr>hd_Height = 0, hd_Hash = 0, hd_StateRoot = 0\<rparr>"
    "build_on_head (world_sample kec) 7 c sample_pool = (c1, Inr built)" "bt_GethTxs built = [4]"
    "readable (bt_Block built)" "is_ok (block_Encode (bt_Block built))"
    "header_Hash kec (b_Header (bt_Block built)) = Inr 1"
    by (rule sample_ready)
  note r = sample_ready_receipts [OF s(3)]
  have k: "w_keccak (world_sample kec) = kec" "w_geth (world_sample kec) = geth_sample" by (simp_all add: world_sample_def)
  have n: "IsRunning (node_sample kec c)" "n_chain (node_sample kec c) = Some c" "n_pool (node_sample kec c) = Some sample_pool"
    "n_evm (node_sample kec c) = Some 7"
    by (simp_all add: IsRunning_def node_sample_def)
  obtain sv where sv: "node_server (world_sample kec) 8545 = Inr sv" using node_server_exists by blast
  obtain n' where p: "produceBlock (world_sample kec) (node_sample kec c) = (n', Inr ())"
    using produce_built [OF n, of "world_sample kec" "[b]" c1 built] s r k sample_pool_ok by auto
  have rep: "represents (w_keccak (world_sample kec)) c [b]" "unat (hd_Height (c_head c)) < 2 ^ 64 - 1" using s(1,2) k by simp_all
  have h: "fst (tx_Hash kec tx_built) = 4" by (simp add: tx_Hash_def tx_built_def)
  obtain resp j where "handleOne (sv_dispatcher sv) receipt_request n' = Inr (n', resp)" "rs_Result resp = Some j"
    "json_member ''transactionHash'' j = Some (JStr (rpc_EncodeHash 4))" "json_member ''blockNumber'' j = Some (JStr (rpc_EncodeUint64 1))"
    using produced_block_served [OF sv n rep s(3) _ _ _ _ p, of 0 receipt_request] r h k receipt_params s(2)
    by (auto simp: receipt_request_def)
  then show ?thesis using sv p by blast
qed

text \<open>
  what consensus commits has no receipts. After a node that built the block of a height has committed it,
  \<open>eth_getTransactionByHash\<close> finds its transactions in the new head, but \<open>eth_getTransactionReceipt\<close> answers with
  neither a result nor an error, unless a receipt was stored for that height before: the receipts the
  builder made are not passed on.
\<close>

theorem committed_receipts_missing:
  assumes sv: "node_server W port = Inr sv"
    and n: "n_chain n = Some c1" "n_pendingBuilt n = Some built"
    and built: "build_on_head W chainID c pool = (c1, Inr built)" "i < length (b_Transactions (bt_Block built))"
    and c: "represents (w_keccak W) c bs" "unat (hd_Height (c_head c)) < 2 ^ 64 - 1"
    and tx: "distinct (map (\<lambda>t. fst (tx_Hash (w_keccak W) t)) (b_Transactions (bt_Block built)))" "readable (bt_Block built)"
    and none: "GetReceipt c (hd_Height (c_head c) + 1) (word_of_nat i) = Inl ErrNotFound"
    and p: "node_CommitBlock W decided (hd_Height (c_head c) + 1) n = (n', Inr ())"
    and req: "rq_JSONRPC req = ''2.0''" "rq_Method req \<in> {''eth_getTransactionReceipt'', ''eth_getTransactionByHash''}"
      "ParseParams (rq_Params req) = Inr [quoted (rpc_EncodeHash (fst (tx_Hash (w_keccak W) (b_Transactions (bt_Block built) ! i))))]"
  shows "\<exists>resp. handleOne (sv_dispatcher sv) req n' = Inr (n', resp) \<and> rs_Error resp = None \<and>
    (if rq_Method req = ''eth_getTransactionReceipt'' then rs_Result resp = None
     else \<exists>j c2. rs_Result resp = Some j \<and> n_chain n' = Some c2 \<and>
       json_member ''blockHash'' j = Some (JStr (rpc_EncodeHash (hd_Hash (c_head c2)))))"
proof -
  let ?kec = "w_keccak W" and ?txs = "b_Transactions (bt_Block built)" and ?ht = "hd_Height (c_head c) + 1"
  let ?b = "stored (drop_senders (bt_Block built))"
  have b: "builder_BuildBlock ?kec (w_geth W) (w_body W) (blockBuilder W chainID pool) c pool (c_head c) = (c1, Inr built)"
    using built by (simp add: build_on_head_def)
  obtain m where c1: "c1 = c\<lparr>c_mgr := Some m\<rparr>" and fits: "h_Height (b_Header (bt_Block built)) = ?ht"
    by (rule BuildBlock_fits [OF b])
  obtain c2 blk' where a: "AppendBlock ?kec c1 (Some (bt_Block built)) [] = (c2, blk', Inr ())" and n': "n_chain n' = Some c2"
    using p by (auto simp: node_CommitBlock_def pending_for_def n fits split: prod.splits sum.splits)
  have no_rs: "length ([] :: receipt list) < 2 ^ 32" by simp
  note found = built_block_found [OF c b tx(1) a no_rs]
  note loc = found(2) [OF built(2)]
  have gen: "HasGenesis c2" using found(1) by (simp add: represents_def)
  have ix: "unat (word_of_nat i :: uint32) = i" using built(2) found(7) by (simp add: unat_of_nat)
  show ?thesis
  proof (cases "rq_Method req = ''eth_getTransactionReceipt''")
    case True
    have "GetReceipt c2 ?ht (word_of_nat i) = Inl ErrNotFound"
      using AppendBlock_no_receipts [OF a] none by (simp add: c1 GetReceipt_def)
    then have "handleOne (sv_dispatcher sv) req n' = Inr (n', \<lparr>rs_Result = None, rs_Error = None, rs_ID = []\<rparr>)"
      by (intro tx_query [OF sv n' gen req(1,3), where f = "eth_getTransactionReceipt node_chain_api"])
        (use True tx_answers(2) [OF n' loc] in simp_all)
    then show ?thesis using True by simp
  next
    case False
    have "handleOne (sv_dispatcher sv) req n' = Inr (n',
        \<lparr>rs_Result = Some (transactionToRPC ?kec ?b (word_of_nat i)), rs_Error = None, rs_ID = []\<rparr>)"
      by (rule tx_query [OF sv n' gen req(1,3), where f = "eth_getTransactionByHash ?kec node_chain_api"])
        (use False req(2) tx_answers(3) [OF n' loc found(3) [OF tx(2)]] built(2) ix in \<open>simp_all add: stored_def drop_senders_def\<close>)
    then show ?thesis using n' found(6) False by (simp add: transaction_members value_or_zero_def)
  qed
qed

theorem committed_receipts_missing_witness:
  "\<exists>kec sv n n' resp. node_server (world_sample kec) 8545 = Inr sv \<and>
    node_CommitBlock (world_sample kec) [] 1 n = (n', Inr ()) \<and>
    handleOne (sv_dispatcher sv) receipt_request n' = Inr (n', resp) \<and> rs_Result resp = None \<and> rs_Error resp = None"
proof -
  obtain kec c b c1 built where s: "represents kec c [b]" "c_head c = \<lparr>hd_Height = 0, hd_Hash = 0, hd_StateRoot = 0\<rparr>"
    "build_on_head (world_sample kec) 7 c sample_pool = (c1, Inr built)" "bt_GethTxs built = [4]"
    "readable (bt_Block built)" "is_ok (block_Encode (bt_Block built))"
    "header_Hash kec (b_Header (bt_Block built)) = Inr 1" "\<forall>h i. GetReceipt c h i = Inl ErrNotFound"
    by (rule sample_ready_full)
  note r = sample_ready_receipts [OF s(3)]
  let ?n = "(node_sample kec c1)\<lparr>n_pendingBuilt := Some built\<rparr>"
  have n: "n_chain ?n = Some c1" "n_pendingBuilt ?n = Some built" by (simp_all add: node_sample_def)
  have rep: "represents (w_keccak (world_sample kec)) c [b]" "unat (hd_Height (c_head c)) < 2 ^ 64 - 1" using s(1,2) by simp_all
  obtain sv where sv: "node_server (world_sample kec) 8545 = Inr sv" using node_server_exists by blast
  obtain n' where p: "node_CommitBlock (world_sample kec) [] (hd_Height (c_head c) + 1) ?n = (n', Inr ())"
    by (rule commit_pending [OF n s(3) rep s(6), of "[]"]) blast
  have h: "fst (tx_Hash kec tx_built) = 4" by (simp add: tx_Hash_def tx_built_def)
  obtain resp where "handleOne (sv_dispatcher sv) receipt_request n' = Inr (n', resp)" "rs_Result resp = None" "rs_Error resp = None"
    using committed_receipts_missing [OF sv n s(3) _ rep _ s(5) _ p, of 0 receipt_request] r h receipt_params s(2,8)
    by (auto simp: receipt_request_def)
  moreover have "node_CommitBlock (world_sample kec) [] 1 ?n = (n', Inr ())" using p s(2) by simp
  ultimately show ?thesis using sv by blast
qed

end
