(* ===== verification/Bls.thy ===== *)
theory Bls
  imports Validators
begin

text \<open>
  BLS signatures: \<open>crypto/bls/bls.go\<close>. The library \<open>kilic/bls12-381\<close> is a parameter, a record of the
  functions the package calls, and so is SHA-256. What the package relies on is \<open>pairing_laws\<close>: points
  survive compression, and the check of an engine decides whether the product of the pairings of the
  pairs it was given is one. The target group is any commutative group, written additively.
\<close>

section \<open>The library\<close>

record ('p, 'q, 's) bls_lib =
  G1_One :: 'p
  G1_Add :: "'p \<Rightarrow> 'p \<Rightarrow> 'p"
  G1_Neg :: "'p \<Rightarrow> 'p"
  G1_MulScalar :: "'p \<Rightarrow> 's \<Rightarrow> 'p"
  G1_ToCompressed :: "'p \<Rightarrow> bytes"
  G1_FromCompressed :: "bytes \<Rightarrow> 'p option"
  G1_InCorrectSubgroup :: "'p \<Rightarrow> bool"
  G1_HashToCurve :: "bytes \<Rightarrow> bytes \<Rightarrow> 'p"
  G2_One :: 'q
  G2_Add :: "'q \<Rightarrow> 'q \<Rightarrow> 'q"
  G2_MulScalar :: "'q \<Rightarrow> 's \<Rightarrow> 'q"
  G2_ToCompressed :: "'q \<Rightarrow> bytes"
  G2_FromCompressed :: "bytes \<Rightarrow> 'q option"
  G2_InCorrectSubgroup :: "'q \<Rightarrow> bool"
  Fr_FromBytes :: "bytes \<Rightarrow> 's"
  Engine_Check :: "('p \<times> 'q) list \<Rightarrow> bool"
  lib_Sum256 :: "bytes \<Rightarrow> bytes"

section \<open>Keys\<close>

definition SecretKeyLen :: nat where "SecretKeyLen = 32"
definition PublicKeyLen :: nat where "PublicKeyLen = 96"
definition SignatureLen :: nat where "SignatureLen = 48"
definition domain :: bytes where "domain = str ''chfault-bls-v1''"

definition ErrInvalidSecretKey :: err where "ErrInvalidSecretKey = ErrOther ''bls: secret key''"
definition ErrInvalidSignature :: err where "ErrInvalidSignature = ErrOther ''bls: signature''"
definition ErrInvalidPublicKey :: err where "ErrInvalidPublicKey = ErrOther ''bls: public key''"
definition ErrEmptyAggregate :: err where "ErrEmptyAggregate = ErrOther ''bls: empty aggregate''"

text \<open>The order of the groups.\<close>

definition fr_order :: nat where
  "fr_order = 0x73eda753299d7d483339d80809a1d80553bda402fffe5bfeffffffff00000001"

definition KeyGen :: "('p, 'q, 's) bls_lib \<Rightarrow> bytes \<Rightarrow> 's res" where
  "KeyGen L seed =
     (let k = be_val (lib_Sum256 L seed) mod fr_order in
      if k = 0 then Inl ErrInvalidSecretKey
      else Inr (Fr_FromBytes L (word_bytes (word_of_nat k :: 256 word))))"

definition KeyFromSeed :: "('p, 'q, 's) bls_lib \<Rightarrow> bytes \<Rightarrow> 's res" where
  "KeyFromSeed L addrSeed = KeyGen L (str ''chfault-bls:'' @ addrSeed)"

definition PublicKey :: "('p, 'q, 's) bls_lib \<Rightarrow> 's \<Rightarrow> bytes" where
  "PublicKey L sk = G2_ToCompressed L (G2_MulScalar L (G2_One L) sk)"

section \<open>Signatures\<close>

definition parseSig :: "('p, 'q, 's) bls_lib \<Rightarrow> bytes \<Rightarrow> 'p res" where
  "parseSig L sig =
     (if length sig \<noteq> SignatureLen then Inl ErrInvalidSignature
      else case G1_FromCompressed L sig of
          None \<Rightarrow> Inl ErrInvalidSignature
        | Some p \<Rightarrow> if \<not> G1_InCorrectSubgroup L p then Inl ErrInvalidSignature else Inr p)"

definition parsePK :: "('p, 'q, 's) bls_lib \<Rightarrow> bytes \<Rightarrow> 'q res" where
  "parsePK L pk =
     (if length pk \<noteq> PublicKeyLen then Inl ErrInvalidPublicKey
      else case G2_FromCompressed L pk of
          None \<Rightarrow> Inl ErrInvalidPublicKey
        | Some p \<Rightarrow> if \<not> G2_InCorrectSubgroup L p then Inl ErrInvalidPublicKey else Inr p)"

definition hashToG1 :: "('p, 'q, 's) bls_lib \<Rightarrow> bytes \<Rightarrow> 'p" where
  "hashToG1 L msg = G1_HashToCurve L msg domain"

definition bls_Sign :: "('p, 'q, 's) bls_lib \<Rightarrow> 's \<Rightarrow> bytes \<Rightarrow> bytes" where
  "bls_Sign L sk msg = G1_ToCompressed L (G1_MulScalar L (hashToG1 L msg) sk)"

definition SignMessage :: "('p, 'q, 's) bls_lib \<Rightarrow> 's \<Rightarrow> bytes \<Rightarrow> bytes" where
  "SignMessage L sk msg = bls_Sign L sk msg"

definition bls_Verify :: "('p, 'q, 's) bls_lib \<Rightarrow> bytes \<Rightarrow> bytes \<Rightarrow> bytes \<Rightarrow> bool" where
  "bls_Verify L pk msg sig =
     (case parsePK L pk of
        Inl _ \<Rightarrow> False
      | Inr pkPoint \<Rightarrow>
          (case parseSig L sig of
             Inl _ \<Rightarrow> False
           | Inr sigPoint \<Rightarrow>
               Engine_Check L [(sigPoint, G2_One L), (G1_Neg L (hashToG1 L msg), pkPoint)]))"

section \<open>Aggregation\<close>

definition Aggregate :: "('p, 'q, 's) bls_lib \<Rightarrow> bytes list \<Rightarrow> bytes res" where
  "Aggregate L sigs =
     (case sigs of
        [] \<Rightarrow> Inl ErrEmptyAggregate
      | sig # sigs \<Rightarrow>
          and_then (parseSig L sig) (\<lambda>acc.
          and_then (each (\<lambda>s acc. res_map (G1_Add L acc) (parseSig L s)) sigs acc) (\<lambda>acc.
          Inr (G1_ToCompressed L acc))))"

definition AggregatePublicKeys :: "('p, 'q, 's) bls_lib \<Rightarrow> bytes list \<Rightarrow> bytes res" where
  "AggregatePublicKeys L pks =
     (case pks of
        [] \<Rightarrow> Inl ErrEmptyAggregate
      | pk # pks \<Rightarrow>
          and_then (parsePK L pk) (\<lambda>acc.
          and_then (each (\<lambda>k acc. res_map (G2_Add L acc) (parsePK L k)) pks acc) (\<lambda>acc.
          Inr (G2_ToCompressed L acc))))"

definition FastAggregateVerify :: "('p, 'q, 's) bls_lib \<Rightarrow> bytes list \<Rightarrow> bytes \<Rightarrow> bytes \<Rightarrow> bool" where
  "FastAggregateVerify L pks msg sig =
     (if pks = [] then False
      else case AggregatePublicKeys L pks of Inl _ \<Rightarrow> False | Inr aggPK \<Rightarrow> bls_Verify L aggPK msg sig)"

text \<open>The pairs are given to one engine, in order, and a key that does not parse ends the loop.\<close>

definition add_pairs :: "('p, 'q, 's) bls_lib \<Rightarrow> (bytes \<times> bytes) list \<Rightarrow> ('p \<times> 'q) list \<Rightarrow> ('p \<times> 'q) list res" where
  "add_pairs L pairs eng =
     each (\<lambda>(pk, msg) eng. res_map (\<lambda>pkPoint. eng @ [(G1_Neg L (hashToG1 L msg), pkPoint)]) (parsePK L pk)) pairs eng"

definition AggregateVerify :: "('p, 'q, 's) bls_lib \<Rightarrow> bytes list \<Rightarrow> bytes list \<Rightarrow> bytes \<Rightarrow> bool" where
  "AggregateVerify L pks msgs sig =
     (if pks = [] \<or> length pks \<noteq> length msgs then False
      else case parseSig L sig of
          Inl _ \<Rightarrow> False
        | Inr sigPoint \<Rightarrow>
            (case add_pairs L (zip pks msgs) [(sigPoint, G2_One L)] of
               Inl _ \<Rightarrow> False
             | Inr eng \<Rightarrow> Engine_Check L eng))"

section \<open>What the library promises\<close>

definition g1_laws :: "('p, 'q, 's) bls_lib \<Rightarrow> bool" where
  "g1_laws L \<longleftrightarrow>
     (\<forall>p. G1_InCorrectSubgroup L p \<longrightarrow> length (G1_ToCompressed L p) = SignatureLen \<and>
        G1_FromCompressed L (G1_ToCompressed L p) = Some p) \<and>
     (\<forall>m d. G1_InCorrectSubgroup L (G1_HashToCurve L m d)) \<and>
     (\<forall>p s. G1_InCorrectSubgroup L p \<longrightarrow> G1_InCorrectSubgroup L (G1_MulScalar L p s)) \<and>
     (\<forall>p q. G1_InCorrectSubgroup L p \<longrightarrow> G1_InCorrectSubgroup L q \<longrightarrow> G1_InCorrectSubgroup L (G1_Add L p q))"

definition g2_laws :: "('p, 'q, 's) bls_lib \<Rightarrow> bool" where
  "g2_laws L \<longleftrightarrow>
     (\<forall>p. G2_InCorrectSubgroup L p \<longrightarrow> length (G2_ToCompressed L p) = PublicKeyLen \<and>
        G2_FromCompressed L (G2_ToCompressed L p) = Some p) \<and>
     (\<forall>s. G2_InCorrectSubgroup L (G2_MulScalar L (G2_One L) s)) \<and>
     (\<forall>p q. G2_InCorrectSubgroup L p \<longrightarrow> G2_InCorrectSubgroup L q \<longrightarrow> G2_InCorrectSubgroup L (G2_Add L p q))"

text \<open>The pairing \<open>e\<close> is linear in both arguments, and a scalar moves from one side to the other.\<close>

definition pairing_laws :: "('p, 'q, 's) bls_lib \<Rightarrow> ('p \<Rightarrow> 'q \<Rightarrow> 'g::ab_group_add) \<Rightarrow> bool" where
  "pairing_laws L e \<longleftrightarrow>
     g1_laws L \<and> g2_laws L \<and>
     (\<forall>p p' q. e (G1_Add L p p') q = e p q + e p' q) \<and>
     (\<forall>p q q'. e p (G2_Add L q q') = e p q + e p q') \<and>
     (\<forall>p q. e (G1_Neg L p) q = - e p q) \<and>
     (\<forall>p q s. e (G1_MulScalar L p s) q = e p (G2_MulScalar L q s)) \<and>
     (\<forall>ps. Engine_Check L ps \<longleftrightarrow> (\<Sum>(p, q)\<leftarrow>ps. e p q) = 0)"

lemma pairing_e:
  assumes "pairing_laws L e"
  shows "e (G1_Add L p p') q = e p q + e p' q" "e p (G2_Add L q q') = e p q + e p q'" "e (G1_Neg L p) q = - e p q"
    "e (G1_MulScalar L p s) q = e p (G2_MulScalar L q s)" "Engine_Check L ps \<longleftrightarrow> (\<Sum>(p, q)\<leftarrow>ps. e p q) = 0"
  using assms by (simp_all add: pairing_laws_def)

lemma parse_compressed:
  assumes "pairing_laws L e"
  shows "G1_InCorrectSubgroup L p \<Longrightarrow> parseSig L (G1_ToCompressed L p) = Inr p"
    "G2_InCorrectSubgroup L q \<Longrightarrow> parsePK L (G2_ToCompressed L q) = Inr q"
  using assms by (simp_all add: pairing_laws_def g1_laws_def g2_laws_def parseSig_def parsePK_def)

lemma parse_subgroup:
  "parseSig L sig = Inr p \<Longrightarrow> G1_InCorrectSubgroup L p" "parsePK L pk = Inr q \<Longrightarrow> G2_InCorrectSubgroup L q"
  by (auto simp: parseSig_def parsePK_def split: if_splits option.splits)

lemma parse_made:
  assumes "pairing_laws L e"
  shows "parseSig L (bls_Sign L sk msg) = Inr (G1_MulScalar L (hashToG1 L msg) sk)"
    "parsePK L (PublicKey L sk) = Inr (G2_MulScalar L (G2_One L) sk)"
proof -
  have "G1_InCorrectSubgroup L (G1_MulScalar L (hashToG1 L msg) sk)" "G2_InCorrectSubgroup L (G2_MulScalar L (G2_One L) sk)"
    using assms by (simp_all add: pairing_laws_def g1_laws_def g2_laws_def hashToG1_def)
  then show "parseSig L (bls_Sign L sk msg) = Inr (G1_MulScalar L (hashToG1 L msg) sk)"
    "parsePK L (PublicKey L sk) = Inr (G2_MulScalar L (G2_One L) sk)"
    by (simp_all add: bls_Sign_def PublicKey_def parse_compressed [OF assms])
qed

text \<open>Adding points: the sum is in the subgroup and its pairing is the sum of the pairings.\<close>

lemma add_points:
  assumes "pairing_laws L e"
  shows "list_all (\<lambda>s. parseSig L (f s) = Inr (P s)) xs \<Longrightarrow> G1_InCorrectSubgroup L acc \<Longrightarrow>
      \<exists>r. each (\<lambda>s acc. res_map (G1_Add L acc) (parseSig L s)) (map f xs) acc = Inr r \<and> G1_InCorrectSubgroup L r \<and>
        (\<forall>q. e r q = e acc q + (\<Sum>x\<leftarrow>xs. e (P x) q))"
    and "list_all (\<lambda>s. parsePK L (g s) = Inr (Q s)) ys \<Longrightarrow> G2_InCorrectSubgroup L acc' \<Longrightarrow>
      \<exists>r. each (\<lambda>k acc. res_map (G2_Add L acc) (parsePK L k)) (map g ys) acc' = Inr r \<and> G2_InCorrectSubgroup L r \<and>
        (\<forall>p. e p r = e p acc' + (\<Sum>y\<leftarrow>ys. e p (Q y)))"
proof -
  show "list_all (\<lambda>s. parseSig L (f s) = Inr (P s)) xs \<Longrightarrow> G1_InCorrectSubgroup L acc \<Longrightarrow>
      \<exists>r. each (\<lambda>s acc. res_map (G1_Add L acc) (parseSig L s)) (map f xs) acc = Inr r \<and> G1_InCorrectSubgroup L r \<and>
        (\<forall>q. e r q = e acc q + (\<Sum>x\<leftarrow>xs. e (P x) q))"
  proof (induction xs arbitrary: acc)
    case (Cons x xs)
    have "G1_InCorrectSubgroup L (G1_Add L acc (P x))"
      using assms Cons.prems parse_subgroup(1) [of L "f x" "P x"] by (simp add: pairing_laws_def g1_laws_def)
    from Cons.IH [OF _ this] Cons.prems show ?case by (simp add: pairing_e [OF assms] algebra_simps)
  qed simp
  show "list_all (\<lambda>s. parsePK L (g s) = Inr (Q s)) ys \<Longrightarrow> G2_InCorrectSubgroup L acc' \<Longrightarrow>
      \<exists>r. each (\<lambda>k acc. res_map (G2_Add L acc) (parsePK L k)) (map g ys) acc' = Inr r \<and> G2_InCorrectSubgroup L r \<and>
        (\<forall>p. e p r = e p acc' + (\<Sum>y\<leftarrow>ys. e p (Q y)))"
  proof (induction ys arbitrary: acc')
    case (Cons y ys)
    have "G2_InCorrectSubgroup L (G2_Add L acc' (Q y))"
      using assms Cons.prems parse_subgroup(2) [of L "g y" "Q y"] by (simp add: pairing_laws_def g2_laws_def)
    from Cons.IH [OF _ this] Cons.prems show ?case by (simp add: pairing_e [OF assms] algebra_simps)
  qed simp
qed

lemma Aggregate_points:
  assumes "pairing_laws L e" "list_all (\<lambda>s. parseSig L (f s) = Inr (P s)) xs" "xs \<noteq> []"
  shows "\<exists>r. Aggregate L (map f xs) = Inr (G1_ToCompressed L r) \<and> G1_InCorrectSubgroup L r \<and>
    (\<forall>q. e r q = (\<Sum>x\<leftarrow>xs. e (P x) q))"
proof (cases xs)
  case (Cons x ys)
  have "G1_InCorrectSubgroup L (P x)" using assms(2) parse_subgroup(1) [of L "f x" "P x"] Cons by simp
  from add_points(1) [OF assms(1) _ this, of f P ys] assms(2) show ?thesis by (auto simp: Cons Aggregate_def)
qed (use assms(3) in simp)

lemma AggregatePublicKeys_points:
  assumes "pairing_laws L e" "list_all (\<lambda>s. parsePK L (g s) = Inr (Q s)) ys" "ys \<noteq> []"
  shows "\<exists>r. AggregatePublicKeys L (map g ys) = Inr (G2_ToCompressed L r) \<and> G2_InCorrectSubgroup L r \<and>
    (\<forall>p. e p r = (\<Sum>y\<leftarrow>ys. e p (Q y)))"
proof (cases ys)
  case (Cons y zs)
  have "G2_InCorrectSubgroup L (Q y)" using assms(2) parse_subgroup(2) [of L "g y" "Q y"] Cons by simp
  from add_points(2) [OF assms(1) _ this, of g Q zs] assms(2) show ?thesis by (auto simp: Cons AggregatePublicKeys_def)
qed (use assms(3) in simp)

text \<open>A single verification compares two pairings.\<close>

lemma bls_Verify_points:
  assumes "pairing_laws L e" "parsePK L pk = Inr q" "parseSig L sig = Inr p"
  shows "bls_Verify L pk msg sig \<longleftrightarrow> e p (G2_One L) = e (hashToG1 L msg) q"
  using assms by (simp add: bls_Verify_def pairing_e [OF assms(1)] algebra_simps)


text \<open>The aggregate of signatures of one message verifies under the sum of the keys.\<close>

lemma aggregate_of_keys:
  assumes "pairing_laws L e" "sks \<noteq> []"
  shows "\<exists>sig. Aggregate L (map (\<lambda>sk. bls_Sign L sk m) sks) = Inr sig \<and> FastAggregateVerify L (map (PublicKey L) sks) m sig"
proof -
  note made = parse_made [OF assms(1)] and comp = parse_compressed [OF assms(1)]
  let ?S = "\<lambda>sk. G1_MulScalar L (hashToG1 L m) sk" and ?Q = "\<lambda>sk. G2_MulScalar L (G2_One L) sk"
  obtain r where r: "Aggregate L (map (\<lambda>sk. bls_Sign L sk m) sks) = Inr (G1_ToCompressed L r)" "G1_InCorrectSubgroup L r"
    "\<forall>q. e r q = (\<Sum>sk\<leftarrow>sks. e (?S sk) q)"
    using Aggregate_points [OF assms(1), of "\<lambda>sk. bls_Sign L sk m" ?S sks] assms(2) made by (auto simp: list_all_iff)
  obtain k where k: "AggregatePublicKeys L (map (PublicKey L) sks) = Inr (G2_ToCompressed L k)" "G2_InCorrectSubgroup L k"
    "\<forall>p. e p k = (\<Sum>sk\<leftarrow>sks. e p (?Q sk))"
    using AggregatePublicKeys_points [OF assms(1), of "PublicKey L" ?Q sks] assms(2) made by (auto simp: list_all_iff)
  have "bls_Verify L (G2_ToCompressed L k) m (G1_ToCompressed L r)"
    unfolding bls_Verify_points [OF assms(1) comp(2) [OF k(2)] comp(1) [OF r(2)]]
    using r(3) k(3) pairing_e(4) [OF assms(1)] by simp
  then show ?thesis using r(1) k(1) assms(2) by (simp add: FastAggregateVerify_def)
qed

text \<open>The aggregate of signatures of a message each passes the check of all the pairs.\<close>

lemma aggregate_of_messages:
  assumes "pairing_laws L e" "sks \<noteq> []" "length ms = length sks"
  shows "\<exists>sig. Aggregate L (map (\<lambda>(sk, m). bls_Sign L sk m) (zip sks ms)) = Inr sig \<and>
    AggregateVerify L (map (PublicKey L) sks) ms sig"
proof -
  note e = pairing_e [OF assms(1)] and made = parse_made [OF assms(1)] and comp = parse_compressed [OF assms(1)]
  let ?S = "\<lambda>sk m. G1_MulScalar L (hashToG1 L m) sk" and ?Q = "\<lambda>sk. G2_MulScalar L (G2_One L) sk"
  let ?ps = "zip sks ms"
  have ps: "?ps \<noteq> []" using assms(2,3) by (cases sks; cases ms) simp_all
  obtain t where t: "Aggregate L (map (\<lambda>(sk, m). bls_Sign L sk m) ?ps) = Inr (G1_ToCompressed L t)" "G1_InCorrectSubgroup L t"
    "\<forall>q. e t q = (\<Sum>(sk, m)\<leftarrow>?ps. e (?S sk m) q)"
    using Aggregate_points [OF assms(1), of "\<lambda>(sk, m). bls_Sign L sk m" "\<lambda>(sk, m). ?S sk m" ?ps] ps made
    by (auto simp: list_all_iff case_prod_unfold)
  have pairs: "add_pairs L (map (\<lambda>(sk, m). (PublicKey L sk, m)) xs) eng =
      Inr (eng @ map (\<lambda>(sk, m). (G1_Neg L (hashToG1 L m), ?Q sk)) xs)" for xs eng
    by (induction xs arbitrary: eng) (auto simp: add_pairs_def made)
  have zip: "zip (map (PublicKey L) sks) ms = map (\<lambda>(sk, m). (PublicKey L sk, m)) ?ps"
    by (simp add: zip_map1)
  have "(\<Sum>(sk, m)\<leftarrow>xs. e (?S sk m) (G2_One L)) + (\<Sum>(sk, m)\<leftarrow>xs. e (G1_Neg L (hashToG1 L m)) (?Q sk)) = 0" for xs
    by (induction xs) (auto simp: e(3) e(4) algebra_simps)
  then have "Engine_Check L ((t, G2_One L) # map (\<lambda>(sk, m). (G1_Neg L (hashToG1 L m), ?Q sk)) ?ps)"
    using t(3) by (simp add: e(5) case_prod_unfold comp_def)
  then show ?thesis
    using t(1) comp(1) [OF t(2)] assms(2,3) by (simp add: AggregateVerify_def zip pairs)
qed

section \<open>Properties\<close>

text \<open>
  aggregates of honest signatures verify. Whatever the keys, repeated ones included, the aggregate of
  their signatures of one message passes \<open>FastAggregateVerify\<close> with their public keys, and the
  aggregate of their signatures of any messages passes \<open>AggregateVerify\<close>.
\<close>

theorem aggregate_verifies:
  assumes "pairing_laws L e" "sks \<noteq> []" "length ms = length sks"
  shows "(\<exists>sig. Aggregate L (map (\<lambda>sk. bls_Sign L sk m) sks) = Inr sig \<and> FastAggregateVerify L (map (PublicKey L) sks) m sig) \<and>
    (\<exists>sig. Aggregate L (map (\<lambda>(sk, m). bls_Sign L sk m) (zip sks ms)) = Inr sig \<and>
       AggregateVerify L (map (PublicKey L) sks) ms sig)"
  using aggregate_of_keys [OF assms(1,2)] aggregate_of_messages [OF assms] by blast

text \<open>
  a rogue key speaks for others. To any public key that parses, whoever knows one secret key can add a
  key of its own, the difference of the two points, so that its signature alone of any message passes
  \<open>FastAggregateVerify\<close> as the signature of both. Nothing in the package asks for a proof that the
  owner of a public key has its secret key.
\<close>

theorem rogue_key:
  assumes "pairing_laws L e" "parsePK L pk = Inr v" "G2_InCorrectSubgroup L q" "G2_Add L v q = G2_MulScalar L (G2_One L) sk"
  shows "FastAggregateVerify L [pk, G2_ToCompressed L q] m (bls_Sign L sk m)"
proof -
  have "AggregatePublicKeys L [pk, G2_ToCompressed L q] = Inr (PublicKey L sk)"
    using parse_compressed(2) [OF assms(1,3)] assms(2,4) by (simp add: AggregatePublicKeys_def PublicKey_def)
  moreover have "bls_Verify L (PublicKey L sk) m (bls_Sign L sk m)"
    unfolding bls_Verify_points [OF assms(1) parse_made(2,1) [OF assms(1)]] by (simp add: pairing_e [OF assms(1)])
  ultimately show ?thesis by (simp add: FastAggregateVerify_def)
qed

lemma each_parsed:
  "is_ok (each (\<lambda>x acc. res_map (f acc) (parse x)) xs acc) \<longleftrightarrow> list_all (\<lambda>x. is_ok (parse x)) xs"
proof (induction xs arbitrary: acc)
  case (Cons x xs)
  then show ?case by (cases "parse x") simp_all
qed simp

lemma Aggregate_ok: "is_ok (Aggregate L sigs) \<longleftrightarrow> sigs \<noteq> [] \<and> list_all (\<lambda>s. is_ok (parseSig L s)) sigs"
proof (cases sigs)
  case (Cons x xs)
  show ?thesis
  proof (cases "parseSig L x")
    case (Inr p)
    have "is_ok (Aggregate L sigs) \<longleftrightarrow> is_ok (each (\<lambda>s acc. res_map (G1_Add L acc) (parseSig L s)) xs p)"
      by (cases "each (\<lambda>s acc. res_map (G1_Add L acc) (parseSig L s)) xs p") (simp_all add: Aggregate_def Cons Inr)
    then show ?thesis by (simp add: each_parsed Cons Inr)
  qed (simp add: Aggregate_def Cons)
qed (simp add: Aggregate_def)

lemma AggregatePublicKeys_ok: "AggregatePublicKeys L pks = Inr k \<Longrightarrow> list_all (\<lambda>s. is_ok (parsePK L s)) pks"
proof (cases pks)
  case (Cons x xs)
  assume ag: "AggregatePublicKeys L pks = Inr k"
  then obtain p r where p: "parsePK L x = Inr p" "each (\<lambda>k acc. res_map (G2_Add L acc) (parsePK L k)) xs p = Inr r"
    by (auto simp: AggregatePublicKeys_def Cons and_then_Inr_iff)
  from each_parsed [of "G2_Add L" "parsePK L" xs p] p show ?thesis by (simp add: Cons)
qed simp

lemma add_pairs_ok: "add_pairs L ps eng = Inr r \<Longrightarrow> list_all (\<lambda>(k, m). is_ok (parsePK L k)) ps"
proof (induction ps arbitrary: eng)
  case (Cons x ps)
  obtain k m where x: "x = (k, m)" by (cases x)
  from Cons show ?case by (cases "parsePK L k") (auto simp: add_pairs_def x)
qed simp

lemma parse_lengths: "is_ok (parsePK L k) \<Longrightarrow> length k = 96" "is_ok (parseSig L s) \<Longrightarrow> length s = 48"
  by (simp_all add: parsePK_def parseSig_def PublicKeyLen_def SignatureLen_def split: if_splits)

lemma Verify_lengths: "bls_Verify L pk m sig \<Longrightarrow> length pk = 96 \<and> length sig = 48"
  using parse_lengths [of L] by (auto simp: bls_Verify_def split: sum.splits)

lemma Fast_lengths: "FastAggregateVerify L pks m sig \<Longrightarrow> length sig = 48 \<and> list_all (\<lambda>k. length k = 96) pks"
proof -
  assume f: "FastAggregateVerify L pks m sig"
  then obtain k where "AggregatePublicKeys L pks = Inr k" "bls_Verify L k m sig"
    by (auto simp: FastAggregateVerify_def split: sum.splits if_splits)
  then show ?thesis using Verify_lengths [of L k m sig] AggregatePublicKeys_ok [of L pks k] parse_lengths(1) [of L]
    by (simp add: list_all_iff)
qed

text \<open>
  malformed input is refused. A signature that is not 48 bytes verifies for no keys, and a list of keys
  with one that is not 96 bytes verifies no signature, in either mode; and \<open>Aggregate\<close> succeeds exactly on a
  list that is not empty and whose signatures all parse.
\<close>

theorem malformed_refused:
  assumes "length sig \<noteq> 48 \<or> (\<exists>k\<in>set pks. length k \<noteq> 96)"
  shows "\<not> FastAggregateVerify L pks m sig \<and> \<not> AggregateVerify L pks ms sig \<and>
    (is_ok (Aggregate L sigs) \<longleftrightarrow> sigs \<noteq> [] \<and> list_all (\<lambda>s. is_ok (parseSig L s)) sigs)"
proof -
  have "length sig = 48 \<and> list_all (\<lambda>k. length k = 96) pks" if f: "AggregateVerify L pks ms sig"
  proof -
    obtain p eng where p: "length pks = length ms" "parseSig L sig = Inr p" "add_pairs L (zip pks ms) [(p, G2_One L)] = Inr eng"
      using f by (auto simp: AggregateVerify_def split: sum.splits if_splits)
    have "list_all (\<lambda>(k, m). is_ok (parsePK L k)) (zip pks ms)" by (rule add_pairs_ok [OF p(3)])
    then have "list_all (\<lambda>k. length k = 96) (map fst (zip pks ms))" using parse_lengths(1) [of L] by (auto simp: list_all_iff)
    then show ?thesis using p(1,2) parse_lengths(2) [of L sig] by simp
  qed
  then show ?thesis using assms Aggregate_ok [of L sigs] Fast_lengths [of L pks m sig] by (auto simp: list_all_iff)
qed

section \<open>Certificates\<close>

text \<open>
  The BLS signer of a node: the keys it knows for the validators, and the verification of this
  package. \<open>consensus\<close> asks for the interface only, so this is how the two fit together.
\<close>

definition bls_adapter :: "('p, 'q, 's) bls_lib \<Rightarrow> (address \<Rightarrow> 's) \<Rightarrow> bls_signer" where
  "bls_adapter L keys =
     \<lparr>bls_PubKeysByAddrs = (\<lambda>addrs. Some (map (\<lambda>a. PublicKey L (keys a)) addrs)), bls_FastVerify = FastAggregateVerify L\<rparr>"

text \<open>
  C21: an aggregate certificate of honest votes is accepted. If the bitmap of a certificate marks a
  quorum of validators and no bit beyond them, it lists those validators, and its aggregate is
  that of their signatures of the digest of the vote, then \<open>VerifyQC\<close> accepts it, whatever the
  single signatures in it are.
\<close>

theorem aggregate_certificate:
  assumes "pairing_laws L e" "cfg_BLSSigner cfg = Some (bls_adapter L keys)"
    and size: "length (qc_AggBitmap c) = (Size (cfg_Validators cfg) + 7) div 8"
    and high: "\<forall>i\<in>set [Size (cfg_Validators cfg)..<length (qc_AggBitmap c) * 8]. \<not> bitmap_bit (qc_AggBitmap c) i"
    and addrs: "map qs_Validator (qc_Signatures c) =
      map (\<lambda>i. v_Address (vals_list (cfg_Validators cfg) ! i)) (filter (bitmap_bit (qc_AggBitmap c)) [0..<Size (cfg_Validators cfg)])"
    and quorum: "qc_Signatures c \<noteq> []" "Quorum (cfg_Validators cfg) \<le> word_of_nat (length (qc_Signatures c))"
    and agg: "Aggregate L (map (\<lambda>s. bls_Sign L (keys (qs_Validator s)) (word_bytes (VoteDigest (cfg_keccak cfg) (qc_Height c) (qc_Round c)
        \<lparr>vt_Type = qc_Type c, vt_BlockHash = qc_BlockHash c, vt_Signature = 0\<rparr>))) (qc_Signatures c)) = Inr (qc_AggSig c)"
  shows "VerifyQC cfg c"
proof -
  let ?m = "word_bytes (VoteDigest (cfg_keccak cfg) (qc_Height c) (qc_Round c)
        \<lparr>vt_Type = qc_Type c, vt_BlockHash = qc_BlockHash c, vt_Signature = 0\<rparr>)"
  let ?sks = "map (\<lambda>s. keys (qs_Validator s)) (qc_Signatures c)"
  let ?as = "map qs_Validator (qc_Signatures c)"
  have sigs: "map (\<lambda>s. bls_Sign L (keys (qs_Validator s)) ?m) (qc_Signatures c) = map (\<lambda>sk. bls_Sign L sk ?m) ?sks" by simp
  have pks: "map (\<lambda>a. PublicKey L (keys a)) ?as = map (PublicKey L) ?sks" by simp
  have fast: "FastAggregateVerify L (map (PublicKey L) ?sks) ?m (qc_AggSig c)"
    using aggregate_of_keys [OF assms(1), of ?sks ?m] agg quorum(1) unfolding sigs by simp
  have "length (qc_AggSig c) = 48" using Fast_lengths [OF fast] by simp
  then have "qc_AggSig c \<noteq> []" by auto
  moreover have "qc_AggBitmap c \<noteq> []"
  proof
    assume "qc_AggBitmap c = []"
    then have "Size (cfg_Validators cfg) = 0" using size by simp
    then show False using addrs quorum(1) by simp
  qed
  moreover have "verifyQCBLS cfg (bls_adapter L keys) c"
    using size high fast pks arg_cong [OF addrs, of length] unfolding verifyQCBLS_def Let_def addrs [symmetric]
    by (simp add: bls_adapter_def comp_def)
  ultimately show ?thesis using assms(2) quorum(2) by (simp add: VerifyQC_def not_less)
qed

section \<open>A library with small groups\<close>

definition byte_lib :: "(byte, byte, byte) bls_lib" where
  "byte_lib = \<lparr>G1_One = 1, G1_Add = (+), G1_Neg = uminus, G1_MulScalar = (*), G1_ToCompressed = (\<lambda>p. replicate 47 0 @ [p]),
     G1_FromCompressed = (\<lambda>bs. Some (last bs)), G1_InCorrectSubgroup = (\<lambda>_. True), G1_HashToCurve = (\<lambda>m d. last (0 # m) + 1),
     G2_One = 1, G2_Add = (+), G2_MulScalar = (*), G2_ToCompressed = (\<lambda>p. replicate 95 0 @ [p]),
     G2_FromCompressed = (\<lambda>bs. Some (last bs)), G2_InCorrectSubgroup = (\<lambda>_. True), Fr_FromBytes = last,
     Engine_Check = (\<lambda>ps. (\<Sum>(p, q)\<leftarrow>ps. p * q) = 0), lib_Sum256 = (\<lambda>b. b)\<rparr>"

lemma byte_lib_laws: "pairing_laws byte_lib (*)"
  by (simp add: pairing_laws_def g1_laws_def g2_laws_def byte_lib_def SignatureLen_def PublicKeyLen_def algebra_simps)

theorem aggregate_verifies_witness:
  "\<exists>sig. Aggregate byte_lib (map (\<lambda>sk. bls_Sign byte_lib sk [9]) [2, 3]) = Inr sig \<and>
    FastAggregateVerify byte_lib (map (PublicKey byte_lib) [2, 3]) [9] sig"
  using aggregate_verifies [OF byte_lib_laws, of "[2, 3]" "[[5], [6]]" "[9]"] by simp

theorem rogue_key_witness:
  "FastAggregateVerify byte_lib [PublicKey byte_lib 2, G2_ToCompressed byte_lib 1] [9] (bls_Sign byte_lib 3 [9])"
  by (rule rogue_key [OF byte_lib_laws parse_made(2) [OF byte_lib_laws]]) (simp_all add: byte_lib_def)

theorem malformed_refused_witness: "\<not> FastAggregateVerify byte_lib [PublicKey byte_lib 2, [1]] [9] (bls_Sign byte_lib 3 [9])"
  using malformed_refused [of "bls_Sign byte_lib 3 [9]" "[PublicKey byte_lib 2, [1]]" byte_lib "[9]" "[]" "[]"] by simp

definition byte_config :: consensus_config where
  "byte_config = sample_config\<lparr>cfg_BLSSigner := Some (bls_adapter byte_lib ucast)\<rparr>"

definition byte_certificate :: "bytes \<Rightarrow> qc" where
  "byte_certificate sig = \<lparr>qc_Type = Precommit, qc_Height = 5, qc_Round = 0, qc_BlockHash = 7,
     qc_Signatures = map (\<lambda>a. \<lparr>qs_Validator = a, qs_Sig = 0\<rparr>) [1, 2, 3], qc_AggSig = sig, qc_AggBitmap = [0x07]\<rparr>"

theorem aggregate_certificate_witness: "\<exists>sig. VerifyQC byte_config (byte_certificate sig)"
proof -
  let ?m = "word_bytes (VoteDigest (cfg_keccak byte_config) 5 0 \<lparr>vt_Type = Precommit, vt_BlockHash = 7, vt_Signature = 0\<rparr>)"
  obtain sig where sig: "Aggregate byte_lib (map (\<lambda>sk. bls_Sign byte_lib sk ?m) (map ucast [1, 2, 3 :: address])) = Inr sig"
    using aggregate_of_keys [OF byte_lib_laws, of "map ucast [1, 2, 3 :: address]" ?m] by auto
  have "VerifyQC byte_config (byte_certificate sig)"
  proof (rule aggregate_certificate [OF byte_lib_laws])
    show "cfg_BLSSigner byte_config = Some (bls_adapter byte_lib ucast)" by (simp add: byte_config_def)
  qed (use sig in \<open>simp_all add: byte_config_def byte_certificate_def sample_config_def sample_Quorum Size_def sample_list
      bitmap_bit_def upt_rec\<close>)
  then show ?thesis by blast
qed

end
