(* ===== verification/Sim.thy ===== *)
theory Sim
  imports ConsensusSafety NodeProps "HOL-Library.Sublist"
begin

text \<open>
  The simulator: \<open>sim/cluster.go\<close> and \<open>sim/keys.go\<close>. A cluster is a list of nodes, each with its
  consensus state, a queue of numbered deliveries, a clock and the faults that are injected. A call of
  the consensus of a node logs what it broadcasts and commits; the node puts those on the queue and on its
  record in the same order afterwards, as nothing in the consensus depends on either. A cluster with
  a panic in the consensus has no state after it.
\<close>

section \<open>State\<close>

record delivery =
  dl_Seq :: uint64
  dl_To :: address
  dl_From :: address
  dl_Msg :: message

text \<open>The mutator of a node is given the message and the receiver, and \<open>None\<close> drops the message.\<close>

record sim_node =
  sn_Address :: address
  sn_Config :: consensus_config
  sn_State :: cons_state
  sn_Committed :: "(hash, height) fmap"
  sn_commitOrder :: "hash list"
  sn_stepSince :: uint64
  sn_MsgMutator :: "(message \<Rightarrow> address \<Rightarrow> message option) option"

record 'k test_key =
  tk_Priv :: 'k
  tk_Addr :: address

record 'k cluster =
  cl_now :: uint64
  cl_Queue :: "delivery list"
  cl_seq :: uint64
  cl_Nodes :: "sim_node list"
  cl_valSet :: validator_set
  cl_muted :: "address fset"
  cl_keys :: "'k test_key list"
  cl_DropRate :: uint32
  cl_lcgState :: uint64
  cl_Dropped :: nat

section \<open>Building\<close>

definition clock_Advance :: "uint64 \<Rightarrow> 'k cluster \<Rightarrow> 'k cluster" where
  "clock_Advance ms c = c\<lparr>cl_now := cl_now c + ms\<rparr>"

definition NewTestKey :: "keccak \<Rightarrow> (bytes \<Rightarrow> 'k) \<Rightarrow> ('k \<Rightarrow> bytes) \<Rightarrow> byte \<Rightarrow> 'k test_key" where
  "NewTestKey kec PrivKeyFromBytes SerializePub seed =
     (let priv = PrivKeyFromBytes (replicate 32 seed)
      in \<lparr>tk_Priv = priv, tk_Addr = (case PubKeyToAddress kec (SerializePub priv) of Inl _ \<Rightarrow> 0 | Inr a \<Rightarrow> a)\<rparr>)"

definition signerAdapter_Sign :: "(hash \<Rightarrow> 'k \<Rightarrow> bytes) \<Rightarrow> 'k test_key \<Rightarrow> hash \<Rightarrow> signature option" where
  "signerAdapter_Sign SignCompact key digest = (case Sign SignCompact digest (tk_Priv key) of Inl _ \<Rightarrow> None | Inr s \<Rightarrow> Some s)"

definition sim_config ::
    "keccak \<Rightarrow> (hash \<Rightarrow> 'k \<Rightarrow> bytes) \<Rightarrow> (bytes \<Rightarrow> hash \<Rightarrow> bytes option) \<Rightarrow> validator_set \<Rightarrow> 'k test_key \<Rightarrow> consensus_config" where
  "sim_config kec SignCompact RecoverCompact valSet key =
     \<lparr>cfg_Self = tk_Addr key, cfg_Validators = valSet, cfg_Sign = signerAdapter_Sign SignCompact key,
      cfg_Verify = Verify kec RecoverCompact, cfg_ValidateBlock = None, cfg_BLSSigner = None, cfg_hasSink = True,
      cfg_keccak = kec\<rparr>"

definition new_node :: "consensus_config \<Rightarrow> cons_state \<Rightarrow> sim_node" where
  "new_node cfg st = \<lparr>sn_Address = cfg_Self cfg, sn_Config = cfg, sn_State = st, sn_Committed = fmempty,
     sn_commitOrder = [], sn_stepSince = 0, sn_MsgMutator = None\<rparr>"

definition NewCluster ::
    "keccak \<Rightarrow> (bytes \<Rightarrow> 'k) \<Rightarrow> ('k \<Rightarrow> bytes) \<Rightarrow> (hash \<Rightarrow> 'k \<Rightarrow> bytes) \<Rightarrow> (bytes \<Rightarrow> hash \<Rightarrow> bytes option) \<Rightarrow> nat \<Rightarrow> 'k cluster res" where
  "NewCluster kec PrivKeyFromBytes SerializePub SignCompact RecoverCompact n =
     (let keys = map (\<lambda>i. NewTestKey kec PrivKeyFromBytes SerializePub (word_of_nat (i + 1))) [0..<n];
          valSet = NewValidatorSet (map (\<lambda>k. \<lparr>v_Address = tk_Addr k, v_Power = 1\<rparr>) keys);
          c = \<lparr>cl_now = 0, cl_Queue = [], cl_seq = 0, cl_Nodes = [], cl_valSet = valSet, cl_muted = {||}, cl_keys = keys,
               cl_DropRate = 0, cl_lcgState = 0, cl_Dropped = 0\<rparr>
      in each (\<lambda>key c.
           let cfg = sim_config kec SignCompact RecoverCompact valSet key
           in res_map (\<lambda>st. c\<lparr>cl_Nodes := cl_Nodes c @ [new_node cfg st]\<rparr>) (NewState cfg)) keys c)"

definition cluster_ProposerOf :: "height \<Rightarrow> round \<Rightarrow> 'k cluster \<Rightarrow> address" where
  "cluster_ProposerOf h r c = ProposerOf (cl_valSet c) h r"

definition cluster_SetProposalMaker :: "(address \<Rightarrow> proposal_maker) \<Rightarrow> 'k cluster \<Rightarrow> 'k cluster" where
  "cluster_SetProposalMaker fn c =
     c\<lparr>cl_Nodes := map (\<lambda>n. n\<lparr>sn_State := SetProposalMaker (Some (fn (sn_Address n))) (sn_State n)\<rparr>) (cl_Nodes c)\<rparr>"

section \<open>Sending\<close>

definition IsMuted :: "address \<Rightarrow> 'k cluster \<Rightarrow> bool" where
  "IsMuted a c \<longleftrightarrow> a |\<in>| cl_muted c"

definition DropFrom :: "address \<Rightarrow> 'k cluster \<Rightarrow> 'k cluster" where
  "DropFrom a c = c\<lparr>cl_muted := finsert a (cl_muted c)\<rparr>"

definition Unmute :: "address \<Rightarrow> 'k cluster \<Rightarrow> 'k cluster" where
  "Unmute a c = c\<lparr>cl_muted := cl_muted c |-| {|a|}\<rparr>"

definition SetSeed :: "uint64 \<Rightarrow> 'k cluster \<Rightarrow> 'k cluster" where
  "SetSeed seed c = c\<lparr>cl_lcgState := seed\<rparr>"

definition shouldDrop :: "'k cluster \<Rightarrow> 'k cluster \<times> bool" where
  "shouldDrop c =
     (if cl_DropRate c = 0 then (c, False)
      else
        let st = cl_lcgState c * 6364136223846793005 + 1442695040888963407
        in (c\<lparr>cl_lcgState := st\<rparr>, drop_bit 33 st mod 100 < ucast (cl_DropRate c)))"

definition enqueue :: "address \<Rightarrow> address \<Rightarrow> message \<Rightarrow> 'k cluster \<Rightarrow> 'k cluster" where
  "enqueue from to m c =
     (let seq = cl_seq c + 1
      in c\<lparr>cl_seq := seq, cl_Queue := cl_Queue c @ [\<lparr>dl_Seq = seq, dl_To = to, dl_From = from, dl_Msg = m\<rparr>]\<rparr>)"

definition send_peer :: "sim_node \<Rightarrow> message \<Rightarrow> address \<Rightarrow> 'k cluster \<Rightarrow> 'k cluster" where
  "send_peer n msg peer c =
     (if peer = sn_Address n then c
      else case (case sn_MsgMutator n of None \<Rightarrow> Some msg | Some f \<Rightarrow> f msg peer) of
          None \<Rightarrow> c
        | Some out \<Rightarrow>
            let (c, drp) = shouldDrop c
            in if drp then c\<lparr>cl_Dropped := cl_Dropped c + 1\<rparr> else enqueue (sn_Address n) peer out c)"

definition sim_Broadcast :: "sim_node \<Rightarrow> message \<Rightarrow> 'k cluster \<Rightarrow> 'k cluster" where
  "sim_Broadcast n msg c =
     (if IsMuted (sn_Address n) c then c else fold (send_peer n msg) (map sn_Address (cl_Nodes c)) c)"

text \<open>A block is known by the hash of its bytes; a second commit of it is an error and changes nothing.\<close>

definition simBlockHash :: "keccak \<Rightarrow> bytes \<Rightarrow> hash" where
  "simBlockHash kec dat = Keccak256 kec [dat]"

definition sim_CommitBlock :: "bytes \<Rightarrow> height \<Rightarrow> sim_node \<Rightarrow> sim_node \<times> unit res" where
  "sim_CommitBlock dat h n =
     (let x = simBlockHash (cfg_keccak (sn_Config n)) dat in
      if fmlookup (sn_Committed n) x \<noteq> None then (n, Inl (ErrOther ''committed twice''))
      else (n\<lparr>sn_Committed := fmupd x h (sn_Committed n), sn_commitOrder := sn_commitOrder n @ [x]\<rparr>, Inr ()))"

section \<open>Running\<close>

text \<open>A call of the consensus of the node at place \<open>i\<close>; its error is dropped.\<close>

definition node_call :: "nat \<Rightarrow> cons_op \<Rightarrow> 'k cluster \<Rightarrow> 'k cluster res" where
  "node_call i op c =
     (let n = cl_Nodes c ! i in
      res_map (\<lambda>(st, _).
        let sent = drop (length (cs_sent (sn_State n))) (cs_sent st);
            commits = drop (length (cs_committed (sn_State n))) (cs_committed st);
            n' = fold (\<lambda>(dat, h) n. fst (sim_CommitBlock dat h n)) commits (n\<lparr>sn_State := st\<rparr>)
        in fold (sim_Broadcast n) sent (c\<lparr>cl_Nodes := (cl_Nodes c)[i := n']\<rparr>))
      (cons_exec (sn_Config n) op (sn_State n)))"

definition nodeByAddr :: "address \<Rightarrow> 'k cluster \<Rightarrow> nat option" where
  "nodeByAddr a c = find (\<lambda>i. sn_Address (cl_Nodes c ! i) = a) [0..<length (cl_Nodes c)]"

definition deliver :: "delivery \<Rightarrow> 'k cluster \<Rightarrow> 'k cluster res" where
  "deliver d c = (case nodeByAddr (dl_To d) c of None \<Rightarrow> Inr c | Some i \<Rightarrow> node_call i (OpMessage (dl_Msg d)) c)"

text \<open>The insertion sort of \<open>Drain\<close>: a delivery moves left past those with a greater number, held in reverse.\<close>

fun seq_before :: "delivery \<Rightarrow> delivery list \<Rightarrow> delivery list" where
  "seq_before d [] = [d]"
| "seq_before d (x # xs) = (if dl_Seq d < dl_Seq x then x # seq_before d xs else d # x # xs)"

definition sort_queue :: "delivery list \<Rightarrow> delivery list" where
  "sort_queue q = rev (foldl (\<lambda>acc d. seq_before d acc) [] q)"

definition Drain :: "'k cluster \<Rightarrow> ('k cluster \<times> nat) res" where
  "Drain c =
     (if cl_Queue c = [] then Inr (c, 0)
      else let batch = sort_queue (cl_Queue c)
           in res_map (\<lambda>c. (c, length batch)) (each deliver batch (c\<lparr>cl_Queue := []\<rparr>)))"

text \<open>Waves until one delivers nothing. Messages may go round for ever, so a run may have no end.\<close>

partial_function (option) RunRound :: "'k cluster \<Rightarrow> ('k cluster \<times> nat) res option" where
  "RunRound c =
     (case Drain c of
        Inl e \<Rightarrow> Some (Inl e)
      | Inr (c, n) \<Rightarrow>
          if n = 0 then Some (Inr (c, 0))
          else Option.bind (RunRound c) (\<lambda>r. Some (res_map (\<lambda>(c, total). (c, n + total)) r)))"

definition mark_step :: "uint64 \<Rightarrow> nat \<Rightarrow> 'k cluster \<Rightarrow> 'k cluster" where
  "mark_step now i c = c\<lparr>cl_Nodes := (cl_Nodes c)[i := (cl_Nodes c ! i)\<lparr>sn_stepSince := now\<rparr>]\<rparr>"

definition cluster_StartHeight :: "height \<Rightarrow> 'k cluster \<Rightarrow> 'k cluster res" where
  "cluster_StartHeight h c =
     (let now = cl_now c in
      each (\<lambda>i c. res_map (mark_step now i) (node_call i (OpStart h now) c)) [0..<length (cl_Nodes c)] c)"

definition AllCommitted :: "height \<Rightarrow> 'k cluster \<Rightarrow> bool" where
  "AllCommitted h c \<longleftrightarrow> list_all (\<lambda>n. IsCommitted h (sn_State n)) (cl_Nodes c)"

text \<open>The timeout of the step a node is in, if it has one.\<close>

definition timeout_op :: "cons_state \<Rightarrow> cons_op option" where
  "timeout_op st =
     (case cs_step st of
        StepPropose \<Rightarrow> Some (OpTimeoutPropose (cs_round st))
      | StepPrevote \<Rightarrow> Some (OpTimeoutPrevote (cs_round st))
      | StepPrecommit \<Rightarrow> Some (OpTimeoutPrecommit (cs_round st))
      | _ \<Rightarrow> None)"

definition take_pending :: "nat \<Rightarrow> 'k cluster \<Rightarrow> 'k cluster" where
  "take_pending i c =
     (let n = cl_Nodes c ! i; (st, pm) = TakePendingSelf (sn_State n);
          c = c\<lparr>cl_Nodes := (cl_Nodes c)[i := n\<lparr>sn_State := st\<rparr>]\<rparr>
      in case pm of None \<Rightarrow> c | Some m \<Rightarrow> enqueue (m_From m) (sn_Address n) m c)"

definition sweep_node :: "uint64 \<Rightarrow> nat \<Rightarrow> 'k cluster \<times> nat \<Rightarrow> ('k cluster \<times> nat) res" where
  "sweep_node timeout i = (\<lambda>(c, triggered).
     let n = cl_Nodes c ! i in
     if cl_now c - sn_stepSince n < timeout then Inr (c, triggered)
     else case timeout_op (sn_State n) of
         None \<Rightarrow> Inr (take_pending i c, triggered)
       | Some op \<Rightarrow> res_map (\<lambda>c. (take_pending i (mark_step (cl_now c) i c), triggered + 1)) (node_call i op c))"

definition TimeoutSweep :: "uint64 \<Rightarrow> 'k cluster \<Rightarrow> ('k cluster \<times> nat) res" where
  "TimeoutSweep timeout c =
     (let c = clock_Advance timeout c in each (sweep_node timeout) [0..<length (cl_Nodes c)] (c, 0))"

definition SignVoteAs ::
    "keccak \<Rightarrow> (hash \<Rightarrow> 'k \<Rightarrow> bytes) \<Rightarrow> address \<Rightarrow> height \<Rightarrow> round \<Rightarrow> vote \<Rightarrow> 'k cluster \<Rightarrow> signature res" where
  "SignVoteAs kec SignCompact a h r v c =
     (case find (\<lambda>k. tk_Addr k = a) (cl_keys c) of
        None \<Rightarrow> Inl (ErrOther ''unknown address'')
      | Some k \<Rightarrow> Sign SignCompact (VoteDigest kec h r v) (tk_Priv k))"

section \<open>Calls of a test\<close>

datatype sim_op =
    SimMaker "address \<Rightarrow> proposal_maker"
  | SimStart height
  | SimDrain
  | SimSweep uint64
  | SimAdvance uint64
  | SimMute address
  | SimUnmute address
  | SimSeed uint64
  | SimRate uint32

fun sim_exec :: "sim_op \<Rightarrow> 'k cluster \<Rightarrow> 'k cluster res" where
  "sim_exec (SimMaker fn) c = Inr (cluster_SetProposalMaker fn c)"
| "sim_exec (SimStart h) c = cluster_StartHeight h c"
| "sim_exec SimDrain c = res_map fst (Drain c)"
| "sim_exec (SimSweep t) c = res_map fst (TimeoutSweep t c)"
| "sim_exec (SimAdvance ms) c = Inr (clock_Advance ms c)"
| "sim_exec (SimMute a) c = Inr (DropFrom a c)"
| "sim_exec (SimUnmute a) c = Inr (Unmute a c)"
| "sim_exec (SimSeed seed) c = Inr (SetSeed seed c)"
| "sim_exec (SimRate r) c = Inr (c\<lparr>cl_DropRate := r\<rparr>)"

definition sim_run :: "sim_op list \<Rightarrow> 'k cluster \<Rightarrow> 'k cluster res" where
  "sim_run ops c = each sim_exec ops c"

section \<open>The logs of the consensus grow\<close>

definition grown :: "cons_state \<Rightarrow> cons_state \<Rightarrow> bool" where
  "grown s0 s \<longleftrightarrow> prefix (cs_sent s0) (cs_sent s) \<and> prefix (cs_committed s0) (cs_committed s)"

lemma grown_refl [simp]: "grown s s"
  by (simp add: grown_def)

interpretation logs: run_property cfg M "grown s0" for cfg M s0
  by unfold_locales (auto simp: grown_def new_round_def Broadcast_def intro: prefix_order.trans)

text \<open>Any call, on a node that was started or that never was.\<close>

lemma start_grows:
  assumes s: "safe cfg M s" and e: "StartNewHeight cfg h ts s = Inr (s', e)"
  shows "grown s s'"
proof (cases "h \<le> cs_lastCommitted s \<and> cs_lastCommitted s > 0")
  case True
  then show ?thesis using e by (simp add: StartNewHeight_def)
next
  case h: False
  let ?t = "(new_round 0 s)\<lparr>cs_height := h, cs_lockedHash := 0, cs_lockedRound := 0\<rparr>"
  have t: "safe cfg M ?t" "started ?t" "grown s ?t"
    by (rule safe_round [OF s], auto simp: caches_ok_def started_def grown_def)
  have "\<exists>s' e. StartNewHeight cfg h ts s = Inr (s', e) \<and> (safe cfg M s' \<and> started s') \<and> grown s s'"
  proof (rule logs.StartNewHeight_keeps [OF refl _ _ h])
    show "(safe cfg M ?t \<and> started ?t) \<and> grown s ?t" using t by simp
    show "(safe cfg M (?t\<lparr>cs_futureHeightProps := fmdrop h (cs_futureHeightProps s), cs_pendingSelf := Some m\<rparr>) \<and>
        started (?t\<lparr>cs_futureHeightProps := fmdrop h (cs_futureHeightProps s), cs_pendingSelf := Some m\<rparr>)) \<and>
        grown s (?t\<lparr>cs_futureHeightProps := fmdrop h (cs_futureHeightProps s), cs_pendingSelf := Some m\<rparr>)"
      if "fmlookup (cs_futureHeightProps s) h = Some m" for m
    proof (intro conjI)
      show "safe cfg M (?t\<lparr>cs_futureHeightProps := fmdrop h (cs_futureHeightProps s), cs_pendingSelf := Some m\<rparr>)"
        by (rule safe_cong [OF t(1)]) (use that s in \<open>auto simp: caches_ok_def safe_def split: if_splits\<close>)
    qed (simp_all add: started_def grown_def)
  qed
  then show ?thesis using e by auto
qed

lemma exec_grows:
  assumes "safe cfg M s" "started s \<or> idle s" "\<forall>m. op = OpMessage m \<longrightarrow> m \<in> M" "cons_exec cfg op s = Inr (s', e)"
  shows "safe cfg M s' \<and> (started s' \<or> idle s') \<and> grown s s'"
proof (cases "\<exists>h ts. op = OpStart h ts")
  case True
  then show ?thesis using exec_safe [OF assms] start_grows [OF assms(1)] assms(4) by auto
next
  case no_start: False
  have "grown s s'"
  proof (cases "started s")
    case True
    then show ?thesis using logs.exec_keeps [of cfg M s s op] assms no_start by auto
  next
    case False
    then have idle: "idle s" using assms(2) by simp
    then have votes: "votes_of ty s = None" for ty by (simp add: idle_def votes_of_def)
    show ?thesis
    proof (cases op)
      case (OpMessage m)
      show ?thesis using assms(4) idle unfolding OpMessage
        by (auto simp: grown_def HandleMessage_def handleProposal_def handleVote_def handleQC_def idle_def votes
            split: if_splits option.splits body.splits)
    qed (use no_start assms(4) idle in \<open>auto simp: grown_def idle_def OnTimeoutPropose_def OnTimeoutPrevote_def
        OnTimeoutPrecommit_def SetProposalMaker_def TakePendingSelf_def\<close>)
  qed
  then show ?thesis using exec_safe [OF assms] by blast
qed

lemma safe_more: "safe cfg M s \<Longrightarrow> M \<subseteq> M' \<Longrightarrow> safe cfg M' s"
proof -
  assume s: "safe cfg M s" and M: "M \<subseteq> M'"
  then have K: "known M s \<subseteq> known M' s" by (auto simp: known_def)
  have "justified cfg M' (known M' s) c" if "justified cfg M (known M s) c" for c
    using justified_mono [OF that K] M unfolding justified_def backed_def by blast
  moreover have "caches_ok M s \<Longrightarrow> caches_ok M' s" using M unfolding caches_ok_def by blast
  ultimately show "safe cfg M' s" using s sets_ok_mono [OF _ K] proposal_ok_mono [OF _ K] by (simp add: safe_def)
qed

section \<open>What a cluster keeps\<close>

text \<open>The messages the nodes have sent, and the record of commits of a node.\<close>

definition messages_of :: "'k cluster \<Rightarrow> message set" where
  "messages_of c = (\<Union>n\<in>set (cl_Nodes c). set (cs_sent (sn_State n)))"

definition queued :: "'k cluster \<Rightarrow> message set" where
  "queued c = dl_Msg ` set (cl_Queue c)"

lemma queued_simps [simp]: "queued (c\<lparr>cl_Queue := q\<rparr>) = dl_Msg ` set q" "queued (c\<lparr>cl_Nodes := ns\<rparr>) = queued c"
  by (simp_all add: queued_def)

definition records :: "sim_node \<Rightarrow> (bytes \<times> height) set \<Rightarrow> bool" where
  "records n S \<longleftrightarrow> distinct (sn_commitOrder n) \<and> fmdom' (sn_Committed n) = set (sn_commitOrder n) \<and>
     set (sn_commitOrder n) = (\<lambda>(dat, h). simBlockHash (cfg_keccak (sn_Config n)) dat) ` S"

definition node_ok :: "message set \<Rightarrow> sim_node \<Rightarrow> bool" where
  "node_ok M n \<longleftrightarrow> safe (sn_Config n) M (sn_State n) \<and> (started (sn_State n) \<or> idle (sn_State n)) \<and>
     records n (set (cs_committed (sn_State n))) \<and> sn_MsgMutator n = None"

definition cluster_ok :: "'k cluster \<Rightarrow> bool" where
  "cluster_ok c \<longleftrightarrow> (\<forall>n\<in>set (cl_Nodes c). node_ok (messages_of c) n) \<and> queued c \<subseteq> messages_of c"

lemma sim_CommitBlock_records:
  "records n S \<Longrightarrow> records (fst (sim_CommitBlock dat h n)) (insert (dat, h) S)"
proof -
  assume r: "records n S"
  let ?x = "simBlockHash (cfg_keccak (sn_Config n)) dat"
  have "fmlookup (sn_Committed n) ?x = None \<longleftrightarrow> ?x \<notin> set (sn_commitOrder n)"
    using r fmdom'_notI [of "sn_Committed n" ?x] fmdom'_notD [of ?x "sn_Committed n"] by (auto simp: records_def)
  then show ?thesis using r by (auto simp: records_def sim_CommitBlock_def Let_def)
qed

lemma sim_CommitBlock_frame [simp]:
  "sn_State (fst (sim_CommitBlock dat h n)) = sn_State n" "sn_Config (fst (sim_CommitBlock dat h n)) = sn_Config n"
  "sn_MsgMutator (fst (sim_CommitBlock dat h n)) = sn_MsgMutator n" "sn_Address (fst (sim_CommitBlock dat h n)) = sn_Address n"
  by (simp_all add: sim_CommitBlock_def Let_def)

definition commit_list :: "(bytes \<times> height) list \<Rightarrow> sim_node \<Rightarrow> sim_node" where
  "commit_list cs n = fold (\<lambda>(dat, h) n. fst (sim_CommitBlock dat h n)) cs n"

lemma commit_list_frame [simp]:
  "sn_State (commit_list cs n) = sn_State n" "sn_Config (commit_list cs n) = sn_Config n"
  "sn_MsgMutator (commit_list cs n) = sn_MsgMutator n" "sn_Address (commit_list cs n) = sn_Address n"
  by (induction cs arbitrary: n) (auto simp: commit_list_def)

lemma commit_list_records: "records n S \<Longrightarrow> records (commit_list cs n) (set cs \<union> S)"
proof (induction cs arbitrary: n S)
  case (Cons x cs)
  from Cons.IH [OF sim_CommitBlock_records [OF Cons.prems]] show ?case
    by (cases x) (simp add: commit_list_def insert_commute Un_commute)
qed (simp add: commit_list_def)

text \<open>Sending changes the queue and what numbers and drops messages, never the nodes.\<close>

lemma shouldDrop_frame: "shouldDrop c = (c', d) \<Longrightarrow> cl_Nodes c' = cl_Nodes c \<and> cl_Queue c' = cl_Queue c \<and> cl_muted c' = cl_muted c"
  by (auto simp: shouldDrop_def Let_def split: if_splits)

lemma send_peer_effect:
  assumes "sn_MsgMutator n = None"
  shows "cl_Nodes (send_peer n m a c) = cl_Nodes c \<and> queued (send_peer n m a c) \<subseteq> insert m (queued c)"
  using assms shouldDrop_frame [of c]
  by (cases "shouldDrop c") (auto simp: send_peer_def enqueue_def Let_def queued_def)

lemma send_peers_effect:
  "sn_MsgMutator n = None \<Longrightarrow> cl_Nodes (fold (send_peer n m) as c) = cl_Nodes c \<and>
   queued (fold (send_peer n m) as c) \<subseteq> insert m (queued c)"
proof (induction as arbitrary: c)
  case (Cons a as)
  then show ?case using send_peer_effect [of n m a c] Cons.IH [of "send_peer n m a c"] by simp blast
qed auto

lemma sim_Broadcasts_effect:
  "sn_MsgMutator n = None \<Longrightarrow> cl_Nodes (fold (sim_Broadcast n) ms c) = cl_Nodes c \<and>
   queued (fold (sim_Broadcast n) ms c) \<subseteq> set ms \<union> queued c"
proof (induction ms arbitrary: c)
  case (Cons m ms)
  have "cl_Nodes (sim_Broadcast n m c) = cl_Nodes c \<and>
      queued (sim_Broadcast n m c) \<subseteq> insert m (queued c)"
    using send_peers_effect [OF Cons.prems, of m "map sn_Address (cl_Nodes c)" c] by (auto simp: sim_Broadcast_def)
  then show ?case using Cons.IH [OF Cons.prems, of "sim_Broadcast n m c"] by simp blast
qed simp

text \<open>One node of a cluster changes, and what it sends is added.\<close>

lemma messages_update:
  assumes "i < length (cl_Nodes c)" "set (cs_sent (sn_State (cl_Nodes c ! i))) \<subseteq> set (cs_sent (sn_State n))"
    "cl_Nodes c' = (cl_Nodes c)[i := n]"
  shows "messages_of c \<subseteq> messages_of c'" "set (cs_sent (sn_State n)) \<subseteq> messages_of c'"
proof -
  have n: "n \<in> set (cl_Nodes c')" using assms(1,3) by (simp add: set_update_memI)
  then show s: "set (cs_sent (sn_State n)) \<subseteq> messages_of c'" by (auto simp: messages_of_def)
  show "messages_of c \<subseteq> messages_of c'"
  proof
    fix m assume "m \<in> messages_of c"
    then obtain k where "k \<in> set (cl_Nodes c)" "m \<in> set (cs_sent (sn_State k))" by (auto simp: messages_of_def)
    then obtain j where j: "j < length (cl_Nodes c)" "m \<in> set (cs_sent (sn_State (cl_Nodes c ! j)))"
      by (metis in_set_conv_nth)
    show "m \<in> messages_of c'"
    proof (cases "j = i")
      case True
      then show ?thesis using j assms(2) s by blast
    next
      case False
      then have "cl_Nodes c ! j \<in> set (cl_Nodes c')" using j(1) assms(3) by (metis length_list_update nth_list_update_neq nth_mem)
      then show ?thesis using j(2) by (auto simp: messages_of_def)
    qed
  qed
qed

lemma node_ok_more: "node_ok M n \<Longrightarrow> M \<subseteq> M' \<Longrightarrow> node_ok M' n"
  using safe_more by (auto simp: node_ok_def)

lemma cluster_ok_update:
  assumes ok: "cluster_ok c" and i: "i < length (cl_Nodes c)" and c': "cl_Nodes c' = (cl_Nodes c)[i := n]"
    and sent: "set (cs_sent (sn_State (cl_Nodes c ! i))) \<subseteq> set (cs_sent (sn_State n))"
    and n: "node_ok (messages_of c) n"
    and q: "queued c' \<subseteq> messages_of c \<union> set (cs_sent (sn_State n))"
  shows "cluster_ok c' \<and> messages_of c \<subseteq> messages_of c'"
proof -
  note m = messages_update [OF i sent c']
  have "node_ok (messages_of c') k" if "k \<in> set (cl_Nodes c')" for k
  proof -
    have "k = n \<or> k \<in> set (cl_Nodes c)" using that c' set_update_subset_insert [of "cl_Nodes c" i n] by auto
    then show ?thesis using n ok node_ok_more [OF _ m(1)] by (auto simp: cluster_ok_def)
  qed
  then show ?thesis using q m by (auto simp: cluster_ok_def)
qed

text \<open>A call of the consensus of a node.\<close>

definition call_result :: "sim_node \<Rightarrow> cons_state \<Rightarrow> sim_node" where
  "call_result n st = commit_list (drop (length (cs_committed (sn_State n))) (cs_committed st)) (n\<lparr>sn_State := st\<rparr>)"

lemma node_call_result: "node_call i op c = (let n = cl_Nodes c ! i in
    res_map (\<lambda>(st, _). fold (sim_Broadcast n) (drop (length (cs_sent (sn_State n))) (cs_sent st))
        (c\<lparr>cl_Nodes := (cl_Nodes c)[i := call_result n st]\<rparr>)) (cons_exec (sn_Config n) op (sn_State n)))"
  by (simp add: node_call_def call_result_def commit_list_def Let_def)

lemma call_result_ok:
  assumes n: "node_ok M n" and op: "\<forall>m. op = OpMessage m \<longrightarrow> m \<in> M"
    and e: "cons_exec (sn_Config n) op (sn_State n) = Inr (st, x)"
  shows "node_ok M (call_result n st) \<and> prefix (cs_sent (sn_State n)) (cs_sent st)"
proof -
  have g: "safe (sn_Config n) M st \<and> (started st \<or> idle st) \<and> grown (sn_State n) st"
    using exec_grows [OF _ _ op e] n by (simp add: node_ok_def)
  then obtain k where k: "cs_committed st = cs_committed (sn_State n) @ k" by (auto simp: grown_def prefix_def)
  have "records (n\<lparr>sn_State := st\<rparr>) (set (cs_committed (sn_State n)))" using n by (simp add: node_ok_def records_def)
  from commit_list_records [OF this, of k] have "records (call_result n st) (set (cs_committed st))"
    by (simp add: call_result_def k Un_commute)
  then show ?thesis using g n by (simp add: node_ok_def call_result_def grown_def)
qed

lemma node_call_ok:
  assumes ok: "cluster_ok c" and i: "i < length (cl_Nodes c)" and op: "\<forall>m. op = OpMessage m \<longrightarrow> m \<in> messages_of c"
    and e: "node_call i op c = Inr c'"
  shows "cluster_ok c' \<and> messages_of c \<subseteq> messages_of c' \<and> length (cl_Nodes c') = length (cl_Nodes c)"
proof -
  let ?n = "cl_Nodes c ! i"
  have n: "node_ok (messages_of c) ?n" using ok i by (simp add: cluster_ok_def)
  obtain st x where st: "cons_exec (sn_Config ?n) op (sn_State ?n) = Inr (st, x)"
    "c' = fold (sim_Broadcast ?n) (drop (length (cs_sent (sn_State ?n))) (cs_sent st)) (c\<lparr>cl_Nodes := (cl_Nodes c)[i := call_result ?n st]\<rparr>)"
    using e by (auto simp: node_call_result res_map_Inr_iff Let_def)
  note r = call_result_ok [OF n op st(1)]
  have nodes: "cl_Nodes c' = (cl_Nodes c)[i := call_result ?n st]"
    and q: "queued c' \<subseteq> set (cs_sent st) \<union> queued c"
    using sim_Broadcasts_effect [of ?n "drop (length (cs_sent (sn_State ?n))) (cs_sent st)" "c\<lparr>cl_Nodes := (cl_Nodes c)[i := call_result ?n st]\<rparr>"]
      n set_drop_subset unfolding st(2) by (fastforce simp: node_ok_def)+
  have "set (cs_sent (sn_State ?n)) \<subseteq> set (cs_sent (sn_State (call_result ?n st)))"
    using r by (auto simp: call_result_def prefix_def)
  moreover have "queued c' \<subseteq> messages_of c \<union> set (cs_sent (sn_State (call_result ?n st)))"
    using q ok by (auto simp: cluster_ok_def call_result_def)
  ultimately show ?thesis using cluster_ok_update [OF ok i nodes] r nodes by simp
qed

text \<open>What every operation does to a sound cluster.\<close>

definition carries :: "'k cluster \<Rightarrow> 'k cluster \<Rightarrow> bool" where
  "carries c c' \<longleftrightarrow> cluster_ok c' \<and> messages_of c \<subseteq> messages_of c' \<and> length (cl_Nodes c') = length (cl_Nodes c)"

lemma carries_refl: "cluster_ok c \<Longrightarrow> carries c c"
  by (simp add: carries_def)

lemma carries_trans: "carries a b \<Longrightarrow> carries b c \<Longrightarrow> carries a c"
  by (auto simp: carries_def)

lemma carries_same:
  "carries c0 c \<Longrightarrow> cl_Nodes c' = cl_Nodes c \<Longrightarrow> cl_Queue c' = cl_Queue c \<Longrightarrow> carries c0 c'"
  by (simp add: carries_def cluster_ok_def messages_of_def queued_def)

lemma carries_node:
  assumes "cluster_ok c" "i < length (cl_Nodes c)" "cl_Nodes c' = (cl_Nodes c)[i := n]"
    "cs_sent (sn_State n) = cs_sent (sn_State (cl_Nodes c ! i))" "node_ok (messages_of c) n" "queued c' \<subseteq> messages_of c"
  shows "carries c c'"
  using cluster_ok_update [OF assms(1,2,3) _ assms(5)] assms(3,4,6) by (auto simp: carries_def)

lemma each_carries:
  assumes "\<And>x c'. x \<in> set xs \<Longrightarrow> carries c c' \<Longrightarrow> \<forall>c''. f x c' = Inr c'' \<longrightarrow> carries c' c''" "cluster_ok c" "each f xs c = Inr c'"
  shows "carries c c'"
proof (rule each_invariant [where I = "carries c", OF _ carries_refl [OF assms(2)] assms(3)])
  fix x s s' assume "x \<in> set xs" "carries c s" "f x s = Inr s'"
  then show "carries c s'" using assms(1) carries_trans by blast
qed

lemma carries_call:
  "cluster_ok c \<Longrightarrow> i < length (cl_Nodes c) \<Longrightarrow> \<forall>m. op = OpMessage m \<longrightarrow> m \<in> messages_of c \<Longrightarrow> node_call i op c = Inr c' \<Longrightarrow> carries c c'"
  using node_call_ok by (simp add: carries_def)

lemma carries_mark: "cluster_ok c \<Longrightarrow> i < length (cl_Nodes c) \<Longrightarrow> carries c (mark_step now i c)"
  by (rule carries_node [where i = i and n = "(cl_Nodes c ! i)\<lparr>sn_stepSince := now\<rparr>"])
    (auto simp: mark_step_def cluster_ok_def node_ok_def records_def queued_def)

lemma carries_pending:
  assumes ok: "cluster_ok c" and i: "i < length (cl_Nodes c)"
  shows "carries c (take_pending i c)"
proof -
  let ?n = "cl_Nodes c ! i"
  have n: "node_ok (messages_of c) ?n" using ok i by (simp add: cluster_ok_def)
  let ?st = "(sn_State ?n)\<lparr>cs_pendingSelf := None\<rparr>"
  have "safe (sn_Config ?n) (messages_of c) ?st \<and> (started ?st \<or> idle ?st)"
    using exec_safe [of "sn_Config ?n" "messages_of c" "sn_State ?n" OpTakePending ?st None] n
    by (simp add: node_ok_def TakePendingSelf_def)
  then have ok': "node_ok (messages_of c) (?n\<lparr>sn_State := ?st\<rparr>)" using n by (simp add: node_ok_def records_def)
  have pm: "m \<in> messages_of c" if "cs_pendingSelf (sn_State ?n) = Some m" for m
    using n that by (simp add: node_ok_def safe_def caches_ok_def)
  show ?thesis
    by (rule carries_node [OF ok i _ _ ok'])
      (use pm ok in \<open>auto simp: take_pending_def TakePendingSelf_def Let_def enqueue_def queued_def cluster_ok_def split: option.split\<close>)
qed

lemma nodeByAddr_Some: "nodeByAddr a c = Some i \<Longrightarrow> i < length (cl_Nodes c)"
  by (auto simp: nodeByAddr_def find_Some_iff)

lemma carries_deliver:
  "cluster_ok c \<Longrightarrow> dl_Msg d \<in> messages_of c \<Longrightarrow> deliver d c = Inr c' \<Longrightarrow> carries c c'"
  using nodeByAddr_Some carries_refl by (auto simp: deliver_def intro: carries_call split: option.splits)

lemma set_seq_before [simp]: "set (seq_before d xs) = insert d (set xs)"
  by (induction xs) auto

lemma set_sort_queue [simp]: "set (sort_queue q) = set q"
proof -
  have "set (foldl (\<lambda>acc d. seq_before d acc) acc q) = set acc \<union> set q" for acc
    by (induction q arbitrary: acc) auto
  then show ?thesis by (simp add: sort_queue_def)
qed

lemma length_sort_queue [simp]: "length (sort_queue q) = length q"
proof -
  have "length (seq_before d xs) = Suc (length xs)" for d xs by (induction xs) auto
  then have "length (foldl (\<lambda>acc d. seq_before d acc) acc q) = length acc + length q" for acc
    by (induction q arbitrary: acc) auto
  then show ?thesis by (simp add: sort_queue_def)
qed

lemma carries_Drain:
  assumes ok: "cluster_ok c" and e: "Drain c = Inr (c', k)"
  shows "carries c c'"
proof (cases "cl_Queue c = []")
  case True
  then show ?thesis using assms carries_refl by (simp add: Drain_def)
next
  case False
  let ?c = "c\<lparr>cl_Queue := []\<rparr>"
  have m: "messages_of ?c = messages_of c" by (simp add: messages_of_def)
  have ok': "cluster_ok ?c" using ok by (simp add: cluster_ok_def m)
  have e': "each deliver (sort_queue (cl_Queue c)) ?c = Inr c'" using e False by (auto simp: Drain_def res_map_Inr_iff Let_def)
  have "carries ?c c'"
  proof (rule each_carries [OF _ ok' e'], intro allI impI)
    fix d c1 c2 assume "d \<in> set (sort_queue (cl_Queue c))" "carries ?c c1" "deliver d c1 = Inr c2"
    moreover from this have "dl_Msg d \<in> messages_of c1" using ok m by (auto simp: carries_def cluster_ok_def queued_def)
    ultimately show "carries c1 c2" using carries_deliver by (auto simp: carries_def)
  qed
  then show ?thesis by (simp add: carries_def m)
qed

lemma carries_StartHeight:
  assumes "cluster_ok c" "cluster_StartHeight h c = Inr c'"
  shows "carries c c'"
proof (rule each_carries [OF _ assms(1) assms(2) [unfolded cluster_StartHeight_def Let_def]], intro allI impI)
  fix i c1 c2 assume i: "i \<in> set [0..<length (cl_Nodes c)]" "carries c c1" "res_map (mark_step (cl_now c) i) (node_call i (OpStart h (cl_now c)) c1) = Inr c2"
  then obtain c3 where c3: "node_call i (OpStart h (cl_now c)) c1 = Inr c3" "c2 = mark_step (cl_now c) i c3"
    by (auto simp: res_map_Inr_iff)
  have "carries c1 c3" using carries_call [OF _ _ _ c3(1)] i by (auto simp: carries_def)
  moreover from this have "carries c3 c2" unfolding c3(2) using i by (intro carries_mark) (auto simp: carries_def)
  ultimately show "carries c1 c2" by (rule carries_trans)
qed

lemma timeout_not_message: "timeout_op st = Some op \<Longrightarrow> op \<noteq> OpMessage m"
  by (auto simp: timeout_op_def split: step.splits)

lemma carries_sweep_node:
  assumes ok: "cluster_ok c" and i: "i < length (cl_Nodes c)" and e: "sweep_node t i (c, k) = Inr (c', k')"
  shows "carries c c'"
proof (cases "cl_now c - sn_stepSince (cl_Nodes c ! i) < t")
  case True
  then show ?thesis using e carries_refl [OF ok] by (simp add: sweep_node_def)
next
  case False
  show ?thesis
  proof (cases "timeout_op (sn_State (cl_Nodes c ! i))")
    case None
    then show ?thesis using e False carries_pending [OF ok i] by (simp add: sweep_node_def)
  next
    case (Some op)
    then obtain c1 where c1: "node_call i op c = Inr c1" "c' = take_pending i (mark_step (cl_now c1) i c1)"
      using e False by (auto simp: sweep_node_def res_map_Inr_iff)
    have 1: "carries c c1" using carries_call [OF ok i _ c1(1)] timeout_not_message [OF Some] by blast
    then have 2: "carries c1 (mark_step (cl_now c1) i c1)" using i by (intro carries_mark) (auto simp: carries_def)
    then have "carries (mark_step (cl_now c1) i c1) c'" unfolding c1(2) using i 1
      by (intro carries_pending) (auto simp: carries_def)
    then show ?thesis using 1 2 carries_trans by blast
  qed
qed

lemma carries_Sweep:
  assumes ok: "cluster_ok c" and e: "TimeoutSweep t c = Inr (c', k)"
  shows "carries c c'"
proof -
  let ?c = "clock_Advance t c"
  have c: "carries c ?c" by (rule carries_same [OF carries_refl [OF ok]]) (simp_all add: clock_Advance_def)
  have "each (sweep_node t) [0..<length (cl_Nodes ?c)] (?c, 0) = Inr (c', k)"
    using e by (simp add: TimeoutSweep_def Let_def)
  then have "carries c (fst (c', k))"
  proof (rule each_invariant [where I = "\<lambda>s. carries c (fst s)", rotated -1])
    fix i s s' assume i: "i \<in> set [0..<length (cl_Nodes ?c)]" "carries c (fst s)" "sweep_node t i s = Inr s'"
    moreover have "length (cl_Nodes ?c) = length (cl_Nodes c)" by (simp add: clock_Advance_def)
    ultimately have "carries (fst s) (fst s')"
      using carries_sweep_node [of "fst s" i t "snd s" "fst s'" "snd s'"] by (auto simp: carries_def)
    then show "carries c (fst s')" using i(2) carries_trans by blast
  qed (use c in simp)
  then show ?thesis by simp
qed

lemma carries_Maker: "cluster_ok c \<Longrightarrow> carries c (cluster_SetProposalMaker fn c)"
proof -
  assume ok: "cluster_ok c"
  let ?f = "\<lambda>n. n\<lparr>sn_State := SetProposalMaker (Some (fn (sn_Address n))) (sn_State n)\<rparr>"
  have m: "messages_of (cluster_SetProposalMaker fn c) = messages_of c"
    by (simp add: messages_of_def cluster_SetProposalMaker_def SetProposalMaker_def)
  have "node_ok (messages_of c) (?f n)" if n: "node_ok (messages_of c) n" for n
    using exec_safe [of "sn_Config n" "messages_of c" "sn_State n" "OpSetMaker (Some (fn (sn_Address n)))"
        "SetProposalMaker (Some (fn (sn_Address n))) (sn_State n)" None] n
    by (simp add: node_ok_def records_def) (simp add: SetProposalMaker_def)
  then show ?thesis using ok
    by (auto simp: carries_def cluster_ok_def m queued_def) (auto simp: cluster_SetProposalMaker_def)
qed

lemma carries_exec:
  assumes ok: "cluster_ok c" and e: "sim_exec op c = Inr c'"
  shows "carries c c'"
proof (cases op)
  case (SimMaker fn)
  then show ?thesis using assms carries_Maker by auto
next
  case (SimStart h)
  then show ?thesis using assms carries_StartHeight by auto
next
  case SimDrain
  then show ?thesis using assms carries_Drain by (auto simp: res_map_Inr_iff)
next
  case (SimSweep t)
  then show ?thesis using assms carries_Sweep by (auto simp: res_map_Inr_iff)
qed (use e in \<open>auto intro!: carries_same [OF carries_refl [OF ok]] simp: clock_Advance_def DropFrom_def Unmute_def SetSeed_def\<close>)

lemma carries_run: "cluster_ok c \<Longrightarrow> sim_run ops c = Inr c' \<Longrightarrow> carries c c'"
proof -
  assume ok: "cluster_ok c" and e: "sim_run ops c = Inr c'"
  have step: "\<forall>c2. sim_exec op c1 = Inr c2 \<longrightarrow> carries c1 c2" if "carries c c1" for op c1
    using that carries_exec by (auto simp: carries_def [of c])
  show "carries c c'" by (rule each_carries [OF step ok e [unfolded sim_run_def]])
qed


text \<open>A new cluster: the nodes of the keys, in the initial state.\<close>

lemma NewCluster_shape:
  assumes "NewCluster kec pf sp sc rc k = Inr (c :: 'k cluster)"
  defines "keys \<equiv> map (\<lambda>i. NewTestKey kec pf sp (word_of_nat (i + 1))) [0..<k]"
  defines "V \<equiv> NewValidatorSet (map (\<lambda>k. \<lparr>v_Address = tk_Addr k, v_Power = 1\<rparr>) keys)"
  shows "cl_keys c = keys" "cl_Queue c = []" "cl_Nodes c = map (\<lambda>key. new_node (sim_config kec sc rc V key) initial_state) keys"
    "\<forall>key\<in>set keys. vals_Get V (tk_Addr key) \<noteq> None"
proof -
  define c0 where "c0 = \<lparr>cl_now = 0, cl_Queue = [], cl_seq = 0, cl_Nodes = [], cl_valSet = V, cl_muted = {||}, cl_keys = keys,
               cl_DropRate = 0, cl_lcgState = 0, cl_Dropped = 0\<rparr>"
  define f where "f = (\<lambda>key (c :: 'k cluster). res_map (\<lambda>st. c\<lparr>cl_Nodes := cl_Nodes c @ [new_node (sim_config kec sc rc V key) st]\<rparr>)
      (NewState (sim_config kec sc rc V key)))"
  have step: "f key c1 = (if vals_Get V (tk_Addr key) = None then Inl ErrUnknownValidator
      else Inr (c1\<lparr>cl_Nodes := cl_Nodes c1 @ [new_node (sim_config kec sc rc V key) initial_state]\<rparr>))" for key c1
    by (simp add: f_def NewState_def sim_config_def)
  have loop: "each f ks c1 = Inr c2 \<Longrightarrow> c2 = c1\<lparr>cl_Nodes := cl_Nodes c1 @ map (\<lambda>key. new_node (sim_config kec sc rc V key) initial_state) ks\<rparr> \<and>
      (\<forall>key\<in>set ks. vals_Get V (tk_Addr key) \<noteq> None)" for ks and c1 c2 :: "'k cluster"
  proof (induction ks arbitrary: c1)
    case (Cons key ks)
    from Cons.prems have v: "vals_Get V (tk_Addr key) \<noteq> None"
      "each f ks (c1\<lparr>cl_Nodes := cl_Nodes c1 @ [new_node (sim_config kec sc rc V key) initial_state]\<rparr>) = Inr c2"
      by (simp_all add: step [of key c1] split: if_splits)
    from Cons.IH [OF v(2)] v(1) show ?case by simp
  qed simp
  have "each f keys c0 = Inr c"
    using assms(1) unfolding NewCluster_def Let_def f_def c0_def V_def keys_def by simp
  from loop [OF this] show "cl_keys c = keys" "cl_Queue c = []" "cl_Nodes c = map (\<lambda>key. new_node (sim_config kec sc rc V key) initial_state) keys"
    "\<forall>key\<in>set keys. vals_Get V (tk_Addr key) \<noteq> None"
    by (simp_all add: c0_def)
qed

lemma NewCluster_ok:
  assumes c: "NewCluster kec pf sp sc rc k = Inr c" and d: "distinct (map tk_Addr (cl_keys c))" and k: "k < 2 ^ 64"
  shows "cluster_ok c"
proof -
  note s = NewCluster_shape [OF c]
  let ?vals = "map (\<lambda>k. \<lparr>v_Address = tk_Addr k, v_Power = 1\<rparr>) (cl_keys c)"
  have "cfg_valid (sn_Config n) \<and> sn_State n = initial_state \<and> records n {} \<and> sn_MsgMutator n = None" if n: "n \<in> set (cl_Nodes c)" for n
  proof -
    obtain key where key: "key \<in> set (cl_keys c)" "n = new_node (sim_config kec sc rc (NewValidatorSet ?vals) key) initial_state"
      using n s(1,3) by auto
    have "length (cl_keys c) = k" unfolding s(1) by simp
    then have "(\<Sum>v\<leftarrow>?vals. unat (v_Power v)) < 2 ^ 64" using k by (simp add: comp_def sum_list_triv)
    moreover have "?vals \<noteq> []" using key(1) by (cases "cl_keys c") simp_all
    ultimately have "valset_ok (NewValidatorSet ?vals)" using d by (intro NewValidatorSet_ok) (simp_all add: comp_def)
    moreover have "vals_Get (NewValidatorSet ?vals) (tk_Addr key) \<noteq> None" using s(4) [folded s(1)] key(1) by blast
    ultimately show ?thesis using key(2)
      by (simp add: new_node_def sim_config_def cfg_valid_def records_def)
  qed
  then have "node_ok (messages_of c) n" if "n \<in> set (cl_Nodes c)" for n
    using that initial_safe [of "sn_Config n" "messages_of c"] by (simp add: node_ok_def) (simp add: initial_state_def)
  then show ?thesis by (simp add: cluster_ok_def queued_def s(2))
qed

section \<open>Properties\<close>

text \<open>
  C14: what a simulated cluster commits is justified by what its nodes sent. In any run of a cluster without
  mutators, with muted nodes, losses and timeouts in any order, no node commits a block twice, and every
  block it commits is the block of a proposal of the proposer of its round, with the precommits of a
  quorum or a certificate for it, all among the messages the nodes of the cluster sent.
\<close>

theorem cluster_commits_justified:
  assumes "NewCluster kec pf sp sc rc k = Inr c0" "distinct (map tk_Addr (cl_keys c0))" "k < 2 ^ 64"
    "sim_run ops c0 = Inr c" "n \<in> set (cl_Nodes c)" "x \<in> set (sn_commitOrder n)"
  shows "distinct (sn_commitOrder n) \<and> (\<exists>dat h. x = simBlockHash (cfg_keccak (sn_Config n)) dat \<and>
    (dat, h) \<in> set (cs_committed (sn_State n)) \<and> justified (sn_Config n) (messages_of c) (messages_of c) (dat, h))"
proof -
  have "cluster_ok c" using carries_run [OF NewCluster_ok [OF assms(1-3)] assms(4)] by (simp add: carries_def)
  then have n: "node_ok (messages_of c) n" using assms(5) by (simp add: cluster_ok_def)
  then obtain dat h where dh: "x = simBlockHash (cfg_keccak (sn_Config n)) dat" "(dat, h) \<in> set (cs_committed (sn_State n))"
    using assms(6) by (auto simp: node_ok_def records_def)
  have "set (cs_sent (sn_State n)) \<subseteq> messages_of c" using assms(5) by (auto simp: messages_of_def)
  then have "known (messages_of c) (sn_State n) = messages_of c" by (auto simp: known_def)
  then have "justified (sn_Config n) (messages_of c) (messages_of c) (dat, h)" using n dh(2) by (simp add: node_ok_def safe_def)
  then show ?thesis using n dh by (auto simp: node_ok_def records_def)
qed

lemma seq_before_facts:
  "mset (seq_before d xs) = add_mset d (mset xs)"
  "filter (\<lambda>x. k = dl_Seq x) (seq_before d xs) = (if k = dl_Seq d then d # filter (\<lambda>x. k = dl_Seq x) xs else filter (\<lambda>x. k = dl_Seq x) xs)"
  "sorted_wrt (\<lambda>a b. dl_Seq b \<le> dl_Seq a) xs \<Longrightarrow> sorted_wrt (\<lambda>a b. dl_Seq b \<le> dl_Seq a) (seq_before d xs)"
  by (induction xs) auto

lemma sort_loop_facts:
  "mset (foldl (\<lambda>acc d. seq_before d acc) acc q) = mset acc + mset q"
  "filter (\<lambda>x. k = dl_Seq x) (foldl (\<lambda>acc d. seq_before d acc) acc q) = rev (filter (\<lambda>x. k = dl_Seq x) q) @ filter (\<lambda>x. k = dl_Seq x) acc"
  "sorted_wrt (\<lambda>a b. dl_Seq b \<le> dl_Seq a) acc \<Longrightarrow> sorted_wrt (\<lambda>a b. dl_Seq b \<le> dl_Seq a) (foldl (\<lambda>acc d. seq_before d acc) acc q)"
  by (induction q arbitrary: acc) (simp_all add: seq_before_facts)

text \<open>
  C32: the insertion sort of a wave is the stable sort by number. So deliveries leave the queue in the order
  of their numbers, those of equal numbers in the order they came, and a queue whose numbers grow is
  delivered as it is.
\<close>

theorem sort_queue_stable: "sort_queue q = sort_key dl_Seq q"
proof (rule properties_for_sort_key [symmetric])
  show "mset (sort_queue q) = mset q" by (simp add: sort_queue_def sort_loop_facts)
  show "filter (\<lambda>x. dl_Seq k = dl_Seq x) (sort_queue q) = filter (\<lambda>x. dl_Seq k = dl_Seq x) q" for k
    by (simp add: sort_queue_def sort_loop_facts flip: rev_filter)
  show "sorted (map dl_Seq (sort_queue q))"
    using sort_loop_facts(3) [of "[]" q] by (simp add: sort_queue_def sorted_wrt_rev sorted_map)
qed

text \<open>One receiver, by what \<open>shouldDrop\<close> says.\<close>

lemma shouldDrop_rate:
  "cl_DropRate c = 0 \<Longrightarrow> shouldDrop c = (c, False)"
  "100 \<le> cl_DropRate c \<Longrightarrow> shouldDrop c = (c\<lparr>cl_lcgState := cl_lcgState c * 6364136223846793005 + 1442695040888963407\<rparr>, True)"
proof -
  show "cl_DropRate c = 0 \<Longrightarrow> shouldDrop c = (c, False)" by (simp add: shouldDrop_def)
  assume r: "100 \<le> cl_DropRate c"
  then have "100 \<le> unat (cl_DropRate c)" by (simp add: word_le_nat_alt)
  moreover have "unat (drop_bit 33 x mod 100 :: uint64) < 100" for x :: uint64 by (simp add: unat_mod)
  moreover have "unat (ucast (cl_DropRate c) :: uint64) = unat (cl_DropRate c)" 
    using unat_less_pow [of "cl_DropRate c"] by (simp add: unsigned_ucast_eq take_bit_nat_eq_self)
  ultimately have "drop_bit 33 x mod 100 < (ucast (cl_DropRate c) :: uint64)" for x :: uint64
    unfolding word_less_nat_alt by (metis order_less_le_trans)
  then show "shouldDrop c = (c\<lparr>cl_lcgState := cl_lcgState c * 6364136223846793005 + 1442695040888963407\<rparr>, True)"
    using r by (auto simp: shouldDrop_def Let_def)
qed

definition delivery_of :: "sim_node \<Rightarrow> message \<Rightarrow> uint64 \<Rightarrow> address \<Rightarrow> delivery" where
  "delivery_of n m seq a = \<lparr>dl_Seq = seq, dl_To = a, dl_From = sn_Address n, dl_Msg = m\<rparr>"

lemma send_peers_exact:
  assumes "sn_MsgMutator n = None"
  defines "to \<equiv> filter (\<lambda>a. a \<noteq> sn_Address n)"
  shows "length (cl_Queue (fold (send_peer n m) as c)) + cl_Dropped (fold (send_peer n m) as c) =
      length (cl_Queue c) + cl_Dropped c + length (to as)"
    "cl_DropRate c = 0 \<Longrightarrow> cl_Queue (fold (send_peer n m) as c) =
      cl_Queue c @ map (\<lambda>(i, a). delivery_of n m (cl_seq c + word_of_nat (Suc i)) a) (enumerate 0 (to as))"
    "100 \<le> cl_DropRate c \<Longrightarrow> cl_Queue (fold (send_peer n m) as c) = cl_Queue c"
proof -
  show "length (cl_Queue (fold (send_peer n m) as c)) + cl_Dropped (fold (send_peer n m) as c) =
      length (cl_Queue c) + cl_Dropped c + length (to as)"
  proof (induction as arbitrary: c)
    case (Cons a as)
    have "length (cl_Queue (send_peer n m a c)) + cl_Dropped (send_peer n m a c) =
        length (cl_Queue c) + cl_Dropped c + length (to [a])"
      using assms(1) by (auto simp: send_peer_def shouldDrop_def enqueue_def to_def Let_def)
    then show ?case using Cons.IH [of "send_peer n m a c"] by (simp add: to_def)
  qed (simp add: to_def)
  show "cl_Queue (fold (send_peer n m) as c) =
      cl_Queue c @ map (\<lambda>(i, a). delivery_of n m (cl_seq c + word_of_nat (Suc i)) a) (enumerate 0 (to as))" if "cl_DropRate c = 0"
    using that
  proof (induction as arbitrary: c)
    case (Cons a as)
    have e: "enumerate (Suc 0) xs = map (\<lambda>(i, a). (Suc i, a)) (enumerate 0 xs)" for xs :: "address list"
      by (auto simp: enumerate_Suc_eq)
    show ?case
    proof (cases "a = sn_Address n")
      case True
      then show ?thesis using Cons by (simp add: send_peer_def to_def)
    next
      case False
      then have "send_peer n m a c = enqueue (sn_Address n) a m c"
        using assms(1) Cons.prems by (simp add: send_peer_def shouldDrop_rate(1))
      then show ?thesis using False Cons.IH [of "enqueue (sn_Address n) a m c"] Cons.prems
        by (auto simp: enqueue_def Let_def to_def delivery_of_def e add.assoc case_prod_unfold comp_def)
    qed
  qed (simp add: to_def)
  show "cl_Queue (fold (send_peer n m) as c) = cl_Queue c" if "100 \<le> cl_DropRate c"
    using that
  proof (induction as arbitrary: c)
    case (Cons a as)
    have "cl_Queue (send_peer n m a c) = cl_Queue c \<and> cl_DropRate (send_peer n m a c) = cl_DropRate c"
      using assms(1) Cons.prems by (simp add: send_peer_def shouldDrop_rate(2))
    then show ?case using Cons.IH [of "send_peer n m a c"] Cons.prems by simp
  qed simp
qed

text \<open>
  no message gets lost unseen. A broadcast of a node that is not muted and has no mutator is queued or
  counted as dropped once for every other node; with rate 0 one delivery each is queued, in the
  order of the nodes and numbered in that order, and with rate 100 or more none is.
\<close>

theorem Broadcast_accounts:
  assumes "sn_MsgMutator n = None" "\<not> IsMuted (sn_Address n) c"
    "peers = filter (\<lambda>a. a \<noteq> sn_Address n) (map sn_Address (cl_Nodes c))" "c' = sim_Broadcast n m c"
  shows "length (cl_Queue c') + cl_Dropped c' = length (cl_Queue c) + cl_Dropped c + length peers \<and>
    (if cl_DropRate c = 0
     then cl_Queue c' = cl_Queue c @ map (\<lambda>(i, a). delivery_of n m (cl_seq c + word_of_nat (Suc i)) a) (enumerate 0 peers)
     else if 100 \<le> cl_DropRate c then cl_Queue c' = cl_Queue c else True)"
  using send_peers_exact [OF assms(1), where as = "map sn_Address (cl_Nodes c)" and c = c and m = m] assms(2)
  unfolding assms(3,4) by (simp add: sim_Broadcast_def)

text \<open>A round that ends is a number of waves, and leaves nothing in the queue.\<close>

lemma RunRound_waves:
  assumes "RunRound c = Some r"
  shows "case r of Inl _ \<Rightarrow> True | Inr (c', k) \<Rightarrow>
     cl_Queue c' = [] \<and> (\<exists>j. sim_run (replicate j SimDrain) c = Inr c')"
proof (rule RunRound.raw_induct [OF _ assms], goal_cases)
  case (1 f c r)
  show ?case
  proof (cases "Drain c")
    case (Inr p)
    obtain c1 n where p: "p = (c1, n)" by (cases p)
    show ?thesis
    proof (cases "n = 0")
      case True
      have "cl_Queue c1 = []" using Inr p True length_sort_queue
        by (auto simp: Drain_def res_map_Inr_iff Let_def split: if_splits)
      moreover have "\<exists>j. sim_run (replicate j SimDrain) c = Inr c1"
        by (rule exI [of _ 1]) (use Inr p in \<open>simp add: sim_run_def\<close>)
      ultimately show ?thesis using 1(2) Inr p True by auto
    next
      case False
      then obtain r' where r': "f c1 = Some r'" "r = res_map (\<lambda>(c, total). (c, n + total)) r'"
        using 1(2) Inr p by (auto simp: bind_eq_Some_conv)
      from 1(1) [OF r'(1)] have "case r' of Inl _ \<Rightarrow> True | Inr (c', k) \<Rightarrow>
          cl_Queue c' = [] \<and> (\<exists>j. sim_run (replicate j SimDrain) c1 = Inr c')" .
      moreover have "sim_run (replicate (Suc j) SimDrain) c = sim_run (replicate j SimDrain) c1" for j
        using Inr p by (simp add: sim_run_def)
      ultimately have "\<exists>j. sim_run (replicate j SimDrain) c = Inr c2" "cl_Queue c2 = []" if "r' = Inr (c2, t)" for c2 t
        using that by (simp, metis, simp)
      then show ?thesis unfolding r'(2) by (cases r') auto
    qed
  next
    case (Inl e)
    then have "r = Inl e" using 1(2) by simp
    then show ?thesis by simp
  qed
qed

section \<open>A cluster of one node\<close>

definition byte_kec :: keccak where
  "byte_kec = (\<lambda>bs. if bs = [] then 0 else ucast (last bs))"

text \<open>Keys are their seeds, the public key of a seed ends with it, and its address is its number.\<close>

definition byte_cluster :: "nat \<Rightarrow> byte cluster res" where
  "byte_cluster k = NewCluster byte_kec last (\<lambda>b. 4 # replicate 63 0 @ [b]) (\<lambda>_ _. []) (\<lambda>_ _. None) k"

lemma byte_key: "NewTestKey byte_kec last (\<lambda>b. 4 # replicate 63 0 @ [b]) 1 = \<lparr>tk_Priv = 1, tk_Addr = 1\<rparr>"
proof -
  have "bytes_word (drop 12 (word_bytes (1 :: 256 word))) = (1 :: address)" by code_simp
  then have "PubKeyToAddress byte_kec (4 # replicate 63 0 @ [1]) = Inr 1"
    by (simp add: PubKeyToAddress_def Keccak256_def byte_kec_def)
  then show ?thesis by (simp add: NewTestKey_def)
qed

abbreviation lone_set :: validator_set where
  "lone_set \<equiv> NewValidatorSet [\<lparr>v_Address = 1, v_Power = 1\<rparr>]"

definition lone_config :: consensus_config where
  "lone_config = sim_config byte_kec (\<lambda>_ _. []) (\<lambda>_ _. None) lone_set \<lparr>tk_Priv = 1 :: byte, tk_Addr = 1\<rparr>"

lemma lone_config_alone: "alone lone_config"
  by (simp add: alone_def lone_config_def sim_config_def)

lemma byte_cluster_lone:
  "\<exists>c. byte_cluster 1 = Inr c \<and> cl_Nodes c = [new_node lone_config initial_state] \<and> map tk_Addr (cl_keys c) = [1]"
  by (simp add: byte_cluster_def NewCluster_def byte_key NewState_def Let_def)
    (simp add: lone_config_def sim_config_def vals_Get_def NewValidatorSet_def)

text \<open>Its only node commits the block it proposes when the height starts.\<close>

lemma lone_run:
  assumes "cl_Nodes c0 = [new_node lone_config initial_state]"
  shows "\<exists>c n. sim_run [SimMaker (\<lambda>_ _ _. Some ([9], 5)), SimStart 1] c0 = Inr c \<and> n \<in> set (cl_Nodes c) \<and> sn_Config n = lone_config \<and>
    simBlockHash byte_kec [9] \<in> set (sn_commitOrder n)"
proof -
  obtain cs' where cs': "StartNewHeight lone_config 1 (cl_now c0) (initial_state\<lparr>cs_makeProposal := Some (\<lambda>_ _. Some ([9], 5))\<rparr>) = Inr (cs', None)"
    "cs_committed cs' = [([9], 1)]"
    using alone_starts [OF lone_config_alone, of 5 1 initial_state "cl_now c0" "[9]"] by (auto simp: initial_state_def)
  let ?n = "(new_node lone_config initial_state)\<lparr>sn_State := initial_state\<lparr>cs_makeProposal := Some (\<lambda>_ _. Some ([9], 5))\<rparr>\<rparr>"
  define c1 where "c1 = cluster_SetProposalMaker (\<lambda>_ _ _. Some ([9], 5)) c0"
  have c1: "cl_Nodes c1 = [?n]" "cl_now c1 = cl_now c0"
    using assms by (simp_all add: c1_def cluster_SetProposalMaker_def SetProposalMaker_def new_node_def)
  have new: "sn_Config ?n = lone_config" "sn_State ?n = initial_state\<lparr>cs_makeProposal := Some (\<lambda>_ _. Some ([9], 5))\<rparr>"
    "sn_MsgMutator ?n = None" "sn_Committed ?n = fmempty" "sn_commitOrder ?n = []"
    by (simp_all add: new_node_def)
  obtain c2 where c2: "node_call 0 (OpStart 1 (cl_now c0)) c1 = Inr c2" "cl_Nodes c2 = [call_result ?n cs']"
  proof -
    let ?c = "c1\<lparr>cl_Nodes := [call_result ?n cs']\<rparr>"
    let ?ms = "drop (length (cs_sent (sn_State ?n))) (cs_sent cs')"
    have "node_call 0 (OpStart 1 (cl_now c0)) c1 = Inr (fold (sim_Broadcast ?n) ?ms ?c)"
      unfolding node_call_result c1(1) Let_def nth_Cons_0 new(1) using cs'(1) new(2) by simp
    moreover have "cl_Nodes (fold (sim_Broadcast ?n) ?ms ?c) = [call_result ?n cs']"
      using sim_Broadcasts_effect [OF new(3), of ?ms ?c] by simp
    ultimately show thesis using that by blast
  qed
  have "cs_committed (sn_State ?n) = []" unfolding new(2) by (simp add: initial_state_def)
  then have order: "sn_commitOrder (call_result ?n cs') = [simBlockHash byte_kec [9]]"
    unfolding call_result_def using cs'(2) new
    by (simp add: commit_list_def sim_CommitBlock_def Let_def lone_config_def sim_config_def)
  have cfg: "sn_Config (call_result ?n cs') = lone_config" by (simp add: call_result_def new_node_def)
  have "sim_run [SimMaker (\<lambda>_ _ _. Some ([9], 5)), SimStart 1] c0 = Inr (mark_step (cl_now c0) 0 c2)"
    using c1 c2(1) by (simp add: sim_run_def cluster_StartHeight_def flip: c1_def)
  moreover have "(call_result ?n cs')\<lparr>sn_stepSince := cl_now c0\<rparr> \<in> set (cl_Nodes (mark_step (cl_now c0) 0 c2))"
    by (simp add: mark_step_def c2(2))
  ultimately show ?thesis using order cfg by fastforce
qed

theorem cluster_commits_justified_witness:
  "\<exists>c0 ops c n. byte_cluster 1 = Inr c0 \<and> sim_run ops c0 = Inr c \<and> n \<in> set (cl_Nodes c) \<and>
    (\<exists>dat h. (dat, h) \<in> set (cs_committed (sn_State n)) \<and> justified (sn_Config n) (messages_of c) (messages_of c) (dat, h))"
proof -
  obtain c0 where c0: "byte_cluster 1 = Inr c0" "cl_Nodes c0 = [new_node lone_config initial_state]" "map tk_Addr (cl_keys c0) = [1]"
    using byte_cluster_lone by (elim exE conjE)
  obtain ops c n where r: "sim_run ops c0 = Inr c" "n \<in> set (cl_Nodes c)" "simBlockHash byte_kec [9] \<in> set (sn_commitOrder n)"
    using lone_run [OF c0(2)] by blast
  have "distinct (map tk_Addr (cl_keys c0))" unfolding c0(3) by simp
  from cluster_commits_justified [OF c0(1) [unfolded byte_cluster_def] this _ r]
  obtain dat h where "(dat, h) \<in> set (cs_committed (sn_State n))" "justified (sn_Config n) (messages_of c) (messages_of c) (dat, h)"
    by auto
  then show ?thesis using c0(1) r(1,2) by (intro exI conjI)
qed

definition two_nodes :: "byte cluster" where
  "two_nodes = \<lparr>cl_now = 0, cl_Queue = [], cl_seq = 0, cl_Nodes = map (\<lambda>a. (new_node lone_config initial_state)\<lparr>sn_Address := a\<rparr>) [1, 2],
     cl_valSet = lone_set, cl_muted = {||}, cl_keys = [], cl_DropRate = 0, cl_lcgState = 0, cl_Dropped = 0\<rparr>"

theorem Broadcast_accounts_witness:
  "length (cl_Queue (sim_Broadcast ((new_node lone_config initial_state)\<lparr>sn_Address := 1\<rparr>)
     \<lparr>m_Height = 1, m_Round = 0, m_From = 1, m_Body = BNil\<rparr> two_nodes)) = 1"
  using Broadcast_accounts [OF _ _ refl refl, of "(new_node lone_config initial_state)\<lparr>sn_Address := 1\<rparr>" two_nodes
      "\<lparr>m_Height = 1, m_Round = 0, m_From = 1, m_Body = BNil\<rparr>"]
  by (simp add: two_nodes_def new_node_def IsMuted_def)

end
