(* ===== verification/Init.thy ===== *)
theory Init
  imports RpcCodec NodeProps
begin

text \<open>
  The commands \<open>init\<close> and \<open>start\<close> of \<open>cmd/chfault/main.go\<close>, which write the files of a chain and run a node on
  them, with \<open>LoadGenesis\<close> of \<open>chain/genesis.go\<close> and \<open>LoadConfig\<close> of \<open>node/config.go\<close>. A file holds
  what it was written from: that decoding the YAML and JSON texts undoes encoding them is left to the
  libraries. A path is a directory, in clean form, and the name of the file in it. Of the file system, creating
  a directory and writing a file may fail.
\<close>

section \<open>Files\<close>

datatype disk_file = ConfigFile node_config | GenesisFile genesis

type_synonym files = "(string \<times> string, disk_file) fmap"

definition LoadGenesis :: "files \<Rightarrow> string \<times> string \<Rightarrow> genesis res" where
  "LoadGenesis fs path =
     (case fmlookup fs path of
        None \<Rightarrow> Inl (ErrOther ''read genesis'')
      | Some (ConfigFile _) \<Rightarrow> Inl (ErrOther ''parse genesis'')
      | Some (GenesisFile g) \<Rightarrow> Validate g)"

definition LoadConfig :: "files \<Rightarrow> string \<times> string \<Rightarrow> node_config res" where
  "LoadConfig fs path =
     (case fmlookup fs path of
        None \<Rightarrow> Inl (ErrOther ''no config file'')
      | Some (GenesisFile _) \<Rightarrow> Inl (ErrOther ''parse config'')
      | Some (ConfigFile c) \<Rightarrow> res_map (\<lambda>_. c) (config_Validate c))"

section \<open>What init writes\<close>

text \<open>The flags of \<open>init\<close>.\<close>

record init_flags =
  if_dir :: string
  if_chainID :: string
  if_name :: string
  if_validators :: int
  if_funded :: string

text \<open>\<open>fmt.Sprintf("%0wx", n)\<close>, \<open>strings.ToLower\<close> on ASCII, and \<open>filepath.Base\<close> of a clean path.\<close>

definition hex_padded :: "nat \<Rightarrow> nat \<Rightarrow> string" where
  "hex_padded w n = (let h = hex_string n in replicate (w - length h) CHR ''0'' @ h)"

definition lower_char :: "char \<Rightarrow> char" where
  "lower_char c = (if CHR ''A'' \<le> c \<and> c \<le> CHR ''Z'' then char_of (of_char c + 32 :: nat) else c)"

definition ToLower :: "string \<Rightarrow> string" where
  "ToLower s = map lower_char s"

definition Base :: "string \<Rightarrow> string" where
  "Base path =
     (if path = [] then ''.''
      else let b = rev (takeWhile (\<lambda>c. c \<noteq> CHR ''/'') (rev path)) in if b = [] then ''/'' else b)"

definition repeatHex :: "byte \<Rightarrow> nat \<Rightarrow> string" where
  "repeatHex b n = concat (replicate n (hex_padded 2 (unat b)))"

definition genValidator :: "nat \<Rightarrow> genesis_validator" where
  "genValidator i =
     \<lparr>gv_Address = ''0x'' @ hex_padded 40 (i + 1), gv_PubKey = ''0x02'' @ repeatHex (word_of_nat (i + 1)) 32,
      gv_Power = ''1'', gv_Moniker = ''validator-'' @ dec_string (i + 1)\<rparr>"

definition genValidators :: "nat \<Rightarrow> genesis_validator list" where
  "genValidators n = map genValidator [0..<n]"

definition init_genesis :: "init_flags \<Rightarrow> nat \<Rightarrow> genesis" where
  "init_genesis a now =
     \<lparr>g_ChainID = if_chainID a, g_Timestamp = dec_string now, g_GasLimit = ''30000000'', g_InitialBaseFee = ''1000000000'',
      g_Alloc = fmupd (ToLower (if_funded a)) \<lparr>al_Balance = ''100000000000000000000000000'', al_Nonce = [], al_Code = []\<rparr> fmempty,
      g_Validators = genValidators (nat (if_validators a)), g_ExtraData = ''0x'', g_Version = ''1''\<rparr>"

definition init_config :: "init_flags \<Rightarrow> node_config" where
  "init_config a = config_default\<lparr>
     nf_Chain := (nf_Chain config_default)\<lparr>cc_Name := if_name a, cc_ChainID := if_chainID a, cc_Genesis := ''genesis.json''\<rparr>,
     nf_Storage := (nf_Storage config_default)\<lparr>sc_DataDir := ''./data''\<rparr>\<rparr>"

section \<open>The commands\<close>

record disk =
  dk_MkdirAll :: "string \<Rightarrow> err option"
  dk_WriteFile :: "string \<times> string \<Rightarrow> err option"

definition write_file :: "disk \<Rightarrow> string \<times> string \<Rightarrow> disk_file \<Rightarrow> files \<Rightarrow> files \<times> unit res" where
  "write_file D path f fs = (case dk_WriteFile D path of Some e \<Rightarrow> (fs, Inl e) | None \<Rightarrow> (fmupd path f fs, Inr ()))"

definition named :: "init_flags \<Rightarrow> init_flags" where
  "named a = (if if_name a = [] then a\<lparr>if_name := Base (if_dir a)\<rparr> else a)"

definition cmdInit :: "disk \<Rightarrow> keccak \<Rightarrow> nat \<Rightarrow> init_flags \<Rightarrow> files \<Rightarrow> files \<times> hash res" where
  "cmdInit D kec now a fs =
     (let a = named a; cfgPath = (if_dir a, ''chfault.config.yaml''); genPath = (if_dir a, ''genesis.json'') in
      if if_validators a < 1 \<or> if_validators a > 25 then (fs, Inl (ErrOther ''validators''))
      else case ParseAddress (if_funded a) of
        Inl e \<Rightarrow> (fs, Inl e)
      | Inr _ \<Rightarrow>
          (case dk_MkdirAll D (if_dir a) of
             Some e \<Rightarrow> (fs, Inl e)
           | None \<Rightarrow>
               if fmlookup fs cfgPath \<noteq> None \<or> fmlookup fs genPath \<noteq> None then (fs, Inl (ErrOther ''exists''))
               else case write_file D genPath (GenesisFile (init_genesis a now)) fs of
                   (fs, Inl e) \<Rightarrow> (fs, Inl e)
                 | (fs, Inr _) \<Rightarrow>
                     (case write_file D cfgPath (ConfigFile (init_config a)) fs of
                        (fs, Inl e) \<Rightarrow> (fs, Inl e)
                      | (fs, Inr _) \<Rightarrow> (fs, and_then (LoadGenesis fs genPath) (genesis_Hash kec)))))"

text \<open>
  \<open>start\<close> reads the configuration where it is told; the node looks for the genesis file in the
  working directory.
\<close>

definition world_at :: "string \<Rightarrow> files \<Rightarrow> ('t, 'k) world \<Rightarrow> ('t, 'k) world" where
  "world_at cwd fs W = W\<lparr>w_Stat := \<lambda>p. fmlookup fs (cwd, p) \<noteq> None, w_LoadGenesis := \<lambda>p. LoadGenesis fs (cwd, p)\<rparr>"

definition cmdStart :: "('t, 'k) world \<Rightarrow> string \<Rightarrow> files \<Rightarrow> string \<times> string \<Rightarrow> 't node res" where
  "cmdStart W cwd fs config =
     and_then (LoadConfig fs config) (\<lambda>cfg.
     and_then (node_New (Some cfg)) (\<lambda>n.
     case node_Start (world_at cwd fs W) n of (_, Inl e) \<Rightarrow> Inl e | (n, Inr _) \<Rightarrow> Inr n))"

section \<open>The placeholder validators\<close>

lemma each_unit: "each f xs () = Inr () \<longleftrightarrow> list_all (\<lambda>x. f x () = Inr ()) xs"
  by (induction xs) (auto simp: and_then_Inr_iff)

lemma hex_string_short: "n < 256 \<Longrightarrow> length (hex_string n) \<le> 2"
  by (simp add: hex_string.simps [of n] hex_string.simps [of "n div 16"])

lemma hex_string_hex: "list_all is_hex (hex_string n)"
proof (induction n rule: hex_string.induct)
  case (1 n)
  then show ?case by (cases "n < 16") (simp_all add: hex_string.simps [of n] is_hex_def)
qed

lemma hex_padded_facts:
  assumes "n < 256" "2 \<le> w"
  shows "length (hex_padded w n) = w" "list_all is_hex (hex_padded w n)"
proof -
  have "is_hex (CHR ''0'')" by code_simp
  then show "length (hex_padded w n) = w" "list_all is_hex (hex_padded w n)"
    using hex_string_short [OF assms(1)] assms(2) hex_string_hex [of n]
    by (auto simp: hex_padded_def Let_def list_all_iff)
qed

lemma repeatHex_facts: "length (repeatHex b n) = 2 * n" "list_all is_hex (repeatHex b n)"
proof -
  have b: "unat b < 256" by (rule unat_byte_less)
  show "length (repeatHex b n) = 2 * n" "list_all is_hex (repeatHex b n)"
    using hex_padded_facts [OF b, of 2] by (induction n) (simp_all add: repeatHex_def)
qed

lemma hex_decode_length: "hex_decode s = Inr b \<Longrightarrow> length s = 2 * length b"
  by (induction s arbitrary: b rule: hex_decode.induct) (auto simp: and_then_Inr_iff split: option.splits)

text \<open>A hexadecimal text with its prefix decodes.\<close>

lemma decodeHex_padded:
  assumes "list_all is_hex s" "length s = 2 * n" "0 < n"
  shows "\<exists>b. decodeHex (''0x'' @ s) = Inr b \<and> length b = n"
proof -
  have "is_ok (hex_decode s)" using assms by (simp add: hex_decode_ok)
  then obtain b where b: "hex_decode s = Inr b" by (auto simp: is_ok_iff)
  have "\<not> is_hex (CHR ''X'')" by code_simp
  then have "\<not> prefix ''0X'' s" using assms(1) by (auto simp: prefix_def)
  moreover have "s \<noteq> []" using assms(2,3) by auto
  ultimately show ?thesis using b hex_decode_length [OF b] assms(2)
    by (simp add: decodeHex_def trim_prefix_def Let_def)
qed

lemma genValidator_address: "i < 25 \<Longrightarrow> is_ok (ParseAddress (gv_Address (genValidator i)))"
  using decodeHex_padded [of "hex_padded 40 (i + 1)" 20] hex_padded_facts [of "i + 1" 40]
  by (auto simp: genValidator_def ParseAddress_def AddressLen_def is_ok_iff)

lemma genValidator_power: "parseUint64 (gv_Power (genValidator i)) = Inr 1"
  by (simp add: genValidator_def genesis_eval)

lemma genValidator_pubkey: "is_ok (decodeHex (gv_PubKey (genValidator i)))"
proof -
  have "list_all is_hex (''02'' @ repeatHex (word_of_nat (i + 1)) 32)" "length (''02'' @ repeatHex (word_of_nat (i + 1)) 32) = 2 * 33"
    using repeatHex_facts [of "word_of_nat (i + 1)" 32] by (simp_all add: is_hex_def hex_val_def)
  from decodeHex_padded [OF this] show ?thesis by (auto simp: genValidator_def is_ok_iff)
qed

lemma genValidators_valid:
  assumes "n \<le> 25"
  shows "each validate_validator (genValidators n) () = Inr ()"
proof -
  have "validate_validator (genValidator i) () = Inr ()" if "i < 25" for i
    using genValidator_address [OF that] genValidator_power [of i]
    by (auto simp: validate_validator_def is_ok_iff) (simp_all add: genValidator_def)
  then show ?thesis using assms by (simp add: each_unit genValidators_def list_all_iff)
qed

section \<open>The genesis that init writes\<close>

definition init_balance :: uint256 where
  "init_balance = 100000000000000000000000000"

lemma init_balance_dec: "dec_string (unat init_balance) = ''100000000000000000000000000''"
  by (simp add: init_balance_def dec_string.simps [of "numeral k" for k] dec_string.simps [of "Suc 0"] digit_char_def char_of_def bit_0)

lemma init_balance_parsed: "parseUint256 ''100000000000000000000000000'' = Inr init_balance"
proof -
  obtain w where w: "each parse256_step ''100000000000000000000000000'' zero_uint256 = Inr w" "to_big w = 100000000000000000000000000"
    using each_parse256 [of "''100000000000000000000000000''"] by (auto simp: is_digit_def dec_val_def digit_val_def)
  have "to_big init_balance = 100000000000000000000000000" by (simp add: to_big_uint init_balance_def)
  then have "w = init_balance" using w(2) to_big_inject by metis
  then show ?thesis using w(1) by (simp add: parseUint256_def)
qed

lemma parseUint64_dec: "n < 2 ^ 64 \<Longrightarrow> parseUint64 (dec_string n) = Inr (word_of_nat n)"
  using each_parse64 [of "dec_string n"] dec_string_digits [of n] by (simp add: parseUint64_def)

lemma init_Validate:
  assumes "is_ok (parseUint64 (if_chainID a))" "is_ok (ParseAddress (ToLower (if_funded a)))" "if_validators a \<le> 25" "now < 2 ^ 64"
  shows "Validate (init_genesis a now) = Inr (init_genesis a now)"
proof -
  let ?g = "init_genesis a now"
  have "if_chainID a \<noteq> []" "dec_string now \<noteq> []" using assms(1) dec_string_digits [of now] by (auto simp: parseUint64_def is_ok_iff)
  moreover have "each (validate_alloc ?g) (sorted_keys (g_Alloc ?g)) () = Inr ()"
    using assms(2) init_balance_parsed
    by (auto simp: init_genesis_def sorted_keys_fmupd sorted_keys_fmempty validate_alloc_def is_ok_iff)
  moreover have "each validate_validator (genValidators (nat (if_validators a))) () = Inr ()"
    by (rule genValidators_valid) (use assms(3) in simp)
  ultimately show ?thesis using assms(1) parseUint64_dec [OF assms(4)]
    by (auto simp: Validate_def Let_def is_ok_iff) (simp_all add: init_genesis_def)
qed

lemma init_state:
  assumes "ParseAddress (ToLower (if_funded a)) = Inr f"
  obtains root m s sess where "BuildState kec (init_genesis a now) = Inr (root, m, s)" "Begin m root = Inr sess"
    "GetAccount sess f = Inr (empty_account\<lparr>acc_Balance := init_balance\<rparr>)"
proof -
  let ?g = "init_genesis a now"
  obtain s0 where s0: "Begin NewMemoryManager 0 = Inr s0" "se_accounts s0 = fmempty" "\<not> se_done s0"
    by (simp add: Begin_def NewMemoryManager_def hash_is_zero_def)
  have keys: "sorted_keys (g_Alloc ?g) = [ToLower (if_funded a)]" by (simp add: init_genesis_def sorted_keys_fmupd)
  obtain s1 where s1: "SetBalance f init_balance s0 = Inr s1" "fmlookup (se_accounts s1) f = Some (empty_account\<lparr>acc_Balance := init_balance\<rparr>)"
    "\<not> se_done s1"
    using s0(2,3) by (simp add: SetBalance_def update_account_def recordAccount_def ensureAccount_def Let_def)
  have "applyToSession kec ?g (NewMemoryManager, s0) = Inr (NewMemoryManager, s1)"
    using s1(1) assms init_balance_parsed
    by (simp add: applyToSession_def keys apply_alloc_def) (simp add: init_genesis_def)
  then obtain root m s where c: "BuildState kec ?g = Inr (root, m, s)" "Commit kec (NewMemoryManager, s1) = Inr (root, m, s)"
    using s0(1) s1(3) by (simp add: BuildState_def Commit_def Let_def)
  then have "Begin m root = Inr \<lparr>se_parent = root, se_accounts = se_accounts s1, se_storage = se_storage s1,
    se_journal = [], se_done = False\<rparr>" using Commit_Begin [OF c(2)] by simp
  then show thesis using that [OF c(1)] s1(2) by (simp add: GetAccount_def)
qed

lemma each_concat_ok:
  "list_all (\<lambda>x. is_ok (f x)) xs \<Longrightarrow> is_ok (each (\<lambda>x buf. and_then (f x) (\<lambda>b. Inr (buf @ b))) xs buf)"
  by (induction xs arbitrary: buf) (auto simp: is_ok_iff)

lemma init_validators_hash:
  assumes "if_validators a \<le> 25"
  shows "is_ok (ValidatorSetHash kec (init_genesis a now))"
proof -
  let ?vs = "genValidators (nat (if_validators a))"
  have vs: "g_Validators (init_genesis a now) = ?vs" by (simp add: init_genesis_def)
  have v: "\<exists>ad. validator_entry v = Inr \<lparr>ve_addr = ad, ve_pubkey = gv_PubKey v, ve_power = 1\<rparr> \<and> is_ok (decodeHex (gv_PubKey v))"
    if mem: "v \<in> set ?vs" for v
  proof -
    obtain i where "v = genValidator i" "i < 25" using mem assms by (auto simp: genValidators_def)
    then show ?thesis using genValidator_address [of i] genValidator_power [of i] genValidator_pubkey [of i]
      by (auto simp: validator_entry_def is_ok_iff)
  qed
  then have "list_all (\<lambda>v. is_ok (validator_entry v)) ?vs" by (fastforce simp: list_all_iff is_ok_iff)
  note entries = each_collect [OF this, of "[]"]
  have "list_all (\<lambda>e. is_ok (entry_bytes e)) (sort_key ve_addr (map (\<lambda>v. projr (validator_entry v)) ?vs))"
    using v by (fastforce simp: list_all_iff entry_bytes_def is_ok_iff)
  from each_concat_ok [OF this, of "[]"] show ?thesis by (auto simp: ValidatorSetHash_def vs entries is_ok_iff)
qed

text \<open>The block and the state of the genesis, and the hash of its header.\<close>

lemma init_block:
  assumes "ParseAddress (ToLower (if_funded a)) = Inr f" "if_validators a \<le> 25"
  obtains blk m sess h where "BuildBlockWithManager kec (init_genesis a now) = Inr (blk, m)"
    "header_Hash kec (b_Header blk) = Inr h" "h_ChainID (b_Header blk) = value_or_zero (parseUint64 (if_chainID a))"
    "Begin m (h_StateRoot (b_Header blk)) = Inr sess" "GetAccount sess f = Inr (empty_account\<lparr>acc_Balance := init_balance\<rparr>)"
proof -
  let ?g = "init_genesis a now"
  obtain root m s sess where st: "BuildState kec ?g = Inr (root, m, s)" "Begin m root = Inr sess"
    "GetAccount sess f = Inr (empty_account\<lparr>acc_Balance := init_balance\<rparr>)"
    by (rule init_state [OF assms(1)])
  obtain vh where vh: "ValidatorSetHash kec ?g = Inr vh" using init_validators_hash [OF assms(2)] by (auto simp: is_ok_iff)
  have x: "genesis_extra ?g = Inr []" by (simp add: genesis_extra_def init_genesis_def decodeHex_def trim_prefix_def)
  obtain blk where blk: "BuildBlockWithManager kec ?g = Inr (blk, m)" "h_ExtraData (b_Header blk) = []" "h_StateRoot (b_Header blk) = root"
    "h_ChainID (b_Header blk) = value_or_zero (parseUint64 (g_ChainID ?g))"
    by (simp add: BuildBlockWithManager_def st(1) x vh)
  obtain hb where "header_Encode (b_Header blk) = Inr hb" using blk(2) by (simp add: header_Encode_def)
  then have "\<exists>h. header_Hash kec (b_Header blk) = Inr h" by (simp add: header_Hash_def)
  then show thesis using that [OF blk(1)] blk(3,4) st(2,3) by (auto simp: init_genesis_def)
qed

text \<open>A genesis whose block can be made starts a fresh chain.\<close>

lemma genesis_starts:
  assumes "Validate g = Inr g" "BuildBlockWithManager kec g = Inr (blk, m)" "header_Hash kec (b_Header blk) = Inr h"
    "c_store c = NewMemory" "h_ChainID (b_Header blk) = c_ChainID c"
  shows "\<exists>st. InitGenesis kec c g = (c\<lparr>c_mgr := Some m, c_store := st,
      c_head := \<lparr>hd_Height = 0, hd_Hash = h, hd_StateRoot = h_StateRoot (b_Header blk)\<rparr>\<rparr>, Inr ())"
proof -
  have gh: "genesis_Hash kec g = Inr h" by (simp add: genesis_Hash_def BuildBlock_def assms(2,3))
  have chk: "check_stored_genesis (c_store c) h = Inr False"
    by (simp add: check_stored_genesis_def mem_Get_def NewMemory_def assms(4))
  obtain hb where hb: "header_Encode (b_Header blk) = Inr hb" using assms(3) by (auto simp: header_Hash_def and_then_Inr_iff)
  have blk: "blk = \<lparr>b_Header = b_Header blk, b_Transactions = []\<rparr>" using genesis_block_shape [OF assms(2)] by (cases blk) simp
  then obtain enc where enc: "block_Encode blk = Inr enc" using block_no_tx_Encode [OF hb] by metis
  have "\<exists>st. write_genesis kec (c\<lparr>c_mgr := Some m\<rparr>) h blk = Inr st"
    using assms(4) genesis_block_shape [OF assms(2)]
    by (simp add: write_genesis_def Let_def assms(5) writeBlockToBatch_def enc assms(3) batch_Put_def writeHeadToBatch_def
        mem_Apply_def NewMemory_def)
  then show ?thesis by (auto simp: InitGenesis_def Let_def assms(1,2) gh chk)
qed

section \<open>Properties\<close>

lemma named_fields [simp]:
  "if_dir (named a) = if_dir a" "if_chainID (named a) = if_chainID a" "if_validators (named a) = if_validators a"
  "if_funded (named a) = if_funded a"
  by (simp_all add: named_def)

lemma named_named: "if_name (named a) \<noteq> []"
  by (simp add: named_def Base_def Let_def)

text \<open>The disk does not fail, and the directory has neither file.\<close>

definition init_free :: "disk \<Rightarrow> string \<Rightarrow> files \<Rightarrow> bool" where
  "init_free D dir fs \<longleftrightarrow> dk_MkdirAll D dir = None \<and>
     list_all (\<lambda>name. dk_WriteFile D (dir, name) = None \<and> fmlookup fs (dir, name) = None)
       [''genesis.json'', ''chfault.config.yaml'']"

definition init_files :: "init_flags \<Rightarrow> nat \<Rightarrow> files \<Rightarrow> files" where
  "init_files a now fs = fmupd (if_dir a, ''chfault.config.yaml'') (ConfigFile (init_config (named a)))
     (fmupd (if_dir a, ''genesis.json'') (GenesisFile (init_genesis (named a) now)) fs)"

lemma cmdInit_writes:
  assumes "1 \<le> if_validators a" "if_validators a \<le> 25" "is_ok (ParseAddress (if_funded a))" "init_free D (if_dir a) fs"
  shows "cmdInit D kec now a fs =
    (init_files a now fs, and_then (Validate (init_genesis (named a) now)) (genesis_Hash kec))"
  using assms by (auto simp: cmdInit_def Let_def init_free_def write_file_def init_files_def LoadGenesis_def is_ok_iff)

lemma init_config_valid:
  assumes "parsePositiveInt (if_chainID a) = Inr cid"
  shows "config_Validate (init_config (named a)) = Inr ()"
proof -
  have "if_chainID a \<noteq> []" using assms by (auto simp: parsePositiveInt_def)
  then show ?thesis using assms named_named [of a]
    by (simp add: config_Validate_def init_config_def config_default_def)
qed

lemma base_fee_parsed: "\<exists>w. u256FromString ''1000000000'' = Inr w"
  using each_parse256 [of "''1000000000''"]
  by (auto simp: u256FromString_def u256_step_parse256 is_digit_def dec_val_def digit_val_def)

lemma world_at_sel:
  "w_Stat (world_at cwd fs W) p \<longleftrightarrow> fmlookup fs (cwd, p) \<noteq> None"
  "w_LoadGenesis (world_at cwd fs W) p = LoadGenesis fs (cwd, p)"
  "w_keccak (world_at cwd fs W) = w_keccak W" "w_MkdirAll (world_at cwd fs W) = w_MkdirAll W"
  "w_Open (world_at cwd fs W) = w_Open W" "w_StartRPC (world_at cwd fs W) = w_StartRPC W"
  by (simp_all add: world_at_def)

lemma initChain_genesis:
  assumes "parseChainID (cc_ChainID (nf_Chain cfg)) = Inr cid" "w_Stat W (cc_Genesis (nf_Chain cfg))"
    "w_LoadGenesis W (cc_Genesis (nf_Chain cfg)) = Inr g" "parseChainID (g_ChainID g) = Inr cid"
    "chain_New store cid = Inr c0" "InitGenesis (w_keccak W) c0 g = (c, Inr ())"
  shows "initChain W cfg store = Inr c"
  using assms by (simp add: initChain_def value_or_zero_def)

text \<open>What a started node has, when it is started on a fresh store with the default components.\<close>

lemma node_starts:
  assumes "openStorage W cfg = Inr NewMemory" "initChain W cfg NewMemory = Inr c"
    "cn_Validators (nf_Consensus cfg) = []" "nc_Listen (nf_Network cfg) = []"
    "rc_HTTP_Enabled (nf_RPC cfg)" "w_StartRPC W (rc_HTTP_Port (nf_RPC cfg)) = None" "node_New (Some cfg) = Inr n0"
  shows "\<exists>n. node_Start W n0 = (n, Inr ()) \<and> IsRunning n \<and> n_chain n = Some c"
proof -
  let ?self = "snd (newDevSigner W (word_of_int (cn_KeySeed (nf_Consensus cfg))))"
  have n0: "n_cfg n0 = cfg" "\<not> n_started n0" "\<not> n_stopped n0" using assms(7) by (auto simp: node_New_def)
  have "vals_Get (NewValidatorSet [\<lparr>v_Address = ?self, v_Power = 1\<rparr>]) ?self \<noteq> None"
    by (simp add: vals_Get_def NewValidatorSet_def Let_def)
  moreover obtain fee where "u256FromString ''1000000000'' = Inr fee" using base_fee_parsed by blast
  ultimately show ?thesis using assms(1-6) n0
    by (simp add: node_Start_def Let_def initConsensus_def consensus_validators_def NewState_def node_consensus_config_def
        startRPC_def IsRunning_def)
qed

text \<open>
  C17: a chain made with \<open>init\<close> can be started. With one to 25 validators, an address to fund that still parses in
  lower case, a chain id that is not zero, and a directory without the two files, \<open>init\<close> writes both and gives the
  hash of the genesis block; \<open>start\<close> in that directory with an empty database then gives a running
  node, whose head is that block, and on which the address has the funds. In another working directory that has
  no genesis file the same configuration does not start, though \<open>init\<close> tells the user to do just that.
\<close>

theorem init_then_start:
  assumes a: "1 \<le> if_validators a" "if_validators a \<le> 25" "is_ok (ParseAddress (if_funded a))"
      "ParseAddress (ToLower (if_funded a)) = Inr f" "parsePositiveInt (if_chainID a) = Inr cid" "now < 2 ^ 64"
    and D: "init_free D (if_dir a) fs"
    and W: "w_MkdirAll W ''./data'' = None" "w_Open W ''./data'' = Inr NewMemory" "w_StartRPC W 8545 = None"
  shows "\<exists>fs' h n c. cmdInit D (w_keccak W) now a fs = (fs', Inr h) \<and>
    cmdStart W (if_dir a) fs' (if_dir a, ''chfault.config.yaml'') = Inr n \<and> IsRunning n \<and>
    n_chain n = Some c \<and> hd_Height (c_head c) = 0 \<and> hd_Hash (c_head c) = h \<and> c_ChainID c = cid \<and>
    node_GetBalance f n = Inr ''100000000000000000000000000'' \<and>
    (\<forall>cwd. if fmlookup fs' (cwd, ''genesis.json'') = None
       then cmdStart W cwd fs' (if_dir a, ''chfault.config.yaml'') = Inl (ErrOther ''no genesis file'') else True)"
proof -
  let ?kec = "w_keccak W" and ?fs = "init_files a now fs" and ?g = "init_genesis (named a) now" and ?cfg = "init_config (named a)"
  have cid: "parseUint64 (if_chainID a) = Inr cid" "parseChainID (if_chainID a) = Inr cid"
    using a(5) decimal_parsers_agree [of "if_chainID a" cid] by auto
  have val: "Validate ?g = Inr ?g" using a(2,4,6) cid(1) by (intro init_Validate) (simp_all add: is_ok_iff)
  obtain blk m sess h where blk: "BuildBlockWithManager ?kec ?g = Inr (blk, m)" "header_Hash ?kec (b_Header blk) = Inr h"
    "h_ChainID (b_Header blk) = value_or_zero (parseUint64 (if_chainID (named a)))"
    "Begin m (h_StateRoot (b_Header blk)) = Inr sess" "GetAccount sess f = Inr (empty_account\<lparr>acc_Balance := init_balance\<rparr>)"
    by (rule init_block [of "named a" f ?kec now]) (use a(2,4) in simp_all)
  have made: "cmdInit D ?kec now a fs = (?fs, Inr h)"
    using cmdInit_writes [OF a(1-3) D] val blk(1,2) by (simp add: genesis_Hash_def BuildBlock_def)
  have read: "LoadConfig ?fs (if_dir a, ''chfault.config.yaml'') = Inr ?cfg" "LoadGenesis ?fs (if_dir a, ''genesis.json'') = Inr ?g"
    "fmlookup ?fs (if_dir a, ''genesis.json'') \<noteq> None"
    using init_config_valid [OF a(5)] val by (simp_all add: LoadConfig_def LoadGenesis_def init_files_def)
  have cfg: "cc_Genesis (nf_Chain ?cfg) = ''genesis.json''" "cc_ChainID (nf_Chain ?cfg) = if_chainID a"
    "sc_Backend (nf_Storage ?cfg) = ''pebble''" "sc_DataDir (nf_Storage ?cfg) = ''./data''"
    "cn_Validators (nf_Consensus ?cfg) = []" "nc_Listen (nf_Network ?cfg) = []" "rc_HTTP_Enabled (nf_RPC ?cfg)"
    "rc_HTTP_Port (nf_RPC ?cfg) = 8545"
    by (simp_all add: init_config_def config_default_def)
  obtain n0 :: "'a node" where n0: "node_New (Some ?cfg) = Inr n0" by (simp add: node_New_def)
  have store: "openStorage (world_at cwd ?fs W) ?cfg = Inr NewMemory" for cwd
    using W(1,2) by (simp add: openStorage_def world_at_sel cfg)
  let ?c0 = "\<lparr>c_store = NewMemory, c_ChainID = cid, c_head = empty_head, c_mgr = None\<rparr>"
  have new: "chain_New NewMemory cid = Inr ?c0" by (simp add: chain_New_def mem_Get_def NewMemory_def loadHead_def)
  obtain c where st: "InitGenesis ?kec ?c0 ?g = (c, Inr ())" and c: "c_ChainID c = cid" "c_mgr c = Some m"
    "c_head c = \<lparr>hd_Height = 0, hd_Hash = h, hd_StateRoot = h_StateRoot (b_Header blk)\<rparr>"
    using genesis_starts [OF val blk(1,2), of ?c0] blk(3) cid(1) by (auto simp: value_or_zero_def)
  have gid: "g_ChainID ?g = if_chainID a" by (simp add: init_genesis_def)
  have chain: "initChain (world_at (if_dir a) ?fs W) ?cfg NewMemory = Inr c"
  proof (rule initChain_genesis)
    show "InitGenesis (w_keccak (world_at (if_dir a) ?fs W)) ?c0 ?g = (c, Inr ())" using st by (simp only: world_at_sel)
  qed (use read(2,3) new in \<open>simp_all only: cfg cid gid world_at_sel simp_thms\<close>)
  have "\<exists>n. node_Start (world_at (if_dir a) ?fs W) n0 = (n, Inr ()) \<and> IsRunning n \<and> n_chain n = Some c"
    by (rule node_starts [OF store chain cfg(5-7) _ n0]) (simp only: cfg world_at_sel W)
  then obtain n where n: "node_Start (world_at (if_dir a) ?fs W) n0 = (n, Inr ())" "IsRunning n" "n_chain n = Some c"
    by blast
  have started: "cmdStart W (if_dir a) ?fs (if_dir a, ''chfault.config.yaml'') = Inr n"
    by (simp add: cmdStart_def read(1) n0 n(1))
  have balance: "node_GetBalance f n = Inr ''100000000000000000000000000''"
    using blk(4,5) by (simp add: node_GetBalance_def n(3) head_view_def View_def c init_balance_dec)
  have "cmdStart W cwd ?fs (if_dir a, ''chfault.config.yaml'') = Inl (ErrOther ''no genesis file'')"
    if "fmlookup ?fs (cwd, ''genesis.json'') = None" for cwd
  proof -
    have "initChain (world_at cwd ?fs W) ?cfg NewMemory = Inl (ErrOther ''no genesis file'')"
      using that cid(2) by (simp add: initChain_def cfg world_at_sel)
    moreover have "n_cfg n0 = ?cfg" "\<not> n_started n0" using n0 by (auto simp: node_New_def)
    ultimately have "\<exists>n1. node_Start (world_at cwd ?fs W) n0 = (n1, Inl (ErrOther ''no genesis file''))"
      using store by (simp add: node_Start_def Let_def)
    then show ?thesis by (auto simp: cmdStart_def read(1) n0)
  qed
  then show ?thesis using made started n(2,3) balance by (intro exI [of _ ?fs] exI [of _ h] exI [of _ n] exI [of _ c]) (simp add: c)
qed

definition sample_flags :: init_flags where
  "sample_flags = \<lparr>if_dir = ''chain'', if_chainID = ''10086'', if_name = [], if_validators = 4,
     if_funded = ''0x7E5F4552091A69125d5DfCb7b8C2659029395Bdf''\<rparr>"

definition sample_disk :: disk where
  "sample_disk = \<lparr>dk_MkdirAll = \<lambda>_. None, dk_WriteFile = \<lambda>_. None\<rparr>"

lemma sample_funded:
  "ParseAddress (if_funded sample_flags) = Inr 0x7E5F4552091A69125d5DfCb7b8C2659029395Bdf"
  "ParseAddress (ToLower (if_funded sample_flags)) = Inr 0x7E5F4552091A69125d5DfCb7b8C2659029395Bdf"
proof -
  let ?bytes = "[0x7E, 0x5F, 0x45, 0x52, 0x09, 0x1A, 0x69, 0x12, 0x5d, 0x5D, 0xfC, 0xb7, 0xb8, 0xC2, 0x65, 0x90, 0x29, 0x39, 0x5B, 0xdf]"
  have "decodeHex (if_funded sample_flags) = Inr ?bytes" "decodeHex (ToLower (if_funded sample_flags)) = Inr ?bytes"
    by code_simp+
  then show "ParseAddress (if_funded sample_flags) = Inr 0x7E5F4552091A69125d5DfCb7b8C2659029395Bdf"
    "ParseAddress (ToLower (if_funded sample_flags)) = Inr 0x7E5F4552091A69125d5DfCb7b8C2659029395Bdf"
    by (simp_all add: ParseAddress_def AddressLen_def bytes_word_def be_val_def)
qed

lemma sample_chainID: "parsePositiveInt (if_chainID sample_flags) = Inr 10086"
  by code_simp

lemma sample_init_free: "init_free sample_disk (if_dir sample_flags) fmempty"
  by (simp add: init_free_def sample_disk_def)

theorem init_then_start_witness:
  "\<exists>n c. cmdStart (world_sample (\<lambda>_. 0)) ''chain''
      (fst (cmdInit sample_disk (\<lambda>_. 0) 1700000000 sample_flags fmempty)) (''chain'', ''chfault.config.yaml'') = Inr n \<and>
    n_chain n = Some c \<and> c_ChainID c = 10086 \<and>
    node_GetBalance 0x7E5F4552091A69125d5DfCb7b8C2659029395Bdf n = Inr ''100000000000000000000000000''"
proof -
  let ?W = "world_sample (\<lambda>_. 0)"
  have W: "w_MkdirAll ?W ''./data'' = None" "w_Open ?W ''./data'' = Inr NewMemory" "w_StartRPC ?W 8545 = None"
    by (simp_all add: world_sample_def)
  have a: "1 \<le> if_validators sample_flags" "if_validators sample_flags \<le> 25" "if_dir sample_flags = ''chain''"
    "(1700000000 :: nat) < 2 ^ 64" "is_ok (ParseAddress (if_funded sample_flags))"
    by (simp_all add: sample_funded(1) is_ok_iff) (simp_all add: sample_flags_def)
  obtain fs' h n c where r: "cmdInit sample_disk (w_keccak ?W) 1700000000 sample_flags fmempty = (fs', Inr h)"
    "cmdStart ?W (if_dir sample_flags) fs' (if_dir sample_flags, ''chfault.config.yaml'') = Inr n"
    "n_chain n = Some c" "c_ChainID c = 10086"
    "node_GetBalance 0x7E5F4552091A69125d5DfCb7b8C2659029395Bdf n = Inr ''100000000000000000000000000''"
    using init_then_start [OF a(1,2,5) sample_funded(2) sample_chainID a(4) sample_init_free W] by blast
  have "fs' = fst (cmdInit sample_disk (\<lambda>_. 0) 1700000000 sample_flags fmempty)" using r(1) by (simp only: world_sample_keccak fst_conv)
  then show ?thesis using r(2-5) a(3) by metis
qed

lemma Validate_chainID:
  assumes "parseUint64 (g_ChainID g) = Inl e"
  obtains e' where "Validate g = Inl e'"
  using assms by (cases "g_ChainID g = []") (simp_all add: Validate_def)

text \<open>
  an \<open>init\<close> that fails on the chain id cannot be repeated. The files are written before they are validated, so after
  an \<open>init\<close> whose chain id is not a number of 64 bits, every \<open>init\<close> of the same directory is refused,
  whatever its flags, and changes nothing, until the user deletes the files.
\<close>

theorem failed_init_sticks:
  assumes "1 \<le> if_validators a" "if_validators a \<le> 25" "is_ok (ParseAddress (if_funded a))" "init_free D (if_dir a) fs"
    and "\<not> is_ok (parseUint64 (if_chainID a))"
  shows "\<exists>fs' e. cmdInit D kec now a fs = (fs', Inl e) \<and>
    (\<forall>D' now' a'. if if_dir a' = if_dir a then \<exists>e'. cmdInit D' kec now' a' fs' = (fs', Inl e') else True)"
proof -
  let ?fs = "init_files a now fs"
  have "g_ChainID (init_genesis (named a) now) = if_chainID a" by (simp add: init_genesis_def)
  moreover obtain e0 where "parseUint64 (if_chainID a) = Inl e0"
    using assms(5) by (cases "parseUint64 (if_chainID a)") (simp_all add: is_ok_iff)
  ultimately obtain e where "Validate (init_genesis (named a) now) = Inl e"
    using Validate_chainID [of "init_genesis (named a) now" e0] by metis
  then have "cmdInit D kec now a fs = (?fs, Inl e)" using cmdInit_writes [OF assms(1-4)] by simp
  moreover have "\<exists>e'. cmdInit D' kec now' a' ?fs = (?fs, Inl e')" if "if_dir a' = if_dir a" for D' now' a'
    using that by (auto simp: cmdInit_def Let_def init_files_def split: sum.splits option.splits)
  ultimately show ?thesis by (intro exI [of _ ?fs] exI [of _ e]) simp
qed

theorem failed_init_sticks_witness:
  "\<exists>fs' e. cmdInit sample_disk (\<lambda>_. 0) 0 (sample_flags\<lparr>if_chainID := ''my-chain''\<rparr>) fmempty = (fs', Inl e) \<and>
    (\<exists>e'. cmdInit sample_disk (\<lambda>_. 0) 0 sample_flags fs' = (fs', Inl e'))"
proof -
  let ?a = "sample_flags\<lparr>if_chainID := ''my-chain''\<rparr>"
  have "\<not> is_ok (parseUint64 ''my-chain'')" by code_simp
  then obtain fs' e where f: "cmdInit sample_disk (\<lambda>_. 0) 0 ?a fmempty = (fs', Inl e)"
    "\<forall>D' now' a'. if if_dir a' = if_dir ?a then \<exists>e'. cmdInit D' (\<lambda>_. 0) now' a' fs' = (fs', Inl e') else True"
    using failed_init_sticks [of ?a sample_disk fmempty "\<lambda>_. 0" 0] sample_funded(1) sample_init_free
    by (auto simp: is_ok_iff sample_flags_def)
  have "if_dir sample_flags = if_dir ?a" by (simp add: sample_flags_def)
  then show ?thesis using f by (metis (full_types))
qed

end
