(* ===== verification/Spec2Isabelle.thy ===== *)
theory Spec2Isabelle
  imports ConsensusRounds ConsensusFork RpcNode Bls Sim Init
begin

text \<open>
  A model of the chfault blockchain node, a Go program, and the theorems that make it correct, together
  with those that show where it is not. The model is a shallow embedding: every Go function is a
  definition of the same name (with a prefix where names clash: \<open>tx_\<close>, \<open>mem_\<close>, \<open>node_\<close>, \<open>rpc_\<close> and so on).

  \<^bold>\<open>The program.\<close> A node keeps a chain of blocks in a key-value store, the account state of each block, and a
  pool of transactions that wait. A transaction comes in over JSON-RPC or from a peer; it is checked
  against the state of the head and put into the pool. At each tick a node that is the proposer of the next
  height selects transactions, runs them on go-ethereum's EVM, makes a block and proposes it. The validators
  vote on it in rounds of two votes, over a swarm of connections; a quorum of precommits commits the
  block, and the node appends it to its chain. Clients read the chain through JSON-RPC.

  \<^bold>\<open>How Go is modelled.\<close> An integer of fixed width is a word, so that it wraps as in Go; an array of bytes is
  a word of its width, a slice a list of bytes. A result with an error is \<open>err + 'a\<close>, and the error \<open>GoPanic\<close> is a
  panic, so out-of-range indices and nil dereferences are values and not left out. A struct is a record, an
  interface value of the package a datatype, a map a finite map; where the source sorts
  the keys of a map, so does the model. A method that changes its receiver returns the new one. Each
  exported method holds its mutex for its whole length, so it is one step, and what other goroutines do is
  an arbitrary sequence of such steps. Texts of errors are shortened; their kinds and codes are kept.
  Loops are structural recursion, \<open>function\<close> with a proved termination, or one of the following:

  \<^item> \<open>nonce_chain\<close> and \<open>exec_loop\<close> (Mempool) walk consecutive nonces with the number of entries plus one
    as fuel, which is enough unless all \<open>2 ^ 64\<close> nonces are present (\<open>nonce_chain_Some\<close>);
  \<^item> \<open>skip_value\<close> (RpcCodec) scans a JSON value with twice the length of the text plus one as fuel, and more changes
    nothing (\<open>behind_value_fuel\<close>);
  \<^item> \<open>advance_loop\<close> (Node) polls until a deadline, and how often it gets to poll is its argument;
  \<^item> \<open>RunRound\<close> (Sim) may run for ever, as messages may breed messages; there it is \<open>None\<close>.

  \<^bold>\<open>The theories,\<close> each with the files under \<open>src/\<close> it models:

  \<^item> Prelude: bytes, errors, sequencing of fallible steps, finite maps; Machine: sequences of operations.
  \<^item> Types (\<open>types/types.go\<close>), Crypto (\<open>crypto/crypto.go\<close>, \<open>signature.go\<close>), Rlp (\<open>crypto/rlp.go\<close>),
    Bls (\<open>crypto/bls/bls.go\<close>).
  \<^item> Storage (\<open>storage/\<close>): the memory store, and the code around Pebble.
  \<^item> State (\<open>state/\<close>): accounts, sessions, journal, commit and state root.
  \<^item> Tx, Block, Receipt, Genesis, Chain (\<open>chain/\<close>): the data of the chain, their codecs, genesis, appending.
  \<^item> Mempool, PoolInv, Selection (\<open>mempool/pool.go\<close>): the pool, its invariant, the selection for a block.
  \<^item> Validators, Consensus (\<open>consensus/message.go\<close>, \<open>state.go\<close>): messages, vote sets, certificates, the state
    machine. ConsensusSafety, ConsensusRounds, ConsensusFork prove what it does; ConsensusEval evaluates runs.
  \<^item> StateDB, Engine (\<open>vm/\<close>): the state adapter of the EVM, execution and read-only calls.
  \<^item> Builder (\<open>node/blockbuilder.go\<close>): the block builder.
  \<^item> Json, Network (\<open>network/\<close>): the wire forms, frames, handshake and the swarm of connections.
  \<^item> NodeConfig, Node, NodeProps (\<open>node/config.go\<close>, \<open>node.go\<close>, \<open>consensus.go\<close>): the node, all of the above in
    one state, and what its methods do.
  \<^item> RpcCodec, Rpc, RpcMethods, RpcNode (\<open>rpc/\<close>, and \<open>startRPC\<close> of \<open>node/node.go\<close>): the JSON-RPC layer, from the
    text of a request to the text or members of the response, and the methods on a node.
  \<^item> Sim (\<open>sim/\<close>): the simulated cluster, with losses, muted nodes and timeouts.
  \<^item> Init (\<open>cmd/chfault/main.go\<close>, \<open>LoadGenesis\<close>, \<open>LoadConfig\<close>): the commands that make a chain and start a node on it.

  \<^bold>\<open>What is shown.\<close>
  Codecs: encoding and decoding transactions, headers, blocks, receipts, RLP items, frames, messages and
  the quantities and data of JSON-RPC are inverse, or the theorem says exactly which fields are lost;
  the RLP decoder accepts the canonical encodings and no other.
  State: rolling back restores every account, except that one created since stays, as an empty account; commits can be
  reopened, roots bind the state.
  Chain: whatever transactions are in its blocks, every reachable chain stands for the list of the blocks that were
  appended, linked by their hashes, and appending refines appending to that list. What \<open>GetBlock\<close> answers
  for each of them is its encoding decoded: the block without cached hashes and senders when it is readable, else an error.
  Pool: the two indices agree in every reachable state, a refused transaction changes nothing, a selection
  is executable, fits the gas limit and follows the priorities.
  Consensus: no operation panics on a started node; what is committed has a proposal of the right
  proposer and a quorum behind it; within a height a node votes for one block a round; timeouts lead
  out of every round, or to the commit step, where a node may be without the block; conflicting commits in one round need
  validators who sign twice. But honest nodes can fork across rounds, since the locked block is never used; the run that does
  it starts the height once at every node, and is evaluated.
  Node: its life cycle, the admission of transactions, production and commit of blocks; a single validator makes
  progress, also with blocks that cannot be read back; a node that follows another's block loses its state.
  JSON-RPC: what a request can do, what batches answer, the bound of the rate limiter and its bypass, the
  blocks served are those of the chain, and a transaction sent reaches the pool.
  BLS: aggregates of honest signatures verify and certificates made of them are accepted, malformed input is
  refused, and a rogue key can speak for others.
  Simulator: whatever is lost, muted or timed out, the cluster commits only justified blocks.
  Commands: a chain made with \<open>init\<close> can be started in its directory, and in no other; an \<open>init\<close> that fails on the
  chain id cannot be repeated.

  \<^bold>\<open>Interfaces.\<close> Where a component relies on a contract it is a locale, proved of the component that provides it:
  \<open>kvstore\<close> (Storage) of the memory store, used by Chain; \<open>journaled\<close> (State) of sessions; \<open>codec\<close> (Tx) of
  transactions, headers, blocks and receipts, each used by the codec around it; \<open>machine\<close> (Machine) of the
  pool and of the swarm; \<open>cons_invariant\<close> (Consensus), which carries a property of started states through
  all mutually recursive operations of consensus, of the safety invariant; \<open>run_property\<close>
  (ConsensusSafety), a smaller contract that gives \<open>cons_invariant\<close> for properties of the logs, the round and the
  step, of progress, of single votes and of growing logs; \<open>chain_reader\<close> (RpcMethods) of the chain of a node.

  \<^bold>\<open>Parameters.\<close> Code outside the repository is an argument of the definitions that use it: Keccak-256, the curve
  operations of decred's secp256k1, kilic's BLS12-381 and SHA-256, go-ethereum's transactions and EVM, holiman's 256-bit
  integers, the Pebble database, the text form of JSON values on the network, and the file system and sockets in the
  record \<open>world\<close>. What the theorems need of them are named hypotheses (\<open>pairing_laws\<close>, \<open>FromBig_ok\<close>
  and the like), and each theorem that has one also has an instance in which it holds. Nothing is assumed of Keccak
  except, where a theorem is about binding, that it does not collide on the inputs named there.

  \<^bold>\<open>Not modelled.\<close>
  Files: those of Init hold values, as decoding YAML and JSON is left to the libraries; \<open>WriteDefault\<close> and \<open>WriteGenesis\<close>,
  which only tests call, and the opening and checkpoint of Pebble are left out. Goroutines, tickers, dialling and accepting: what
  they do to the state is a sequence of the modelled steps, and the wall clock is an argument. The HTTP
  server below \<open>handleRPC\<close>: sockets, timeouts, the health page, and rendering JSON values as text; the scanner of
  \<open>encoding/json\<close> is modelled without its limit on nesting and without replacing invalid UTF-8.
  \<open>DrainDebug\<close> of the simulator, and the \<open>String\<close> methods, which only print. The flags and
  messages of the commands, the generator of test vectors under \<open>cmd/genvectors\<close>, and the static-analysis tool under
  \<open>internal/lint\<close>, which reads Go syntax.
\<close>

end
